(* ===== verification/Prelude.thy ===== *)
theory Prelude
  imports Main "HOL-Library.AList" "HOL-Library.Multiset" "HOL-Library.Sublist"
begin

text \<open>
  Shared by every component: the error values that stand for Python exceptions, the
  integer helpers of \<^verbatim>\<open>python/freetoken/utils/misc.py\<close>, dictionaries in insertion order
  (association lists, \<open>AList.update\<close> and \<open>AList.delete\<close>), and generic lemmas on lists,
  sums and multisets. \<open>dict_simps\<close> and \<open>align_simps\<close> collect the rewrite
  rules the component proofs share.
\<close>

named_theorems dict_simps \<open>rewrite rules for dictionaries in insertion order\<close>
named_theorems align_simps \<open>rewrite rules for page alignment\<close>

section \<open>Errors\<close>

text \<open>
  A Python call either returns (\<open>Inr\<close>) or raises (\<open>Inl\<close>). \<open>Diverges\<close> is no exception of
  the source: it is the value of a loop whose fuel is exhausted, and each component
  proves that its loops never return it from a well-formed state.
\<close>

datatype err =
    AssertionError
  | KeyError
  | IndexError
  | ValueError
  | RuntimeError
  | NotImplementedError
  | AttributeError
  | TypeError
  | StopIteration
  | KeyboardInterrupt
  | ArgumentTypeError
  | OutboxError
  | CacheRebuildRejected
  | AdmissionClosedError
  | AccountingDrainError
  | Diverges

definition and_then :: "err + 'a \<Rightarrow> ('a \<Rightarrow> err + 'b) \<Rightarrow> err + 'b" where
  "and_then m f = (case m of Inl e \<Rightarrow> Inl e | Inr x \<Rightarrow> f x)"

lemma and_then_simps [simp]:
  "and_then (Inl e) f = Inl e"
  "and_then (Inr x) f = f x"
  by (simp_all add: and_then_def)

lemma and_then_cong [fundef_cong]:
  "m = m' \<Longrightarrow> (\<And>x. m' = Inr x \<Longrightarrow> f x = g x) \<Longrightarrow> and_then m f = and_then m' g"
  by (cases m') (auto simp: and_then_def)

lemma and_then_eq_Inr: "and_then m f = Inr y \<longleftrightarrow> (\<exists>x. m = Inr x \<and> f x = Inr y)"
  by (cases m) auto

definition check :: "bool \<Rightarrow> err \<Rightarrow> err + unit" where
  "check b e = (if b then Inr () else Inl e)"

lemma check_simps [simp]:
  "check True e = Inr ()"
  "check False e = Inl e"
  "check b e = Inr u \<longleftrightarrow> b"
  by (simp_all add: check_def)

lemma and_then_check: "and_then (check b e) (\<lambda>_. k) = Inr r \<longleftrightarrow> b \<and> k = Inr r"
  by (cases b) auto

fun map_err :: "('a \<Rightarrow> err + 'b) \<Rightarrow> 'a list \<Rightarrow> err + 'b list" where
  "map_err f [] = Inr []"
| "map_err f (x # xs) = and_then (f x) (\<lambda>y. and_then (map_err f xs) (\<lambda>ys. Inr (y # ys)))"

lemma map_err_ok: "(\<And>x. x \<in> set xs \<Longrightarrow> \<exists>y. f x = Inr y) \<Longrightarrow> \<exists>ys. map_err f xs = Inr ys"
  by (induction xs) (auto, metis and_then_simps(2))

lemma map_err_zip: "map_err f xs = Inr ys \<Longrightarrow> length ys = length xs \<and> (\<forall>p \<in> set (zip xs ys). f (fst p) = Inr (snd p))"
  by (induction xs arbitrary: ys) (fastforce simp: and_then_eq_Inr)+

section \<open>Integer helpers (utils/misc.py)\<close>

text \<open>
  The arguments of the source are Python integers; every call site of the modelled code
  passes non-negative lengths, or a possibly negative eviction frontier. \<open>align_down\<close> and
  \<open>div_ceil\<close> are therefore given on \<open>int\<close>, where \<open>div\<close> rounds down as Python's \<open>//\<close> does, and
  on \<open>nat\<close> for lengths.
\<close>

definition div_ceil :: "int \<Rightarrow> int \<Rightarrow> int" where
  "div_ceil a b = (a + b - 1) div b"

definition align_ceil :: "int \<Rightarrow> int \<Rightarrow> int" where
  "align_ceil a b = div_ceil a b * b"

definition align_down :: "int \<Rightarrow> int \<Rightarrow> int" where
  "align_down a b = (a div b) * b"

definition align_down_nat :: "nat \<Rightarrow> nat \<Rightarrow> nat" where
  "align_down_nat a b = (a div b) * b"

definition div_even :: "int \<Rightarrow> int \<Rightarrow> bool \<Rightarrow> err + int" where
  "div_even a b allow_replicate =
     (if allow_replicate \<and> b > a
      then (if b mod a = 0 then Inr 1 else Inl AssertionError)
      else (if a mod b = 0 then Inr (a div b) else Inl AssertionError))"

lemma align_down_nat_int: "int (align_down_nat a b) = align_down (int a) (int b)"
  by (simp add: align_down_nat_def align_down_def zdiv_int)

lemma align_down_nat_le [simp]: "align_down_nat a b \<le> a"
  by (simp add: align_down_nat_def)

lemma align_down_nat_dvd [simp, intro]: "b dvd align_down_nat a b"
  by (simp add: align_down_nat_def)

lemma align_down_nat_dvd_id [align_simps]: "b dvd a \<Longrightarrow> align_down_nat a b = a"
  by (simp add: align_down_nat_def)

lemma align_down_nat_mono: "a \<le> c \<Longrightarrow> align_down_nat a b \<le> align_down_nat c b"
  by (simp add: align_down_nat_def div_le_mono)

lemma align_down_nat_greatest:
  assumes "b dvd k" and "k \<le> a"
  shows "k \<le> align_down_nat a b"
  using align_down_nat_mono [OF assms(2), of b] align_down_nat_dvd_id [OF assms(1)] by simp

lemma align_down_nat_pos:
  assumes "0 < b" and "b \<le> a"
  shows "0 < align_down_nat a b"
  using align_down_nat_greatest [of b b a] assms by simp

lemma align_down_le: "0 < b \<Longrightarrow> align_down a b \<le> a"
  unfolding align_down_def using pos_mod_sign [of b a] div_mult_mod_eq [of a b] by linarith

lemma div_ceil_mult_ge: "0 < b \<Longrightarrow> a \<le> div_ceil a b * b"
proof -
  assume b: "0 < b"
  have "a + b - 1 = (a + b - 1) div b * b + (a + b - 1) mod b" by simp
  moreover have "(a + b - 1) mod b \<le> b - 1"
    using pos_mod_bound [OF b, of "a + b - 1"] by simp
  ultimately show ?thesis unfolding div_ceil_def by linarith
qed

lemma div_ceil_mult_less: "0 < b \<Longrightarrow> div_ceil a b * b < a + b"
proof -
  assume b: "0 < b"
  have "a + b - 1 = (a + b - 1) div b * b + (a + b - 1) mod b" by simp
  moreover have "0 \<le> (a + b - 1) mod b" using pos_mod_sign [OF b] by simp
  ultimately show ?thesis unfolding div_ceil_def by linarith
qed

lemma div_ceil_mono: "0 < b \<Longrightarrow> a \<le> c \<Longrightarrow> div_ceil a b \<le> div_ceil c b"
  by (simp add: div_ceil_def zdiv_mono1)

section \<open>Common prefixes\<close>

fun match_len :: "'a list \<Rightarrow> 'a list \<Rightarrow> nat" where
  "match_len (x # xs) (y # ys) = (if x = y then Suc (match_len xs ys) else 0)"
| "match_len _ _ = 0"

lemma match_len_le1 [simp]: "match_len xs ys \<le> length xs"
  by (induction xs ys rule: match_len.induct) auto

lemma match_len_le2 [simp]: "match_len xs ys \<le> length ys"
  by (induction xs ys rule: match_len.induct) auto

lemma match_len_take: "k \<le> match_len xs ys \<Longrightarrow> take k xs = take k ys"
proof (induction xs ys arbitrary: k rule: match_len.induct)
  case (1 x xs y ys)
  then show ?case by (cases k) (auto split: if_splits)
qed auto

lemma match_len_ge:
  "take k xs = take k ys \<Longrightarrow> k \<le> length xs \<Longrightarrow> k \<le> length ys \<Longrightarrow> k \<le> match_len xs ys"
proof (induction xs ys arbitrary: k rule: match_len.induct)
  case (1 x xs y ys)
  then show ?case by (cases k) auto
qed auto

section \<open>Dictionaries in insertion order\<close>

lemma map_of_delete_other [dict_simps]: "k \<noteq> k' \<Longrightarrow> map_of (AList.delete k d) k' = map_of d k'"
  by (simp add: AList.delete_conv')

lemma map_of_update [dict_simps]: "map_of (AList.update k v d) = (map_of d)(k \<mapsto> v)"
  by (rule update_conv')

lemma set_update_distinct:
  "distinct (map fst d) \<Longrightarrow>
   set (AList.update k v d) = insert (k, v) {p \<in> set d. fst p \<noteq> k}"
  by (induction d) (auto simp: image_iff)

lemma set_delete_dict: "set (AList.delete k d) = {p \<in> set d. fst p \<noteq> k}"
  by (auto simp: AList.delete_eq)

section \<open>Sums over finite node sets\<close>

lemma sum_fun_upd_insert:
  fixes f g :: "'a \<Rightarrow> 'b::ab_group_add"
  assumes "finite S" and "x \<in> S" and "\<And>y. y \<in> S \<Longrightarrow> y \<noteq> x \<Longrightarrow> g y = f y"
  shows "sum g S = sum f S - f x + g x"
proof -
  have "sum g S = g x + sum g (S - {x})" using assms by (simp add: sum.remove)
  also have "sum g (S - {x}) = sum f (S - {x})" using assms by (intro sum.cong) auto
  also have "sum f (S - {x}) = sum f S - f x" using assms by (simp add: sum_diff1)
  finally show ?thesis by simp
qed

lemma arg_min_list_min: "xs \<noteq> [] \<Longrightarrow> y \<in> set xs \<Longrightarrow> (f (arg_min_list f xs) :: 'b::linorder) \<le> f y"
  by (simp add: f_arg_min_list_f)

end
