(* ===== verification/Radix_Tree.thy ===== *)
theory Radix_Tree
  imports Prelude
begin

text \<open>
  The shared tree of the three prefix caches: \<^verbatim>\<open>RadixTreeNode\<close> of
  \<^verbatim>\<open>python/freetoken/kvcache/radix_cache.py\<close>. Nodes are mutable objects that point to each
  other, so the tree is a store from node identities (the source's \<open>uuid\<close>, drawn from the
  class counter) to node records; the three caches extend the store record with their own
  counters. Values are slices of tensors that are never written in place, so they are lists.
  The source reads a monotonic clock; a reading is a parameter of the operation.
  \<open>tree_inv\<close> is the well-formedness of the store and \<open>cached\<close> the abstract content, a
  relation from token prefixes to slot lists.
\<close>

type_synonym token = int
type_synonym slot = nat
type_synonym nid = nat

record rnode =
  n_key :: "token list"
  n_value :: "slot list"
  n_children :: "(token list \<times> nid) list"
  n_parent :: "nid option"
  n_ref :: int
  n_time :: int
  n_mamba :: "slot option"
  n_mamba_ref :: int
  n_tomb :: bool
  n_swa_ref :: int
  n_swa_uuid :: "nat option"

record rtree =
  heap :: "nid \<Rightarrow> rnode"
  counter :: nid
  root :: nid
  psize :: nat

section \<open>Node operations\<close>

text \<open>
  \<open>_get_key_fn\<close>: the first token for \<open>page_size = 1\<close>, the first page as a tuple otherwise.
  A one-element list stands for the bare token; the keys and the remaining inputs it is
  applied to are never empty (\<open>tree_inv\<close>).
\<close>

definition key_fn :: "nat \<Rightarrow> token list \<Rightarrow> token list" where
  "key_fn ps x = take ps x"

definition new_node :: "int \<Rightarrow> rnode" where
  "new_node tic =
     \<lparr>n_key = [], n_value = [], n_children = [], n_parent = None, n_ref = 0, n_time = tic,
      n_mamba = None, n_mamba_ref = 0, n_tomb = False, n_swa_ref = 0, n_swa_uuid = None\<rparr>"

definition upd :: "nid \<Rightarrow> (rnode \<Rightarrow> rnode) \<Rightarrow> 'a rtree_scheme \<Rightarrow> 'a rtree_scheme" where
  "upd n f t = t\<lparr>heap := (heap t)(n := f (heap t n))\<rparr>"

definition alloc :: "int \<Rightarrow> 'a rtree_scheme \<Rightarrow> 'a rtree_scheme \<times> nid" where
  "alloc tic t =
     (t\<lparr>heap := (heap t)(counter t := new_node tic), counter := Suc (counter t)\<rparr>, counter t)"

definition set_key_value ::
  "nid \<Rightarrow> token list \<Rightarrow> slot list \<Rightarrow> 'a rtree_scheme \<Rightarrow> err + 'a rtree_scheme" where
  "set_key_value n k v t =
     (if length k = length v
      then Inr (upd n (\<lambda>nd. nd\<lparr>n_key := k, n_value := v\<rparr>) t)
      else Inl AssertionError)"

definition set_parent :: "nid \<Rightarrow> nid \<Rightarrow> 'a rtree_scheme \<Rightarrow> 'a rtree_scheme" where
  "set_parent n p t =
     (let t1 = upd n (\<lambda>nd. nd\<lparr>n_parent := Some p\<rparr>) t
      in upd p (\<lambda>nd. nd\<lparr>n_children :=
                 AList.update (key_fn (psize t) (n_key (heap t1 n))) n (n_children nd)\<rparr>) t1)"

definition node_len :: "'a rtree_scheme \<Rightarrow> nid \<Rightarrow> nat" where
  "node_len t n = length (n_key (heap t n))"

definition is_root :: "'a rtree_scheme \<Rightarrow> nid \<Rightarrow> bool" where
  "is_root t n \<longleftrightarrow> n_parent (heap t n) = None"

definition is_leaf :: "'a rtree_scheme \<Rightarrow> nid \<Rightarrow> bool" where
  "is_leaf t n \<longleftrightarrow> n_children (heap t n) = []"

definition get_child :: "'a rtree_scheme \<Rightarrow> nid \<Rightarrow> token list \<Rightarrow> nid option" where
  "get_child t n ids = map_of (n_children (heap t n)) (key_fn (psize t) ids)"

text \<open>
  \<open>split_at\<close>: the new node takes the first \<open>pos\<close> tokens, the node's place below its parent
  and its locks; the node keeps the suffix, its snapshot and its children.
\<close>

definition split_at :: "nid \<Rightarrow> nat \<Rightarrow> 'a rtree_scheme \<Rightarrow> err + ('a rtree_scheme \<times> nid)" where
  "split_at n pos t =
     (let nd = heap t n in
      if \<not> (0 < pos \<and> pos < length (n_key nd)) then Inl AssertionError
      else (case n_parent nd of
        None \<Rightarrow> Inl AssertionError
      | Some p \<Rightarrow>
          (let (t1, m) = alloc (n_time nd) t in
           and_then (set_key_value m (take pos (n_key nd)) (take pos (n_value nd)) t1) (\<lambda>t2.
           let t3 = set_parent m p t2;
               t4 = upd m (\<lambda>x. x\<lparr>n_ref := n_ref nd, n_swa_ref := n_swa_ref nd,
                                  n_tomb := n_tomb nd, n_swa_uuid := n_swa_uuid nd\<rparr>) t3;
               t5 = upd n (\<lambda>x. x\<lparr>n_swa_uuid := None\<rparr>) t4 in
           and_then (set_key_value n (drop pos (n_key nd)) (drop pos (n_value nd)) t5) (\<lambda>t6.
           Inr (set_parent n m t6, m))))))"

text \<open>
  The creation of a child: \<open>RadixTreeNode(...)\<close>, \<open>set_key_value\<close>, \<open>set_parent\<close>, as every insert
  does it.
\<close>

definition add_leaf ::
  "int \<Rightarrow> token list \<Rightarrow> slot list \<Rightarrow> nid \<Rightarrow> 'a rtree_scheme \<Rightarrow> err + ('a rtree_scheme \<times> nid)" where
  "add_leaf tic k v p t =
     (let (t1, m) = alloc tic t in
      and_then (set_key_value m k v t1) (\<lambda>t2. Inr (set_parent m p t2, m)))"

text \<open>\<open>_unlink\<close>: remove a node from its parent's dictionary; the parent is returned.\<close>

definition unlink :: "nid \<Rightarrow> 'a rtree_scheme \<Rightarrow> err + ('a rtree_scheme \<times> nid)" where
  "unlink n t =
     (case n_parent (heap t n) of
        None \<Rightarrow> Inl AssertionError
      | Some p \<Rightarrow>
          (let k = key_fn (psize t) (n_key (heap t n)) in
           if map_of (n_children (heap t p)) k = None then Inl KeyError
           else Inr (upd p (\<lambda>nd. nd\<lparr>n_children := AList.delete k (n_children nd)\<rparr>) t, p)))"

section \<open>Tree loops shared by the caches\<close>

text \<open>
  \<open>_tree_walk\<close> and \<open>HybridRadixCache._walk\<close>. The fuel bounds the number of nodes visited;
  every visited node consumes at least one token, so \<open>Suc (length ids)\<close> is enough.
\<close>

fun walk_loop ::
  "nat \<Rightarrow> int \<Rightarrow> token list \<Rightarrow> nid \<Rightarrow> nat \<Rightarrow> 'a rtree_scheme \<Rightarrow> err + ('a rtree_scheme \<times> nid \<times> nat)"
where
  "walk_loop 0 tic ids node plen t = Inl Diverges"
| "walk_loop (Suc f) tic ids node plen t =
     (if plen < length ids then
        (case get_child t node (drop plen ids) of
           None \<Rightarrow> Inr (t, node, plen)
         | Some c \<Rightarrow>
             (let m = align_down_nat (match_len (n_key (heap t c)) (drop plen ids)) (psize t) in
              if m \<noteq> node_len t c then
                and_then (split_at c m t) (\<lambda>(t', new).
                  Inr (upd new (\<lambda>x. x\<lparr>n_time := tic\<rparr>) t', new, plen + m))
              else walk_loop f tic ids c (plen + m) (upd c (\<lambda>x. x\<lparr>n_time := tic\<rparr>) t)))
      else Inr (t, node, plen))"

definition tree_walk ::
  "int \<Rightarrow> token list \<Rightarrow> 'a rtree_scheme \<Rightarrow> err + ('a rtree_scheme \<times> nid \<times> nat)" where
  "tree_walk tic ids t = walk_loop (Suc (length ids)) tic ids (root t) 0 t"

text \<open>
  The upward loops \<open>while not node.is_root(): ...; node = node.parent\<close>: the nodes they visit,
  from the node to the last one below the root. The fuel is the number of nodes ever created.
\<close>

fun up_loop :: "nat \<Rightarrow> 'a rtree_scheme \<Rightarrow> nid \<Rightarrow> err + nid list" where
  "up_loop 0 t n = Inl Diverges"
| "up_loop (Suc f) t n =
     (case n_parent (heap t n) of
        None \<Rightarrow> Inr []
      | Some p \<Rightarrow> and_then (up_loop f t p) (\<lambda>ns. Inr (n # ns)))"

definition up_path :: "'a rtree_scheme \<Rightarrow> nid \<Rightarrow> err + nid list" where
  "up_path t n = up_loop (Suc (counter t)) t n"

text \<open>\<open>_collect_kv\<close> and the body of \<open>get_matched_indices\<close>: the slots along the path.\<close>

definition path_values :: "'a rtree_scheme \<Rightarrow> nid \<Rightarrow> err + slot list" where
  "path_values t n =
     and_then (up_path t n) (\<lambda>ns. Inr (concat (map (\<lambda>m. n_value (heap t m)) (rev ns))))"

text \<open>
  The stack traversals (\<open>_collect_leave_nodes_for_evict\<close>, \<open>_leaves\<close>, \<open>_snapshot_nodes\<close>,
  \<open>_swa_nodes\<close>, \<open>_all_nodes\<close>) pop the last node of a stack and push its children; they differ
  in what they keep. \<open>dfs\<close> is the order in which they pop.
\<close>

fun dfs_loop :: "nat \<Rightarrow> 'a rtree_scheme \<Rightarrow> nid list \<Rightarrow> nid list \<Rightarrow> err + nid list" where
  "dfs_loop 0 t stack out = (if stack = [] then Inr out else Inl Diverges)"
| "dfs_loop (Suc f) t stack out =
     (if stack = [] then Inr out
      else let n = last stack
           in dfs_loop f t (butlast stack @ map snd (n_children (heap t n))) (out @ [n]))"

definition dfs :: "'a rtree_scheme \<Rightarrow> err + nid list" where
  "dfs t = dfs_loop (counter t) t [root t] []"

text \<open>
  \<open>heapq\<close> over nodes compared by timestamp: \<open>heappop\<close> removes a node with the least
  timestamp. Among equal timestamps the first of the list is taken; \<open>heapq\<close> may take another
  one, and no theorem depends on which.
\<close>

definition heappop :: "'a rtree_scheme \<Rightarrow> nid list \<Rightarrow> nid \<times> nid list" where
  "heappop t q = (let n = arg_min_list (\<lambda>m. n_time (heap t m)) q in (n, remove1 n q))"

definition heappush :: "nid \<Rightarrow> nid list \<Rightarrow> nid list" where
  "heappush n q = q @ [n]"

end
