(* ===== verification/Radix_Invariant.thy ===== *)
theory Radix_Invariant
  imports Radix_Tree
begin

text \<open>
  Well-formedness of the node store and its preservation by the structural updates: a split,
  a new leaf, the removal of a leaf, and any update that leaves keys, values, children and
  parents alone. \<open>tree_inv t L P V\<close> says that \<open>L\<close> is the set of nodes in the tree, and that
  \<open>P n\<close> and \<open>V n\<close> are the tokens and the slots on the path from the root to \<open>n\<close>.
\<close>

section \<open>Well-formed stores\<close>

definition kids_ok :: "'a rtree_scheme \<Rightarrow> nid set \<Rightarrow> nid \<Rightarrow> bool" where
  "kids_ok t L n \<longleftrightarrow>
     distinct (map fst (n_children (heap t n))) \<and>
     (\<forall>(k, c) \<in> set (n_children (heap t n)).
        c \<in> L \<and> c \<noteq> root t \<and> n_parent (heap t c) = Some n \<and>
        k = key_fn (psize t) (n_key (heap t c)))"

definition node_ok ::
  "'a rtree_scheme \<Rightarrow> nid set \<Rightarrow> (nid \<Rightarrow> token list) \<Rightarrow> (nid \<Rightarrow> slot list) \<Rightarrow> nid \<Rightarrow> bool" where
  "node_ok t L P V n \<longleftrightarrow>
     (\<exists>p \<in> L. n_parent (heap t n) = Some p \<and>
        (key_fn (psize t) (n_key (heap t n)), n) \<in> set (n_children (heap t p)) \<and>
        n_key (heap t n) \<noteq> [] \<and> psize t dvd length (n_key (heap t n)) \<and>
        length (n_value (heap t n)) = length (n_key (heap t n)) \<and>
        P n = P p @ n_key (heap t n) \<and> V n = V p @ n_value (heap t n))"

definition tree_inv ::
  "'a rtree_scheme \<Rightarrow> nid set \<Rightarrow> (nid \<Rightarrow> token list) \<Rightarrow> (nid \<Rightarrow> slot list) \<Rightarrow> bool" where
  "tree_inv t L P V \<longleftrightarrow>
     0 < psize t \<and> root t \<in> L \<and> L \<subseteq> {..<counter t} \<and>
     n_parent (heap t (root t)) = None \<and> P (root t) = [] \<and> V (root t) = [] \<and>
     (\<forall>n \<in> L. n \<noteq> root t \<longrightarrow> node_ok t L P V n) \<and> (\<forall>n \<in> L. kids_ok t L n)"

definition shape :: "rnode \<Rightarrow> token list \<times> slot list \<times> (token list \<times> nid) list \<times> nid option" where
  "shape nd = (n_key nd, n_value nd, n_children nd, n_parent nd)"

lemma tree_inv_cong:
  assumes "tree_inv t L P V"
    and "\<And>n. n \<in> L \<Longrightarrow> shape (heap t' n) = shape (heap t n)"
    and "counter t' = counter t" and "root t' = root t" and "psize t' = psize t"
  shows "tree_inv t' L P V"
proof -
  have s: "\<And>n. n \<in> L \<Longrightarrow> n_key (heap t' n) = n_key (heap t n) \<and> n_value (heap t' n) = n_value (heap t n)
      \<and> n_children (heap t' n) = n_children (heap t n) \<and> n_parent (heap t' n) = n_parent (heap t n)"
    using assms(2) by (simp add: shape_def)
  have k: "\<And>n. n \<in> L \<Longrightarrow> kids_ok t' L n"
    using assms(1) s assms(4,5) unfolding tree_inv_def kids_ok_def by fastforce
  have n: "\<And>n. n \<in> L \<Longrightarrow> n \<noteq> root t \<Longrightarrow> node_ok t' L P V n"
    using assms(1) s assms(4,5) unfolding tree_inv_def node_ok_def by fastforce
  show ?thesis using assms(1,3-5) s k n unfolding tree_inv_def by auto
qed

section \<open>Consequences\<close>

lemma inv_basic:
  assumes "tree_inv t L P V"
  shows inv_psize: "0 < psize t"
    and inv_root: "root t \<in> L"
    and inv_root_parent: "n_parent (heap t (root t)) = None"
    and inv_root_P: "P (root t) = []"
    and inv_root_V: "V (root t) = []"
    and inv_lt: "n \<in> L \<Longrightarrow> n < counter t"
    and inv_finite: "finite L"
  using assms finite_subset [of L "{..<counter t}"] by (auto simp: tree_inv_def)

lemma inv_node:
  assumes "tree_inv t L P V" and "n \<in> L" and "n \<noteq> root t"
  obtains p where "p \<in> L" "n_parent (heap t n) = Some p"
    "(key_fn (psize t) (n_key (heap t n)), n) \<in> set (n_children (heap t p))"
    "n_key (heap t n) \<noteq> []" "psize t dvd length (n_key (heap t n))"
    "length (n_value (heap t n)) = length (n_key (heap t n))"
    "P n = P p @ n_key (heap t n)" "V n = V p @ n_value (heap t n)"
  using assms unfolding tree_inv_def node_ok_def by blast

lemma inv_node_len:
  assumes "tree_inv t L P V" and "n \<in> L" and "n \<noteq> root t"
  shows inv_len_pos: "0 < node_len t n"
    and inv_page_le: "psize t \<le> node_len t n"
    and inv_len_dvd: "psize t dvd node_len t n"
    and inv_len_value: "length (n_value (heap t n)) = node_len t n"
proof -
  from inv_node [OF assms] obtain p where "n_key (heap t n) \<noteq> []"
    "psize t dvd length (n_key (heap t n))"
    "length (n_value (heap t n)) = length (n_key (heap t n))" by metis
  then show "0 < node_len t n" "psize t dvd node_len t n"
    "length (n_value (heap t n)) = node_len t n" by (auto simp: node_len_def)
  then show "psize t \<le> node_len t n" by (simp add: dvd_imp_le)
qed

lemma inv_is_root: "tree_inv t L P V \<Longrightarrow> n \<in> L \<Longrightarrow> is_root t n \<longleftrightarrow> n = root t"
  unfolding is_root_def using inv_node inv_root_parent by (metis option.distinct(1))

lemma inv_kids: "tree_inv t L P V \<Longrightarrow> n \<in> L \<Longrightarrow> distinct (map fst (n_children (heap t n)))"
  by (auto simp: tree_inv_def kids_ok_def)

lemma inv_kid:
  assumes inv: "tree_inv t L P V" and "n \<in> L" and "(k, c) \<in> set (n_children (heap t n))"
  shows "c \<in> L" "c \<noteq> root t" "n_parent (heap t c) = Some n" "k = key_fn (psize t) (n_key (heap t c))"
    "P c = P n @ n_key (heap t c)" "V c = V n @ n_value (heap t c)"
proof -
  have "kids_ok t L n" using assms(1,2) by (simp add: tree_inv_def)
  then show 1: "c \<in> L" "c \<noteq> root t" "n_parent (heap t c) = Some n" "k = key_fn (psize t) (n_key (heap t c))"
    using assms(3) by (auto simp: kids_ok_def)
  then show "P c = P n @ n_key (heap t c)" "V c = V n @ n_value (heap t c)"
    using inv_node [OF inv 1(1,2)] by (metis option.inject)+
qed

lemma inv_kid_ids: "tree_inv t L P V \<Longrightarrow> n \<in> L \<Longrightarrow> distinct (map snd (n_children (heap t n)))"
proof -
  assume inv: "tree_inv t L P V" and n: "n \<in> L"
  have "inj_on snd (set (n_children (heap t n)))"
    using inv_kid(4) [OF inv n] unfolding inj_on_def by (metis prod.collapse)
  moreover have "distinct (n_children (heap t n))"
    using inv_kids [OF inv n] by (simp add: distinct_map)
  ultimately show ?thesis by (simp add: distinct_map)
qed

lemma inv_induct [consumes 2, case_names root node]:
  assumes inv: "tree_inv t L P V" and "n \<in> L"
    and "Q (root t)"
    and "\<And>n p. n \<in> L \<Longrightarrow> n \<noteq> root t \<Longrightarrow> p \<in> L \<Longrightarrow> n_parent (heap t n) = Some p \<Longrightarrow>
           P n = P p @ n_key (heap t n) \<Longrightarrow> V n = V p @ n_value (heap t n) \<Longrightarrow> Q p \<Longrightarrow> Q n"
  shows "Q n"
  using assms(2)
proof (induction "length (P n)" arbitrary: n rule: less_induct)
  case less
  show ?case
  proof (cases "n = root t")
    case False
    from inv_node [OF inv less.prems False] obtain p where p: "p \<in> L" "n_parent (heap t n) = Some p"
      "n_key (heap t n) \<noteq> []" "P n = P p @ n_key (heap t n)" "V n = V p @ n_value (heap t n)" by metis
    then have "Q p" by (intro less.hyps) auto
    show ?thesis by (rule assms(4) [OF less.prems False p(1,2,4,5) \<open>Q p\<close>])
  qed (simp add: assms(3))
qed

lemma inv_len_PV:
  assumes inv: "tree_inv t L P V" and "n \<in> L"
  shows "length (V n) = length (P n)"
  using assms
proof (induction rule: inv_induct)
  case root
  show ?case by (simp add: inv_root_P [OF inv] inv_root_V [OF inv])
next
  case (node n p)
  then show ?case using inv_len_value [OF inv, of n] by (simp add: node_len_def)
qed

lemma inv_P_dvd:
  assumes inv: "tree_inv t L P V" and "n \<in> L"
  shows "psize t dvd length (P n)"
  using assms
proof (induction rule: inv_induct)
  case root
  show ?case by (simp add: inv_root_P [OF inv])
next
  case (node n p)
  then show ?case using inv_len_dvd [OF inv, of n] by (simp add: node_len_def)
qed

lemma inv_get_child:
  assumes "tree_inv t L P V" and "n \<in> L"
  shows "get_child t n x = Some c \<longleftrightarrow> (key_fn (psize t) x, c) \<in> set (n_children (heap t n))"
  unfolding get_child_def using map_of_eq_Some_iff [OF inv_kids [OF assms]] .

lemma inv_get_child_dest:
  assumes inv: "tree_inv t L P V" and "n \<in> L" and "get_child t n x = Some c"
  shows "c \<in> L" "c \<noteq> root t" "n_parent (heap t c) = Some n" "take (psize t) x = take (psize t) (n_key (heap t c))"
    "P c = P n @ n_key (heap t c)" "V c = V n @ n_value (heap t c)"
proof -
  from assms have m: "(key_fn (psize t) x, c) \<in> set (n_children (heap t n))"
    by (simp add: inv_get_child)
  show "c \<in> L" "c \<noteq> root t" "n_parent (heap t c) = Some n" "P c = P n @ n_key (heap t c)"
    "V c = V n @ n_value (heap t c)"
    by (rule inv_kid [OF inv assms(2) m])+
  show "take (psize t) x = take (psize t) (n_key (heap t c))"
    using inv_kid(4) [OF inv assms(2) m] by (simp add: key_fn_def)
qed

lemma inv_child_of:
  assumes inv: "tree_inv t L P V" and "c \<in> L" and "n_parent (heap t c) = Some n"
    and "take (psize t) x = take (psize t) (n_key (heap t c))"
  shows "get_child t n x = Some c" "n \<in> L"
proof -
  have "c \<noteq> root t" using assms(3) inv_root_parent [OF inv] by auto
  from inv_node [OF inv assms(2) this] obtain p where p: "p \<in> L" "n_parent (heap t c) = Some p"
    "(key_fn (psize t) (n_key (heap t c)), c) \<in> set (n_children (heap t p))" by metis
  with assms show "get_child t n x = Some c" "n \<in> L" by (auto simp: inv_get_child key_fn_def)
qed

text \<open>A matched child shares at least one page with the remaining input.\<close>

lemma inv_child_match:
  assumes inv: "tree_inv t L P V" and "n \<in> L" and "get_child t n x = Some c"
  shows "psize t \<le> match_len (n_key (heap t c)) x"
proof (rule match_len_ge)
  note c = inv_get_child_dest [OF assms]
  show "take (psize t) (n_key (heap t c)) = take (psize t) x" using c by simp
  show k: "psize t \<le> length (n_key (heap t c))"
    using inv_page_le [OF inv c(1,2)] by (simp add: node_len_def)
  have "length (take (psize t) x) = length (take (psize t) (n_key (heap t c)))" using c by simp
  then show "psize t \<le> length x" using k by (simp add: min_def split: if_splits)
qed

end
