(* ===== verification/Radix_Update.thy ===== *)
theory Radix_Update
  imports Radix_Invariant
begin

text \<open>
  The three structural updates of the store and what they do to \<open>tree_inv\<close>: \<open>split_at\<close>,
  attaching a fresh leaf, and unlinking a leaf.
\<close>

section \<open>Updates that keep the shape\<close>

lemma upd_simps [simp]:
  "counter (upd n f t) = counter t" "root (upd n f t) = root t" "psize (upd n f t) = psize t"
  "heap (upd n f t) n = f (heap t n)" "m \<noteq> n \<Longrightarrow> heap (upd n f t) m = heap t m"
  by (simp_all add: upd_def)

lemma heap_upd: "heap (upd n f t) = (heap t)(n := f (heap t n))"
  by (simp add: upd_def)

lemma tree_inv_upd:
  assumes "tree_inv t L P V" and "shape (f (heap t n)) = shape (heap t n)"
  shows "tree_inv (upd n f t) L P V"
  by (rule tree_inv_cong [OF assms(1)]) (auto simp: heap_upd assms(2))

lemma inv_parent_neq:
  assumes inv: "tree_inv t L P V" and "n \<in> L" "n_parent (heap t n) = Some p"
  shows "p \<noteq> n" "p \<in> L"
proof -
  have r: "n \<noteq> root t" using assms(3) inv_root_parent [OF inv] by auto
  from inv_node [OF inv assms(2) r] show "p \<noteq> n" "p \<in> L" using assms(3) by fastforce+
qed

section \<open>Splitting a node\<close>

definition split_result :: "nid \<Rightarrow> nid \<Rightarrow> nat \<Rightarrow> 'a rtree_scheme \<Rightarrow> 'a rtree_scheme" where
  "split_result n p pos t =
     (let nd = heap t n; m = counter t in
      t\<lparr>heap := (heap t)
          (m := (new_node (n_time nd))
             \<lparr>n_key := take pos (n_key nd), n_value := take pos (n_value nd),
              n_children := [(key_fn (psize t) (drop pos (n_key nd)), n)], n_parent := Some p,
              n_ref := n_ref nd, n_swa_ref := n_swa_ref nd, n_tomb := n_tomb nd,
              n_swa_uuid := n_swa_uuid nd\<rparr>,
           p := (heap t p)\<lparr>n_children :=
                  AList.update (key_fn (psize t) (take pos (n_key nd))) m (n_children (heap t p))\<rparr>,
           n := nd\<lparr>n_key := drop pos (n_key nd), n_value := drop pos (n_value nd),
                   n_parent := Some m, n_swa_uuid := None\<rparr>),
        counter := Suc m\<rparr>)"

lemma split_at_eq:
  assumes inv: "tree_inv t L P V" and n: "n \<in> L" "n_parent (heap t n) = Some p"
    and pos: "0 < pos" "pos < node_len t n"
  shows "split_at n pos t = Inr (split_result n p pos t, counter t)"
proof -
  have r: "n \<noteq> root t" using n(2) inv_root_parent [OF inv] by auto
  have len: "length (n_value (heap t n)) = length (n_key (heap t n))"
    using inv_len_value [OF inv n(1) r] by (simp add: node_len_def)
  note p = inv_parent_neq [OF inv n]
  have "n < counter t" "p < counter t" using inv_lt [OF inv] n(1) p(2) by auto
  then have ne: "n \<noteq> counter t" "p \<noteq> counter t" "counter t \<noteq> n" "counter t \<noteq> p" "p \<noteq> n" "n \<noteq> p"
    using p(1) by auto
  let ?m = "counter t" and ?nd = "heap t n"
  define t1 where "t1 = fst (alloc (n_time ?nd) t)"
  define t2 where "t2 = upd ?m (\<lambda>x. x\<lparr>n_key := take pos (n_key ?nd), n_value := take pos (n_value ?nd)\<rparr>) t1"
  define t3 where "t3 = set_parent ?m p t2"
  define t4 where "t4 = upd ?m (\<lambda>x. x\<lparr>n_ref := n_ref ?nd, n_swa_ref := n_swa_ref ?nd,
                                  n_tomb := n_tomb ?nd, n_swa_uuid := n_swa_uuid ?nd\<rparr>) t3"
  define t5 where "t5 = upd n (\<lambda>x. x\<lparr>n_swa_uuid := None\<rparr>) t4"
  define t6 where "t6 = upd n (\<lambda>x. x\<lparr>n_key := drop pos (n_key ?nd), n_value := drop pos (n_value ?nd)\<rparr>) t5"
  have "split_at n pos t = Inr (set_parent n ?m t6, ?m)"
    using pos len
    by (simp add: split_at_def Let_def n(2) node_len_def set_key_value_def alloc_def
        t6_def t5_def t4_def t3_def t2_def t1_def)
  moreover have "set_parent n ?m t6 = split_result n p pos t"
  proof (rule rtree.equality)
    have h1: "heap t1 = (heap t)(?m := new_node (n_time ?nd))" by (simp add: t1_def alloc_def)
    have h2: "heap t2 = (heap t)(?m := (new_node (n_time ?nd))\<lparr>n_key := take pos (n_key ?nd), n_value := take pos (n_value ?nd)\<rparr>)"
      by (simp add: t2_def heap_upd h1)
    have ps: "psize t1 = psize t" "psize t2 = psize t" by (simp_all add: t2_def t1_def alloc_def)
    have h3: "heap t3 = (heap t2)(?m := (heap t2 ?m)\<lparr>n_parent := Some p\<rparr>,
        p := (heap t p)\<lparr>n_children := AList.update (key_fn (psize t) (take pos (n_key ?nd))) ?m (n_children (heap t p))\<rparr>)"
      using ne by (simp add: t3_def set_parent_def Let_def heap_upd h2 ps)
    have ps3: "psize t6 = psize t" by (simp add: t6_def t5_def t4_def t3_def set_parent_def Let_def ps)
    have h6: "heap t6 = (heap t3)(?m := (heap t3 ?m)\<lparr>n_ref := n_ref ?nd, n_swa_ref := n_swa_ref ?nd,
                                  n_tomb := n_tomb ?nd, n_swa_uuid := n_swa_uuid ?nd\<rparr>,
        n := ?nd\<lparr>n_swa_uuid := None, n_key := drop pos (n_key ?nd), n_value := drop pos (n_value ?nd)\<rparr>)"
      using ne by (simp add: t6_def t5_def t4_def heap_upd h3 h2)
    have "heap (set_parent n ?m t6) q = heap (split_result n p pos t) q" for q
    proof -
      consider "q = ?m" | "q = p" | "q = n" | "q \<noteq> ?m" "q \<noteq> p" "q \<noteq> n" by blast
      then show ?thesis
      proof cases
        case 1
        then show ?thesis
          using ne by (simp add: set_parent_def Let_def heap_upd h6 h3 h2 ps3 split_result_def new_node_def)
      next
        case 2
        then show ?thesis
          using ne by (simp add: set_parent_def Let_def heap_upd h6 h3 split_result_def)
      next
        case 3
        then show ?thesis
          using ne by (simp add: set_parent_def Let_def heap_upd h6 split_result_def)
      next
        case 4
        then show ?thesis
          by (simp add: set_parent_def Let_def heap_upd h6 h3 h2 split_result_def)
      qed
    qed
    then show "heap (set_parent n ?m t6) = heap (split_result n p pos t)" by (rule ext)
  qed (simp_all add: set_parent_def Let_def t6_def t5_def t4_def t3_def t2_def t1_def upd_def
        alloc_def split_result_def)
  ultimately show ?thesis by simp
qed

lemma split_result_simps:
  "counter (split_result n p pos t) = Suc (counter t)"
  "root (split_result n p pos t) = root t"
  "psize (split_result n p pos t) = psize t"
  by (simp_all add: split_result_def Let_def)

lemma split_result_other:
  "q \<noteq> counter t \<Longrightarrow> q \<noteq> n \<Longrightarrow> q \<noteq> p \<Longrightarrow> heap (split_result n p pos t) q = heap t q"
  by (simp add: split_result_def Let_def)

lemma tree_inv_split:
  assumes inv: "tree_inv t L P V" and n: "n \<in> L" "n_parent (heap t n) = Some p"
    and pos: "0 < pos" "pos < node_len t n" "psize t dvd pos"
  shows "tree_inv (split_result n p pos t) (insert (counter t) L)
           (P(counter t := P p @ take pos (n_key (heap t n))))
           (V(counter t := V p @ take pos (n_value (heap t n))))"
proof -
  let ?m = "counter t" and ?t = "split_result n p pos t"
  let ?L = "insert ?m L" and ?nd = "heap t n"
  let ?P = "P(?m := P p @ take pos (n_key ?nd))" and ?V = "V(?m := V p @ take pos (n_value ?nd))"
  let ?k = "key_fn (psize t) (n_key ?nd)"
  have r: "n \<noteq> root t" using n(2) inv_root_parent [OF inv] by auto
  note p = inv_parent_neq [OF inv n]
  have lt: "\<And>q. q \<in> L \<Longrightarrow> q \<noteq> ?m" using inv_lt [OF inv] by auto
  have ne: "n \<noteq> ?m" "p \<noteq> ?m" "p \<noteq> n" "root t \<noteq> ?m" using lt n(1) p inv_root [OF inv] by auto
  from inv_node [OF inv n(1) r] n(2)
  have nn: "(?k, n) \<in> set (n_children (heap t p))" "psize t dvd length (n_key ?nd)"
    "length (n_value ?nd) = length (n_key ?nd)" "P n = P p @ n_key ?nd" "V n = V p @ n_value ?nd"
    by force+
  have k: "key_fn (psize t) (take pos (n_key ?nd)) = ?k"
    using dvd_imp_le [OF pos(3,1)] by (simp add: key_fn_def)
  have hm: "heap ?t ?m = (new_node (n_time ?nd))
             \<lparr>n_key := take pos (n_key ?nd), n_value := take pos (n_value ?nd),
              n_children := [(key_fn (psize t) (drop pos (n_key ?nd)), n)], n_parent := Some p,
              n_ref := n_ref ?nd, n_swa_ref := n_swa_ref ?nd, n_tomb := n_tomb ?nd,
              n_swa_uuid := n_swa_uuid ?nd\<rparr>"
    using ne by (simp add: split_result_def Let_def)
  have hp: "heap ?t p = (heap t p)\<lparr>n_children := AList.update ?k ?m (n_children (heap t p))\<rparr>"
    using ne k by (simp add: split_result_def Let_def)
  have hn: "heap ?t n = ?nd\<lparr>n_key := drop pos (n_key ?nd), n_value := drop pos (n_value ?nd),
                   n_parent := Some ?m, n_swa_uuid := None\<rparr>"
    using ne by (simp add: split_result_def Let_def)
  have ho: "\<And>q. q \<in> L \<Longrightarrow> q \<noteq> n \<Longrightarrow> q \<noteq> p \<Longrightarrow> heap ?t q = heap t q"
    using lt by (simp add: split_result_other)
  have same: "\<And>q. q \<in> L \<Longrightarrow> q \<noteq> n \<Longrightarrow> n_key (heap ?t q) = n_key (heap t q)
      \<and> n_value (heap ?t q) = n_value (heap t q) \<and> n_parent (heap ?t q) = n_parent (heap t q)"
    using hp ho by (metis rnode.simps(1,2,4) rnode.update_convs(3) rnode.surjective)
  have kidp: "set (n_children (heap ?t p)) =
      insert (?k, ?m) {q \<in> set (n_children (heap t p)). fst q \<noteq> ?k}"
    using hp set_update_distinct [OF inv_kids [OF inv p(2)]] by simp
  have onlyn: "\<And>c. (?k, c) \<in> set (n_children (heap t p)) \<Longrightarrow> c = n"
    using nn(1) inv_get_child [OF inv p(2), of "n_key ?nd"] by (metis option.inject)
  note [simp] = split_result_simps
  have kids: "kids_ok ?t ?L q" if q: "q \<in> ?L" for q
  proof -
    consider "q = ?m" | "q = p" | "q = n" | "q \<in> L" "q \<noteq> p" "q \<noteq> n" "q \<noteq> ?m" using q by auto
    then show ?thesis
    proof cases
      case 1
      then show ?thesis using hm hn n(1) r by (simp add: kids_ok_def)
    next
      case 2
      have "distinct (map fst (n_children (heap ?t p)))"
        using hp distinct_update [OF inv_kids [OF inv p(2)]] by simp
      moreover have "c \<in> ?L \<and> c \<noteq> root t \<and> n_parent (heap ?t c) = Some p
          \<and> x = key_fn (psize t) (n_key (heap ?t c))"
        if "(x, c) \<in> set (n_children (heap ?t p))" for x c
      proof (cases "c = ?m")
        case True
        then show ?thesis using that kidp hm k ne lt inv_kid(1) [OF inv p(2)] by auto
      next
        case False
        then have c: "(x, c) \<in> set (n_children (heap t p))" "x \<noteq> ?k" using that kidp by auto
        note c' = inv_kid [OF inv p(2) c(1)]
        have "c \<noteq> n" using c(2) c'(4) by auto
        then show ?thesis using c' same [of c] by simp
      qed
      ultimately show ?thesis using 2 by (auto simp: kids_ok_def)
    next
      case 3
      have "c \<in> ?L \<and> c \<noteq> root t \<and> n_parent (heap ?t c) = Some n
          \<and> x = key_fn (psize t) (n_key (heap ?t c))"
        if "(x, c) \<in> set (n_children (heap t n))" for x c
      proof -
        note c' = inv_kid [OF inv n(1) that]
        have "c \<noteq> n" using c'(3) n(2) ne(3) by auto
        then show ?thesis using c' same [of c] by simp
      qed
      then show ?thesis using 3 hn inv_kids [OF inv n(1)] by (auto simp: kids_ok_def)
    next
      case 4
      have "c \<in> ?L \<and> c \<noteq> root t \<and> n_parent (heap ?t c) = Some q
          \<and> x = key_fn (psize t) (n_key (heap ?t c))"
        if "(x, c) \<in> set (n_children (heap t q))" for x c
      proof -
        note c' = inv_kid [OF inv 4(1) that]
        have "c \<noteq> n" using c'(3) n(2) 4(2) by auto
        then show ?thesis using c' same [of c] by simp
      qed
      then show ?thesis using ho [OF 4(1)] 4 inv_kids [OF inv 4(1)] by (auto simp: kids_ok_def)
    qed
  qed
  have nodes: "node_ok ?t ?L ?P ?V q" if q: "q \<in> ?L" "q \<noteq> root t" for q
  proof -
    consider "q = ?m" | "q = n" | "q \<in> L" "q \<noteq> n" "q \<noteq> ?m" using q by auto
    then show ?thesis
    proof cases
      case 1
      then show ?thesis
        using hm p(2) kidp k pos nn ne unfolding node_ok_def
        by (intro bexI [of _ p]) (auto simp: node_len_def)
    next
      case 2
      have "psize t dvd length (n_key ?nd) - pos" using nn(2) pos(3) by (simp add: dvd_diff_nat)
      then show ?thesis
        using 2 hm hn pos nn ne unfolding node_ok_def
        by (intro bexI [of _ ?m]) (auto simp: node_len_def)
    next
      case 3
      from inv_node [OF inv 3(1) q(2)] obtain s where s: "s \<in> L" "n_parent (heap t q) = Some s"
        "(key_fn (psize t) (n_key (heap t q)), q) \<in> set (n_children (heap t s))"
        "n_key (heap t q) \<noteq> []" "psize t dvd length (n_key (heap t q))"
        "length (n_value (heap t q)) = length (n_key (heap t q))"
        "P q = P s @ n_key (heap t q)" "V q = V s @ n_value (heap t q)" by metis
      have "(key_fn (psize t) (n_key (heap t q)), q) \<in> set (n_children (heap ?t s))"
      proof (cases "s = p")
        case True
        then have "key_fn (psize t) (n_key (heap t q)) \<noteq> ?k" using s(3) onlyn 3(2) by auto
        then show ?thesis using True s(3) kidp by simp
      next
        case False
        then show ?thesis using s(1,3) hn ho [of s] by (cases "s = n") auto
      qed
      then show ?thesis
        using s same [OF 3(1,2)] 3 lt unfolding node_ok_def by (intro bexI [of _ s]) auto
    qed
  qed
  have "n_parent (heap ?t (root t)) = None"
    using same [OF inv_root [OF inv]] r inv_root_parent [OF inv] by simp
  then show ?thesis
    using kids nodes inv_basic [OF inv] ne unfolding tree_inv_def by (auto simp: less_Suc_eq)
qed

section \<open>Attaching a leaf\<close>

definition leaf_result ::
  "int \<Rightarrow> token list \<Rightarrow> slot list \<Rightarrow> nid \<Rightarrow> 'a rtree_scheme \<Rightarrow> 'a rtree_scheme" where
  "leaf_result tic k v p t =
     t\<lparr>heap := (heap t)
         (counter t := (new_node tic)\<lparr>n_key := k, n_value := v, n_parent := Some p\<rparr>,
          p := (heap t p)\<lparr>n_children :=
                 AList.update (key_fn (psize t) k) (counter t) (n_children (heap t p))\<rparr>),
       counter := Suc (counter t)\<rparr>"

lemma add_leaf_eq:
  assumes "p \<noteq> counter t" and "length k = length v"
  shows "add_leaf tic k v p t = Inr (leaf_result tic k v p t, counter t)"
  using assms
  by (simp add: add_leaf_def leaf_result_def alloc_def set_key_value_def set_parent_def upd_def
      new_node_def Let_def fun_upd_twist)

lemma add_leaf_error: "length k \<noteq> length v \<Longrightarrow> add_leaf tic k v p t = Inl AssertionError"
  by (simp add: add_leaf_def alloc_def set_key_value_def)

lemma leaf_result_simps:
  "counter (leaf_result tic k v p t) = Suc (counter t)"
  "root (leaf_result tic k v p t) = root t"
  "psize (leaf_result tic k v p t) = psize t"
  by (simp_all add: leaf_result_def)

lemma leaf_result_other:
  "q \<noteq> counter t \<Longrightarrow> q \<noteq> p \<Longrightarrow> heap (leaf_result tic k v p t) q = heap t q"
  by (simp add: leaf_result_def)

lemma tree_inv_leaf:
  assumes inv: "tree_inv t L P V" and p: "p \<in> L" "get_child t p k = None"
    and k: "k \<noteq> []" "psize t dvd length k" "length v = length k"
  shows "tree_inv (leaf_result tic k v p t) (insert (counter t) L)
           (P(counter t := P p @ k)) (V(counter t := V p @ v))"
proof -
  let ?m = "counter t" and ?t = "leaf_result tic k v p t"
  let ?L = "insert ?m L" and ?k = "key_fn (psize t) k"
  let ?P = "P(?m := P p @ k)" and ?V = "V(?m := V p @ v)"
  have lt: "\<And>q. q \<in> L \<Longrightarrow> q \<noteq> ?m" using inv_lt [OF inv] by auto
  have ne: "p \<noteq> ?m" "root t \<noteq> ?m" using lt p inv_root [OF inv] by auto
  have hm: "heap ?t ?m = (new_node tic)\<lparr>n_key := k, n_value := v, n_parent := Some p\<rparr>"
    using ne by (simp add: leaf_result_def)
  have hp: "heap ?t p = (heap t p)\<lparr>n_children := AList.update ?k ?m (n_children (heap t p))\<rparr>"
    using ne by (simp add: leaf_result_def)
  have ho: "\<And>q. q \<in> L \<Longrightarrow> q \<noteq> p \<Longrightarrow> heap ?t q = heap t q"
    using lt by (simp add: leaf_result_other)
  have same: "\<And>q. q \<in> L \<Longrightarrow> n_key (heap ?t q) = n_key (heap t q)
      \<and> n_value (heap ?t q) = n_value (heap t q) \<and> n_parent (heap ?t q) = n_parent (heap t q)"
    using hp ho by (metis rnode.simps(1,2,4) rnode.update_convs(3) rnode.surjective)
  have fresh: "\<And>c. (?k, c) \<notin> set (n_children (heap t p))"
    using p(2) inv_get_child [OF inv p(1), of k] by (metis option.distinct(1))
  have kidp: "set (n_children (heap ?t p)) = insert (?k, ?m) (set (n_children (heap t p)))"
    using hp set_update_distinct [OF inv_kids [OF inv p(1)]] fresh by auto
  note [simp] = leaf_result_simps
  have kids: "kids_ok ?t ?L q" if q: "q \<in> ?L" for q
  proof (cases "q = ?m")
    case True
    then show ?thesis using hm by (simp add: kids_ok_def new_node_def)
  next
    case False
    then have qL: "q \<in> L" using q by simp
    have old: "c \<in> ?L \<and> c \<noteq> root t \<and> n_parent (heap ?t c) = Some q
          \<and> x = key_fn (psize t) (n_key (heap ?t c))"
      if "(x, c) \<in> set (n_children (heap t q))" for x c
      using inv_kid [OF inv qL that] same [of c] by simp
    show ?thesis
    proof (cases "q = p")
      case True
      have "distinct (map fst (n_children (heap ?t p)))"
        using hp distinct_update [OF inv_kids [OF inv p(1)]] by simp
      then show ?thesis
        using True old kidp hm ne by (auto simp: kids_ok_def)
    next
      case False
      then show ?thesis using ho [OF qL] old inv_kids [OF inv qL] by (auto simp: kids_ok_def)
    qed
  qed
  have nodes: "node_ok ?t ?L ?P ?V q" if q: "q \<in> ?L" "q \<noteq> root t" for q
  proof (cases "q = ?m")
    case True
    then show ?thesis
      using hm p k kidp ne unfolding node_ok_def by (intro bexI [of _ p]) auto
  next
    case False
    then have qL: "q \<in> L" using q by simp
    from inv_node [OF inv qL q(2)] obtain s where s: "s \<in> L" "n_parent (heap t q) = Some s"
      "(key_fn (psize t) (n_key (heap t q)), q) \<in> set (n_children (heap t s))"
      "n_key (heap t q) \<noteq> []" "psize t dvd length (n_key (heap t q))"
      "length (n_value (heap t q)) = length (n_key (heap t q))"
      "P q = P s @ n_key (heap t q)" "V q = V s @ n_value (heap t q)" by metis
    have "(key_fn (psize t) (n_key (heap t q)), q) \<in> set (n_children (heap ?t s))"
      using s(1,3) kidp ho [of s] by (cases "s = p") auto
    then show ?thesis
      using s same [OF qL] False lt unfolding node_ok_def by (intro bexI [of _ s]) auto
  qed
  have "n_parent (heap ?t (root t)) = None"
    using same [OF inv_root [OF inv]] inv_root_parent [OF inv] by simp
  then show ?thesis
    using kids nodes inv_basic [OF inv] ne unfolding tree_inv_def by (auto simp: less_Suc_eq)
qed

section \<open>Removing a leaf\<close>

definition unlink_result :: "nid \<Rightarrow> nid \<Rightarrow> 'a rtree_scheme \<Rightarrow> 'a rtree_scheme" where
  "unlink_result n p t =
     upd p (\<lambda>nd. nd\<lparr>n_children :=
              AList.delete (key_fn (psize t) (n_key (heap t n))) (n_children nd)\<rparr>) t"

lemma unlink_eq:
  assumes inv: "tree_inv t L P V" and n: "n \<in> L" "n_parent (heap t n) = Some p"
  shows "unlink n t = Inr (unlink_result n p t, p)"
proof -
  have "get_child t p (n_key (heap t n)) = Some n"
    by (rule inv_child_of(1) [OF inv n refl])
  then show ?thesis
    by (simp add: unlink_def unlink_result_def n(2) Let_def get_child_def)
qed

lemma unlink_result_simps:
  "counter (unlink_result n p t) = counter t"
  "root (unlink_result n p t) = root t"
  "psize (unlink_result n p t) = psize t"
  by (simp_all add: unlink_result_def)

lemma unlink_result_other: "q \<noteq> p \<Longrightarrow> heap (unlink_result n p t) q = heap t q"
  by (simp add: unlink_result_def)

lemma tree_inv_unlink:
  assumes inv: "tree_inv t L P V" and n: "n \<in> L" "n_parent (heap t n) = Some p"
    and leaf: "is_leaf t n"
  shows "tree_inv (unlink_result n p t) (L - {n}) P V"
    and "set (n_children (heap (unlink_result n p t) p)) =
           {q \<in> set (n_children (heap t p)). snd q \<noteq> n}"
proof -
  let ?t = "unlink_result n p t" and ?L = "L - {n}"
  let ?k = "key_fn (psize t) (n_key (heap t n))"
  have r: "n \<noteq> root t" using n(2) inv_root_parent [OF inv] by auto
  note p = inv_parent_neq [OF inv n]
  have hp: "heap ?t p = (heap t p)\<lparr>n_children := AList.delete ?k (n_children (heap t p))\<rparr>"
    by (simp add: unlink_result_def)
  have ho: "\<And>q. q \<noteq> p \<Longrightarrow> heap ?t q = heap t q" by (rule unlink_result_other)
  have same: "\<And>q. n_key (heap ?t q) = n_key (heap t q)
      \<and> n_value (heap ?t q) = n_value (heap t q) \<and> n_parent (heap ?t q) = n_parent (heap t q)"
    using hp ho by (metis rnode.simps(1,2,4) rnode.update_convs(3) rnode.surjective)
  have kn: "(?k, n) \<in> set (n_children (heap t p))"
    using inv_child_of(1) [OF inv n refl] inv_get_child [OF inv p(2)] by simp
  have iff: "x = ?k \<longleftrightarrow> c = n" if "(x, c) \<in> set (n_children (heap t p))" for x c
    using that kn inv_kid(4) [OF inv p(2)] inv_get_child [OF inv p(2), of "n_key (heap t n)"]
    by (metis option.inject)
  show kidp: "set (n_children (heap ?t p)) = {q \<in> set (n_children (heap t p)). snd q \<noteq> n}"
    using hp iff by (auto simp: set_delete_dict)
  note [simp] = unlink_result_simps
  have kids: "kids_ok ?t ?L q" if q: "q \<in> ?L" for q
  proof -
    have qL: "q \<in> L" "q \<noteq> n" using q by auto
    have old: "c \<in> L \<and> c \<noteq> root t \<and> n_parent (heap ?t c) = Some q
          \<and> x = key_fn (psize t) (n_key (heap ?t c))"
      if "(x, c) \<in> set (n_children (heap t q))" for x c
      using inv_kid [OF inv qL(1) that] same [of c] by simp
    show ?thesis
    proof (cases "q = p")
      case True
      have "distinct (map fst (n_children (heap ?t p)))"
        using hp distinct_delete [OF inv_kids [OF inv p(2)]] by simp
      then show ?thesis using True old kidp by (auto simp: kids_ok_def)
    next
      case False
      have "c \<noteq> n" if "(x, c) \<in> set (n_children (heap t q))" for x c
        using inv_kid(3) [OF inv qL(1) that] n(2) False by auto
      then show ?thesis using False ho old inv_kids [OF inv qL(1)] by (fastforce simp: kids_ok_def)
    qed
  qed
  have nodes: "node_ok ?t ?L P V q" if q: "q \<in> ?L" "q \<noteq> root t" for q
  proof -
    have qL: "q \<in> L" "q \<noteq> n" using q by auto
    from inv_node [OF inv qL(1) q(2)] obtain s where s: "s \<in> L" "n_parent (heap t q) = Some s"
      "(key_fn (psize t) (n_key (heap t q)), q) \<in> set (n_children (heap t s))"
      "n_key (heap t q) \<noteq> []" "psize t dvd length (n_key (heap t q))"
      "length (n_value (heap t q)) = length (n_key (heap t q))"
      "P q = P s @ n_key (heap t q)" "V q = V s @ n_value (heap t q)" by metis
    have "s \<noteq> n" using s(3) leaf by (auto simp: is_leaf_def)
    moreover have "(key_fn (psize t) (n_key (heap t q)), q) \<in> set (n_children (heap ?t s))"
      using s(3) kidp ho [of s] qL by (cases "s = p") auto
    ultimately show ?thesis
      using s same [of q] unfolding node_ok_def by (intro bexI [of _ s]) auto
  qed
  have "n_parent (heap ?t (root t)) = None"
    using same [of "root t"] inv_root_parent [OF inv] by simp
  then show "tree_inv ?t ?L P V"
    using kids nodes inv_basic [OF inv] r unfolding tree_inv_def by auto
qed

end
