(* ===== verification/Radix_Path.thy ===== *)
theory Radix_Path
  imports Radix_Update
begin

text \<open>
  Paths in the tree. \<open>anc t n\<close> is the list of nodes that the upward loops visit from \<open>n\<close>;
  \<open>live t\<close> is the set of nodes reachable from the root; \<open>toks t n\<close> and \<open>vals t n\<close> are the tokens
  and slots on the path of a node. \<open>tree_wf t\<close> is \<open>tree_inv\<close> at these canonical arguments, and
  \<open>cached t\<close> is the abstract content of the tree: a single-valued, prefix-closed relation
  between page-aligned token prefixes and their slots.
\<close>

definition anc :: "'a rtree_scheme \<Rightarrow> nid \<Rightarrow> nid list" where
  "anc t n = (case up_path t n of Inl e \<Rightarrow> [] | Inr ns \<Rightarrow> ns)"

definition toks :: "'a rtree_scheme \<Rightarrow> nid \<Rightarrow> token list" where
  "toks t n = concat (map (\<lambda>m. n_key (heap t m)) (rev (anc t n)))"

definition vals :: "'a rtree_scheme \<Rightarrow> nid \<Rightarrow> slot list" where
  "vals t n = concat (map (\<lambda>m. n_value (heap t m)) (rev (anc t n)))"

inductive_set live :: "'a rtree_scheme \<Rightarrow> nid set" for t :: "'a rtree_scheme" where
  root: "root t \<in> live t"
| child: "n \<in> live t \<Longrightarrow> (k, c) \<in> set (n_children (heap t n)) \<Longrightarrow> c \<in> live t"

definition tree_wf :: "'a rtree_scheme \<Rightarrow> bool" where
  "tree_wf t \<longleftrightarrow> tree_inv t (live t) (toks t) (vals t)"

definition cached :: "'a rtree_scheme \<Rightarrow> token list \<Rightarrow> slot list \<Rightarrow> bool" where
  "cached t ts vs \<longleftrightarrow>
     (\<exists>n \<in> live t. psize t dvd length ts \<and> prefix ts (toks t n) \<and> vs = take (length ts) (vals t n))"

section \<open>The upward path\<close>

lemma up_loop_mono: "up_loop f t n = Inr ns \<Longrightarrow> f \<le> g \<Longrightarrow> up_loop g t n = Inr ns"
proof (induction f t n arbitrary: g ns rule: up_loop.induct)
  case (2 f t n)
  then obtain g' where g: "g = Suc g'" "f \<le> g'" by (cases g) auto
  show ?case
  proof (cases "n_parent (heap t n)")
    case (Some p)
    then obtain ms where "up_loop f t p = Inr ms" "ns = n # ms"
      using "2.prems"(1) by (auto simp: and_then_eq_Inr)
    moreover from this(1) have "up_loop g' t p = Inr ms" using g(2) by (rule "2.IH" [OF Some])
    ultimately show ?thesis using g Some by simp
  qed (use 2 g in auto)
qed simp

lemma up_loop_terminates:
  assumes inv: "tree_inv t L P V" and "n \<in> L"
    and "card {q \<in> L. length (P q) < length (P n)} < f"
  shows "\<exists>ns. up_loop f t n = Inr ns"
  using assms(2,3)
proof (induction arbitrary: f rule: inv_induct [OF inv, consumes 1, case_names 1 2])
  case 1
  then show ?case using inv_root_parent [OF inv] by (cases f) auto
next
  case (2 n p)
  obtain f' where f: "f = Suc f'" using 2 by (cases f) auto
  have "0 < length (n_key (heap t n))" using inv_len_pos [OF inv 2(1,2)] by (simp add: node_len_def)
  then have lt: "length (P p) < length (P n)" using 2(5) by simp
  have "{q \<in> L. length (P q) < length (P p)} \<subset> {q \<in> L. length (P q) < length (P n)}"
  proof (rule psubsetI)
    show "{q \<in> L. length (P q) < length (P p)} \<subseteq> {q \<in> L. length (P q) < length (P n)}"
      using lt by auto
    show "{q \<in> L. length (P q) < length (P p)} \<noteq> {q \<in> L. length (P q) < length (P n)}"
      using lt 2(3) by blast
  qed
  then have "card {q \<in> L. length (P q) < length (P p)} < card {q \<in> L. length (P q) < length (P n)}"
    using inv_finite [OF inv] by (intro psubset_card_mono) auto
  then have "card {q \<in> L. length (P q) < length (P p)} < f'" using 2(8) f by simp
  from 2(7) [OF this] show ?case using f 2(4) by auto
qed

lemma up_path_ok:
  assumes inv: "tree_inv t L P V" and "n \<in> L"
  shows "up_path t n = Inr (anc t n)"
proof -
  have "card {q \<in> L. length (P q) < length (P n)} \<le> card {..<counter t}"
    using assms inv_lt [OF inv] by (intro card_mono) auto
  then have "card {q \<in> L. length (P q) < length (P n)} < Suc (counter t)" by simp
  from up_loop_terminates [OF inv assms(2) this] show ?thesis
    by (auto simp: anc_def up_path_def)
qed

lemma anc_root: "tree_inv t L P V \<Longrightarrow> anc t (root t) = []"
  using inv_root_parent by (fastforce simp: anc_def up_path_def)

lemma anc_step:
  assumes inv: "tree_inv t L P V" and n: "n \<in> L" "n_parent (heap t n) = Some p"
  shows "anc t n = n # anc t p"
proof -
  have p: "up_path t p = Inr (anc t p)"
    using up_path_ok [OF inv] inv_parent_neq [OF inv n] by blast
  from up_path_ok [OF inv n(1)] obtain ms where ms: "up_loop (counter t) t p = Inr ms" "anc t n = n # ms"
    using n(2) by (auto simp: up_path_def and_then_eq_Inr)
  from up_loop_mono [OF ms(1), of "Suc (counter t)"] p ms(2) show ?thesis by (simp add: up_path_def)
qed

lemma anc_facts:
  assumes inv: "tree_inv t L P V" and "n \<in> L"
  shows "set (anc t n) \<subseteq> L - {root t}" and "toks t n = P n" and "vals t n = V n"
    and "\<forall>q \<in> set (anc t n). prefix (P q) (P n) \<and> prefix (V q) (V n)" and "distinct (anc t n)"
    and "n \<noteq> root t \<Longrightarrow> n \<in> set (anc t n)"
proof -
  have "set (anc t n) \<subseteq> L - {root t} \<and> toks t n = P n \<and> vals t n = V n \<and>
    (\<forall>q \<in> set (anc t n). prefix (P q) (P n) \<and> prefix (V q) (V n)) \<and> distinct (anc t n)
    \<and> (n \<noteq> root t \<longrightarrow> n \<in> set (anc t n))"
    using assms(2)
  proof (induction rule: inv_induct [OF inv, consumes 1, case_names 1 2])
    case 1
    show ?case using anc_root [OF inv] inv_root_P [OF inv] inv_root_V [OF inv]
      by (simp add: toks_def vals_def)
  next
    case (2 n p)
    have a: "anc t n = n # anc t p" by (rule anc_step [OF inv 2(1,4)])
    have "0 < length (n_key (heap t n))" using inv_len_pos [OF inv 2(1,2)] by (simp add: node_len_def)
    then have "\<not> prefix (P n) (P p)" using 2(5) by (auto dest: prefix_length_le)
    then have "n \<notin> set (anc t p)" using 2(7) by auto
    then show ?case using a 2 by (auto simp: toks_def vals_def prefix_append)
  qed
  then show "set (anc t n) \<subseteq> L - {root t}" and "toks t n = P n" and "vals t n = V n"
    and "\<forall>q \<in> set (anc t n). prefix (P q) (P n) \<and> prefix (V q) (V n)" and "distinct (anc t n)"
    and "n \<noteq> root t \<Longrightarrow> n \<in> set (anc t n)" by auto
qed

lemma anc_next:
  assumes inv: "tree_inv t L P V" and "m \<in> L" and "q = root t \<or> q \<in> set (anc t m)" and "m \<noteq> q"
  shows "\<exists>c \<in> set (anc t m). n_parent (heap t c) = Some q"
  using assms(2-)
proof (induction rule: inv_induct [OF inv, consumes 1, case_names 1 2])
  case (2 n p)
  have a: "anc t n = n # anc t p" by (rule anc_step [OF inv 2(1,4)])
  show ?case
  proof (cases "p = q")
    case True
    then show ?thesis using a 2(4) by auto
  next
    case False
    then have "\<exists>c \<in> set (anc t p). n_parent (heap t c) = Some q" using 2 a by auto
    then show ?thesis using a by auto
  qed
qed (use anc_root [OF inv] in auto)

section \<open>Reachability\<close>

lemma live_eq:
  assumes inv: "tree_inv t L P V"
  shows "live t = L"
proof
  show "live t \<subseteq> L"
  proof
    fix n assume "n \<in> live t"
    then show "n \<in> L"
      by induction (auto intro: inv_root [OF inv] inv_kid(1) [OF inv])
  qed
  show "L \<subseteq> live t"
  proof
    fix n assume "n \<in> L"
    then show "n \<in> live t"
    proof (induction rule: inv_induct [OF inv, consumes 1, case_names 1 2])
      case (2 n p)
      then show ?case using inv_node [OF inv 2(1,2)] by (metis live.child option.inject)
    qed (rule live.root)
  qed
qed

lemma tree_inv_wf:
  assumes inv: "tree_inv t L P V"
  shows "tree_wf t" and "live t = L" and "\<And>n. n \<in> L \<Longrightarrow> toks t n = P n" and "\<And>n. n \<in> L \<Longrightarrow> vals t n = V n"
proof -
  show l: "live t = L" by (rule live_eq [OF inv])
  show P: "\<And>n. n \<in> L \<Longrightarrow> toks t n = P n" and V: "\<And>n. n \<in> L \<Longrightarrow> vals t n = V n"
    using anc_facts [OF inv] by auto
  have "node_ok t L (toks t) (vals t) n" if "n \<in> L" "n \<noteq> root t" for n
    using inv that P V unfolding tree_inv_def node_ok_def by metis
  then show "tree_wf t"
    using inv l P V unfolding tree_wf_def tree_inv_def by simp
qed

lemma wfD: "tree_wf t \<Longrightarrow> tree_inv t (live t) (toks t) (vals t)"
  by (simp add: tree_wf_def)

lemma wf_up_path: "tree_wf t \<Longrightarrow> n \<in> live t \<Longrightarrow> up_path t n = Inr (anc t n)"
  by (rule up_path_ok [OF wfD])

lemma wf_path_values: "tree_wf t \<Longrightarrow> n \<in> live t \<Longrightarrow> path_values t n = Inr (vals t n)"
  by (simp add: path_values_def wf_up_path vals_def)

section \<open>Prefixes determine slots\<close>

lemma prefix_on_path:
  assumes inv: "tree_inv t L P V" and "p \<in> L" and m: "m \<in> L" and "prefix (P p) (P m)"
  shows "p = root t \<or> p \<in> set (anc t m)"
  using assms(2,4)
proof (induction rule: inv_induct [OF inv, consumes 1, case_names 1 2])
  case (2 n p)
  have "0 < length (n_key (heap t n))" using inv_len_pos [OF inv 2(1,2)] by (simp add: node_len_def)
  then have ne: "m \<noteq> p" using 2(5,8) prefix_length_le by fastforce
  have "p = root t \<or> p \<in> set (anc t m)" using 2 by (auto dest: append_prefixD)
  from anc_next [OF inv m this ne] obtain c where c: "c \<in> set (anc t m)" "n_parent (heap t c) = Some p"
    by auto
  have cL: "c \<in> L" "c \<noteq> root t" using anc_facts(1) [OF inv m] c(1) by auto
  have Pc: "P c = P p @ n_key (heap t c)"
    using inv_node [OF inv cL] c(2) by (metis option.inject)
  obtain x where x: "P m = P p @ n_key (heap t n) @ x" using 2(5,8) by (auto simp: prefix_def)
  obtain y where y: "P m = P p @ n_key (heap t c) @ y"
    using anc_facts(4) [OF inv m] c(1) Pc by (auto simp: prefix_def)
  have "psize t \<le> length (n_key (heap t n))" "psize t \<le> length (n_key (heap t c))"
    using inv_page_le [OF inv] 2(1,2) cL by (auto simp: node_len_def)
  moreover have "n_key (heap t n) @ x = n_key (heap t c) @ y" using x y by simp
  ultimately have "take (psize t) (n_key (heap t n)) = take (psize t) (n_key (heap t c))"
    by (metis (no_types, lifting) append_Nil2 diff_is_0_eq' take0 take_append)
  then have "get_child t p (n_key (heap t n)) = Some c" "get_child t p (n_key (heap t n)) = Some n"
    using inv_child_of(1) [OF inv cL(1) c(2)] inv_child_of(1) [OF inv 2(1,4)] by auto
  then show ?case using c(1) by simp
qed simp

lemma next_child_on_path:
  assumes inv: "tree_inv t L P V" and p: "p \<in> L" and m: "m \<in> L"
    and ts: "psize t dvd length ts" "prefix (P p) ts" "length (P p) < length ts" "prefix ts (P m)"
  obtains c where "get_child t p (drop (length (P p)) ts) = Some c" "c \<in> L"
    "c \<noteq> root t" "n_parent (heap t c) = Some p" "prefix (P c) (P m)" "prefix (V c) (V m)"
    "P c = P p @ n_key (heap t c)"
proof -
  have "prefix (P p) (P m)" using ts(2,4) by (rule prefix_order.trans)
  then have "p = root t \<or> p \<in> set (anc t m)" by (rule prefix_on_path [OF inv p m])
  moreover have "m \<noteq> p" using ts(3,4) prefix_length_le by fastforce
  ultimately obtain c where c: "c \<in> set (anc t m)" "n_parent (heap t c) = Some p"
    using anc_next [OF inv m] by blast
  have cL: "c \<in> L" "c \<noteq> root t" using anc_facts(1) [OF inv m] c(1) by auto
  have Pc: "P c = P p @ n_key (heap t c)"
    using inv_node [OF inv cL] c(2) by (metis option.inject)
  have pre: "prefix (P c) (P m)" "prefix (V c) (V m)" using anc_facts(4) [OF inv m] c(1) by auto
  obtain y where y: "P m = P p @ n_key (heap t c) @ y" using pre(1) Pc by (auto simp: prefix_def)
  obtain x where x: "ts = P p @ x" using ts(2) by (auto simp: prefix_def)
  obtain z where z: "P m = P p @ x @ z" using ts(4) x by (auto simp: prefix_def)
  have "psize t dvd length x"
    using ts(1) x inv_P_dvd [OF inv p] by (simp add: dvd_add_right_iff)
  moreover have "0 < length x" using ts(3) x by simp
  ultimately have "psize t \<le> length x" by (simp add: dvd_imp_le)
  moreover have "psize t \<le> length (n_key (heap t c))" using inv_page_le [OF inv cL] by (simp add: node_len_def)
  moreover have "x @ z = n_key (heap t c) @ y" using y z by simp
  ultimately have "take (psize t) x = take (psize t) (n_key (heap t c))"
    by (metis (no_types, lifting) append_Nil2 diff_is_0_eq' take0 take_append)
  then have "get_child t p x = Some c" by (rule inv_child_of(1) [OF inv cL(1) c(2)])
  then show ?thesis using that [of c] cL c(2) pre Pc x by simp
qed

lemma prefix_values_unique:
  assumes inv: "tree_inv t L P V" and n: "n \<in> L" and m: "m \<in> L"
    and k: "psize t dvd length ts" "prefix ts (P n)" "prefix ts (P m)"
  shows "take (length ts) (V n) = take (length ts) (V m)"
  using n k(2)
proof (induction rule: inv_induct [OF inv, consumes 1, case_names 1 2])
  case 1
  then show ?case by (simp add: inv_root_P [OF inv])
next
  case (2 n p)
  show ?case
  proof (cases "length ts \<le> length (P p)")
    case True
    then have "prefix ts (P p)" using 2(5,8) by (metis prefix_length_prefix prefixI)
    then have "take (length ts) (V p) = take (length ts) (V m)" by (rule 2(7))
    moreover have "length ts \<le> length (V p)" using True inv_len_PV [OF inv 2(3)] by simp
    ultimately show ?thesis using 2(6) by simp
  next
    case False
    have pp: "prefix (P p) ts" using False 2(5,8) by (metis nat_le_linear prefix_length_prefix prefixI)
    from next_child_on_path [OF inv 2(3) m k(1) pp _ k(3)] False obtain c where
      c: "get_child t p (drop (length (P p)) ts) = Some c" "prefix (V c) (V m)" by auto
    from next_child_on_path [OF inv 2(3) 2(1) k(1) pp _ 2(8)] False obtain d where
      d: "get_child t p (drop (length (P p)) ts) = Some d" "d \<in> L" "n_parent (heap t d) = Some p"
        "prefix (P d) (P n)" "P d = P p @ n_key (heap t d)" by auto
    have "d = n"
    proof -
      have "take (psize t) (n_key (heap t n)) = take (psize t) (n_key (heap t d))"
      proof -
        have "d \<noteq> root t" using d(3) inv_root_parent [OF inv] by auto
        then have "psize t \<le> length (n_key (heap t d))" "psize t \<le> length (n_key (heap t n))"
          using inv_page_le [OF inv 2(1,2)] inv_page_le [OF inv d(2)]
          by (auto simp: node_len_def)
        moreover have "prefix (n_key (heap t d)) (n_key (heap t n))" using d(4,5) 2(5) by simp
        ultimately show ?thesis by (auto simp: prefix_def)
      qed
      then have "get_child t p (n_key (heap t n)) = Some d" by (rule inv_child_of(1) [OF inv d(2,3)])
      then show ?thesis using inv_child_of(1) [OF inv 2(1,4) refl] by simp
    qed
    then have "prefix (V n) (V m)" using c d by simp
    moreover have "length ts \<le> length (V n)"
      using 2(8) inv_len_PV [OF inv 2(1)] prefix_length_le by fastforce
    ultimately show ?thesis by (auto simp: prefix_def)
  qed
qed

lemma cached_unique: "tree_wf t \<Longrightarrow> cached t ts vs \<Longrightarrow> cached t ts ws \<Longrightarrow> vs = ws"
  unfolding cached_def using prefix_values_unique [OF wfD] by blast

lemma cached_length: "tree_wf t \<Longrightarrow> cached t ts vs \<Longrightarrow> length vs = length ts"
  unfolding cached_def using inv_len_PV [OF wfD] by (metis length_take min.absorb2 prefix_length_le)

lemma cached_prefix_closed:
  assumes "cached t ts vs" and "prefix us ts" and "psize t dvd length us"
  shows "cached t us (take (length us) vs)"
proof -
  from assms(1) obtain n where "n \<in> live t" "prefix ts (toks t n)" "vs = take (length ts) (vals t n)"
    by (auto simp: cached_def)
  then show ?thesis
    using assms(2,3) prefix_length_le [OF assms(2)] unfolding cached_def
    by (intro bexI [of _ n]) (auto simp: min_def dest: prefix_order.trans)
qed

lemma cached_node: "tree_wf t \<Longrightarrow> n \<in> live t \<Longrightarrow> cached t (toks t n) (vals t n)"
  unfolding cached_def using inv_P_dvd [OF wfD] inv_len_PV [OF wfD]
  by (metis order_refl prefix_order.refl take_all)

lemma cached_nil: "tree_wf t \<Longrightarrow> cached t [] []"
  unfolding cached_def by (auto intro: live.root)

end
