(* ===== verification/Radix_Walk.thy ===== *)
theory Radix_Walk
  imports Radix_Path
begin

text \<open>
  What the structural updates do to the live nodes and to the content, the rule for the
  walk (it terminates, keeps the content, and stops at the longest cached aligned prefix),
  and the traversal (it lists every live node exactly once).
\<close>

section \<open>Effects of the updates\<close>

lemma wf_cong:
  assumes wf: "tree_wf t" and "\<And>n. n \<in> live t \<Longrightarrow> shape (heap t' n) = shape (heap t n)"
    and "counter t' = counter t" and "root t' = root t" and "psize t' = psize t"
  shows "tree_wf t'" and "live t' = live t" and "\<And>n. n \<in> live t \<Longrightarrow> toks t' n = toks t n"
    and "\<And>n. n \<in> live t \<Longrightarrow> vals t' n = vals t n" and "cached t' = cached t"
    and "\<And>n. n \<in> live t \<Longrightarrow> anc t' n = anc t n"
proof -
  have inv: "tree_inv t' (live t) (toks t) (vals t)"
    by (rule tree_inv_cong [OF wfD [OF wf] assms(2-)])
  note r = tree_inv_wf [OF inv]
  show "tree_wf t'" "live t' = live t" and tv: "\<And>n. n \<in> live t \<Longrightarrow> toks t' n = toks t n"
    "\<And>n. n \<in> live t \<Longrightarrow> vals t' n = vals t n" using r by auto
  show "cached t' = cached t"
    using r(2) tv assms(5) by (auto simp: cached_def fun_eq_iff)
  show "anc t' n = anc t n" if "n \<in> live t" for n
    using that
  proof (induction rule: inv_induct [OF wfD [OF wf], consumes 1, case_names 1 2])
    case 1
    then show ?case using anc_root [OF inv] anc_root [OF wfD [OF wf]] assms(4) by simp
  next
    case (2 n p)
    have "n_parent (heap t' n) = Some p" using assms(2) [OF 2(1)] 2(4) by (simp add: shape_def)
    then show ?case
      using anc_step [OF inv 2(1)] anc_step [OF wfD [OF wf] 2(1,4)] 2(7) by simp
  qed
qed

lemma wf_upd:
  assumes wf: "tree_wf t" and "shape (f (heap t n)) = shape (heap t n)"
  shows "tree_wf (upd n f t)" "live (upd n f t) = live t" "cached (upd n f t) = cached t"
    "\<And>m. m \<in> live t \<Longrightarrow> toks (upd n f t) m = toks t m"
    "\<And>m. m \<in> live t \<Longrightarrow> vals (upd n f t) m = vals t m"
    "\<And>m. m \<in> live t \<Longrightarrow> anc (upd n f t) m = anc t m"
proof -
  have "\<And>m. m \<in> live t \<Longrightarrow> shape (heap (upd n f t) m) = shape (heap t m)"
    using assms(2) by (simp add: heap_upd)
  note r = wf_cong [OF wf this, simplified]
  show "tree_wf (upd n f t)" "live (upd n f t) = live t" "cached (upd n f t) = cached t"
    "\<And>m. m \<in> live t \<Longrightarrow> toks (upd n f t) m = toks t m"
    "\<And>m. m \<in> live t \<Longrightarrow> vals (upd n f t) m = vals t m"
    "\<And>m. m \<in> live t \<Longrightarrow> anc (upd n f t) m = anc t m" using r by auto
qed

lemma shape_time [simp]: "shape (nd\<lparr>n_time := x\<rparr>) = shape nd"
  by (simp add: shape_def)

lemma wf_split:
  assumes wf: "tree_wf t" and n: "n \<in> live t" "n_parent (heap t n) = Some p"
    and pos: "0 < pos" "pos < node_len t n" "psize t dvd pos"
  shows "tree_wf (split_result n p pos t)"
    and "live (split_result n p pos t) = insert (counter t) (live t)"
    and "\<And>q. q \<in> live t \<Longrightarrow> toks (split_result n p pos t) q = toks t q"
    and "\<And>q. q \<in> live t \<Longrightarrow> vals (split_result n p pos t) q = vals t q"
    and "toks (split_result n p pos t) (counter t) = toks t p @ take pos (n_key (heap t n))"
    and "vals (split_result n p pos t) (counter t) = vals t p @ take pos (n_value (heap t n))"
    and "cached (split_result n p pos t) = cached t" and "counter t \<notin> live t"
proof -
  let ?t = "split_result n p pos t"
  note inv = wfD [OF wf]
  note r = tree_inv_wf [OF tree_inv_split [OF inv n pos]]
  show m: "counter t \<notin> live t" using inv_lt [OF inv] by auto
  show w: "tree_wf ?t" and l: "live ?t = insert (counter t) (live t)"
    and T: "\<And>q. q \<in> live t \<Longrightarrow> toks ?t q = toks t q" and V: "\<And>q. q \<in> live t \<Longrightarrow> vals ?t q = vals t q"
    and Tm: "toks ?t (counter t) = toks t p @ take pos (n_key (heap t n))"
    and Vm: "vals ?t (counter t) = vals t p @ take pos (n_value (heap t n))"
    using r m by (auto simp: fun_upd_def)
  from inv_node [OF inv n(1)] n(2) inv_root_parent [OF inv]
  have P: "toks t n = toks t p @ n_key (heap t n)" "vals t n = vals t p @ n_value (heap t n)"
    "length (n_value (heap t n)) = length (n_key (heap t n))"
    by (metis option.inject option.distinct(1))+
  have "p \<in> live t" using inv_parent_neq [OF inv n] by simp
  then have lp: "length (vals t p) = length (toks t p)" by (rule inv_len_PV [OF inv])
  have "cached ?t ts vs = cached t ts vs" for ts vs
  proof
    assume "cached ?t ts vs"
    then obtain q where q: "q \<in> live ?t" "psize t dvd length ts" "prefix ts (toks ?t q)"
      "vs = take (length ts) (vals ?t q)" by (auto simp: cached_def split_result_simps)
    show "cached t ts vs"
    proof (cases "q = counter t")
      case True
      have a: "prefix (toks t p @ take pos (n_key (heap t n))) (toks t n)"
        using P(1) by (simp add: take_is_prefix)
      have "length ts \<le> length (toks t p @ take pos (n_key (heap t n)))"
        using q(3) True Tm by (metis prefix_length_le)
      then have "length ts - length (vals t p) \<le> pos"
        using lp pos(2) by (simp add: node_len_def)
      then have "take (length ts) (vals ?t q) = take (length ts) (vals t n)"
        using True Vm P(2) by (simp add: min_def)
      then show ?thesis
        using q True Tm a n(1) unfolding cached_def
        by (intro bexI [of _ n]) (auto dest: prefix_order.trans)
    next
      case False
      then show ?thesis using q l T V by (auto simp: cached_def)
    qed
  next
    assume "cached t ts vs"
    then show "cached ?t ts vs" using l T V by (auto simp: cached_def split_result_simps)
  qed
  then show "cached ?t = cached t" by (simp add: fun_eq_iff)
qed

lemma wf_leaf:
  assumes wf: "tree_wf t" and p: "p \<in> live t" "get_child t p k = None"
    and k: "k \<noteq> []" "psize t dvd length k" "length v = length k"
  shows "tree_wf (leaf_result tic k v p t)"
    and "live (leaf_result tic k v p t) = insert (counter t) (live t)"
    and "\<And>q. q \<in> live t \<Longrightarrow> toks (leaf_result tic k v p t) q = toks t q"
    and "\<And>q. q \<in> live t \<Longrightarrow> vals (leaf_result tic k v p t) q = vals t q"
    and "toks (leaf_result tic k v p t) (counter t) = toks t p @ k"
    and "vals (leaf_result tic k v p t) (counter t) = vals t p @ v"
    and "cached (leaf_result tic k v p t) ts vs \<longleftrightarrow> cached t ts vs \<or>
           (psize t dvd length ts \<and> prefix ts (toks t p @ k) \<and> vs = take (length ts) (vals t p @ v))"
    and "counter t \<notin> live t"
proof -
  let ?t = "leaf_result tic k v p t"
  note inv = wfD [OF wf]
  note r = tree_inv_wf [OF tree_inv_leaf [OF inv p k, of tic]]
  show m: "counter t \<notin> live t" using inv_lt [OF inv] by auto
  show w: "tree_wf ?t" and l: "live ?t = insert (counter t) (live t)"
    and T: "\<And>q. q \<in> live t \<Longrightarrow> toks ?t q = toks t q" and V: "\<And>q. q \<in> live t \<Longrightarrow> vals ?t q = vals t q"
    and Tm: "toks ?t (counter t) = toks t p @ k" and Vm: "vals ?t (counter t) = vals t p @ v"
    using r m by (auto simp: fun_upd_def)
  show "cached ?t ts vs \<longleftrightarrow> cached t ts vs \<or>
           (psize t dvd length ts \<and> prefix ts (toks t p @ k) \<and> vs = take (length ts) (vals t p @ v))"
    using l T V Tm Vm by (auto simp: cached_def leaf_result_simps)
qed

lemma wf_unlink:
  assumes wf: "tree_wf t" and n: "n \<in> live t" "n_parent (heap t n) = Some p" and leaf: "is_leaf t n"
  shows "tree_wf (unlink_result n p t)" and "live (unlink_result n p t) = live t - {n}"
    and "\<And>q. q \<in> live t \<Longrightarrow> q \<noteq> n \<Longrightarrow> toks (unlink_result n p t) q = toks t q"
    and "\<And>q. q \<in> live t \<Longrightarrow> q \<noteq> n \<Longrightarrow> vals (unlink_result n p t) q = vals t q"
    and "cached (unlink_result n p t) ts vs \<Longrightarrow> cached t ts vs"
proof -
  let ?t = "unlink_result n p t"
  note inv = wfD [OF wf]
  note r = tree_inv_wf [OF tree_inv_unlink(1) [OF inv n leaf]]
  show w: "tree_wf ?t" and l: "live ?t = live t - {n}"
    and T: "\<And>q. q \<in> live t \<Longrightarrow> q \<noteq> n \<Longrightarrow> toks ?t q = toks t q"
    and V: "\<And>q. q \<in> live t \<Longrightarrow> q \<noteq> n \<Longrightarrow> vals ?t q = vals t q"
    using r by auto
  show "cached ?t ts vs \<Longrightarrow> cached t ts vs"
    using l T V by (auto simp: cached_def unlink_result_simps)
qed

section \<open>The walk\<close>

lemma cached_beyond:
  assumes wf: "tree_wf t" and p: "p \<in> live t" and c: "cached t ts vs" and ts: "prefix ts ids"
    and pp: "toks t p = take plen ids" "plen \<le> length ids" and gt: "plen < length ts"
  obtains c m where "get_child t p (drop plen ids) = Some c" "m \<in> live t" "prefix ts (toks t m)"
    "prefix (toks t c) (toks t m)" "toks t c = toks t p @ n_key (heap t c)"
proof -
  from c obtain m where m: "m \<in> live t" "psize t dvd length ts" "prefix ts (toks t m)"
    by (auto simp: cached_def)
  have ts': "ts = take (length ts) ids" using ts by (metis prefix_def append_eq_conv_conj)
  have len: "length (toks t p) = plen" using pp by simp
  have "take plen ts = take plen ids" using ts' gt by (metis less_imp_le min.absorb1 take_take)
  then have pre: "prefix (toks t p) ts" using pp(1) by (metis take_is_prefix)
  from next_child_on_path [OF wfD [OF wf] p m(1,2) pre _ m(3)] gt len obtain c where
    c: "get_child t p (drop plen ts) = Some c" "c \<in> live t" "prefix (toks t c) (toks t m)"
      "toks t c = toks t p @ n_key (heap t c)" by metis
  have "psize t dvd length ts - plen"
    using m(2) inv_P_dvd [OF wfD [OF wf] p] len by (simp add: dvd_diff_nat)
  then have "psize t \<le> length ts - plen" using gt by (simp add: dvd_imp_le)
  moreover have "drop plen ts = take (length ts - plen) (drop plen ids)"
    using ts' by (metis drop_take)
  ultimately have "take (psize t) (drop plen ts) = take (psize t) (drop plen ids)"
    by (simp add: min_def)
  then have "get_child t p (drop plen ids) = Some c"
    using c(1) by (simp add: get_child_def key_fn_def)
  then show ?thesis using that m c by blast
qed

text \<open>The outcome of a walk: the tree is well-formed with the same content, the node reached
  spells the first \<open>k\<close> tokens, and no cached prefix of the input is longer.\<close>

definition walked :: "'a rtree_scheme \<Rightarrow> token list \<Rightarrow> 'a rtree_scheme \<Rightarrow> nid \<Rightarrow> nat \<Rightarrow> bool" where
  "walked t ids t' n k \<longleftrightarrow>
     tree_wf t' \<and> n \<in> live t' \<and> toks t' n = take k ids \<and> k \<le> length ids \<and>
     cached t' = cached t \<and> psize t' = psize t \<and>
     (\<forall>ts vs. cached t ts vs \<longrightarrow> prefix ts ids \<longrightarrow> length ts \<le> k) \<and>
     (k < length ids \<longrightarrow> get_child t' n (drop k ids) = None)"

lemma walkedD:
  assumes "walked t ids t' n k"
  shows "tree_wf t'" "n \<in> live t'" "toks t' n = take k ids" "k \<le> length ids"
    "cached t' = cached t" "psize t' = psize t"
    "cached t ts vs \<Longrightarrow> prefix ts ids \<Longrightarrow> length ts \<le> k"
    "k < length ids \<Longrightarrow> get_child t' n (drop k ids) = None"
  using assms by (auto simp: walked_def)

lemma walked_from: "cached t1 = cached t \<Longrightarrow> psize t1 = psize t \<Longrightarrow> walked t1 ids = walked t ids"
  by (simp add: walked_def fun_eq_iff)

text \<open>One step of a walk: it stops, or goes down to a child that shares at least a page.\<close>

lemma walk_none:
  assumes wf: "tree_wf t" and n: "node \<in> live t" "toks t node = take plen ids" "plen \<le> length ids"
    and none: "plen < length ids \<Longrightarrow> get_child t node (drop plen ids) = None"
  shows "walked t ids t node plen"
proof -
  have "length ts \<le> plen" if c: "cached t ts vs" "prefix ts ids" for ts vs
  proof (rule ccontr)
    assume "\<not> length ts \<le> plen"
    then have gt: "plen < length ts" by simp
    from cached_beyond [OF wf n(1) c n(2,3) gt] obtain d where
      "get_child t node (drop plen ids) = Some d" by metis
    moreover have "plen < length ids" using gt prefix_length_le [OF c(2)] by simp
    ultimately show False using none by simp
  qed
  then show ?thesis using assms by (auto simp: walked_def)
qed

lemma walk_child:
  assumes wf: "tree_wf t" and n: "node \<in> live t" "toks t node = take plen ids" "plen \<le> length ids"
    and c: "get_child t node (drop plen ids) = Some c"
  defines "m \<equiv> align_down_nat (match_len (n_key (heap t c)) (drop plen ids)) (psize t)"
  shows "c \<in> live t" "c \<noteq> root t" "n_parent (heap t c) = Some node" "0 < m" "psize t dvd m"
    "m \<le> node_len t c" "plen + m \<le> length ids" "toks t node @ take m (n_key (heap t c)) = take (plen + m) ids"
    "m = node_len t c \<Longrightarrow> toks t c = take (plen + m) ids"
proof -
  note inv = wfD [OF wf]
  note cd = inv_get_child_dest [OF inv n(1) c]
  show "c \<in> live t" "c \<noteq> root t" "n_parent (heap t c) = Some node" by (rule cd(1), rule cd(2), rule cd(3))
  let ?ml = "match_len (n_key (heap t c)) (drop plen ids)"
  have ml: "psize t \<le> ?ml" by (rule inv_child_match [OF inv n(1) c])
  have m: "0 < m" "m \<le> ?ml" "psize t dvd m"
    unfolding m_def using align_down_nat_pos [OF inv_psize [OF inv] ml] by auto
  show "0 < m" "psize t dvd m" by (rule m(1), rule m(3))
  have le: "?ml \<le> length (n_key (heap t c))" "?ml \<le> length (drop plen ids)"
    by (simp_all only: match_len_le1 match_len_le2)
  show "m \<le> node_len t c" unfolding node_len_def by (rule le_trans [OF m(2) le(1)])
  show "plen + m \<le> length ids" using le_trans [OF m(2) le(2)] n(3) by simp
  have "take m (n_key (heap t c)) = take m (drop plen ids)" using m(2) by (simp add: match_len_take)
  then show tk: "toks t node @ take m (n_key (heap t c)) = take (plen + m) ids" using n(2) by (simp add: take_add)
  show "toks t c = take (plen + m) ids" if "m = node_len t c"
    using tk cd(5) that by (simp add: node_len_def)
qed

text \<open>A walk that ends inside a node: the input shares only a part of its tokens.\<close>

lemma walk_part:
  assumes wf: "tree_wf t" and n: "node \<in> live t" "toks t node = take plen ids" "plen \<le> length ids"
    and c: "get_child t node (drop plen ids) = Some c"
  defines "m \<equiv> align_down_nat (match_len (n_key (heap t c)) (drop plen ids)) (psize t)"
  assumes pos: "m < node_len t c"
  shows "walked t ids (split_result c node m t) (counter t) (plen + m)"
proof -
  note inv = wfD [OF wf]
  note cd = walk_child [OF wf n c, folded m_def]
  note cd5 = inv_get_child_dest(5) [OF inv n(1) c]
  let ?t1 = "split_result c node m t" and ?n = "counter t"
  let ?ml = "match_len (n_key (heap t c)) (drop plen ids)"
  note s = wf_split [OF wf cd(1,3,4) pos cd(5)]
  have max: "length ts \<le> plen + m" if ts: "cached t ts vs" "prefix ts ids" for ts vs
  proof (rule ccontr)
    assume gt: "\<not> length ts \<le> plen + m"
    then have "plen < length ts" by simp
    from cached_beyond [OF wf n(1) ts n(2,3) this] c obtain q where
      q: "prefix ts (toks t q)" "prefix (toks t c) (toks t q)" by (metis option.inject)
    let ?j = "min (node_len t c) (length ts - plen)"
    have ids: "ts = take (length ts) ids" using ts(2) by (metis prefix_def append_eq_conv_conj)
    have tq: "take (length ts) (toks t q) = ts" using q(1) by (auto simp: prefix_def)
    have "plen + ?j \<le> length ts" using gt by auto
    then have "take (plen + ?j) (toks t q) = take (plen + ?j) ts"
      using tq by (metis min.absorb1 take_take)
    also have "\<dots> = take (plen + ?j) ids"
      using ids \<open>plen + ?j \<le> length ts\<close> by (metis min.absorb1 take_take)
    finally have a: "take ?j (drop plen (toks t q)) = take ?j (drop plen ids)"
      by (metis add.commute take_drop)
    have lp: "length (toks t node) = plen" using n(2,3) by simp
    obtain y where "toks t q = toks t node @ n_key (heap t c) @ y"
      using q(2) cd5 by (auto simp: prefix_def)
    then have b: "take ?j (drop plen (toks t q)) = take ?j (n_key (heap t c))"
      using lp by (simp add: node_len_def)
    have "?j \<le> ?ml"
      using a b gt ts(2) prefix_length_le [OF ts(2)]
      by (intro match_len_ge) (auto simp: node_len_def)
    moreover have "psize t dvd ?j"
    proof -
      have "psize t dvd length ts" using ts(1) by (auto simp: cached_def)
      moreover have "psize t dvd plen" using inv_P_dvd [OF inv n(1)] lp by simp
      ultimately show ?thesis
        using inv_len_dvd [OF inv cd(1,2)] by (auto simp: min_def dvd_diff_nat)
    qed
    ultimately have "?j \<le> m" unfolding m_def by (intro align_down_nat_greatest)
    then show False using pos gt by auto
  qed
  have tn: "toks ?t1 ?n = take (plen + m) ids" using s(5) cd(8) by simp
  have nin: "?n \<in> live ?t1" using s(2) by simp
  have gc: "get_child ?t1 ?n (drop (plen + m) ids) = None" if "plen + m < length ids"
  proof (rule ccontr)
    assume "get_child ?t1 ?n (drop (plen + m) ids) \<noteq> None"
    then obtain d where d: "get_child ?t1 ?n (drop (plen + m) ids) = Some d" by auto
    note dd = inv_get_child_dest [OF wfD [OF s(1)] nin d]
    let ?us = "toks ?t1 ?n @ take (psize t) (n_key (heap ?t1 d))"
    have "psize t \<le> length (n_key (heap ?t1 d))"
      using inv_page_le [OF wfD [OF s(1)] dd(1,2)] by (simp add: node_len_def split_result_simps)
    moreover have "psize t dvd length (toks ?t1 ?n)"
      using inv_P_dvd [OF wfD [OF s(1)] nin] by (simp add: split_result_simps)
    ultimately have dv: "psize t dvd length ?us" by simp
    have pd: "prefix ?us (toks ?t1 d)" using dd(5) by (simp add: take_is_prefix)
    have "cached ?t1 (toks ?t1 d) (vals ?t1 d)" by (rule cached_node [OF s(1) dd(1)])
    from cached_prefix_closed [OF this pd] dv
    have "cached t ?us (take (length ?us) (vals ?t1 d))" using s(7) by (simp add: split_result_simps)
    moreover have "prefix ?us ids"
    proof -
      have "take (psize t) (n_key (heap ?t1 d)) = take (psize t) (drop (plen + m) ids)"
        using dd(4) by (simp add: split_result_simps)
      then have "?us = take (plen + m + psize t) ids" by (simp only: tn take_add)
      then show ?thesis by (simp only: take_is_prefix)
    qed
    ultimately have "length ?us \<le> plen + m" by (rule max)
    moreover have "length (toks ?t1 ?n) = plen + m" using tn that by simp
    ultimately show False
      using \<open>psize t \<le> length (n_key (heap ?t1 d))\<close> inv_psize [OF inv] by simp
  qed
  show ?thesis
    using s(1,7) nin tn cd(7) max gc by (simp add: walked_def split_result_simps)
qed

lemma walked_time: "walked t ids t' n k \<Longrightarrow> walked t ids (upd m (\<lambda>x. x\<lparr>n_time := z\<rparr>) t') n k"
  using wf_upd [of t' "\<lambda>x. x\<lparr>n_time := z\<rparr>" m] by (auto simp: walked_def get_child_def heap_upd)

lemma walk_loop_rule:
  assumes "tree_wf t" "node \<in> live t" "toks t node = take plen ids" "plen \<le> length ids"
    and "length ids - plen < f" and "I t"
    and time: "\<And>t n x. tree_wf t \<Longrightarrow> I t \<Longrightarrow> n \<in> live t \<Longrightarrow> I (upd n (\<lambda>nd. nd\<lparr>n_time := x\<rparr>) t)"
    and split: "\<And>t n p pos. tree_wf t \<Longrightarrow> I t \<Longrightarrow> n \<in> live t \<Longrightarrow> n_parent (heap t n) = Some p \<Longrightarrow>
        0 < pos \<Longrightarrow> pos < node_len t n \<Longrightarrow> psize t dvd pos \<Longrightarrow> I (split_result n p pos t)"
  shows "\<exists>t' n k. walk_loop f tic ids node plen t = Inr (t', n, k) \<and> I t' \<and> walked t ids t' n k"
  using assms(1-6)
proof (induction f arbitrary: t node plen)
  case 0
  then show ?case by simp
next
  case (Suc f)
  note wf = Suc.prems(1) and n = Suc.prems(2-4) and inv = wfD [OF Suc.prems(1)]
  show ?case
  proof (cases "plen < length ids \<and> get_child t node (drop plen ids) \<noteq> None")
    case False
    then have none: "plen < length ids \<Longrightarrow> get_child t node (drop plen ids) = None" by simp
    have "walk_loop (Suc f) tic ids node plen t = Inr (t, node, plen)" using none by simp
    then show ?thesis using Suc.prems(6) walk_none [OF wf n none] by blast
  next
    case True
    then obtain c where lt: "plen < length ids" and c: "get_child t node (drop plen ids) = Some c"
      by auto
    define m where "m = align_down_nat (match_len (n_key (heap t c)) (drop plen ids)) (psize t)"
    note ch = walk_child [OF wf n c, folded m_def]
    show ?thesis
    proof (cases "m = node_len t c")
      case False
      then have pos: "m < node_len t c" using ch(6) by simp
      let ?t1 = "split_result c node m t" and ?n = "counter t"
      let ?t2 = "upd ?n (\<lambda>x. x\<lparr>n_time := tic\<rparr>) ?t1"
      note s = wf_split [OF wf ch(1,3,4) pos ch(5)]
      have "walk_loop (Suc f) tic ids node plen t = Inr (?t2, ?n, plen + m)"
        using lt c False split_at_eq [OF inv ch(1,3,4) pos] by (simp add: Let_def m_def)
      moreover have "I ?t2"
        using time [OF s(1) split [OF wf Suc.prems(6) ch(1,3,4) pos ch(5)]] s(2) by simp
      moreover have "walked t ids ?t2 ?n (plen + m)"
        using walked_time [OF walk_part [OF wf n c, folded m_def, OF pos]] .
      ultimately show ?thesis by blast
    next
      case eq: True
      let ?t1 = "upd c (\<lambda>x. x\<lparr>n_time := tic\<rparr>) t"
      note u = wf_upd [OF wf, of "\<lambda>x. x\<lparr>n_time := tic\<rparr>" c, simplified]
      have w: "walk_loop (Suc f) tic ids node plen t = walk_loop f tic ids c (plen + m) ?t1"
        using lt c eq by (simp add: Let_def m_def)
      have "toks ?t1 c = take (plen + m) ids" using u(4) [OF ch(1)] ch(9) [OF eq] by simp
      moreover have "length ids - (plen + m) < f" using lt ch(4) Suc.prems(5) by simp
      moreover have "c \<in> live ?t1" using u(2) ch(1) by simp
      ultimately have "\<exists>t' n k. walk_loop f tic ids c (plen + m) ?t1 = Inr (t', n, k) \<and> I t' \<and>
          walked ?t1 ids t' n k"
        using Suc.IH [OF u(1)] ch(7) time [OF wf Suc.prems(6) ch(1)] by blast
      then show ?thesis using w walked_from [OF u(3), of ids] by simp
    qed
  qed
qed

lemma tree_walk_rule:
  assumes "tree_wf t" and "I t"
    and "\<And>t n x. tree_wf t \<Longrightarrow> I t \<Longrightarrow> n \<in> live t \<Longrightarrow> I (upd n (\<lambda>nd. nd\<lparr>n_time := x\<rparr>) t)"
    and "\<And>t n p pos. tree_wf t \<Longrightarrow> I t \<Longrightarrow> n \<in> live t \<Longrightarrow> n_parent (heap t n) = Some p \<Longrightarrow>
        0 < pos \<Longrightarrow> pos < node_len t n \<Longrightarrow> psize t dvd pos \<Longrightarrow> I (split_result n p pos t)"
  obtains t' n k where "tree_walk tic ids t = Inr (t', n, k)" "I t'" "walked t ids t' n k"
proof -
  have "toks t (root t) = take 0 ids" using inv_root_P [OF wfD [OF assms(1)]] by simp
  moreover have "length ids - 0 < Suc (length ids)" by simp
  ultimately have "\<exists>t' n k. tree_walk tic ids t = Inr (t', n, k) \<and> I t' \<and> walked t ids t' n k"
    unfolding tree_walk_def using walk_loop_rule [OF assms(1) live.root _ le0 _ assms(2-4)] by blast
  then show ?thesis using that by blast
qed

section \<open>The traversal\<close>

lemma dfs_loop_ok:
  assumes inv: "tree_inv t L P V"
    and "distinct (out @ stack)" "set (out @ stack) \<subseteq> L" "root t \<in> set (out @ stack)"
    and "\<forall>n \<in> set out. \<forall>(k, c) \<in> set (n_children (heap t n)). c \<in> set (out @ stack)"
    and "\<forall>c \<in> set (out @ stack). c \<noteq> root t \<longrightarrow> (\<exists>p \<in> set out. n_parent (heap t c) = Some p)"
    and "card L \<le> length out + f"
  shows "\<exists>ns. dfs_loop f t stack out = Inr ns \<and> distinct ns \<and> set ns = L"
  using assms(2-)
proof (induction f arbitrary: stack out)
  case (0 stack out)
  have "card (set (out @ stack)) \<le> card L"
    using 0(2) inv_finite [OF inv] by (rule card_mono [rotated])
  then have "length (out @ stack) \<le> card L" using distinct_card [OF 0(1)] by linarith
  then have "length stack = 0" using 0(6) by (simp only: length_append)
  then have "stack = []" by simp
  then have "card (set out) = card L"
    using 0 card_mono [OF inv_finite [OF inv] 0(2)] by (simp add: distinct_card)
  then have "set out = L" using 0(2) card_subset_eq [OF inv_finite [OF inv]] by simp
  then show ?case using \<open>stack = []\<close> 0 by simp
next
  case (Suc f stack out)
  show ?case
  proof (cases "stack = []")
    case True
    have "n \<in> set out" if "n \<in> L" for n
      using that
    proof (induction rule: inv_induct [OF inv, consumes 1, case_names 1 2])
      case 1
      then show ?case using Suc(4) True by simp
    next
      case (2 n p)
      have "(key_fn (psize t) (n_key (heap t n)), n) \<in> set (n_children (heap t p))"
        using inv_node [OF inv 2(1,2)] 2(4) by (metis option.inject)
      then show ?case using Suc(5) 2(7) True by fastforce
    qed
    then have "set out = L" using Suc(3) by auto
    then show ?thesis using True Suc(2) by simp
  next
    case False
    define n where "n = last stack"
    define ks where "ks = map snd (n_children (heap t n))"
    have st: "stack = butlast stack @ [n]" using False by (simp add: n_def)
    have nL: "n \<in> L" using Suc(3) st by (metis Un_iff append_eq_append_conv2 in_set_conv_decomp set_append subset_eq)
    have setst: "set stack = insert n (set (butlast stack))" using st by (metis Un_insert_right append_Nil2 list.simps(15) set_append sup_bot_right empty_set)
    have nout: "n \<notin> set out" using Suc(2) setst by auto
    have ksP: "\<And>c. c \<in> set ks \<Longrightarrow> c \<in> L \<and> c \<noteq> root t \<and> n_parent (heap t c) = Some n"
      unfolding ks_def using inv_kid [OF inv nL] by auto
    have kout: "\<And>c. c \<in> set ks \<Longrightarrow> c \<notin> set (out @ stack)"
    proof
      fix c assume c: "c \<in> set ks" "c \<in> set (out @ stack)"
      then obtain p where "p \<in> set out" "n_parent (heap t c) = Some p" using Suc(6) ksP by blast
      then show False using ksP [OF c(1)] nout by simp
    qed
    have step: "dfs_loop (Suc f) t stack out = dfs_loop f t (butlast stack @ ks) (out @ [n])"
      using False by (simp add: n_def ks_def Let_def)
    have "distinct (butlast stack @ [n])" using Suc(2) st by auto
    moreover have "distinct ks" unfolding ks_def by (rule inv_kid_ids [OF inv nL])
    ultimately have d: "distinct ((out @ [n]) @ butlast stack @ ks)"
      using Suc(2) setst kout by auto
    have s: "set ((out @ [n]) @ butlast stack @ ks) = set (out @ stack) \<union> set ks"
      using setst by auto
    show ?thesis
      unfolding step
    proof (rule Suc.IH [OF d])
      show "set ((out @ [n]) @ butlast stack @ ks) \<subseteq> L" using s Suc(3) ksP by auto
      show "root t \<in> set ((out @ [n]) @ butlast stack @ ks)" using s Suc(4) by auto
      show "\<forall>q \<in> set (out @ [n]). \<forall>(k, c) \<in> set (n_children (heap t q)).
          c \<in> set ((out @ [n]) @ butlast stack @ ks)"
        unfolding s using Suc(5) by (force simp: ks_def)
      show "\<forall>c \<in> set ((out @ [n]) @ butlast stack @ ks). c \<noteq> root t \<longrightarrow>
          (\<exists>p \<in> set (out @ [n]). n_parent (heap t c) = Some p)"
        unfolding s using Suc(6) ksP by auto
      show "card L \<le> length (out @ [n]) + f" using Suc(7) by simp
    qed
  qed
qed

lemma dfs_ok:
  assumes "tree_wf t"
  obtains ns where "dfs t = Inr ns" "distinct ns" "set ns = live t"
proof -
  have "card (live t) \<le> card {..<counter t}"
    using inv_lt [OF wfD [OF assms]] by (intro card_mono) auto
  then show ?thesis
    using dfs_loop_ok [OF wfD [OF assms], of "[]" "[root t]" "counter t"] that live.root [of t]
    by (auto simp: dfs_def)
qed

end
