(* ===== verification/Radix_Lock.thy ===== *)
theory Radix_Lock
  imports Radix_Walk
begin

text \<open>
  Reference counts and token accounting, shared by the three prefix caches. A lock on a node
  increments \<open>n_ref\<close> on its whole path; \<open>direct t n\<close> is the number of locks held on \<open>n\<close> itself,
  the count of \<open>n\<close> minus the counts of its children, and \<open>lock_inv\<close> says that it is never
  negative and that the evictable and protected counters are the token totals of the
  unlocked and locked nodes. \<open>node_sum\<close> is the sum of a weight over the nodes below the root.
\<close>

section \<open>The lock loops\<close>

fun lock_loop ::
  "nat \<Rightarrow> nid \<Rightarrow> 'a rtree_scheme \<Rightarrow> int \<Rightarrow> int \<Rightarrow> err + ('a rtree_scheme \<times> int \<times> int)" where
  "lock_loop 0 n t e p = Inl Diverges"
| "lock_loop (Suc f) n t e p =
     (case n_parent (heap t n) of
        None \<Rightarrow> Inr (t, e, p)
      | Some q \<Rightarrow>
          (let l = int (node_len t n); z = (n_ref (heap t n) = 0) in
           lock_loop f q (upd n (\<lambda>nd. nd\<lparr>n_ref := n_ref nd + 1\<rparr>) t)
             (if z then e - l else e) (if z then p + l else p)))"

fun unlock_loop ::
  "nat \<Rightarrow> nid \<Rightarrow> 'a rtree_scheme \<Rightarrow> int \<Rightarrow> int \<Rightarrow> err + ('a rtree_scheme \<times> int \<times> int)" where
  "unlock_loop 0 n t e p = Inl Diverges"
| "unlock_loop (Suc f) n t e p =
     (case n_parent (heap t n) of
        None \<Rightarrow> Inr (t, e, p)
      | Some q \<Rightarrow>
          (let l = int (node_len t n); r = n_ref (heap t n) - 1 in
           if r < 0 then Inl AssertionError
           else unlock_loop f q (upd n (\<lambda>nd. nd\<lparr>n_ref := r\<rparr>) t)
                  (if r = 0 then e + l else e) (if r = 0 then p - l else p)))"

section \<open>Sums over the nodes below the root\<close>

definition node_sum :: "'a rtree_scheme \<Rightarrow> (rnode \<Rightarrow> 'b::comm_monoid_add) \<Rightarrow> 'b" where
  "node_sum t w = (\<Sum>n \<in> live t - {root t}. w (heap t n))"

lemma live_finite: "tree_wf t \<Longrightarrow> finite (live t)"
  by (rule inv_finite [OF wfD])

lemma live_root_ne: "tree_wf t \<Longrightarrow> n \<in> live t \<Longrightarrow> n_parent (heap t n) = Some p \<Longrightarrow> n \<noteq> root t"
  using inv_root_parent [OF wfD] by fastforce

lemma node_sum_cong:
  "live t' = live t \<Longrightarrow> root t' = root t \<Longrightarrow>
   (\<And>n. n \<in> live t \<Longrightarrow> n \<noteq> root t \<Longrightarrow> w' (heap t' n) = w (heap t n)) \<Longrightarrow>
   node_sum t' w' = node_sum t w"
  by (simp add: node_sum_def)

lemma split_result_nodes:
  assumes wf: "tree_wf t" and n: "n \<in> live t" "n_parent (heap t n) = Some p"
  shows "heap (split_result n p pos t) (counter t) = (new_node (n_time (heap t n)))
             \<lparr>n_key := take pos (n_key (heap t n)), n_value := take pos (n_value (heap t n)),
              n_children := [(key_fn (psize t) (drop pos (n_key (heap t n))), n)], n_parent := Some p,
              n_ref := n_ref (heap t n), n_swa_ref := n_swa_ref (heap t n), n_tomb := n_tomb (heap t n),
              n_swa_uuid := n_swa_uuid (heap t n)\<rparr>"
    and "heap (split_result n p pos t) n = (heap t n)\<lparr>n_key := drop pos (n_key (heap t n)),
           n_value := drop pos (n_value (heap t n)), n_parent := Some (counter t), n_swa_uuid := None\<rparr>"
    and "q \<in> live t \<Longrightarrow> q \<noteq> n \<Longrightarrow> \<exists>ks. heap (split_result n p pos t) q = (heap t q)\<lparr>n_children := ks\<rparr>"
    and "p \<noteq> n" and "p \<in> live t"
proof -
  note p = inv_parent_neq [OF wfD [OF wf] n]
  have "n < counter t" "p < counter t" using inv_lt [OF wfD [OF wf]] n(1) p(2) by auto
  then show "heap (split_result n p pos t) (counter t) = (new_node (n_time (heap t n)))
             \<lparr>n_key := take pos (n_key (heap t n)), n_value := take pos (n_value (heap t n)),
              n_children := [(key_fn (psize t) (drop pos (n_key (heap t n))), n)], n_parent := Some p,
              n_ref := n_ref (heap t n), n_swa_ref := n_swa_ref (heap t n), n_tomb := n_tomb (heap t n),
              n_swa_uuid := n_swa_uuid (heap t n)\<rparr>"
    "heap (split_result n p pos t) n = (heap t n)\<lparr>n_key := drop pos (n_key (heap t n)),
           n_value := drop pos (n_value (heap t n)), n_parent := Some (counter t), n_swa_uuid := None\<rparr>"
    using p by (auto simp: split_result_def Let_def)
  show "q \<in> live t \<Longrightarrow> q \<noteq> n \<Longrightarrow> \<exists>ks. heap (split_result n p pos t) q = (heap t q)\<lparr>n_children := ks\<rparr>"
    using inv_lt [OF wfD [OF wf], of q]
    by (cases "q = p") (auto simp: split_result_def Let_def intro: exI [of _ "n_children (heap t q)"])
  show "p \<noteq> n" "p \<in> live t" by (rule p)+
qed

lemma node_sum_split:
  assumes wf: "tree_wf t" and n: "n \<in> live t" "n_parent (heap t n) = Some p"
    and pos: "0 < pos" "pos < node_len t n" "psize t dvd pos"
    and w: "\<And>nd ks. w (nd\<lparr>n_children := ks\<rparr>) = w nd"
    and add: "w (heap (split_result n p pos t) (counter t)) + w (heap (split_result n p pos t) n) = w (heap t n)"
  shows "node_sum (split_result n p pos t) w = node_sum t w"
proof -
  let ?t = "split_result n p pos t" and ?S = "live t - {root t}"
  note s = wf_split [OF wf n pos] and h = split_result_nodes [OF wf n]
  have nr: "n \<noteq> root t" by (rule live_root_ne [OF wf n])
  have "root t \<noteq> counter t" using s(8) live.root by metis
  then have S: "live ?t - {root ?t} = insert (counter t) ?S" using s(2) by (auto simp: split_result_simps)
  have fin: "finite ?S" using live_finite [OF wf] by simp
  have same: "w (heap ?t q) = w (heap t q)" if "q \<in> ?S - {n}" for q
    using that h(3) [of q pos] w by auto
  have nS: "n \<in> ?S" "counter t \<notin> ?S" using n(1) nr s(8) by auto
  have "node_sum ?t w = w (heap ?t (counter t)) + (\<Sum>q \<in> ?S. w (heap ?t q))"
    unfolding node_sum_def S using fin nS by simp
  also have "(\<Sum>q \<in> ?S. w (heap ?t q)) = w (heap ?t n) + (\<Sum>q \<in> ?S - {n}. w (heap ?t q))"
    by (rule sum.remove [OF fin nS(1)])
  also have "(\<Sum>q \<in> ?S - {n}. w (heap ?t q)) = (\<Sum>q \<in> ?S - {n}. w (heap t q))"
    using same by (rule sum.cong [OF refl])
  finally have "node_sum ?t w = w (heap t n) + (\<Sum>q \<in> ?S - {n}. w (heap t q))"
    using add by (simp add: add.assoc [symmetric])
  also have "\<dots> = node_sum t w" unfolding node_sum_def by (rule sum.remove [OF fin nS(1), symmetric])
  finally show ?thesis .
qed

lemma leaf_result_nodes:
  assumes wf: "tree_wf t" and p: "p \<in> live t"
  shows "heap (leaf_result tic k v p t) (counter t) = (new_node tic)\<lparr>n_key := k, n_value := v, n_parent := Some p\<rparr>"
    and "q \<in> live t \<Longrightarrow> \<exists>ks. heap (leaf_result tic k v p t) q = (heap t q)\<lparr>n_children := ks\<rparr>"
    and "counter t \<notin> live t"
proof -
  show n: "counter t \<notin> live t" using inv_lt [OF wfD [OF wf]] by auto
  then show "heap (leaf_result tic k v p t) (counter t) = (new_node tic)\<lparr>n_key := k, n_value := v, n_parent := Some p\<rparr>"
    using p by (auto simp: leaf_result_def)
  show "q \<in> live t \<Longrightarrow> \<exists>ks. heap (leaf_result tic k v p t) q = (heap t q)\<lparr>n_children := ks\<rparr>"
    using n by (cases "q = p") (auto simp: leaf_result_def intro: exI [of _ "n_children (heap t q)"])
qed

lemma node_sum_leaf:
  assumes wf: "tree_wf t" and p: "p \<in> live t" "get_child t p k = None"
    and k: "k \<noteq> []" "psize t dvd length k" "length v = length k"
    and w: "\<And>nd ks. w (nd\<lparr>n_children := ks\<rparr>) = w nd"
  shows "node_sum (leaf_result tic k v p t) w =
           w ((new_node tic)\<lparr>n_key := k, n_value := v, n_parent := Some p\<rparr>) + node_sum t w"
proof -
  let ?t = "leaf_result tic k v p t" and ?S = "live t - {root t}"
  note s = wf_leaf [OF wf p k] and h = leaf_result_nodes [OF wf p(1)]
  have "root t \<noteq> counter t" using h(3) live.root by metis
  then have S: "live ?t - {root ?t} = insert (counter t) ?S" using s(2) by (auto simp: leaf_result_simps)
  have fin: "finite ?S" using live_finite [OF wf] by simp
  have same: "w (heap ?t q) = w (heap t q)" if "q \<in> ?S" for q
    using that h(2) [of q tic k v] w by auto
  have "node_sum ?t w = w (heap ?t (counter t)) + (\<Sum>q \<in> ?S. w (heap ?t q))"
    unfolding node_sum_def S using fin h(3) by simp
  moreover have "(\<Sum>q \<in> ?S. w (heap ?t q)) = node_sum t w"
    unfolding node_sum_def using same by (rule sum.cong [OF refl])
  ultimately show ?thesis using h(1) by simp
qed

lemma unlink_result_nodes: "\<exists>ks. heap (unlink_result n p t) q = (heap t q)\<lparr>n_children := ks\<rparr>"
  by (cases "q = p") (auto simp: unlink_result_def intro: exI [of _ "n_children (heap t q)"])

lemma node_sum_unlink:
  assumes wf: "tree_wf t" and n: "n \<in> live t" "n_parent (heap t n) = Some p" and leaf: "is_leaf t n"
    and w: "\<And>nd ks. w (nd\<lparr>n_children := ks\<rparr>) = w nd"
  shows "node_sum t w = w (heap t n) + node_sum (unlink_result n p t) w"
proof -
  let ?t = "unlink_result n p t" and ?S = "live t - {root t}"
  note s = wf_unlink [OF wf n leaf]
  have nS: "n \<in> ?S" using n(1) live_root_ne [OF wf n] by simp
  have fin: "finite ?S" using live_finite [OF wf] by simp
  have S: "live ?t - {root ?t} = ?S - {n}" using s(2) by (auto simp: unlink_result_simps)
  have same: "w (heap ?t q) = w (heap t q)" for q
    using unlink_result_nodes [of n p t q] w by auto
  have "node_sum t w = w (heap t n) + (\<Sum>q \<in> ?S - {n}. w (heap t q))"
    unfolding node_sum_def by (rule sum.remove [OF fin nS])
  then show ?thesis by (simp add: node_sum_def S same)
qed

section \<open>Children, locks and totals\<close>

definition kids :: "'a rtree_scheme \<Rightarrow> nid \<Rightarrow> nid set" where
  "kids t n = {c \<in> live t. n_parent (heap t c) = Some n}"

definition direct :: "'a rtree_scheme \<Rightarrow> nid \<Rightarrow> int" where
  "direct t n = n_ref (heap t n) - (\<Sum>c \<in> kids t n. n_ref (heap t c))"

definition w_len :: "rnode \<Rightarrow> int" where
  "w_len nd = int (length (n_key nd))"

definition w_free :: "rnode \<Rightarrow> int" where
  "w_free nd = (if n_ref nd = 0 then w_len nd else 0)"

definition w_used :: "rnode \<Rightarrow> int" where
  "w_used nd = (if n_ref nd = 0 then 0 else w_len nd)"

definition lock_inv :: "'a rtree_scheme \<Rightarrow> int \<Rightarrow> int \<Rightarrow> bool" where
  "lock_inv t e p \<longleftrightarrow>
     (\<forall>n \<in> live t. n \<noteq> root t \<longrightarrow> 0 \<le> n_ref (heap t n) \<and> 0 \<le> direct t n) \<and>
     e = node_sum t w_free \<and> p = node_sum t w_used"

lemma w_children [simp]:
  "w_len (nd\<lparr>n_children := ks\<rparr>) = w_len nd" "w_free (nd\<lparr>n_children := ks\<rparr>) = w_free nd"
  "w_used (nd\<lparr>n_children := ks\<rparr>) = w_used nd"
  by (simp_all add: w_len_def w_free_def w_used_def)

lemma kids_iff:
  assumes wf: "tree_wf t" and "n \<in> live t"
  shows "c \<in> kids t n \<longleftrightarrow> c \<in> snd ` set (n_children (heap t n))"
proof
  assume "c \<in> kids t n"
  then have c: "c \<in> live t" "n_parent (heap t c) = Some n" by (auto simp: kids_def)
  have "get_child t n (n_key (heap t c)) = Some c" by (rule inv_child_of(1) [OF wfD [OF wf] c refl])
  then show "c \<in> snd ` set (n_children (heap t n))"
    using inv_get_child [OF wfD [OF wf] assms(2)] by force
next
  assume "c \<in> snd ` set (n_children (heap t n))"
  then show "c \<in> kids t n" using inv_kid [OF wfD [OF wf] assms(2)] by (auto simp: kids_def)
qed

lemma kids_eq: "tree_wf t \<Longrightarrow> n \<in> live t \<Longrightarrow> kids t n = snd ` set (n_children (heap t n))"
  using kids_iff by blast

lemma kids_leaf: "tree_wf t \<Longrightarrow> n \<in> live t \<Longrightarrow> is_leaf t n \<longleftrightarrow> kids t n = {}"
  by (simp add: kids_eq is_leaf_def)

lemma kids_finite: "tree_wf t \<Longrightarrow> finite (kids t n)"
  unfolding kids_def by (rule finite_subset [OF _ live_finite]) auto

lemma lock_inv_kid_le:
  assumes wf: "tree_wf t" and L: "lock_inv t e p" and c: "c \<in> kids t n" and n: "n \<in> live t" "n \<noteq> root t"
  shows "n_ref (heap t c) \<le> n_ref (heap t n)" "0 \<le> n_ref (heap t c)"
proof -
  have nn: "0 \<le> n_ref (heap t d)" if "d \<in> kids t n" for d
    using that L live_root_ne [OF wf, of d n] by (auto simp: kids_def lock_inv_def)
  have "n_ref (heap t c) \<le> (\<Sum>d \<in> kids t n. n_ref (heap t d))"
    using nn by (intro member_le_sum [OF c]) (auto simp: kids_finite [OF wf])
  also have "\<dots> \<le> n_ref (heap t n)" using L n by (auto simp: lock_inv_def direct_def)
  finally show "n_ref (heap t c) \<le> n_ref (heap t n)" "0 \<le> n_ref (heap t c)" using nn [OF c] by auto
qed

lemma kids_cong:
  "live t' = live t \<Longrightarrow> (\<And>n. n \<in> live t \<Longrightarrow> n_parent (heap t' n) = n_parent (heap t n)) \<Longrightarrow>
   kids t' n = kids t n"
  by (auto simp: kids_def)

lemma lock_inv_cong:
  assumes wf: "tree_wf t" and "\<And>n. n \<in> live t \<Longrightarrow> shape (heap t' n) = shape (heap t n)"
    and "\<And>n. n \<in> live t \<Longrightarrow> n_ref (heap t' n) = n_ref (heap t n)"
    and "counter t' = counter t" "root t' = root t" "psize t' = psize t"
  shows "lock_inv t' e p = lock_inv t e p" and "\<And>n. n \<in> live t \<Longrightarrow> direct t' n = direct t n"
proof -
  have l: "live t' = live t" using wf_cong [OF wf assms(2,4-6)] by auto
  have k: "\<And>n. kids t' n = kids t n"
    using assms(2) by (intro kids_cong [OF l]) (simp add: shape_def)
  show d: "\<And>n. n \<in> live t \<Longrightarrow> direct t' n = direct t n"
    unfolding direct_def k using assms(3) by (auto simp: kids_def intro!: sum.cong)
  have "node_sum t' w_free = node_sum t w_free" "node_sum t' w_used = node_sum t w_used"
    using assms(2,3) by (auto intro!: node_sum_cong [OF l assms(5)] simp: w_free_def w_used_def w_len_def shape_def)
  then show "lock_inv t' e p = lock_inv t e p"
    unfolding lock_inv_def l assms(5) using d assms(3) by auto
qed

lemma lock_inv_time:
  assumes wf: "tree_wf t"
  shows "lock_inv (upd n (\<lambda>nd. nd\<lparr>n_time := x\<rparr>) t) e p = lock_inv t e p"
    and "m \<in> live t \<Longrightarrow> direct (upd n (\<lambda>nd. nd\<lparr>n_time := x\<rparr>) t) m = direct t m"
  by (rule lock_inv_cong [OF wf]; simp add: heap_upd)+

lemma kids_split:
  assumes wf: "tree_wf t" and n: "n \<in> live t" "n_parent (heap t n) = Some p"
    and pos: "0 < pos" "pos < node_len t n" "psize t dvd pos"
  shows "kids (split_result n p pos t) q =
    (if q = counter t then {n} else if q = p then insert (counter t) (kids t p - {n}) else kids t q)"
proof -
  let ?t = "split_result n p pos t"
  note s = wf_split [OF wf n pos] and h = split_result_nodes [OF wf n]
  have pm: "n_parent (heap ?t (counter t)) = Some p" "n_parent (heap ?t n) = Some (counter t)"
    using h by simp_all
  have po: "n_parent (heap ?t c) = n_parent (heap t c)" if "c \<in> live t" "c \<noteq> n" for c
    using that h(3) [of c pos] by auto
  have nm: "n_parent (heap t c) \<noteq> Some (counter t)" if "c \<in> live t" for c
    using that s(8) inv_parent_neq(2) [OF wfD [OF wf]] by metis
  have "p \<noteq> counter t" "n \<noteq> counter t" using h(5) s(8) n(1) by auto
  then have "x \<in> kids ?t q \<longleftrightarrow>
      x \<in> (if q = counter t then {n} else if q = p then insert (counter t) (kids t p - {n}) else kids t q)" for x
    using pm po [of x] nm [of x] n s(2,8)
    by (cases "x = n"; cases "x = counter t"; cases "x \<in> live t") (auto simp: kids_def)
  then show ?thesis by blast
qed

lemma lock_inv_split:
  assumes wf: "tree_wf t" and n: "n \<in> live t" "n_parent (heap t n) = Some p"
    and pos: "0 < pos" "pos < node_len t n" "psize t dvd pos" and L: "lock_inv t e p'"
  shows "lock_inv (split_result n p pos t) e p'"
    and "q \<in> live t \<Longrightarrow> direct (split_result n p pos t) q = direct t q"
    and "direct (split_result n p pos t) (counter t) = 0"
proof -
  let ?t = "split_result n p pos t" and ?m = "counter t"
  note s = wf_split [OF wf n pos] and h = split_result_nodes [OF wf n]
    and k = kids_split [OF wf n pos]
  have ro: "n_ref (heap ?t c) = n_ref (heap t c)" if "c \<in> live t" for c
    using h(2) [of pos] h(3) [OF that, of pos] by (cases "c = n") auto
  have rm: "n_ref (heap ?t ?m) = n_ref (heap t n)" using h(1) by simp
  have sub: "kids t q \<subseteq> live t" for q by (auto simp: kids_def)
  have nk: "n \<in> kids t p" using n by (simp add: kids_def)
  have mk: "?m \<notin> kids t p" "n \<noteq> ?m" using sub [of p] s(8) n(1) by auto
  show dm: "direct ?t ?m = 0" using k rm ro n(1) by (simp add: direct_def)
  show d: "direct ?t q = direct t q" if q: "q \<in> live t" for q
  proof -
    have qm: "q \<noteq> ?m" using q s(8) by auto
    have "(\<Sum>c \<in> kids ?t q. n_ref (heap ?t c)) = (\<Sum>c \<in> kids t q. n_ref (heap t c))"
    proof (cases "q = p")
      case True
      have "(\<Sum>c \<in> kids ?t q. n_ref (heap ?t c)) =
          n_ref (heap ?t ?m) + (\<Sum>c \<in> kids t p - {n}. n_ref (heap ?t c))"
        using True k [of q] qm kids_finite [OF wf, of p] mk by simp
      also have "(\<Sum>c \<in> kids t p - {n}. n_ref (heap ?t c)) = (\<Sum>c \<in> kids t p - {n}. n_ref (heap t c))"
        using ro sub by (intro sum.cong) auto
      finally show ?thesis
        using rm True sum.remove [OF kids_finite [OF wf] nk, of "\<lambda>c. n_ref (heap t c)"] by simp
    next
      case False
      then show ?thesis using k [of q] qm ro subsetD [OF sub [of q]] by (auto intro!: sum.cong)
    qed
    then show ?thesis using ro [OF q] by (simp add: direct_def)
  qed
  have len: "length (n_key (heap t n)) = pos + (length (n_key (heap t n)) - pos)"
    using pos(2) by (simp add: node_len_def)
  have "node_sum ?t w_free = node_sum t w_free" "node_sum ?t w_used = node_sum t w_used"
    using pos(2) h(1,2)
    by (auto intro!: node_sum_split [OF wf n pos] simp: w_free_def w_used_def w_len_def node_len_def)
  then show "lock_inv ?t e p'"
    using L d dm ro rm n live_root_ne [OF wf n] s(2)
    by (auto simp: lock_inv_def split_result_simps)
qed

lemma lock_inv_leaf:
  assumes wf: "tree_wf t" and p: "p \<in> live t" "get_child t p k = None"
    and k: "k \<noteq> []" "psize t dvd length k" "length v = length k" and L: "lock_inv t e p'"
  shows "lock_inv (leaf_result tic k v p t) (e + int (length k)) p'"
    and "q \<in> live t \<Longrightarrow> direct (leaf_result tic k v p t) q = direct t q"
    and "direct (leaf_result tic k v p t) (counter t) = 0"
proof -
  let ?t = "leaf_result tic k v p t" and ?m = "counter t"
  note s = wf_leaf [OF wf p k] and h = leaf_result_nodes [OF wf p(1)]
  have sm: "n_ref (heap ?t c) = n_ref (heap t c) \<and> n_parent (heap ?t c) = n_parent (heap t c)"
    if "c \<in> live t" for c
    using h(2) [OF that, of tic k v] by auto
  have nm: "n_parent (heap t c) \<noteq> Some ?m" if "c \<in> live t" for c
    using that h(3) inv_parent_neq(2) [OF wfD [OF wf]] by metis
  have km: "n_parent (heap ?t ?m) = Some p" "n_ref (heap ?t ?m) = 0" using h(1) by (simp_all add: new_node_def)
  have pm: "p \<noteq> ?m" using p(1) h(3) by auto
  have ks: "kids ?t q = (if q = p then insert ?m (kids t p) else kids t q)" if "q \<noteq> ?m" for q
    using that sm km s(2) h(3) by (auto simp: kids_def)
  have k0: "kids ?t ?m = {}" using sm km nm s(2) pm by (auto simp: kids_def)
  have sub: "kids t q \<subseteq> live t" for q by (auto simp: kids_def)
  show dm: "direct ?t ?m = 0" using k0 km by (simp add: direct_def)
  show d: "direct ?t q = direct t q" if q: "q \<in> live t" for q
  proof -
    have qm: "q \<noteq> ?m" using q h(3) by auto
    have "(\<Sum>c \<in> kids ?t q. n_ref (heap ?t c)) = (\<Sum>c \<in> kids t q. n_ref (heap ?t c))"
      using ks [OF qm] km kids_finite [OF wf] by (cases "?m \<in> kids t q") (auto simp: insert_absorb)
    also have "\<dots> = (\<Sum>c \<in> kids t q. n_ref (heap t c))" using sm sub by (intro sum.cong) auto
    finally show ?thesis using sm [OF q] by (simp add: direct_def)
  qed
  have "node_sum ?t w_free = int (length k) + node_sum t w_free" "node_sum ?t w_used = node_sum t w_used"
    using node_sum_leaf [OF wf p k, of w_free] node_sum_leaf [OF wf p k, of w_used]
    by (simp_all add: w_free_def w_used_def w_len_def new_node_def)
  then show "lock_inv ?t (e + int (length k)) p'"
    using L d dm sm km s(2) by (auto simp: lock_inv_def leaf_result_simps)
qed

lemma lock_inv_unlink:
  assumes wf: "tree_wf t" and n: "n \<in> live t" "n_parent (heap t n) = Some p" and leaf: "is_leaf t n"
    and z: "n_ref (heap t n) = 0" and L: "lock_inv t e p'"
  shows "lock_inv (unlink_result n p t) (e - int (node_len t n)) p'"
    and "q \<in> live t \<Longrightarrow> q \<noteq> n \<Longrightarrow> direct (unlink_result n p t) q = direct t q"
    and "kids (unlink_result n p t) q = kids t q - {n}"
proof -
  let ?t = "unlink_result n p t"
  note s = wf_unlink [OF wf n leaf]
  have sm: "n_ref (heap ?t c) = n_ref (heap t c) \<and> n_parent (heap ?t c) = n_parent (heap t c)" for c
    using unlink_result_nodes [of n p t c] by auto
  show ks: "kids ?t q = kids t q - {n}" for q using sm s(2) by (auto simp: kids_def)
  show d: "direct ?t q = direct t q" if "q \<in> live t" "q \<noteq> n" for q
  proof -
    have "(\<Sum>c \<in> kids t q. n_ref (heap t c)) = (\<Sum>c \<in> kids t q - {n}. n_ref (heap t c))"
      using z kids_finite [OF wf] by (cases "n \<in> kids t q") (auto simp: sum.remove)
    then show ?thesis using sm by (simp add: direct_def ks)
  qed
  have "node_sum t w_free = int (node_len t n) + node_sum ?t w_free" "node_sum t w_used = node_sum ?t w_used"
    using node_sum_unlink [OF wf n leaf, of w_free] node_sum_unlink [OF wf n leaf, of w_used] z
    by (simp_all add: w_free_def w_used_def w_len_def node_len_def)
  then show "lock_inv ?t (e - int (node_len t n)) p'"
    using L d sm s(2) by (auto simp: lock_inv_def unlink_result_simps)
qed

section \<open>What locking and unlocking do\<close>

definition bump :: "nid list \<Rightarrow> int \<Rightarrow> 'a rtree_scheme \<Rightarrow> 'a rtree_scheme" where
  "bump ns d t = t\<lparr>heap := (\<lambda>m. if m \<in> set ns then (heap t m)\<lparr>n_ref := n_ref (heap t m) + d\<rparr> else heap t m)\<rparr>"

lemma bump_simps [simp]:
  "counter (bump ns d t) = counter t" "root (bump ns d t) = root t" "psize (bump ns d t) = psize t"
  "bump [] d t = t"
  by (simp_all add: bump_def)

lemma bump_Cons:
  assumes "n \<notin> set ns"
  shows "bump ns d (upd n (\<lambda>nd. nd\<lparr>n_ref := n_ref nd + d\<rparr>) t) = bump (n # ns) d t"
  using assms by (auto simp: bump_def upd_def fun_eq_iff intro!: rtree.equality)

lemma shape_bump [simp]: "shape (heap (bump ns d t) n) = shape (heap t n)"
  by (simp add: bump_def shape_def)

lemma up_loop_upd:
  assumes "\<And>nd. n_parent (f nd) = n_parent nd"
  shows "up_loop g (upd n f t) m = up_loop g t m"
proof (induction g arbitrary: m)
  case (Suc g)
  have "n_parent (heap (upd n f t) m) = n_parent (heap t m)" using assms by (simp add: heap_upd)
  then show ?case using Suc by (auto split: option.splits)
qed simp

lemma lock_loop_bump:
  assumes "up_loop f t n = Inr ns" and "distinct ns"
  shows "lock_loop f n t e p =
    Inr (bump ns 1 t, e - (\<Sum>m \<leftarrow> ns. w_free (heap t m)), p + (\<Sum>m \<leftarrow> ns. w_free (heap t m)))"
  using assms
proof (induction f arbitrary: n ns t e p)
  case (Suc f)
  show ?case
  proof (cases "n_parent (heap t n)")
    case (Some q)
    then obtain ms where ms: "up_loop f t q = Inr ms" "ns = n # ms"
      using Suc.prems(1) by (auto simp: and_then_eq_Inr)
    let ?t = "upd n (\<lambda>nd. nd\<lparr>n_ref := n_ref nd + 1\<rparr>) t"
    have "up_loop f ?t q = Inr ms" using ms(1) by (simp add: up_loop_upd)
    note IH = Suc.IH [OF this]
    have n: "n \<notin> set ms" "distinct ms" using Suc.prems(2) ms(2) by auto
    then have same: "(\<Sum>m \<leftarrow> ms. w_free (heap ?t m)) = (\<Sum>m \<leftarrow> ms. w_free (heap t m))"
      by (intro arg_cong [where f = sum_list] map_cong) (auto simp: heap_upd)
    show ?thesis
      using Some ms(2) IH [OF n(2)] same bump_Cons [OF n(1), of 1 t]
      by (simp add: Let_def w_free_def w_len_def node_len_def)
  qed (use Suc.prems in simp)
qed simp

lemma unlock_loop_bump:
  assumes "up_loop f t n = Inr ns" and "distinct ns" and "\<forall>m \<in> set ns. 0 < n_ref (heap t m)"
  shows "unlock_loop f n t e p =
    Inr (bump ns (-1) t, e + (\<Sum>m \<leftarrow> ns. if n_ref (heap t m) = 1 then w_len (heap t m) else 0),
         p - (\<Sum>m \<leftarrow> ns. if n_ref (heap t m) = 1 then w_len (heap t m) else 0))"
  using assms
proof (induction f arbitrary: n ns t e p)
  case (Suc f)
  show ?case
  proof (cases "n_parent (heap t n)")
    case (Some q)
    then obtain ms where ms: "up_loop f t q = Inr ms" "ns = n # ms"
      using Suc.prems(1) by (auto simp: and_then_eq_Inr)
    let ?t = "upd n (\<lambda>nd. nd\<lparr>n_ref := n_ref nd + - 1\<rparr>) t"
    have u: "upd n (\<lambda>nd. nd\<lparr>n_ref := n_ref (heap t n) - 1\<rparr>) t = ?t" by (simp add: upd_def)
    have "up_loop f ?t q = Inr ms" using ms(1) by (simp add: up_loop_upd)
    note IH = Suc.IH [OF this]
    have n: "n \<notin> set ms" "distinct ms" using Suc.prems(2) ms(2) by auto
    then have h: "\<And>m. m \<in> set ms \<Longrightarrow> heap ?t m = heap t m" by (auto simp: heap_upd)
    then have same: "(\<Sum>m \<leftarrow> ms. if n_ref (heap ?t m) = 1 then w_len (heap ?t m) else 0) =
        (\<Sum>m \<leftarrow> ms. if n_ref (heap t m) = 1 then w_len (heap t m) else 0)"
      by (intro arg_cong [where f = sum_list] map_cong) auto
    have pos: "\<forall>m \<in> set ms. 0 < n_ref (heap ?t m)" using h Suc.prems(3) ms(2) by simp
    show ?thesis
      using Some ms(2) IH [OF n(2) pos] same bump_Cons [OF n(1), of "-1" t] Suc.prems(3)
      unfolding unlock_loop.simps u Let_def
      by (simp add: w_len_def node_len_def u)
  qed (use Suc.prems in simp)
qed simp

lemma kids_anc:
  assumes wf: "tree_wf t" and "h \<in> live t" and q: "q \<noteq> root t"
  shows "card (kids t q \<inter> set (anc t h)) = (if q \<in> set (anc t h) \<and> q \<noteq> h then 1 else 0)"
  using assms(2)
proof (induction rule: inv_induct [OF wfD [OF wf], consumes 1, case_names 1 2])
  case 1
  then show ?case by (simp add: anc_root [OF wfD [OF wf]])
next
  case (2 n p)
  have a: "anc t n = n # anc t p" by (rule anc_step [OF wfD [OF wf] 2(1,4)])
  have nd: "n \<notin> set (anc t p)" using anc_facts(5) [OF wfD [OF wf] 2(1)] a by simp
  show ?case
  proof (cases "q = p")
    case True
    then have "p \<in> set (anc t p)" using anc_facts(6) [OF wfD [OF wf] 2(3)] q by simp
    moreover have "kids t q \<inter> set (anc t n) = insert n (kids t q \<inter> set (anc t p))"
      using a True 2(1,4) by (auto simp: kids_def)
    moreover have "card (kids t q \<inter> set (anc t p)) = 0" using 2(7) True by simp
    moreover have "p \<noteq> n" using inv_parent_neq(1) [OF wfD [OF wf] 2(1,4)] .
    ultimately show ?thesis using a True nd by (simp add: card_insert_disjoint)
  next
    case False
    then have "kids t q \<inter> set (anc t n) = kids t q \<inter> set (anc t p)"
      using a 2(4) by (auto simp: kids_def)
    then show ?thesis using 2(7) False a nd by auto
  qed
qed

lemma sum_indicator:
  "finite S \<Longrightarrow> (\<Sum>c \<in> S. f c + (if c \<in> A then d else 0)) = sum f S + int (card (S \<inter> A)) * (d::int)"
proof (induction rule: finite_induct)
  case (insert x F)
  then show ?case
    by (cases "x \<in> A") (auto simp: algebra_simps Int_insert_left)
qed simp

lemma bump_facts:
  assumes wf: "tree_wf t" and h: "h \<in> live t"
  shows "tree_wf (bump (anc t h) d t)" "live (bump (anc t h) d t) = live t"
    "cached (bump (anc t h) d t) = cached t"
    "\<And>n. n \<in> live t \<Longrightarrow> toks (bump (anc t h) d t) n = toks t n"
    "\<And>n. n \<in> live t \<Longrightarrow> vals (bump (anc t h) d t) n = vals t n"
    "\<And>n. n \<in> live t \<Longrightarrow> anc (bump (anc t h) d t) n = anc t n"
    "q \<in> live t \<Longrightarrow> q \<noteq> root t \<Longrightarrow> direct (bump (anc t h) d t) q = direct t q + (if q = h then d else 0)"
proof -
  let ?t = "bump (anc t h) d t" and ?A = "set (anc t h)"
  note c = wf_cong [OF wf, of ?t, simplified]
  show "tree_wf ?t" "live ?t = live t" "cached ?t = cached t"
    "\<And>n. n \<in> live t \<Longrightarrow> toks ?t n = toks t n" "\<And>n. n \<in> live t \<Longrightarrow> vals ?t n = vals t n"
    "\<And>n. n \<in> live t \<Longrightarrow> anc ?t n = anc t n" using c by auto
  have r: "n_ref (heap ?t m) = n_ref (heap t m) + (if m \<in> ?A then d else 0)" for m
    by (simp add: bump_def)
  have k: "kids ?t q = kids t q" using c(2) by (auto simp: kids_def bump_def)
  show "direct ?t q = direct t q + (if q = h then d else 0)" if q: "q \<in> live t" "q \<noteq> root t"
  proof -
    have "h \<in> ?A" if "q = h" using anc_facts(6) [OF wfD [OF wf] h] that q(2) by simp
    then show ?thesis
      unfolding direct_def k r sum_indicator [OF kids_finite [OF wf]] kids_anc [OF wf h q(2)] by auto
  qed
qed

lemma node_sum_bump:
  assumes wf: "tree_wf t" and h: "h \<in> live t"
  shows "node_sum (bump (anc t h) d t) w = node_sum t w -
    (\<Sum>m \<leftarrow> anc t h. w (heap t m)) + (\<Sum>m \<leftarrow> anc t h. (w (heap (bump (anc t h) d t) m) :: int))"
proof -
  let ?t = "bump (anc t h) d t" and ?A = "set (anc t h)" and ?S = "live t - {root t}"
  have A: "?A \<subseteq> ?S" "distinct (anc t h)" using anc_facts [OF wfD [OF wf] h] by auto
  have fin: "finite ?S" using live_finite [OF wf] by simp
  have l: "live ?t = live t" by (rule bump_facts [OF wf h])
  have "node_sum ?t w = (\<Sum>m \<in> ?S - ?A. w (heap ?t m)) + (\<Sum>m \<in> ?A. w (heap ?t m))"
    unfolding node_sum_def l bump_simps by (rule sum.subset_diff [OF A(1) fin])
  also have "(\<Sum>m \<in> ?S - ?A. w (heap ?t m)) = (\<Sum>m \<in> ?S - ?A. w (heap t m))"
    by (rule sum.cong) (auto simp: bump_def)
  also have "\<dots> = node_sum t w - (\<Sum>m \<in> ?A. w (heap t m))"
    unfolding node_sum_def using sum.subset_diff [OF A(1) fin, of "\<lambda>m. w (heap t m)"] by simp
  finally show ?thesis using A(2) by (simp add: sum_list_distinct_conv_sum_set)
qed

lemma lock_inv_refs:
  assumes L: "lock_inv t e p" and "n \<in> live t" "n \<noteq> root t"
  shows "0 \<le> n_ref (heap t n)" "0 \<le> direct t n"
  using assms by (auto simp: lock_inv_def)

lemma lock_loop_inv:
  assumes wf: "tree_wf t" and L: "lock_inv t e p" and h: "h \<in> live t"
  obtains e' p' where "lock_loop (Suc (counter t)) h t e p = Inr (bump (anc t h) 1 t, e', p')"
    "lock_inv (bump (anc t h) 1 t) e' p'"
proof -
  let ?t = "bump (anc t h) 1 t"
  let ?s = "\<Sum>m \<leftarrow> anc t h. w_free (heap t m)"
  note b = bump_facts [OF wf h, where d = 1] and a = anc_facts [OF wfD [OF wf] h]
  have up: "up_loop (Suc (counter t)) t h = Inr (anc t h)"
    using wf_up_path [OF wf h] by (simp add: up_path_def)
  have nn: "0 \<le> n_ref (heap t m)" if "m \<in> set (anc t h)" for m
    using that a(1) lock_inv_refs(1) [OF L] by auto
  have z: "w_free (heap ?t m) = 0 \<and> w_used (heap ?t m) = w_free (heap t m) + w_used (heap t m)"
    if "m \<in> set (anc t h)" for m
    using nn [OF that] that by (auto simp: bump_def w_free_def w_used_def w_len_def)
  have "(\<Sum>m \<leftarrow> anc t h. w_free (heap ?t m)) = 0"
    using z by (simp add: sum_list_0 cong: map_cong)
  then have f: "node_sum ?t w_free = e - ?s"
    using node_sum_bump [OF wf h, of 1 w_free] L by (simp add: lock_inv_def)
  have "(\<Sum>m \<leftarrow> anc t h. w_used (heap ?t m)) = ?s + (\<Sum>m \<leftarrow> anc t h. w_used (heap t m))"
    using z by (simp add: sum_list_addf [symmetric] cong: map_cong)
  then have u: "node_sum ?t w_used = p + ?s"
    using node_sum_bump [OF wf h, of 1 w_used] L by (simp add: lock_inv_def)
  have r: "0 \<le> n_ref (heap ?t q)" if "q \<in> live t" "q \<noteq> root t" for q
    using lock_inv_refs(1) [OF L that] by (simp add: bump_def)
  have "lock_inv ?t (e - ?s) (p + ?s)"
    using f u r b(2) b(7) lock_inv_refs(2) [OF L] by (auto simp: lock_inv_def)
  then show ?thesis using that lock_loop_bump [OF up a(5), of e p] by blast
qed

text \<open>Unlocking a node that holds a lock: every reference count on its path is positive.\<close>

lemma anc_ref_pos:
  assumes wf: "tree_wf t" and L: "lock_inv t e p" and "h \<in> live t" and "h \<noteq> root t \<longrightarrow> 0 < n_ref (heap t h)"
    and "m \<in> set (anc t h)"
  shows "0 < n_ref (heap t m)"
  using assms(3-5)
proof (induction rule: inv_induct [OF wfD [OF wf], consumes 1, case_names 1 2])
  case 1
  then show ?case by (simp add: anc_root [OF wfD [OF wf]])
next
  case (2 n q)
  have a: "anc t n = n # anc t q" by (rule anc_step [OF wfD [OF wf] 2(1,4)])
  show ?case
  proof (cases "m = n")
    case True
    then show ?thesis using 2 by simp
  next
    case False
    have "n \<in> kids t q" using 2 by (simp add: kids_def)
    then have "q \<noteq> root t \<longrightarrow> 0 < n_ref (heap t q)"
      using lock_inv_kid_le [OF wf L _ 2(3)] 2(2,8) by fastforce
    then show ?thesis using 2(7,9) a False by simp
  qed
qed

lemma unlock_loop_inv:
  assumes wf: "tree_wf t" and L: "lock_inv t e p" and h: "h \<in> live t" and d: "h \<noteq> root t \<longrightarrow> 0 < direct t h"
  obtains e' p' where "unlock_loop (Suc (counter t)) h t e p = Inr (bump (anc t h) (-1) t, e', p')"
    "lock_inv (bump (anc t h) (-1) t) e' p'"
proof -
  let ?t = "bump (anc t h) (-1) t"
  let ?s = "\<Sum>m \<leftarrow> anc t h. if n_ref (heap t m) = 1 then w_len (heap t m) else 0"
  note b = bump_facts [OF wf h, where d = "-1"] and a = anc_facts [OF wfD [OF wf] h]
  have up: "up_loop (Suc (counter t)) t h = Inr (anc t h)"
    using wf_up_path [OF wf h] by (simp add: up_path_def)
  have "0 < n_ref (heap t h)" if "h \<noteq> root t"
  proof -
    have "0 \<le> n_ref (heap t c)" if "c \<in> kids t h" for c
      using that lock_inv_refs(1) [OF L, of c] live_root_ne [OF wf, of c h] by (auto simp: kids_def)
    then have "0 \<le> (\<Sum>c \<in> kids t h. n_ref (heap t c))" by (intro sum_nonneg)
    then show ?thesis using d that by (simp add: direct_def)
  qed
  then have pos: "\<forall>m \<in> set (anc t h). 0 < n_ref (heap t m)"
    using anc_ref_pos [OF wf L h] by blast
  have z: "w_free (heap t m) = 0 \<and> w_used (heap t m) = w_len (heap t m) \<and>
      w_free (heap ?t m) = (if n_ref (heap t m) = 1 then w_len (heap t m) else 0) \<and>
      w_used (heap ?t m) + (if n_ref (heap t m) = 1 then w_len (heap t m) else 0) = w_used (heap t m)"
    if "m \<in> set (anc t h)" for m
    using pos that by (auto simp: bump_def w_free_def w_used_def w_len_def)
  have "(\<Sum>m \<leftarrow> anc t h. w_free (heap ?t m)) = ?s" "(\<Sum>m \<leftarrow> anc t h. w_free (heap t m)) = 0"
    using z by (simp_all add: sum_list_0 cong: map_cong)
  then have f: "node_sum ?t w_free = e + ?s"
    using node_sum_bump [OF wf h, of "-1" w_free] L by (simp add: lock_inv_def)
  have "(\<Sum>m \<leftarrow> anc t h. w_used (heap ?t m)) + ?s = (\<Sum>m \<leftarrow> anc t h. w_used (heap t m))"
    using z by (simp add: sum_list_addf [symmetric] cong: map_cong)
  then have u: "node_sum ?t w_used = p - ?s"
    using node_sum_bump [OF wf h, of "-1" w_used] L by (simp add: lock_inv_def)
  have r: "0 \<le> n_ref (heap ?t q)" if "q \<in> live t" "q \<noteq> root t" for q
    using lock_inv_refs(1) [OF L that] pos by (auto simp: bump_def)
  have dd: "0 \<le> direct ?t q" if "q \<in> live t" "q \<noteq> root t" for q
    using b(7) [OF that] lock_inv_refs(2) [OF L that] d that(2) by auto
  have "lock_inv ?t (e + ?s) (p - ?s)"
    using f u r dd b(2) by (auto simp: lock_inv_def)
  then show ?thesis using that unlock_loop_bump [OF up a(5) pos, of e p] by blast
qed

section \<open>Unlocked nodes and leaves\<close>

lemma unlocked_leaf_exists:
  assumes wf: "tree_wf t" and L: "lock_inv t e p" and "0 < e"
  shows "\<exists>n \<in> live t. n \<noteq> root t \<and> is_leaf t n \<and> n_ref (heap t n) = 0"
proof -
  let ?Z = "{n \<in> live t. n \<noteq> root t \<and> n_ref (heap t n) = 0}"
  have "?Z \<noteq> {}"
  proof
    assume "?Z = {}"
    then have "node_sum t w_free = 0" unfolding node_sum_def by (intro sum.neutral) (auto simp: w_free_def)
    then show False using L assms(3) by (simp add: lock_inv_def)
  qed
  moreover have "finite ?Z" using live_finite [OF wf] by simp
  ultimately have "Max ((\<lambda>m. length (toks t m)) ` ?Z) \<in> (\<lambda>m. length (toks t m)) ` ?Z"
    and le: "\<And>m. m \<in> ?Z \<Longrightarrow> length (toks t m) \<le> Max ((\<lambda>m. length (toks t m)) ` ?Z)"
    by (auto intro: Max_in Max_ge)
  then obtain n where n: "n \<in> ?Z" "\<And>m. m \<in> ?Z \<Longrightarrow> length (toks t m) \<le> length (toks t n)"
    by (metis (no_types, lifting) imageE)
  have "kids t n = {}"
  proof (rule ccontr)
    assume "kids t n \<noteq> {}"
    then obtain c where c: "c \<in> kids t n" by auto
    then have cl: "c \<in> live t" "n_parent (heap t c) = Some n" by (auto simp: kids_def)
    have cr: "c \<noteq> root t" by (rule live_root_ne [OF wf cl])
    have "n_ref (heap t c) = 0" using lock_inv_kid_le [OF wf L c] n(1) by auto
    then have "length (toks t c) \<le> length (toks t n)" using n(2) cl cr by simp
    moreover have "toks t c = toks t n @ n_key (heap t c)" "n_key (heap t c) \<noteq> []"
      using inv_node [OF wfD [OF wf] cl(1) cr] cl(2) by (metis option.inject)+
    ultimately show False by simp
  qed
  then show ?thesis using n(1) kids_leaf [OF wf] by auto
qed

end
