(* ===== verification/Radix_Grow.thy ===== *)
theory Radix_Grow
  imports Radix_Lock
begin

text \<open>
  What a walk may change, in one relation: \<open>grown t0 t\<close> says that \<open>t\<close> has the content, the
  slots and the nodes of \<open>t0\<close>, with every old node's path, locks and secondary state as they
  were; new nodes (made by splits) hold no lock and no snapshot. \<open>same_ext\<close> says that the
  fields by which a cache extends the store record are untouched.
\<close>

definition owned :: "'a rtree_scheme \<Rightarrow> slot multiset" where
  "owned t = node_sum t (\<lambda>nd. mset (n_value nd))"

definition same_ext :: "'a rtree_scheme \<Rightarrow> 'a rtree_scheme \<Rightarrow> bool" where
  "same_ext t0 t \<longleftrightarrow> t = t0\<lparr>heap := heap t, counter := counter t\<rparr>"

definition grown :: "'a rtree_scheme \<Rightarrow> 'a rtree_scheme \<Rightarrow> bool" where
  "grown t0 t \<longleftrightarrow>
     live t0 \<subseteq> live t \<and> root t = root t0 \<and> psize t = psize t0 \<and> cached t = cached t0 \<and>
     owned t = owned t0 \<and> same_ext t0 t \<and>
     (\<forall>q \<in> live t0. toks t q = toks t0 q \<and> vals t q = vals t0 q \<and> direct t q = direct t0 q \<and>
        n_ref (heap t q) = n_ref (heap t0 q) \<and> n_mamba (heap t q) = n_mamba (heap t0 q) \<and>
        n_mamba_ref (heap t q) = n_mamba_ref (heap t0 q)) \<and>
     (\<forall>q \<in> live t - live t0. direct t q = 0 \<and> n_mamba (heap t q) = None \<and> n_mamba_ref (heap t q) = 0)"

text \<open>Locking changes no node's path and no slot.\<close>

definition kept :: "'a rtree_scheme \<Rightarrow> 'b rtree_scheme \<Rightarrow> bool" where
  "kept t0 t \<longleftrightarrow>
     live t = live t0 \<and> root t = root t0 \<and> psize t = psize t0 \<and> cached t = cached t0 \<and>
     owned t = owned t0 \<and> (\<forall>q \<in> live t0. toks t q = toks t0 q \<and> vals t q = vals t0 q)"

lemma same_ext_simps:
  "same_ext t t" "same_ext t (upd n f t)" "same_ext t (split_result n p pos t)"
  "same_ext t (leaf_result tic k v p t)" "same_ext t (unlink_result n p t)" "same_ext t (bump ns d t)"
  by (simp_all add: same_ext_def upd_def split_result_def leaf_result_def unlink_result_def
      bump_def Let_def)

lemma same_ext_trans: "same_ext a b \<Longrightarrow> same_ext b c \<Longrightarrow> same_ext a c"
proof -
  assume "same_ext a b" "same_ext b c"
  then have b: "b = a\<lparr>heap := heap b, counter := counter b\<rparr>"
    and c: "c = b\<lparr>heap := heap c, counter := counter c\<rparr>" by (simp_all add: same_ext_def)
  have "c = a\<lparr>heap := heap b, counter := counter b\<rparr>\<lparr>heap := heap c, counter := counter c\<rparr>"
    using b c by metis
  then show "same_ext a c" by (simp add: same_ext_def)
qed

lemma same_ext_basic: "same_ext a b \<Longrightarrow> root b = root a" "same_ext a b \<Longrightarrow> psize b = psize a"
  "same_ext a b \<Longrightarrow> rtree.more b = rtree.more a"
  by (metis same_ext_def rtree.select_convs rtree.update_convs rtree.surjective)+

lemma grownD:
  assumes "grown t0 t"
  shows "live t0 \<subseteq> live t" "root t = root t0" "psize t = psize t0" "cached t = cached t0"
    "owned t = owned t0" "same_ext t0 t"
    "q \<in> live t0 \<Longrightarrow> toks t q = toks t0 q" "q \<in> live t0 \<Longrightarrow> vals t q = vals t0 q"
    "q \<in> live t0 \<Longrightarrow> direct t q = direct t0 q" "q \<in> live t0 \<Longrightarrow> n_ref (heap t q) = n_ref (heap t0 q)"
    "q \<in> live t0 \<Longrightarrow> n_mamba (heap t q) = n_mamba (heap t0 q)"
    "q \<in> live t0 \<Longrightarrow> n_mamba_ref (heap t q) = n_mamba_ref (heap t0 q)"
    "q \<in> live t \<Longrightarrow> q \<notin> live t0 \<Longrightarrow> direct t q = 0"
    "q \<in> live t \<Longrightarrow> q \<notin> live t0 \<Longrightarrow> n_mamba (heap t q) = None"
    "q \<in> live t \<Longrightarrow> q \<notin> live t0 \<Longrightarrow> n_mamba_ref (heap t q) = 0"
  using assms by (auto simp: grown_def)

lemma grown_refl: "grown t t"
  by (simp add: grown_def same_ext_simps)

lemma grown_trans: "grown a b \<Longrightarrow> grown b c \<Longrightarrow> grown a c"
  unfolding grown_def using same_ext_trans by (smt (verit) DiffD1 DiffD2 DiffI subset_iff)

lemma grown_time:
  assumes wf: "tree_wf t"
  shows "grown t (upd n (\<lambda>nd. nd\<lparr>n_time := x\<rparr>) t)"
proof -
  note u = wf_upd [OF wf, of "\<lambda>nd. nd\<lparr>n_time := x\<rparr>" n, simplified]
  have "owned (upd n (\<lambda>nd. nd\<lparr>n_time := x\<rparr>) t) = owned t"
    unfolding owned_def by (rule node_sum_cong [OF u(2)]) (auto simp: heap_upd)
  then show ?thesis
    using u lock_inv_time(2) [OF wf] by (auto simp: grown_def same_ext_simps heap_upd)
qed

lemma owned_split:
  assumes wf: "tree_wf t" and n: "n \<in> live t" "n_parent (heap t n) = Some p"
    and pos: "0 < pos" "pos < node_len t n" "psize t dvd pos"
  shows "owned (split_result n p pos t) = owned t"
proof -
  have "mset (take pos (n_value (heap t n))) + mset (drop pos (n_value (heap t n))) = mset (n_value (heap t n))"
    by (metis append_take_drop_id mset_append)
  then show ?thesis
    unfolding owned_def using split_result_nodes(1,2) [OF wf n, of pos]
    by (intro node_sum_split [OF wf n pos]) auto
qed

lemma grown_split:
  assumes wf: "tree_wf t" and n: "n \<in> live t" "n_parent (heap t n) = Some p"
    and pos: "0 < pos" "pos < node_len t n" "psize t dvd pos" and L: "lock_inv t e p'"
  shows "grown t (split_result n p pos t)"
proof -
  let ?t = "split_result n p pos t"
  note s = wf_split [OF wf n pos] and d = lock_inv_split [OF wf n pos L]
    and h = split_result_nodes [OF wf n]
  have old: "n_ref (heap ?t q) = n_ref (heap t q) \<and> n_mamba (heap ?t q) = n_mamba (heap t q) \<and>
      n_mamba_ref (heap ?t q) = n_mamba_ref (heap t q)" if "q \<in> live t" for q
    using h(2) [of pos] h(3) [OF that, of pos] by (cases "q = n") auto
  have new: "q = counter t" if "q \<in> live ?t" "q \<notin> live t" for q using that s(2) by auto
  have fresh: "direct ?t (counter t) = 0" "n_mamba (heap ?t (counter t)) = None"
      "n_mamba_ref (heap ?t (counter t)) = 0"
    using d(3) h(1) [of pos] by (simp_all add: new_node_def)
  have "live t \<subseteq> live ?t" using s(2) by auto
  moreover have "\<forall>q \<in> live t. toks ?t q = toks t q \<and> vals ?t q = vals t q \<and> direct ?t q = direct t q \<and>
        n_ref (heap ?t q) = n_ref (heap t q) \<and> n_mamba (heap ?t q) = n_mamba (heap t q) \<and>
        n_mamba_ref (heap ?t q) = n_mamba_ref (heap t q)"
    using s(3,4) d(2) old by blast
  moreover have "\<forall>q \<in> live ?t - live t. direct ?t q = 0 \<and> n_mamba (heap ?t q) = None \<and> n_mamba_ref (heap ?t q) = 0"
    using fresh new by blast
  ultimately show ?thesis
    unfolding grown_def by (simp add: s(7) owned_split [OF wf n pos] same_ext_simps split_result_simps)
qed

text \<open>The walk, as the caches use it.\<close>

lemma tree_walk_grown:
  assumes wf: "tree_wf t" and L: "lock_inv t e p"
  obtains t' n k where "tree_walk tic ids t = Inr (t', n, k)" "walked t ids t' n k" "grown t t'"
    "lock_inv t' e p"
proof -
  let ?I = "\<lambda>t'. grown t t' \<and> lock_inv t' e p"
  obtain t' n k where "tree_walk tic ids t = Inr (t', n, k)" "?I t'" "walked t ids t' n k"
  proof (rule tree_walk_rule [OF wf, where I = ?I and ids = ids and tic = tic])
    show "?I t" using L grown_refl by blast
    show "?I (upd m (\<lambda>nd. nd\<lparr>n_time := x\<rparr>) u)" if "tree_wf u" "?I u" "m \<in> live u" for u m x
      using that grown_time grown_trans lock_inv_time(1) by blast
    show "?I (split_result m q pos u)"
      if "tree_wf u" "?I u" "m \<in> live u" "n_parent (heap u m) = Some q" "0 < pos"
        "pos < node_len u m" "psize u dvd pos" for u m q pos
      using that grown_split [OF that(1,3-7)] grown_trans lock_inv_split(1) [OF that(1,3-7)] by blast
  qed
  then show ?thesis using that by blast
qed

text \<open>A walked node spells the input up to \<open>k\<close>, with the slots of the cached prefix.\<close>

lemma walked_cached:
  assumes "walked t ids t' n k"
  shows "cached t (take k ids) (vals t' n)" "length (vals t' n) = k" "psize t dvd k"
proof -
  note w = walkedD [OF assms]
  have "cached t' (toks t' n) (vals t' n)" by (rule cached_node [OF w(1,2)])
  then show "cached t (take k ids) (vals t' n)" using w(3,5) by simp
  show "length (vals t' n) = k" using inv_len_PV [OF wfD [OF w(1)] w(2)] w(3,4) by simp
  show "psize t dvd k" using inv_P_dvd [OF wfD [OF w(1)] w(2)] w(3,4,6) by simp
qed

text \<open>Attaching the rest of an aligned input below the walked node.\<close>

lemma walked_attach:
  assumes w: "walked t ids t' n k" and lt: "k < length ids" "psize t dvd length ids"
    and len: "length idx = length ids"
  shows "get_child t' n (drop k ids) = None" "drop k ids \<noteq> []" "psize t' dvd length (drop k ids)"
    "length (drop k idx) = length (drop k ids)"
  using walkedD [OF w] lt len walked_cached(3) [OF w] by (auto simp: dvd_diff_nat)

lemma owned_leaf:
  assumes wf: "tree_wf t" and p: "p \<in> live t" "get_child t p k = None"
    and k: "k \<noteq> []" "psize t dvd length k" "length v = length k"
  shows "owned (leaf_result tic k v p t) = mset v + owned t"
  unfolding owned_def by (subst node_sum_leaf [OF wf p k]) (auto simp: new_node_def)

lemma owned_unlink:
  assumes wf: "tree_wf t" and n: "n \<in> live t" "n_parent (heap t n) = Some p" and leaf: "is_leaf t n"
  shows "owned t = mset (n_value (heap t n)) + owned (unlink_result n p t)"
  unfolding owned_def by (rule node_sum_unlink [OF wf n leaf]) auto

lemma owned_bump: "tree_wf t \<Longrightarrow> h \<in> live t \<Longrightarrow> owned (bump (anc t h) d t) = owned t"
  unfolding owned_def by (rule node_sum_cong) (auto simp: bump_facts, simp add: bump_def)

lemma mset_concat_rev: "mset (concat (map g (rev xs))) = (\<Sum>x \<leftarrow> xs. mset (g x))"
  by (induction xs) auto

lemma mset_path_owned:
  assumes wf: "tree_wf t" and n: "n \<in> live t"
  shows "mset (vals t n) \<subseteq># owned t"
proof -
  note a = anc_facts [OF wfD [OF wf] n]
  have "mset (vals t n) = (\<Sum>m \<leftarrow> anc t n. mset (n_value (heap t m)))"
    unfolding vals_def by (rule mset_concat_rev)
  also have "\<dots> = (\<Sum>m \<in> set (anc t n). mset (n_value (heap t m)))"
    using a(5) by (simp add: sum_list_distinct_conv_sum_set)
  also have "\<dots> \<subseteq># owned t"
    unfolding owned_def node_sum_def using a(1) live_finite [OF wf]
    by (metis (mono_tags, lifting) finite_Diff mset_subset_eq_add_right sum.subset_diff)
  finally show ?thesis .
qed

end
