(* ===== verification/Radix_Cache.thy ===== *)
theory Radix_Cache
  imports Radix_Grow
begin

text \<open>
  \<^verbatim>\<open>RadixPrefixCache\<close> of \<^verbatim>\<open>python/freetoken/kvcache/radix_cache.py\<close>: lock, match, insert and evict
  on the shared tree, with the invariant \<open>radix_ok\<close> (a well-formed tree whose counters are the
  token totals of its unlocked and locked nodes) and the functional behaviour of every
  operation from a state that satisfies it.
\<close>

section \<open>State and operations\<close>

record radix = rtree +
  evictable_size :: int
  protected_size :: int

record radix_handle =
  h_len :: nat
  h_node :: nid

text \<open>\<open>__init__\<close>: \<open>uuid\<close> is the class counter at construction; the root is always protected.\<close>

definition radix_init :: "nat \<Rightarrow> nid \<Rightarrow> int \<Rightarrow> radix" where
  "radix_init ps uuid tic =
     \<lparr>heap = (\<lambda>_. new_node 0)(uuid := (new_node tic)\<lparr>n_ref := 1\<rparr>), counter = Suc uuid,
      root = uuid, psize = ps, evictable_size = 0, protected_size = 0\<rparr>"

definition set_sizes :: "radix \<times> int \<times> int \<Rightarrow> radix" where
  "set_sizes r = (case r of (s, e, p) \<Rightarrow> s\<lparr>evictable_size := e, protected_size := p\<rparr>)"

definition lock_handle :: "radix_handle \<Rightarrow> bool \<Rightarrow> radix \<Rightarrow> err + radix" where
  "lock_handle h unlock s =
     and_then
       ((if unlock then unlock_loop else lock_loop)
          (Suc (counter s)) (h_node h) s (evictable_size s) (protected_size s))
       (\<lambda>r. Inr (set_sizes r))"

definition match_prefix :: "int \<Rightarrow> token list \<Rightarrow> radix \<Rightarrow> err + (radix \<times> radix_handle)" where
  "match_prefix tic ids s =
     and_then (tree_walk tic ids s) (\<lambda>(s', node, k). Inr (s', \<lparr>h_len = k, h_node = node\<rparr>))"

text \<open>\<open>tic\<close> and \<open>tic'\<close> are the clock readings of the walk and of the new node.\<close>

definition insert_prefix ::
  "int \<Rightarrow> int \<Rightarrow> token list \<Rightarrow> slot list \<Rightarrow> radix \<Rightarrow> err + (radix \<times> nat \<times> radix_handle)" where
  "insert_prefix tic tic' input_ids indices s =
     (let insert_len = align_down_nat (length input_ids) (psize s);
          ids = take insert_len input_ids; idx = take insert_len indices in
      and_then (tree_walk tic ids s) (\<lambda>(s1, node, prefix_len).
        if prefix_len \<noteq> insert_len then
          and_then (add_leaf tic' (drop prefix_len ids) (drop prefix_len idx) node s1) (\<lambda>(s2, new).
            Inr (s2\<lparr>evictable_size := evictable_size s2 + int (node_len s2 new)\<rparr>, prefix_len,
                 \<lparr>h_len = insert_len, h_node = new\<rparr>))
        else Inr (s1, prefix_len, \<lparr>h_len = insert_len, h_node = node\<rparr>)))"

definition get_matched_indices :: "radix_handle \<Rightarrow> radix \<Rightarrow> err + slot list" where
  "get_matched_indices h s =
     and_then (up_path s (h_node h)) (\<lambda>ns.
       if ns = [] then Inl ValueError
       else Inr (concat (map (\<lambda>m. n_value (heap s m)) (rev ns))))"

definition collect_leave_nodes_for_evict :: "radix \<Rightarrow> err + nid list" where
  "collect_leave_nodes_for_evict s =
     and_then (dfs s) (\<lambda>ns. Inr (filter (\<lambda>n. is_leaf s n \<and> n_ref (heap s n) = 0) ns))"

fun evict_loop ::
  "nat \<Rightarrow> int \<Rightarrow> nid list \<Rightarrow> radix \<Rightarrow> int \<Rightarrow> slot list list \<Rightarrow> err + (radix \<times> slot list list)" where
  "evict_loop 0 sz leaves s evicted acc = Inl Diverges"
| "evict_loop (Suc f) sz leaves s evicted acc =
     (if evicted < sz then
        (if leaves = [] then Inl AssertionError
         else
           (let (node, rest) = heappop s leaves in
            if \<not> (n_ref (heap s node) = 0 \<and> is_leaf s node \<and> \<not> is_root s node)
            then Inl AssertionError
            else
              (let l = int (node_len s node);
                   s1 = s\<lparr>evictable_size := evictable_size s - l\<rparr> in
               and_then (unlink node s1) (\<lambda>(s2, parent).
                 evict_loop f sz
                   (if is_leaf s2 parent \<and> n_ref (heap s2 parent) = 0
                    then heappush parent rest else rest)
                   s2 (evicted + l) (acc @ [n_value (heap s node)])))))
      else Inr (s, acc))"

definition evict :: "int \<Rightarrow> radix \<Rightarrow> err + (radix \<times> slot list)" where
  "evict sz s =
     (if sz = 0 then Inr (s, [])
      else if \<not> sz \<le> evictable_size s then Inl AssertionError
      else
        and_then (collect_leave_nodes_for_evict s) (\<lambda>leaves.
        and_then (evict_loop (Suc (counter s)) sz leaves s 0 []) (\<lambda>(s', acc).
        if acc = [] then Inl ValueError else Inr (s', concat acc))))"

definition total_size :: "radix \<Rightarrow> int" where
  "total_size s = evictable_size s + protected_size s"

section \<open>Invariant\<close>

definition radix_ok :: "radix \<Rightarrow> bool" where
  "radix_ok s \<longleftrightarrow>
     tree_wf s \<and> n_ref (heap s (root s)) = 1 \<and> lock_inv s (evictable_size s) (protected_size s)"

text \<open>A handle that may be locked or read: its node is in the tree and spells its length.\<close>

definition handle_ok :: "'a rtree_scheme \<Rightarrow> radix_handle \<Rightarrow> bool" where
  "handle_ok s h \<longleftrightarrow> h_node h \<in> live s \<and> h_len h = length (toks s (h_node h))"

lemma radix_okD:
  assumes "radix_ok s"
  shows "tree_wf s" "n_ref (heap s (root s)) = 1" "lock_inv s (evictable_size s) (protected_size s)"
  using assms by (auto simp: radix_ok_def)

lemma radix_init_wf: "0 < ps \<Longrightarrow> tree_inv (radix_init ps uuid tic) {uuid} (\<lambda>_. []) (\<lambda>_. [])"
  by (simp add: tree_inv_def radix_init_def kids_ok_def new_node_def)

lemma radix_init_ok: "0 < ps \<Longrightarrow> radix_ok (radix_init ps uuid tic)"
proof -
  assume "0 < ps"
  note r = tree_inv_wf [OF radix_init_wf [OF this, of uuid tic]]
  have "root (radix_init ps uuid tic) = uuid" by (simp add: radix_init_def)
  then show ?thesis
    using r by (simp add: radix_ok_def lock_inv_def node_sum_def) (simp add: radix_init_def)
qed

lemma radix_fields:
  assumes "same_ext s (t :: radix)"
  shows "evictable_size t = evictable_size s" "protected_size t = protected_size s"
proof -
  have t: "t = s\<lparr>heap := heap t, counter := counter t\<rparr>" using assms by (simp add: same_ext_def)
  have "evictable_size (s\<lparr>heap := h, counter := c\<rparr>) = evictable_size s"
    "protected_size (s\<lparr>heap := h, counter := c\<rparr>) = protected_size s" for h c by simp_all
  then show "evictable_size t = evictable_size s" "protected_size t = protected_size s"
    using t by metis+
qed

text \<open>The counters are no part of the tree.\<close>

lemma tree_of_sizes:
  fixes s :: radix
  assumes "heap t = heap s" "counter t = counter s" "root t = root s" "psize t = psize s" "tree_wf s"
  shows "tree_wf (t :: radix)" "live t = live s" "cached t = cached s"
    "\<And>n. n \<in> live s \<Longrightarrow> toks t n = toks s n" "\<And>n. n \<in> live s \<Longrightarrow> vals t n = vals s n"
    "lock_inv t e p = lock_inv s e p" "\<And>n. n \<in> live s \<Longrightarrow> direct t n = direct s n" "owned t = owned s"
proof -
  note c = wf_cong [OF assms(5), of t] and l = lock_inv_cong [OF assms(5), of t]
  show "tree_wf t" "live t = live s" "cached t = cached s"
    "\<And>n. n \<in> live s \<Longrightarrow> toks t n = toks s n" "\<And>n. n \<in> live s \<Longrightarrow> vals t n = vals s n"
    "lock_inv t e p = lock_inv s e p" "\<And>n. n \<in> live s \<Longrightarrow> direct t n = direct s n"
    using c l assms by auto
  then show "owned t = owned s" unfolding owned_def using assms by (auto intro: node_sum_cong)
qed

lemma radix_walk:
  assumes ok: "radix_ok s"
  obtains s' n k where "tree_walk tic ids s = Inr (s', n, k)" "walked s ids s' n k" "grown s s'"
    "radix_ok s'" "evictable_size s' = evictable_size s" "protected_size s' = protected_size s"
proof -
  note o = radix_okD [OF ok]
  from tree_walk_grown [OF o(1,3), of tic ids] obtain s' n k where
    w: "tree_walk tic ids s = Inr (s', n, k)" "walked s ids s' n k" "grown s s'"
      "lock_inv s' (evictable_size s) (protected_size s)" by blast
  note f = radix_fields [OF grownD(6) [OF w(3)]]
  have "radix_ok s'"
    using w o(2) f walkedD(1) [OF w(2)] grownD(2,10) [OF w(3)] live.root [of s]
    by (simp add: radix_ok_def)
  then show ?thesis using that w f by blast
qed

section \<open>Locking\<close>

text \<open>Locks move tokens between the two counters and change nothing else.\<close>

lemma lock_inv_total:
  assumes wf: "tree_wf t" and L: "lock_inv t e p"
  shows "e + p = int (size (owned t))"
proof -
  have "e + p = (\<Sum>n \<in> live t - {root t}. w_free (heap t n) + w_used (heap t n))"
    using L by (simp add: lock_inv_def node_sum_def sum.distrib)
  also have "\<dots> = (\<Sum>n \<in> live t - {root t}. int (size (mset (n_value (heap t n)))))"
    using inv_len_value [OF wfD [OF wf]]
    by (intro sum.cong) (auto simp: w_free_def w_used_def w_len_def node_len_def)
  finally show ?thesis by (simp add: owned_def node_sum_def size_multiset_sum)
qed

lemma lock_handle_ok:
  assumes ok: "radix_ok s" and h: "h_node h \<in> live s"
  obtains s' where "lock_handle h False s = Inr s'" "radix_ok s'" "kept s s'"
    "\<And>n. n \<in> live s \<Longrightarrow> n \<noteq> root s \<Longrightarrow> direct s' n = direct s n + (if n = h_node h then 1 else 0)"
proof -
  note o = radix_okD [OF ok]
  let ?b = "bump (anc s (h_node h)) 1 s"
  from lock_loop_inv [OF o(1,3) h] obtain e' p' where
    l: "lock_loop (Suc (counter s)) (h_node h) s (evictable_size s) (protected_size s) = Inr (?b, e', p')"
      "lock_inv ?b e' p'" by blast
  let ?s = "set_sizes (?b, e', p')"
  note b = bump_facts [OF o(1) h, where d = 1]
  have f: "heap ?s = heap ?b" "counter ?s = counter ?b" "root ?s = root ?b" "psize ?s = psize ?b"
    "evictable_size ?s = e'" "protected_size ?s = p'" by (simp_all add: set_sizes_def)
  note t = tree_of_sizes [OF f(1-4) b(1)]
  have "root s \<notin> set (anc s (h_node h))" using anc_facts(1) [OF wfD [OF o(1)] h] by blast
  then have "radix_ok ?s" using t(1,6) l(2) f o(2) by (simp add: radix_ok_def bump_def)
  moreover have "kept s ?s" using t b f owned_bump [OF o(1) h] by (simp add: kept_def)
  moreover have "lock_handle h False s = Inr ?s" using l by (simp add: lock_handle_def)
  ultimately show ?thesis using that t(7) b(2,7) by simp
qed

lemma unlock_handle_ok:
  assumes ok: "radix_ok s" and h: "h_node h \<in> live s" "h_node h \<noteq> root s \<longrightarrow> 0 < direct s (h_node h)"
  obtains s' where "lock_handle h True s = Inr s'" "radix_ok s'" "kept s s'"
    "\<And>n. n \<in> live s \<Longrightarrow> n \<noteq> root s \<Longrightarrow> direct s' n = direct s n - (if n = h_node h then 1 else 0)"
proof -
  note o = radix_okD [OF ok]
  let ?b = "bump (anc s (h_node h)) (-1) s"
  from unlock_loop_inv [OF o(1,3) h] obtain e' p' where
    l: "unlock_loop (Suc (counter s)) (h_node h) s (evictable_size s) (protected_size s) = Inr (?b, e', p')"
      "lock_inv ?b e' p'" by blast
  let ?s = "set_sizes (?b, e', p')"
  note b = bump_facts [OF o(1) h(1), where d = "-1"]
  have f: "heap ?s = heap ?b" "counter ?s = counter ?b" "root ?s = root ?b" "psize ?s = psize ?b"
    "evictable_size ?s = e'" "protected_size ?s = p'" by (simp_all add: set_sizes_def)
  note t = tree_of_sizes [OF f(1-4) b(1)]
  have "root s \<notin> set (anc s (h_node h))" using anc_facts(1) [OF wfD [OF o(1)] h(1)] by blast
  then have "radix_ok ?s" using t(1,6) l(2) f o(2) by (simp add: radix_ok_def bump_def)
  moreover have "kept s ?s" using t b f owned_bump [OF o(1) h(1)] by (simp add: kept_def)
  moreover have "lock_handle h True s = Inr ?s" using l by (simp add: lock_handle_def)
  ultimately show ?thesis using that t(7) b(2,7) by simp
qed

section \<open>Matching and inserting\<close>

lemma match_prefix_ok:
  assumes ok: "radix_ok s"
  obtains s' h where "match_prefix tic ids s = Inr (s', h)" "radix_ok s'" "grown s s'"
    "handle_ok s' h" "h_len h \<le> length ids" "psize s dvd h_len h"
    "toks s' (h_node h) = take (h_len h) ids"
    "cached s (take (h_len h) ids) (vals s' (h_node h))"
    "\<And>ts vs. cached s ts vs \<Longrightarrow> prefix ts ids \<Longrightarrow> length ts \<le> h_len h"
proof -
  from radix_walk [OF ok, of tic ids] obtain s' n k where
    w: "tree_walk tic ids s = Inr (s', n, k)" "walked s ids s' n k" "grown s s'" "radix_ok s'" by metis
  note d = walkedD [OF w(2)] and c = walked_cached [OF w(2)]
  show ?thesis
    by (rule that [of s' "\<lparr>h_len = k, h_node = n\<rparr>"])
       (use w d c in \<open>auto simp: match_prefix_def handle_ok_def\<close>)
qed

text \<open>
  After an insert the tree holds the aligned input: its first \<open>k\<close> tokens with the slots the
  tree already had, the rest with the slots of the caller.
\<close>

lemma insert_prefix_ok:
  assumes ok: "radix_ok s" and len: "length ids \<le> length idx"
  defines "il \<equiv> align_down_nat (length ids) (psize s)"
  obtains s' k h us where "insert_prefix tic tic' ids idx s = Inr (s', k, h)" "radix_ok s'"
    "handle_ok s' h" "h_len h = il" "toks s' (h_node h) = take il ids" "k \<le> il" "psize s dvd k"
    "cached s (take k ids) us" "vals s' (h_node h) = us @ drop k (take il idx)"
    "\<And>ts vs. cached s ts vs \<Longrightarrow> prefix ts (take il ids) \<Longrightarrow> length ts \<le> k"
    "owned s' = owned s + mset (drop k (take il idx))"
    "live s \<subseteq> live s'" "root s' = root s" "psize s' = psize s"
    "\<And>q. q \<in> live s \<Longrightarrow> direct s' q = direct s q \<and> toks s' q = toks s q \<and> vals s' q = vals s q"
    "\<And>q. q \<in> live s' \<Longrightarrow> q \<notin> live s \<Longrightarrow> direct s' q = 0"
    "\<And>ts vs. cached s' ts vs \<longleftrightarrow> cached s ts vs \<or>
       (psize s dvd length ts \<and> prefix ts (take il ids) \<and> vs = take (length ts) (us @ drop k (take il idx)))"
proof -
  let ?ids = "take il ids" and ?idx = "take il idx"
  from radix_walk [OF ok, of tic ?ids] obtain s1 n k where
    w: "tree_walk tic ?ids s = Inr (s1, n, k)" "walked s ?ids s1 n k" "grown s s1" "radix_ok s1"
      "evictable_size s1 = evictable_size s" "protected_size s1 = protected_size s" by metis
  note d = walkedD [OF w(2)] and c = walked_cached [OF w(2)] and g = grownD [OF w(3)]
  have il: "il \<le> length ids" "psize s dvd il" by (simp_all add: il_def)
  have lens: "length ?ids = il" "length ?idx = il" using il(1) len by auto
  have tk: "take k ?ids = take k ids" using d(4) lens by simp
  note cu = c(1)[unfolded tk]
  show ?thesis
  proof (cases "k = il")
    case True
    have "insert_prefix tic tic' ids idx s = Inr (s1, k, \<lparr>h_len = il, h_node = n\<rparr>)"
      using w(1) True by (simp add: insert_prefix_def il_def [symmetric] Let_def)
    moreover have "cached s1 ts vs \<longleftrightarrow> cached s ts vs \<or> (psize s dvd length ts \<and> prefix ts ?ids \<and>
        vs = take (length ts) (vals s1 n @ drop k ?idx))" for ts vs
    proof -
      have "cached s ts (take (length ts) (vals s1 n))" if "psize s dvd length ts" "prefix ts ?ids"
        using cached_prefix_closed [OF c(1), of ts] that True lens by simp
      then show ?thesis using d(5) True lens by auto
    qed
    ultimately show ?thesis
      using w d cu c True lens g
      by (intro that [of s1 k "\<lparr>h_len = il, h_node = n\<rparr>" "vals s1 n"]) (auto simp: handle_ok_def)
  next
    case False
    then have lt: "k < length ?ids" using d(4) lens by simp
    note a = walked_attach [OF w(2) lt, of ?idx] 
    have a: "get_child s1 n (drop k ?ids) = None" "drop k ?ids \<noteq> []" "psize s1 dvd length (drop k ?ids)"
      "length (drop k ?idx) = length (drop k ?ids)"
      using a il lens by auto
    note o1 = radix_okD [OF w(4)]
    note lf = wf_leaf [OF o1(1) d(2) a] and li = lock_inv_leaf [OF o1(1) d(2) a o1(3)]
    note h = leaf_result_nodes [OF o1(1) d(2)]
    define t where "t = leaf_result tic' (drop k ?ids) (drop k ?idx) n s1"
    define m where "m = counter s1"
    define s2 where "s2 = t\<lparr>evictable_size := evictable_size t + int (node_len t m)\<rparr>"
    note lf = lf(1-7)[where tic = tic', folded t_def m_def] and li = li[where tic = tic', folded t_def m_def]
      and h = h(1,2)[where tic = tic' and k = "drop k ?ids" and v = "drop k ?idx", folded t_def m_def]
        h(3)[folded m_def]
    have nm: "n \<noteq> m" using h(3) d(2) by auto
    have ins: "insert_prefix tic tic' ids idx s = Inr (s2, k, \<lparr>h_len = il, h_node = m\<rparr>)"
      using w(1) False add_leaf_eq [OF nm[unfolded m_def] a(4) [symmetric]]
      by (simp add: insert_prefix_def il_def [symmetric] Let_def s2_def t_def m_def)
    have nl: "node_len t m = length (drop k ?ids)" using h(1) by (simp add: node_len_def)
    have f: "heap s2 = heap t" "counter s2 = counter t" "root s2 = root t" "psize s2 = psize t"
      by (simp_all add: s2_def)
    note tr = tree_of_sizes [OF f lf(1)]
    have e: "evictable_size t = evictable_size s1" "protected_size t = protected_size s1"
      unfolding t_def by (rule radix_fields [OF same_ext_simps(4)])+
    have rs: "root t = root s1" "psize t = psize s1" by (simp_all add: leaf_result_simps t_def)
    have app: "toks s1 n @ drop k ?ids = ?ids" by (simp only: d(3) append_take_drop_id)
    have r1: "n_ref (heap t (root s1)) = 1"
      using h(2) [OF live.root] o1(2) by (metis rnode.select_convs(5) rnode.surjective rnode.update_convs(3))
    have lv: "live s2 = insert m (live s1)" using tr(2) lf(2) by simp
    have tv: "toks s2 m = ?ids" "vals s2 m = vals s1 n @ drop k ?idx"
      using tr(4,5) [of m] lf(2,5,6) app by auto
    show ?thesis
    proof (rule that [OF ins])
      have "lock_inv s2 (evictable_size s1 + int (length (drop k ?ids))) (protected_size s1)"
        using tr(6) li(1) by simp
      moreover have "evictable_size s2 = evictable_size s1 + int (length (drop k ?ids))"
        "protected_size s2 = protected_size s1" using e nl by (simp_all add: s2_def)
      ultimately show "radix_ok s2" using tr(1) f(1,3) rs(1) r1 by (simp add: radix_ok_def)
      show "handle_ok s2 \<lparr>h_len = il, h_node = m\<rparr>" using lv tv(1) lens by (simp add: handle_ok_def)
      show "toks s2 (h_node \<lparr>h_len = il, h_node = m\<rparr>) = ?ids" using tv by simp
      show "k \<le> il" using d(4) lens by simp
      show "psize s dvd k" by (rule c(3))
      show "cached s (take k ids) (vals s1 n)" by (rule cu)
      show "vals s2 (h_node \<lparr>h_len = il, h_node = m\<rparr>) = vals s1 n @ drop k ?idx" using tv by simp
      show "length ts \<le> k" if "cached s ts vs" "prefix ts ?ids" for ts vs by (rule d(7) [OF that])
      show "owned s2 = owned s + mset (drop k ?idx)"
        using tr(8) owned_leaf [OF o1(1) d(2) a, of tic'] g(5) by (simp add: t_def)
      show "live s \<subseteq> live s2" using lv g(1) by auto
      show "root s2 = root s" "psize s2 = psize s" using f rs g(2,3) by simp_all
      show "direct s2 q = direct s q \<and> toks s2 q = toks s q \<and> vals s2 q = vals s q"
        if "q \<in> live s" for q
      proof -
        have q: "q \<in> live s1" "q \<in> live t" using that g(1) lf(2) by auto
        show ?thesis
          using tr(4,5,7) [OF q(2)] lf(3,4) [OF q(1)] li(2) [OF q(1)] g(7-9) [OF that] by simp
      qed
      show "direct s2 q = 0" if "q \<in> live s2" "q \<notin> live s" for q
      proof (cases "q = m")
        case True
        then show ?thesis using tr(7) [of m] lf(2) li(3) by simp
      next
        case False
        then have q: "q \<in> live s1" "q \<in> live t" using that(1) lv lf(2) by auto
        show ?thesis using tr(7) [OF q(2)] li(2) [OF q(1)] g(13) [OF q(1) that(2)] by simp
      qed
      show "cached s2 ts vs \<longleftrightarrow> cached s ts vs \<or> (psize s dvd length ts \<and> prefix ts ?ids \<and>
          vs = take (length ts) (vals s1 n @ drop k ?idx))" for ts vs
        using tr(3) lf(7) d(5,6) app by simp
    qed simp
  qed
qed

text \<open>The slots of a handle below the root; for the root \<open>torch.cat\<close> raises on an empty list.\<close>

lemma get_matched_indices_ok:
  assumes ok: "radix_ok s" and h: "handle_ok s h"
  shows "get_matched_indices h s = (if h_len h = 0 then Inl ValueError else Inr (vals s (h_node h)))"
proof -
  note o = radix_okD [OF ok]
  have n: "h_node h \<in> live s" using h by (simp add: handle_ok_def)
  have "anc s (h_node h) = [] \<longleftrightarrow> h_len h = 0"
  proof (cases "h_node h = root s")
    case True
    then show ?thesis
      using h anc_root [OF wfD [OF o(1)]] inv_root_P [OF wfD [OF o(1)]] by (simp add: handle_ok_def)
  next
    case False
    from inv_node [OF wfD [OF o(1)] n False] obtain p where
      "toks s (h_node h) = toks s p @ n_key (heap s (h_node h))" "n_key (heap s (h_node h)) \<noteq> []" by metis
    then show ?thesis
      using h anc_facts(6) [OF wfD [OF o(1)] n False] by (auto simp: handle_ok_def)
  qed
  then show ?thesis using wf_up_path [OF o(1) n] by (simp add: get_matched_indices_def vals_def)
qed

section \<open>Evicting\<close>

text \<open>
  The specification of eviction: a sequence of steps, each of which removes an unlocked leaf
  whose timestamp is the least among the unlocked leaves of that moment.
\<close>

definition unlocked_leaves :: "radix \<Rightarrow> nid set" where
  "unlocked_leaves s = {n \<in> live s. n \<noteq> root s \<and> is_leaf s n \<and> n_ref (heap s n) = 0}"

definition drop_leaf :: "nid \<Rightarrow> radix \<Rightarrow> radix" where
  "drop_leaf n s =
     (case n_parent (heap s n) of
        None \<Rightarrow> s
      | Some p \<Rightarrow> unlink_result n p (s\<lparr>evictable_size := evictable_size s - int (node_len s n)\<rparr>))"

inductive lru_evict :: "radix \<Rightarrow> slot list list \<Rightarrow> radix \<Rightarrow> bool" where
  nil: "lru_evict s [] s"
| step: "n \<in> unlocked_leaves s \<Longrightarrow> \<forall>m \<in> unlocked_leaves s. n_time (heap s n) \<le> n_time (heap s m) \<Longrightarrow>
     lru_evict (drop_leaf n s) vss s' \<Longrightarrow> lru_evict s (n_value (heap s n) # vss) s'"

lemma unlocked_leaf_parent:
  assumes "radix_ok s" and "n \<in> unlocked_leaves s"
  obtains p where "n_parent (heap s n) = Some p"
proof -
  have "n \<in> live s" "n \<noteq> root s" using assms(2) by (auto simp: unlocked_leaves_def)
  from inv_node [OF wfD [OF radix_okD(1) [OF assms(1)]] this] that show ?thesis by metis
qed

lemma drop_leaf_ok:
  assumes ok: "radix_ok s" and n: "n \<in> unlocked_leaves s" and pa: "n_parent (heap s n) = Some p"
  shows "p \<in> live s"
    "unlink n (s\<lparr>evictable_size := evictable_size s - int (node_len s n)\<rparr>) = Inr (drop_leaf n s, p)"
    "radix_ok (drop_leaf n s)" "live (drop_leaf n s) = live s - {n}" "root (drop_leaf n s) = root s"
    "psize (drop_leaf n s) = psize s" "counter (drop_leaf n s) = counter s"
    "evictable_size (drop_leaf n s) = evictable_size s - int (length (n_value (heap s n)))"
    "protected_size (drop_leaf n s) = protected_size s"
    "owned s = mset (n_value (heap s n)) + owned (drop_leaf n s)"
    "cached (drop_leaf n s) ts vs \<Longrightarrow> cached s ts vs"
    "q \<in> live s \<Longrightarrow> q \<noteq> n \<Longrightarrow> direct (drop_leaf n s) q = direct s q \<and>
       toks (drop_leaf n s) q = toks s q \<and> vals (drop_leaf n s) q = vals s q"
    "n_ref (heap (drop_leaf n s) q) = n_ref (heap s q) \<and> n_time (heap (drop_leaf n s) q) = n_time (heap s q)"
    "q \<noteq> p \<Longrightarrow> heap (drop_leaf n s) q = heap s q" "0 < length (n_value (heap s n))"
    "\<not> is_leaf s p"
proof -
  note o = radix_okD [OF ok]
  have n': "n \<in> live s" "n \<noteq> root s" "is_leaf s n" "n_ref (heap s n) = 0"
    using n by (auto simp: unlocked_leaves_def)
  from inv_node [OF wfD [OF o(1)] n'(1,2)] have p: "p \<in> live s" "n_parent (heap s n) = Some p"
    "(key_fn (psize s) (n_key (heap s n)), n) \<in> set (n_children (heap s p))" using pa by (metis option.inject)+
  define s1 where "s1 = s\<lparr>evictable_size := evictable_size s - int (node_len s n)\<rparr>"
  have f: "heap s1 = heap s" "counter s1 = counter s" "root s1 = root s" "psize s1 = psize s"
    by (simp_all add: s1_def)
  note t = tree_of_sizes [OF f o(1)]
  have n1: "n \<in> live s1" "n_parent (heap s1 n) = Some p" "is_leaf s1 n" "n_ref (heap s1 n) = 0"
    using n' p t(2) f by (simp_all add: is_leaf_def)
  have d: "drop_leaf n s = unlink_result n p s1" by (simp add: drop_leaf_def p(2) s1_def)
  note u = wf_unlink [OF t(1) n1(1-3)] and li = lock_inv_unlink [OF t(1) n1(1-4)]
  have e: "evictable_size (unlink_result n p s1) = evictable_size s1"
    "protected_size (unlink_result n p s1) = protected_size s1"
    by (rule radix_fields [OF same_ext_simps(5)])+
  have lv: "node_len s n = length (n_value (heap s n))" "0 < node_len s n"
    using inv_len_value [OF wfD [OF o(1)] n'(1,2)] inv_len_pos [OF wfD [OF o(1)] n'(1,2)] by auto
  have h: "n_ref (heap (unlink_result n p s1) q) = n_ref (heap s q) \<and>
      n_time (heap (unlink_result n p s1) q) = n_time (heap s q)" for q
    using unlink_result_nodes [of n p s1 q] f by auto
  have "lock_inv s1 (evictable_size s) (protected_size s)" using t(6) o(3) by simp
  from li(1) [OF this] have L: "lock_inv (unlink_result n p s1) (evictable_size s1) (protected_size s1)"
    by (simp add: s1_def node_len_def)
  show "p \<in> live s" by (rule p(1))
  show "unlink n (s\<lparr>evictable_size := evictable_size s - int (node_len s n)\<rparr>) = Inr (drop_leaf n s, p)"
      unfolding d using unlink_eq [OF wfD [OF t(1)] n1(1,2)] by (simp add: s1_def)
  show "radix_ok (drop_leaf n s)" "root (drop_leaf n s) = root s" "psize (drop_leaf n s) = psize s"
      "counter (drop_leaf n s) = counter s"
      unfolding d radix_ok_def using u(1) h o(2) L e f by (simp_all add: unlink_result_simps)
  show "live (drop_leaf n s) = live s - {n}" unfolding d using u(2) t(2) by simp
  show "evictable_size (drop_leaf n s) = evictable_size s - int (length (n_value (heap s n)))"
      "protected_size (drop_leaf n s) = protected_size s"
      unfolding d e using lv by (simp_all add: s1_def)
  show "owned s = mset (n_value (heap s n)) + owned (drop_leaf n s)"
      unfolding d using owned_unlink [OF t(1) n1(1-3)] t(8) f by simp
  show "cached s ts vs" if "cached (drop_leaf n s) ts vs"
      using that u(5) t(3) unfolding d by simp
  show "direct (drop_leaf n s) q = direct s q \<and> toks (drop_leaf n s) q = toks s q \<and>
        vals (drop_leaf n s) q = vals s q" if "q \<in> live s" "q \<noteq> n"
    proof -
      have q: "q \<in> live s1" using that(1) t(2) by simp
      have "lock_inv s1 (evictable_size s) (protected_size s)" using t(6) o(3) by simp
      from li(2) [OF this q that(2)] show ?thesis
        unfolding d using u(3,4) [OF q that(2)] t(4,5,7) [OF that(1)] by simp
    qed
  show "n_ref (heap (drop_leaf n s) q) = n_ref (heap s q) \<and> n_time (heap (drop_leaf n s) q) = n_time (heap s q)"
      unfolding d by (rule h)
  show "heap (drop_leaf n s) q = heap s q" if "q \<noteq> p"
      unfolding d using that f by (simp add: unlink_result_other)
  show "0 < length (n_value (heap s n))" using lv by simp
  show "\<not> is_leaf s p" using p(3) by (auto simp: is_leaf_def)
qed

lemma unlocked_leaves_drop:
  assumes ok: "radix_ok s" and n: "n \<in> unlocked_leaves s" and p: "n_parent (heap s n) = Some p"
  shows "unlocked_leaves (drop_leaf n s) = unlocked_leaves s - {n} \<union>
     (if is_leaf (drop_leaf n s) p \<and> n_ref (heap (drop_leaf n s) p) = 0 then {p} else {})"
    and "p \<notin> unlocked_leaves s"
proof -
  note dl = drop_leaf_ok [OF ok n p]
  have d: "live (drop_leaf n s) = live s - {n}"
    "root (drop_leaf n s) = root s" "\<And>q. n_ref (heap (drop_leaf n s) q) = n_ref (heap s q)"
    "\<And>q. q \<noteq> p \<Longrightarrow> heap (drop_leaf n s) q = heap s q" "\<not> is_leaf s p" "p \<in> live s"
    using dl(1,4,5,13,14,16) by auto
  show pn: "p \<notin> unlocked_leaves s" using d(5) by (auto simp: unlocked_leaves_def)
  have "p \<noteq> n" using pn n by auto
  have r: "n_ref (heap s (root s)) = 1" by (rule radix_okD [OF ok])
  have "q \<in> unlocked_leaves (drop_leaf n s) \<longleftrightarrow> q \<in> unlocked_leaves s - {n} \<union>
     (if is_leaf (drop_leaf n s) p \<and> n_ref (heap (drop_leaf n s) p) = 0 then {p} else {})" for q
  proof (cases "q = p")
    case True
    then show ?thesis using d r pn \<open>p \<noteq> n\<close> by (auto simp: unlocked_leaves_def)
  next
    case False
    then show ?thesis using d by (auto simp: unlocked_leaves_def is_leaf_def)
  qed
  then show "unlocked_leaves (drop_leaf n s) = unlocked_leaves s - {n} \<union>
     (if is_leaf (drop_leaf n s) p \<and> n_ref (heap (drop_leaf n s) p) = 0 then {p} else {})" by blast
qed

lemma lru_evict_ok:
  assumes "lru_evict s vss s'" and "radix_ok s"
  shows "radix_ok s'" "owned s = mset (concat vss) + owned s'" "live s' \<subseteq> live s" "root s' = root s"
    "psize s' = psize s"
    "evictable_size s' = evictable_size s - int (length (concat vss))"
    "protected_size s' = protected_size s"
    "cached s' ts vs \<Longrightarrow> cached s ts vs"
    "q \<in> live s' \<Longrightarrow> direct s' q = direct s q \<and> toks s' q = toks s q \<and> vals s' q = vals s q"
    "q \<in> live s \<Longrightarrow> q \<notin> live s' \<Longrightarrow> n_ref (heap s q) = 0 \<and> q \<noteq> root s"
proof -
  have "radix_ok s' \<and> owned s = mset (concat vss) + owned s' \<and> live s' \<subseteq> live s \<and> root s' = root s \<and>
    psize s' = psize s \<and> evictable_size s' = evictable_size s - int (length (concat vss)) \<and>
    protected_size s' = protected_size s \<and> (\<forall>ts vs. cached s' ts vs \<longrightarrow> cached s ts vs) \<and>
    (\<forall>q \<in> live s'. direct s' q = direct s q \<and> toks s' q = toks s q \<and> vals s' q = vals s q) \<and>
    (\<forall>q \<in> live s - live s'. n_ref (heap s q) = 0 \<and> q \<noteq> root s)"
    using assms
  proof (induction rule: lru_evict.induct)
    case (nil s)
    then show ?case by simp
  next
    case (step n s vss s')
    from unlocked_leaf_parent [OF step.prems step.hyps(1)] obtain p where p: "n_parent (heap s n) = Some p" .
    note d = drop_leaf_ok(3-6,8-13) [OF step.prems step.hyps(1) p]
    note IH = step.IH [OF d(1)]
    have "\<forall>q \<in> live s'. direct s' q = direct s q \<and> toks s' q = toks s q \<and> vals s' q = vals s q"
    proof
      fix q assume q: "q \<in> live s'"
      then have "q \<in> live s" "q \<noteq> n" using IH d(2) by auto
      then show "direct s' q = direct s q \<and> toks s' q = toks s q \<and> vals s' q = vals s q"
        using IH q d(9) by simp
    qed
    moreover have "\<forall>ts vs. cached s' ts vs \<longrightarrow> cached s ts vs" using IH d(8) by blast
    moreover have "\<forall>q \<in> live s - live s'. n_ref (heap s q) = 0 \<and> q \<noteq> root s"
    proof
      fix q assume q: "q \<in> live s - live s'"
      show "n_ref (heap s q) = 0 \<and> q \<noteq> root s"
      proof (cases "q = n")
        case True
        then show ?thesis using step.hyps(1) by (auto simp: unlocked_leaves_def)
      next
        case False
        then have "q \<in> live (drop_leaf n s) - live s'" using q d(2) by simp
        then have "n_ref (heap (drop_leaf n s) q) = 0 \<and> q \<noteq> root (drop_leaf n s)" using IH by blast
        then show ?thesis using d(3,10) by simp
      qed
    qed
    moreover have "owned s = mset (concat (n_value (heap s n) # vss)) + owned s'"
      using IH d(7) by (simp add: add.assoc)
    moreover have "live s' \<subseteq> live s" using IH d(2) by blast
    ultimately show ?case using IH d(1,3-6) by simp
  qed
  then show "radix_ok s'" "owned s = mset (concat vss) + owned s'" "live s' \<subseteq> live s" "root s' = root s"
    "psize s' = psize s"
    "evictable_size s' = evictable_size s - int (length (concat vss))"
    "protected_size s' = protected_size s"
    "cached s' ts vs \<Longrightarrow> cached s ts vs"
    "q \<in> live s' \<Longrightarrow> direct s' q = direct s q \<and> toks s' q = toks s q \<and> vals s' q = vals s q"
    "q \<in> live s \<Longrightarrow> q \<notin> live s' \<Longrightarrow> n_ref (heap s q) = 0 \<and> q \<noteq> root s" by auto
qed

lemma evict_loop_ok:
  assumes "radix_ok s" and "distinct q" and "set q = unlocked_leaves s" and "card (live s) \<le> f"
    and "sz \<le> got + evictable_size s"
  shows "\<exists>s' vss. evict_loop f sz q s got acc = Inr (s', acc @ vss) \<and> lru_evict s vss s' \<and>
    sz \<le> got + int (length (concat vss)) \<and>
    (vss \<noteq> [] \<longrightarrow> got + int (length (concat (butlast vss))) < sz)"
  using assms
proof (induction f arbitrary: q s got acc)
  case 0
  have "live s \<noteq> {}" using live.root by blast
  then show ?case using 0 live_finite [OF radix_okD(1) [OF 0(1)]] by (simp add: card_gt_0_iff)
next
  case (Suc f)
  note ok = Suc.prems(1) and o = radix_okD [OF Suc.prems(1)]
  show ?case
  proof (cases "got < sz")
    case False
    then show ?thesis using lru_evict.nil [of s] by auto
  next
    case True
    then have "0 < evictable_size s" using Suc.prems(5) by simp
    from unlocked_leaf_exists [OF o(1,3) this] have "unlocked_leaves s \<noteq> {}"
      by (auto simp: unlocked_leaves_def)
    then have qne: "q \<noteq> []" using Suc.prems(3) by auto
    define n where "n = arg_min_list (\<lambda>m. n_time (heap s m)) q"
    have nq: "n \<in> set q" unfolding n_def by (rule arg_min_list_in [OF qne])
    then have n: "n \<in> unlocked_leaves s" using Suc.prems(3) by simp
    have min: "\<forall>m \<in> unlocked_leaves s. n_time (heap s n) \<le> n_time (heap s m)"
      using arg_min_list_min [OF qne, of _ "\<lambda>m. n_time (heap s m)"] Suc.prems(3) by (auto simp: n_def)
    from unlocked_leaf_parent [OF ok n] obtain p where p: "n_parent (heap s n) = Some p" .
    note d = p drop_leaf_ok(2-4,8) [OF ok n p]
    define l where "l = int (node_len s n)"
    define q' where "q' = (if is_leaf (drop_leaf n s) p \<and> n_ref (heap (drop_leaf n s) p) = 0
                    then heappush p (remove1 n q) else remove1 n q)"
    have nl: "l = int (length (n_value (heap s n)))"
      using inv_len_value [OF wfD [OF o(1)]] n by (simp add: unlocked_leaves_def l_def)
    have n': "n_ref (heap s n) = 0" "is_leaf s n" "\<not> is_root s n" "n \<in> live s"
      using n inv_is_root [OF wfD [OF o(1)]] by (auto simp: unlocked_leaves_def)
    have step: "evict_loop (Suc f) sz q s got acc =
        evict_loop f sz q' (drop_leaf n s) (got + l) (acc @ [n_value (heap s n)])"
      using True qne n' d(2)
      by (simp add: heappop_def n_def [symmetric] Let_def q'_def l_def)
    note ul = unlocked_leaves_drop [OF ok n d(1)]
    have q': "distinct q'" "set q' = unlocked_leaves (drop_leaf n s)"
      using Suc.prems(2,3) ul by (auto simp: q'_def heappush_def)
    have c: "card (live (drop_leaf n s)) \<le> f"
      using Suc.prems(4) d(4) n'(4) live_finite [OF o(1)] by simp
    have b: "sz \<le> (got + l) + evictable_size (drop_leaf n s)" using Suc.prems(5) d(5) nl by simp
    from Suc.IH [OF d(3) q' c b, of "acc @ [n_value (heap s n)]"] obtain s' vss where
      r: "evict_loop f sz q' (drop_leaf n s) (got + l) (acc @ [n_value (heap s n)]) =
          Inr (s', (acc @ [n_value (heap s n)]) @ vss)" "lru_evict (drop_leaf n s) vss s'"
        "sz \<le> got + l + int (length (concat vss))"
        "vss \<noteq> [] \<longrightarrow> got + l + int (length (concat (butlast vss))) < sz" by blast
    have "lru_evict s (n_value (heap s n) # vss) s'" by (rule lru_evict.step [OF n min r(2)])
    then show ?thesis
      unfolding step using r nl True by (intro exI [of _ s'] exI [of _ "n_value (heap s n) # vss"]) auto
  qed
qed

lemma evict_ok:
  assumes ok: "radix_ok s" and sz: "0 < sz" "sz \<le> evictable_size s"
  obtains s' vss where "evict sz s = Inr (s', concat vss)" "lru_evict s vss s'"
    "sz \<le> int (length (concat vss))" "int (length (concat (butlast vss))) < sz"
proof -
  note o = radix_okD [OF ok]
  from dfs_ok [OF o(1)] obtain ns where ns: "dfs s = Inr ns" "distinct ns" "set ns = live s" by blast
  let ?q = "filter (\<lambda>n. is_leaf s n \<and> n_ref (heap s n) = 0) ns"
  have q: "distinct ?q" "set ?q = unlocked_leaves s"
    using ns o(2) by (auto simp: unlocked_leaves_def)
  have "live s \<subseteq> {..<counter s}" using inv_lt [OF wfD [OF o(1)]] by auto
  then have "card (live s) \<le> counter s" using card_mono [of "{..<counter s}"] by force
  then have c: "card (live s) \<le> Suc (counter s)" by simp
  have "sz \<le> 0 + evictable_size s" using sz by simp
  from evict_loop_ok [OF ok q c this, of "[]"] obtain s' vss where
    r: "evict_loop (Suc (counter s)) sz ?q s 0 [] = Inr (s', vss)" "lru_evict s vss s'"
      "sz \<le> int (length (concat vss))" "vss \<noteq> [] \<longrightarrow> int (length (concat (butlast vss))) < sz"
    by auto
  have "vss \<noteq> []" using r(3) sz by auto
  then have "evict sz s = Inr (s', concat vss)"
    using r(1) ns(1) sz unfolding evict_def collect_leave_nodes_for_evict_def
    by (simp del: evict_loop.simps)
  then show ?thesis using that r \<open>vss \<noteq> []\<close> by blast
qed

end
