(* ===== verification/Radix_Contract.thy ===== *)
theory Radix_Contract
  imports Radix_Cache
begin

text \<open>
  What \<^verbatim>\<open>RadixPrefixCache\<close> promises to its caller, one theorem per operation, stated on the
  relation \<open>cached\<close> (which slots the tree holds for a token sequence), the multiset \<open>owned\<close> of
  all slots in the tree and the number \<open>direct\<close> of locks that end at a node.
\<close>

section \<open>A small tree for concrete instances\<close>

text \<open>Page size 2, one sequence of four tokens inserted into the empty cache.\<close>

definition demo_tree :: radix where
  "demo_tree =
     (case insert_prefix 1 2 [7, 8, 9, 10, 11] [20, 21, 22, 23, 24] (radix_init 2 0 0) of
        Inr (s, _) \<Rightarrow> s
      | Inl _ \<Rightarrow> radix_init 2 0 0)"

lemma demo_tree_insert:
  "insert_prefix 1 2 [7, 8, 9, 10, 11] [20, 21, 22, 23, 24] (radix_init 2 0 0) =
     Inr (demo_tree, 0, \<lparr>h_len = 4, h_node = 1\<rparr>)"
proof -
  let ?r = "insert_prefix 1 2 [7, 8, 9, 10, 11] [20, 21, 22, 23, 24] (radix_init 2 0 0)"
  have "case ?r of Inr (s, k, h) \<Rightarrow> k = 0 \<and> h = \<lparr>h_len = 4, h_node = 1\<rparr> | Inl _ \<Rightarrow> False"
    by code_simp
  then show ?thesis by (auto simp: demo_tree_def split: sum.splits)
qed

lemma demo_tree_facts:
  "evictable_size demo_tree = 4" "protected_size demo_tree = 0" "psize demo_tree = 2"
  "root demo_tree = 0" "counter demo_tree = 2" "n_ref (heap demo_tree 1) = 0"
  by code_simp+

lemma radix_init_facts:
  assumes "0 < ps"
  shows "live (radix_init ps uuid tic) = {uuid}" "owned (radix_init ps uuid tic) = {#}"
    "cached (radix_init ps uuid tic) ts vs \<longleftrightarrow> ts = [] \<and> vs = []"
    "psize (radix_init ps uuid tic) = ps" "root (radix_init ps uuid tic) = uuid"
proof -
  note i = tree_inv_wf [OF radix_init_wf [OF assms, of uuid tic]]
  show r: "root (radix_init ps uuid tic) = uuid" "psize (radix_init ps uuid tic) = ps"
    by (simp_all add: radix_init_def)
  show "live (radix_init ps uuid tic) = {uuid}" by (rule i(2))
  show "owned (radix_init ps uuid tic) = {#}" by (simp add: owned_def node_sum_def i(2) r)
  show "cached (radix_init ps uuid tic) ts vs \<longleftrightarrow> ts = [] \<and> vs = []"
    unfolding cached_def i(2) using i(3,4) by auto
qed

text \<open>The insert specification as one relation between the state before and after.\<close>

definition inserted ::
  "radix \<Rightarrow> token list \<Rightarrow> slot list \<Rightarrow> radix \<Rightarrow> nat \<Rightarrow> radix_handle \<Rightarrow> slot list \<Rightarrow> bool" where
  "inserted s ids idx s' k h us \<longleftrightarrow>
     radix_ok s' \<and> handle_ok s' h \<and> h_len h = length ids \<and> toks s' (h_node h) = ids \<and>
     k \<le> length ids \<and> psize s dvd k \<and> cached s (take k ids) us \<and> vals s' (h_node h) = us @ drop k idx \<and>
     (\<forall>ts vs. cached s ts vs \<and> prefix ts ids \<longrightarrow> length ts \<le> k) \<and>
     owned s' = owned s + mset (drop k idx) \<and> live s \<subseteq> live s' \<and> root s' = root s \<and> psize s' = psize s \<and>
     (\<forall>q \<in> live s. direct s' q = direct s q \<and> toks s' q = toks s q \<and> vals s' q = vals s q) \<and>
     (\<forall>q \<in> live s' - live s. direct s' q = 0) \<and>
     (\<forall>ts vs. cached s' ts vs \<longleftrightarrow> cached s ts vs \<or>
        (psize s dvd length ts \<and> prefix ts ids \<and> vs = take (length ts) (us @ drop k idx)))"

lemma insert_prefix_inserted:
  assumes "radix_ok s" and "length ids \<le> length idx"
  defines "il \<equiv> align_down_nat (length ids) (psize s)"
  obtains s' k h us where "insert_prefix tic tic' ids idx s = Inr (s', k, h)"
    "inserted s (take il ids) (take il idx) s' k h us"
proof (rule insert_prefix_ok [OF assms(1,2), of tic tic'], goal_cases)
  case (1 s' k h us)
  note r = 1 [folded il_def]
  have l: "length (take il ids) = il" by (simp add: il_def)
  have t: "take k (take il ids) = take k ids" using r(7) by (simp add: min_absorb1)
  show ?thesis
  proof (rule that [OF r(2)])
    show "inserted s (take il ids) (take il idx) s' k h us"
      unfolding inserted_def l t
      by (intro conjI; (rule r | use r in blast))
  qed
qed

lemma demo_tree_ok:
  "radix_ok demo_tree" "handle_ok demo_tree \<lparr>h_len = 4, h_node = 1\<rparr>"
  "owned demo_tree = {#20, 21, 22, 23#}" "direct demo_tree 1 = 0"
  "cached demo_tree ts vs \<longleftrightarrow> even (length ts) \<and> prefix ts [7, 8, 9, 10] \<and> vs = take (length ts) [20, 21, 22, 23]"
proof -
  note i = radix_init_facts [of 2 0 0, simplified]
  have ok0: "radix_ok (radix_init 2 0 0)" by (rule radix_init_ok) simp
  have l: "length [7, 8, 9, 10, 11 :: token] \<le> length [20, 21, 22, 23, 24 :: slot]" by simp
  have il: "align_down_nat (length [7, 8, 9, 10, 11 :: token]) (psize (radix_init 2 0 0)) = 4"
    by (simp add: align_down_nat_def i)
  obtain us where
    "inserted (radix_init 2 0 0) [7, 8, 9, 10] [20, 21, 22, 23] demo_tree 0 \<lparr>h_len = 4, h_node = 1\<rparr> us"
    by (rule insert_prefix_inserted [OF ok0 l, of 1 2]) (use demo_tree_insert il in auto)
  note r = this [unfolded inserted_def i]
  show "radix_ok demo_tree" "handle_ok demo_tree \<lparr>h_len = 4, h_node = 1\<rparr>"
    "owned demo_tree = {#20, 21, 22, 23#}" using r by simp_all
  show "direct demo_tree 1 = 0" using r by (simp add: handle_ok_def)
  have "us = []" using r by simp
  then show "cached demo_tree ts vs \<longleftrightarrow> even (length ts) \<and> prefix ts [7, 8, 9, 10] \<and> vs = take (length ts) [20, 21, 22, 23]"
    using r by auto
qed

lemma direct_le_ref:
  assumes "tree_wf t" and "lock_inv t e p" and "n \<in> live t"
  shows "direct t n \<le> n_ref (heap t n)"
proof -
  have "0 \<le> n_ref (heap t c)" if "c \<in> kids t n" for c
  proof -
    have "c \<in> live t" "c \<noteq> root t"
      using that live_root_ne [OF assms(1)] by (auto simp: kids_def)
    then show ?thesis using assms(2) by (simp add: lock_inv_def)
  qed
  then show ?thesis by (simp add: direct_def sum_nonneg)
qed

lemma lock_handle_facts:
  assumes "radix_ok s" and "h_node h \<in> live s" and "lock_handle h False s = Inr s1"
  shows "radix_ok s1" "kept s s1"
    "n \<in> live s \<Longrightarrow> n \<noteq> root s \<Longrightarrow> direct s1 n = direct s n + (if n = h_node h then 1 else 0)"
proof -
  have "radix_ok s1 \<and> kept s s1 \<and>
    (\<forall>n \<in> live s. n \<noteq> root s \<longrightarrow> direct s1 n = direct s n + (if n = h_node h then 1 else 0))"
    by (rule lock_handle_ok [OF assms(1,2)]) (use assms(3) in auto)
  then show "radix_ok s1" "kept s s1"
    "n \<in> live s \<Longrightarrow> n \<noteq> root s \<Longrightarrow> direct s1 n = direct s n + (if n = h_node h then 1 else 0)" by auto
qed

text \<open>The same tree with a second leaf, so that one can be locked and the other evicted.\<close>

definition demo_pair :: radix where
  "demo_pair =
     (case insert_prefix 3 4 [5, 6] [30, 31] demo_tree of Inr (s, _) \<Rightarrow> s | Inl _ \<Rightarrow> demo_tree)"

lemma demo_pair_ok:
  "radix_ok demo_pair" "handle_ok demo_pair \<lparr>h_len = 4, h_node = 1\<rparr>"
  "vals demo_pair 1 = [20, 21, 22, 23]" "owned demo_pair = {#20, 21, 22, 23, 30, 31#}"
  "handle_ok demo_pair \<lparr>h_len = 2, h_node = 2\<rparr>"
proof -
  have "case insert_prefix 3 4 [5, 6] [30, 31] demo_tree of
      Inr (s, k, h) \<Rightarrow> k = 0 \<and> h = \<lparr>h_len = 2, h_node = 2\<rparr> | Inl _ \<Rightarrow> False" by code_simp
  then have i: "insert_prefix 3 4 [5, 6] [30, 31] demo_tree = Inr (demo_pair, 0, \<lparr>h_len = 2, h_node = 2\<rparr>)"
    by (auto simp: demo_pair_def split: sum.splits)
  have l: "length [5, 6 :: token] \<le> length [30, 31 :: slot]" by simp
  have il: "align_down_nat (length [5, 6 :: token]) (psize demo_tree) = 2"
    by (simp add: align_down_nat_def demo_tree_facts)
  obtain us where "inserted demo_tree [5, 6] [30, 31] demo_pair 0 \<lparr>h_len = 2, h_node = 2\<rparr> us"
    by (rule insert_prefix_inserted [OF demo_tree_ok(1) l, of 3 4]) (use i il in auto)
  note r = this [unfolded inserted_def]
  have one: "1 \<in> live demo_tree" using demo_tree_ok(2) by (simp add: handle_ok_def)
  then have o: "1 \<in> live demo_pair" "toks demo_pair 1 = toks demo_tree 1" "vals demo_pair 1 = vals demo_tree 1"
    using r by auto
  have c: "cached demo_tree (toks demo_tree 1) (vals demo_tree 1)"
    by (rule cached_node [OF radix_okD(1) [OF demo_tree_ok(1)] one])
  have len: "length (toks demo_tree 1) = 4" using demo_tree_ok(2) by (simp add: handle_ok_def)
  show "vals demo_pair 1 = [20, 21, 22, 23]" using c len o by (simp add: demo_tree_ok(5))
  show "handle_ok demo_pair \<lparr>h_len = 4, h_node = 1\<rparr>" using o len by (simp add: handle_ok_def)
  show "radix_ok demo_pair" "owned demo_pair = {#20, 21, 22, 23, 30, 31#}"
    "handle_ok demo_pair \<lparr>h_len = 2, h_node = 2\<rparr>"
    using r by (simp_all add: demo_tree_ok(3))
qed

section \<open>The contract\<close>

text \<open>C3: \<open>insert_prefix\<close> on an aligned input returns the longest page-aligned prefix the tree
  already held, keeps the tree well-formed, and afterwards the tree holds exactly what it held
  before plus every aligned prefix of the input, with the old slots up to that length and the
  caller's slots beyond it; the slots it takes over are exactly those beyond it.\<close>

theorem radix_insert_content:
  assumes "radix_ok s" and "length ids \<le> length idx"
  defines "il \<equiv> align_down_nat (length ids) (psize s)"
  shows "\<exists>s' k h us. insert_prefix tic tic' ids idx s = Inr (s', k, h) \<and> radix_ok s' \<and>
     handle_ok s' h \<and> h_len h = il \<and> k \<le> il \<and> cached s (take k ids) us \<and>
     (\<forall>ts vs. cached s ts vs \<and> prefix ts (take il ids) \<longrightarrow> length ts \<le> k) \<and>
     owned s' = owned s + mset (drop k (take il idx)) \<and>
     (\<forall>ts vs. cached s' ts vs \<longleftrightarrow> cached s ts vs \<or>
        (psize s dvd length ts \<and> prefix ts (take il ids) \<and>
         vs = take (length ts) (us @ drop k (take il idx))))"
proof -
  obtain s' k h us where r: "insert_prefix tic tic' ids idx s = Inr (s', k, h)"
    "inserted s (take il ids) (take il idx) s' k h us"
    unfolding il_def by (rule insert_prefix_inserted [OF assms(1,2)])
  have l: "length (take il ids) = il" by (simp add: il_def)
  have "k \<le> il" using r(2) l by (simp add: inserted_def)
  then have t: "take k (take il ids) = take k ids" by (simp add: min_absorb1)
  show ?thesis
    using r(2) unfolding inserted_def l t
    by (intro exI [of _ s'] exI [of _ k] exI [of _ h] exI [of _ us] conjI r(1)) blast+
qed

theorem radix_insert_content_witness:
  "\<exists>s' k h us. insert_prefix 5 6 [7, 8, 3, 4, 9] [30, 31, 32, 33, 34] demo_tree = Inr (s', k, h) \<and>
     radix_ok s' \<and> h_len h = 4 \<and> cached demo_tree (take k [7, 8, 3, 4, 9]) us \<and>
     owned s' = {#20, 21, 22, 23#} + mset (drop k [30, 31, 32, 33])"
proof -
  have il: "align_down_nat (length [7, 8, 3, 4, 9 :: token]) (psize demo_tree) = 4"
    by (simp add: align_down_nat_def demo_tree_facts)
  have l: "length [7, 8, 3, 4, 9 :: token] \<le> length [30, 31, 32, 33, 34 :: slot]" by simp
  show ?thesis
    using radix_insert_content [OF demo_tree_ok(1) l, of 5 6] unfolding il demo_tree_ok(3)
    by (elim exE conjE) (intro exI conjI; assumption?; simp)
qed

text \<open>C13: \<open>match_prefix\<close> returns the longest page-aligned prefix of the input that the tree
  holds, with the node that spells it, and changes neither the content nor the slots of the
  tree.\<close>

theorem radix_match_longest:
  assumes "radix_ok s"
  shows "\<exists>s' h. match_prefix tic ids s = Inr (s', h) \<and> radix_ok s' \<and> handle_ok s' h \<and>
     cached s (take (h_len h) ids) (vals s' (h_node h)) \<and> h_len h \<le> length ids \<and>
     (\<forall>ts vs. cached s ts vs \<and> prefix ts ids \<longrightarrow> length ts \<le> h_len h) \<and>
     cached s' = cached s \<and> owned s' = owned s"
proof (rule match_prefix_ok [OF assms, of tic ids], goal_cases)
  case (1 s' h)
  then show ?case using grownD(4,5) [OF 1(3)] by blast
qed

theorem radix_match_longest_witness:
  "\<exists>s' h. match_prefix 5 [7, 8, 9] demo_tree = Inr (s', h) \<and> h_len h = 2 \<and>
     cached demo_tree [7, 8] (vals s' (h_node h)) \<and> cached s' = cached demo_tree"
proof -
  from radix_match_longest [OF demo_tree_ok(1), of 5 "[7, 8, 9]"] obtain s' h where
    r: "match_prefix 5 [7, 8, 9] demo_tree = Inr (s', h)" "cached s' = cached demo_tree"
      "cached demo_tree (take (h_len h) [7, 8, 9]) (vals s' (h_node h))" "h_len h \<le> length [7, 8, 9 :: token]"
      "\<forall>ts vs. cached demo_tree ts vs \<and> prefix ts [7, 8, 9] \<longrightarrow> length ts \<le> h_len h" by blast
  have "cached demo_tree [7, 8] [20, 21]" by (simp add: demo_tree_ok(5))
  then have "length [7, 8 :: token] \<le> h_len h" using r(5) by (metis Cons_prefix_Cons Nil_prefix)
  moreover have "even (h_len h)" using r(3,4) by (auto simp: demo_tree_ok(5) min_absorb2)
  moreover have "h_len h \<le> 3" using r(4) by simp
  ultimately have "h_len h = 2" by simp presburger
  then show ?thesis using r by auto
qed

text \<open>C4: \<open>evict\<close> with a request the evictable size covers succeeds; it is a sequence of
  removals of unlocked leaves, each one the least recently used of its moment, that stops as
  soon as the request is met; the slots it returns are exactly those that leave the tree, and
  the remaining nodes keep their content.\<close>

theorem radix_evict_lru:
  assumes "radix_ok s" and "0 < sz" and "sz \<le> evictable_size s"
  shows "\<exists>s' vss. evict sz s = Inr (s', concat vss) \<and> lru_evict s vss s' \<and> radix_ok s' \<and>
     sz \<le> int (length (concat vss)) \<and> int (length (concat (butlast vss))) < sz \<and>
     owned s = mset (concat vss) + owned s' \<and>
     (\<forall>q \<in> live s'. toks s' q = toks s q \<and> vals s' q = vals s q) \<and>
     (\<forall>q \<in> live s - live s'. n_ref (heap s q) = 0)"
proof (rule evict_ok [OF assms], goal_cases)
  case (1 s' vss)
  note l = lru_evict_ok [OF 1(2) assms(1)]
  have "\<forall>q \<in> live s'. toks s' q = toks s q \<and> vals s' q = vals s q"
    "\<forall>q \<in> live s - live s'. n_ref (heap s q) = 0" using l(9,10) by blast+
  then show ?case using 1 l(1,2) by blast
qed

theorem radix_evict_lru_witness:
  "\<exists>s' vss. evict 3 demo_tree = Inr (s', concat vss) \<and> lru_evict demo_tree vss s' \<and>
     3 \<le> length (concat vss) \<and> {#20, 21, 22, 23#} = mset (concat vss) + owned s'"
proof -
  have "(0 :: int) < 3" "3 \<le> evictable_size demo_tree" by (simp_all add: demo_tree_facts)
  from radix_evict_lru [OF demo_tree_ok(1) this] show ?thesis
    unfolding demo_tree_ok(3) by (elim exE conjE) (intro exI conjI; assumption?; simp)
qed

text \<open>C8: a handle that is locked keeps its slots whatever is evicted afterwards: the node stays
  in the tree, and \<open>get_matched_indices\<close> returns what it returned before the lock.\<close>

theorem radix_locked_survives:
  assumes "radix_ok s" and "handle_ok s h" and "lock_handle h False s = Inr s1"
    and "0 < sz" and "sz \<le> evictable_size s1"
  shows "\<exists>s2 vs. evict sz s1 = Inr (s2, vs) \<and> radix_ok s2 \<and> handle_ok s2 h \<and>
     vals s2 (h_node h) = vals s (h_node h) \<and> get_matched_indices h s2 = get_matched_indices h s"
proof -
  have n: "h_node h \<in> live s" using assms(2) by (simp add: handle_ok_def)
  note s1 = lock_handle_facts [OF assms(1) n assms(3)]
  have k: "live s1 = live s" "root s1 = root s" "toks s1 (h_node h) = toks s (h_node h)"
    "vals s1 (h_node h) = vals s (h_node h)" using s1(2) n by (auto simp: kept_def)
  obtain s2 vss where e: "evict sz s1 = Inr (s2, concat vss)" "lru_evict s1 vss s2"
    by (rule evict_ok [OF s1(1) assms(4,5)])
  note l = lru_evict_ok [OF e(2) s1(1)]
  have n2: "h_node h \<in> live s2"
  proof (cases "h_node h = root s")
    case True
    then show ?thesis using live.root [of s2] l(4) k(2) by simp
  next
    case False
    have "0 \<le> direct s (h_node h)"
      using radix_okD(3) [OF assms(1)] n False by (simp add: lock_inv_def)
    then have "0 < direct s1 (h_node h)" using s1(3) [OF n False] by simp
    moreover have "direct s1 (h_node h) \<le> n_ref (heap s1 (h_node h))"
      using direct_le_ref [OF radix_okD(1,3) [OF s1(1)]] n k False by simp
    ultimately show ?thesis using l(10) n k(1) by fastforce
  qed
  have h2: "handle_ok s2 h" "vals s2 (h_node h) = vals s (h_node h)"
    using n2 l(9) [OF n2] k assms(2) by (auto simp: handle_ok_def)
  have "get_matched_indices h s2 = get_matched_indices h s"
    using get_matched_indices_ok [OF l(1) h2(1)] get_matched_indices_ok [OF assms(1,2)] h2(2) by simp
  then show ?thesis using e(1) l(1) h2 by blast
qed

theorem radix_locked_survives_witness:
  "\<exists>s1 s2 vs. lock_handle \<lparr>h_len = 4, h_node = 1\<rparr> False demo_pair = Inr s1 \<and>
     evict 2 s1 = Inr (s2, vs) \<and> vals s2 1 = [20, 21, 22, 23]"
proof -
  let ?h = "\<lparr>h_len = 4, h_node = 1\<rparr>"
  have "case lock_handle ?h False demo_pair of Inr s1 \<Rightarrow> evictable_size s1 = 2 | Inl _ \<Rightarrow> False"
    by code_simp
  then obtain s1 where s1: "lock_handle ?h False demo_pair = Inr s1" "evictable_size s1 = 2"
    by (auto split: sum.splits)
  have "(0 :: int) < 2" "2 \<le> evictable_size s1" using s1(2) by simp_all
  from radix_locked_survives [OF demo_pair_ok(1,2) s1(1) this]
  show ?thesis using s1(1) demo_pair_ok(3) by (metis radix_handle.select_convs(2))
qed

text \<open>C23: unlocking a handle undoes its lock: both counters and every node of the tree are as
  before, whatever was locked already.\<close>

theorem radix_lock_unlock:
  assumes "radix_ok s" and "h_node h \<in> live s"
  shows "and_then (lock_handle h False s) (lock_handle h True) = Inr s"
proof -
  note o = radix_okD [OF assms(1)]
  let ?b = "bump (anc s (h_node h)) 1 s"
  note b = bump_facts [OF o(1) assms(2), where d = 1]
  from lock_loop_inv [OF o(1,3) assms(2)] obtain e p where
    l: "lock_loop (Suc (counter s)) (h_node h) s (evictable_size s) (protected_size s) = Inr (?b, e, p)"
      "lock_inv ?b e p" by blast
  let ?s = "set_sizes (?b, e, p)"
  have f: "heap ?s = heap ?b" "counter ?s = counter ?b" "root ?s = root ?b" "psize ?s = psize ?b"
    "evictable_size ?s = e" "protected_size ?s = p" by (simp_all add: set_sizes_def)
  note t = tree_of_sizes [OF f(1-4) b(1)]
  have h: "h_node h \<in> live ?s" "h_node h \<noteq> root ?s \<longrightarrow> 0 < direct ?s (h_node h)"
    using t(2,7) b(2) assms(2) f(3) b(7) [OF assms(2)] o(3) by (auto simp: lock_inv_def)
  have w: "tree_wf ?s" "lock_inv ?s e p" using t(1,6) l(2) by simp_all
  from unlock_loop_inv [OF w h] obtain e' p' where
    u: "unlock_loop (Suc (counter ?s)) (h_node h) ?s e p =
          Inr (bump (anc ?s (h_node h)) (-1) ?s, e', p')"
      "lock_inv (bump (anc ?s (h_node h)) (-1) ?s) e' p'" by blast
  have a: "anc ?s (h_node h) = anc s (h_node h)"
    using wf_cong(6) [OF b(1), of ?s] f b(2,6) assms(2) by simp
  have undo: "set_sizes (bump (anc s (h_node h)) (-1) ?s, e', p') =
      s\<lparr>evictable_size := e', protected_size := p'\<rparr>"
    by (auto simp: bump_def set_sizes_def fun_eq_iff intro!: radix.equality rtree.equality)
  have hs: "heap (bump (anc s (h_node h)) (-1) ?s) = heap s"
    by (auto simp: bump_def set_sizes_def fun_eq_iff)
  have "lock_inv s e' p'"
    using u(2) tree_of_sizes(6) [OF hs _ _ _ o(1)] f a by simp
  then have "e' = evictable_size s" "p' = protected_size s" using o(3) by (auto simp: lock_inv_def)
  then show ?thesis
    using l(1) u(1) f a undo by (simp add: lock_handle_def)
qed

theorem radix_lock_unlock_witness:
  "and_then (lock_handle \<lparr>h_len = 2, h_node = 2\<rparr> False demo_pair) (lock_handle \<lparr>h_len = 2, h_node = 2\<rparr> True) =
     Inr demo_pair"
proof (rule radix_lock_unlock)
  show "radix_ok demo_pair" by (rule demo_pair_ok)
  show "h_node \<lparr>h_len = 2, h_node = 2\<rparr> \<in> live demo_pair" using demo_pair_ok(5) by (simp add: handle_ok_def)
qed

text \<open>
  The handle of a match yields as many slots as it matched tokens, the slots the tree holds for the
  matched prefix. For the empty match (the root) \<open>get_matched_indices\<close> raises, because it concatenates
  an empty list.
\<close>

lemma radix_match_indices:
  assumes "radix_ok s"
  shows "\<exists>s' h. match_prefix tic ids s = Inr (s', h) \<and>
     (if h_len h = 0 then get_matched_indices h s' = Inl ValueError
      else \<exists>vs. get_matched_indices h s' = Inr vs \<and> length vs = h_len h \<and>
             cached s (take (h_len h) ids) vs)"
proof (rule match_prefix_ok [OF assms, of tic ids], goal_cases)
  case (1 s' h)
  have "length (vals s' (h_node h)) = h_len h"
    using cached_length [OF radix_okD(1) [OF assms] 1(8)] 1(5) by simp
  then show ?case using 1 get_matched_indices_ok [OF 1(2,4)] by auto
qed

end
