(* ===== verification/Hybrid_Cache.thy ===== *)
theory Hybrid_Cache
  imports Radix_Grow
begin

text \<open>
  \<^verbatim>\<open>HybridRadixCache\<close> of \<^verbatim>\<open>python/freetoken/kvcache/hybrid_radix_cache.py\<close>: the shared tree
  with a second currency, at most one state snapshot (a slot id of the linear-state pool)
  per node. \<open>dtree\<close> holds the two counters of KV tokens that the hybrid and the
  sliding-window cache have in common.
\<close>

section \<open>State\<close>

record dtree = rtree +
  full_evictable :: int
  full_protected :: int

record hybrid = dtree +
  mamba_evictable :: int
  mamba_protected :: int

record hmatch =
  hm_kv :: "slot list"
  hm_len :: nat
  hm_mamba :: "slot option"
  hm_node :: nid

text \<open>
  \<open>chunk_size\<close> is \<open>CHUNK_SIZE\<close> of the FLA kernel package; the constructor refuses a page size
  that does not divide it.
\<close>

definition hybrid_init :: "nat \<Rightarrow> nat \<Rightarrow> nid \<Rightarrow> int \<Rightarrow> err + hybrid" where
  "hybrid_init chunk_size ps uuid tic =
     (if chunk_size mod ps \<noteq> 0 then Inl AssertionError
      else Inr \<lparr>heap = (\<lambda>_. new_node 0)(uuid := (new_node tic)\<lparr>n_ref := 1\<rparr>), counter = Suc uuid,
                root = uuid, psize = ps, full_evictable = 0, full_protected = 0,
                mamba_evictable = 0, mamba_protected = 0\<rparr>)"

definition set_full :: "'a dtree_scheme \<times> int \<times> int \<Rightarrow> 'a dtree_scheme" where
  "set_full r = (case r of (s, e, p) \<Rightarrow> s\<lparr>full_evictable := e, full_protected := p\<rparr>)"

section \<open>Match and insert\<close>

text \<open>
  The upward search of \<open>match_prefix\<close> over the path of the matched node: the first node that
  owns a snapshot, with the length of its prefix.
\<close>

fun snap_loop :: "'a rtree_scheme \<Rightarrow> nid list \<Rightarrow> nat \<Rightarrow> (nid \<times> nat) option" where
  "snap_loop t [] end_len = None"
| "snap_loop t (n # ns) end_len =
     (if n_mamba (heap t n) \<noteq> None then Some (n, end_len)
      else snap_loop t ns (end_len - node_len t n))"

definition path_len :: "'a rtree_scheme \<Rightarrow> nid \<Rightarrow> err + nat" where
  "path_len t n = and_then (up_path t n) (\<lambda>ns. Inr (\<Sum>m \<leftarrow> ns. node_len t m))"

definition hybrid_match :: "int \<Rightarrow> token list \<Rightarrow> hybrid \<Rightarrow> err + (hybrid \<times> hmatch)" where
  "hybrid_match tic ids s =
     and_then (tree_walk tic ids s) (\<lambda>(s1, node, _).
     and_then (path_len s1 node) (\<lambda>end_len.
     and_then (up_path s1 node) (\<lambda>ns.
       case snap_loop s1 ns end_len of
         Some (cur, l) \<Rightarrow>
           and_then (path_values s1 cur) (\<lambda>kv.
             Inr (s1, \<lparr>hm_kv = kv, hm_len = l, hm_mamba = n_mamba (heap s1 cur), hm_node = cur\<rparr>))
       | None \<Rightarrow> Inr (s1, \<lparr>hm_kv = [], hm_len = 0, hm_mamba = None, hm_node = root s1\<rparr>))))"

text \<open>The donation at the end of \<open>insert\<close>: \<open>True\<close> tells the caller to free the slot itself.\<close>

definition attach_snapshot :: "nid \<Rightarrow> slot \<Rightarrow> hybrid \<Rightarrow> hybrid \<times> bool" where
  "attach_snapshot node mv s =
     (if is_root s node then (s, True)
      else if n_mamba (heap s node) \<noteq> None then (s, True)
      else
        (let s1 = upd node (\<lambda>nd. nd\<lparr>n_mamba := Some mv\<rparr>) s in
         (if n_mamba_ref (heap s1 node) = 0
          then s1\<lparr>mamba_evictable := mamba_evictable s1 + 1\<rparr> else s1, False)))"

definition hybrid_insert ::
  "int \<Rightarrow> int \<Rightarrow> token list \<Rightarrow> slot list \<Rightarrow> slot \<Rightarrow> hybrid \<Rightarrow> err + (hybrid \<times> nat \<times> bool)" where
  "hybrid_insert tic tic' input_ids kv mv s =
     (let insert_len = align_down_nat (length input_ids) (psize s);
          ids = take insert_len input_ids; idx = take insert_len kv in
      and_then (tree_walk tic ids s) (\<lambda>(s1, node, prefix_len).
      and_then
        (if prefix_len \<noteq> insert_len then
           and_then (add_leaf tic' (drop prefix_len ids) (drop prefix_len idx) node s1) (\<lambda>(s2, new).
             Inr (s2\<lparr>full_evictable := full_evictable s2 + int (node_len s2 new)\<rparr>, new))
         else Inr (s1, node)) (\<lambda>(s2, node').
      (let (s3, ex) = attach_snapshot node' mv s2 in Inr (s3, prefix_len, ex)))))"

section \<open>Locks\<close>

definition mamba_inc :: "nid \<Rightarrow> hybrid \<Rightarrow> hybrid" where
  "mamba_inc node s =
     (if n_mamba (heap s node) \<noteq> None then
        (let s1 = (if n_mamba_ref (heap s node) = 0
                   then s\<lparr>mamba_evictable := mamba_evictable s - 1,
                          mamba_protected := mamba_protected s + 1\<rparr> else s)
         in upd node (\<lambda>nd. nd\<lparr>n_mamba_ref := n_mamba_ref nd + 1\<rparr>) s1)
      else s)"

definition mamba_dec :: "nid \<Rightarrow> hybrid \<Rightarrow> hybrid" where
  "mamba_dec node s =
     (if n_mamba (heap s node) \<noteq> None \<and> n_mamba_ref (heap s node) > 0 then
        (let s1 = upd node (\<lambda>nd. nd\<lparr>n_mamba_ref := n_mamba_ref nd - 1\<rparr>) s
         in if n_mamba_ref (heap s1 node) = 0
            then s1\<lparr>mamba_evictable := mamba_evictable s1 + 1,
                    mamba_protected := mamba_protected s1 - 1\<rparr> else s1)
      else s)"

definition hybrid_inc_lock :: "nid \<Rightarrow> hybrid \<Rightarrow> err + hybrid" where
  "hybrid_inc_lock node s =
     (let s1 = mamba_inc node s in
      and_then (lock_loop (Suc (counter s1)) node s1 (full_evictable s1) (full_protected s1))
        (\<lambda>r. Inr (set_full r)))"

definition hybrid_dec_lock :: "nid \<Rightarrow> hybrid \<Rightarrow> err + hybrid" where
  "hybrid_dec_lock node s =
     (let s1 = mamba_dec node s in
      and_then (unlock_loop (Suc (counter s1)) node s1 (full_evictable s1) (full_protected s1))
        (\<lambda>r. Inr (set_full r)))"

section \<open>Eviction\<close>

definition free_node_mamba :: "nid \<Rightarrow> hybrid \<times> slot list \<Rightarrow> hybrid \<times> slot list" where
  "free_node_mamba node so = (case so of (s, out) \<Rightarrow>
     (case n_mamba (heap s node) of
        None \<Rightarrow> (s, out)
      | Some mv \<Rightarrow>
          (let s1 = upd node (\<lambda>nd. nd\<lparr>n_mamba := None\<rparr>) s in
           (if n_mamba_ref (heap s1 node) = 0
            then s1\<lparr>mamba_evictable := mamba_evictable s1 - 1\<rparr> else s1, out @ [mv]))))"

text \<open>
  \<open>_cascade_tombstone_leaves\<close>: unlinks KV-only leaves upward from \<open>parent\<close>; each round goes one
  node up, so the number of nodes ever created bounds the rounds.
\<close>

fun cascade_loop ::
  "nat \<Rightarrow> nid \<Rightarrow> hybrid \<Rightarrow> slot list list \<Rightarrow> int \<Rightarrow> err + (hybrid \<times> nid \<times> slot list list \<times> int)" where
  "cascade_loop 0 parent s kv freed = Inl Diverges"
| "cascade_loop (Suc f) parent s kv freed =
     (if n_mamba (heap s parent) = None \<and> is_leaf s parent \<and> n_ref (heap s parent) = 0 \<and>
         \<not> is_root s parent
      then
        (let l = int (node_len s parent);
             v = n_value (heap s parent) in
         and_then (unlink parent (s\<lparr>full_evictable := full_evictable s - l\<rparr>)) (\<lambda>(s1, p).
           cascade_loop f p s1 (kv @ [v]) (freed + l)))
      else Inr (s, parent, kv, freed))"

definition cascade_tombstone_leaves ::
  "nid \<Rightarrow> hybrid \<Rightarrow> slot list list \<Rightarrow> err + (hybrid \<times> nid \<times> slot list list \<times> int)" where
  "cascade_tombstone_leaves parent s kv = cascade_loop (Suc (counter s)) parent s kv 0"

definition leaves :: "'a rtree_scheme \<Rightarrow> err + nid list" where
  "leaves t = and_then (dfs t) (\<lambda>ns. Inr (filter (\<lambda>n. is_leaf t n \<and> \<not> is_root t n) ns))"

definition snapshot_nodes :: "'a rtree_scheme \<Rightarrow> err + nid list" where
  "snapshot_nodes t =
     and_then (dfs t) (\<lambda>ns. Inr (filter (\<lambda>n. n_mamba (heap t n) \<noteq> None \<and> \<not> is_root t n) ns))"

text \<open>
  A round of \<open>evict_full\<close> pops one node and pushes at most one ancestor, after unlinking at
  least one node, so twice the number of nodes bounds the rounds.
\<close>

fun evict_full_loop ::
  "nat \<Rightarrow> int \<Rightarrow> nid list \<Rightarrow> hybrid \<Rightarrow> slot list list \<Rightarrow> slot list \<Rightarrow> int \<Rightarrow>
   err + (hybrid \<times> slot list list \<times> slot list)" where
  "evict_full_loop 0 num q s kv mamba freed = Inl Diverges"
| "evict_full_loop (Suc f) num q s kv mamba freed =
     (if freed < num \<and> q \<noteq> [] then
        (let (node, rest) = heappop s q in
         if n_ref (heap s node) \<noteq> 0 \<or> \<not> is_leaf s node \<or> is_root s node
         then evict_full_loop f num rest s kv mamba freed
         else
           (let l = int (node_len s node);
                kv1 = kv @ [n_value (heap s node)];
                (s1, mamba1) = free_node_mamba node
                  (s\<lparr>full_evictable := full_evictable s - l\<rparr>, mamba) in
            and_then (unlink node s1) (\<lambda>(s2, p).
            and_then (cascade_tombstone_leaves p s2 kv1) (\<lambda>(s3, p', kv2, casc).
            evict_full_loop f num
              (if is_leaf s3 p' \<and> n_ref (heap s3 p') = 0 \<and> \<not> is_root s3 p' then heappush p' rest else rest)
              s3 kv2 mamba1 (freed + l + casc)))))
      else Inr (s, kv, mamba))"

definition hybrid_evict_full :: "int \<Rightarrow> hybrid \<Rightarrow> err + (hybrid \<times> slot list \<times> slot list)" where
  "hybrid_evict_full num s =
     and_then (leaves s) (\<lambda>ls.
     and_then (evict_full_loop (Suc (2 * counter s)) num (filter (\<lambda>n. n_ref (heap s n) = 0) ls) s [] [] 0)
       (\<lambda>(s', kv, mamba). Inr (s', concat kv, mamba)))"

fun evict_mamba_loop ::
  "nat \<Rightarrow> int \<Rightarrow> nid list \<Rightarrow> hybrid \<Rightarrow> slot list list \<Rightarrow> slot list \<Rightarrow> int \<Rightarrow>
   err + (hybrid \<times> slot list list \<times> slot list)" where
  "evict_mamba_loop 0 num q s kv mamba freed = Inl Diverges"
| "evict_mamba_loop (Suc f) num q s kv mamba freed =
     (if freed < num \<and> q \<noteq> [] then
        (let (node, rest) = heappop s q in
         if n_mamba (heap s node) = None \<or> n_mamba_ref (heap s node) \<noteq> 0 \<or> is_root s node
         then evict_mamba_loop f num rest s kv mamba freed
         else if is_leaf s node \<and> n_ref (heap s node) = 0 then
           (let kv1 = kv @ [n_value (heap s node)];
                (s1, mamba1) = free_node_mamba node
                  (s\<lparr>full_evictable := full_evictable s - int (node_len s node)\<rparr>, mamba) in
            and_then (unlink node s1) (\<lambda>(s2, p).
            and_then (cascade_tombstone_leaves p s2 kv1) (\<lambda>(s3, _, kv2, _).
            evict_mamba_loop f num rest s3 kv2 mamba1 (freed + 1))))
         else
           (let (s1, mamba1) = free_node_mamba node (s, mamba) in
            evict_mamba_loop f num rest s1 kv mamba1 (freed + 1)))
      else Inr (s, kv, mamba))"

definition hybrid_evict_mamba :: "int \<Rightarrow> hybrid \<Rightarrow> err + (hybrid \<times> slot list \<times> slot list)" where
  "hybrid_evict_mamba num s =
     and_then (snapshot_nodes s) (\<lambda>ns.
     and_then (evict_mamba_loop (Suc (counter s)) num
                 (filter (\<lambda>n. n_mamba_ref (heap s n) = 0) ns) s [] [] 0)
       (\<lambda>(s', kv, mamba). Inr (s', concat kv, mamba)))"

definition hybrid_check_integrity :: "hybrid \<Rightarrow> err + unit" where
  "hybrid_check_integrity s =
     and_then (snapshot_nodes s) (\<lambda>ns.
       check (\<forall>n \<in> set ns. n_mamba (heap s n) \<noteq> None \<and> 0 \<le> n_mamba_ref (heap s n) \<and> 0 \<le> n_ref (heap s n))
         AssertionError)"

end
