(* ===== verification/Swa_Cache.thy ===== *)
theory Swa_Cache
  imports Hybrid_Cache
begin

text \<open>
  \<^verbatim>\<open>SWARadixCache\<close> of \<^verbatim>\<open>python/freetoken/kvcache/swa_radix_cache.py\<close>: the shared tree for models
  with sliding-window attention. Every node's slots are full-pool slots; \<open>n_tomb\<close> marks a node
  whose sliding-window copies were freed. The source's run length starts at \<open>float("inf")\<close>,
  here \<open>None\<close>.
\<close>

section \<open>State\<close>

record swa = dtree +
  swa_evictable :: int
  swa_protected :: int
  swa_window :: int
  swa_clk :: int
  swa_uuid_ctr :: nat
  swa_revives :: int

record swa_handle =
  sh_len :: nat
  sh_node :: nid
  sh_kv :: "slot list"
  sh_uuid :: "nat option"

definition event_stride :: int where
  "event_stride = 2 ^ 24"

definition swa_init :: "nat \<Rightarrow> int \<Rightarrow> nid \<Rightarrow> int \<Rightarrow> err + swa" where
  "swa_init ps window uuid tic =
     (if \<not> window > 0 then Inl AssertionError
      else Inr \<lparr>heap = (\<lambda>_. new_node 0)(uuid := (new_node tic)\<lparr>n_ref := 1\<rparr>), counter = Suc uuid,
                root = uuid, psize = ps, full_evictable = 0, full_protected = 0, swa_evictable = 0,
                swa_protected = 0, swa_window = window, swa_clk = 0, swa_uuid_ctr = 0, swa_revives = 0\<rparr>)"

section \<open>Clock\<close>

definition swa_tick :: "swa \<Rightarrow> swa \<times> int" where
  "swa_tick s = (let c = swa_clk s + 1 in (s\<lparr>swa_clk := c\<rparr>, c * event_stride))"

fun stamp_loop :: "int \<Rightarrow> int \<Rightarrow> nid list \<Rightarrow> swa \<Rightarrow> swa" where
  "stamp_loop base off [] s = s"
| "stamp_loop base off (n # ns) s =
     stamp_loop base (off + 1) ns (upd n (\<lambda>nd. nd\<lparr>n_time := base - off\<rparr>) s)"

definition stamp_path :: "nid \<Rightarrow> swa \<Rightarrow> err + swa" where
  "stamp_path node s =
     (let s1 = s\<lparr>swa_clk := swa_clk s + 1\<rparr> in
      and_then (up_path s1 node) (\<lambda>ns. Inr (stamp_loop (swa_clk s1 * event_stride) 0 ns s1)))"

section \<open>Match\<close>

definition covers :: "int option \<Rightarrow> int \<Rightarrow> bool" where
  "covers since window = (case since of None \<Rightarrow> True | Some m \<Rightarrow> m \<ge> window)"

definition add_run :: "int option \<Rightarrow> bool \<Rightarrow> int \<Rightarrow> int option" where
  "add_run since tomb len = (if tomb then since else map_option (\<lambda>m. m + len) since)"

text \<open>
  The loop of \<open>match_prefix\<close>: it returns the state, the node it stopped at, the live run, the
  collected values and the best boundary committed so far.
\<close>

fun swa_match_loop ::
  "nat \<Rightarrow> token list \<Rightarrow> nid \<Rightarrow> nat \<Rightarrow> int option \<Rightarrow> slot list list \<Rightarrow> nat \<Rightarrow> nid \<Rightarrow> swa \<Rightarrow>
   err + (swa \<times> nid \<times> int option \<times> slot list list \<times> nat \<times> nid)"
where
  "swa_match_loop 0 ids node pos since vs best bnode s = Inl Diverges"
| "swa_match_loop (Suc f) ids node pos since vs best bnode s =
     (if \<not> pos < length ids then Inr (s, node, since, vs, best, bnode)
      else (case get_child s node (drop pos ids) of
        None \<Rightarrow> Inr (s, node, since, vs, best, bnode)
      | Some c \<Rightarrow>
          (let tomb = n_tomb (heap s c);
               commit = tomb \<and> covers since (swa_window s);
               best1 = (if commit then length vs else best);
               bnode1 = (if commit then node else bnode);
               since1 = (if tomb then Some 0 else since);
               m = align_down_nat (match_len (n_key (heap s c)) (drop pos ids)) (psize s) in
           if m = 0 then Inr (s, node, since1, vs, best1, bnode1)
           else if m < node_len s c then
             and_then (split_at c m s) (\<lambda>(s1, h).
               Inr (s1, h, add_run since1 (n_tomb (heap s1 h)) (int (node_len s1 h)),
                    vs @ [n_value (heap s1 h)], best1, bnode1))
           else swa_match_loop f ids c (pos + m) (add_run since1 tomb (int (node_len s c)))
                  (vs @ [n_value (heap s c)]) best1 bnode1 s)))"

definition swa_match :: "token list \<Rightarrow> swa \<Rightarrow> err + (swa \<times> slot list \<times> nat \<times> nid)" where
  "swa_match ids s =
     and_then (swa_match_loop (Suc (length ids)) ids (root s) 0 None [] 0 (root s) s)
       (\<lambda>(s1, node, since, vs, best, bnode).
        let c = covers since (swa_window s1);
            best' = (if c then length vs else best);
            bnode' = (if c then node else bnode) in
        and_then (stamp_path bnode' s1) (\<lambda>s2.
          let kv = concat (take best' vs) in Inr (s2, kv, length kv, bnode')))"

section \<open>Insert\<close>

definition swa_add_child ::
  "nid \<Rightarrow> token list \<Rightarrow> slot list \<Rightarrow> bool \<Rightarrow> swa \<Rightarrow> err + (swa \<times> nid)" where
  "swa_add_child parent ids kv tomb s =
     (let (s1, tic) = swa_tick s in
      and_then (add_leaf tic ids kv parent s1) (\<lambda>(s2, c).
        let s3 = upd c (\<lambda>nd. nd\<lparr>n_tomb := tomb\<rparr>) s2;
            l = int (node_len s3 c);
            s4 = s3\<lparr>full_evictable := full_evictable s3 + l\<rparr> in
        Inr (if tomb then s4 else s4\<lparr>swa_evictable := swa_evictable s4 + l\<rparr>, c)))"

text \<open>Reviving a tombstoned node: it adopts the request's live slots (Branches 1 and 2).\<close>

definition swa_revive :: "nid \<Rightarrow> slot list \<Rightarrow> swa \<Rightarrow> err + swa" where
  "swa_revive c seg s =
     and_then (set_key_value c (n_key (heap s c)) seg s) (\<lambda>s1.
       let s2 = upd c (\<lambda>nd. nd\<lparr>n_tomb := False\<rparr>) s1;
           (s3, tic) = swa_tick s2;
           s4 = upd c (\<lambda>nd. nd\<lparr>n_time := tic\<rparr>) s3 in
       Inr (s4\<lparr>swa_evictable := swa_evictable s4 + int (node_len s4 c),
               swa_revives := swa_revives s4 + 1\<rparr>))"

text \<open>
  The reconciliation of one matched node with the request's slots \<open>seg\<close> for the same span:
  \<open>tot\<close> is the span's start, \<open>evicted\<close> and \<open>after\<close> the two frontiers. The result carries the
  slots the caller must free.
\<close>

definition swa_reconcile ::
  "nid \<Rightarrow> slot list \<Rightarrow> nat \<Rightarrow> nat \<Rightarrow> nat \<Rightarrow> nat \<Rightarrow> swa \<Rightarrow> err + (swa \<times> slot list list)" where
  "swa_reconcile c seg tot m evicted after s =
     (if \<not> after < tot + m then Inr (s, [])
      else if \<not> n_tomb (heap s c) then Inr (s, [seg])
      else if n_swa_ref (heap s c) \<noteq> 0 then Inl AssertionError
      else if n_ref (heap s c) > 0 then Inr (s, [seg])
      else if evicted \<le> tot then
        (let old = n_value (heap s c) in
         and_then (swa_revive c seg s) (\<lambda>s1. Inr (s1, [old])))
      else if evicted < tot + m then
        (let start = evicted - tot in
         and_then (split_at c start s) (\<lambda>(s1, _).
           let old = n_value (heap s1 c) in
           and_then (swa_revive c (drop start seg) s1) (\<lambda>s2. Inr (s2, [old, take start seg]))))
      else Inr (s, [seg]))"

fun swa_insert_loop ::
  "nat \<Rightarrow> token list \<Rightarrow> slot list \<Rightarrow> nat \<Rightarrow> nat \<Rightarrow> nid \<Rightarrow> nat \<Rightarrow> slot list list \<Rightarrow> swa \<Rightarrow>
   err + (swa \<times> nid \<times> nat \<times> slot list list)"
where
  "swa_insert_loop 0 ids kv evicted after node tot freed s = Inl Diverges"
| "swa_insert_loop (Suc f) ids kv evicted after node tot freed s =
     (if \<not> tot < length ids then Inr (s, node, tot, freed)
      else (case get_child s node (drop tot ids) of
        None \<Rightarrow> Inr (s, node, tot, freed)
      | Some c0 \<Rightarrow>
          (let m = align_down_nat (match_len (n_key (heap s c0)) (drop tot ids)) (psize s) in
           if m = 0 then Inr (s, node, tot, freed)
           else
             (let partial = m < node_len s c0 in
              and_then (if partial then split_at c0 m s else Inr (s, c0)) (\<lambda>(s1, c).
              and_then (swa_reconcile c (take m (drop tot kv)) tot m evicted after s1) (\<lambda>(s2, fr).
              if partial then Inr (s2, c, tot + m, freed @ fr)
              else swa_insert_loop f ids kv evicted after c (tot + m) (freed @ fr) s2))))))"

definition swa_insert ::
  "token list \<Rightarrow> slot list \<Rightarrow> nat \<Rightarrow> nat \<Rightarrow> swa \<Rightarrow> err + (swa \<times> nat \<times> slot list)" where
  "swa_insert input_ids kv_indices evicted after s =
     (let insert_len = align_down_nat (length input_ids) (psize s);
          ids = take insert_len input_ids; kv = take insert_len kv_indices in
      and_then (swa_insert_loop (Suc (length ids)) ids kv evicted after (root s) 0 [] s)
        (\<lambda>(s1, node, tot, freed).
        if \<not> tot < insert_len then Inr (s1, tot, concat freed)
        else
          (let suffix = drop tot ids; skv = drop tot kv;
               b = min (min evicted insert_len - tot) (length suffix - psize s) in
           and_then (if b > 0 then swa_add_child node (take b suffix) (take b skv) True s1
                     else Inr (s1, node)) (\<lambda>(s2, node2).
           and_then (if drop b suffix \<noteq> [] then
                       and_then (swa_add_child node2 (drop b suffix) (drop b skv) False s2)
                         (\<lambda>(s3, _). Inr s3)
                     else Inr s2) (\<lambda>s3.
           Inr (s3, tot, concat freed))))))"

section \<open>Locks\<close>

text \<open>\<open>locked\<close> counts the live tokens pinned so far; \<open>u\<close> is the boundary stamp to return.\<close>

fun swa_inc_loop :: "nat \<Rightarrow> nid \<Rightarrow> int \<Rightarrow> nat option \<Rightarrow> swa \<Rightarrow> err + (swa \<times> nat option)" where
  "swa_inc_loop 0 cur locked u s = Inl Diverges"
| "swa_inc_loop (Suc f) cur locked u s =
     (case n_parent (heap s cur) of
        None \<Rightarrow> Inr (s, u)
      | Some p \<Rightarrow>
          (let nd = heap s cur; l = int (node_len s cur);
               s1 = (if n_ref nd = 0
                     then s\<lparr>full_evictable := full_evictable s - l, full_protected := full_protected s + l\<rparr>
                     else s);
               s2 = upd cur (\<lambda>x. x\<lparr>n_ref := n_ref x + 1\<rparr>) s1 in
           if locked < swa_window s \<and> \<not> n_tomb nd then
             (let s3 = (if n_swa_ref nd = 0
                        then s2\<lparr>swa_evictable := swa_evictable s2 - l, swa_protected := swa_protected s2 + l\<rparr>
                        else s2);
                  s4 = upd cur (\<lambda>x. x\<lparr>n_swa_ref := n_swa_ref x + 1\<rparr>) s3 in
              if locked + l \<ge> swa_window s then
                (let s5 = (if n_swa_uuid nd = None
                           then upd cur (\<lambda>x. x\<lparr>n_swa_uuid := Some (Suc (swa_uuid_ctr s4))\<rparr>)
                                  (s4\<lparr>swa_uuid_ctr := Suc (swa_uuid_ctr s4)\<rparr>)
                           else s4) in
                 swa_inc_loop f p (locked + l) (n_swa_uuid (heap s5 cur)) s5)
              else swa_inc_loop f p (locked + l) u s4)
           else swa_inc_loop f p locked u s2))"

definition swa_inc_lock :: "nid \<Rightarrow> swa \<Rightarrow> err + (swa \<times> nat option)" where
  "swa_inc_lock node s = swa_inc_loop (Suc (counter s)) node 0 None s"

fun swa_dec_loop :: "nat \<Rightarrow> nid \<Rightarrow> nat option \<Rightarrow> bool \<Rightarrow> swa \<Rightarrow> err + swa" where
  "swa_dec_loop 0 cur u dec s = Inl Diverges"
| "swa_dec_loop (Suc f) cur u dec s =
     (case n_parent (heap s cur) of
        None \<Rightarrow> Inr s
      | Some p \<Rightarrow>
          (let nd = heap s cur; l = int (node_len s cur); r = n_ref nd - 1 in
           if r < 0 then Inl AssertionError
           else
             (let s1 = upd cur (\<lambda>x. x\<lparr>n_ref := r\<rparr>) s;
                  s2 = (if r = 0
                        then s1\<lparr>full_evictable := full_evictable s1 + l, full_protected := full_protected s1 - l\<rparr>
                        else s1) in
              if dec \<and> \<not> n_tomb nd \<and> n_swa_ref nd > 0 then
                (let q = n_swa_ref nd - 1;
                     s3 = upd cur (\<lambda>x. x\<lparr>n_swa_ref := q\<rparr>) s2;
                     s4 = (if q = 0
                           then s3\<lparr>swa_evictable := swa_evictable s3 + l, swa_protected := swa_protected s3 - l\<rparr>
                           else s3) in
                 swa_dec_loop f p u (\<not> (u \<noteq> None \<and> n_swa_uuid nd = u)) s4)
              else swa_dec_loop f p u dec s2)))"

definition swa_dec_lock :: "nid \<Rightarrow> nat option \<Rightarrow> bool \<Rightarrow> swa \<Rightarrow> err + swa" where
  "swa_dec_lock node u skip_swa s = swa_dec_loop (Suc (counter s)) node u (\<not> skip_swa) s"

section \<open>Eviction\<close>

fun swa_cascade_loop ::
  "nat \<Rightarrow> nid \<Rightarrow> swa \<Rightarrow> slot list list \<Rightarrow> int \<Rightarrow> err + (swa \<times> nid \<times> slot list list \<times> int)" where
  "swa_cascade_loop 0 parent s kv freed = Inl Diverges"
| "swa_cascade_loop (Suc f) parent s kv freed =
     (if n_tomb (heap s parent) \<and> is_leaf s parent \<and> n_ref (heap s parent) = 0 \<and> \<not> is_root s parent
      then
        (let l = int (node_len s parent);
             v = n_value (heap s parent) in
         and_then (unlink parent (s\<lparr>full_evictable := full_evictable s - l\<rparr>)) (\<lambda>(s1, p).
           swa_cascade_loop f p s1 (kv @ [v]) (freed + l)))
      else Inr (s, parent, kv, freed))"

definition cascade_swa_tombstone_leaves ::
  "nid \<Rightarrow> swa \<Rightarrow> slot list list \<Rightarrow> err + (swa \<times> nid \<times> slot list list \<times> int)" where
  "cascade_swa_tombstone_leaves parent s kv = swa_cascade_loop (Suc (counter s)) parent s kv 0"

definition swa_nodes :: "'a rtree_scheme \<Rightarrow> err + nid list" where
  "swa_nodes t = and_then (dfs t) (\<lambda>ns. Inr (filter (\<lambda>n. \<not> is_root t n \<and> \<not> n_tomb (heap t n)) ns))"

definition all_nodes :: "'a rtree_scheme \<Rightarrow> err + nid list" where
  "all_nodes t = and_then (dfs t) (\<lambda>ns. Inr (filter (\<lambda>n. \<not> is_root t n) ns))"

fun swa_evict_full_loop ::
  "nat \<Rightarrow> int \<Rightarrow> nid list \<Rightarrow> swa \<Rightarrow> slot list list \<Rightarrow> slot list list \<Rightarrow> int \<Rightarrow>
   err + (swa \<times> slot list list \<times> slot list list)" where
  "swa_evict_full_loop 0 num q s kv sw freed = Inl Diverges"
| "swa_evict_full_loop (Suc f) num q s kv sw freed =
     (if freed < num \<and> q \<noteq> [] then
        (let (node, rest) = heappop s q in
         if n_ref (heap s node) \<noteq> 0 \<or> \<not> is_leaf s node \<or> is_root s node
         then swa_evict_full_loop f num rest s kv sw freed
         else
           (let l = int (node_len s node); v = n_value (heap s node);
                s1 = s\<lparr>full_evictable := full_evictable s - l\<rparr>;
                live_swa = (\<not> n_tomb (heap s node));
                s2 = (if live_swa then s1\<lparr>swa_evictable := swa_evictable s1 - l\<rparr> else s1) in
            and_then (unlink node s2) (\<lambda>(s3, p).
            and_then (cascade_swa_tombstone_leaves p s3 (kv @ [v])) (\<lambda>(s4, p', kv', casc).
            swa_evict_full_loop f num
              (if is_leaf s4 p' \<and> n_ref (heap s4 p') = 0 \<and> \<not> is_root s4 p' then heappush p' rest else rest)
              s4 kv' (if live_swa then sw @ [v] else sw) (freed + l + casc)))))
      else Inr (s, kv, sw))"

definition swa_evict_full :: "int \<Rightarrow> swa \<Rightarrow> err + (swa \<times> slot list \<times> slot list)" where
  "swa_evict_full num s =
     and_then (leaves s) (\<lambda>ls.
     and_then (swa_evict_full_loop (Suc (2 * counter s)) num
                 (filter (\<lambda>n. n_ref (heap s n) = 0) ls) s [] [] 0)
       (\<lambda>(s', kv, sw). Inr (s', concat kv, concat sw)))"

fun evict_swa_loop ::
  "nat \<Rightarrow> int \<Rightarrow> nid list \<Rightarrow> swa \<Rightarrow> slot list list \<Rightarrow> slot list list \<Rightarrow> int \<Rightarrow>
   err + (swa \<times> slot list list \<times> slot list list)" where
  "evict_swa_loop 0 num q s kv sw freed = Inl Diverges"
| "evict_swa_loop (Suc f) num q s kv sw freed =
     (if freed < num \<and> q \<noteq> [] then
        (let (node, rest) = heappop s q in
         if n_tomb (heap s node) \<or> n_swa_ref (heap s node) \<noteq> 0 \<or> is_root s node
         then evict_swa_loop f num rest s kv sw freed
         else
           (let l = int (node_len s node); v = n_value (heap s node) in
            if is_leaf s node \<and> n_ref (heap s node) = 0 then
              (let s1 = upd node (\<lambda>nd. nd\<lparr>n_tomb := True\<rparr>)
                          (s\<lparr>full_evictable := full_evictable s - l, swa_evictable := swa_evictable s - l\<rparr>) in
               and_then (unlink node s1) (\<lambda>(s2, p).
               and_then (cascade_swa_tombstone_leaves p s2 (kv @ [v])) (\<lambda>(s3, _, kv', _).
               evict_swa_loop f num rest s3 kv' (sw @ [v]) (freed + l))))
            else
              evict_swa_loop f num rest
                (upd node (\<lambda>nd. nd\<lparr>n_tomb := True\<rparr>) (s\<lparr>swa_evictable := swa_evictable s - l\<rparr>))
                kv (sw @ [v]) (freed + l)))
      else Inr (s, kv, sw))"

definition evict_swa :: "int \<Rightarrow> swa \<Rightarrow> err + (swa \<times> slot list \<times> slot list)" where
  "evict_swa num s =
     and_then (swa_nodes s) (\<lambda>ns.
     and_then (evict_swa_loop (Suc (counter s)) num (filter (\<lambda>n. n_swa_ref (heap s n) = 0) ns) s [] [] 0)
       (\<lambda>(s', kv, sw). Inr (s', concat kv, concat sw)))"

fun trim_loop :: "nat \<Rightarrow> token list \<Rightarrow> nat \<Rightarrow> nid \<Rightarrow> nat \<Rightarrow> slot list list \<Rightarrow> swa \<Rightarrow> err + (swa \<times> slot list list)"
where
  "trim_loop 0 ids keep node pos freed s = Inl Diverges"
| "trim_loop (Suc f) ids keep node pos freed s =
     (if \<not> pos < keep then Inr (s, freed)
      else (case get_child s node (drop pos ids) of
        None \<Rightarrow> Inr (s, freed)
      | Some c \<Rightarrow>
          (let l = node_len s c in
           if pos + l > keep then Inr (s, freed)
           else if \<not> n_tomb (heap s c) \<and> n_swa_ref (heap s c) = 0 \<and> \<not> is_leaf s c then
             trim_loop f ids keep c (pos + l) (freed @ [n_value (heap s c)])
               (upd c (\<lambda>nd. nd\<lparr>n_tomb := True\<rparr>) (s\<lparr>swa_evictable := swa_evictable s - int l\<rparr>))
           else trim_loop f ids keep c (pos + l) freed s)))"

definition trim_head_swa :: "token list \<Rightarrow> int \<Rightarrow> swa \<Rightarrow> err + (swa \<times> slot list)" where
  "trim_head_swa ids keep_from s =
     (if keep_from \<le> 0 then Inr (s, [])
      else
        and_then (swa_match (take (nat keep_from) ids) s) (\<lambda>(s1, _).
        and_then (trim_loop (Suc (nat keep_from)) ids (nat keep_from) (root s1) 0 [] s1) (\<lambda>(s2, freed).
        Inr (s2, concat freed))))"

definition swa_check_integrity :: "swa \<Rightarrow> err + unit" where
  "swa_check_integrity s =
     and_then (all_nodes s) (\<lambda>ns.
       check (\<forall>n \<in> set ns. let nd = heap s n in
                0 \<le> n_ref nd \<and> 0 \<le> n_swa_ref nd \<and> n_swa_ref nd \<le> n_ref nd \<and>
                (n_tomb nd \<longrightarrow> n_swa_ref nd = 0))
         AssertionError)"

end
