(* ===== verification/State_Pool.thy ===== *)
theory State_Pool
  imports Complex_Main Radix_Tree
begin

text \<open>
  The slot allocators below the prefix caches: \<^verbatim>\<open>LinearStatePool\<close> of
  \<^verbatim>\<open>kvcache/linear_state_pool.py\<close> with its sizing functions, and \<^verbatim>\<open>TableManager\<close> of
  \<^verbatim>\<open>scheduler/table.py\<close>. A slot's tensors are lists of numbers, one list for the convolution
  state of all layers and one for the recurrent state.
\<close>

section \<open>LinearStatePool\<close>

record lpool =
  lp_num :: nat
  lp_conv_len :: nat
  lp_rec_len :: nat
  lp_conv :: "slot \<Rightarrow> int list"
  lp_rec :: "slot \<Rightarrow> int list"
  lp_free :: "slot list"

definition lp_init :: "nat \<Rightarrow> nat \<Rightarrow> nat \<Rightarrow> lpool" where
  "lp_init num conv_len rec_len =
     \<lparr>lp_num = num, lp_conv_len = conv_len, lp_rec_len = rec_len,
      lp_conv = (\<lambda>_. replicate conv_len 0), lp_rec = (\<lambda>_. replicate rec_len 0), lp_free = [1..<num]\<rparr>"

definition lp_alloc :: "nat \<Rightarrow> lpool \<Rightarrow> err + (lpool \<times> slot list)" where
  "lp_alloc n p =
     (if n > length (lp_free p) then Inl RuntimeError
      else (let k = length (lp_free p) - n in
            Inr (p\<lparr>lp_free := take k (lp_free p)\<rparr>, rev (drop k (lp_free p)))))"

definition lp_release :: "slot list \<Rightarrow> lpool \<Rightarrow> lpool" where
  "lp_release slots p = p\<lparr>lp_free := lp_free p @ slots\<rparr>"

definition reclaim_all_slots :: "lpool \<Rightarrow> lpool" where
  "reclaim_all_slots p = p\<lparr>lp_free := [1..<lp_num p]\<rparr>"

definition lp_rebuild :: "nat \<Rightarrow> lpool \<Rightarrow> lpool" where
  "lp_rebuild num p = lp_init num (lp_conv_len p) (lp_rec_len p)"

definition clear_slots :: "slot list \<Rightarrow> lpool \<Rightarrow> lpool" where
  "clear_slots slots p =
     p\<lparr>lp_conv := (\<lambda>i. if i \<in> set slots then replicate (lp_conv_len p) 0 else lp_conv p i),
       lp_rec := (\<lambda>i. if i \<in> set slots then replicate (lp_rec_len p) 0 else lp_rec p i)\<rparr>"

definition copy_from :: "slot \<Rightarrow> slot \<Rightarrow> lpool \<Rightarrow> lpool" where
  "copy_from src dst p =
     p\<lparr>lp_conv := (lp_conv p)(dst := lp_conv p src), lp_rec := (lp_rec p)(dst := lp_rec p src)\<rparr>"

definition lp_reset :: "slot \<Rightarrow> lpool \<Rightarrow> lpool" where
  "lp_reset i p =
     p\<lparr>lp_conv := (lp_conv p)(i := replicate (lp_conv_len p) 0),
       lp_rec := (lp_rec p)(i := replicate (lp_rec_len p) 0)\<rparr>"

text \<open>The slots a pool gives out, and the pool with \<open>held\<close> slots outside.\<close>

definition lp_ok :: "lpool \<Rightarrow> slot multiset \<Rightarrow> bool" where
  "lp_ok p held \<longleftrightarrow> mset (lp_free p) + held = mset_set {1..<lp_num p}"

lemma lp_init_ok [simp]: "lp_ok (lp_init num c r) {#}"
  by (simp add: lp_ok_def lp_init_def)

lemma mset_set_parts:
  assumes "A + B = mset_set S"
  shows "x \<in># A \<Longrightarrow> x \<notin># B" "x \<in># A + B \<Longrightarrow> x \<in> S" "count A x \<le> 1"
proof -
  have c: "count A x + count B x = (if x \<in> S \<and> finite S then 1 else 0)"
    using arg_cong [OF assms, of "\<lambda>M. count M x"] by (auto simp: count_mset_set)
  show "count A x \<le> 1" using c by (simp split: if_splits)
  show "x \<in># A \<Longrightarrow> x \<notin># B" "x \<in># A + B \<Longrightarrow> x \<in> S"
    using c by (auto simp: not_in_iff count_greater_zero_iff [symmetric] simp del: count_greater_zero_iff split: if_splits)
qed

lemma mset_set_distinct: "mset xs + B = mset_set S \<Longrightarrow> distinct xs"
  using mset_set_parts(3) [of "mset xs" B S]
  by (auto simp: distinct_count_atmost_1 le_antisym count_greater_eq_one_iff not_in_iff)

lemma lp_alloc_ok:
  assumes "lp_ok p held" and "lp_alloc n p = Inr (p', ss)"
  shows "lp_ok p' (held + mset ss)" "length ss = n" "lp_num p' = lp_num p" "distinct ss"
    "x \<in> set ss \<Longrightarrow> x \<notin># held \<and> 0 < x \<and> x < lp_num p"
proof -
  let ?k = "length (lp_free p) - n"
  have e: "p' = p\<lparr>lp_free := take ?k (lp_free p)\<rparr>" "ss = rev (drop ?k (lp_free p))"
    "n \<le> length (lp_free p)"
    using assms(2) by (auto simp: lp_alloc_def Let_def split: if_splits)
  have "mset (take ?k (lp_free p)) + mset (drop ?k (lp_free p)) = mset (lp_free p)"
    by (metis append_take_drop_id mset_append)
  then have "mset (lp_free p') + mset ss = mset (lp_free p)" using e by simp
  then have m: "mset ss + (mset (lp_free p') + held) = mset_set {1..<lp_num p}"
    using assms(1) by (simp add: lp_ok_def ac_simps)
  then show "lp_ok p' (held + mset ss)" using e(1) by (simp add: lp_ok_def ac_simps)
  show "length ss = n" "lp_num p' = lp_num p" using e by simp_all
  show "distinct ss" by (rule mset_set_distinct [OF m])
  show "x \<in> set ss \<Longrightarrow> x \<notin># held \<and> 0 < x \<and> x < lp_num p"
    using mset_set_parts(1,2) [OF m, of x] by auto
qed

lemma lp_release_ok: "lp_ok p (held + mset ss) \<Longrightarrow> lp_ok (lp_release ss p) held"
  by (simp add: lp_ok_def lp_release_def ac_simps)

lemma lp_reclaim_ok: "lp_ok (reclaim_all_slots p) {#}"
  by (simp add: lp_ok_def reclaim_all_slots_def)

section \<open>Sizing\<close>

text \<open>
  The ratio is a float of the configuration, taken as an exact rational; \<open>int\<close> of a
  non-negative number rounds down.
\<close>

definition linear_local_dims ::
  "nat \<Rightarrow> int \<Rightarrow> int \<Rightarrow> int \<Rightarrow> int \<Rightarrow> int \<Rightarrow> err + (int \<times> int \<times> int)" where
  "linear_local_dims n_layers k_heads v_heads k_dim v_dim tp_size =
     and_then (div_even k_heads tp_size True) (\<lambda>lk.
     and_then (div_even v_heads tp_size True) (\<lambda>lv.
     Inr (int n_layers, 2 * lk * k_dim + lv * v_dim, lv)))"

definition linear_state_bytes_per_req ::
  "nat \<Rightarrow> int \<Rightarrow> int \<Rightarrow> int \<Rightarrow> int \<Rightarrow> int \<Rightarrow> int \<Rightarrow> int \<Rightarrow> int \<Rightarrow> err + int" where
  "linear_state_bytes_per_req n_layers k_heads v_heads k_dim v_dim kernel_dim tp_size itemsize ssm_itemsize =
     and_then (linear_local_dims n_layers k_heads v_heads k_dim v_dim tp_size) (\<lambda>(n, conv_dim, lv).
     let conv_elems = conv_dim * (kernel_dim - 1);
         rec_elems = lv * k_dim * v_dim in
     Inr (n * (conv_elems * itemsize + rec_elems * ssm_itemsize)))"

definition linear_pool_num_slots :: "nat \<Rightarrow> bool \<Rightarrow> rat \<Rightarrow> nat" where
  "linear_pool_num_slots mr hybrid ratio =
     (if \<not> hybrid then mr + 1
      else (let n_cache = max 4 (nat \<lfloor>ratio * of_nat mr\<rfloor>) in 4 * mr + n_cache + 1))"

definition linear_pool_min_slots :: "nat \<Rightarrow> bool \<Rightarrow> nat" where
  "linear_pool_min_slots mr hybrid = (if \<not> hybrid then mr + 1 else 4 * mr + 1)"

definition state_pool_bytes :: "bool \<Rightarrow> nat option \<Rightarrow> int \<Rightarrow> nat \<Rightarrow> bool \<Rightarrow> rat \<Rightarrow> int" where
  "state_pool_bytes has_group num_slots per_req mr hybrid ratio =
     (if \<not> has_group then 0
      else per_req * int (case num_slots of Some n \<Rightarrow> n | None \<Rightarrow> linear_pool_num_slots mr hybrid ratio))"

lemma linear_pool_slots_enough: "linear_pool_min_slots mr hybrid \<le> linear_pool_num_slots mr hybrid ratio"
  by (simp add: linear_pool_min_slots_def linear_pool_num_slots_def Let_def)

section \<open>TableManager\<close>

record tables =
  tb_max :: nat
  tb_free :: "nat list"
  tb_rows :: "nat \<Rightarrow> slot list"
  tb_tokens :: "nat \<Rightarrow> token list"

definition tb_init :: "nat \<Rightarrow> (nat \<Rightarrow> slot list) \<Rightarrow> tables" where
  "tb_init max_reqs rows =
     \<lparr>tb_max = max_reqs, tb_free = [0..<max_reqs], tb_rows = rows,
      tb_tokens = (\<lambda>i. replicate (length (rows i)) 0)\<rparr>"

definition tb_allocate :: "tables \<Rightarrow> err + (tables \<times> nat)" where
  "tb_allocate tb =
     (if tb_free tb = [] then Inl IndexError
      else Inr (tb\<lparr>tb_free := butlast (tb_free tb)\<rparr>, last (tb_free tb)))"

definition tb_release :: "nat \<Rightarrow> tables \<Rightarrow> tables" where
  "tb_release i tb = tb\<lparr>tb_free := tb_free tb @ [i]\<rparr>"

definition tb_rebuild :: "(nat \<Rightarrow> slot list) \<Rightarrow> tables \<Rightarrow> tables" where
  "tb_rebuild rows tb = tb_init (tb_max tb) rows"

definition tb_ok :: "tables \<Rightarrow> nat multiset \<Rightarrow> bool" where
  "tb_ok tb held \<longleftrightarrow> mset (tb_free tb) + held = mset_set {0..<tb_max tb}"

lemma tb_allocate_ok:
  assumes "tb_ok tb held" and "tb_allocate tb = Inr (tb', i)"
  shows "tb_ok tb' (add_mset i held)" "i < tb_max tb" "i \<notin># held" "tb_max tb' = tb_max tb"
proof -
  have e: "tb' = tb\<lparr>tb_free := butlast (tb_free tb)\<rparr>" "i = last (tb_free tb)" "tb_free tb \<noteq> []"
    using assms(2) by (auto simp: tb_allocate_def split: if_splits)
  have "mset (butlast (tb_free tb)) + {#i#} = mset (tb_free tb)"
    using e(2,3) by (metis append_butlast_last_id mset_append mset_single_iff_right)
  then have m: "{#i#} + (mset (butlast (tb_free tb)) + held) = mset_set {0..<tb_max tb}"
    using assms(1) by (metis tb_ok_def add.assoc add.commute)
  then show "tb_ok tb' (add_mset i held)" using e(1) by (simp add: tb_ok_def)
  show "tb_max tb' = tb_max tb" using e(1) by simp
  show "i < tb_max tb" "i \<notin># held" using mset_set_parts(1,2) [OF m, of i] by auto
qed

lemma tb_release_ok: "tb_ok tb (add_mset i held) \<Longrightarrow> tb_ok (tb_release i tb) held"
  by (simp add: tb_ok_def tb_release_def)

end
