(* ===== verification/Swa_Pool.thy ===== *)
theory Swa_Pool
  imports State_Pool
begin

text \<open>
  The allocator of \<^verbatim>\<open>HybridSWAKVCache\<close> (\<^verbatim>\<open>kvcache/hybrid_swa_pool.py\<close>): the dense map from
  full-pool slots to sliding-window slots, where 0 means that no slot is mapped, the free
  list, and the map from model layers to the two storage groups. \<open>swa_ok\<close> says that every
  window slot except the sentinel is free or mapped, exactly once.
\<close>

section \<open>Layer mapping\<close>

datatype kv_group = Full | Swa

record layer_ref =
  lr_group :: kv_group
  lr_index :: nat

fun place_layers ::
  "nat \<Rightarrow> kv_group \<Rightarrow> nat \<Rightarrow> int list \<Rightarrow> layer_ref option list \<Rightarrow> err + layer_ref option list" where
  "place_layers n g i [] m = Inr m"
| "place_layers n g i (l # ls) m =
     (if l < 0 \<or> l \<ge> int n then Inl ValueError
      else if m ! nat l \<noteq> None then Inl ValueError
      else place_layers n g (Suc i) ls (m[nat l := Some \<lparr>lr_group = g, lr_index = i\<rparr>]))"

definition build_layers_mapping :: "nat \<Rightarrow> int list \<Rightarrow> int list \<Rightarrow> err + layer_ref list" where
  "build_layers_mapping n full_ids swa_ids =
     and_then (place_layers n Full 0 full_ids (replicate n None)) (\<lambda>m1.
     and_then (place_layers n Swa 0 swa_ids m1) (\<lambda>m2.
     if None \<in> set m2 then Inl ValueError else Inr (map the m2)))"

lemma place_layers_ok:
  assumes "place_layers n g i ls m = Inr m'" and "length m = n"
  shows "length m' = n" "distinct ls" "set ls \<subseteq> {0..<int n}"
    "\<And>k. k < n \<Longrightarrow> m' ! k = (if int k \<in> set ls
       then Some \<lparr>lr_group = g, lr_index = i + length (takeWhile (\<lambda>x. x \<noteq> int k) ls)\<rparr> else m ! k)"
    "\<And>l. l \<in> set ls \<Longrightarrow> m ! nat l = None"
proof -
  have "length m' = n \<and> distinct ls \<and> set ls \<subseteq> {0..<int n} \<and>
    (\<forall>k < n. m' ! k = (if int k \<in> set ls
       then Some \<lparr>lr_group = g, lr_index = i + length (takeWhile (\<lambda>x. x \<noteq> int k) ls)\<rparr> else m ! k)) \<and>
    (\<forall>l \<in> set ls. m ! nat l = None)"
    using assms
  proof (induction ls arbitrary: i m)
    case Nil
    then show ?case by simp
  next
    case (Cons l ls)
    let ?m = "m[nat l := Some \<lparr>lr_group = g, lr_index = i\<rparr>]"
    have l: "0 \<le> l" "l < int n" "m ! nat l = None" "place_layers n g (Suc i) ls ?m = Inr m'"
      using Cons.prems(1) by (auto split: if_splits)
    have len: "length ?m = n" using Cons.prems(2) by simp
    note IH = Cons.IH [OF l(4) len]
    have nin: "l \<notin> set ls"
    proof
      assume "l \<in> set ls"
      then have "?m ! nat l = None" using IH by blast
      then show False using l Cons.prems(2) by simp
    qed
    have nl: "nat l < n" using l by simp
    have "m ! nat x = None" if "x \<in> set ls" for x
    proof -
      have "x \<noteq> l" "0 \<le> x" using that nin IH by auto
      then have "nat x \<noteq> nat l" using l by simp
      then show ?thesis using IH that by (metis nth_list_update_neq)
    qed
    moreover have "m' ! k = (if int k \<in> set (l # ls) then Some \<lparr>lr_group = g,
        lr_index = i + length (takeWhile (\<lambda>x. x \<noteq> int k) (l # ls))\<rparr> else m ! k)" if "k < n" for k
    proof (cases "int k = l")
      case True
      then have "k = nat l" by simp
      moreover have "?m ! nat l = Some \<lparr>lr_group = g, lr_index = i\<rparr>" using nl Cons.prems(2) by simp
      ultimately show ?thesis using IH that True nin by simp
    next
      case False
      then have "nat l \<noteq> k" using l by auto
      then show ?thesis using IH that False by auto
    qed
    ultimately show ?case using IH nin l by auto
  qed
  then show "length m' = n" "distinct ls" "set ls \<subseteq> {0..<int n}"
    "\<And>k. k < n \<Longrightarrow> m' ! k = (if int k \<in> set ls
       then Some \<lparr>lr_group = g, lr_index = i + length (takeWhile (\<lambda>x. x \<noteq> int k) ls)\<rparr> else m ! k)"
    "\<And>l. l \<in> set ls \<Longrightarrow> m ! nat l = None" by blast+
qed

section \<open>The allocator\<close>

record swa_pool =
  sp_full_tokens :: nat
  sp_num :: nat
  sp_psize :: nat
  sp_map :: "int list"
  sp_free :: "slot list"

definition init_swa_paged_state :: "swa_pool \<Rightarrow> swa_pool" where
  "init_swa_paged_state p =
     p\<lparr>sp_map := replicate (sp_full_tokens p + sp_psize p) 0 @ [-1], sp_free := [1..<sp_num p]\<rparr>"

definition sp_init :: "nat \<Rightarrow> nat \<Rightarrow> nat option \<Rightarrow> swa_pool" where
  "sp_init num_full_pages ps num_swa =
     (let full = num_full_pages * ps in
      init_swa_paged_state
        \<lparr>sp_full_tokens = full, sp_num = (case num_swa of Some n \<Rightarrow> n | None \<Rightarrow> full), sp_psize = ps,
         sp_map = [], sp_free = []\<rparr>)"

text \<open>Tensor writes and reads at a list of positions; a position past the end raises.\<close>

fun scatter :: "'a list \<Rightarrow> (nat \<times> 'a) list \<Rightarrow> 'a list" where
  "scatter m [] = m"
| "scatter m ((i, v) # ps) = scatter (m[i := v]) ps"

definition in_range :: "nat list \<Rightarrow> 'a list \<Rightarrow> bool" where
  "in_range is m \<longleftrightarrow> (\<forall>i \<in> set is. i < length m)"

definition translate_loc_from_full_to_swa :: "slot list \<Rightarrow> swa_pool \<Rightarrow> err + int list" where
  "translate_loc_from_full_to_swa locs p =
     (if in_range locs (sp_map p) then Inr (map (\<lambda>i. sp_map p ! i) locs) else Inl IndexError)"

definition alloc_swa :: "slot list \<Rightarrow> swa_pool \<Rightarrow> err + swa_pool" where
  "alloc_swa full p =
     (let n = length full in
      if n = 0 then Inr p
      else if n > length (sp_free p) then Inl RuntimeError
      else if \<not> in_range full (sp_map p) then Inl IndexError
      else Inr (p\<lparr>sp_free := drop n (sp_free p),
                  sp_map := scatter (sp_map p) (zip full (map int (take n (sp_free p))))\<rparr>))"

definition free_swa :: "slot list \<Rightarrow> swa_pool \<Rightarrow> err + swa_pool" where
  "free_swa full p =
     (if full = [] then Inr p
      else and_then (translate_loc_from_full_to_swa full p) (\<lambda>vs.
        let swa = map nat (filter (\<lambda>v. v > 0) vs) in
        Inr (p\<lparr>sp_free := sp_free p @ swa, sp_map := scatter (sp_map p) (map (\<lambda>i. (i, 0)) full)\<rparr>)))"

definition swa_available_size :: "swa_pool \<Rightarrow> nat" where
  "swa_available_size p = length (sp_free p)"

definition sp_rebuild :: "nat \<Rightarrow> nat option \<Rightarrow> swa_pool \<Rightarrow> swa_pool" where
  "sp_rebuild num_full_pages num_swa p =
     (let full = num_full_pages * sp_psize p in
      init_swa_paged_state (p\<lparr>sp_full_tokens := full, sp_num := (case num_swa of Some n \<Rightarrow> n | None \<Rightarrow> full)\<rparr>))"

section \<open>Conservation\<close>

definition mapped :: "int list \<Rightarrow> slot multiset" where
  "mapped m = mset (map nat (filter (\<lambda>v. v > 0) m))"

definition swa_ok :: "swa_pool \<Rightarrow> bool" where
  "swa_ok p \<longleftrightarrow> mset (sp_free p) + mapped (sp_map p) = mset_set {1..<sp_num p} \<and>
     length (sp_map p) = sp_full_tokens p + sp_psize p + 1"

lemma scatter_length [simp]: "length (scatter m ps) = length m"
  by (induction m ps rule: scatter.induct) auto

lemma mapped_update:
  assumes "i < length m"
  shows "mapped (m[i := v]) + mapped [m ! i] = mapped m + mapped [v]"
proof -
  have m: "m = take i m @ [m ! i] @ drop (Suc i) m" using assms by (simp add: id_take_nth_drop)
  have mi: "m[i := v] = take i m @ [v] @ drop (Suc i) m" using assms by (simp add: upd_conv_take_nth_drop)
  have a: "mapped (xs @ ys) = mapped xs + mapped ys" for xs ys by (simp add: mapped_def)
  show ?thesis by (subst (2) m, subst mi) (simp add: a ac_simps del: append.simps)
qed

lemma multiset_swap:
  fixes X :: "'a multiset"
  assumes "X + g = N + B" and "N + p = M + q"
  shows "X + (p + g) = M + (q + B)"
proof (rule multiset_eqI)
  fix x
  have "count X x + count g x = count N x + count B x" "count N x + count p x = count M x + count q x"
    using assms [THEN arg_cong, of "\<lambda>A. count A x"] by simp_all
  then show "count (X + (p + g)) x = count (M + (q + B)) x" by simp
qed

lemma mapped_scatter:
  assumes "distinct (map fst ps)" and "in_range (map fst ps) m"
  shows "mapped (scatter m ps) + mapped (map (\<lambda>i. m ! i) (map fst ps)) = mapped m + mapped (map snd ps)"
  using assms
proof (induction m ps rule: scatter.induct)
  case (1 m)
  then show ?case by (simp add: mapped_def)
next
  case (2 m i v ps)
  have r: "in_range (map fst ps) (m[i := v])" "i < length m" using 2(3) by (auto simp: in_range_def)
  have d: "distinct (map fst ps)" "i \<notin> set (map fst ps)" using 2(2) by auto
  have g: "map (\<lambda>j. m[i := v] ! j) (map fst ps) = map (\<lambda>j. m ! j) (map fst ps)"
    by (rule map_cong [OF refl]) (use d(2) in \<open>metis nth_list_update_neq\<close>)
  have c: "mapped (x # xs) = mapped [x] + mapped xs" for x xs by (simp add: mapped_def)
  let ?X = "mapped (scatter (m[i := v]) ps)" and ?g = "mapped (map (\<lambda>j. m ! j) (map fst ps))"
  have a: "?X + ?g = mapped (m[i := v]) + mapped (map snd ps)"
    using 2(1) [OF d(1) r(1)] unfolding g .
  have b: "mapped (m[i := v]) + mapped [m ! i] = mapped m + mapped [v]"
    by (rule mapped_update [OF r(2)])
  have "?X + (mapped [m ! i] + ?g) = mapped m + (mapped [v] + mapped (map snd ps))"
    by (rule multiset_swap [OF a b])
  then show ?case
    using c [of "m ! i" "map (\<lambda>j. m ! j) (map fst ps)"] c [of v "map snd ps"] by simp
qed

lemma scatter_nth:
  assumes "distinct (map fst ps)" and "in_range (map fst ps) m"
  shows "scatter m ps ! i = (case map_of ps i of Some v \<Rightarrow> v | None \<Rightarrow> m ! i)"
  using assms
proof (induction m ps rule: scatter.induct)
  case (2 m j v ps)
  have r: "in_range (map fst ps) (m[j := v])" "j < length m" using 2(3) by (auto simp: in_range_def)
  have "map_of ps j = None" using 2(2) by (simp add: map_of_eq_None_iff)
  then show ?case using 2(1) [OF _ r(1)] 2(2) r(2) by (auto simp: nth_list_update split: option.splits)
qed simp

lemma scatter_zero: "(\<And>i. i \<in> set is \<Longrightarrow> m ! i = 0) \<Longrightarrow> scatter m (map (\<lambda>i. (i, 0)) is) = m"
  by (induction "is" arbitrary: m) (auto, metis list_update_id)

text \<open>Overwriting a mapped position loses its slot, so in general the slots only shrink.\<close>

lemma mapped_scatter_sub:
  assumes "in_range (map fst ps) m"
  shows "mapped (scatter m ps) \<subseteq># mapped m + mapped (map snd ps)"
  using assms
proof (induction m ps rule: scatter.induct)
  case (2 m i v ps)
  have r: "in_range (map fst ps) (m[i := v])" "i < length m" using 2(2) by (auto simp: in_range_def)
  have "mapped (m[i := v]) \<subseteq># mapped m + mapped [v]"
    using mapped_update [OF r(2), of v] mset_subset_eq_add_left [of "mapped (m[i := v])" "mapped [m ! i]"] by simp
  then have "mapped (m[i := v]) + mapped (map snd ps) \<subseteq># mapped m + mapped [v] + mapped (map snd ps)" by simp
  moreover have "mapped (map snd ((i, v) # ps)) = mapped [v] + mapped (map snd ps)" by (simp add: mapped_def)
  ultimately show ?case using subset_mset.order_trans [OF 2(1) [OF r(1)]] by (simp add: add.assoc)
qed simp

lemma init_swa_ok: "swa_ok (init_swa_paged_state p)"
  by (simp add: swa_ok_def init_swa_paged_state_def mapped_def filter_replicate)

lemma alloc_swa_ok:
  assumes ok: "swa_ok p" and d: "distinct full" and r: "in_range full (sp_map p)"
    and f: "\<forall>i \<in> set full. sp_map p ! i \<le> 0" and n: "length full \<le> length (sp_free p)"
  obtains p' where "alloc_swa full p = Inr p'" "swa_ok p'" "sp_num p' = sp_num p"
    "swa_available_size p' + length full = swa_available_size p"
    "\<And>i. i \<in> set full \<Longrightarrow> sp_map p' ! i > 0"
    "\<And>i. i \<notin> set full \<Longrightarrow> sp_map p' ! i = sp_map p ! i"
proof -
  let ?n = "length full"
  let ?ps = "zip full (map int (take ?n (sp_free p)))"
  let ?p = "p\<lparr>sp_free := drop ?n (sp_free p), sp_map := scatter (sp_map p) ?ps\<rparr>"
  have e: "alloc_swa full p = Inr (if ?n = 0 then p else ?p)"
    using n r by (simp add: alloc_swa_def Let_def)
  have z: "map fst ?ps = full" "map snd ?ps = map int (take ?n (sp_free p))" using n by simp_all
  have fm: "mset (sp_free p) + mapped (sp_map p) = mset_set {1..<sp_num p}" using ok by (simp add: swa_ok_def)
  have pos: "0 < v" if "v \<in> set (sp_free p)" for v
    using mset_set_parts(2) [OF fm, of v] that by auto
  have old: "mapped (map (\<lambda>i. sp_map p ! i) full) = {#}" using f by (auto simp: mapped_def filter_empty_conv)
  have new: "mapped (map int (take ?n (sp_free p))) = mset (take ?n (sp_free p))"
  proof -
    have "filter (\<lambda>v. 0 < v) (map int (take ?n (sp_free p))) = map int (take ?n (sp_free p))"
      using pos in_set_takeD [of _ ?n "sp_free p"] by (intro filter_True) auto
    moreover have "map nat (map int xs) = xs" for xs by (induction xs) auto
    ultimately show ?thesis by (simp only: mapped_def)
  qed
  have m: "mapped (scatter (sp_map p) ?ps) = mapped (sp_map p) + mset (take ?n (sp_free p))"
    using mapped_scatter [of ?ps "sp_map p"] d r old new unfolding z by simp
  have s: "mset (take ?n (sp_free p)) + mset (drop ?n (sp_free p)) = mset (sp_free p)"
    by (metis append_take_drop_id mset_append)
  have ok': "swa_ok ?p" using ok m s by (simp add: swa_ok_def ac_simps)
  show ?thesis
  proof (cases "?n = 0")
    case True
    then show ?thesis using that [of p] e ok by (simp add: swa_available_size_def)
  next
    case False
    show ?thesis
    proof (rule that [of ?p])
      show "alloc_swa full p = Inr ?p" using e False by simp
      show "swa_available_size ?p + length full = swa_available_size p"
        using n by (simp add: swa_available_size_def)
      fix i
      have lk: "scatter (sp_map p) ?ps ! i = (case map_of ?ps i of Some v \<Rightarrow> v | None \<Rightarrow> sp_map p ! i)"
        using scatter_nth [of ?ps "sp_map p" i] d r unfolding z .
      show "sp_map ?p ! i > 0" if "i \<in> set full"
      proof -
        from that have "i \<in> fst ` set ?ps" using z(1) by (metis set_map)
        then obtain v where v: "map_of ?ps i = Some v" by (metis map_of_eq_None_iff not_None_eq)
        then have "v \<in> set (map int (take ?n (sp_free p)))"
          by (metis map_of_SomeD set_zip_rightD)
        then show ?thesis using lk v pos by (auto dest: in_set_takeD)
      qed
      show "sp_map ?p ! i = sp_map p ! i" if "i \<notin> set full"
      proof -
        have "map_of ?ps i = None" using that z(1) by (metis map_of_eq_None_iff set_map)
        then show ?thesis using lk by simp
      qed
    qed (use ok' in simp_all)
  qed
qed

text \<open>Freeing returns exactly the mapped slots, and freeing again changes nothing.\<close>

lemma free_swa_ok:
  assumes ok: "swa_ok p" and d: "distinct full" and r: "in_range full (sp_map p)"
  obtains p' where "free_swa full p = Inr p'" "swa_ok p'" "sp_num p' = sp_num p"
    "swa_available_size p' = swa_available_size p + length (filter (\<lambda>i. sp_map p ! i > 0) full)"
    "\<And>i. i < length (sp_map p) \<Longrightarrow> sp_map p' ! i = (if i \<in> set full then 0 else sp_map p ! i)"
    "free_swa full p' = Inr p'"
proof -
  let ?vs = "map (\<lambda>i. sp_map p ! i) full" and ?ps = "map (\<lambda>i. (i, 0 :: int)) full"
  let ?swa = "map nat (filter (\<lambda>v. v > 0) ?vs)"
  let ?p = "p\<lparr>sp_free := sp_free p @ ?swa, sp_map := scatter (sp_map p) ?ps\<rparr>"
  have z: "map fst ?ps = full" "map snd ?ps = map (\<lambda>_. 0) full" by (simp_all add: comp_def)
  have m: "mapped (scatter (sp_map p) ?ps) + mset ?swa = mapped (sp_map p)"
    using mapped_scatter [of ?ps "sp_map p"] d r unfolding z by (simp add: mapped_def filter_map comp_def)
  have ok': "swa_ok ?p" using ok m by (simp add: swa_ok_def ac_simps)
  have nth: "sp_map ?p ! i = (if i \<in> set full then 0 else sp_map p ! i)" for i
  proof -
    have "map_of ?ps i = (if i \<in> set full then Some 0 else None)" by (induction full) auto
    then show ?thesis using scatter_nth [of ?ps "sp_map p" i] d r unfolding z by simp
  qed
  have again: "free_swa full ?p = Inr ?p"
  proof -
    have r': "in_range full (sp_map ?p)" using r by (simp add: in_range_def)
    have zero: "map (\<lambda>i. sp_map ?p ! i) full = map (\<lambda>_. 0) full" using nth by simp
    have "filter (\<lambda>v. 0 < v) (map (\<lambda>_. 0 :: int) full) = []" by (simp add: filter_empty_conv)
    moreover have "scatter (sp_map ?p) ?ps = sp_map ?p" using nth by (intro scatter_zero) simp
    ultimately show ?thesis
      using r' zero unfolding free_swa_def translate_loc_from_full_to_swa_def Let_def by simp
  qed
  show ?thesis
  proof (cases "full = []")
    case True
    then show ?thesis using that [of p] ok by (simp add: free_swa_def)
  next
    case False
    show ?thesis
    proof (rule that [of ?p])
      show "free_swa full p = Inr ?p"
        using False r by (simp add: free_swa_def translate_loc_from_full_to_swa_def Let_def)
      show "swa_available_size ?p = swa_available_size p + length (filter (\<lambda>i. sp_map p ! i > 0) full)"
        by (simp add: swa_available_size_def filter_map comp_def)
    qed (use ok' nth again in simp_all)
  qed
qed

end
