(* ===== verification/Cache_Manager.thy ===== *)
theory Cache_Manager
  imports Radix_Contract Hybrid_Cache Swa_Cache State_Pool Swa_Pool
begin

text \<open>
  The scheduler's page manager, \<^verbatim>\<open>CacheManager\<close> of \<^verbatim>\<open>scheduler/cache.py\<close>, with the prefix
  caches it dispatches to and the per-request fields of \<^verbatim>\<open>core.Req\<close> it reads and writes. The page
  table is one row of slots per table index. A tensor slice \<open>row[a:b]\<close> is \<open>slice a b row\<close>; the
  stride \<open>[::page_size]\<close> of the source takes the page base of every page of a slice. The clock
  readings are a function in the state, so an operation that reads the clock is deterministic.
\<close>

section \<open>Slices\<close>

definition slice :: "nat \<Rightarrow> nat \<Rightarrow> 'a list \<Rightarrow> 'a list" where
  "slice a b xs = drop a (take b xs)"

fun stride_from :: "nat \<Rightarrow> nat \<Rightarrow> 'a list \<Rightarrow> 'a list" where
  "stride_from n k [] = []"
| "stride_from n 0 (x # xs) = x # stride_from n (n - 1) xs"
| "stride_from n (Suc k) (x # xs) = stride_from n k xs"

definition stride :: "nat \<Rightarrow> 'a list \<Rightarrow> 'a list" where
  "stride n xs = stride_from n 0 xs"

definition page_to_token :: "nat \<Rightarrow> slot list \<Rightarrow> slot list" where
  "page_to_token ps pages = (if ps = 1 then pages else concat (map (\<lambda>p. map (\<lambda>i. p + i) [0..<ps]) pages))"

text \<open>\<open>row[a:b].copy_(src)\<close>: the sizes must agree, or the source has one element.\<close>

definition copy_slice :: "nat \<Rightarrow> nat \<Rightarrow> 'a list \<Rightarrow> 'a list \<Rightarrow> err + 'a list" where
  "copy_slice a b src row =
     (let n = length (slice a b row) in
      if length src = n then Inr (take a row @ src @ drop (a + n) row)
      else if length src = 1 then Inr (take a row @ replicate n (hd src) @ drop (a + n) row)
      else Inl RuntimeError)"

definition ceil_pages :: "nat \<Rightarrow> nat \<Rightarrow> nat" where
  "ceil_pages n ps = (n + ps - 1) div ps"

section \<open>Requests\<close>

datatype handle =
    NaiveH
  | RadixH radix_handle
  | HybridH nat nid "slot list"
  | SwaH swa_handle

fun handle_len :: "handle \<Rightarrow> nat" where
  "handle_len NaiveH = 0"
| "handle_len (RadixH h) = h_len h"
| "handle_len (HybridH l n kv) = l"
| "handle_len (SwaH h) = sh_len h"

record req =
  rq_ids :: "token list"
  rq_table :: nat
  rq_cached :: nat
  rq_device :: nat
  rq_max_device :: nat
  rq_output :: nat
  rq_uid :: nat
  rq_handle :: handle
  rq_mm :: bool
  rq_linear :: "slot option"
  rq_ping_pong :: "(slot \<times> slot) option"
  rq_next_track :: nat
  rq_last_track :: "nat option"
  rq_restore :: "slot option"
  rq_swa_evicted :: nat
  rq_decode_idx :: nat
  rq_anchor :: "nat option"
  rq_aborted :: bool
  rq_released :: bool
  rq_chunked :: bool

text \<open>
  \<open>rq_released\<close> is the source's \<open>table_idx == -1\<close>. Below, \<open>__post_init__\<close> of a request, and of a
  chunk of one (\<open>ChunkedReq\<close>).
\<close>

definition req_init ::
  "bool \<Rightarrow> token list \<Rightarrow> nat \<Rightarrow> nat \<Rightarrow> nat \<Rightarrow> nat \<Rightarrow> handle \<Rightarrow> bool \<Rightarrow> err + req" where
  "req_init chunked ids table cl output uid h mm =
     (if \<not> cl < length ids then Inl AssertionError
      else Inr \<lparr>rq_ids = ids, rq_table = table, rq_cached = cl, rq_device = length ids,
          rq_max_device = length ids + output, rq_output = output, rq_uid = uid, rq_handle = h, rq_mm = mm,
          rq_linear = None, rq_ping_pong = None, rq_next_track = 0, rq_last_track = None,
          rq_restore = None, rq_swa_evicted = 0, rq_decode_idx = 0, rq_anchor = None,
          rq_aborted = False, rq_released = False, rq_chunked = chunked\<rparr>)"

definition remain_len :: "req \<Rightarrow> int" where
  "remain_len r = int (rq_max_device r) - int (rq_device r)"

definition extend_len :: "req \<Rightarrow> int" where
  "extend_len r = int (rq_device r) - int (rq_cached r)"

definition complete_one :: "req \<Rightarrow> req" where
  "complete_one r = r\<lparr>rq_cached := rq_device r, rq_device := Suc (rq_device r)\<rparr>"

definition append_host :: "token list \<Rightarrow> req \<Rightarrow> err + req" where
  "append_host new r =
     (if rq_chunked r then Inl NotImplementedError
      else if length (rq_ids r) + length new \<le> rq_max_device r
      then Inr (r\<lparr>rq_ids := rq_ids r @ new\<rparr>) else Inl AssertionError)"

definition can_decode :: "req \<Rightarrow> bool" where
  "can_decode r \<longleftrightarrow> \<not> rq_chunked r \<and> remain_len r > 0"

section \<open>The prefix caches behind one interface\<close>

datatype cache_kind = KNaive | KRadix | KHybrid | KSwa

datatype pcache = PNaive | PRadix radix | PHybrid hybrid | PSwa swa

definition chunk_size :: nat where
  "chunk_size = 64"

definition make_prefix_cache :: "cache_kind \<Rightarrow> nat \<Rightarrow> int \<Rightarrow> nid \<Rightarrow> int \<Rightarrow> err + pcache" where
  "make_prefix_cache k ps window uuid tic =
     (case k of
        KNaive \<Rightarrow> Inr PNaive
      | KRadix \<Rightarrow> Inr (PRadix (radix_init ps uuid tic))
      | KHybrid \<Rightarrow> and_then (hybrid_init chunk_size ps uuid tic) (\<lambda>s. Inr (PHybrid s))
      | KSwa \<Rightarrow> and_then (swa_init ps window uuid tic) (\<lambda>s. Inr (PSwa s)))"

fun pc_evictable :: "pcache \<Rightarrow> int" where
  "pc_evictable PNaive = 0"
| "pc_evictable (PRadix s) = evictable_size s"
| "pc_evictable (PHybrid s) = full_evictable s"
| "pc_evictable (PSwa s) = full_evictable s"

fun pc_total :: "pcache \<Rightarrow> int" where
  "pc_total PNaive = 0"
| "pc_total (PRadix s) = total_size s"
| "pc_total (PHybrid s) = full_evictable s + full_protected s"
| "pc_total (PSwa s) = full_evictable s + full_protected s"

text \<open>
  The naive cache (\<^verbatim>\<open>kvcache/naive_cache.py\<close>): nothing is stored, so a match and an insert return
  the empty handle and eviction of anything raises.
\<close>

definition naive_evict :: "int \<Rightarrow> err + slot list" where
  "naive_evict sz = (if sz = 0 then Inr [] else Inl NotImplementedError)"

record cm =
  cm_free :: "slot list"
  cm_pages :: nat
  cm_psize :: nat
  cm_kind :: cache_kind
  cm_pc :: pcache
  cm_lpool :: "lpool option"
  cm_swa :: "swa_pool option"
  cm_window :: int
  cm_table :: "nat \<Rightarrow> slot list"
  cm_lazy :: "slot list list option"
  cm_clk :: "nat \<Rightarrow> int"
  cm_reads :: nat

definition cm_init ::
  "nat \<Rightarrow> nat \<Rightarrow> (nat \<Rightarrow> slot list) \<Rightarrow> cache_kind \<Rightarrow> lpool option \<Rightarrow> swa_pool option \<Rightarrow> int \<Rightarrow> nid \<Rightarrow>
   (nat \<Rightarrow> int) \<Rightarrow> err + cm" where
  "cm_init pages ps table k lp sp window uuid clk =
     and_then (make_prefix_cache k ps window uuid (clk 0)) (\<lambda>pc.
     Inr \<lparr>cm_free = map (\<lambda>i. i * ps) [0..<pages], cm_pages = pages, cm_psize = ps, cm_kind = k, cm_pc = pc,
          cm_lpool = lp, cm_swa = sp, cm_window = window, cm_table = table, cm_lazy = None,
          cm_clk = clk, cm_reads = 1\<rparr>)"

definition page_usage :: "cm \<Rightarrow> int \<times> int" where
  "page_usage c =
     (int (cm_pages c) - int (length (cm_free c)) - pc_evictable (cm_pc c) div int (cm_psize c), int (cm_pages c))"

definition available_size :: "cm \<Rightarrow> int" where
  "available_size c = pc_evictable (cm_pc c) + int (length (cm_free c)) * int (cm_psize c)"

definition mamba_available_size :: "cm \<Rightarrow> err + int" where
  "mamba_available_size c =
     (case (cm_lpool c, cm_pc c) of
        (Some p, PHybrid s) \<Rightarrow> Inr (int (length (lp_free p)) + mamba_evictable s)
      | _ \<Rightarrow> Inl AttributeError)"

definition cm_swa_available :: "cm \<Rightarrow> err + int" where
  "cm_swa_available c =
     (case cm_swa c of
        None \<Rightarrow> Inl AttributeError
      | Some p \<Rightarrow> Inr (int (swa_available_size p) +
          (case cm_pc c of PSwa s \<Rightarrow> swa_evictable s | _ \<Rightarrow> 0)))"

text \<open>\<open>n\<close> clock readings are taken; the \<open>i\<close>-th one is \<open>reading c i\<close>.\<close>

definition reading :: "cm \<Rightarrow> nat \<Rightarrow> int" where
  "reading c i = cm_clk c (cm_reads c + i)"

definition read_clock :: "nat \<Rightarrow> cm \<Rightarrow> cm" where
  "read_clock n c = c\<lparr>cm_reads := cm_reads c + n\<rparr>"

section \<open>Match, lock, unlock\<close>

text \<open>A match through the interface; the last result is the state slot to restore from.\<close>

definition cm_match :: "token list \<Rightarrow> cm \<Rightarrow> err + (cm \<times> handle \<times> slot option)" where
  "cm_match ids c =
     (case cm_pc c of
        PNaive \<Rightarrow> Inr (c, NaiveH, None)
      | PRadix s \<Rightarrow> and_then (match_prefix (reading c 0) ids s) (\<lambda>(s', h).
          Inr (read_clock 1 (c\<lparr>cm_pc := PRadix s'\<rparr>), RadixH h, None))
      | PHybrid s \<Rightarrow> and_then (hybrid_match (reading c 0) ids s) (\<lambda>(s', m).
          Inr (read_clock 1 (c\<lparr>cm_pc := PHybrid s'\<rparr>), HybridH (hm_len m) (hm_node m) (hm_kv m), hm_mamba m))
      | PSwa s \<Rightarrow> and_then (swa_match ids s) (\<lambda>(s', kv, l, n).
          Inr (c\<lparr>cm_pc := PSwa s'\<rparr>, SwaH \<lparr>sh_len = l, sh_node = n, sh_kv = kv, sh_uuid = None\<rparr>, None)))"

definition match_req :: "token list \<Rightarrow> bool \<Rightarrow> cm \<Rightarrow> err + (cm \<times> handle \<times> slot option)" where
  "match_req input_ids mm c =
     and_then (check (length input_ids > 0) AssertionError) (\<lambda>_.
     cm_match (if mm then [] else butlast input_ids) c)"

definition cm_lock :: "handle \<Rightarrow> cm \<Rightarrow> err + (cm \<times> handle)" where
  "cm_lock h c =
     (case (h, cm_pc c) of
        (SwaH sh, PSwa s) \<Rightarrow> and_then (swa_inc_lock (sh_node sh) s) (\<lambda>(s', u).
          Inr (c\<lparr>cm_pc := PSwa s'\<rparr>, SwaH (sh\<lparr>sh_uuid := u\<rparr>)))
      | (HybridH l n kv, PHybrid s) \<Rightarrow> and_then (hybrid_inc_lock n s) (\<lambda>s'. Inr (c\<lparr>cm_pc := PHybrid s'\<rparr>, h))
      | (RadixH rh, PRadix s) \<Rightarrow> and_then (lock_handle rh False s) (\<lambda>s'. Inr (c\<lparr>cm_pc := PRadix s'\<rparr>, h))
      | (_, PNaive) \<Rightarrow> Inr (c, h)
      | _ \<Rightarrow> Inl AttributeError)"

definition cm_unlock :: "handle \<Rightarrow> cm \<Rightarrow> err + cm" where
  "cm_unlock h c =
     (case (h, cm_pc c) of
        (SwaH sh, PSwa s) \<Rightarrow> and_then (swa_dec_lock (sh_node sh) (sh_uuid sh) False s) (\<lambda>s'.
          Inr (c\<lparr>cm_pc := PSwa s'\<rparr>))
      | (HybridH l n kv, PHybrid s) \<Rightarrow> and_then (hybrid_dec_lock n s) (\<lambda>s'. Inr (c\<lparr>cm_pc := PHybrid s'\<rparr>))
      | (RadixH rh, PRadix s) \<Rightarrow> and_then (lock_handle rh True s) (\<lambda>s'. Inr (c\<lparr>cm_pc := PRadix s'\<rparr>))
      | (_, PNaive) \<Rightarrow> Inr c
      | _ \<Rightarrow> Inl AttributeError)"

definition handle_indices :: "handle \<Rightarrow> cm \<Rightarrow> err + slot list" where
  "handle_indices h c =
     (case (h, cm_pc c) of
        (RadixH rh, PRadix s) \<Rightarrow> get_matched_indices rh s
      | (HybridH l n kv, _) \<Rightarrow> Inr kv
      | (SwaH sh, _) \<Rightarrow> Inr (sh_kv sh)
      | (NaiveH, _) \<Rightarrow> Inr []
      | _ \<Rightarrow> Inl AttributeError)"

section \<open>Pages\<close>

text \<open>\<open>_free\<close>: inside \<open>lazy_free_region\<close> the page bases wait in a list until the region ends.\<close>

definition cm_release :: "slot list \<Rightarrow> cm \<Rightarrow> cm" where
  "cm_release indices c =
     (case cm_lazy c of
        Some ls \<Rightarrow> c\<lparr>cm_lazy := Some (ls @ [stride (cm_psize c) indices])\<rparr>
      | None \<Rightarrow> if indices = [] then c
                else c\<lparr>cm_free := cm_free c @ stride (cm_psize c) indices\<rparr>)"

definition lazy_enter :: "cm \<Rightarrow> cm" where
  "lazy_enter c = c\<lparr>cm_lazy := Some []\<rparr>"

definition lazy_exit :: "cm \<Rightarrow> cm" where
  "lazy_exit c =
     (case cm_lazy c of None \<Rightarrow> c | Some ls \<Rightarrow> c\<lparr>cm_lazy := None, cm_free := cm_free c @ concat ls\<rparr>)"

definition cm_free_swa :: "slot list \<Rightarrow> cm \<Rightarrow> err + cm" where
  "cm_free_swa indices c =
     (case cm_swa c of
        None \<Rightarrow> Inr c
      | Some p \<Rightarrow> if indices = [] then Inr c else and_then (free_swa indices p) (\<lambda>p'. Inr (c\<lparr>cm_swa := Some p'\<rparr>)))"

definition cm_evict :: "int \<Rightarrow> cm \<Rightarrow> err + (cm \<times> slot list)" where
  "cm_evict need c =
     (case cm_pc c of
        PNaive \<Rightarrow> and_then (naive_evict need) (\<lambda>vs. Inr (c, vs))
      | PRadix s \<Rightarrow> and_then (evict need s) (\<lambda>(s', vs). Inr (c\<lparr>cm_pc := PRadix s'\<rparr>, vs))
      | PHybrid s \<Rightarrow> and_then (hybrid_evict_full need s) (\<lambda>(s', kv, mamba).
          case cm_lpool c of
            None \<Rightarrow> if mamba = [] then Inr (c\<lparr>cm_pc := PHybrid s'\<rparr>, kv) else Inl AttributeError
          | Some p \<Rightarrow> Inr (c\<lparr>cm_pc := PHybrid s', cm_lpool := Some (lp_release mamba p)\<rparr>, kv))
      | PSwa s \<Rightarrow> and_then (swa_evict_full need s) (\<lambda>(s', kv, sw).
          and_then (cm_free_swa sw (c\<lparr>cm_pc := PSwa s'\<rparr>)) (\<lambda>c'. Inr (c', kv))))"

definition cm_allocate :: "nat \<Rightarrow> cm \<Rightarrow> err + (cm \<times> slot list)" where
  "cm_allocate needed c =
     and_then
       (if needed > length (cm_free c) then
          and_then (cm_evict (int ((needed - length (cm_free c)) * cm_psize c)) c) (\<lambda>(c', evicted).
            let c'' = c'\<lparr>cm_free := cm_free c' @ stride (cm_psize c') evicted\<rparr> in
            if length (cm_free c'') \<ge> needed then Inr c'' else Inl AssertionError)
        else Inr c) (\<lambda>c1.
     Inr (c1\<lparr>cm_free := drop needed (cm_free c1)\<rparr>, take needed (cm_free c1)))"

text \<open>
  \<open>ensure_swa_slots\<close> and \<open>ensure_mamba_slots\<close>: loops that evict from the tree until the pool has
  enough free slots or the tree yields none.
\<close>

fun ensure_swa_slots :: "nat \<Rightarrow> nat \<Rightarrow> cm \<Rightarrow> err + cm" where
  "ensure_swa_slots 0 n c = Inl Diverges"
| "ensure_swa_slots (Suc f) n c =
     (case (cm_swa c, cm_pc c) of
        (Some p, PSwa s) \<Rightarrow>
          if \<not> swa_available_size p < n then Inr c
          else
            and_then (evict_swa (int n - int (swa_available_size p)) s) (\<lambda>(s', kv, sw).
              if sw = [] then Inr (c\<lparr>cm_pc := PSwa s'\<rparr>)
              else and_then (free_swa sw p) (\<lambda>p'.
                ensure_swa_slots f n
                  ((if kv = [] then id else cm_release kv) (c\<lparr>cm_pc := PSwa s', cm_swa := Some p'\<rparr>))))
      | _ \<Rightarrow> Inl AttributeError)"

fun ensure_mamba_slots :: "nat \<Rightarrow> nat \<Rightarrow> cm \<Rightarrow> err + cm" where
  "ensure_mamba_slots 0 n c = Inl Diverges"
| "ensure_mamba_slots (Suc f) n c =
     (case (cm_lpool c, cm_pc c) of
        (Some p, PHybrid s) \<Rightarrow>
          if \<not> length (lp_free p) < n then Inr c
          else
            and_then (hybrid_evict_mamba (int n - int (length (lp_free p))) s) (\<lambda>(s', kv, mamba).
              if mamba = [] then Inr (c\<lparr>cm_pc := PHybrid s'\<rparr>)
              else ensure_mamba_slots f n
                     (cm_release kv (c\<lparr>cm_pc := PHybrid s', cm_lpool := Some (lp_release mamba p)\<rparr>)))
      | _ \<Rightarrow> Inl AttributeError)"

text \<open>
  Every round with an eviction takes a window or a snapshot from at least one node, so the number
  of nodes ever made bounds the rounds.
\<close>

fun pc_counter :: "pcache \<Rightarrow> nat" where
  "pc_counter PNaive = 0"
| "pc_counter (PRadix s) = counter s"
| "pc_counter (PHybrid s) = counter s"
| "pc_counter (PSwa s) = counter s"

definition ensure_swa :: "nat \<Rightarrow> cm \<Rightarrow> err + cm" where
  "ensure_swa n c = ensure_swa_slots (pc_counter (cm_pc c) + 2) n c"

definition ensure_mamba :: "nat \<Rightarrow> cm \<Rightarrow> err + cm" where
  "ensure_mamba n c = ensure_mamba_slots (pc_counter (cm_pc c) + 2) n c"

section \<open>Allocation\<close>

definition alloc_info :: "nat \<Rightarrow> req list \<Rightarrow> (nat \<times> nat \<times> nat) list" where
  "alloc_info ps reqs =
     List.map_filter (\<lambda>r. let f = ceil_pages (rq_cached r) ps; l = ceil_pages (rq_device r) ps in
       if l > f then Some (rq_table r, f, l) else None) reqs"

text \<open>
  \<open>_write_page_table\<close>: one row write per entry, each taking the next slots. A position past the
  end of the row raises.
\<close>

fun write_page_table :: "(nat \<Rightarrow> slot list) \<Rightarrow> slot list \<Rightarrow> (nat \<times> nat \<times> nat) list \<Rightarrow> nat \<Rightarrow> err + (nat \<Rightarrow> slot list)" where
  "write_page_table table allocated [] ps = (if allocated = [] then Inr table else Inl AssertionError)"
| "write_page_table table allocated ((t, f, l) # info) ps =
     (let a = f * ps; b = l * ps; n = b - a in
      if length allocated < n then Inl AssertionError
      else if b > length (table t) then Inl IndexError
      else write_page_table (table(t := take a (table t) @ take n allocated @ drop b (table t))) (drop n allocated) info ps)"

definition allocate_paged :: "req list \<Rightarrow> cm \<Rightarrow> err + cm" where
  "allocate_paged reqs c =
     (let info = alloc_info (cm_psize c) reqs; needed = (\<Sum>(t, f, l) \<leftarrow> info. l - f) in
      if needed = 0 then Inr c
      else
        and_then (cm_allocate needed c) (\<lambda>(c1, pages).
        let allocated = page_to_token (cm_psize c) pages in
        and_then
          (case cm_swa c1 of
             None \<Rightarrow> Inr c1
           | Some _ \<Rightarrow>
               and_then (if cm_kind c1 = KSwa then ensure_swa (length allocated) c1 else Inr c1) (\<lambda>c2.
               case cm_swa c2 of
                 None \<Rightarrow> Inl AttributeError
               | Some p \<Rightarrow> and_then (alloc_swa allocated p) (\<lambda>p'. Inr (c2\<lparr>cm_swa := Some p'\<rparr>)))) (\<lambda>c3.
        and_then (write_page_table (cm_table c3) allocated info (cm_psize c3)) (\<lambda>tb.
        Inr (c3\<lparr>cm_table := tb\<rparr>)))))"

section \<open>Committing a request\<close>

definition padded_tail :: "req \<Rightarrow> nat \<Rightarrow> cm \<Rightarrow> slot list" where
  "padded_tail r start c =
     slice start (ceil_pages (rq_cached r) (cm_psize c) * cm_psize c) (cm_table c (rq_table r))"

definition release_both :: "slot list \<Rightarrow> cm \<Rightarrow> err + cm" where
  "release_both vs c = and_then (cm_free_swa vs c) (\<lambda>c'. Inr (cm_release vs c'))"

definition set_row :: "nat \<Rightarrow> slot list \<Rightarrow> cm \<Rightarrow> cm" where
  "set_row t row c = c\<lparr>cm_table := (cm_table c)(t := row)\<rparr>"

definition cm_insert :: "token list \<Rightarrow> slot list \<Rightarrow> cm \<Rightarrow> err + (cm \<times> nat \<times> handle)" where
  "cm_insert ids idx c =
     (case cm_pc c of
        PNaive \<Rightarrow> Inr (c, 0, NaiveH)
      | PRadix s \<Rightarrow> and_then (insert_prefix (reading c 0) (reading c 1) ids idx s) (\<lambda>(s', k, h).
          Inr (read_clock 2 (c\<lparr>cm_pc := PRadix s'\<rparr>), k, RadixH h))
      | _ \<Rightarrow> Inl AttributeError)"

text \<open>A request with images is never inserted; its pages go back when it finishes.\<close>

definition release_mm :: "bool \<Rightarrow> req \<Rightarrow> cm \<Rightarrow> err + (cm \<times> req)" where
  "release_mm finished r c =
     and_then (cm_unlock (rq_handle r) c) (\<lambda>c1.
       if finished then and_then (release_both (padded_tail r (handle_len (rq_handle r)) c1) c1) (\<lambda>c2. Inr (c2, r))
       else Inr (c1, r))"

definition cache_req_plain :: "bool \<Rightarrow> req \<Rightarrow> cm \<Rightarrow> err + (cm \<times> req)" where
  "cache_req_plain finished r c =
     (if rq_mm r then release_mm finished r c
      else
        (let old = handle_len (rq_handle r);
             page_indices = take (rq_cached r) (cm_table c (rq_table r)) in
         and_then (cm_insert (take (rq_cached r) (rq_ids r)) page_indices c) (\<lambda>(c1, k, new).
         and_then (cm_unlock (rq_handle r) c1) (\<lambda>c2.
         and_then (release_both (slice old k page_indices) c2) (\<lambda>c3.
         if finished then
           and_then (release_both (padded_tail r (handle_len new) c3) c3) (\<lambda>c4. Inr (c4, r))
         else
           and_then
             (if k > old then
                and_then (handle_indices new c3) (\<lambda>canonical.
                and_then (copy_slice old k (slice old k canonical) (cm_table c3 (rq_table r))) (\<lambda>row.
                Inr (set_row (rq_table r) row c3)))
              else Inr c3) (\<lambda>c4.
           and_then (cm_lock new c4) (\<lambda>(c5, h). Inr (c5, r\<lparr>rq_handle := h\<rparr>))))))))"

subsection \<open>Linear attention\<close>

definition cm_hybrid_insert :: "token list \<Rightarrow> slot list \<Rightarrow> slot \<Rightarrow> cm \<Rightarrow> err + (cm \<times> nat \<times> bool)" where
  "cm_hybrid_insert ids idx mv c =
     (case cm_pc c of
        PHybrid s \<Rightarrow> and_then (hybrid_insert (reading c 0) (reading c 1) ids idx mv s) (\<lambda>(s', k, ex).
          Inr (read_clock 2 (c\<lparr>cm_pc := PHybrid s'\<rparr>), k, ex))
      | _ \<Rightarrow> Inl AttributeError)"

definition free_state_slots :: "slot list \<Rightarrow> cm \<Rightarrow> err + cm" where
  "free_state_slots slots c =
     (case cm_lpool c of
        None \<Rightarrow> Inl AttributeError
      | Some p \<Rightarrow> Inr (c\<lparr>cm_lpool := Some (lp_release slots p)\<rparr>))"

definition pp_list :: "(slot \<times> slot) option \<Rightarrow> slot list" where
  "pp_list pp = (case pp of None \<Rightarrow> [] | Some (a, b) \<Rightarrow> [a, b])"

definition pp_get :: "(slot \<times> slot) option \<Rightarrow> nat \<Rightarrow> err + slot" where
  "pp_get pp i = (case pp of None \<Rightarrow> Inl TypeError
                  | Some (a, b) \<Rightarrow> if i = 0 then Inr a else if i = 1 then Inr b else Inl IndexError)"

definition free_req_slots :: "bool \<Rightarrow> req \<Rightarrow> cm \<Rightarrow> err + (cm \<times> req)" where
  "free_req_slots keep_live r c =
     (let slots = pp_list (rq_ping_pong r) @
            (case rq_linear r of Some l \<Rightarrow> if keep_live then [] else [l] | None \<Rightarrow> []) in
      and_then (if slots \<noteq> [] then free_state_slots slots c else Inr c) (\<lambda>c'.
      Inr (c', r\<lparr>rq_ping_pong := None, rq_linear := None\<rparr>)))"

text \<open>The pending freeze of a finished request; the result is the end of the span freed so far.\<close>

definition commit_frozen :: "req \<Rightarrow> slot list \<Rightarrow> cm \<Rightarrow> err + (cm \<times> req \<times> nat)" where
  "commit_frozen r page_indices c =
     (let old = handle_len (rq_handle r) in
      case (rq_last_track r, rq_ping_pong r) of
        (Some L, Some (a, b)) \<Rightarrow>
          if 0 < L \<and> L \<le> rq_cached r \<and> align_down_nat L (cm_psize c) = L then
            (let frozen = (if rq_next_track r = 0 then b else a) in
             and_then (cm_hybrid_insert (take L (rq_ids r)) (take L page_indices) frozen c) (\<lambda>(c1, k, ex).
             and_then (free_state_slots (filter (\<lambda>s. ex \<or> s \<noteq> frozen) [a, b]) c1) (\<lambda>c2.
             Inr (cm_release (slice old (max old k) page_indices) c2, r\<lparr>rq_ping_pong := None\<rparr>, max old L))))
          else Inr (c, r, old)
      | _ \<Rightarrow> Inr (c, r, old))"

definition finish_hybrid :: "req \<Rightarrow> slot list \<Rightarrow> cm \<Rightarrow> err + (cm \<times> req)" where
  "finish_hybrid r0 page_indices c0 =
     and_then (commit_frozen r0 page_indices c0) (\<lambda>(c, r, free_upto).
     let insert_len = align_down_nat (rq_cached r) (cm_psize c) in
     if insert_len = rq_cached r \<and> insert_len > 0 then
       (case rq_linear r of
          None \<Rightarrow> Inl TypeError
        | Some lslot \<Rightarrow>
            and_then (cm_hybrid_insert (take insert_len (rq_ids r)) (take insert_len page_indices) lslot c) (\<lambda>(c1, k, ex).
            and_then (cm_unlock (rq_handle r) c1) (\<lambda>c2.
            free_req_slots (\<not> ex) r (cm_release (slice free_upto (max free_upto k) page_indices) c2))))
     else
       and_then (cm_unlock (rq_handle r) c) (\<lambda>c2.
       free_req_slots False r (cm_release (drop free_upto page_indices) c2)))"

definition commit_hybrid_chunk :: "req \<Rightarrow> slot list \<Rightarrow> cm \<Rightarrow> err + (cm \<times> req)" where
  "commit_hybrid_chunk r page_indices c =
     (case rq_last_track r of
        None \<Rightarrow> Inr (c, r)
      | Some L \<Rightarrow>
          if align_down_nat L (cm_psize c) \<noteq> L then Inr (c, r\<lparr>rq_last_track := None\<rparr>)
          else
            (let old = handle_len (rq_handle r); i = 1 - rq_next_track r in
             and_then (pp_get (rq_ping_pong r) i) (\<lambda>frozen.
             and_then (cm_hybrid_insert (take L (rq_ids r)) (take L page_indices) frozen c) (\<lambda>(c1, k, ex).
             and_then (cm_unlock (rq_handle r) c1) (\<lambda>c2.
             and_then (cm_match (take L (rq_ids r)) (cm_release (slice old k page_indices) c2)) (\<lambda>(c3, h, mv).
             and_then
               (if k > old then
                  and_then (handle_indices h c3) (\<lambda>kv.
                  and_then (copy_slice old k (slice old k kv) (cm_table c3 (rq_table r))) (\<lambda>row.
                  Inr (set_row (rq_table r) row c3)))
                else Inr c3) (\<lambda>c4.
             and_then (cm_lock h c4) (\<lambda>(c5, h').
             and_then
               (if \<not> ex then
                  and_then (ensure_mamba 1 c5) (\<lambda>c6.
                  case cm_lpool c6 of
                    None \<Rightarrow> Inl AttributeError
                  | Some p \<Rightarrow> and_then (lp_alloc 1 p) (\<lambda>(p', new).
                      Inr (c6\<lparr>cm_lpool := Some p'\<rparr>,
                           (case rq_ping_pong r of None \<Rightarrow> None
                            | Some (a, b) \<Rightarrow> Some (if i = 0 then (hd new, b) else (a, hd new))))))
                else Inr (c5, rq_ping_pong r)) (\<lambda>(c7, pp).
             Inr (c7, r\<lparr>rq_handle := h', rq_ping_pong := pp, rq_last_track := None\<rparr>))))))))))"

definition cache_req_hybrid :: "bool \<Rightarrow> req \<Rightarrow> cm \<Rightarrow> err + (cm \<times> req)" where
  "cache_req_hybrid finished r c =
     (let page_indices = take (rq_cached r) (cm_table c (rq_table r)) in
      if rq_mm r then
        and_then (cm_unlock (rq_handle r) c) (\<lambda>c1.
          if finished
          then free_req_slots False r (cm_release (drop (handle_len (rq_handle r)) page_indices) c1)
          else Inr (c1, r))
      else if finished then finish_hybrid r page_indices c
      else commit_hybrid_chunk r page_indices c)"

text \<open>\<open>snapshot_toolcall_anchor\<close> on one request.\<close>

definition snapshot_anchor_one :: "req \<Rightarrow> cm \<Rightarrow> err + (cm \<times> req)" where
  "snapshot_anchor_one r c =
     (case rq_anchor r of
        None \<Rightarrow> Inr (c, r)
      | Some a \<Rightarrow>
          if rq_ping_pong r = None \<or> rq_last_track r \<noteq> None \<or> rq_cached r \<noteq> a \<or> align_down_nat a (cm_psize c) \<noteq> a
          then Inr (c, r)
          else and_then (pp_get (rq_ping_pong r) (rq_next_track r)) (\<lambda>dst.
            case (cm_lpool c, rq_linear r) of
              (Some p, Some src) \<Rightarrow>
                Inr (c\<lparr>cm_lpool := Some (copy_from src dst p)\<rparr>,
                     r\<lparr>rq_last_track := Some a, rq_next_track := 1 - rq_next_track r\<rparr>)
            | _ \<Rightarrow> Inl TypeError))"

fun on_reqs :: "(req \<Rightarrow> cm \<Rightarrow> err + (cm \<times> req)) \<Rightarrow> req list \<Rightarrow> cm \<Rightarrow> err + (cm \<times> req list)" where
  "on_reqs f [] c = Inr (c, [])"
| "on_reqs f (r # rs) c =
     and_then (f r c) (\<lambda>(c1, r1). and_then (on_reqs f rs c1) (\<lambda>(c2, rs2). Inr (c2, r1 # rs2)))"

definition snapshot_toolcall_anchor :: "req list \<Rightarrow> cm \<Rightarrow> err + (cm \<times> req list)" where
  "snapshot_toolcall_anchor reqs c =
     (if cm_kind c \<noteq> KHybrid then Inr (c, reqs) else on_reqs snapshot_anchor_one reqs c)"

subsection \<open>Sliding window\<close>

definition swa_retain_gap :: nat where
  "swa_retain_gap = 16"

definition cm_swa_insert ::
  "token list \<Rightarrow> slot list \<Rightarrow> nat \<Rightarrow> nat \<Rightarrow> cm \<Rightarrow> err + (cm \<times> nat \<times> slot list)" where
  "cm_swa_insert ids idx evicted after c =
     (case cm_pc c of
        PSwa s \<Rightarrow> and_then (swa_insert ids idx evicted after s) (\<lambda>(s', k, freed).
          Inr (c\<lparr>cm_pc := PSwa s'\<rparr>, k, freed))
      | _ \<Rightarrow> Inl AttributeError)"

text \<open>The prompt-end retention of a finished request.\<close>

definition retain_prompt_end :: "req \<Rightarrow> cm \<Rightarrow> err + cm" where
  "retain_prompt_end r c =
     (let prompt_len = align_down_nat (rq_max_device r - rq_output r) (cm_psize c);
          keep_from = align_down (max (int prompt_len - cm_window c - int swa_retain_gap) 0) (int (cm_psize c)) in
      if prompt_len > 0 then
        and_then
          (if keep_from > 0 then
             (case cm_pc c of
                PSwa s \<Rightarrow> and_then (trim_head_swa (take prompt_len (rq_ids r)) keep_from s) (\<lambda>(s', sw).
                  cm_free_swa sw (c\<lparr>cm_pc := PSwa s'\<rparr>))
              | _ \<Rightarrow> Inl AttributeError)
           else Inr c) (\<lambda>c1.
        and_then (cm_match (take prompt_len (rq_ids r)) c1) (\<lambda>(c2, _). Inr c2))
      else Inr c)"

definition relock_window :: "req \<Rightarrow> nat \<Rightarrow> cm \<Rightarrow> err + (cm \<times> req)" where
  "relock_window r insert_len c =
     (let keep_from = align_down (max (int insert_len - cm_window c - int swa_retain_gap) 0) (int (cm_psize c)) in
      and_then
        (if keep_from > 0 then and_then (cm_match (take (nat keep_from) (rq_ids r)) c) (\<lambda>(c1, _). Inr c1)
         else Inr c) (\<lambda>c1.
      and_then (cm_match (take insert_len (rq_ids r)) c1) (\<lambda>(c2, h, _).
      and_then
        (if handle_len h > 0 then
           and_then (handle_indices h c2) (\<lambda>kv.
           and_then (copy_slice 0 (handle_len h) kv (cm_table c2 (rq_table r))) (\<lambda>row.
           Inr (set_row (rq_table r) row c2)))
         else Inr c2) (\<lambda>c3.
      and_then (cm_lock h c3) (\<lambda>(c4, h'). Inr (c4, r\<lparr>rq_handle := h'\<rparr>))))))"

definition cache_req_swa :: "bool \<Rightarrow> req \<Rightarrow> cm \<Rightarrow> err + (cm \<times> req)" where
  "cache_req_swa finished r c =
     (if rq_mm r then release_mm finished r c
      else
        (let page_indices = take (rq_cached r) (cm_table c (rq_table r));
             insert_len = align_down_nat (rq_cached r) (cm_psize c) in
         and_then
           (if insert_len > 0 then
              cm_swa_insert (take insert_len (rq_ids r)) (take insert_len page_indices) (rq_swa_evicted r)
                (handle_len (rq_handle r)) c
            else Inr (c, 0, [])) (\<lambda>(c1, _, freed).
         and_then (cm_unlock (rq_handle r) c1) (\<lambda>c2.
         and_then (release_both freed c2) (\<lambda>c3.
         if finished then
           and_then (release_both (padded_tail r insert_len c3) c3) (\<lambda>c4.
           and_then (retain_prompt_end r c4) (\<lambda>c5. Inr (c5, r)))
         else relock_window r insert_len c3)))))"

definition cache_req :: "bool \<Rightarrow> req \<Rightarrow> cm \<Rightarrow> err + (cm \<times> req)" where
  "cache_req finished r c =
     (case cm_kind c of
        KSwa \<Rightarrow> cache_req_swa finished r c
      | KHybrid \<Rightarrow> cache_req_hybrid finished r c
      | _ \<Rightarrow> cache_req_plain finished r c)"

text \<open>The proactive release of window slots, for decoding and for chunked requests.\<close>

definition release_window :: "req \<Rightarrow> int \<Rightarrow> cm \<Rightarrow> err + (cm \<times> req)" where
  "release_window r threshold c =
     (let new = align_down threshold (int (cm_psize c)); start = max (rq_swa_evicted r) (handle_len (rq_handle r)) in
      if new > int start then
        and_then (cm_free_swa (slice start (nat new) (cm_table c (rq_table r))) c) (\<lambda>c1.
        Inr (c1, r\<lparr>rq_swa_evicted := nat new\<rparr>))
      else Inr (c, r))"

definition free_decode_window :: "req \<Rightarrow> cm \<Rightarrow> err + (cm \<times> req)" where
  "free_decode_window r c =
     (if rq_decode_idx r < 1 then Inr (c, r)
      else
        (let threshold = int (rq_device r) - 1 - cm_window c - int (cm_psize c) in
         case rq_anchor r of
           None \<Rightarrow> release_window r threshold c
         | Some a \<Rightarrow>
             (let cap = int a - cm_window c - int swa_retain_gap in
              if threshold - cap > cm_window c + int swa_retain_gap
              then release_window (r\<lparr>rq_anchor := None\<rparr>) threshold c
              else release_window r (min threshold cap) c)))"

definition maybe_free_swa_out_of_window :: "nat \<Rightarrow> nat \<Rightarrow> req list \<Rightarrow> cm \<Rightarrow> err + (cm \<times> req list)" where
  "maybe_free_swa_out_of_window interval forward_iter reqs c =
     (if cm_swa c = None \<or> forward_iter mod interval \<noteq> 0 then Inr (c, reqs)
      else on_reqs free_decode_window reqs c)"

definition free_swa_out_of_window_extend :: "req list \<Rightarrow> cm \<Rightarrow> err + (cm \<times> req list)" where
  "free_swa_out_of_window_extend reqs c =
     (if cm_swa c = None then Inr (c, reqs)
      else on_reqs (\<lambda>r c. release_window r (int (rq_cached r) - cm_window c - int (cm_psize c)) c) reqs c)"

section \<open>Integrity and rebuild\<close>

definition cm_check_integrity :: "cm \<Rightarrow> err + unit" where
  "cm_check_integrity c =
     and_then
       (case cm_pc c of
          PHybrid s \<Rightarrow> and_then (hybrid_check_integrity s) (\<lambda>_.
            case cm_lpool c of
              None \<Rightarrow> Inl AttributeError
            | Some p \<Rightarrow> check (int (length (lp_free p)) + mamba_evictable s + mamba_protected s \<le> int (lp_num p) - 1)
                          AssertionError)
        | PSwa s \<Rightarrow> and_then (swa_check_integrity s) (\<lambda>_.
            case cm_swa c of
              None \<Rightarrow> Inl AttributeError
            | Some p \<Rightarrow> check (int (swa_available_size p) + swa_evictable s + swa_protected s = int (sp_num p) - 1)
                          AssertionError)
        | _ \<Rightarrow> Inr ()) (\<lambda>_.
     and_then (check (int (length (cm_free c)) + pc_total (cm_pc c) div int (cm_psize c) = int (cm_pages c)) RuntimeError) (\<lambda>_.
     check (cm_psize c > 1 \<longrightarrow> list_all (\<lambda>p. p mod cm_psize c = 0) (cm_free c)) AssertionError))"

definition cm_rebuild :: "nat \<Rightarrow> (nat \<Rightarrow> slot list) \<Rightarrow> cm \<Rightarrow> err + cm" where
  "cm_rebuild pages table c =
     and_then (make_prefix_cache (cm_kind c) (cm_psize c) (cm_window c) (pc_counter (cm_pc c)) (reading c 0)) (\<lambda>pc.
     let c1 = read_clock 1 (c\<lparr>cm_pages := pages, cm_table := table,
                cm_free := map (\<lambda>i. i * cm_psize c) [0..<pages], cm_pc := pc\<rparr>) in
     if cm_kind c \<noteq> KHybrid then Inr c1
     else (case cm_lpool c1 of
             None \<Rightarrow> Inl AttributeError
           | Some p \<Rightarrow> Inr (c1\<lparr>cm_lpool := Some (reclaim_all_slots p)\<rparr>)))"

end
