(* ===== verification/Prefix_Contract.thy ===== *)
theory Prefix_Contract
  imports Cache_Manager
begin

text \<open>
  The contract between the page manager and a prefix cache, stated once as a locale and interpreted
  for \<^verbatim>\<open>RadixPrefixCache\<close> and \<^verbatim>\<open>NaivePrefixCache\<close>. \<open>inv s H\<close> is a well-formed cache in which the handles
  of the multiset \<open>H\<close>, and no others, hold a lock. The lemmas of the locale are the call sequences of the
  page manager: commit of a request, admission and eviction.
\<close>

section \<open>Whole pages\<close>

definition paged :: "nat \<Rightarrow> slot list \<Rightarrow> bool" where
  "paged ps vs \<longleftrightarrow> page_to_token ps (stride ps vs) = vs \<and> (\<forall>p \<in> set (stride ps vs). ps dvd p)"

definition page_slots :: "nat \<Rightarrow> slot \<Rightarrow> slot list" where
  "page_slots ps p = map (\<lambda>i. p + i) [0..<ps]"

lemma page_to_token_concat: "0 < ps \<Longrightarrow> page_to_token ps pages = concat (map (page_slots ps) pages)"
  by (cases "ps = 1") (simp_all add: page_to_token_def page_slots_def [abs_def] concat_map_singleton)

lemma page_to_token_Nil [simp]: "page_to_token ps [] = []"
  by (simp add: page_to_token_def)

lemma page_to_token_append: "page_to_token ps (xs @ ys) = page_to_token ps xs @ page_to_token ps ys"
  by (simp add: page_to_token_def)

lemma page_to_token_length [simp]: "0 < ps \<Longrightarrow> length (page_to_token ps pages) = length pages * ps"
  by (induction pages) (simp_all add: page_to_token_concat page_slots_def)

lemma stride_from_skip: "stride_from n (length xs) (xs @ ys) = stride_from n 0 ys"
  by (induction xs) simp_all

lemma stride_page: "0 < ps \<Longrightarrow> stride ps (page_slots ps p @ ys) = p # stride ps ys"
proof -
  assume "0 < ps"
  then have "page_slots ps p = p # map (\<lambda>i. p + i) [1..<ps]" by (simp add: page_slots_def upt_rec)
  then show ?thesis
    using stride_from_skip [of ps "map (\<lambda>i. p + i) [1..<ps]" ys] by (simp add: stride_def)
qed

lemma stride_page_to_token: "0 < ps \<Longrightarrow> stride ps (page_to_token ps pages) = pages"
  by (induction pages) (simp_all add: page_to_token_concat stride_page, simp add: stride_def)

lemma paged_page_to_token [intro]: "0 < ps \<Longrightarrow> (\<And>p. p \<in> set pages \<Longrightarrow> ps dvd p) \<Longrightarrow> paged ps (page_to_token ps pages)"
  by (simp add: paged_def stride_page_to_token)

lemma paged_iff: "0 < ps \<Longrightarrow> paged ps vs \<longleftrightarrow> (\<exists>pages. vs = page_to_token ps pages \<and> (\<forall>p \<in> set pages. ps dvd p))"
  by (auto simp: paged_def stride_page_to_token intro: sym)

lemma paged_Nil [simp]: "paged ps []"
  by (simp add: paged_def stride_def page_to_token_def)

lemma paged_append: "0 < ps \<Longrightarrow> paged ps a \<Longrightarrow> paged ps b \<Longrightarrow> paged ps (a @ b)"
proof -
  assume ps: "0 < ps" and "paged ps a" "paged ps b"
  then obtain p q where "a = page_to_token ps p" "\<forall>x \<in> set p. ps dvd x" "b = page_to_token ps q" "\<forall>x \<in> set q. ps dvd x"
    by (auto simp: paged_iff)
  then have "a @ b = page_to_token ps (p @ q)" "\<forall>x \<in> set (p @ q). ps dvd x" by (auto simp: page_to_token_append)
  then show ?thesis unfolding paged_iff [OF ps] by blast
qed

lemma paged_concat: "0 < ps \<Longrightarrow> (\<And>v. v \<in> set vss \<Longrightarrow> paged ps v) \<Longrightarrow> paged ps (concat vss)"
  by (induction vss) (simp_all add: paged_append)

lemma paged_dvd: "0 < ps \<Longrightarrow> paged ps vs \<Longrightarrow> ps dvd length vs"
  by (auto simp: paged_iff)

lemma page_to_token_take: "0 < ps \<Longrightarrow> take (k * ps) (page_to_token ps pages) = page_to_token ps (take k pages)"
  and page_to_token_drop: "0 < ps \<Longrightarrow> drop (k * ps) (page_to_token ps pages) = page_to_token ps (drop k pages)"
proof -
  assume ps: "0 < ps"
  have "take (k * ps) (page_to_token ps pages) = page_to_token ps (take k pages) \<and>
    drop (k * ps) (page_to_token ps pages) = page_to_token ps (drop k pages)"
  proof (cases "k \<le> length pages")
    case True
    define A where "A = page_to_token ps (take k pages)"
    define B where "B = page_to_token ps (drop k pages)"
    have "page_to_token ps pages = A @ B" unfolding A_def B_def by (simp flip: page_to_token_append)
    moreover have "length A = k * ps" using True ps by (simp add: A_def)
    ultimately show ?thesis by (simp add: A_def [symmetric] B_def [symmetric])
  next
    case False
    then have "length (page_to_token ps pages) \<le> k * ps" using ps by simp
    then show ?thesis using False by simp
  qed
  then show "take (k * ps) (page_to_token ps pages) = page_to_token ps (take k pages)"
    "drop (k * ps) (page_to_token ps pages) = page_to_token ps (drop k pages)" by simp_all
qed

lemma paged_take: "0 < ps \<Longrightarrow> paged ps vs \<Longrightarrow> ps dvd k \<Longrightarrow> paged ps (take k vs)"
  and paged_drop: "0 < ps \<Longrightarrow> paged ps vs \<Longrightarrow> ps dvd k \<Longrightarrow> paged ps (drop k vs)"
proof -
  assume ps: "0 < ps" and "paged ps vs" and "ps dvd k"
  obtain pages where v: "vs = page_to_token ps pages" and d: "\<forall>p \<in> set pages. ps dvd p"
    using \<open>paged ps vs\<close> ps by (auto simp: paged_iff)
  obtain m where "k = ps * m" using \<open>ps dvd k\<close> by (rule dvdE)
  then have e: "vs = page_to_token ps pages" "k = m * ps" using v by simp_all
  show "paged ps (take k vs)" "paged ps (drop k vs)"
    unfolding e page_to_token_take [OF ps] page_to_token_drop [OF ps]
    using ps d by (auto intro!: paged_page_to_token dest: in_set_takeD in_set_dropD)
qed

lemma paged_slice: "0 < ps \<Longrightarrow> paged ps vs \<Longrightarrow> ps dvd a \<Longrightarrow> ps dvd b \<Longrightarrow> paged ps (slice a b vs)"
  by (simp add: slice_def paged_take paged_drop)

lemma slice_append:
  assumes "a \<le> b" and "b \<le> c"
  shows "slice a b xs @ slice b c xs = slice a c xs"
proof -
  define ys where "ys = take c xs"
  have t: "take b xs = take b ys" using assms(2) by (simp add: ys_def min_def)
  have "drop a ys = drop a (take b ys @ drop b ys)" by simp
  also have "\<dots> = drop a (take b ys) @ drop (a - length (take b ys)) (drop b ys)" by (rule drop_append)
  also have "drop (a - length (take b ys)) (drop b ys) = drop b ys"
    using assms(1) by (cases "b \<le> length ys") simp_all
  finally show ?thesis by (simp add: slice_def t ys_def)
qed

lemma slice_Nil [simp]: "slice a a xs = []" "b \<le> a \<Longrightarrow> slice a b xs = []"
  by (simp_all add: slice_def)

lemma length_slice [simp]: "length (slice a b xs) = min b (length xs) - a"
  by (simp add: slice_def min.commute)

lemma slice_take: "b \<le> c \<Longrightarrow> slice a b (take c xs) = slice a b xs"
  by (simp add: slice_def min_def)

section \<open>The interface\<close>

locale prefix_cache =
  fixes inv :: "'s \<Rightarrow> 'h multiset \<Rightarrow> bool"
    and page :: "'s \<Rightarrow> nat"
    and content :: "'s \<Rightarrow> token list \<Rightarrow> slot list \<Rightarrow> bool"
    and slots :: "'s \<Rightarrow> slot multiset"
    and avail :: "'s \<Rightarrow> int"
    and valid :: "'s \<Rightarrow> 'h \<Rightarrow> token list \<Rightarrow> slot list \<Rightarrow> bool"
    and hlen :: "'h \<Rightarrow> nat"
    and find :: "int \<Rightarrow> token list \<Rightarrow> 's \<Rightarrow> err + ('s \<times> 'h)"
    and ins :: "int \<Rightarrow> int \<Rightarrow> token list \<Rightarrow> slot list \<Rightarrow> 's \<Rightarrow> err + ('s \<times> nat \<times> 'h)"
    and lock :: "'h \<Rightarrow> 's \<Rightarrow> err + 's"
    and unlock :: "'h \<Rightarrow> 's \<Rightarrow> err + 's"
    and evict_from :: "int \<Rightarrow> 's \<Rightarrow> err + ('s \<times> slot list)"
  assumes page_law: "inv s H \<Longrightarrow> 0 < page s"
    and content_law: "inv s H \<Longrightarrow> content s ts vs \<Longrightarrow> length vs = length ts \<and> page s dvd length ts"
    and content_take_law: "inv s H \<Longrightarrow> content s ts vs \<Longrightarrow> page s dvd n \<Longrightarrow> n \<le> length ts \<Longrightarrow>
      content s (take n ts) (take n vs)"
    and content_unique_law: "inv s H \<Longrightarrow> content s ts vs \<Longrightarrow> content s ts ws \<Longrightarrow> vs = ws"
    and valid_law: "inv s H \<Longrightarrow> valid s h ts vs \<Longrightarrow> hlen h = length ts \<and> content s ts vs"
    and held_law: "inv s H \<Longrightarrow> h \<in># H \<Longrightarrow> \<exists>ts vs. valid s h ts vs"
    and find_law: "inv s H \<Longrightarrow> \<exists>s' h vs. find tic ids s = Inr (s', h) \<and> inv s' H \<and> page s' = page s \<and>
      content s' = content s \<and> slots s' = slots s \<and> avail s' = avail s \<and> hlen h \<le> length ids \<and>
      valid s' h (take (hlen h) ids) vs \<and>
      (\<forall>ts ws. content s ts ws \<and> prefix ts ids \<longrightarrow> length ts \<le> hlen h) \<and>
      (\<forall>g ts ws. valid s g ts ws \<longrightarrow> valid s' g ts ws)"
    and ins_law: "inv s H \<Longrightarrow> length ids \<le> length idx \<Longrightarrow>
      \<exists>s' k h us. ins tic tic' ids idx s = Inr (s', k, h) \<and> inv s' H \<and> page s' = page s \<and>
        k \<le> hlen h \<and> hlen h \<le> length ids \<and> page s dvd k \<and> page s dvd hlen h \<and> content s (take k ids) us \<and>
        valid s' h (take (hlen h) ids) (us @ slice k (hlen h) idx) \<and>
        (\<forall>ts ws. content s ts ws \<and> prefix ts ids \<longrightarrow> length ts \<le> k) \<and>
        slots s' = slots s + mset (slice k (hlen h) idx) \<and>
        (\<forall>ts vs. content s' ts vs \<longrightarrow> content s ts vs \<or>
           (\<exists>n \<le> hlen h. page s dvd n \<and> vs = take n (us @ slice k (hlen h) idx))) \<and>
        (\<forall>g ts ws. valid s g ts ws \<longrightarrow> valid s' g ts ws)"
    and lock_law: "inv s H \<Longrightarrow> valid s h ts vs \<Longrightarrow> \<exists>s'. lock h s = Inr s' \<and> inv s' (add_mset h H) \<and>
      page s' = page s \<and> content s' = content s \<and> slots s' = slots s \<and>
      (\<forall>g ts ws. valid s g ts ws \<longrightarrow> valid s' g ts ws)"
    and unlock_law: "inv s H \<Longrightarrow> h \<in># H \<Longrightarrow> \<exists>s'. unlock h s = Inr s' \<and> inv s' (H - {#h#}) \<and>
      page s' = page s \<and> content s' = content s \<and> slots s' = slots s \<and>
      (\<forall>g ts ws. valid s g ts ws \<longrightarrow> valid s' g ts ws)"
    and evict_law: "inv s H \<Longrightarrow> 0 < sz \<Longrightarrow> sz \<le> avail s \<Longrightarrow>
      \<exists>s' vss. evict_from sz s = Inr (s', concat vss) \<and> inv s' H \<and> page s' = page s \<and>
        slots s = mset (concat vss) + slots s' \<and> sz \<le> int (length (concat vss)) \<and>
        avail s' = avail s - int (length (concat vss)) \<and>
        (\<forall>v \<in> set vss. \<exists>ts us. content s ts (us @ v) \<and> content s (take (length us) ts) us) \<and>
        (\<forall>ts vs. content s' ts vs \<longrightarrow> content s ts vs) \<and>
        (\<forall>h ts vs. h \<in># H \<and> valid s h ts vs \<longrightarrow> valid s' h ts vs)"
begin

lemma held_prefix:
  assumes i: "inv s H" and h: "h \<in># H" "valid s h (take (hlen h) ids) vs" and l: "hlen h \<le> length ids"
    and len: "length ids \<le> length idx"
    and ins: "ins tic tic' ids idx s = Inr (s', k, h')"
  shows "hlen h \<le> k"
proof -
  obtain s1 k1 h1 us where r: "ins tic tic' ids idx s = Inr (s1, k1, h1)"
    "\<forall>ts ws. content s ts ws \<and> prefix ts ids \<longrightarrow> length ts \<le> k1" using ins_law [OF i len] by blast
  have "content s (take (hlen h) ids) vs" using valid_law [OF i h(2)] by simp
  then have "length (take (hlen h) ids) \<le> k1" using r(2) by (metis take_is_prefix)
  then show ?thesis using r(1) ins l by simp
qed

text \<open>Insert, then unlock the old handle: the commit of a request.\<close>

lemma commit:
  assumes i: "inv s H" and h: "h \<in># H" "valid s h (take (hlen h) ids) vs" and l: "hlen h \<le> length ids"
    and len: "length ids \<le> length idx"
  obtains s' k h' us s'' where "ins tic tic' ids idx s = Inr (s', k, h')" "unlock h s' = Inr s''"
    "inv s'' (H - {#h#})" "page s'' = page s" "hlen h \<le> k" "k \<le> hlen h'" "hlen h' \<le> length ids"
    "page s dvd k" "page s dvd hlen h'" "length us = k" "take (hlen h) us = vs"
    "content s (take k ids) us" "valid s'' h' (take (hlen h') ids) (us @ slice k (hlen h') idx)"
    "slots s'' = slots s + mset (slice k (hlen h') idx)"
    "\<And>g ts ws. valid s g ts ws \<Longrightarrow> valid s'' g ts ws"
    "\<And>ts vs. content s'' ts vs \<Longrightarrow> content s ts vs \<or>
       (\<exists>n \<le> hlen h'. page s dvd n \<and> vs = take n (us @ slice k (hlen h') idx))"
proof -
  obtain s' k h' us where r: "ins tic tic' ids idx s = Inr (s', k, h')" "inv s' H" "page s' = page s"
    "k \<le> hlen h'" "hlen h' \<le> length ids" "page s dvd k" "page s dvd hlen h'" "content s (take k ids) us"
    "valid s' h' (take (hlen h') ids) (us @ slice k (hlen h') idx)"
    "slots s' = slots s + mset (slice k (hlen h') idx)"
    "\<And>g ts ws. valid s g ts ws \<Longrightarrow> valid s' g ts ws"
    "\<And>ts vs. content s' ts vs \<Longrightarrow> content s ts vs \<or>
       (\<exists>n \<le> hlen h'. page s dvd n \<and> vs = take n (us @ slice k (hlen h') idx))"
    using ins_law [OF i len, of tic tic'] by (elim exE conjE) blast
  obtain s'' where u: "unlock h s' = Inr s''" "inv s'' (H - {#h#})" "page s'' = page s'"
    "content s'' = content s'" "slots s'' = slots s'" "\<And>g ts ws. valid s' g ts ws \<Longrightarrow> valid s'' g ts ws"
    using unlock_law [OF r(2) h(1)] by blast
  have k: "hlen h \<le> k" by (rule held_prefix [OF i h l len r(1)])
  have lu: "length us = k" using content_law [OF i r(8)] r(4,5) by simp
  have v: "content s (take (hlen h) ids) vs" using valid_law [OF i h(2)] by simp
  have "page s dvd hlen h" using content_law [OF i v] l by simp
  then have "content s (take (hlen h) (take k ids)) (take (hlen h) us)"
    using content_take_law [OF i r(8)] k r(4,5) by simp
  then have "take (hlen h) us = vs" using content_unique_law [OF i _ v] k by simp
  then have tk: "take (hlen h) us = vs" .
  have pg: "page s'' = page s" and sl: "slots s'' = slots s + mset (slice k (hlen h') idx)"
    using r(3,10) u(3,5) by simp_all
  show ?thesis
    by (rule that [OF r(1) u(1,2) pg k r(4-7) lu tk r(8) u(6) [OF r(9)] sl u(6) [OF r(11)] r(12) [folded u(4)]])
qed

end

section \<open>The radix cache\<close>

definition radix_inv :: "radix \<Rightarrow> radix_handle multiset \<Rightarrow> bool" where
  "radix_inv s H \<longleftrightarrow> radix_ok s \<and> (\<forall>h \<in># H. handle_ok s h) \<and>
     (\<forall>n \<in> live s. n \<noteq> rtree.root s \<longrightarrow> direct s n = int (size (filter_mset (\<lambda>h. h_node h = n) H)))"

definition radix_valid :: "radix \<Rightarrow> radix_handle \<Rightarrow> token list \<Rightarrow> slot list \<Rightarrow> bool" where
  "radix_valid s h ts vs \<longleftrightarrow> handle_ok s h \<and> toks s (h_node h) = ts \<and> vals s (h_node h) = vs"

lemma radix_invD:
  assumes "radix_inv s H"
  shows "radix_ok s" "tree_wf s" "\<And>h. h \<in># H \<Longrightarrow> handle_ok s h"
    "\<And>n. n \<in> live s \<Longrightarrow> n \<noteq> rtree.root s \<Longrightarrow> direct s n = int (size (filter_mset (\<lambda>h. h_node h = n) H))"
  using assms radix_okD(1) by (auto simp: radix_inv_def)

text \<open>Handles on nodes that are not in the tree do not count.\<close>

lemma filter_fresh: "(\<And>h. h \<in># H \<Longrightarrow> h_node h \<noteq> n) \<Longrightarrow> filter_mset (\<lambda>h. h_node h = n) H = {#}"
  by (induction H) auto

lemma radix_inv_extend:
  assumes i: "radix_inv s H" and ok: "radix_ok s'" and l: "live s \<subseteq> live s'" and r: "rtree.root s' = rtree.root s"
    and o: "\<And>q. q \<in> live s \<Longrightarrow> direct s' q = direct s q \<and> toks s' q = toks s q \<and> vals s' q = vals s q"
    and n: "\<And>q. q \<in> live s' \<Longrightarrow> q \<notin> live s \<Longrightarrow> direct s' q = 0"
  shows "radix_inv s' H" "radix_valid s h ts vs \<Longrightarrow> radix_valid s' h ts vs"
proof -
  have h: "handle_ok s' h" if "handle_ok s h" for h using that l o by (auto simp: handle_ok_def)
  have "direct s' q = int (size (filter_mset (\<lambda>h. h_node h = q) H))" if q: "q \<in> live s'" "q \<noteq> rtree.root s'" for q
  proof (cases "q \<in> live s")
    case True
    then show ?thesis using radix_invD(4) [OF i True] o r q by simp
  next
    case False
    then have "filter_mset (\<lambda>h. h_node h = q) H = {#}"
      using radix_invD(3) [OF i] by (intro filter_fresh) (auto simp: handle_ok_def)
    then show ?thesis using n q False by simp
  qed
  then show "radix_inv s' H" using ok h radix_invD(3) [OF i] by (auto simp: radix_inv_def)
  show "radix_valid s h ts vs \<Longrightarrow> radix_valid s' h ts vs"
    using h o by (auto simp: radix_valid_def handle_ok_def)
qed

lemma node_piece:
  assumes wf: "tree_wf s" and n: "n \<in> live s" "n \<noteq> rtree.root s"
  shows "\<exists>ts us. cached s ts (us @ n_value (heap s n)) \<and> cached s (take (length us) ts) us"
proof -
  obtain p where p: "p \<in> live s" "toks s n = toks s p @ n_key (heap s n)" "vals s n = vals s p @ n_value (heap s n)"
    using inv_node [OF wfD [OF wf] n] by metis
  have l: "length (vals s p) = length (toks s p)" by (rule inv_len_PV [OF wfD [OF wf] p(1)])
  have "cached s (toks s n) (vals s p @ n_value (heap s n))" using cached_node [OF wf n(1)] by (simp add: p(3))
  moreover have "cached s (take (length (vals s p)) (toks s n)) (vals s p)"
    using cached_node [OF wf p(1)] by (simp add: p(2) l)
  ultimately show ?thesis by blast
qed

lemma lru_evict_pieces:
  assumes "lru_evict s vss s'" and "radix_ok s"
  shows "v \<in> set vss \<Longrightarrow> \<exists>ts us. cached s ts (us @ v) \<and> cached s (take (length us) ts) us"
  using assms
proof (induction rule: lru_evict.induct)
  case (step n s vss s')
  obtain p where p: "n_parent (heap s n) = Some p" by (rule unlocked_leaf_parent [OF step.prems(2) step.hyps(1)])
  note d = drop_leaf_ok [OF step.prems(2) step.hyps(1) p]
  have n: "n \<in> live s" "n \<noteq> rtree.root s" using step.hyps(1) by (auto simp: unlocked_leaves_def)
  show ?case
  proof (cases "v = n_value (heap s n)")
    case True
    then show ?thesis using node_piece [OF radix_okD(1) [OF step.prems(2)] n] by simp
  next
    case False
    then have "v \<in> set vss" using step.prems(1) by simp
    then show ?thesis using step.IH d(3,11) by blast
  qed
qed simp

interpretation radix_pc: prefix_cache radix_inv psize cached owned evictable_size radix_valid h_len
  match_prefix insert_prefix "\<lambda>h. lock_handle h False" "\<lambda>h. lock_handle h True" evict
proof (unfold_locales, goal_cases)
  case (1 s H)
  then show ?case using inv_psize [OF wfD [OF radix_invD(2)]] by blast
next
  case (2 s H ts vs)
  then show ?case using cached_length [OF radix_invD(2)] by (auto simp: cached_def)
next
  case (3 s H ts vs n)
  then show ?case using cached_prefix_closed [OF 3(2), of "take n ts"] by (simp add: take_is_prefix)
next
  case (4 s H ts vs ws)
  then show ?case using cached_unique [OF radix_invD(2)] by blast
next
  case (5 s H h ts vs)
  then show ?case using cached_node [OF radix_invD(2) [OF 5(1)]] by (auto simp: radix_valid_def handle_ok_def)
next
  case (6 s H h)
  then show ?case using radix_invD(3) by (auto simp: radix_valid_def)
next
  case (7 s H tic ids)
  show ?case
  proof (rule match_prefix_ok [OF radix_invD(1) [OF 7], of tic ids])
    fix s' h
    assume m: "match_prefix tic ids s = Inr (s', h)" "radix_ok s'" "grown s s'" "handle_ok s' h"
      "h_len h \<le> length ids" "toks s' (h_node h) = take (h_len h) ids"
      "\<And>ts vs. cached s ts vs \<Longrightarrow> prefix ts ids \<Longrightarrow> length ts \<le> h_len h"
    note g = grownD [OF m(3)]
    have e: "radix_inv s' H" "\<And>g ts ws. radix_valid s g ts ws \<Longrightarrow> radix_valid s' g ts ws"
      by (rule radix_inv_extend [OF 7 m(2) g(1,2)], use g in auto)+
    show ?case
      using m e g(3-5) radix_fields(1) [OF g(6)]
      by (intro exI [of _ s'] exI [of _ h] exI [of _ "vals s' (h_node h)"]) (auto simp: radix_valid_def)
  qed
next
  case (8 s H ids idx tic tic')
  define il where "il = align_down_nat (length ids) (psize s)"
  show ?case
  proof (rule insert_prefix_ok [OF radix_invD(1) [OF 8(1)] 8(2), of tic tic'], fold il_def)
    fix s' k h us
    assume m: "insert_prefix tic tic' ids idx s = Inr (s', k, h)" "radix_ok s'" "handle_ok s' h" "h_len h = il"
      "toks s' (h_node h) = take il ids" "k \<le> il" "psize s dvd k" "cached s (take k ids) us"
      "vals s' (h_node h) = us @ drop k (take il idx)"
      "\<And>ts vs. cached s ts vs \<Longrightarrow> prefix ts (take il ids) \<Longrightarrow> length ts \<le> k"
      "owned s' = owned s + mset (drop k (take il idx))" "live s \<subseteq> live s'" "rtree.root s' = rtree.root s" "psize s' = psize s"
      "\<And>q. q \<in> live s \<Longrightarrow> direct s' q = direct s q \<and> toks s' q = toks s q \<and> vals s' q = vals s q"
      "\<And>q. q \<in> live s' \<Longrightarrow> q \<notin> live s \<Longrightarrow> direct s' q = 0"
      "\<And>ts vs. cached s' ts vs \<longleftrightarrow> cached s ts vs \<or>
         (psize s dvd length ts \<and> prefix ts (take il ids) \<and> vs = take (length ts) (us @ drop k (take il idx)))"
    have e: "radix_inv s' H" "\<And>g ts ws. radix_valid s g ts ws \<Longrightarrow> radix_valid s' g ts ws"
      by (rule radix_inv_extend [OF 8(1) m(2,12,13)], use m(15,16) in auto)+
    have long: "length ts \<le> k" if "cached s ts ws" "prefix ts ids" for ts ws
    proof -
      have "psize s dvd length ts" using that(1) by (simp add: cached_def)
      then have "length ts \<le> il"
        using prefix_length_le [OF that(2)] align_down_nat_mono [of "length ts" "length ids" "psize s"]
        by (simp add: il_def align_simps)
      then have "prefix ts (take il ids)"
        using that(2) by (metis prefix_def prefix_length_prefix take_is_prefix length_take min.absorb2
            align_down_nat_le il_def)
      then show ?thesis by (rule m(10) [OF that(1)])
    qed
    have sl: "slice k il idx = drop k (take il idx)" by (simp add: slice_def)
    have new: "cached s ts vs \<or> (\<exists>n \<le> il. psize s dvd n \<and> vs = take n (us @ drop k (take il idx)))"
      if "cached s' ts vs" for ts vs
      using that m(17) [of ts vs] by (auto dest!: prefix_length_le simp: il_def)
    have "psize s dvd il" "il \<le> length ids" by (simp_all add: il_def)
    then show ?case
      using m(1-9,11,14) e long new
      by (intro exI [of _ s'] exI [of _ k] exI [of _ h] exI [of _ us] conjI allI impI)
        (auto simp: sl radix_valid_def)
  qed
next
  case (9 s H h ts vs)
  have n: "h_node h \<in> live s" using 9(2) by (simp add: radix_valid_def handle_ok_def)
  show ?case
  proof (rule lock_handle_ok [OF radix_invD(1) [OF 9(1)] n])
    fix s'
    assume m: "lock_handle h False s = Inr s'" "radix_ok s'" "kept s s'"
      "\<And>n. n \<in> live s \<Longrightarrow> n \<noteq> rtree.root s \<Longrightarrow> direct s' n = direct s n + (if n = h_node h then 1 else 0)"
    have k: "live s' = live s" "rtree.root s' = rtree.root s" "psize s' = psize s" "cached s' = cached s" "owned s' = owned s"
      "\<And>q. q \<in> live s \<Longrightarrow> toks s' q = toks s q \<and> vals s' q = vals s q" using m(3) by (auto simp: kept_def)
    have ho: "handle_ok s' g" if "handle_ok s g" for g using that k by (auto simp: handle_ok_def)
    have "radix_inv s' (add_mset h H)"
      unfolding radix_inv_def using m(2,4) k ho radix_invD(3,4) [OF 9(1)] 9(2) by (auto simp: radix_valid_def)
    moreover have "radix_valid s' g ts ws" if "radix_valid s g ts ws" for g ts ws
      using that ho k(6) by (auto simp: radix_valid_def handle_ok_def)
    ultimately show ?case using m(1) k by blast
  qed
next
  case (10 s H h)
  have ho: "handle_ok s h" by (rule radix_invD(3) [OF 10])
  then have n: "h_node h \<in> live s" by (simp add: handle_ok_def)
  have pos: "h_node h \<noteq> rtree.root s \<longrightarrow> 0 < direct s (h_node h)"
    using radix_invD(4) [OF 10(1) n] 10(2) by (auto simp: nonempty_has_size [symmetric] filter_mset_eq_conv)
  show ?case
  proof (rule unlock_handle_ok [OF radix_invD(1) [OF 10(1)] n pos])
    fix s'
    assume m: "lock_handle h True s = Inr s'" "radix_ok s'" "kept s s'"
      "\<And>n. n \<in> live s \<Longrightarrow> n \<noteq> rtree.root s \<Longrightarrow> direct s' n = direct s n - (if n = h_node h then 1 else 0)"
    have k: "live s' = live s" "rtree.root s' = rtree.root s" "psize s' = psize s" "cached s' = cached s" "owned s' = owned s"
      "\<And>q. q \<in> live s \<Longrightarrow> toks s' q = toks s q \<and> vals s' q = vals s q" using m(3) by (auto simp: kept_def)
    have hk: "handle_ok s' g" if "handle_ok s g" for g using that k by (auto simp: handle_ok_def)
    obtain H' where H': "H = add_mset h H'" using 10(2) by (rule mset_add)
    have "radix_inv s' H'"
      unfolding radix_inv_def using m(2,4) k hk radix_invD(3,4) [OF 10(1)] by (auto simp: H')
    moreover have "radix_valid s' g ts ws" if "radix_valid s g ts ws" for g ts ws
      using that hk k(6) by (auto simp: radix_valid_def handle_ok_def)
    ultimately show ?case using m(1) k by (auto simp: H')
  qed
next
  case (11 s H sz)
  show ?case
  proof (rule evict_ok [OF radix_invD(1) [OF 11(1)] 11(2,3)])
    fix s' vss
    assume m: "evict sz s = Inr (s', concat vss)" "lru_evict s vss s'" "sz \<le> int (length (concat vss))"
    note l = lru_evict_ok [OF m(2) radix_invD(1) [OF 11(1)]]
    have stay: "h_node h \<in> live s'" if h: "h \<in># H" for h
    proof (rule ccontr)
      assume "h_node h \<notin> live s'"
      moreover have n: "h_node h \<in> live s" using radix_invD(3) [OF 11(1) h] by (simp add: handle_ok_def)
      ultimately have r: "n_ref (heap s (h_node h)) = 0" "h_node h \<noteq> rtree.root s" using l(10) by blast+
      have "direct s (h_node h) \<le> 0"
        using direct_le_ref [OF radix_invD(2) [OF 11(1)] radix_okD(3) [OF radix_invD(1) [OF 11(1)]] n] r(1) by simp
      moreover have "direct s (h_node h) = int (size (filter_mset (\<lambda>g. h_node g = h_node h) H))"
        by (rule radix_invD(4) [OF 11(1) n r(2)])
      moreover have "h \<in># filter_mset (\<lambda>g. h_node g = h_node h) H" using h by simp
      ultimately show False by (metis empty_iff nat_int nat_le_0 set_mset_empty size_eq_0_iff_empty)
    qed
    have keep: "radix_valid s' h ts vs" if "h \<in># H" "radix_valid s h ts vs" for h ts vs
      using that stay l(9) by (auto simp: radix_valid_def handle_ok_def)
    have "radix_inv s' H"
      unfolding radix_inv_def
    proof (intro conjI ballI impI)
      show "radix_ok s'" by (rule l(1))
      show "handle_ok s' h" if "h \<in># H" for h
        using radix_invD(3) [OF 11(1) that] stay [OF that] l(9) by (auto simp: handle_ok_def)
      show "direct s' n = int (size (filter_mset (\<lambda>h. h_node h = n) H))" if "n \<in> live s'" "n \<noteq> rtree.root s'" for n
        using radix_invD(4) [OF 11(1)] l(3,4) l(9) [OF that(1)] that by auto
    qed
    then show ?case
      using m(1,3) l(2,5,6,8) lru_evict_pieces [OF m(2) radix_invD(1) [OF 11(1)]] keep
      by (intro exI [of _ s'] exI [of _ vss] conjI ballI allI impI) (blast | simp)+
  qed
qed

section \<open>The naive cache\<close>

text \<open>The state of the naive cache is the page size alone; its handle is the empty one.\<close>

definition naive_match :: "int \<Rightarrow> token list \<Rightarrow> nat \<Rightarrow> err + (nat \<times> unit)" where
  "naive_match tic ids s = Inr (s, ())"

definition naive_insert :: "int \<Rightarrow> int \<Rightarrow> token list \<Rightarrow> slot list \<Rightarrow> nat \<Rightarrow> err + (nat \<times> nat \<times> unit)" where
  "naive_insert tic tic' ids idx s = Inr (s, 0, ())"

definition naive_lock :: "unit \<Rightarrow> nat \<Rightarrow> err + nat" where
  "naive_lock h s = Inr s"

interpretation naive_pc: prefix_cache "\<lambda>s H. 0 < s" id "\<lambda>s ts vs. ts = [] \<and> vs = []" "\<lambda>s. {#}" "\<lambda>s. 0"
  "\<lambda>s h ts vs. ts = [] \<and> vs = []" "\<lambda>h. 0" naive_match naive_insert naive_lock naive_lock
  "\<lambda>sz s. and_then (naive_evict sz) (\<lambda>vs. Inr (s, vs))"
  by unfold_locales (auto simp: naive_match_def naive_insert_def naive_lock_def)

end
