(* ===== verification/Python_Numbers.thy ===== *)
theory Python_Numbers
  imports Complex_Main
begin

text \<open>
  Python's conversions from floats, on exact rationals: \<open>int\<close> truncates towards zero, \<open>round\<close> rounds
  halves to even.
\<close>

definition py_int :: "rat \<Rightarrow> int" where
  "py_int x = (if 0 \<le> x then \<lfloor>x\<rfloor> else \<lceil>x\<rceil>)"

definition py_round :: "rat \<Rightarrow> int" where
  "py_round x =
     (let f = \<lfloor>x\<rfloor>; d = x - of_int f in
      if d < 1 / 2 then f else if d > 1 / 2 then f + 1 else if even f then f else f + 1)"

end
