(* ===== verification/Kv_Sizing.thy ===== *)
theory Kv_Sizing
  imports Swa_Pool Python_Numbers
begin

text \<open>
  Memory arithmetic done before any buffer exists: the byte cost of each KV pool family and
  the page count that fits (\<^verbatim>\<open>kvcache/base.py\<close>, \<^verbatim>\<open>kvcache/mha_pool.py\<close>,
  \<^verbatim>\<open>kvcache/hybrid_swa_pool.py\<close>), and the split of a byte budget between expert slots and KV
  pages (\<^verbatim>\<open>engine/cache_budget.py\<close>). Float ratios are exact rationals here.
\<close>

section \<open>Configuration\<close>

record kv_spec =
  ks_mla :: bool
  ks_head_dim :: int
  ks_kv_heads :: int
  ks_num_layers :: int
  ks_index_head_dim :: int
  ks_num_index_layers :: int
  ks_is_swa :: bool
  ks_window :: int

record kv_config =
  cf_tp_size :: int
  cf_itemsize :: int
  cf_page_size :: int
  cf_max_running :: int
  cf_max_forward_len :: int
  cf_swa_radix :: bool
  cf_swa_ratio :: rat
  cf_swa_override :: "int option"
  cf_num_page_override :: "int option"
  cf_ckpt :: bool
  cf_interval :: int
  cf_memory_ratio :: rat
  cf_specs :: "kv_spec list"

fun sum_err :: "(err + int) list \<Rightarrow> err + int" where
  "sum_err [] = Inr 0"
| "sum_err (x # xs) = and_then x (\<lambda>a. and_then (sum_err xs) (\<lambda>b. Inr (a + b)))"

section \<open>Pool families\<close>

definition spec_kv_bytes_per_token :: "kv_spec \<Rightarrow> kv_config \<Rightarrow> err + int" where
  "spec_kv_bytes_per_token sp cf =
     and_then (div_even (ks_kv_heads sp) (cf_tp_size cf) True) (\<lambda>heads.
     let per_token = (if ks_mla sp then 1 else 2) * ks_head_dim sp * heads * cf_itemsize cf * ks_num_layers sp in
     Inr (per_token + ks_index_head_dim sp * ks_num_index_layers sp * 2))"

definition mha_kv_cost :: "kv_config \<Rightarrow> err + (int \<times> int \<times> int \<times> int)" where
  "mha_kv_cost cf =
     and_then (sum_err (map (\<lambda>sp. spec_kv_bytes_per_token sp cf) (filter (\<lambda>sp. \<not> ks_is_swa sp) (cf_specs cf))))
       (\<lambda>per_token. Inr (per_token * cf_page_size cf, 0, cf_page_size cf, 0))"

definition mla_kv_cost :: "kv_config \<Rightarrow> err + (int \<times> int \<times> int \<times> int)" where
  "mla_kv_cost cf =
     and_then (sum_err (map (\<lambda>sp. spec_kv_bytes_per_token sp cf) (cf_specs cf)))
       (\<lambda>per_token. Inr (per_token * cf_page_size cf, 0, cf_page_size cf, 0))"

definition retain_gap :: int where
  "retain_gap = 16"

text \<open>\<open>next(...)\<close> on an empty generator raises \<open>StopIteration\<close>, which nothing here catches.\<close>

definition swa_per_req_swa_floor :: "kv_config \<Rightarrow> err + int" where
  "swa_per_req_swa_floor cf =
     (case filter ks_is_swa (cf_specs cf) of
        [] \<Rightarrow> Inl StopIteration
      | g # _ \<Rightarrow>
          (let window = ks_window g; ps = cf_page_size cf;
               locked = ((window + retain_gap + ps - 1) div ps) * ps;
               base = locked + window + cf_interval cf + 2 * ps in
           Inr (if cf_ckpt cf then base + window + retain_gap + cf_interval cf else base)))"

definition swa_pool_floor :: "kv_config \<Rightarrow> err + int" where
  "swa_pool_floor cf = and_then (swa_per_req_swa_floor cf) (\<lambda>f. Inr (cf_max_running cf * f))"

definition naive_swa_num_tokens :: "kv_config \<Rightarrow> err + int" where
  "naive_swa_num_tokens cf =
     (case filter ks_is_swa (cf_specs cf) of
        [] \<Rightarrow> Inl AssertionError
      | g # _ \<Rightarrow>
          (let width = align_ceil (ks_window g + cf_max_forward_len cf + 1) 32 in
           Inr ((cf_max_running cf + 1) * width)))"

definition swa_paged_num_tokens :: "kv_config \<Rightarrow> int \<Rightarrow> int option \<Rightarrow> err + int" where
  "swa_paged_num_tokens cf num_full_pages num_swa_pages =
     and_then (swa_pool_floor cf) (\<lambda>fl.
     case (case num_swa_pages of Some n \<Rightarrow> Some n | None \<Rightarrow> cf_swa_override cf) of
       Some ov \<Rightarrow> Inr (max fl ov + 1)
     | None \<Rightarrow>
         (let full_tokens = num_full_pages * cf_page_size cf in
          Inr (max fl (py_int (cf_swa_ratio cf * of_int full_tokens)) + 1)))"

text \<open>One group's contribution to \<open>(cache_per_page, fixed_cache_size)\<close> in \<open>HybridSWAKVCache.kv_cost\<close>.\<close>

definition hybrid_group_cost :: "kv_config \<Rightarrow> int option \<Rightarrow> kv_spec \<Rightarrow> err + (int \<times> int)" where
  "hybrid_group_cost cf swa_pin sp =
     and_then (spec_kv_bytes_per_token sp cf) (\<lambda>per_token.
     if \<not> ks_is_swa sp then Inr (per_token * cf_page_size cf, 0)
     else
       (let mapping = 8 * cf_page_size cf in
        if \<not> cf_swa_radix cf then
          and_then (naive_swa_num_tokens cf) (\<lambda>n. Inr (mapping, per_token * n))
        else (case swa_pin of
          Some pin \<Rightarrow> and_then (swa_pool_floor cf) (\<lambda>fl. Inr (mapping, per_token * (max fl pin + 1)))
        | None \<Rightarrow> and_then (swa_pool_floor cf) (\<lambda>fl.
            Inr (mapping + py_int (of_int (per_token * cf_page_size cf) * cf_swa_ratio cf), per_token * fl)))))"

fun sum_pairs :: "(err + (int \<times> int)) list \<Rightarrow> err + (int \<times> int)" where
  "sum_pairs [] = Inr (0, 0)"
| "sum_pairs (x # xs) =
     and_then x (\<lambda>(a, b). and_then (sum_pairs xs) (\<lambda>(c, d). Inr (a + c, b + d)))"

definition hybrid_kv_cost :: "kv_config \<Rightarrow> int option \<Rightarrow> err + (int \<times> int \<times> int \<times> int)" where
  "hybrid_kv_cost cf num_swa_pages =
     (let swa_pin = (case num_swa_pages of Some n \<Rightarrow> Some n | None \<Rightarrow> cf_swa_override cf) in
      and_then (sum_pairs (map (hybrid_group_cost cf swa_pin) (cf_specs cf)))
        (\<lambda>(per_page, fixed). Inr (per_page, fixed, cf_page_size cf, 0)))"

section \<open>Solving and validating a page count\<close>

definition solve_num_pages :: "int \<times> int \<times> int \<times> int \<Rightarrow> kv_config \<Rightarrow> int \<Rightarrow> err + int" where
  "solve_num_pages cost cf available =
     (case cost of (per_page, fixed, _, _) \<Rightarrow>
       (let n = (case cf_num_page_override cf of Some k \<Rightarrow> k | None \<Rightarrow> (available - fixed) div per_page) in
        if n > 1 then Inr n else Inl AssertionError))"

definition min_kv_tokens :: "kv_config \<Rightarrow> int" where
  "min_kv_tokens cf = cf_page_size cf"

definition net_cache_budget_bytes :: "rat \<Rightarrow> int \<Rightarrow> int \<Rightarrow> int \<Rightarrow> int" where
  "net_cache_budget_bytes memory_ratio baseline_free weights_bytes fixed_cache_size =
     py_int (memory_ratio * of_int baseline_free) - weights_bytes - fixed_cache_size"

definition required_bytes :: "int \<Rightarrow> int \<Rightarrow> int \<Rightarrow> int \<Rightarrow> int" where
  "required_bytes moe_cache_size num_pages per_expert_bytes cache_per_page =
     moe_cache_size * per_expert_bytes + num_pages * cache_per_page"

definition validate_rebuild ::
  "int \<times> int \<times> int \<times> int \<Rightarrow> kv_config \<Rightarrow> int option \<Rightarrow> int \<Rightarrow> int \<Rightarrow> int \<Rightarrow> int \<Rightarrow> int \<Rightarrow> int \<Rightarrow> err + unit"
where
  "validate_rebuild cost cf num_pages target_moe per_expert baseline weights current extra_fixed =
     (case cost of (per_page, fixed, _, _) \<Rightarrow>
       (let target = (case num_pages of Some n \<Rightarrow> n | None \<Rightarrow> current);
            budget = net_cache_budget_bytes (cf_memory_ratio cf) baseline weights (fixed + extra_fixed);
            need = required_bytes target_moe target per_expert per_page in
        if need > budget then Inl CacheRebuildRejected else Inr ()))"

section \<open>The split between experts and KV pages\<close>

definition plan_cache_budget ::
  "int \<Rightarrow> int \<Rightarrow> int \<Rightarrow> int \<Rightarrow> int \<Rightarrow> bool \<Rightarrow> int \<Rightarrow> int \<Rightarrow> err + (int \<times> int \<times> bool)" where
  "plan_cache_budget budget per_expert per_page num_experts total_experts prefill_overlap reserve_pages max_slots =
     and_then (check (per_expert > 0) AssertionError) (\<lambda>_.
     and_then (check (per_page > 0) AssertionError) (\<lambda>_.
     let hi = min total_experts max_slots;
         overlap0 = (prefill_overlap \<and> hi \<ge> 2 * num_experts);
         lo = (if overlap0 then 2 * num_experts else num_experts) in
     and_then (check (hi \<ge> lo) AssertionError) (\<lambda>_.
     let reserve_bytes = reserve_pages * per_page;
         raw = (budget - reserve_bytes) div per_expert;
         moe = max lo (min raw hi);
         overlap = (overlap0 \<and> moe \<ge> 2 * num_experts);
         remaining = budget - moe * per_expert;
         pages = max (remaining div per_page) reserve_pages;
         tot = moe * per_expert + pages * per_page in
     and_then (check (tot \<le> budget) AssertionError) (\<lambda>_.
     and_then (check (pages > 1) AssertionError) (\<lambda>_.
     Inr (moe, pages, overlap))))))"

definition resolve_moe_cache_auto ::
  "int \<Rightarrow> int \<Rightarrow> rat \<Rightarrow> int \<Rightarrow> int \<Rightarrow> int \<Rightarrow> int \<Rightarrow> int \<Rightarrow> bool \<Rightarrow> int \<Rightarrow> int \<Rightarrow> bool \<Rightarrow> err + (int \<times> int \<times> bool)"
where
  "resolve_moe_cache_auto baseline weights memory_ratio per_page fixed per_expert num_experts total_experts
     prefill_overlap reserve_tokens page_size marlin =
     (let budget = net_cache_budget_bytes memory_ratio baseline weights fixed;
          max_slots = (if marlin then 992 else total_experts);
          reserve_pages = div_ceil reserve_tokens page_size in
      plan_cache_budget budget per_expert per_page num_experts total_experts prefill_overlap reserve_pages max_slots)"

lemma clamp:
  fixes lo :: int
  assumes "x = max lo (min raw hi)" and "lo \<le> hi"
  shows "lo \<le> x" "x \<le> hi" "x < m \<Longrightarrow> m \<le> hi \<Longrightarrow> raw < m"
  using assms by auto

text \<open>\<open>tot\<close> is the source's \<open>total\<close>. What an accepted plan satisfies.\<close>

lemma plan_cache_budget_ok:
  assumes "plan_cache_budget budget per_expert per_page num_experts total_experts prefill_overlap reserve_pages max_slots
             = Inr (moe, pages, overlap)"
  defines "hi \<equiv> min total_experts max_slots"
  shows "0 < per_expert" "0 < per_page" "required_bytes moe pages per_expert per_page \<le> budget"
    "0 \<le> num_experts \<Longrightarrow> num_experts \<le> moe" "moe \<le> hi" "1 < pages" "reserve_pages \<le> pages"
    "overlap \<longrightarrow> prefill_overlap \<and> 2 * num_experts \<le> moe"
    "\<And>k. reserve_pages \<le> k \<Longrightarrow> required_bytes moe k per_expert per_page \<le> budget \<Longrightarrow> k \<le> pages"
    "\<And>m. moe < m \<Longrightarrow> m \<le> hi \<Longrightarrow> budget < required_bytes m reserve_pages per_expert per_page"
proof -
  let ?ov = "prefill_overlap \<and> hi \<ge> 2 * num_experts"
  let ?lo = "if ?ov then 2 * num_experts else num_experts"
  let ?raw = "(budget - reserve_pages * per_page) div per_expert"
  note e = assms(1) [unfolded plan_cache_budget_def Let_def hi_def [symmetric] and_then_check
      sum.inject prod.inject]
  have m: "moe = max ?lo (min ?raw hi)" using e by (elim conjE) (erule sym)
  note e = e [folded m]
  have p: "pages = max ((budget - moe * per_expert) div per_page) reserve_pages"
    using e by (elim conjE) (erule sym)
  note e = e [folded p]
  have o: "overlap = (?ov \<and> moe \<ge> 2 * num_experts)" using e by (elim conjE) (erule sym)
  have b: "per_expert > 0" "per_page > 0" "?lo \<le> hi" "moe * per_expert + pages * per_page \<le> budget"
    "pages > 1"
    using e by - (elim conjE, assumption)+
  note cl = clamp [OF m b(3)]
  show "0 < per_expert" "0 < per_page" "1 < pages" by (rule b)+
  show "required_bytes moe pages per_expert per_page \<le> budget"
    unfolding required_bytes_def by (rule b(4))
  show "num_experts \<le> moe" if "0 \<le> num_experts"
  proof -
    have "num_experts \<le> ?lo" using that by simp
    then show ?thesis using cl(1) by (rule order_trans)
  qed
  show "moe \<le> hi" by (rule cl(2))
  show "reserve_pages \<le> pages" unfolding p by simp
  show "overlap \<longrightarrow> prefill_overlap \<and> 2 * num_experts \<le> moe" using o by blast
  show "k \<le> pages" if "reserve_pages \<le> k" "required_bytes moe k per_expert per_page \<le> budget" for k
  proof -
    have "k * per_page \<le> budget - moe * per_expert" using that(2) by (simp add: required_bytes_def)
    then have "k \<le> (budget - moe * per_expert) div per_page"
      using b(2) by (metis less_imp_le mult.commute nonzero_mult_div_cancel_left order_less_irrefl zdiv_mono1)
    then show ?thesis unfolding p by simp
  qed
  show "budget < required_bytes m reserve_pages per_expert per_page" if m': "moe < m" "m \<le> hi" for m
  proof -
    have "?raw < m" by (rule cl(3) [OF m'])
    then have "?raw + 1 \<le> m" by simp
    then have "(?raw + 1) * per_expert \<le> m * per_expert" using b(1) by simp
    moreover have "budget - reserve_pages * per_page < (?raw + 1) * per_expert"
      using b(1) by (metis distrib_right mult_1 add.commute add_strict_left_mono div_mult_mod_eq pos_mod_bound)
    ultimately show ?thesis by (simp add: required_bytes_def)
  qed
qed

lemma solve_num_pages_ok:
  assumes "solve_num_pages (per_page, fixed, pt, mr) cf available = Inr n"
    and "cf_num_page_override cf = None" and "0 < per_page"
  shows "n * per_page + fixed \<le> available" "available < (n + 1) * per_page + fixed" "1 < n"
proof -
  have n: "n = (available - fixed) div per_page" "1 < n"
    using assms(1,2) by (auto simp: solve_num_pages_def Let_def split: if_splits)
  have "available - fixed = n * per_page + (available - fixed) mod per_page"
    unfolding n by simp
  moreover have "0 \<le> (available - fixed) mod per_page" "(available - fixed) mod per_page < per_page"
    using assms(3) by simp_all
  ultimately show "n * per_page + fixed \<le> available" "available < (n + 1) * per_page + fixed"
    by (simp_all add: distrib_right)
  show "1 < n" by (rule n(2))
qed

end
