(* ===== verification/Dsv4_Sizing.thy ===== *)
theory Dsv4_Sizing
  imports Kv_Sizing
begin

text \<open>
  The DSV4 cost model of \<^verbatim>\<open>kvcache/dsv4_cost_model.py\<close>: bytes per page over the window,
  compressed, indexer and state-ring tiers, the size of every tier from a page count, and the
  search for the page count a byte budget allows.
\<close>

section \<open>Geometry\<close>

record dsv4_args =
  da_head_dim :: int
  da_index_dim :: int
  da_ratios :: "int list"
  da_layers :: nat
  da_window :: int

definition ratios :: "dsv4_args \<Rightarrow> int list" where
  "ratios a = take (da_layers a) (da_ratios a)"

definition reserved_window_pages :: "int \<Rightarrow> bool \<Rightarrow> int" where
  "reserved_window_pages mr radix = 2 * (mr + 1) + (if radix then 3 * mr else 0) + 1"

definition ring_size_for_ratio :: "int \<Rightarrow> err + int" where
  "ring_size_for_ratio r = (if r = 4 then Inr 8 else if r = 128 then Inr 128 else Inl ValueError)"

definition kv_bytes :: "dsv4_args \<Rightarrow> int" where
  "kv_bytes a = da_head_dim a * 2"

definition index_bytes :: "dsv4_args \<Rightarrow> int" where
  "index_bytes a = da_index_dim a * 2"

definition state_bytes :: "dsv4_args \<Rightarrow> int \<Rightarrow> int" where
  "state_bytes a r = (let overlap = (if r = 4 then 1 else 0) in 2 * (1 + overlap) * da_head_dim a * 4)"

definition idx_state_bytes :: "dsv4_args \<Rightarrow> int" where
  "idx_state_bytes a = 2 * 2 * da_index_dim a * 4"

section \<open>Unit costs\<close>

definition layer_cost :: "dsv4_args \<Rightarrow> rat \<Rightarrow> int \<Rightarrow> int \<Rightarrow> err + int" where
  "layer_cost a swa_ratio P r =
     (let win = py_round (swa_ratio * of_int P) * kv_bytes a in
      if r = 0 then Inr win
      else and_then (ring_size_for_ratio r) (\<lambda>rs.
        Inr (win + (P div r) * kv_bytes a +
             (if r = 4 then (P div 4) * index_bytes a + py_round (swa_ratio * 8) * idx_state_bytes a else 0) +
             py_round (swa_ratio * of_int rs) * state_bytes a r)))"

definition cache_per_page :: "dsv4_args \<Rightarrow> rat \<Rightarrow> int \<Rightarrow> err + int" where
  "cache_per_page a swa_ratio P =
     and_then (check (P > 0) AssertionError) (\<lambda>_. sum_err (map (layer_cost a swa_ratio P) (ratios a)))"

definition ceil_div :: "int \<Rightarrow> int \<Rightarrow> int" where
  "ceil_div x y = - ((- x) div y)"

definition kv_unit_bytes :: "dsv4_args \<Rightarrow> int \<Rightarrow> int" where
  "kv_unit_bytes a P =
     ceil_div (P * 8 + (\<Sum>r \<leftarrow> ratios a. if r = 0 then 0
        else (P div r) * kv_bytes a + (if r = 4 then (P div 4) * index_bytes a else 0))) P"

definition window_unit_bytes :: "dsv4_args \<Rightarrow> int \<Rightarrow> err + int" where
  "window_unit_bytes a P =
     and_then (sum_err (map (\<lambda>r. if r = 0 then Inr 0
         else and_then (ring_size_for_ratio r) (\<lambda>rs.
           Inr (rs * state_bytes a r + (if r = 4 then 8 * idx_state_bytes a else 0)))) (ratios a)))
       (\<lambda>rings. Inr (ceil_div (int (length (ratios a)) * P * kv_bytes a + rings) P))"

section \<open>Pool sizes\<close>

record layer_sizes =
  ls_cmp :: "int option"
  ls_idx :: "int option"
  ls_state :: "int option"
  ls_ring :: "int option"
  ls_idx_state :: "int option"

record pool_sizes =
  ps_P :: int
  ps_full :: int
  ps_win_slots :: int
  ps_win_pages :: int
  ps_layers :: "layer_sizes list"

definition layer_size :: "int \<Rightarrow> int \<Rightarrow> int \<Rightarrow> err + layer_sizes" where
  "layer_size full win_pages r =
     (if r = 0 then Inr \<lparr>ls_cmp = None, ls_idx = None, ls_state = None, ls_ring = None, ls_idx_state = None\<rparr>
      else and_then (ring_size_for_ratio r) (\<lambda>rs.
        Inr \<lparr>ls_cmp = Some (full div r), ls_idx = (if r = 4 then Some (full div 4) else None),
             ls_state = Some (win_pages * rs), ls_ring = Some rs,
             ls_idx_state = (if r = 4 then Some (win_pages * 8) else None)\<rparr>))"

definition dsv4_pool_sizes :: "int \<Rightarrow> dsv4_args \<Rightarrow> rat \<Rightarrow> int \<Rightarrow> int option \<Rightarrow> err + pool_sizes" where
  "dsv4_pool_sizes num_pages a swa_ratio P n_win =
     (let full = num_pages * P;
          w0 = (case n_win of Some w \<Rightarrow> w
                | None \<Rightarrow> (let raw = py_round (swa_ratio * of_int full) in (raw + P - 1) div P));
          w = min w0 num_pages in
      and_then (map_err (layer_size full w) (ratios a)) (\<lambda>ls.
        Inr \<lparr>ps_P = P, ps_full = full, ps_win_slots = w * P, ps_win_pages = w, ps_layers = ls\<rparr>))"

text \<open>
  \<open>dsv4_pool_bytes\<close> on one layer. On a layer whose tier is missing the source would add \<open>None\<close>;
  \<open>layer_size\<close> never builds such a layer for the ratio it is priced with.
\<close>

definition layer_bytes :: "dsv4_args \<Rightarrow> int \<Rightarrow> int \<times> layer_sizes \<Rightarrow> int" where
  "layer_bytes a n_scratch rl = (case rl of (r, l) \<Rightarrow>
     (if r = 0 then 0
      else (the (ls_cmp l) + n_scratch) * kv_bytes a + (the (ls_state l) + 1) * state_bytes a r +
           (if r = 4 then (the (ls_idx l) + n_scratch) * index_bytes a +
                          (the (ls_idx_state l) + 1) * idx_state_bytes a else 0)))"

definition dsv4_pool_bytes :: "pool_sizes \<Rightarrow> dsv4_args \<Rightarrow> int \<Rightarrow> int" where
  "dsv4_pool_bytes sz a n_scratch =
     int (length (ratios a)) * ps_win_slots sz * kv_bytes a + (ps_full sz + 1) * 8 +
     (\<Sum>rl \<leftarrow> zip (ratios a) (ps_layers sz). layer_bytes a n_scratch rl)"

section \<open>The page search\<close>

definition sizes_at :: "dsv4_args \<Rightarrow> rat \<Rightarrow> int \<Rightarrow> int \<Rightarrow> int \<Rightarrow> err + pool_sizes" where
  "sizes_at a swa_ratio fl P num =
     (let win = max fl ((py_round (swa_ratio * of_int (num * P)) + P - 1) div P) in
      dsv4_pool_sizes num a swa_ratio P (Some win))"

definition fits :: "int \<Rightarrow> dsv4_args \<Rightarrow> rat \<Rightarrow> int \<Rightarrow> int \<Rightarrow> int \<Rightarrow> int \<Rightarrow> err + bool" where
  "fits avail a swa_ratio fl P n_scratch num =
     and_then (sizes_at a swa_ratio fl P num) (\<lambda>sz. Inr (dsv4_pool_bytes sz a n_scratch \<le> avail))"

text \<open>The doubling and the bisection, over the test \<open>fit\<close>; the fuel is proved sufficient below.\<close>

fun double_loop :: "(int \<Rightarrow> err + bool) \<Rightarrow> nat \<Rightarrow> int \<Rightarrow> err + int" where
  "double_loop fit 0 hi = Inl Diverges"
| "double_loop fit (Suc f) hi =
     and_then (fit hi) (\<lambda>b. if b then double_loop fit f (hi * 2) else Inr hi)"

fun bisect_loop :: "(int \<Rightarrow> err + bool) \<Rightarrow> nat \<Rightarrow> int \<Rightarrow> int \<Rightarrow> err + int" where
  "bisect_loop fit 0 lo hi = Inl Diverges"
| "bisect_loop fit (Suc f) lo hi =
     (if lo < hi - 1 then
        (let mid = (lo + hi) div 2 in
         and_then (fit mid) (\<lambda>b. if b then bisect_loop fit f mid hi else bisect_loop fit f lo mid))
      else Inr lo)"

definition dsv4_solve_num_pages ::
  "int \<Rightarrow> dsv4_args \<Rightarrow> rat \<Rightarrow> int \<Rightarrow> int \<Rightarrow> int \<Rightarrow> err + pool_sizes" where
  "dsv4_solve_num_pages avail a swa_ratio fl P n_scratch =
     (let fit = fits avail a swa_ratio fl P n_scratch; lo = max fl 2 in
      and_then (fit lo) (\<lambda>ok.
      if \<not> ok then Inl ValueError
      else
        and_then (cache_per_page a 0 P) (\<lambda>cpp.
        let hi0 = max lo (avail div max 1 cpp) in
        and_then (double_loop fit (Suc (nat avail)) hi0) (\<lambda>hi.
        and_then (bisect_loop fit (Suc (nat (hi - lo))) lo hi) (\<lambda>n.
        sizes_at a swa_ratio fl P n)))))"

definition auto_slack_bytes :: int where
  "auto_slack_bytes = 2 * 2 ^ 30"

definition dsv4_auto_cost_model :: "dsv4_args \<Rightarrow> rat \<Rightarrow> int \<Rightarrow> int \<Rightarrow> int \<Rightarrow> err + (int \<times> int \<times> int)" where
  "dsv4_auto_cost_model a swa_ratio fl P n_scratch =
     and_then (cache_per_page a swa_ratio P) (\<lambda>cpp.
     let per_page = cpp + P * 8; n0 = max fl 2;
         win0 = max fl ((py_round (swa_ratio * of_int (n0 * P)) + P - 1) div P) in
     and_then (dsv4_pool_sizes n0 a swa_ratio P (Some win0)) (\<lambda>sz.
     let base = dsv4_pool_bytes sz a n_scratch;
         slack_pages = ceil_div auto_slack_bytes per_page in
     Inr (per_page, max 0 (base - n0 * per_page), (n0 + slack_pages) * P)))"

section \<open>Configuration-facing sizing\<close>

definition window_floor_pages :: "int \<Rightarrow> int \<Rightarrow> bool \<Rightarrow> int \<Rightarrow> int" where
  "window_floor_pages max_seq_len max_running naive P =
     (let reach = (max_seq_len + P - 1) div P in
      min reach 8 + reserved_window_pages max_running (\<not> naive))"

text \<open>\<open>force\<close> is the environment variable \<^verbatim>\<open>DSV4_FORCE_SMALL_POOL\<close>.\<close>

definition config_pool_sizes ::
  "dsv4_args \<Rightarrow> rat \<Rightarrow> int \<Rightarrow> int \<Rightarrow> bool \<Rightarrow> int option \<Rightarrow> int option \<Rightarrow> int \<Rightarrow> int option \<Rightarrow> err + pool_sizes"
where
  "config_pool_sizes a swa_ratio max_seq_len max_running naive swa_override force num_pages num_swa_pages =
     (let P = da_window a in
      case force of
        Some k \<Rightarrow> dsv4_pool_sizes (max 2 k) a swa_ratio P None
      | None \<Rightarrow>
          (let fl = window_floor_pages max_seq_len max_running naive P;
               target = (case num_swa_pages of Some t \<Rightarrow> Some t | None \<Rightarrow> swa_override);
               win = (case target of
                        Some t \<Rightarrow> min num_pages (max fl (t + 1))
                      | None \<Rightarrow> max fl ((py_round (swa_ratio * of_int (num_pages * P)) + P - 1) div P)) in
           dsv4_pool_sizes num_pages a swa_ratio P (Some win)))"

section \<open>The search finds a maximal fit\<close>

text \<open>Every page count that fits is at most \<open>avail\<close>, so the doubling stops within its fuel.\<close>

lemma double_loop_ok:
  assumes "\<And>n. lb \<le> n \<Longrightarrow> \<exists>b. fit n = Inr b" and "\<And>n. lb \<le> n \<Longrightarrow> fit n = Inr True \<Longrightarrow> n \<le> avail"
    and "lb \<le> hi" and "0 < hi" and "avail < hi + int f"
  shows "\<exists>h. double_loop fit (Suc f) hi = Inr h \<and> hi \<le> h \<and> fit h = Inr False"
  using assms(3-)
proof (induction f arbitrary: hi)
  case 0
  obtain b where b: "fit hi = Inr b" using assms(1) [OF 0(1)] by blast
  have "\<not> b" using assms(2) [OF 0(1)] b 0(3) by fastforce
  then show ?case using b by simp
next
  case (Suc f)
  obtain b where b: "fit hi = Inr b" using assms(1) [OF Suc.prems(1)] by blast
  show ?case
  proof (cases b)
    case True
    have "\<exists>h. double_loop fit (Suc f) (hi * 2) = Inr h \<and> hi * 2 \<le> h \<and> fit h = Inr False"
      using Suc.prems by (intro Suc.IH) auto
    then obtain h where h: "double_loop fit (Suc f) (hi * 2) = Inr h" "hi * 2 \<le> h" "fit h = Inr False"
      by blast
    have "double_loop fit (Suc (Suc f)) hi = Inr h"
      using b True h(1) by (simp del: double_loop.simps add: double_loop.simps(2) [of fit "Suc f" hi])
    then show ?thesis using h(2,3) Suc.prems(2) by (intro exI [of _ h]) auto
  next
    case False
    then show ?thesis using b by simp
  qed
qed

lemma bisect_loop_ok:
  assumes "\<And>n. lb \<le> n \<Longrightarrow> \<exists>b. fit n = Inr b" and "lb \<le> lo"
    and "fit lo = Inr True" and "fit hi = Inr False" and "lo < hi" and "hi - lo \<le> int f"
  shows "\<exists>n. bisect_loop fit f lo hi = Inr n \<and> lo \<le> n \<and> fit n = Inr True \<and> fit (n + 1) = Inr False"
  using assms(2-)
proof (induction f arbitrary: lo hi)
  case 0
  then show ?case by simp
next
  case (Suc f)
  show ?case
  proof (cases "lo < hi - 1")
    case False
    then have "hi = lo + 1" using Suc.prems(4) by simp
    then show ?thesis using Suc.prems by simp
  next
    case True
    let ?mid = "(lo + hi) div 2"
    have m: "lo < ?mid" "?mid < hi" using True by simp_all
    obtain b where b: "fit ?mid = Inr b" using assms(1) [of ?mid] Suc.prems(1) m by fastforce
    have "\<exists>n. bisect_loop fit f (if b then ?mid else lo) (if b then hi else ?mid) = Inr n \<and>
        (if b then ?mid else lo) \<le> n \<and> fit n = Inr True \<and> fit (n + 1) = Inr False"
    proof (rule Suc.IH)
      show "lb \<le> (if b then ?mid else lo)" using Suc.prems(1) m by simp
      show "fit (if b then ?mid else lo) = Inr True" using b Suc.prems(2) by simp
      show "fit (if b then hi else ?mid) = Inr False" using b Suc.prems(3) by simp
      show "(if b then ?mid else lo) < (if b then hi else ?mid)" using m by simp
      show "(if b then hi else ?mid) - (if b then ?mid else lo) \<le> int f"
        using m Suc.prems(5) by (cases b) auto
    qed
    then obtain n where n: "bisect_loop fit f (if b then ?mid else lo) (if b then hi else ?mid) = Inr n"
      "(if b then ?mid else lo) \<le> n" "fit n = Inr True" "fit (n + 1) = Inr False" by blast
    have "bisect_loop fit (Suc f) lo hi = Inr n" using True b n(1) by (cases b) (auto simp: Let_def)
    then show ?thesis using n(2-) m(1) by (intro exI [of _ n]) (auto split: if_splits)
  qed
qed

text \<open>The arguments a model configuration has: only the ratios 0, 4 and 128 occur.\<close>

definition args_ok :: "dsv4_args \<Rightarrow> bool" where
  "args_ok a \<longleftrightarrow> 0 \<le> da_head_dim a \<and> 0 \<le> da_index_dim a \<and> set (ratios a) \<subseteq> {0, 4, 128}"

lemma ring_size_ok: "r \<in> {0, 4, 128} \<Longrightarrow> r \<noteq> 0 \<Longrightarrow> \<exists>k. ring_size_for_ratio r = Inr k \<and> 0 < k"
  by (auto simp: ring_size_for_ratio_def)

lemma sum_err_ok: "(\<And>x. x \<in> set xs \<Longrightarrow> \<exists>y. x = Inr y) \<Longrightarrow> \<exists>y. sum_err xs = Inr y"
  by (induction xs) (auto, metis and_then_simps(2))

lemma layer_size_ok: "r \<in> {0, 4, 128} \<Longrightarrow> \<exists>l. layer_size full w r = Inr l"
  using ring_size_ok [of r] by (auto simp: layer_size_def)

lemma pool_sizes_ok:
  assumes "args_ok a"
  obtains sz where "dsv4_pool_sizes num a swa_ratio P (Some w) = Inr sz" "ps_full sz = num * P"
    "ps_win_pages sz = min w num" "ps_win_slots sz = min w num * P"
    "\<And>p. p \<in> set (zip (ratios a) (ps_layers sz)) \<Longrightarrow> layer_size (num * P) (min w num) (fst p) = Inr (snd p)"
    "length (ps_layers sz) = length (ratios a)"
proof -
  have "\<exists>ls. map_err (layer_size (num * P) (min w num)) (ratios a) = Inr ls"
    using assms by (intro map_err_ok layer_size_ok) (auto simp: args_ok_def)
  then obtain ls where ls: "map_err (layer_size (num * P) (min w num)) (ratios a) = Inr ls" by blast
  show ?thesis
    by (rule that [of "\<lparr>ps_P = P, ps_full = num * P, ps_win_slots = min w num * P,
          ps_win_pages = min w num, ps_layers = ls\<rparr>"])
       (use ls map_err_zip [OF ls] in \<open>auto simp: dsv4_pool_sizes_def Let_def\<close>)
qed

lemma layer_bytes_nonneg:
  assumes "args_ok a" "0 \<le> full" "0 \<le> w" "0 \<le> n_scratch" "layer_size full w r = Inr l"
  shows "0 \<le> layer_bytes a n_scratch (r, l)"
proof (cases "r = 0")
  case True
  then show ?thesis by (simp add: layer_bytes_def)
next
  case False
  then obtain rs where rs: "ring_size_for_ratio r = Inr rs" "0 < rs" "0 < r"
    using assms(5) by (auto simp: layer_size_def ring_size_for_ratio_def split: if_splits)
  have "0 \<le> full div r" "0 \<le> full div 4" "0 \<le> w * rs"
    using assms(2,3) rs(2,3) by (simp_all add: pos_imp_zdiv_nonneg_iff)
  then show ?thesis
    using False assms rs(1) by (auto simp: layer_bytes_def layer_size_def args_ok_def kv_bytes_def index_bytes_def
        state_bytes_def idx_state_bytes_def Let_def)
qed

lemma fits_ok:
  assumes a: "args_ok a" and P: "0 < P" and sc: "0 \<le> n_scratch" and fl: "0 \<le> fl" and n: "0 < n"
  obtains sz where "sizes_at a swa_ratio fl P n = Inr sz"
    "fits avail a swa_ratio fl P n_scratch n = Inr (dsv4_pool_bytes sz a n_scratch \<le> avail)"
    "n \<le> dsv4_pool_bytes sz a n_scratch" "ps_full sz = n * P" "min fl n \<le> ps_win_pages sz"
proof -
  let ?w = "max fl ((py_round (swa_ratio * of_int (n * P)) + P - 1) div P)"
  from pool_sizes_ok [OF a, of n swa_ratio P ?w] obtain sz where
    z: "dsv4_pool_sizes n a swa_ratio P (Some ?w) = Inr sz" "ps_full sz = n * P"
      "ps_win_pages sz = min ?w n" "ps_win_slots sz = min ?w n * P"
      "\<And>p. p \<in> set (zip (ratios a) (ps_layers sz)) \<Longrightarrow> layer_size (n * P) (min ?w n) (fst p) = Inr (snd p)"
    by blast
  have w: "0 \<le> min ?w n" using fl n by simp
  have np: "0 \<le> n * P" using n P by simp
  have "0 \<le> layer_bytes a n_scratch rl" if "rl \<in> set (zip (ratios a) (ps_layers sz))" for rl
    using layer_bytes_nonneg [OF a np w sc z(5) [OF that]] by simp
  then have s: "0 \<le> (\<Sum>rl \<leftarrow> zip (ratios a) (ps_layers sz). layer_bytes a n_scratch rl)"
    by (intro sum_list_nonneg) auto
  have k: "0 \<le> int (length (ratios a)) * ps_win_slots sz * kv_bytes a"
    using w P a unfolding z(4) by (simp add: args_ok_def kv_bytes_def)
  define q where "q = n * P"
  have "n * 1 \<le> n * P" using n P by (intro mult_left_mono) auto
  then have "n \<le> q" by (simp only: q_def mult_1_right)
  then have "n \<le> (ps_full sz + 1) * 8" using n unfolding z(2) q_def [symmetric] by simp
  then have "n \<le> dsv4_pool_bytes sz a n_scratch" using s k by (simp add: dsv4_pool_bytes_def)
  moreover have e: "sizes_at a swa_ratio fl P n = Inr sz" using z(1) by (simp add: sizes_at_def Let_def)
  moreover have "fits avail a swa_ratio fl P n_scratch n = Inr (dsv4_pool_bytes sz a n_scratch \<le> avail)"
    using e by (simp add: fits_def)
  moreover have "min fl n \<le> ps_win_pages sz" unfolding z(3) by (intro min.mono) auto
  ultimately show ?thesis using that z(2) by blast
qed

lemma dsv4_solve_ok:
  assumes a: "args_ok a" and P: "0 < P" and sc: "0 \<le> n_scratch" and fl: "0 \<le> fl"
  shows "(\<exists>n sz sz'. max fl 2 \<le> n \<and> dsv4_solve_num_pages avail a swa_ratio fl P n_scratch = Inr sz \<and>
            sizes_at a swa_ratio fl P n = Inr sz \<and> dsv4_pool_bytes sz a n_scratch \<le> avail \<and>
            sizes_at a swa_ratio fl P (n + 1) = Inr sz' \<and> avail < dsv4_pool_bytes sz' a n_scratch) \<or>
         (\<exists>sz. dsv4_solve_num_pages avail a swa_ratio fl P n_scratch = Inl ValueError \<and>
            sizes_at a swa_ratio fl P (max fl 2) = Inr sz \<and> avail < dsv4_pool_bytes sz a n_scratch)"
proof -
  define fit where "fit = fits avail a swa_ratio fl P n_scratch"
  define lo where "lo = max fl 2"
  have lo: "0 < lo" "2 \<le> lo" by (simp_all add: lo_def)
  have tot: "\<exists>b. fit n = Inr b" if "lo \<le> n" for n
    using fits_ok [OF a P sc fl, of n swa_ratio avail] that lo unfolding fit_def
    by (metis less_le_trans)
  have le: "n \<le> avail" if "lo \<le> n" "fit n = Inr True" for n
  proof -
    have "0 < n" using that(1) lo by simp
    from fits_ok [OF a P sc fl this, of swa_ratio avail] show ?thesis
      using that(2) unfolding fit_def by (metis sum.inject(2) order_trans)
  qed
  have z0: "0 < lo" by (rule lo(1))
  from fits_ok [OF a P sc fl z0, of swa_ratio avail] obtain sz0 where
    z0: "sizes_at a swa_ratio fl P lo = Inr sz0" "fit lo = Inr (dsv4_pool_bytes sz0 a n_scratch \<le> avail)"
    unfolding fit_def by metis
  show ?thesis
  proof (cases "dsv4_pool_bytes sz0 a n_scratch \<le> avail")
    case False
    then have "dsv4_solve_num_pages avail a swa_ratio fl P n_scratch = Inl ValueError"
      using z0(2) by (simp add: dsv4_solve_num_pages_def Let_def fit_def [symmetric] lo_def [symmetric])
    then show ?thesis using z0(1) False unfolding lo_def by (intro disjI2 exI [of _ sz0]) simp
  next
    case True
    have "\<exists>c. sum_err (map (layer_cost a 0 P) (ratios a)) = Inr c"
    proof (rule sum_err_ok)
      fix x assume "x \<in> set (map (layer_cost a 0 P) (ratios a))"
      then obtain r where r: "r \<in> {0, 4, 128}" "x = layer_cost a 0 P r" using a by (auto simp: args_ok_def)
      then show "\<exists>y. x = Inr y" using ring_size_ok [OF r(1)] by (auto simp: layer_cost_def Let_def)
    qed
    then obtain cpp where cpp: "cache_per_page a 0 P = Inr cpp" using P by (auto simp: cache_per_page_def)
    define hi0 where "hi0 = max lo (avail div max 1 cpp)"
    have hi0: "lo \<le> hi0" by (simp add: hi0_def)
    have "lo \<le> avail" using le [of lo] True z0(2) by simp
    then have "avail < hi0 + int (nat avail)" using hi0 lo by simp
    moreover have "0 < hi0" using hi0 lo by simp
    ultimately obtain hi where
      hi: "double_loop fit (Suc (nat avail)) hi0 = Inr hi" "hi0 \<le> hi" "fit hi = Inr False"
      using double_loop_ok [where lb = lo and fit = fit and avail = avail and hi = hi0 and f = "nat avail"]
        tot le hi0 by blast
    have lohi: "lo \<noteq> hi" using hi(3) z0(2) True by auto
    then have lt: "lo < hi" using hi(2) hi0 by simp
    have ft: "fit lo = Inr True" using z0(2) True by simp
    have fu: "hi - lo \<le> int (Suc (nat (hi - lo)))" using lt by simp
    obtain n where n: "bisect_loop fit (Suc (nat (hi - lo))) lo hi = Inr n" "lo \<le> n" "fit n = Inr True"
      "fit (n + 1) = Inr False"
      using bisect_loop_ok [where lb = lo and fit = fit, OF _ order_refl ft hi(3) lt fu] tot by blast
    have np: "0 < n" "0 < n + 1" using n(2) lo by simp_all
    from fits_ok [OF a P sc fl np(1), of swa_ratio avail] obtain sz where
      sz: "sizes_at a swa_ratio fl P n = Inr sz" "fit n = Inr (dsv4_pool_bytes sz a n_scratch \<le> avail)"
      unfolding fit_def by metis
    from fits_ok [OF a P sc fl np(2), of swa_ratio avail] obtain sz' where
      sz': "sizes_at a swa_ratio fl P (n + 1) = Inr sz'"
        "fit (n + 1) = Inr (dsv4_pool_bytes sz' a n_scratch \<le> avail)"
      unfolding fit_def by metis
    have "dsv4_solve_num_pages avail a swa_ratio fl P n_scratch = Inr sz"
      using z0(2) True cpp hi(1) n(1) sz(1)
      by (simp del: double_loop.simps bisect_loop.simps
          add: dsv4_solve_num_pages_def Let_def fit_def [symmetric] lo_def [symmetric] hi0_def [symmetric])
    then show ?thesis
      using n(2-) sz sz' unfolding lo_def by (intro disjI1 exI [of _ n] exI [of _ sz] exI [of _ sz']) simp
  qed
qed

end
