(* ===== verification/Dsv4_Pool.thy ===== *)
theory Dsv4_Pool
  imports Dsv4_Sizing
begin

text \<open>
  The DSV4 paged pool (\<^verbatim>\<open>kvcache/dsv4_paged_pool.py\<close>): the page free list, the compress-state
  ring, the map from full tokens to window slots with its page-atomic allocation, and the
  buffers the pool allocates. A buffer is its number of rows and their width; only the map and
  the rings have contents.
\<close>

section \<open>FreeListAllocator\<close>

record flist =
  fl_cap :: nat
  fl_unit :: nat
  fl_free :: "nat list"

definition fl_fresh :: "nat \<Rightarrow> nat \<Rightarrow> nat list" where
  "fl_fresh cap unit = map (\<lambda>i. i * unit) [0..<cap div unit]"

definition fl_init :: "nat \<Rightarrow> nat \<Rightarrow> err + flist" where
  "fl_init cap unit =
     and_then (check (cap mod unit = 0) AssertionError) (\<lambda>_.
       Inr \<lparr>fl_cap = cap, fl_unit = unit, fl_free = fl_fresh cap unit\<rparr>)"

definition fl_alloc :: "int \<Rightarrow> flist \<Rightarrow> err + (flist \<times> nat list)" where
  "fl_alloc n a =
     (if n < 0 then Inl ValueError
      else if n > int (length (fl_free a)) then Inl RuntimeError
      else (let k = length (fl_free a) - nat n in
            Inr (a\<lparr>fl_free := take k (fl_free a)\<rparr>, drop k (fl_free a))))"

definition fl_release :: "nat list \<Rightarrow> flist \<Rightarrow> flist" where
  "fl_release units a = a\<lparr>fl_free := fl_free a @ units\<rparr>"

definition fl_available :: "flist \<Rightarrow> nat" where
  "fl_available a = length (fl_free a) * fl_unit a"

definition fl_reset :: "flist \<Rightarrow> flist" where
  "fl_reset a = a\<lparr>fl_free := fl_fresh (fl_cap a) (fl_unit a)\<rparr>"

definition fl_ok :: "flist \<Rightarrow> nat multiset \<Rightarrow> bool" where
  "fl_ok a held \<longleftrightarrow> 0 < fl_unit a \<and> mset (fl_free a) + held = mset (fl_fresh (fl_cap a) (fl_unit a))"

lemma fl_fresh_set: "0 < u \<Longrightarrow> mset (fl_fresh cap u) = mset_set ((\<lambda>i. i * u) ` {0..<cap div u})"
proof -
  assume "0 < u"
  then have "inj_on (\<lambda>i. i * u) {0..<cap div u}" by (auto simp: inj_on_def)
  then show ?thesis by (simp add: fl_fresh_def image_mset_mset_set)
qed

lemma fl_alloc_ok:
  assumes "fl_ok a held" and "fl_alloc n a = Inr (a', us)"
  shows "fl_ok a' (held + mset us)" "int (length us) = n" "distinct us"
    "\<And>u. u \<in> set us \<Longrightarrow> u \<notin># held \<and> fl_unit a dvd u \<and> u + fl_unit a \<le> fl_cap a"
    "fl_cap a' = fl_cap a" "fl_unit a' = fl_unit a"
proof -
  let ?k = "length (fl_free a) - nat n"
  have e: "a' = a\<lparr>fl_free := take ?k (fl_free a)\<rparr>" "us = drop ?k (fl_free a)"
    "0 \<le> n" "n \<le> int (length (fl_free a))"
    using assms(2) by (auto simp: fl_alloc_def Let_def split: if_splits)
  show "fl_cap a' = fl_cap a" "fl_unit a' = fl_unit a" using e(1) by simp_all
  show "int (length us) = n" using e by simp
  have u: "0 < fl_unit a" using assms(1) by (simp add: fl_ok_def)
  have "mset (take ?k (fl_free a)) + mset (drop ?k (fl_free a)) = mset (fl_free a)"
    by (metis append_take_drop_id mset_append)
  then have s: "mset us + (mset (fl_free a') + held) = mset (fl_fresh (fl_cap a) (fl_unit a))"
    using assms(1) e(1,2) by (simp add: fl_ok_def ac_simps)
  then show "fl_ok a' (held + mset us)" using u e(1) by (simp add: fl_ok_def ac_simps)
  note s = s [unfolded fl_fresh_set [OF u]]
  show "distinct us" by (rule mset_set_distinct [OF s])
  show "x \<notin># held \<and> fl_unit a dvd x \<and> x + fl_unit a \<le> fl_cap a" if "x \<in> set us" for x
  proof -
    have m: "x \<in># mset us" using that by simp
    have "x \<notin># held" using mset_set_parts(1) [OF s m] by simp
    moreover have "x \<in> (\<lambda>i. i * fl_unit a) ` {0..<fl_cap a div fl_unit a}"
      using mset_set_parts(2) [OF s, of x] m by simp
    then obtain i where "i \<in> {0..<fl_cap a div fl_unit a}" and i1: "x = i * fl_unit a" by blast
    then have i: "x = i * fl_unit a" "Suc i \<le> fl_cap a div fl_unit a" by simp_all
    then have "Suc i * fl_unit a \<le> fl_cap a"
      by (metis div_times_less_eq_dividend le_trans mult_le_mono1)
    ultimately show ?thesis using i(1) by simp
  qed
qed

lemma fl_release_ok: "fl_ok a (held + mset us) \<Longrightarrow> fl_ok (fl_release us a) held"
  by (simp add: fl_ok_def fl_release_def ac_simps)

lemma fl_reset_ok: "0 < fl_unit a \<Longrightarrow> fl_ok (fl_reset a) {#}"
  by (simp add: fl_ok_def fl_reset_def)

section \<open>CompressStateRing\<close>

datatype cell = Val int | NegInf

record sring =
  sr_ring :: nat
  sr_item :: nat
  sr_slots :: nat
  sr_rows :: "cell list list"

definition scratch_row :: "nat \<Rightarrow> cell list" where
  "scratch_row item = replicate item (Val 0) @ replicate item NegInf"

definition clear_scratch :: "sring \<Rightarrow> sring" where
  "clear_scratch r = r\<lparr>sr_rows := butlast (sr_rows r) @ [scratch_row (sr_item r)]\<rparr>"

definition sr_init :: "nat \<Rightarrow> nat \<Rightarrow> bool \<Rightarrow> nat \<Rightarrow> sring" where
  "sr_init n_slots ring_size overlap head_dim =
     (let item = (1 + (if overlap then 1 else 0)) * head_dim in
      clear_scratch \<lparr>sr_ring = ring_size, sr_item = item, sr_slots = n_slots,
        sr_rows = replicate (n_slots + 1) (replicate (2 * item) (Val 0))\<rparr>)"

text \<open>A row index: \<open>-1\<close> is the last (scratch) row, other indices out of range raise.\<close>

definition row_index :: "sring \<Rightarrow> int \<Rightarrow> err + nat" where
  "row_index r i =
     (let n = int (length (sr_rows r)) in
      if 0 \<le> i \<and> i < n then Inr (nat i) else if - n \<le> i \<and> i < 0 then Inr (nat (n + i)) else Inl IndexError)"

definition sr_get :: "int list \<Rightarrow> sring \<Rightarrow> err + cell list list" where
  "sr_get locs r = map_err (\<lambda>i. and_then (row_index r i) (\<lambda>k. Inr (sr_rows r ! k))) locs"

definition sr_set :: "int list \<Rightarrow> cell list list \<Rightarrow> sring \<Rightarrow> err + sring" where
  "sr_set locs rows r =
     and_then (map_err (row_index r) locs) (\<lambda>ks.
       Inr (clear_scratch (r\<lparr>sr_rows := scatter (sr_rows r) (zip ks rows)\<rparr>)))"

definition sr_get_blocks :: "int list \<Rightarrow> sring \<Rightarrow> err + cell list list list" where
  "sr_get_blocks bases r = map_err (\<lambda>b. sr_get (map (\<lambda>i. b + int i) [0..<sr_ring r]) r) bases"

definition sr_set_blocks :: "int list \<Rightarrow> cell list list list \<Rightarrow> sring \<Rightarrow> err + sring" where
  "sr_set_blocks bases blocks r =
     sr_set (concat (map (\<lambda>b. map (\<lambda>i. b + int i) [0..<sr_ring r]) bases)) (concat blocks) r"

text \<open>The scratch row reads the same after every write.\<close>

lemma sr_scratch_kept:
  assumes "sr_set locs rows r = Inr r'"
  shows "last (sr_rows r') = scratch_row (sr_item r)"
  using assms by (auto simp: sr_set_def and_then_eq_Inr clear_scratch_def)

section \<open>State locations\<close>

definition state_loc :: "int \<Rightarrow> int \<Rightarrow> int \<Rightarrow> int" where
  "state_loc ws ring P = (if ws < 0 then -1 else (ws div P) * ring + ws mod ring)"

lemma state_loc_block:
  assumes "0 < ring" and "0 \<le> ws"
  shows "state_loc ws ring P div ring = ws div P" "state_loc ws ring P mod ring = ws mod ring"
  using assms by (simp_all add: state_loc_def)

section \<open>Buffers\<close>

record dsv4_buffers =
  db_map_rows :: int
  db_window :: "(int \<times> int) list"
  db_cmp :: "(int \<times> int) option list"
  db_idx :: "(int \<times> int) option list"
  db_state :: "(int \<times> int) option list"
  db_idx_state :: "(int \<times> int) option list"

definition alloc_buffers :: "dsv4_args \<Rightarrow> pool_sizes \<Rightarrow> int \<Rightarrow> dsv4_buffers" where
  "alloc_buffers a sz n_scratch =
     (let rl = zip (ratios a) (ps_layers sz) in
      \<lparr>db_map_rows = ps_full sz + 1,
       db_window = map (\<lambda>_. (ps_win_slots sz, da_head_dim a)) (ratios a),
       db_cmp = map (\<lambda>(r, l). if r = 0 then None else Some (the (ls_cmp l) + n_scratch, da_head_dim a)) rl,
       db_idx = map (\<lambda>(r, l). if r = 4 then Some (the (ls_idx l) + n_scratch, da_index_dim a) else None) rl,
       db_state = map (\<lambda>(r, l). if r = 0 then None
          else Some (the (ls_state l) + 1, 2 * ((1 + (if r = 4 then 1 else 0)) * da_head_dim a))) rl,
       db_idx_state = map (\<lambda>(r, l). if r = 4
          then Some (the (ls_idx_state l) + 1, 2 * ((1 + 1) * da_index_dim a)) else None) rl\<rparr>)"

definition buf_elems :: "(int \<times> int) option \<Rightarrow> int" where
  "buf_elems b = (case b of None \<Rightarrow> 0 | Some (n, w) \<Rightarrow> n * w)"

definition total_bytes :: "dsv4_buffers \<Rightarrow> int" where
  "total_bytes b =
     db_map_rows b * 8 + (\<Sum>(n, w) \<leftarrow> db_window b. n * w * 2) + (\<Sum>t \<leftarrow> db_cmp b. buf_elems t * 2) +
     (\<Sum>t \<leftarrow> db_idx b. buf_elems t * 2) + (\<Sum>t \<leftarrow> db_state b. buf_elems t * 4) +
     (\<Sum>t \<leftarrow> db_idx_state b. buf_elems t * 4)"

text \<open>The byte model of the sizing code is the size of the buffers the pool allocates.\<close>

lemma total_bytes_model: "total_bytes (alloc_buffers a sz n_scratch) = dsv4_pool_bytes sz a n_scratch"
proof -
  let ?rl = "zip (ratios a) (ps_layers sz)"
  have w: "(\<Sum>(n, w) \<leftarrow> map (\<lambda>_. (ps_win_slots sz, da_head_dim a)) xs. n * w * 2) =
      int (length xs) * ps_win_slots sz * kv_bytes a" for xs :: "int list"
    by (induction xs) (auto simp: kv_bytes_def algebra_simps)
  have l: "(\<Sum>t \<leftarrow> map (\<lambda>(r, l). if r = 0 then None else Some (the (ls_cmp l) + n_scratch, da_head_dim a)) xs. buf_elems t * 2) +
     (\<Sum>t \<leftarrow> map (\<lambda>(r, l). if r = 4 then Some (the (ls_idx l) + n_scratch, da_index_dim a) else None) xs. buf_elems t * 2) +
     (\<Sum>t \<leftarrow> map (\<lambda>(r, l). if r = 0 then None
          else Some (the (ls_state l) + 1, 2 * ((1 + (if r = 4 then 1 else 0)) * da_head_dim a))) xs. buf_elems t * 4) +
     (\<Sum>t \<leftarrow> map (\<lambda>(r, l). if r = 4
          then Some (the (ls_idx_state l) + 1, 2 * ((1 + 1) * da_index_dim a)) else None) xs. buf_elems t * 4) =
     (\<Sum>rl \<leftarrow> xs. layer_bytes a n_scratch rl)" for xs :: "(int \<times> layer_sizes) list"
    by (induction xs) (auto simp: buf_elems_def layer_bytes_def kv_bytes_def index_bytes_def
        state_bytes_def idx_state_bytes_def algebra_simps)
  show ?thesis
    unfolding total_bytes_def alloc_buffers_def Let_def dsv4_pool_bytes_def
    using w [of "ratios a"] l [of ?rl] by simp
qed

section \<open>The window tier\<close>

record dsv4_pool =
  dp_P :: nat
  dp_full :: nat
  dp_win_slots :: nat
  dp_map :: "int list"
  dp_win :: flist
  dp_chunk :: int
  dp_params :: "(int \<times> bool) option"

definition page_locs :: "nat \<Rightarrow> nat \<Rightarrow> nat list" where
  "page_locs P base = [base..<base + P]"

definition bind_window_pages :: "nat \<Rightarrow> nat \<Rightarrow> dsv4_pool \<Rightarrow> err + dsv4_pool" where
  "bind_window_pages fb wb p =
     and_then (check (fb mod dp_P p = 0 \<and> wb mod dp_P p = 0) AssertionError) (\<lambda>_.
       Inr (p\<lparr>dp_map := scatter (dp_map p) (zip (page_locs (dp_P p) fb) (map int (page_locs (dp_P p) wb)))\<rparr>))"

definition unbind_window_pages :: "int list \<Rightarrow> dsv4_pool \<Rightarrow> dsv4_pool" where
  "unbind_window_pages locs p =
     p\<lparr>dp_map := scatter (dp_map p) (map (\<lambda>i. (nat i, -1)) (filter (\<lambda>i. 0 \<le> i) locs))\<rparr>"

definition cmp_rows :: "int list \<Rightarrow> int \<Rightarrow> int list" where
  "cmp_rows locs ratio = map (\<lambda>i. i div ratio) locs"

text \<open>
  \<open>_init_paged_state\<close>: everything unmapped, the free list over all window pages but the last,
  and the last full page bound to the last window page as the dummy region.
\<close>

definition init_paged_state :: "int \<Rightarrow> bool \<Rightarrow> dsv4_pool \<Rightarrow> err + dsv4_pool" where
  "init_paged_state mr radix p =
     and_then (fl_init (dp_win_slots p - dp_P p) (dp_P p)) (\<lambda>fl.
     let p1 = p\<lparr>dp_params := Some (mr, radix), dp_map := replicate (dp_full p + 1) (-1), dp_win := fl\<rparr> in
     and_then (bind_window_pages (dp_full p - dp_P p) (dp_win_slots p - dp_P p) p1) (\<lambda>p2.
     let n_win = int (dp_win_slots p) div int (dp_P p) - 1;
         reserved = reserved_window_pages mr radix in
     Inr (p2\<lparr>dp_chunk := max (int (dp_P p)) ((n_win - reserved) div 2 * int (dp_P p))\<rparr>)))"

definition dsv4_rebuild :: "pool_sizes \<Rightarrow> dsv4_pool \<Rightarrow> err + dsv4_pool" where
  "dsv4_rebuild sz p =
     (case dp_params p of
        None \<Rightarrow> Inl AssertionError
      | Some (mr, radix) \<Rightarrow>
          init_paged_state mr radix
            (p\<lparr>dp_full := nat (ps_full sz), dp_win_slots := nat (ps_win_slots sz)\<rparr>))"

definition dsv4_swa_num_tokens :: "dsv4_pool \<Rightarrow> nat" where
  "dsv4_swa_num_tokens p = (dp_win_slots p - dp_P p) + 1"

definition dsv4_swa_available :: "dsv4_pool \<Rightarrow> nat" where
  "dsv4_swa_available p = fl_available (dp_win p)"

text \<open>\<open>view(-1, P)\<close>: the chunks of \<open>P\<close> slots, and the check that each is a whole ascending page.\<close>

definition chunk_bases :: "nat \<Rightarrow> nat list \<Rightarrow> nat list" where
  "chunk_bases P xs = map (\<lambda>i. xs ! (i * P)) [0..<length xs div P]"

definition dsv4_alloc_swa :: "nat list \<Rightarrow> dsv4_pool \<Rightarrow> err + dsv4_pool" where
  "dsv4_alloc_swa full p =
     (let P = dp_P p; n = length full in
      if n = 0 then Inr p
      else
        and_then (check (n mod P = 0) AssertionError) (\<lambda>_.
        let fb = chunk_bases P full in
        and_then (check (full = concat (map (page_locs P) fb)) AssertionError) (\<lambda>_.
        and_then (fl_alloc (int (length fb)) (dp_win p)) (\<lambda>(win, wb).
        if \<not> in_range full (dp_map p) then Inl IndexError
        else Inr (p\<lparr>dp_win := win,
              dp_map := scatter (dp_map p) (zip full (map int (concat (map (page_locs P) wb))))\<rparr>)))))"

definition dsv4_free_swa :: "nat list \<Rightarrow> dsv4_pool \<Rightarrow> err + dsv4_pool" where
  "dsv4_free_swa full p =
     (let P = dp_P p in
      if full = [] then Inr p
      else
        (let fb = sort (remdups (map (\<lambda>i. i div P * P) full)) in
         and_then (check (\<forall>b \<in> set fb. length (filter (\<lambda>i. i div P * P = b) full) = P) AssertionError) (\<lambda>_.
         if \<not> in_range fb (dp_map p) then Inl IndexError
         else
           (let live = filter (\<lambda>w. 0 \<le> w) (map (\<lambda>b. dp_map p ! b) fb) in
            Inr (p\<lparr>dp_map := scatter (dp_map p) (map (\<lambda>i. (i, -1)) (concat (map (page_locs P) fb))),
                  dp_win := (if live = [] then dp_win p
                             else fl_release (map (\<lambda>w. nat (w div int P * int P)) live) (dp_win p))\<rparr>)))))"

definition dsv4_translate :: "nat list \<Rightarrow> dsv4_pool \<Rightarrow> err + int list" where
  "dsv4_translate locs p =
     (if in_range locs (dp_map p) then Inr (map (\<lambda>i. dp_map p ! i) locs) else Inl IndexError)"

section \<open>Sizing from the configuration\<close>

definition dsv4_pool_solve ::
  "dsv4_args \<Rightarrow> rat \<Rightarrow> int \<Rightarrow> int \<Rightarrow> bool \<Rightarrow> int option \<Rightarrow> int option \<Rightarrow> int option \<Rightarrow> int \<Rightarrow> err + int"
where
  "dsv4_pool_solve a swa_ratio max_seq_len mr naive swa_override force num_override avail =
     (let P = da_window a; fl = window_floor_pages max_seq_len mr naive P in
      and_then
        (case num_override of
           None \<Rightarrow>
             and_then (dsv4_solve_num_pages avail a swa_ratio fl P (mr + 1)) (\<lambda>sz. Inr (ps_full sz div P - 1))
         | Some n \<Rightarrow>
             if n < fl then Inl ValueError
             else and_then (config_pool_sizes a swa_ratio max_seq_len mr naive swa_override force (n + 1) None)
                    (\<lambda>_. Inr n))
        (\<lambda>n. if n > 1 then Inr n else Inl AssertionError))"

definition dsv4_validate_rebuild ::
  "dsv4_args \<Rightarrow> rat \<Rightarrow> int \<Rightarrow> int \<Rightarrow> bool \<Rightarrow> int option \<Rightarrow> int option \<Rightarrow> pool_sizes \<Rightarrow> rat \<Rightarrow>
   int option \<Rightarrow> int option \<Rightarrow> int \<Rightarrow> int \<Rightarrow> int \<Rightarrow> int \<Rightarrow> int \<Rightarrow> err + unit"
where
  "dsv4_validate_rebuild a swa_ratio max_seq_len mr naive swa_override force live_sizes memory_ratio
     num_pages num_swa_pages target_moe per_expert baseline weights current =
     (let P = da_window a; fl = window_floor_pages max_seq_len mr naive P in
      and_then (case num_pages of None \<Rightarrow> Inr () | Some n \<Rightarrow> check (\<not> n < fl) CacheRebuildRejected) (\<lambda>_.
      and_then
        (if num_pages \<noteq> None \<or> num_swa_pages \<noteq> None then
           (let target = (case num_pages of Some n \<Rightarrow> n | None \<Rightarrow> current) in
            config_pool_sizes a swa_ratio max_seq_len mr naive swa_override force (target + 1) num_swa_pages)
         else Inr live_sizes) (\<lambda>sz.
      let budget = net_cache_budget_bytes memory_ratio baseline weights 0;
          need = target_moe * per_expert + dsv4_pool_bytes sz a (mr + 1) in
      check (\<not> need > budget) CacheRebuildRejected)))"

end
