(* ===== verification/Bounded_Rings.thy ===== *)
theory Bounded_Rings
  imports Dsv4_Sizing
begin

text \<open>
  The two bounded logs: \<^verbatim>\<open>RequestRing\<close> (\<^verbatim>\<open>server/request_ring.py\<close>) and \<^verbatim>\<open>LogRing\<close>
  (\<^verbatim>\<open>daemon/logring.py\<close>). A deque with \<open>maxlen\<close> keeps the last \<open>capacity\<close> entries; every entry
  carries its all-time number, and clients poll with a cursor. A subscriber's callback is a
  parameter; \<open>append\<close> reports the deliveries it makes.
\<close>

section \<open>The deque\<close>

definition deque_append :: "nat \<Rightarrow> 'a \<Rightarrow> 'a list \<Rightarrow> 'a list" where
  "deque_append cap x xs = (let ys = xs @ [x] in drop (length ys - cap) ys)"

record 'r ring =
  rg_buf :: "(nat \<times> 'r) list"
  rg_cap :: nat
  rg_next :: nat

definition ring_init :: "nat \<Rightarrow> 'r ring" where
  "ring_init cap = \<lparr>rg_buf = [], rg_cap = cap, rg_next = 0\<rparr>"

definition ring_add :: "'r \<Rightarrow> 'r ring \<Rightarrow> 'r ring" where
  "ring_add r g = g\<lparr>rg_buf := deque_append (rg_cap g) (rg_next g, r) (rg_buf g), rg_next := Suc (rg_next g)\<rparr>"

definition ring_since :: "nat \<Rightarrow> nat \<Rightarrow> 'r ring \<Rightarrow> 'r list \<times> nat" where
  "ring_since cursor limit g =
     (let matched = filter (\<lambda>e. fst e \<ge> cursor) (rg_buf g);
          out = map snd (take limit matched) in
      if length out < length matched then
        (out, if length out = 0 then fst (last matched) + 1 else fst (matched ! (length out - 1)) + 1)
      else (out, rg_next g))"

section \<open>Statistics over the ring\<close>

record request_record =
  rr_status :: int
  rr_duration_ms :: int
  rr_ttft_ms :: "int option"

definition p95_ms :: "request_record ring \<Rightarrow> int" where
  "p95_ms g =
     (let durs = sort (map (\<lambda>e. rr_duration_ms (snd e)) (rg_buf g)) in
      if durs = [] then 0
      else (let k = max 0 (\<lceil>(95 / 100 :: rat) * of_nat (length durs)\<rceil> - 1) in durs ! nat k))"

definition ttft_mean_ms :: "request_record ring \<Rightarrow> int" where
  "ttft_mean_ms g =
     (let vs = List.map_filter (\<lambda>e. rr_ttft_ms (snd e)) (rg_buf g) in
      if vs = [] then 0 else py_round (of_int (sum_list vs) / of_nat (length vs)))"

definition ring_count :: "'r ring \<Rightarrow> nat" where
  "ring_count g = rg_next g"

section \<open>LogRing\<close>

datatype log_kind = Line | Progress | Event

record log_record =
  lg_seq :: nat
  lg_ts :: int
  lg_kind :: log_kind
  lg_text :: string

record 'p logring =
  lr_buf :: "log_record list"
  lr_cap :: nat
  lr_next :: nat
  lr_subs :: "'p list"

text \<open>
  \<open>lr_subs\<close> lists the members of the subscriber set; the second result is the deliveries, one
  per subscriber, made after the lock is released. A callback that raises is skipped.
\<close>

definition log_append :: "string \<Rightarrow> log_kind \<Rightarrow> int \<Rightarrow> 'p logring \<Rightarrow> 'p logring \<times> log_record \<times> ('p \<times> log_record) list" where
  "log_append text kind ts g =
     (let r = \<lparr>lg_seq = lr_next g, lg_ts = ts, lg_kind = kind, lg_text = text\<rparr> in
      (g\<lparr>lr_buf := deque_append (lr_cap g) r (lr_buf g), lr_next := Suc (lr_next g)\<rparr>, r,
       map (\<lambda>p. (p, r)) (lr_subs g)))"

definition log_since :: "nat \<Rightarrow> 'p logring \<Rightarrow> log_record list \<times> nat" where
  "log_since cursor g = (filter (\<lambda>r. lg_seq r \<ge> cursor) (lr_buf g), lr_next g)"

definition log_cursor :: "'p logring \<Rightarrow> nat" where
  "log_cursor g = lr_next g"

definition log_subscribe :: "'p \<Rightarrow> 'p logring \<Rightarrow> 'p logring" where
  "log_subscribe p g = g\<lparr>lr_subs := (if p \<in> set (lr_subs g) then lr_subs g else lr_subs g @ [p])\<rparr>"

definition log_unsubscribe :: "'p \<Rightarrow> 'p logring \<Rightarrow> 'p logring" where
  "log_unsubscribe p g = g\<lparr>lr_subs := remove1 p (lr_subs g)\<rparr>"

section \<open>Invariant\<close>

text \<open>The numbers in the buffer are the last \<open>length\<close> numbers given out, in order.\<close>

definition ring_ok :: "'r ring \<Rightarrow> bool" where
  "ring_ok g \<longleftrightarrow> length (rg_buf g) = min (rg_cap g) (rg_next g) \<and>
     map fst (rg_buf g) = [rg_next g - length (rg_buf g)..<rg_next g]"

lemma deque_append_numbers:
  assumes "length b = min cap n" and "map f b = [n - length b..<n]" and "f x = n"
  shows "length (deque_append cap x b) = min cap (Suc n)"
    "map f (deque_append cap x b) = [Suc n - length (deque_append cap x b)..<Suc n]"
proof -
  show l: "length (deque_append cap x b) = min cap (Suc n)"
    using assms(1) by (auto simp: deque_append_def Let_def)
  have le: "length b \<le> n" using assms(1) by simp
  have "map f (b @ [x]) = [n - length b..<Suc n]" using assms(2,3) le by simp
  moreover have "map f (deque_append cap x b) = drop (Suc (length b) - cap) (map f (b @ [x]))"
    unfolding deque_append_def Let_def by (simp only: drop_map length_append length_Cons list.size add_Suc_right add_0_right)
  ultimately have "map f (deque_append cap x b) = drop (Suc (length b) - cap) [n - length b..<Suc n]" by simp
  also have "\<dots> = [(n - length b) + (Suc (length b) - cap)..<Suc n]" by (simp only: drop_upt)
  also have "(n - length b) + (Suc (length b) - cap) = Suc n - min cap (Suc n)" using assms(1) by (simp add: min_def split: if_splits)
  finally show "map f (deque_append cap x b) = [Suc n - length (deque_append cap x b)..<Suc n]" using l by simp
qed

lemma ring_init_ok: "ring_ok (ring_init cap)"
  by (simp add: ring_ok_def ring_init_def)

lemma ring_add_ok: "ring_ok g \<Longrightarrow> ring_ok (ring_add r g)"
  using deque_append_numbers [of "rg_buf g" "rg_cap g" "rg_next g" fst "(rg_next g, r)"]
  by (simp add: ring_ok_def ring_add_def)

lemma ring_sorted:
  assumes "ring_ok g"
  shows "i < length (rg_buf g) \<Longrightarrow> fst (rg_buf g ! i) = rg_next g - length (rg_buf g) + i"
    "length (rg_buf g) \<le> rg_next g"
proof -
  have m: "map fst (rg_buf g) = [rg_next g - length (rg_buf g)..<rg_next g]" "length (rg_buf g) \<le> rg_next g"
    using assms by (auto simp: ring_ok_def)
  show "length (rg_buf g) \<le> rg_next g" by (rule m)
  show "fst (rg_buf g ! i) = rg_next g - length (rg_buf g) + i" if "i < length (rg_buf g)"
    using that m(2) arg_cong [OF m(1), of "\<lambda>xs. xs ! i"] by simp
qed

lemma ring_matched:
  assumes "ring_ok g"
  shows "filter (\<lambda>e. fst e \<ge> c) (rg_buf g) = drop (c - (rg_next g - length (rg_buf g))) (rg_buf g)"
proof -
  let ?b = "rg_buf g" and ?o = "rg_next g - length (rg_buf g)"
  have f: "fst (?b ! i) = ?o + i" if "i < length ?b" for i using ring_sorted(1) [OF assms that] .
  have s: "?b = take (c - ?o) ?b @ drop (c - ?o) ?b" by simp
  have t: "filter (\<lambda>e. fst e \<ge> c) (take (c - ?o) ?b) = []"
    using f by (fastforce simp: filter_empty_conv in_set_conv_nth)
  have "c \<le> fst e" if "e \<in> set (drop (c - ?o) ?b)" for e
  proof -
    from that obtain i where i: "i < length (drop (c - ?o) ?b)" "e = drop (c - ?o) ?b ! i"
      by (metis in_set_conv_nth)
    then have "fst e = ?o + (c - ?o + i)" using f [of "c - ?o + i"] by simp
    then show ?thesis by simp
  qed
  then have d: "filter (\<lambda>e. fst e \<ge> c) (drop (c - ?o) ?b) = drop (c - ?o) ?b" by (simp add: filter_id_conv)
  show ?thesis by (subst s, unfold filter_append t d) simp
qed

text \<open>
  A page of \<open>since\<close> and the page at the returned cursor give what one unlimited poll gives:
  no record is skipped and none is repeated.
\<close>

lemma ring_since_pages:
  assumes "ring_ok g" and "0 < limit" and "ring_since cursor limit g = (out, next)"
  shows "map snd (filter (\<lambda>e. fst e \<ge> cursor) (rg_buf g)) = out @ map snd (filter (\<lambda>e. fst e \<ge> next) (rg_buf g))"
    "length out \<le> limit" "next \<le> rg_next g \<or> next = rg_next g"
proof -
  let ?b = "rg_buf g" and ?o = "rg_next g - length (rg_buf g)"
  let ?m = "drop (cursor - ?o) ?b"
  note ms = ring_matched [OF assms(1)]
  have o: "?o + length ?b = rg_next g" using ring_sorted(2) [OF assms(1)] by simp
  have out: "out = map snd (take limit ?m)"
    using assms(3) by (auto simp: ring_since_def Let_def ms split: if_splits)
  then show "length out \<le> limit" by simp
  have "next = (if limit < length ?m then fst (?m ! (limit - 1)) + 1 else rg_next g)"
    using assms(2,3) by (auto simp: ring_since_def Let_def ms min_def split: if_splits)
  moreover have "fst (?m ! (limit - 1)) + 1 = ?o + (cursor - ?o) + limit" if "limit < length ?m"
    using that assms(2) ring_sorted(1) [OF assms(1), of "cursor - ?o + (limit - 1)"] by simp
  ultimately have n: "next = (if limit < length ?m then ?o + (cursor - ?o) + limit else rg_next g)" by simp
  then show "next \<le> rg_next g \<or> next = rg_next g" using o by auto
  have "drop (next - ?o) ?b = drop limit ?m" using n o by (auto simp: add.commute)
  then show "map snd (filter (\<lambda>e. fst e \<ge> cursor) ?b) = out @ map snd (filter (\<lambda>e. fst e \<ge> next) ?b)"
    unfolding ms out by (metis append_take_drop_id map_append)
qed

end
