(* ===== verification/Message_Codec.thy ===== *)
theory Message_Codec
  imports Prelude
begin

text \<open>
  The message codec of \<^verbatim>\<open>message/utils.py\<close>: Python values, the tagged dictionaries that go over
  the wire, and the wrapper that keeps a client's dictionary from being read as a class. A
  float is an uninterpreted value of a type parameter. \<open>known\<close> is the class map of the decoder;
  building a message object from its keyword arguments succeeds for a known class.
\<close>

section \<open>Values\<close>

datatype 'f pyval =
    PInt int
  | PFloat 'f
  | PStr string
  | PBool bool
  | PNone
  | PBytes "nat list"
  | PList "'f pyval list"
  | PTuple "'f pyval list"
  | PDict "(string \<times> 'f pyval) list"
  | PTensor nat string "nat list"
  | PObj string "(string \<times> 'f pyval) list"

definition type_key :: string where
  "type_key = ''__type__''"

definition raw_dict_key :: string where
  "raw_dict_key = ''__raw_dict__''"

definition torch_prefix :: string where
  "torch_prefix = ''torch.''"

section \<open>Encoding\<close>

text \<open>
  \<open>serialize_type\<close> on a tensor needs one dimension; on another object it starts from the class
  name and sets one entry per member.
\<close>

fun serialize_any :: "'f pyval \<Rightarrow> err + 'f pyval"
  and serialize_list :: "'f pyval list \<Rightarrow> err + 'f pyval list"
  and serialize_fields :: "(string \<times> 'f pyval) list \<Rightarrow> err + (string \<times> 'f pyval) list"
where
  "serialize_any (PDict d) =
     and_then (serialize_fields d) (\<lambda>e.
       if type_key \<in> fst ` set e \<or> raw_dict_key \<in> fst ` set e
       then Inr (PDict [(raw_dict_key, PDict e)]) else Inr (PDict e))"
| "serialize_any (PList xs) = and_then (serialize_list xs) (\<lambda>ys. Inr (PList ys))"
| "serialize_any (PTuple xs) = and_then (serialize_list xs) (\<lambda>ys. Inr (PTuple ys))"
| "serialize_any (PTensor dims dtype buffer) =
     (if dims \<noteq> 1 then Inl AssertionError
      else Inr (PDict [(type_key, PStr ''Tensor''), (''buffer'', PBytes buffer),
                       (''dtype'', PStr (torch_prefix @ dtype))]))"
| "serialize_any (PObj cls fields) =
     and_then (serialize_fields fields) (\<lambda>e.
       Inr (PDict (fold (\<lambda>(k, v) d. AList.update k v d) e [(type_key, PStr cls)])))"
| "serialize_any v = Inr v"
| "serialize_list [] = Inr []"
| "serialize_list (x # xs) =
     and_then (serialize_any x) (\<lambda>y. and_then (serialize_list xs) (\<lambda>ys. Inr (y # ys)))"
| "serialize_fields [] = Inr []"
| "serialize_fields ((k, v) # d) =
     and_then (serialize_any v) (\<lambda>w. and_then (serialize_fields d) (\<lambda>e. Inr ((k, w) # e)))"

section \<open>Decoding\<close>

text \<open>
  \<open>np_dtypes\<close> names the dtypes of \<open>numpy\<close>; \<open>strip_torch\<close> is \<open>replace("torch.", "")\<close>, which removes every
  occurrence from left to right.
\<close>

fun strip_torch :: "string \<Rightarrow> string" where
  "strip_torch [] = []"
| "strip_torch (c # s) =
     (if prefix torch_prefix (c # s) then strip_torch (drop (length torch_prefix - 1) s) else c # strip_torch s)"

definition tensor_of :: "string set \<Rightarrow> (string \<times> 'f pyval) list \<Rightarrow> err + 'f pyval" where
  "tensor_of np_dtypes d =
     (case (map_of d ''buffer'', map_of d ''dtype'') of
        (Some (PBytes b), Some (PStr t)) \<Rightarrow>
          (if strip_torch t \<in> np_dtypes then Inr (PTensor 1 (strip_torch t) b) else Inl AttributeError)
      | (Some _, Some (PStr t)) \<Rightarrow> (if strip_torch t \<in> np_dtypes then Inl AssertionError else Inl AttributeError)
      | (Some _, Some _) \<Rightarrow> Inl AttributeError
      | _ \<Rightarrow> Inl KeyError)"

fun deserialize_any :: "string set \<Rightarrow> string set \<Rightarrow> 'f pyval \<Rightarrow> err + 'f pyval"
  and deserialize_list :: "string set \<Rightarrow> string set \<Rightarrow> 'f pyval list \<Rightarrow> err + 'f pyval list"
  and deserialize_fields ::
    "string set \<Rightarrow> string set \<Rightarrow> bool \<Rightarrow> (string \<times> 'f pyval) list \<Rightarrow> err + (string \<times> 'f pyval) list"
where
  "deserialize_any known np (PDict d) =
     (case d of
        [(k, v)] \<Rightarrow>
          (if k = raw_dict_key then
             (case v of
                PDict inner \<Rightarrow> and_then (deserialize_fields known np False inner) (\<lambda>e. Inr (PDict e))
              | _ \<Rightarrow> Inl AttributeError)
           else if k = type_key then
             (case v of
                PStr cls \<Rightarrow>
                  (if cls = ''Tensor'' then Inl KeyError
                   else if cls \<in> known then Inr (PObj cls []) else Inl ValueError)
              | _ \<Rightarrow> Inl ValueError)
           else and_then (deserialize_any known np v) (\<lambda>w. Inr (PDict [(k, w)])))
      | _ \<Rightarrow>
          (case map_of d type_key of
             Some (PStr cls) \<Rightarrow>
               (if cls = ''Tensor'' then tensor_of np d
                else if cls \<in> known then
                  and_then (deserialize_fields known np True d) (\<lambda>e. Inr (PObj cls e))
                else Inl ValueError)
           | Some _ \<Rightarrow> Inl ValueError
           | None \<Rightarrow> and_then (deserialize_fields known np False d) (\<lambda>e. Inr (PDict e))))"
| "deserialize_any known np (PList xs) = and_then (deserialize_list known np xs) (\<lambda>ys. Inr (PList ys))"
| "deserialize_any known np (PTuple xs) = and_then (deserialize_list known np xs) (\<lambda>ys. Inr (PTuple ys))"
| "deserialize_any known np (PTensor a b c) = Inl ValueError"
| "deserialize_any known np (PObj a b) = Inl ValueError"
| "deserialize_any known np v = Inr v"
| "deserialize_list known np [] = Inr []"
| "deserialize_list known np (x # xs) =
     and_then (deserialize_any known np x) (\<lambda>y.
     and_then (deserialize_list known np xs) (\<lambda>ys. Inr (y # ys)))"
| "deserialize_fields known np skip [] = Inr []"
| "deserialize_fields known np skip ((k, v) # d) =
     (if skip \<and> k = type_key then deserialize_fields known np skip d
      else
        and_then (deserialize_any known np v) (\<lambda>w.
        and_then (deserialize_fields known np skip d) (\<lambda>e. Inr ((k, w) # e))))"

section \<open>Round trip\<close>

text \<open>
  The values a message may carry: dictionaries have distinct keys, tensors one dimension and a
  dtype \<open>numpy\<close> knows (a name without a dot), objects a known class other than \<open>Tensor\<close> and no member called
  \<^verbatim>\<open>__type__\<close>. Client dictionaries are unrestricted.
\<close>

fun wf_val :: "string set \<Rightarrow> string set \<Rightarrow> 'f pyval \<Rightarrow> bool"
  and wf_vals :: "string set \<Rightarrow> string set \<Rightarrow> 'f pyval list \<Rightarrow> bool"
  and wf_fields :: "string set \<Rightarrow> string set \<Rightarrow> (string \<times> 'f pyval) list \<Rightarrow> bool"
where
  "wf_val known np (PDict d) \<longleftrightarrow> distinct (map fst d) \<and> wf_fields known np d"
| "wf_val known np (PList xs) \<longleftrightarrow> wf_vals known np xs"
| "wf_val known np (PTuple xs) \<longleftrightarrow> wf_vals known np xs"
| "wf_val known np (PTensor dims dtype b) \<longleftrightarrow> dims = 1 \<and> dtype \<in> np \<and> CHR ''.'' \<notin> set dtype"
| "wf_val known np (PObj cls d) \<longleftrightarrow>
     cls \<in> known \<and> cls \<noteq> ''Tensor'' \<and> distinct (map fst d) \<and> type_key \<notin> fst ` set d \<and> wf_fields known np d"
| "wf_val known np v \<longleftrightarrow> True"
| "wf_vals known np [] \<longleftrightarrow> True"
| "wf_vals known np (x # xs) \<longleftrightarrow> wf_val known np x \<and> wf_vals known np xs"
| "wf_fields known np [] \<longleftrightarrow> True"
| "wf_fields known np ((k, v) # d) \<longleftrightarrow> wf_val known np v \<and> wf_fields known np d"

lemma keys_differ [simp]: "type_key \<noteq> raw_dict_key" "raw_dict_key \<noteq> type_key"
  by (simp_all add: type_key_def raw_dict_key_def)

lemma strip_torch_none: "CHR ''.'' \<notin> set t \<Longrightarrow> strip_torch t = t"
  by (induction t) (auto simp: prefix_def torch_prefix_def)

lemma strip_torch_prefix [simp]: "CHR ''.'' \<notin> set t \<Longrightarrow> strip_torch (torch_prefix @ t) = t"
  by (simp add: torch_prefix_def strip_torch_none)

lemma update_fold_fresh:
  "distinct (map fst e) \<Longrightarrow> fst ` set e \<inter> fst ` set d = {} \<Longrightarrow>
   fold (\<lambda>(k, v) d. AList.update k v d) e d = d @ e"
proof (induction e arbitrary: d)
  case (Cons p e)
  obtain k v where p: "p = (k, v)" by force
  have "AList.update k v d = d @ [(k, v)]" if "k \<notin> fst ` set d" for d :: "('a \<times> 'b) list"
    using that by (induction d) auto
  then have u: "AList.update k v d = d @ [(k, v)]" using Cons.prems(2) p by auto
  have "fst ` set e \<inter> fst ` set (d @ [(k, v)]) = {}" using Cons.prems p by auto
  then show ?case using Cons.IH [of "d @ [(k, v)]"] Cons.prems(1) p u by simp
qed simp

text \<open>Decoding a dictionary that carries neither tag decodes its entries.\<close>

lemma deserialize_plain:
  assumes "type_key \<notin> fst ` set d" and "raw_dict_key \<notin> fst ` set d"
  shows "deserialize_any known np (PDict d) =
    and_then (deserialize_fields known np False d) (\<lambda>e. Inr (PDict e))"
proof -
  have "map_of d type_key = None" using assms(1) by (simp add: map_of_eq_None_iff)
  then show ?thesis
    using assms by (cases d rule: list.exhaust [OF list.exhaust])
      (auto split: list.splits prod.splits simp: and_then_def split: sum.splits)
qed

lemma deserialize_object:
  assumes "cls \<in> known" and "cls \<noteq> ''Tensor''" and "deserialize_fields known np True e = Inr d"
    and "e = [] \<Longrightarrow> d = []"
  shows "deserialize_any known np (PDict ((type_key, PStr cls) # e)) = Inr (PObj cls d)"
  using assms by (cases e) (auto split: prod.splits)

lemma deserialize_skip:
  "type_key \<notin> fst ` set e \<Longrightarrow> deserialize_fields known np True e = deserialize_fields known np False e"
  by (induction e) auto

text \<open>Encoding succeeds on every such value, and decoding gives the value back.\<close>

lemma serialize_roundtrip:
  fixes v :: "'f pyval" and xs :: "'f pyval list" and d :: "(string \<times> 'f pyval) list"
  shows "wf_val known np v \<Longrightarrow> \<exists>w. serialize_any v = Inr w \<and> deserialize_any known np w = Inr v"
    and "wf_vals known np xs \<Longrightarrow> \<exists>ys. serialize_list xs = Inr ys \<and> deserialize_list known np ys = Inr xs"
    and "wf_fields known np d \<Longrightarrow> \<exists>e. serialize_fields d = Inr e \<and> map fst e = map fst d \<and>
           deserialize_fields known np False e = Inr d"
proof (induction v and xs and d rule: serialize_any_serialize_list_serialize_fields.induct)
  case (1 d)
  then obtain e where e: "serialize_fields d = Inr e" "map fst e = map fst d"
    "deserialize_fields known np False e = Inr d" by auto
  show ?case
  proof (cases "type_key \<in> fst ` set e \<or> raw_dict_key \<in> fst ` set e")
    case True
    then have "serialize_any (PDict d) = Inr (PDict [(raw_dict_key, PDict e)])" using e(1) by simp
    moreover have "deserialize_any known np (PDict [(raw_dict_key, PDict e)]) = Inr (PDict d)" using e(3) by simp
    ultimately show ?thesis by blast
  next
    case False
    then have "serialize_any (PDict d) = Inr (PDict e)" using e(1) by simp
    moreover have "deserialize_any known np (PDict e) = Inr (PDict d)"
      using deserialize_plain [of e known np] False e(3) by simp
    ultimately show ?thesis by blast
  qed
next
  case (4 dims dtype buffer)
  then show ?case
    by (simp add: tensor_of_def type_key_def raw_dict_key_def)
next
  case (5 cls fields)
  have wf: "cls \<in> known" "cls \<noteq> ''Tensor''" "distinct (map fst fields)" "type_key \<notin> fst ` set fields"
    using 5(2) by auto
  from 5 obtain e where e: "serialize_fields fields = Inr e" "map fst e = map fst fields"
    "deserialize_fields known np False e = Inr fields" by auto
  have k: "fst ` set e = fst ` set fields" using arg_cong [OF e(2), of set] by simp
  have "fold (\<lambda>(k, v) d. AList.update k v d) e [(type_key, PStr cls)] = (type_key, PStr cls) # e"
    using update_fold_fresh [of e "[(type_key, PStr cls)]"] wf e(2) k by simp
  then have "serialize_any (PObj cls fields) = Inr (PDict ((type_key, PStr cls) # e))" using e(1) by simp
  moreover have "deserialize_any known np (PDict ((type_key, PStr cls) # e)) = Inr (PObj cls fields)"
    using deserialize_skip [of e known np] wf k e(2,3) by (intro deserialize_object) auto
  ultimately show ?case by blast
qed auto

end
