(* ===== verification/Detokenize.thy ===== *)
theory Detokenize
  imports Prelude
begin

text \<open>
  Incremental detokenization (\<^verbatim>\<open>tokenizer/detokenize.py\<close>): a text is a list of code points; the
  tokenizer's decoder is a parameter \<open>decode\<close> of the model. \<open>emit_step\<close> is the body of the
  second loop of \<open>detokenize\<close>.
\<close>

type_synonym codes = "nat list"
type_synonym uid = nat

section \<open>Text helpers\<close>

definition is_chinese_char :: "nat \<Rightarrow> bool" where
  "is_chinese_char cp \<longleftrightarrow>
     (cp \<ge> 0x4E00 \<and> cp \<le> 0x9FFF) \<or> (cp \<ge> 0x3400 \<and> cp \<le> 0x4DBF) \<or> (cp \<ge> 0x20000 \<and> cp \<le> 0x2A6DF) \<or>
     (cp \<ge> 0x2A700 \<and> cp \<le> 0x2B73F) \<or> (cp \<ge> 0x2B740 \<and> cp \<le> 0x2B81F) \<or> (cp \<ge> 0x2B820 \<and> cp \<le> 0x2CEAF) \<or>
     (cp \<ge> 0xF900 \<and> cp \<le> 0xFAFF) \<or> (cp \<ge> 0x2F800 \<and> cp \<le> 0x2FA1F)"

text \<open>\<open>text[: text.rfind(" ") + 1]\<close>: everything up to and including the last space.\<close>

definition upto_last_space :: "codes \<Rightarrow> codes" where
  "upto_last_space t = rev (dropWhile (\<lambda>c. c \<noteq> 32) (rev t))"

definition find_printable_text :: "codes \<Rightarrow> codes" where
  "find_printable_text t =
     (if t \<noteq> [] \<and> last t = 10 then t
      else if length t > 0 \<and> is_chinese_char (last t) then t
      else if length t > 1 \<and> is_chinese_char (t ! (length t - 2)) then butlast t
      else upto_last_space t)"

fun suffix_hold :: "codes \<Rightarrow> codes \<Rightarrow> nat \<Rightarrow> nat" where
  "suffix_hold t stop 0 = 0"
| "suffix_hold t stop (Suc i) =
     (if suffix (take (Suc i) stop) t then Suc i else suffix_hold t stop i)"

fun stop_prefix_holdback :: "codes \<Rightarrow> codes list \<Rightarrow> nat" where
  "stop_prefix_holdback t [] = 0"
| "stop_prefix_holdback t (s # ss) =
     max (suffix_hold t s (min (length s - 1) (length t))) (stop_prefix_holdback t ss)"

text \<open>\<open>str.find\<close>: the position of the first occurrence.\<close>

fun str_find :: "codes \<Rightarrow> codes \<Rightarrow> nat option" where
  "str_find [] sub = (if sub = [] then Some 0 else None)"
| "str_find (c # t) sub = (if prefix sub (c # t) then Some 0 else map_option Suc (str_find t sub))"

section \<open>Decode state\<close>

record decode_status =
  ds_ids :: "int list"
  ds_str :: codes
  ds_read :: nat
  ds_surr :: nat
  ds_sent :: nat

record detok_msg =
  dm_uid :: uid
  dm_token :: int
  dm_finished :: bool
  dm_matched_stop :: codes
  dm_stop_strs :: "codes list"

record detok =
  dk_map :: "uid \<Rightarrow> decode_status option"
  dk_eos :: "int list"

definition detok_discard :: "uid \<Rightarrow> detok \<Rightarrow> detok" where
  "detok_discard u d = d\<lparr>dk_map := (dk_map d)(u := None)\<rparr>"

definition fresh_status :: decode_status where
  "fresh_status = \<lparr>ds_ids = [], ds_str = [], ds_read = 0, ds_surr = 0, ds_sent = 0\<rparr>"

text \<open>The first loop: collect the token and the two id windows to decode.\<close>

definition collect_step :: "detok_msg \<Rightarrow> detok \<Rightarrow> detok \<times> int list \<times> int list" where
  "collect_step m d =
     (let s0 = (case dk_map d (dm_uid m) of Some s \<Rightarrow> s | None \<Rightarrow> fresh_status);
          s = (if \<not> (dm_finished m \<and> dm_token m \<in> set (dk_eos d))
               then s0\<lparr>ds_ids := ds_ids s0 @ [dm_token m]\<rparr> else s0) in
      (d\<lparr>dk_map := (dk_map d)(dm_uid m \<mapsto> s)\<rparr>,
       drop (ds_surr s) (ds_ids s), take (ds_read s - ds_surr s) (drop (ds_surr s) (ds_ids s))))"

fun collect :: "detok_msg list \<Rightarrow> detok \<Rightarrow> detok \<times> (int list \<times> int list) list" where
  "collect [] d = (d, [])"
| "collect (m # ms) d =
     (let (d1, r, s) = collect_step m d; (d2, rest) = collect ms d1 in (d2, (r, s) # rest))"

text \<open>The status and the full output of one message: \<open>0xFFFD\<close> is the replacement character.\<close>

definition advance :: "codes \<Rightarrow> codes \<Rightarrow> decode_status \<Rightarrow> decode_status \<times> codes" where
  "advance read_str surr_str s =
     (let new_text = drop (length surr_str) read_str in
      if length new_text > 0 \<and> last new_text \<noteq> 0xFFFD then
        (let out = ds_str s @ new_text in
         (s\<lparr>ds_str := out, ds_surr := ds_read s, ds_read := length (ds_ids s)\<rparr>, out))
      else (s, ds_str s @ find_printable_text new_text))"

definition emit_end :: "detok_msg \<Rightarrow> codes \<Rightarrow> nat" where
  "emit_end m out =
     (if dm_finished m then
        (if dm_matched_stop m \<noteq> [] then
           (case str_find out (dm_matched_stop m) of Some k \<Rightarrow> k | None \<Rightarrow> length out)
         else length out)
      else if dm_stop_strs m \<noteq> [] then length out - stop_prefix_holdback out (dm_stop_strs m)
      else length out)"

definition emit_step :: "detok_msg \<Rightarrow> codes \<Rightarrow> codes \<Rightarrow> detok \<Rightarrow> err + (detok \<times> codes)" where
  "emit_step m read_str surr_str d =
     (case dk_map d (dm_uid m) of
        None \<Rightarrow> Inl KeyError
      | Some s \<Rightarrow>
          (let (s1, out) = advance read_str surr_str s;
               prev = ds_sent s1; e = emit_end m out;
               inc = (if e > prev then take (e - prev) (drop prev out) else []);
               s2 = s1\<lparr>ds_sent := max prev e\<rparr> in
           Inr (d\<lparr>dk_map := (dk_map d)(dm_uid m := (if dm_finished m then None else Some s2))\<rparr>, inc)))"

fun emit_loop :: "(detok_msg \<times> codes \<times> codes) list \<Rightarrow> detok \<Rightarrow> err + (detok \<times> codes list)" where
  "emit_loop [] d = Inr (d, [])"
| "emit_loop ((m, r, s) # xs) d =
     and_then (emit_step m r s d) (\<lambda>(d1, inc).
     and_then (emit_loop xs d1) (\<lambda>(d2, incs). Inr (d2, inc # incs)))"

definition detokenize :: "(int list \<Rightarrow> codes) \<Rightarrow> detok_msg list \<Rightarrow> detok \<Rightarrow> err + (detok \<times> codes list)" where
  "detokenize decode msgs d =
     (let (d1, ids) = collect msgs d in
      emit_loop (zip msgs (map (\<lambda>(r, s). (decode r, decode s)) ids)) d1)"

section \<open>Holding back partial stop strings\<close>

lemma suffix_hold_spec:
  shows "suffix_hold t s n \<le> n" "suffix (take (suffix_hold t s n) s) t"
    "suffix_hold t s n < i \<Longrightarrow> i \<le> n \<Longrightarrow> \<not> suffix (take i s) t"
proof -
  have "suffix_hold t s n \<le> n \<and> suffix (take (suffix_hold t s n) s) t \<and>
      (\<forall>i. suffix_hold t s n < i \<and> i \<le> n \<longrightarrow> \<not> suffix (take i s) t)"
    by (induction n) (auto simp: le_Suc_eq)
  then show "suffix_hold t s n \<le> n" "suffix (take (suffix_hold t s n) s) t"
    "suffix_hold t s n < i \<Longrightarrow> i \<le> n \<Longrightarrow> \<not> suffix (take i s) t" by blast+
qed

lemma holdback_le: "stop_prefix_holdback t ss \<le> length t"
proof (induction ss)
  case (Cons s ss)
  have "suffix_hold t s (min (length s - 1) (length t)) \<le> length t"
    using suffix_hold_spec(1) [of t s "min (length s - 1) (length t)"] by simp
  then show ?case using Cons by simp
qed simp

text \<open>The held-back length is the longest proper prefix of a stop string that ends the text.\<close>

lemma holdback_maximal:
  assumes "s \<in> set ss" and "i < length s" and "suffix (take i s) t"
  shows "i \<le> stop_prefix_holdback t ss"
  using assms(1)
proof (induction ss)
  case (Cons r ss)
  have il: "i \<le> length t" using assms(2,3) by (metis length_take min.absorb4 suffix_length_le)
  show ?case
  proof (cases "s = r")
    case True
    have "i \<le> suffix_hold t s (min (length s - 1) (length t))"
      using suffix_hold_spec(3) [of t s "min (length s - 1) (length t)" i] assms(2,3) il by fastforce
    then show ?thesis using True by simp
  next
    case False
    then show ?thesis using Cons by simp
  qed
qed simp

lemma str_find_spec:
  shows "str_find t sub = Some k \<Longrightarrow> prefix sub (drop k t) \<and> k \<le> length t \<and> (\<forall>j < k. \<not> prefix sub (drop j t))"
    "str_find t sub = None \<Longrightarrow> \<not> prefix sub (drop j t) \<or> sub = [] \<and> length t < j"
proof -
  show "str_find t sub = Some k \<Longrightarrow> prefix sub (drop k t) \<and> k \<le> length t \<and> (\<forall>j < k. \<not> prefix sub (drop j t))"
  proof (induction t arbitrary: k)
    case (Cons c t)
    then show ?case by (auto split: if_splits simp: less_Suc_eq_0_disj)
  qed (auto split: if_splits)
  show "str_find t sub = None \<Longrightarrow> \<not> prefix sub (drop j t) \<or> sub = [] \<and> length t < j"
  proof (induction t arbitrary: j)
    case (Cons c t)
    then show ?case by (cases j) (auto split: if_splits)
  qed (auto split: if_splits)
qed

end
