(* ===== verification/Reasoning_Parser.thy ===== *)
theory Reasoning_Parser
  imports Detokenize
begin

text \<open>
  Separation of reasoning and answer text (\<^verbatim>\<open>server/reasoning_parser.py\<close>), one-shot and
  streaming: the \<open><think>\<close> parsers with their hold-back of partial markers and bounded hold of
  a tool block, the MiniMax-M3 variant with its leading bare closer, and the Harmony channel
  scanner. Text is a list of code points.
\<close>

section \<open>Strings\<close>

definition codes_of :: "string \<Rightarrow> codes" where
  "codes_of s = map of_char s"

definition is_space :: "nat \<Rightarrow> bool" where
  "is_space c \<longleftrightarrow> (9 \<le> c \<and> c \<le> 13) \<or> (28 \<le> c \<and> c \<le> 32) \<or> c = 133 \<or> c = 160 \<or> c = 5760 \<or>
     (8192 \<le> c \<and> c \<le> 8202) \<or> c = 8232 \<or> c = 8233 \<or> c = 8239 \<or> c = 8287 \<or> c = 12288"

definition lstrip :: "codes \<Rightarrow> codes" where
  "lstrip t = dropWhile is_space t"

definition rstrip :: "codes \<Rightarrow> codes" where
  "rstrip t = rev (dropWhile is_space (rev t))"

definition strip :: "codes \<Rightarrow> codes" where
  "strip t = rstrip (lstrip t)"

definition contains :: "codes \<Rightarrow> codes \<Rightarrow> bool" where
  "contains t sub \<longleftrightarrow> str_find t sub \<noteq> None"

text \<open>\<open>text.find(sub, start)\<close>.\<close>

definition str_find_from :: "codes \<Rightarrow> codes \<Rightarrow> nat \<Rightarrow> nat option" where
  "str_find_from t sub start =
     (if start > length t then None else map_option (\<lambda>k. start + k) (str_find (drop start t) sub))"

text \<open>\<open>replace\<close> of a non-empty substring, all occurrences or the first one.\<close>

function replace_all :: "codes \<Rightarrow> codes \<Rightarrow> codes" where
  "replace_all t sub =
     (case str_find t sub of
        None \<Rightarrow> t
      | Some k \<Rightarrow> if sub = [] then t else take k t @ replace_all (drop (k + length sub) t) sub)"
  by pat_completeness auto
termination
proof (relation "measure (\<lambda>(t, sub). length t)")
  fix t sub :: codes and k :: nat
  assume "str_find t sub = Some k" and "sub \<noteq> []"
  then have p: "prefix sub (drop k t)" and l: "0 < length sub" using str_find_spec(1) by auto
  have "length sub \<le> length t - k" using prefix_length_le [OF p] by simp
  with l have "length t - (k + length sub) < length t" by arith
  then show "((drop (k + length sub) t, sub), (t, sub)) \<in> measure (\<lambda>(t, sub). length t)" by simp
qed simp

declare replace_all.simps [simp del]

definition replace_first :: "codes \<Rightarrow> codes \<Rightarrow> codes" where
  "replace_first t sub =
     (case str_find t sub of None \<Rightarrow> t | Some k \<Rightarrow> take k t @ drop (k + length sub) t)"

definition strip_special_tokens :: "codes \<Rightarrow> codes list \<Rightarrow> codes" where
  "strip_special_tokens t toks = fold (\<lambda>tok acc. if tok \<noteq> [] then replace_all acc tok else acc) toks t"

text \<open>
  The hold-back loops: the longest suffix of the text that is a proper prefix of a token. The
  inner loop runs down to the best length so far, so it only improves on it.
\<close>

fun partial_from :: "codes \<Rightarrow> codes \<Rightarrow> nat \<Rightarrow> nat \<Rightarrow> nat" where
  "partial_from t tok best 0 = best"
| "partial_from t tok best (Suc k) =
     (if Suc k \<le> best then best
      else if suffix (take (Suc k) tok) t then Suc k else partial_from t tok best k)"

definition longest_partial_suffix :: "codes list \<Rightarrow> codes \<Rightarrow> nat" where
  "longest_partial_suffix toks t =
     fold (\<lambda>tok best. partial_from t tok best (min (length tok - 1) (length t))) toks 0"

section \<open>The base parser\<close>

record reasoning_result =
  rs_reasoning :: codes
  rs_normal :: codes

record base_parser =
  bp_start :: codes
  bp_end :: codes
  bp_tool :: "codes option"
  bp_stream :: bool
  bp_in :: bool
  bp_buffer :: codes
  bp_stripped :: bool

definition tool_hold_max :: nat where
  "tool_hold_max = 512"

definition bp_init :: "codes \<Rightarrow> codes \<Rightarrow> bool \<Rightarrow> bool \<Rightarrow> codes option \<Rightarrow> base_parser" where
  "bp_init start end force stream tool =
     \<lparr>bp_start = start, bp_end = end, bp_tool = tool, bp_stream = stream, bp_in = force,
      bp_buffer = [], bp_stripped = False\<rparr>"

definition bp_detect_and_parse :: "codes \<Rightarrow> base_parser \<Rightarrow> reasoning_result" where
  "bp_detect_and_parse t p =
     (if \<not> (bp_in p \<or> contains t (bp_start p)) then \<lparr>rs_reasoning = [], rs_normal = t\<rparr>
      else
        (let s = strip (replace_all t (bp_start p)) in
         case str_find s (bp_end p) of
           None \<Rightarrow>
             (case bp_tool p of
                Some tool \<Rightarrow>
                  (case str_find s tool of
                     Some k \<Rightarrow> \<lparr>rs_reasoning = strip (take k s), rs_normal = drop k s\<rparr>
                   | None \<Rightarrow> \<lparr>rs_reasoning = s, rs_normal = []\<rparr>)
              | None \<Rightarrow> \<lparr>rs_reasoning = s, rs_normal = []\<rparr>)
         | Some k \<Rightarrow> \<lparr>rs_reasoning = take k s, rs_normal = strip (drop (k + length (bp_end p)) s)\<rparr>))"

definition tracked_tokens :: "base_parser \<Rightarrow> codes list" where
  "tracked_tokens p =
     [bp_end p] @ (if bp_stripped p then [] else [bp_start p]) @
     (case bp_tool p of Some tool \<Rightarrow> if tool = [] then [] else [tool] | None \<Rightarrow> [])"

definition split_trailing_partial :: "codes \<Rightarrow> base_parser \<Rightarrow> codes \<times> codes" where
  "split_trailing_partial t p =
     (let best = longest_partial_suffix (tracked_tokens p) t in
      if best = 0 then (t, []) else (take (length t - best) t, drop (length t - best) t))"

definition tool_at :: "base_parser \<Rightarrow> codes \<Rightarrow> nat option" where
  "tool_at p t = (case bp_tool p of Some tool \<Rightarrow> if tool = [] then None else str_find t tool | None \<Rightarrow> None)"

definition bp_increment :: "codes \<Rightarrow> base_parser \<Rightarrow> base_parser \<times> reasoning_result" where
  "bp_increment new_text p =
     (let buf = bp_buffer p @ new_text;
          opened = (\<not> bp_stripped p \<and> contains buf (bp_start p));
          cur = (if opened then replace_first buf (bp_start p) else buf);
          p1 = (if opened then p\<lparr>bp_buffer := buf, bp_stripped := True, bp_in := True\<rparr>
                else p\<lparr>bp_buffer := buf\<rparr>) in
      case (if bp_in p1 then str_find cur (bp_end p1) else None) of
        Some k \<Rightarrow>
          (p1\<lparr>bp_buffer := [], bp_in := False\<rparr>,
           \<lparr>rs_reasoning = rstrip (take k cur), rs_normal = drop (k + length (bp_end p1)) cur\<rparr>)
      | None \<Rightarrow>
          (case (if bp_in p1 then tool_at p1 cur else None) of
             Some k \<Rightarrow>
               (if length (drop k cur) > tool_hold_max
                then (p1\<lparr>bp_buffer := [], bp_in := False\<rparr>,
                      \<lparr>rs_reasoning = take k cur, rs_normal = drop k cur\<rparr>)
                else (p1\<lparr>bp_buffer := drop k cur\<rparr>, \<lparr>rs_reasoning = take k cur, rs_normal = []\<rparr>))
           | None \<Rightarrow>
               (let (safe, held) = split_trailing_partial cur p1 in
                if bp_in p1 \<and> \<not> bp_stream p1
                then (p1\<lparr>bp_buffer := cur\<rparr>, \<lparr>rs_reasoning = [], rs_normal = []\<rparr>)
                else if bp_in p1 then (p1\<lparr>bp_buffer := held\<rparr>, \<lparr>rs_reasoning = safe, rs_normal = []\<rparr>)
                else (p1\<lparr>bp_buffer := held\<rparr>, \<lparr>rs_reasoning = [], rs_normal = safe\<rparr>))))"

definition bp_flush :: "base_parser \<Rightarrow> base_parser \<times> reasoning_result" where
  "bp_flush p =
     (let buf = bp_buffer p; p1 = p\<lparr>bp_buffer := []\<rparr> in
      if buf = [] then (p1, \<lparr>rs_reasoning = [], rs_normal = []\<rparr>)
      else
        (let at_tool = (case bp_tool p of Some tool \<Rightarrow> tool \<noteq> [] \<and> prefix tool (lstrip buf) | None \<Rightarrow> False) in
         if at_tool then (p1\<lparr>bp_in := False\<rparr>, \<lparr>rs_reasoning = [], rs_normal = buf\<rparr>)
         else if bp_in p then (p1, \<lparr>rs_reasoning = buf, rs_normal = []\<rparr>)
         else (p1, \<lparr>rs_reasoning = [], rs_normal = buf\<rparr>)))"

section \<open>Parsers of the \<open><think>\<close> family\<close>

definition think_start :: codes where
  "think_start = codes_of ''<think>''"

definition think_end :: codes where
  "think_end = codes_of ''</think>''"

text \<open>\<open>0xFF5C\<close> is the full-width bar around \<open>DSML\<close>.\<close>

definition dsml_token :: codes where
  "dsml_token = [0xFF5C] @ codes_of ''DSML'' @ [0xFF5C]"

definition deepseek_v32_init :: "bool \<Rightarrow> bool \<Rightarrow> base_parser" where
  "deepseek_v32_init force stream =
     bp_init think_start think_end force stream (Some (codes_of ''<'' @ dsml_token))"

definition think_parser_init :: "bool \<Rightarrow> bool \<Rightarrow> base_parser" where
  "think_parser_init force stream = bp_init think_start think_end force stream None"

definition gemma_init :: "bool \<Rightarrow> bool \<Rightarrow> base_parser" where
  "gemma_init force stream =
     bp_init (codes_of ''<|channel>thought'' @ [10]) (codes_of ''<channel|>'') force stream None"

section \<open>MiniMax-M3\<close>

record m3_parser =
  m3_base :: base_parser
  m3_force :: bool
  m3_pending :: bool
  m3_head :: codes

definition m3_init :: "bool \<Rightarrow> bool \<Rightarrow> m3_parser" where
  "m3_init force stream =
     \<lparr>m3_base = bp_init (codes_of ''<mm:think>'') (codes_of ''</mm:think>'') force stream
                 (Some (codes_of '']<]minimax[>[<tool_call>'')),
      m3_force = force, m3_pending = \<not> force, m3_head = []\<rparr>"

definition m3_detect_and_parse :: "codes \<Rightarrow> m3_parser \<Rightarrow> reasoning_result" where
  "m3_detect_and_parse t p =
     (let b = m3_base p; e = bp_end b; tool = (case bp_tool b of Some x \<Rightarrow> x | None \<Rightarrow> []) in
      if m3_force p then
        (case str_find t e of
           Some k \<Rightarrow> \<lparr>rs_reasoning = take k t, rs_normal = drop (k + length e) t\<rparr>
         | None \<Rightarrow>
             (case (if bp_tool b = None then None else str_find t tool) of
                Some k \<Rightarrow> \<lparr>rs_reasoning = take k t, rs_normal = drop k t\<rparr>
              | None \<Rightarrow> \<lparr>rs_reasoning = t, rs_normal = []\<rparr>))
      else if prefix e (lstrip t) then \<lparr>rs_reasoning = [], rs_normal = drop (length e) (lstrip t)\<rparr>
      else
        (case str_find t (bp_start b) of
           None \<Rightarrow> \<lparr>rs_reasoning = [], rs_normal = t\<rparr>
         | Some i \<Rightarrow>
             (let before = take i t; body = drop (i + length (bp_start b)) t in
              case str_find body e of
                Some k \<Rightarrow> \<lparr>rs_reasoning = take k body, rs_normal = before @ drop (k + length e) body\<rparr>
              | None \<Rightarrow>
                  (case (if bp_tool b = None then None else str_find body tool) of
                     Some k \<Rightarrow> \<lparr>rs_reasoning = take k body, rs_normal = before @ drop k body\<rparr>
                   | None \<Rightarrow> \<lparr>rs_reasoning = body, rs_normal = []\<rparr>))))"

definition m3_increment :: "codes \<Rightarrow> m3_parser \<Rightarrow> m3_parser \<times> reasoning_result" where
  "m3_increment new_text p =
     (if m3_pending p then
        (let head_buf = m3_head p @ new_text; h = lstrip head_buf; e = bp_end (m3_base p) in
         if prefix e h then
           (let b0 = (m3_base p)\<lparr>bp_in := False\<rparr>; rest = drop (length e) h in
            if rest = []
            then (p\<lparr>m3_base := b0, m3_pending := False, m3_head := []\<rparr>, \<lparr>rs_reasoning = [], rs_normal = []\<rparr>)
            else (let (b, r) = bp_increment rest b0 in
                  (p\<lparr>m3_base := b, m3_pending := False, m3_head := []\<rparr>, r)))
         else if h = [] \<or> prefix h e
         then (p\<lparr>m3_head := head_buf\<rparr>, \<lparr>rs_reasoning = [], rs_normal = []\<rparr>)
         else (let (b, r) = bp_increment head_buf (m3_base p) in
               (p\<lparr>m3_base := b, m3_pending := False, m3_head := []\<rparr>, r)))
      else (let (b, r) = bp_increment new_text (m3_base p) in (p\<lparr>m3_base := b\<rparr>, r)))"

definition m3_flush :: "m3_parser \<Rightarrow> m3_parser \<times> reasoning_result" where
  "m3_flush p =
     (if m3_pending p \<and> m3_head p \<noteq> [] then
        (let (b1, r1) = bp_increment (m3_head p) (m3_base p); (b2, r2) = bp_flush b1 in
         (p\<lparr>m3_base := b2, m3_pending := False, m3_head := []\<rparr>,
          \<lparr>rs_reasoning = rs_reasoning r1 @ rs_reasoning r2, rs_normal = rs_normal r1 @ rs_normal r2\<rparr>))
      else (let (b, r) = bp_flush (m3_base p) in (p\<lparr>m3_base := b\<rparr>, r)))"

section \<open>Harmony channels\<close>

definition harmony_channel :: codes where
  "harmony_channel = codes_of ''<|channel|>''"

definition harmony_message :: codes where
  "harmony_message = codes_of ''<|message|>''"

definition harmony_boundary_tokens :: "codes list" where
  "harmony_boundary_tokens =
     map codes_of [''<|end|>'', ''<|return|>'', ''<|call|>'', ''<|start|>'', ''<|channel|>'']"

definition harmony_closing_tokens :: "codes list" where
  "harmony_closing_tokens = map codes_of [''<|end|>'', ''<|return|>'', ''<|call|>'']"

definition harmony_all_tokens :: "codes list" where
  "harmony_all_tokens = [harmony_channel, harmony_message] @ harmony_boundary_tokens"

definition segment_end :: "codes \<Rightarrow> nat \<Rightarrow> nat \<times> codes option" where
  "segment_end t start =
     (case fold (\<lambda>tok best. case str_find_from t tok start of
                   None \<Rightarrow> best
                 | Some k \<Rightarrow> (case best of
                     None \<Rightarrow> Some (k, tok)
                   | Some (b, _) \<Rightarrow> if k < b then Some (k, tok) else best))
             harmony_boundary_tokens None of
        None \<Rightarrow> (length t, None)
      | Some (k, tok) \<Rightarrow> (k, Some tok))"

text \<open>\<open>header.split()\<close>: its first word, empty when there is none.\<close>

definition first_word :: "codes \<Rightarrow> codes" where
  "first_word t = takeWhile (\<lambda>c. \<not> is_space c) (lstrip t)"

text \<open>
  \<open>_scan\<close>. Every round of the loop but the last moves \<open>i\<close> past a message marker, so the length
  of the text bounds the rounds.
\<close>

definition scan_channel :: "codes \<Rightarrow> nat \<Rightarrow> nat \<Rightarrow> codes" where
  "scan_channel t ch msg = take (msg - (ch + length harmony_channel)) (drop (ch + length harmony_channel) t)"

definition scan_is_tool :: "codes \<Rightarrow> bool" where
  "scan_is_tool header \<longleftrightarrow>
     first_word header = codes_of ''commentary'' \<and> contains header (codes_of ''to=functions'')"

definition scan_slice_end :: "nat \<Rightarrow> codes option \<Rightarrow> nat" where
  "scan_slice_end e tok =
     (case tok of Some k \<Rightarrow> if k \<in> set harmony_closing_tokens then e + length k else e | None \<Rightarrow> e)"

definition scan_body :: "codes \<Rightarrow> bool \<Rightarrow> nat \<Rightarrow> nat \<Rightarrow> codes option \<Rightarrow> codes" where
  "scan_body t hold body_start e tok =
     (let body = take (e - body_start) (drop body_start t) in
      if tok = None \<and> hold then take (length body - longest_partial_suffix harmony_all_tokens body) body
      else body)"

text \<open>What one segment adds to the reasoning and to the content.\<close>

definition scan_segment ::
  "codes \<Rightarrow> bool \<Rightarrow> nat \<Rightarrow> nat \<Rightarrow> nat \<Rightarrow> codes option \<Rightarrow> codes \<times> codes" where
  "scan_segment t hold ch msg e tok =
     (let header = scan_channel t ch msg;
          body = scan_body t hold (msg + length harmony_message) e tok in
      if scan_is_tool header then ([], take (scan_slice_end e tok - ch) (drop ch t))
      else if first_word header = codes_of ''analysis'' then (body, [])
      else ([], body))"

fun scan_loop :: "nat \<Rightarrow> codes \<Rightarrow> bool \<Rightarrow> nat \<Rightarrow> codes \<Rightarrow> codes \<Rightarrow> err + (codes \<times> codes)" where
  "scan_loop 0 t hold i reasoning content = Inl Diverges"
| "scan_loop (Suc f) t hold i reasoning content =
     (case str_find_from t harmony_channel i of
        None \<Rightarrow> Inr (reasoning, content)
      | Some ch \<Rightarrow>
          (case str_find_from t harmony_message (ch + length harmony_channel) of
             None \<Rightarrow> Inr (reasoning, content)
           | Some msg \<Rightarrow>
               (case segment_end t (msg + length harmony_message) of (e, tok) \<Rightarrow>
                  (case scan_segment t hold ch msg e tok of (r, c) \<Rightarrow>
                     if tok = None then Inr (reasoning @ r, content @ c)
                     else scan_loop f t hold e (reasoning @ r) (content @ c)))))"

definition harmony_scan :: "codes \<Rightarrow> bool \<Rightarrow> err + (codes \<times> codes)" where
  "harmony_scan t hold = scan_loop (Suc (length t)) t hold 0 [] []"

record harmony_parser =
  hp_buffer :: codes
  hp_reasoning :: nat
  hp_content :: nat

definition hp_init :: harmony_parser where
  "hp_init = \<lparr>hp_buffer = [], hp_reasoning = 0, hp_content = 0\<rparr>"

definition hp_detect_and_parse :: "codes \<Rightarrow> err + reasoning_result" where
  "hp_detect_and_parse t =
     (if \<not> contains t harmony_channel then Inr \<lparr>rs_reasoning = [], rs_normal = t\<rparr>
      else and_then (harmony_scan t False) (\<lambda>(r, c). Inr \<lparr>rs_reasoning = strip r, rs_normal = strip c\<rparr>))"

definition hp_emit :: "bool \<Rightarrow> harmony_parser \<Rightarrow> err + (harmony_parser \<times> reasoning_result)" where
  "hp_emit hold p =
     and_then (harmony_scan (hp_buffer p) hold) (\<lambda>(r, c).
       Inr (p\<lparr>hp_reasoning := length r, hp_content := length c\<rparr>,
            \<lparr>rs_reasoning = drop (hp_reasoning p) r, rs_normal = drop (hp_content p) c\<rparr>))"

definition hp_increment :: "codes \<Rightarrow> harmony_parser \<Rightarrow> err + (harmony_parser \<times> reasoning_result)" where
  "hp_increment new_text p = hp_emit True (p\<lparr>hp_buffer := hp_buffer p @ new_text\<rparr>)"

definition hp_flush :: "harmony_parser \<Rightarrow> err + (harmony_parser \<times> reasoning_result)" where
  "hp_flush p = hp_emit False p"

end
