(* ===== verification/Reasoning_Stream.thy ===== *)
theory Reasoning_Stream
  imports Reasoning_Parser "HOL-Library.Code_Target_Nat"
begin

text \<open>
  What the streaming parsers of \<^verbatim>\<open>server/reasoning_parser.py\<close> emit over a list of chunks: the
  first-occurrence specification of \<open>str.find\<close>, the held suffix, the split at the closing marker,
  and the end of the Harmony scan.
\<close>

section \<open>Lemmas\<close>

lemma str_find_None_iff: "str_find t sub = None \<longleftrightarrow> (\<forall>j \<le> length t. \<not> prefix sub (drop j t))"
proof
  assume n: "str_find t sub = None"
  show "\<forall>j \<le> length t. \<not> prefix sub (drop j t)"
  proof (intro allI impI)
    fix j assume "j \<le> length t"
    then show "\<not> prefix sub (drop j t)" using str_find_spec(2) [OF n, of j] by auto
  qed
next
  assume "\<forall>j \<le> length t. \<not> prefix sub (drop j t)"
  then show "str_find t sub = None" using str_find_spec(1) [of t sub] by (cases "str_find t sub") auto
qed

lemma str_find_Some_iff:
  "str_find t sub = Some k \<longleftrightarrow>
     k \<le> length t \<and> prefix sub (drop k t) \<and> (\<forall>j < k. \<not> prefix sub (drop j t))" (is "_ \<longleftrightarrow> ?r")
proof
  assume "str_find t sub = Some k" then show ?r using str_find_spec(1) by blast
next
  assume r: ?r
  then obtain k' where k': "str_find t sub = Some k'" using str_find_None_iff [of t sub] by (cases "str_find t sub") auto
  then have "prefix sub (drop k' t)" "\<forall>j < k'. \<not> prefix sub (drop j t)" using str_find_spec(1) by blast+
  with r have "k' = k" by (metis nat_neq_iff)
  with k' show "str_find t sub = Some k" by simp
qed

lemma str_find_length: "str_find t sub = Some k \<Longrightarrow> k + length sub \<le> length t"
proof -
  assume f: "str_find t sub = Some k"
  then have "k \<le> length t" "length sub \<le> length (drop k t)"
    using str_find_Some_iff [of t sub k] prefix_length_le by blast+
  then show ?thesis by simp
qed

lemma prefix_of_append: "prefix e (x @ y) \<Longrightarrow> length e \<le> length x \<Longrightarrow> prefix e x"
  by (metis prefix_length_prefix prefixI)

lemma prefix_drop_append: "j \<le> length a \<Longrightarrow> prefix e (drop j a) \<Longrightarrow> prefix e (drop j (a @ b))"
  by (simp add: prefix_prefix)

lemma str_find_append_Some:
  assumes "str_find a e = Some k"
  shows "str_find (a @ b) e = Some k"
proof -
  have k: "k \<le> length a" "prefix e (drop k a)" "\<forall>j < k. \<not> prefix e (drop j a)" "k + length e \<le> length a"
    using assms str_find_Some_iff [of a e k] str_find_length by auto
  have "\<not> prefix e (drop j (a @ b))" if "j < k" for j
  proof
    assume "prefix e (drop j (a @ b))"
    then have "prefix e (drop j a @ b)" using that k by simp
    moreover have "length e \<le> length (drop j a)" using that k(4) by simp
    ultimately have "prefix e (drop j a)" by (rule prefix_of_append)
    then show False using k(3) that by blast
  qed
  then show ?thesis using k prefix_drop_append [of k a e b] by (simp add: str_find_Some_iff)
qed

lemma str_find_append_None: "str_find (a @ b) e = None \<Longrightarrow> str_find a e = None"
  using str_find_append_Some [of a e _ b] by (cases "str_find a e") auto

lemma str_find_drop_None:
  assumes "str_find (a @ b) e = None"
  shows "str_find b e = None"
proof -
  have "\<not> prefix e (drop j b)" if "j \<le> length b" for j
    using assms that str_find_None_iff [of "a @ b" e] by (auto dest: spec [of _ "length a + j"])
  then show ?thesis by (simp add: str_find_None_iff)
qed

lemma str_find_skip:
  assumes "str_find (a @ b) e = Some k" and "length a \<le> k"
  shows "str_find b e = Some (k - length a)"
proof -
  have k: "k \<le> length (a @ b)" "prefix e (drop k (a @ b))" "\<forall>j < k. \<not> prefix e (drop j (a @ b))"
    using assms(1) str_find_Some_iff [of "a @ b" e k] by auto
  have "\<not> prefix e (drop j b)" if "j < k - length a" for j
    using k(3) that by (auto dest: spec [of _ "length a + j"])
  then show ?thesis using k assms(2) by (simp add: str_find_Some_iff)
qed

text \<open>A token that straddles the end of the text seen so far is a partial suffix of it.\<close>

lemma straddling_suffix:
  assumes "str_find (cur @ rest) e = Some k" and "str_find cur e = None" and "k < length cur"
  shows "length cur - k < length e" "suffix (take (length cur - k) e) cur"
proof -
  have k: "prefix e (drop k cur @ rest)" using assms str_find_Some_iff [of "cur @ rest" e k] by simp
  have "\<not> prefix e (drop k cur)" using assms by (simp add: str_find_None_iff)
  with k have "length (drop k cur) < length e" using prefix_of_append not_le by blast
  then show l: "length cur - k < length e" by simp
  from k l have "take (length cur - k) e = drop k cur"
    by (auto simp: prefix_def append_eq_conv_conj take_append) 
  then show "suffix (take (length cur - k) e) cur" by (simp add: suffix_drop)
qed

section \<open>The held suffix\<close>

lemma partial_from_spec:
  shows "best \<le> partial_from t tok best k"
    and "partial_from t tok best k = best \<or>
       partial_from t tok best k \<le> k \<and> suffix (take (partial_from t tok best k) tok) t"
    and "j \<le> k \<Longrightarrow> suffix (take j tok) t \<Longrightarrow> j \<le> partial_from t tok best k"
proof -
  have "best \<le> partial_from t tok best k \<and> (partial_from t tok best k = best \<or>
       partial_from t tok best k \<le> k \<and> suffix (take (partial_from t tok best k) tok) t) \<and>
     (\<forall>j \<le> k. suffix (take j tok) t \<longrightarrow> j \<le> partial_from t tok best k)"
    by (induction k) (auto simp: le_Suc_eq)
  then show "best \<le> partial_from t tok best k"
    and "partial_from t tok best k = best \<or>
       partial_from t tok best k \<le> k \<and> suffix (take (partial_from t tok best k) tok) t"
    and "j \<le> k \<Longrightarrow> suffix (take j tok) t \<Longrightarrow> j \<le> partial_from t tok best k" by blast+
qed

lemma partial_fold_spec:
  fixes t :: codes
  defines "step \<equiv> \<lambda>tok b. partial_from t tok b (min (length tok - 1) (length t))"
  shows "b \<le> fold step toks b"
    and "fold step toks b = b \<or>
       (\<exists>tok \<in> set toks. fold step toks b \<le> length tok - 1 \<and> suffix (take (fold step toks b) tok) t)"
    and "tok \<in> set toks \<Longrightarrow> j < length tok \<Longrightarrow> suffix (take j tok) t \<Longrightarrow> j \<le> fold step toks b"
proof -
  have s: "b \<le> step tok b" "step tok b = b \<or> step tok b \<le> length tok - 1 \<and> suffix (take (step tok b) tok) t"
    for tok b using partial_from_spec(1,2) unfolding step_def by (blast, fastforce)
  have mono: "b \<le> fold step us b" for us b
    by (induction us arbitrary: b) (auto intro: order_trans [OF s(1)])
  then show "b \<le> fold step toks b" .
  show "fold step toks b = b \<or>
       (\<exists>tok \<in> set toks. fold step toks b \<le> length tok - 1 \<and> suffix (take (fold step toks b) tok) t)"
  proof (induction toks arbitrary: b)
    case (Cons tok toks)
    show ?case using Cons.IH [of "step tok b"] s(2) [of tok b] by auto
  qed simp
  assume "tok \<in> set toks" and j: "j < length tok" "suffix (take j tok) t"
  then obtain xs ys where sp: "toks = xs @ tok # ys" by (auto dest: split_list)
  have "j \<le> length t" using suffix_length_le [OF j(2)] j(1) by simp
  then have "j \<le> step tok c" for c using partial_from_spec(3) [of j _ tok t c] j unfolding step_def by simp
  from order_trans [OF this mono] show "j \<le> fold step toks b" by (simp add: sp)
qed

lemma longest_partial_suffix_spec:
  shows "longest_partial_suffix toks t = 0 \<or>
     (\<exists>tok \<in> set toks. longest_partial_suffix toks t \<le> length tok - 1 \<and>
        suffix (take (longest_partial_suffix toks t) tok) t)"
    and "tok \<in> set toks \<Longrightarrow> j < length tok \<Longrightarrow> suffix (take j tok) t \<Longrightarrow> j \<le> longest_partial_suffix toks t"
    and "longest_partial_suffix toks t \<le> length t"
proof -
  show a: "longest_partial_suffix toks t = 0 \<or>
     (\<exists>tok \<in> set toks. longest_partial_suffix toks t \<le> length tok - 1 \<and>
        suffix (take (longest_partial_suffix toks t) tok) t)"
    unfolding longest_partial_suffix_def by (rule partial_fold_spec(2))
  show "tok \<in> set toks \<Longrightarrow> j < length tok \<Longrightarrow> suffix (take j tok) t \<Longrightarrow> j \<le> longest_partial_suffix toks t"
    unfolding longest_partial_suffix_def by (rule partial_fold_spec(3))
  show "longest_partial_suffix toks t \<le> length t"
    using a by (auto dest!: suffix_length_le simp: min_def split: if_splits)
qed

section \<open>A whole stream\<close>

fun bp_run :: "base_parser \<Rightarrow> codes list \<Rightarrow> codes \<times> codes" where
  "bp_run p [] = (let (p1, r) = bp_flush p in (rs_reasoning r, rs_normal r))"
| "bp_run p (c # cs) =
     (let (p1, r) = bp_increment c p; (rr, nn) = bp_run p1 cs in
      (rs_reasoning r @ rr, rs_normal r @ nn))"

text \<open>Once the start marker is out of the way, text after the reasoning passes through.\<close>

definition no_marker :: "base_parser \<Rightarrow> codes \<Rightarrow> bool" where
  "no_marker p t \<longleftrightarrow> bp_stripped p \<or> str_find t (bp_start p) = None"

lemma no_marker_appendD: "no_marker p (a @ b) \<Longrightarrow> no_marker p a" "no_marker p (a @ b) \<Longrightarrow> no_marker p b"
  unfolding no_marker_def by (auto dest: str_find_append_None str_find_drop_None)

lemma no_marker_update [simp]:
  "no_marker (p\<lparr>bp_buffer := x\<rparr>) t = no_marker p t" "no_marker (p\<lparr>bp_in := b\<rparr>) t = no_marker p t"
  by (simp_all add: no_marker_def)

lemma split_trailing_append:
  assumes "split_trailing_partial t p = (safe, held)"
  shows "t = safe @ held"
  using assms by (auto simp: split_trailing_partial_def Let_def split: if_splits)

lemma bp_increment_answer:
  assumes "\<not> bp_in p" and "no_marker p (bp_buffer p @ c)"
  shows "bp_increment c p =
     (let (safe, held) = split_trailing_partial (bp_buffer p @ c) p in
      (p\<lparr>bp_buffer := held\<rparr>, \<lparr>rs_reasoning = [], rs_normal = safe\<rparr>))"
  using assms by (auto simp: bp_increment_def no_marker_def contains_def Let_def split_trailing_partial_def tracked_tokens_def split: prod.splits)

lemma bp_run_answer:
  assumes "\<not> bp_in p" and "no_marker p (bp_buffer p @ concat cs)"
  shows "bp_run p cs = ([], bp_buffer p @ concat cs)"
  using assms
proof (induction cs arbitrary: p)
  case Nil
  then show ?case by (auto simp: bp_flush_def Let_def split: option.splits)
next
  case (Cons c cs)
  obtain safe held where sp: "split_trailing_partial (bp_buffer p @ c) p = (safe, held)" by fastforce
  then have e: "bp_buffer p @ c = safe @ held" by (rule split_trailing_append)
  have n: "no_marker p ((bp_buffer p @ c) @ concat cs)" using Cons.prems(2) by simp
  note i = bp_increment_answer [OF Cons.prems(1) no_marker_appendD(1) [OF n], unfolded sp]
  have "no_marker p (held @ concat cs)" using n no_marker_appendD(2) [of p safe] by (simp add: e)
  then have "bp_run (p\<lparr>bp_buffer := held\<rparr>) cs = ([], held @ concat cs)"
    using Cons.IH [of "p\<lparr>bp_buffer := held\<rparr>"] Cons.prems(1) by simp
  then show ?case using i e by (simp flip: append_assoc)
qed


lemma bp_increment_open:
  assumes "bp_in p" "bp_stream p" "bp_tool p = None" and "no_marker p (bp_buffer p @ c)"
  shows "bp_increment c p =
     (case str_find (bp_buffer p @ c) (bp_end p) of
        Some k \<Rightarrow> (p\<lparr>bp_buffer := [], bp_in := False\<rparr>,
           \<lparr>rs_reasoning = rstrip (take k (bp_buffer p @ c)),
            rs_normal = drop (k + length (bp_end p)) (bp_buffer p @ c)\<rparr>)
      | None \<Rightarrow> (let (safe, held) = split_trailing_partial (bp_buffer p @ c) p in
          (p\<lparr>bp_buffer := held\<rparr>, \<lparr>rs_reasoning = safe, rs_normal = []\<rparr>)))"
  using assms by (auto simp: bp_increment_def no_marker_def contains_def Let_def tool_at_def
      split_trailing_partial_def tracked_tokens_def split: prod.splits option.splits)

lemma split_keeps_token:
  assumes "split_trailing_partial cur p = (safe, held)" and "str_find (cur @ rest) e = Some k"
    and "str_find cur e = None" and "e \<in> set (tracked_tokens p)"
  shows "length safe \<le> k"
proof (cases "k < length cur")
  case True
  define best where "best = longest_partial_suffix (tracked_tokens p) cur"
  note s = straddling_suffix [OF assms(2,3) True]
  have "length cur - k \<le> best"
    unfolding best_def by (rule longest_partial_suffix_spec(2) [OF assms(4) s])
  moreover have "best = 0 \<or> length safe = length cur - best"
    using assms(1) by (auto simp: split_trailing_partial_def Let_def best_def [symmetric] split: if_splits)
  ultimately show ?thesis using True by auto
next
  case False
  have "length safe \<le> length cur" using split_trailing_append [OF assms(1)] by simp
  with False show ?thesis by simp
qed

lemma rstrip_split:
  shows "\<exists>w. (\<forall>c \<in> set w. is_space c) \<and> t = rstrip t @ w"
proof (intro exI conjI)
  show "\<forall>c \<in> set (rev (takeWhile is_space (rev t))). is_space c" by (auto dest: set_takeWhileD)
  show "t = rstrip t @ rev (takeWhile is_space (rev t))"
    by (simp add: rstrip_def flip: rev_append)
qed

lemma bp_run_reasoning:
  assumes "bp_in p" "bp_stream p" "bp_tool p = None" "no_marker p (bp_buffer p @ concat cs)"
    and "str_find (bp_buffer p @ concat cs) (bp_end p) = Some k" and "str_find (bp_buffer p) (bp_end p) = None"
    and "bp_run p cs = (r, n)"
  shows "(\<exists>w. (\<forall>c \<in> set w. is_space c) \<and> take k (bp_buffer p @ concat cs) = r @ w) \<and>
     n = drop (k + length (bp_end p)) (bp_buffer p @ concat cs)"
  using assms
proof (induction cs arbitrary: p k r n)
  case (Cons c cs)
  define cur where "cur = bp_buffer p @ c"
  have all: "bp_buffer p @ concat (c # cs) = cur @ concat cs" by (simp add: cur_def)
  have nm: "no_marker p (cur @ concat cs)" using Cons.prems(4) by (simp only: all)
  note f = Cons.prems(5) [unfolded all]
  note inc = bp_increment_open [OF Cons.prems(1-3) no_marker_appendD(1) [OF nm, unfolded cur_def],
      folded cur_def]
  show ?case
  proof (cases "str_find cur (bp_end p)")
    case (Some j)
    have jk: "j = k" using str_find_append_Some [OF Some, of "concat cs"] f by simp
    have l: "k + length (bp_end p) \<le> length cur" using str_find_length [OF Some] jk by simp
    have "bp_run (p\<lparr>bp_buffer := [], bp_in := False\<rparr>) cs = ([], concat cs)"
      by (subst bp_run_answer) (use no_marker_appendD(2) [OF nm] in simp_all)
    then have "r = rstrip (take k cur)" "n = drop (k + length (bp_end p)) cur @ concat cs"
      using Cons.prems(7) inc Some jk by simp_all
    then show ?thesis unfolding all using rstrip_split [of "take k cur"] l by simp
  next
    case None
    obtain safe held where sp: "split_trailing_partial cur p = (safe, held)" by fastforce
    note e = split_trailing_append [OF sp]
    have sk: "length safe \<le> k" by (rule split_keeps_token [OF sp f None]) (simp add: tracked_tokens_def)
    obtain r' n' where run: "bp_run (p\<lparr>bp_buffer := held\<rparr>) cs = (r', n')" by fastforce
    then have rn: "r = safe @ r'" "n = n'" using Cons.prems(7) inc None sp by simp_all
    have "(\<exists>w. (\<forall>c \<in> set w. is_space c) \<and> take (k - length safe) (held @ concat cs) = r' @ w) \<and>
       n' = drop (k - length safe + length (bp_end p)) (held @ concat cs)"
      using Cons.IH [of "p\<lparr>bp_buffer := held\<rparr>" "k - length safe" r' n'] Cons.prems(1-3) run
        no_marker_appendD(2) [of p safe "held @ concat cs"] nm
        str_find_skip [of safe "held @ concat cs" "bp_end p" k] f sk
        str_find_drop_None [of safe held] None by (simp add: e)
    then show ?thesis unfolding all e rn using sk by auto
  qed
qed auto


section \<open>The Harmony scan ends\<close>

lemma segment_end_bounds:
  assumes "segment_end t start = (e, Some tok)"
  shows "start \<le> e \<and> e \<le> length t"
proof -
  define step :: "codes \<Rightarrow> (nat \<times> codes) option \<Rightarrow> (nat \<times> codes) option"
    where "step = (\<lambda>tok best. case str_find_from t tok start of
      None \<Rightarrow> best
    | Some k \<Rightarrow> (case best of None \<Rightarrow> Some (k, tok) | Some (b, _) \<Rightarrow> if k < b then Some (k, tok) else best))"
  have st: "start \<le> k \<and> k \<le> length t" if "str_find_from t tok start = Some k" for tok k
    using that str_find_length [of "drop start t" tok] by (auto simp: str_find_from_def split: if_splits)
  define Q :: "(nat \<times> codes) option \<Rightarrow> bool"
    where "Q best = (case best of None \<Rightarrow> True | Some (k, _) \<Rightarrow> start \<le> k \<and> k \<le> length t)" for best
  have q: "Q (step a best)" if "Q best" for a best
  proof (cases "str_find_from t a start")
    case (Some k)
    then have "Q (Some (k, a))" using st by (simp add: Q_def)
    then show ?thesis using that Some by (cases best) (simp_all add: step_def split: prod.splits)
  qed (use that in \<open>simp add: step_def\<close>)
  have inv: "Q best \<Longrightarrow> Q (fold step toks best)" for best toks
    by (induction toks arbitrary: best) (simp_all add: q)
  have "segment_end t start = (case fold step harmony_boundary_tokens None of
      None \<Rightarrow> (length t, None) | Some (k, tok) \<Rightarrow> (k, Some tok))"
    unfolding segment_end_def step_def ..
  with assms have "fold step harmony_boundary_tokens None = Some (e, tok)" by (auto split: option.splits)
  then show ?thesis using inv [of None harmony_boundary_tokens] by (simp add: Q_def)
qed

lemma scan_loop_ends:
  assumes "i \<le> length t" and "length t - i < f"
  shows "\<exists>r c. scan_loop f t hold i reasoning content = Inr (r, c)"
  using assms
proof (induction f arbitrary: i reasoning content)
  case (Suc f)
  show ?case
  proof (cases "str_find_from t harmony_channel i")
    case (Some ch)
    have ch: "i \<le> ch" using Some by (auto simp: str_find_from_def split: if_splits)
    show ?thesis
    proof (cases "str_find_from t harmony_message (ch + length harmony_channel)")
      case msg: (Some msg)
      have m: "ch + length harmony_channel \<le> msg" using msg by (auto simp: str_find_from_def split: if_splits)
      obtain e tok where se: "segment_end t (msg + length harmony_message) = (e, tok)" by fastforce
      obtain r c where sg: "scan_segment t hold ch msg e tok = (r, c)" by fastforce
      show ?thesis
      proof (cases tok)
        case (Some tk)
        have b: "msg + length harmony_message \<le> e \<and> e \<le> length t"
          using segment_end_bounds se Some by blast
        have "length harmony_message > 0" by (simp add: harmony_message_def codes_of_def)
        then have "i < e" using ch m b by linarith
        then have "\<exists>r' c'. scan_loop f t hold e (reasoning @ r) (content @ c) = Inr (r', c')"
          using b Suc.prems by (intro Suc.IH) auto
        then show ?thesis using msg se sg Some \<open>str_find_from t harmony_channel i = Some ch\<close> by simp
      qed (use msg se sg Some in simp)
    qed (use Some in simp)
  qed simp
qed simp

section \<open>Properties\<close>

text \<open>C39: for a think-style reasoning parser without a tool marker that streams the reasoning, splitting a stream
  at the closing marker does not depend on the chunks. For a reply that starts inside the reasoning block, with
  no opening marker, the reasoning emitted over any list of chunks is the text before the first closing marker
  (up to white space before it), and the answer emitted is exactly the text after it; a marker cut between chunks
  does not leak.\<close>

theorem think_stream_split:
  assumes "e \<noteq> []" and "str_find (concat cs) s = None" and "str_find (concat cs) e = Some k"
  shows "\<exists>w. (\<forall>c \<in> set w. is_space c) \<and>
      take k (concat cs) = fst (bp_run (bp_init s e True True None) cs) @ w \<and>
      snd (bp_run (bp_init s e True True None) cs) = drop (k + length e) (concat cs)"
proof -
  define p where "p = bp_init s e True True None"
  have "(\<exists>w. (\<forall>c \<in> set w. is_space c) \<and> take k (bp_buffer p @ concat cs) = fst (bp_run p cs) @ w) \<and>
     snd (bp_run p cs) = drop (k + length (bp_end p)) (bp_buffer p @ concat cs)"
    by (rule bp_run_reasoning) (use assms in \<open>auto simp: p_def bp_init_def no_marker_def\<close>)
  then show ?thesis by (auto simp: p_def bp_init_def)
qed

theorem think_stream_split_witness:
  "\<exists>w. (\<forall>c \<in> set w. is_space c) \<and>
      take 2 [5, 6, 1, 2, 3, 7] = fst (bp_run (bp_init [9] [1, 2, 3] True True None) [[5, 6, 1], [2, 3, 7]]) @ w \<and>
      snd (bp_run (bp_init [9] [1, 2, 3] True True None) [[5, 6, 1], [2, 3, 7]]) = [7]"
  using think_stream_split [of "[1, 2, 3]" "[[5, 6, 1], [2, 3, 7]]" "[9]" 2] by simp

text \<open>C40: The Harmony scan ends on every text: its loop moves past a message marker in every round.\<close>

theorem harmony_scan_ends: "\<exists>r c. harmony_scan t hold = Inr (r, c)"
  unfolding harmony_scan_def by (rule scan_loop_ends) simp_all

fun hp_run :: "harmony_parser \<Rightarrow> codes list \<Rightarrow> err + (codes \<times> codes)" where
  "hp_run p [] = and_then (hp_flush p) (\<lambda>(p, r). Inr (rs_reasoning r, rs_normal r))"
| "hp_run p (c # cs) =
     and_then (hp_increment c p) (\<lambda>(p, r). and_then (hp_run p cs) (\<lambda>(rr, nn).
       Inr (rs_reasoning r @ rr, rs_normal r @ nn)))"

text \<open>
  Streaming a Harmony reply whose tool block is followed by a start marker cut between two chunks
  loses text: the partial marker is emitted with the tool block, and the answer is then cut by its length.
  The one-shot parse of the same text delivers the answer.
\<close>

lemma harmony_stream_loses_text:
  "hp_run hp_init
     [codes_of ''<|channel|>commentary to=functions<|message|><|st'',
      codes_of ''art|><|channel|>final<|message|>Hello<|end|>''] =
     Inr ([], codes_of ''<|channel|>commentary to=functions<|message|><|sto'') \<and>
   hp_detect_and_parse
     (codes_of ''<|channel|>commentary to=functions<|message|><|start|><|channel|>final<|message|>Hello<|end|>'') =
     Inr \<lparr>rs_reasoning = [], rs_normal = codes_of ''<|channel|>commentary to=functions<|message|>Hello''\<rparr>"
  by (rule conjI) code_simp+

end
