(* ===== verification/Allocators.thy ===== *)
theory Allocators
  imports State_Pool Dsv4_Pool
begin

text \<open>
  The interface the slot allocators share: \<open>alloc n\<close> hands out \<open>n\<close> units nobody holds, \<open>release\<close>
  takes back units that are held, and \<open>ok p H\<close> says that \<open>H\<close> is exactly what is outside. \<open>alloc_run\<close>
  is any sequence of calls by clients that return only what they hold; the locale lifts the laws of
  single calls to such runs. It is interpreted for \<^verbatim>\<open>LinearStatePool\<close>, \<^verbatim>\<open>TableManager\<close> and
  \<^verbatim>\<open>FreeListAllocator\<close>.
\<close>

inductive alloc_run ::
  "(nat \<Rightarrow> 'p \<Rightarrow> err + ('p \<times> 'u list)) \<Rightarrow> ('u list \<Rightarrow> 'p \<Rightarrow> 'p) \<Rightarrow> 'p \<Rightarrow> 'u multiset \<Rightarrow> 'p \<Rightarrow> 'u multiset \<Rightarrow> bool"
  for alloc release where
  stop: "alloc_run alloc release p H p H"
| take: "alloc n p = Inr (p1, us) \<Longrightarrow> alloc_run alloc release p1 (H + mset us) p2 H2 \<Longrightarrow>
     alloc_run alloc release p H p2 H2"
| give: "mset us \<subseteq># H \<Longrightarrow> alloc_run alloc release (release us p) (H - mset us) p2 H2 \<Longrightarrow>
     alloc_run alloc release p H p2 H2"

locale slot_allocator =
  fixes ok :: "'p \<Rightarrow> 'u multiset \<Rightarrow> bool"
    and alloc :: "nat \<Rightarrow> 'p \<Rightarrow> err + ('p \<times> 'u list)"
    and release :: "'u list \<Rightarrow> 'p \<Rightarrow> 'p"
    and units :: "'p \<Rightarrow> 'u set"
  assumes alloc_law: "ok p H \<Longrightarrow> alloc n p = Inr (p', us) \<Longrightarrow>
      ok p' (H + mset us) \<and> length us = n \<and> units p' = units p"
    and release_law: "ok p (H + mset us) \<Longrightarrow> ok (release us p) H \<and> units (release us p) = units p"
    and held_law: "ok p H \<Longrightarrow> count H u \<le> 1 \<and> set_mset H \<subseteq> units p"
begin

lemma run_ok: "alloc_run alloc release p H p' H' \<Longrightarrow> ok p H \<Longrightarrow> ok p' H' \<and> units p' = units p"
proof (induction rule: alloc_run.induct)
  case (take n p p1 us H p2 H2)
  then show ?case using alloc_law [of p H n p1 us] by simp
next
  case (give us H p p2 H2)
  then have "ok p ((H - mset us) + mset us)" by simp
  then show ?case using release_law [of p "H - mset us" us] give by simp
qed simp

lemma run_exclusive:
  assumes "alloc_run alloc release p H p' H'" and "ok p H"
  shows "count H' u \<le> 1" "set_mset H' \<subseteq> units p"
  using held_law [of p' H'] run_ok [OF assms] by auto

lemma alloc_fresh:
  assumes "alloc_run alloc release p H p' H'" and "ok p H" and "alloc n p' = Inr (p'', us)"
  shows "distinct us" "set us \<inter> set_mset H' = {}" "length us = n" "set us \<subseteq> units p"
proof -
  have ok': "ok p' H'" "units p' = units p" using run_ok [OF assms(1,2)] by auto
  note l = alloc_law [OF ok'(1) assms(3)]
  then have c: "count (H' + mset us) u \<le> 1" "set_mset (H' + mset us) \<subseteq> units p''" for u
    using held_law by blast+
  have m: "count H' x + count (mset us) x \<le> 1" for x using c(1) [of x] by simp
  have p: "0 < count (mset us) x" if "x \<in> set us" for x using that by simp
  show "distinct us" unfolding distinct_count_atmost_1
  proof (intro allI)
    fix x
    have "count (mset us) x = 1" if "x \<in> set us" using m [of x] p [OF that] by linarith
    then show "count (mset us) x = (if x \<in> set us then 1 else 0)" by simp
  qed
  show "set us \<inter> set_mset H' = {}"
  proof -
    have False if "x \<in> set us" "0 < count H' x" for x using m [of x] p [OF that(1)] that(2) by linarith
    then show ?thesis by auto
  qed
  show "length us = n" "set us \<subseteq> units p" using l ok'(2) c(2) by auto
qed

end

section \<open>The three allocators\<close>

interpretation lp: slot_allocator lp_ok lp_alloc lp_release "\<lambda>p. {1..<lp_num p}"
proof (unfold_locales, goal_cases)
  case (1 p H n p' us)
  then show ?case using lp_alloc_ok by auto
next
  case (2 p H us)
  then show ?case using lp_release_ok by (auto simp: lp_release_def)
next
  case (3 p H u)
  then have e: "mset (lp_free p) + H = mset_set {1..<lp_num p}" by (simp add: lp_ok_def)
  have "count (mset (lp_free p) + H) u \<le> 1" unfolding e by (simp add: count_mset_set')
  moreover have "set_mset (mset (lp_free p) + H) \<subseteq> {1..<lp_num p}" unfolding e by simp
  ultimately show ?case by auto
qed

text \<open>\<open>TableManager.allocate\<close> hands out one row.\<close>

definition tb_take :: "nat \<Rightarrow> tables \<Rightarrow> err + (tables \<times> nat list)" where
  "tb_take n tb =
     (if n = 1 then and_then (tb_allocate tb) (\<lambda>(tb', i). Inr (tb', [i])) else Inl ValueError)"

definition tb_give :: "nat list \<Rightarrow> tables \<Rightarrow> tables" where
  "tb_give is tb = fold tb_release is tb"

lemma tb_give_free: "tb_free (tb_give is tb) = tb_free tb @ is \<and> tb_max (tb_give is tb) = tb_max tb"
  by (induction "is" arbitrary: tb) (simp_all add: tb_give_def tb_release_def)

interpretation tb: slot_allocator tb_ok tb_take tb_give "\<lambda>tb. {0..<tb_max tb}"
proof (unfold_locales, goal_cases)
  case (1 tb H n tb' us)
  then obtain i where i: "tb_allocate tb = Inr (tb', i)" "us = [i]" "n = 1"
    by (auto simp: tb_take_def and_then_eq_Inr split: if_splits prod.splits)
  then show ?case using tb_allocate_ok [OF 1(1) i(1)] by simp
next
  case (2 tb H us)
  then show ?case using tb_give_free [of us tb] by (simp add: tb_ok_def ac_simps)
next
  case (3 tb H u)
  then have e: "mset (tb_free tb) + H = mset_set {0..<tb_max tb}" by (simp add: tb_ok_def)
  have "count (mset (tb_free tb) + H) u \<le> 1" unfolding e by (simp add: count_mset_set')
  moreover have "set_mset (mset (tb_free tb) + H) \<subseteq> {0..<tb_max tb}" unfolding e by simp
  ultimately show ?case by auto
qed

interpretation fl: slot_allocator fl_ok "\<lambda>n. fl_alloc (int n)" fl_release "\<lambda>a. set (fl_fresh (fl_cap a) (fl_unit a))"
proof (unfold_locales, goal_cases)
  case (1 a H n a' us)
  then show ?case using fl_alloc_ok [OF 1] by auto
next
  case (2 a H us)
  then show ?case using fl_release_ok by (auto simp: fl_release_def)
next
  case (3 a H u)
  then have e: "mset (fl_free a) + H = mset (fl_fresh (fl_cap a) (fl_unit a))" and u: "0 < fl_unit a"
    by (simp_all add: fl_ok_def)
  have "count (mset (fl_free a) + H) u \<le> 1" unfolding e fl_fresh_set [OF u] by (simp add: count_mset_set')
  moreover have "set_mset (mset (fl_free a) + H) \<subseteq> set (fl_fresh (fl_cap a) (fl_unit a))" unfolding e by simp
  ultimately show ?case by auto
qed

section \<open>Properties\<close>

text \<open>C35: whatever sequence of allocations and releases clients make that return only what they hold,
  no state slot of the linear-attention pool is ever held twice or lost, slot 0 is never given out, and
  the next allocation yields distinct slots that nobody holds.\<close>

theorem state_slots_exclusive:
  assumes "alloc_run lp_alloc lp_release (lp_init num conv rec) {#} p H"
  shows "mset (lp_free p) + H = mset_set {1..<num} \<and>
     (\<forall>n p' us. lp_alloc n p = Inr (p', us) \<longrightarrow>
        distinct us \<and> length us = n \<and> set us \<inter> set_mset H = {} \<and> set us \<subseteq> {1..<num})"
proof -
  have o: "lp_ok (lp_init num conv rec) {#}" by simp
  have "lp_ok p H" "{1..<lp_num p} = {1..<num}" using lp.run_ok [OF assms o] by (simp_all add: lp_init_def)
  then show ?thesis
    using lp.alloc_fresh [OF assms o] by (auto simp: lp_ok_def lp_init_def)
qed

theorem state_slots_exclusive_witness:
  "\<exists>p H. alloc_run lp_alloc lp_release (lp_init 4 1 1) {#} p H \<and> H = {#2#} \<and> mset (lp_free p) = {#1, 3#} \<and>
     mset (lp_free p) + H = mset_set {1..<4}"
proof -
  let ?p = "(lp_init 4 1 1)\<lparr>lp_free := [1]\<rparr>"
  have "lp_alloc 2 (lp_init 4 1 1) = Inr (?p, [3, 2])"
    by (simp add: lp_alloc_def lp_init_def upt_rec numeral_eq_Suc)
  then have "alloc_run lp_alloc lp_release (lp_init 4 1 1) {#} (lp_release [3] ?p) ({#} + mset [3, 2] - mset [3])"
    by (rule alloc_run.take) (rule alloc_run.give [OF _ alloc_run.stop], simp)
  from this state_slots_exclusive [OF this] show ?thesis by (force simp: lp_release_def)
qed

text \<open>Whatever sequence of admissions and releases of table rows the scheduler makes, no row of the
  page table is held by two requests, and no row is lost.\<close>

theorem table_rows_exclusive:
  assumes "alloc_run tb_take tb_give (tb_init mx rows) {#} tb H"
  shows "mset (tb_free tb) + H = mset_set {0..<mx} \<and>
     (\<forall>tb' i. tb_allocate tb = Inr (tb', i) \<longrightarrow> i < mx \<and> i \<notin># H)"
proof -
  have o: "tb_ok (tb_init mx rows) {#}" by (simp add: tb_ok_def tb_init_def mset_upt)
  have r: "tb_ok tb H" "{0..<tb_max tb} = {0..<mx}" using tb.run_ok [OF assms o] by (simp_all add: tb_init_def)
  have "i < mx \<and> i \<notin># H" if "tb_allocate tb = Inr (tb', i)" for tb' i
  proof -
    have "tb_take 1 tb = Inr (tb', [i])" using that by (simp add: tb_take_def)
    from tb.alloc_fresh [OF assms o this] show ?thesis by (auto simp: tb_init_def)
  qed
  then show ?thesis using r by (simp add: tb_ok_def)
qed

theorem table_rows_exclusive_witness:
  "\<exists>tb H. alloc_run tb_take tb_give (tb_init 3 (\<lambda>_. [])) {#} tb H \<and> H = {#2#} \<and>
     mset (tb_free tb) + H = mset_set {0..<3}"
proof -
  let ?t = "(tb_init 3 (\<lambda>_. []))\<lparr>tb_free := [0, 1]\<rparr>"
  have "tb_take 1 (tb_init 3 (\<lambda>_. [])) = Inr (?t, [2])"
    by (simp add: tb_take_def tb_allocate_def tb_init_def upt_rec numeral_eq_Suc)
  then have "alloc_run tb_take tb_give (tb_init 3 (\<lambda>_. [])) {#} ?t ({#} + mset [2])"
    by (rule alloc_run.take) (rule alloc_run.stop)
  from this table_rows_exclusive [OF this] show ?thesis by force
qed

text \<open>Whatever sequence of allocations and releases clients of the DeepSeek-V4 free list make that
  return only what they hold, the unit bases outside and on the list are exactly the multiples of the
  unit below the capacity, each once, and the next allocation yields distinct bases nobody holds.\<close>

theorem free_list_exclusive:
  assumes "fl_init cap u = Inr a0" and "0 < u" and "alloc_run (\<lambda>n. fl_alloc (int n)) fl_release a0 {#} a H"
  shows "mset (fl_free a) + H = mset_set ((\<lambda>i. i * u) ` {0..<cap div u}) \<and>
     (\<forall>n a' us. fl_alloc (int n) a = Inr (a', us) \<longrightarrow>
        distinct us \<and> length us = n \<and> set us \<inter> set_mset H = {})"
proof -
  have a0: "fl_cap a0 = cap" "fl_unit a0 = u" "fl_free a0 = fl_fresh cap u"
    using assms(1) by (auto simp: fl_init_def and_then_eq_Inr)
  then have o: "fl_ok a0 {#}" using assms(2) by (simp add: fl_ok_def)
  have e: "mset (fl_free a) + H = mset (fl_fresh (fl_cap a) (fl_unit a))" "0 < fl_unit a"
    and s: "set (fl_fresh (fl_cap a) (fl_unit a)) = set (fl_fresh cap u)"
    using fl.run_ok [OF assms(3) o] a0 by (simp_all add: fl_ok_def)
  have d: "mset (fl_fresh c v) = mset_set (set (fl_fresh c v))" if "0 < v" for c v
    unfolding fl_fresh_set [OF that] by (simp add: fl_fresh_def atLeast0LessThan)
  have "mset (fl_free a) + H = mset (fl_fresh cap u)"
    unfolding e(1) d [OF e(2)] s by (rule d [OF assms(2), symmetric])
  then show ?thesis using fl.alloc_fresh [OF assms(3) o] fl_fresh_set [OF assms(2)] by auto
qed

theorem free_list_exclusive_witness:
  "\<exists>a H. alloc_run (\<lambda>n. fl_alloc (int n)) fl_release \<lparr>fl_cap = 6, fl_unit = 2, fl_free = [0, 2, 4]\<rparr> {#} a H \<and>
     H = {#4#} \<and> mset (fl_free a) + H = mset_set ((\<lambda>i. i * 2) ` {0..<3})"
proof -
  let ?a = "\<lparr>fl_cap = 6, fl_unit = 2, fl_free = [0, 2, 4]\<rparr>"
  have i: "fl_init 6 2 = Inr ?a" by code_simp
  have "fl_alloc (int 1) ?a = Inr (?a\<lparr>fl_free := [0, 2]\<rparr>, [4])" by (simp add: fl_alloc_def)
  then have "alloc_run (\<lambda>n. fl_alloc (int n)) fl_release ?a {#} (?a\<lparr>fl_free := [0, 2]\<rparr>) ({#} + mset [4])"
    by (rule alloc_run.take) (rule alloc_run.stop)
  note r = this
  have "mset (fl_free (?a\<lparr>fl_free := [0, 2]\<rparr>)) + ({#} + mset [4]) = mset_set ((\<lambda>i. i * 2) ` {0..<6 div 2 :: nat})"
    using free_list_exclusive [OF i _ r] by simp
  then show ?thesis using r by (intro exI [of _ "?a\<lparr>fl_free := [0, 2]\<rparr>"] exI [of _ "{#4#}"]) simp
qed

end
