(* ===== verification/Page_Conservation.thy ===== *)
theory Page_Conservation
  imports Prefix_Contract
begin

text \<open>
  The page manager over the radix and the naive cache (\<^verbatim>\<open>CacheManager\<close> with no window pool): every
  page is free, in the tree or owned by one running request. The prefix cache reached through the
  manager (\<open>cm_match\<close>, \<open>cm_insert\<close>, \<open>cm_lock\<close>, \<open>cm_unlock\<close>, \<open>cm_evict\<close>) is an instance of the contract
  \<open>prefix_cache\<close>; the lemmas below say what the commit of a request and an allocation do with the
  pages.
\<close>

section \<open>The manager as a prefix cache\<close>

definition plain_inv :: "cm \<Rightarrow> handle multiset \<Rightarrow> bool" where
  "plain_inv c H \<longleftrightarrow> cm_swa c = None \<and> 0 < cm_psize c \<and>
     (case cm_pc c of
        PNaive \<Rightarrow> cm_kind c = KNaive \<and> (\<forall>h \<in># H. h = NaiveH)
      | PRadix s \<Rightarrow> cm_kind c = KRadix \<and> psize s = cm_psize c \<and> (\<exists>R. H = image_mset RadixH R \<and> radix_inv s R)
      | _ \<Rightarrow> False)"

definition plain_content :: "cm \<Rightarrow> token list \<Rightarrow> slot list \<Rightarrow> bool" where
  "plain_content c ts vs =
     (case cm_pc c of PRadix s \<Rightarrow> cached s ts vs | _ \<Rightarrow> ts = [] \<and> vs = [])"

definition plain_slots :: "cm \<Rightarrow> slot multiset" where
  "plain_slots c = (case cm_pc c of PRadix s \<Rightarrow> owned s | _ \<Rightarrow> {#})"

definition plain_valid :: "cm \<Rightarrow> handle \<Rightarrow> token list \<Rightarrow> slot list \<Rightarrow> bool" where
  "plain_valid c h ts vs =
     (case (cm_pc c, h) of
        (PNaive, NaiveH) \<Rightarrow> ts = [] \<and> vs = []
      | (PRadix s, RadixH r) \<Rightarrow> radix_valid s r ts vs
      | _ \<Rightarrow> False)"

lemma plain_cases:
  assumes "plain_inv c H"
  obtains (naive) "cm_pc c = PNaive" "\<And>h. h \<in># H \<Longrightarrow> h = NaiveH" "0 < cm_psize c" "cm_kind c = KNaive"
  | (radix) s R where "cm_pc c = PRadix s" "psize s = cm_psize c" "H = image_mset RadixH R" "radix_inv s R"
      "0 < cm_psize c" "cm_kind c = KRadix"
  using assms by (auto simp: plain_inv_def split: pcache.splits)

lemmas plain_defs = plain_content_def plain_slots_def plain_valid_def

interpretation plain_pc: prefix_cache plain_inv cm_psize plain_content plain_slots "\<lambda>c. pc_evictable (cm_pc c)"
  plain_valid handle_len "\<lambda>_ ids c. and_then (cm_match ids c) (\<lambda>(c', h, _). Inr (c', h))"
  "\<lambda>_ _. cm_insert" "\<lambda>h c. and_then (cm_lock h c) (\<lambda>(c', h'). Inr c')" cm_unlock cm_evict
proof (unfold_locales, goal_cases)
  case (1 c H)
  then show ?case by (simp add: plain_inv_def)
next
  case (2 c H ts vs)
  from 2(1) show ?case
  proof (cases rule: plain_cases)
    case (radix s R)
    then show ?thesis using radix_pc.content_law [OF radix(4), of ts vs] 2(2) by (simp add: plain_defs)
  qed (use 2(2) in \<open>simp add: plain_defs\<close>)
next
  case (3 c H ts vs n)
  from 3(1) show ?case
  proof (cases rule: plain_cases)
    case (radix s R)
    then show ?thesis using radix_pc.content_take_law [OF radix(4), of ts vs n] 3 by (simp add: plain_defs)
  qed (use 3 in \<open>simp add: plain_defs\<close>)
next
  case (4 c H ts vs ws)
  from 4(1) show ?case
  proof (cases rule: plain_cases)
    case (radix s R)
    then show ?thesis using radix_pc.content_unique_law [OF radix(4), of ts vs ws] 4 by (simp add: plain_defs)
  qed (use 4 in \<open>simp add: plain_defs\<close>)
next
  case (5 c H h ts vs)
  from 5(1) show ?case
  proof (cases rule: plain_cases)
    case (radix s R)
    then show ?thesis
      using radix_pc.valid_law [OF radix(4)] 5(2) by (auto simp: plain_defs split: handle.splits)
  qed (use 5 in \<open>auto simp: plain_defs split: handle.splits\<close>)
next
  case (6 c H h)
  from 6(1) show ?case
  proof (cases rule: plain_cases)
    case naive
    show ?thesis using naive(1) naive(2) [OF 6(2)] by (simp add: plain_defs)
  next
    case (radix s R)
    then obtain r where "h = RadixH r" "r \<in># R" using 6(2) by auto
    then show ?thesis using radix_pc.held_law [OF radix(4)] radix(1) by (simp add: plain_defs)
  qed
next
  case (7 c H tic ids)
  from 7(1) show ?case
  proof (cases rule: plain_cases)
    case naive
    then show ?thesis using 7 by (auto simp: plain_defs cm_match_def)
  next
    case (radix s R)
    obtain s' h vs where f: "match_prefix (reading c 0) ids s = Inr (s', h)" "radix_inv s' R" "psize s' = psize s"
      "cached s' = cached s" "owned s' = owned s" "evictable_size s' = evictable_size s" "h_len h \<le> length ids"
      "radix_valid s' h (take (h_len h) ids) vs"
      "\<forall>ts ws. cached s ts ws \<and> prefix ts ids \<longrightarrow> length ts \<le> h_len h"
      "\<forall>g ts ws. radix_valid s g ts ws \<longrightarrow> radix_valid s' g ts ws"
      using radix_pc.find_law [OF radix(4), of "reading c 0" ids] by blast
    show ?thesis
      using f radix 7
      by (intro exI [of _ "read_clock 1 (c\<lparr>cm_pc := PRadix s'\<rparr>)"] exI [of _ "RadixH h"] exI [of _ vs])
        (auto simp: plain_defs cm_match_def read_clock_def plain_inv_def fun_eq_iff split: handle.splits)
  qed
next
  case (8 c H ids idx tic tic')
  from 8(1) show ?case
  proof (cases rule: plain_cases)
    case naive
    then show ?thesis using 8 by (auto simp: plain_defs cm_insert_def slice_def split: handle.splits)
  next
    case (radix s R)
    obtain s' k h us where f: "insert_prefix (reading c 0) (reading c 1) ids idx s = Inr (s', k, h)"
      "radix_inv s' R" "psize s' = psize s" "k \<le> h_len h" "h_len h \<le> length ids" "psize s dvd k" "psize s dvd h_len h"
      "cached s (take k ids) us" "radix_valid s' h (take (h_len h) ids) (us @ slice k (h_len h) idx)"
      "\<forall>ts ws. cached s ts ws \<and> prefix ts ids \<longrightarrow> length ts \<le> k"
      "owned s' = owned s + mset (slice k (h_len h) idx)"
      "\<forall>ts vs. cached s' ts vs \<longrightarrow> cached s ts vs \<or>
         (\<exists>n \<le> h_len h. psize s dvd n \<and> vs = take n (us @ slice k (h_len h) idx))"
      "\<forall>g ts ws. radix_valid s g ts ws \<longrightarrow> radix_valid s' g ts ws"
      using radix_pc.ins_law [OF radix(4) 8(2), of "reading c 0" "reading c 1"] by (elim exE conjE) blast
    show ?thesis
      using f radix 8
      by (intro exI [of _ "read_clock 2 (c\<lparr>cm_pc := PRadix s'\<rparr>)"] exI [of _ k] exI [of _ "RadixH h"] exI [of _ us])
        (auto simp: plain_defs cm_insert_def read_clock_def plain_inv_def split: handle.splits)
  qed
next
  case (9 c H h ts vs)
  from 9(1) show ?case
  proof (cases rule: plain_cases)
    case naive
    then show ?thesis using 9 by (auto simp: plain_defs cm_lock_def plain_inv_def split: handle.splits)
  next
    case (radix s R)
    obtain r where r: "h = RadixH r" "radix_valid s r ts vs"
      using 9(2) radix(1) by (auto simp: plain_defs split: handle.splits)
    obtain s' where f: "lock_handle r False s = Inr s'" "radix_inv s' (add_mset r R)" "psize s' = psize s"
      "cached s' = cached s" "owned s' = owned s"
      "\<forall>g ts ws. radix_valid s g ts ws \<longrightarrow> radix_valid s' g ts ws"
      using radix_pc.lock_law [OF radix(4) r(2)] by blast
    have "\<exists>R'. add_mset h H = image_mset RadixH R' \<and> radix_inv s' R'"
      using f(2) r(1) radix(3) by (intro exI [of _ "add_mset r R"]) simp
    then show ?thesis
      using f radix 9 r(1)
      by (intro exI [of _ "c\<lparr>cm_pc := PRadix s'\<rparr>"])
        (auto simp: plain_defs cm_lock_def plain_inv_def fun_eq_iff split: handle.splits)
  qed
next
  case (10 c H h)
  from 10(1) show ?case
  proof (cases rule: plain_cases)
    case naive
    then show ?thesis
      using 10 by (auto simp: plain_defs cm_unlock_def plain_inv_def dest: in_diffD split: handle.splits)
  next
    case (radix s R)
    then obtain r where r: "h = RadixH r" "r \<in># R" using 10(2) by auto
    obtain s' where f: "lock_handle r True s = Inr s'" "radix_inv s' (R - {#r#})" "psize s' = psize s"
      "cached s' = cached s" "owned s' = owned s"
      "\<forall>g ts ws. radix_valid s g ts ws \<longrightarrow> radix_valid s' g ts ws"
      using radix_pc.unlock_law [OF radix(4) r(2)] by blast
    have "\<exists>R'. H - {#h#} = image_mset RadixH R' \<and> radix_inv s' R'"
      using f(2) r radix(3) by (intro exI [of _ "R - {#r#}"]) (simp add: image_mset_Diff)
    then show ?thesis
      using f radix 10 r(1)
      by (intro exI [of _ "c\<lparr>cm_pc := PRadix s'\<rparr>"])
        (auto simp: plain_defs cm_unlock_def plain_inv_def fun_eq_iff split: handle.splits)
  qed
next
  case (11 c H sz)
  from 11(1) show ?case
  proof (cases rule: plain_cases)
    case naive
    then show ?thesis using 11 by simp
  next
    case (radix s R)
    obtain s' vss where f: "evict sz s = Inr (s', concat vss)" "radix_inv s' R" "psize s' = psize s"
      "owned s = mset (concat vss) + owned s'" "sz \<le> int (length (concat vss))"
      "evictable_size s' = evictable_size s - int (length (concat vss))"
      "\<forall>v \<in> set vss. \<exists>ts us. cached s ts (us @ v) \<and> cached s (take (length us) ts) us"
      "\<forall>ts vs. cached s' ts vs \<longrightarrow> cached s ts vs"
      "\<forall>h ts vs. h \<in># R \<and> radix_valid s h ts vs \<longrightarrow> radix_valid s' h ts vs"
      using radix_pc.evict_law [OF radix(4) 11(2)] 11(3) radix(1) by (auto simp del: length_concat)
    show ?thesis
      using f radix 11
      by (intro exI [of _ "c\<lparr>cm_pc := PRadix s'\<rparr>"] exI [of _ vss])
        (auto simp: plain_defs cm_evict_def plain_inv_def simp del: length_concat split: handle.splits)
  qed
qed


section \<open>Ownership of pages\<close>

definition waiting :: "cm \<Rightarrow> slot list" where
  "waiting c = (case cm_lazy c of None \<Rightarrow> [] | Some ls \<Rightarrow> concat ls)"

definition pool :: "cm \<Rightarrow> slot multiset" where
  "pool c = mset (page_to_token (cm_psize c) (cm_free c @ waiting c)) + plain_slots c"

definition plain_ok :: "cm \<Rightarrow> handle multiset \<Rightarrow> bool" where
  "plain_ok c H \<longleftrightarrow> plain_inv c H \<and> (\<forall>ts vs. plain_content c ts vs \<longrightarrow> paged (cm_psize c) vs) \<and>
     (\<forall>p \<in> set (cm_free c @ waiting c). cm_psize c dvd p)"

definition private_slots :: "req \<Rightarrow> cm \<Rightarrow> slot list" where
  "private_slots r c = padded_tail r (handle_len (rq_handle r)) c"

text \<open>
  A request with a locked handle: the first slots of its row are the slots of the handle, the rest
  of the row, up to the end of the last page in use, is private to it.
\<close>

definition holds :: "cm \<Rightarrow> handle multiset \<Rightarrow> req \<Rightarrow> bool" where
  "holds c H r \<longleftrightarrow>
     (let l = handle_len (rq_handle r); row = cm_table c (rq_table r) in
      rq_handle r \<in># H \<and> plain_valid c (rq_handle r) (take l (rq_ids r)) (take l row) \<and>
      l \<le> rq_cached r \<and>
      ceil_pages (rq_cached r) (cm_psize c) * cm_psize c \<le> length row \<and> paged (cm_psize c) (private_slots r c))"

definition frame :: "cm \<Rightarrow> cm \<Rightarrow> bool" where
  "frame c c' \<longleftrightarrow> cm_free c' = cm_free c \<and> cm_lazy c' = cm_lazy c \<and> cm_table c' = cm_table c \<and>
     cm_swa c' = cm_swa c \<and> cm_psize c' = cm_psize c \<and> cm_pages c' = cm_pages c \<and> cm_kind c' = cm_kind c"

lemma frame_trans: "frame a b \<Longrightarrow> frame b c \<Longrightarrow> frame a c"
  by (simp add: frame_def)

lemma cm_insert_frame: "cm_insert ids idx c = Inr (c', k, h) \<Longrightarrow> frame c c'"
  by (auto simp: cm_insert_def and_then_eq_Inr frame_def read_clock_def split: pcache.splits)

lemma cm_unlock_frame: "cm_unlock h c = Inr c' \<Longrightarrow> frame c c'"
  by (auto simp: cm_unlock_def and_then_eq_Inr frame_def split: pcache.splits handle.splits)

lemma cm_lock_frame: "cm_lock h c = Inr (c', h') \<Longrightarrow> frame c c'"
  by (auto simp: cm_lock_def and_then_eq_Inr frame_def split: pcache.splits handle.splits)

lemma cm_lock_handle: "plain_inv c H \<Longrightarrow> cm_lock h c = Inr (c', h') \<Longrightarrow> h' = h"
  by (auto simp: cm_lock_def plain_inv_def and_then_eq_Inr split: pcache.splits handle.splits)

lemma cm_evict_frame: "plain_inv c H \<Longrightarrow> cm_evict n c = Inr (c', vs) \<Longrightarrow> frame c c'"
  by (auto simp: cm_evict_def plain_inv_def and_then_eq_Inr frame_def split: pcache.splits)

lemma pool_frame:
  assumes "frame c c'" and "plain_slots c' = plain_slots c + M"
  shows "pool c' = pool c + M"
  using assms by (simp add: pool_def waiting_def frame_def)

lemma cm_release_pool:
  assumes "0 < cm_psize c" and "paged (cm_psize c) vs"
  shows "pool (cm_release vs c) = pool c + mset vs"
  using assms
  by (cases "cm_lazy c") (auto simp: pool_def cm_release_def waiting_def plain_slots_def page_to_token_append paged_def)

lemma plain_cong:
  assumes "cm_pc c' = cm_pc c" and "cm_psize c' = cm_psize c" and "cm_swa c' = cm_swa c"
    and "cm_kind c' = cm_kind c"
  shows "plain_inv c' H = plain_inv c H" "plain_content c' = plain_content c" "plain_valid c' = plain_valid c"
    "plain_slots c' = plain_slots c"
  using assms by (cases "cm_pc c"; simp add: plain_inv_def plain_defs fun_eq_iff)+

lemma cm_release_fields [simp]:
  "cm_table (cm_release vs c) = cm_table c" "cm_psize (cm_release vs c) = cm_psize c"
  "cm_swa (cm_release vs c) = cm_swa c" "cm_pc (cm_release vs c) = cm_pc c"
  "cm_kind (cm_release vs c) = cm_kind c"
  by (simp_all add: cm_release_def split: option.splits)

lemma cm_release_plain [simp]:
  "plain_inv (cm_release vs c) H = plain_inv c H" "plain_content (cm_release vs c) = plain_content c"
  "plain_valid (cm_release vs c) = plain_valid c" "plain_slots (cm_release vs c) = plain_slots c"
  by (rule plain_cong; simp)+

lemma set_row_fields [simp]:
  "cm_psize (set_row t row c) = cm_psize c" "cm_table (set_row t row c) t = row" "cm_pc (set_row t row c) = cm_pc c"
  "cm_swa (set_row t row c) = cm_swa c" "cm_kind (set_row t row c) = cm_kind c" "pool (set_row t row c) = pool c"
  by (simp_all add: set_row_def pool_def waiting_def plain_slots_def)

lemma set_row_plain [simp]:
  "plain_inv (set_row t row c) H = plain_inv c H" "plain_content (set_row t row c) = plain_content c"
  "plain_valid (set_row t row c) = plain_valid c"
  by (rule plain_cong; simp)+

lemma release_both_plain: "cm_swa c = None \<Longrightarrow> release_both vs c = Inr (cm_release vs c)"
  by (simp add: release_both_def cm_free_swa_def)

lemma ceil_pages_ge: "0 < ps \<Longrightarrow> n \<le> ceil_pages n ps * ps"
proof -
  assume ps: "0 < ps"
  have "n + ps - 1 = (n + ps - 1) div ps * ps + (n + ps - 1) mod ps" by simp
  moreover have "(n + ps - 1) mod ps < ps" using ps by simp
  ultimately show ?thesis unfolding ceil_pages_def using ps by linarith
qed

lemma slice_slice:
  assumes "a \<le> b" and "m \<le> e"
  shows "slice b m xs = slice (b - a) (m - a) (slice a e xs)"
proof (cases "m \<le> a")
  case True
  then show ?thesis using assms by (simp add: slice_def)
next
  case False
  then have "m - a + a = m" by simp
  then show ?thesis using assms by (simp add: slice_def take_drop min_def)
qed

lemma plain_okD:
  assumes "plain_ok c H"
  shows "plain_inv c H" "0 < cm_psize c" "cm_swa c = None"
    "\<And>ts vs. plain_content c ts vs \<Longrightarrow> paged (cm_psize c) vs"
    "\<And>p. p \<in> set (cm_free c @ waiting c) \<Longrightarrow> cm_psize c dvd p"
  using assms by (simp_all add: plain_ok_def plain_inv_def)

lemma plain_okI:
  assumes "plain_ok c H" and "frame c c'" and "plain_inv c' H'"
    and "\<And>ts vs. plain_content c' ts vs \<Longrightarrow> paged (cm_psize c) vs"
  shows "plain_ok c' H'"
  using assms by (simp add: plain_ok_def frame_def waiting_def)

lemma cm_release_ok:
  assumes "plain_ok c H" and "paged (cm_psize c) vs"
  shows "plain_ok (cm_release vs c) H"
proof -
  have "cm_psize c dvd p" if "p \<in> set (cm_free (cm_release vs c) @ waiting (cm_release vs c))" for p
    using that plain_okD(5) [OF assms(1), of p] assms(2)
    by (auto simp: cm_release_def waiting_def paged_def split: option.splits if_splits)
  then show ?thesis using assms(1) by (simp add: plain_ok_def)
qed

lemma holdsD:
  assumes "plain_ok c H" and "holds c H r"
  defines "l \<equiv> handle_len (rq_handle r)" and "row \<equiv> cm_table c (rq_table r)"
    and "e \<equiv> ceil_pages (rq_cached r) (cm_psize c) * cm_psize c"
  shows "rq_handle r \<in># H" "plain_valid c (rq_handle r) (take l (rq_ids r)) (take l row)" "l \<le> rq_cached r"
    "l \<le> length (rq_ids r)" "rq_cached r \<le> e" "e \<le> length row" "cm_psize c dvd l" "cm_psize c dvd e"
    "private_slots r c = slice l e row" "paged (cm_psize c) (slice l e row)"
proof -
  note p = plain_okD [OF assms(1)]
  note h = assms(2) [unfolded holds_def Let_def, folded l_def row_def e_def]
  show v: "plain_valid c (rq_handle r) (take l (rq_ids r)) (take l row)" using h by simp
  show "rq_handle r \<in># H" "l \<le> rq_cached r" "e \<le> length row" using h by simp_all
  show "rq_cached r \<le> e" using ceil_pages_ge [OF p(2)] by (simp add: e_def)
  show "cm_psize c dvd e" by (simp add: e_def)
  have "handle_len (rq_handle r) = length (take l (rq_ids r))" and "plain_content c (take l (rq_ids r)) (take l row)"
    using plain_pc.valid_law [OF p(1) v] by simp_all
  then have ll: "l = length (take l (rq_ids r))" and ct: "plain_content c (take l (rq_ids r)) (take l row)"
    by (simp_all add: l_def)
  have "cm_psize c dvd length (take l (rq_ids r))" using plain_pc.content_law [OF p(1) ct] by blast
  then show "cm_psize c dvd l" by (simp only: ll [symmetric])
  show "l \<le> length (rq_ids r)" using ll by simp
  show "private_slots r c = slice l e row" by (simp add: private_slots_def padded_tail_def l_def row_def e_def)
  then show "paged (cm_psize c) (slice l e row)" using h by simp
qed

text \<open>The part of a commit that both ends share: insert, unlock, release of the duplicates.\<close>

lemma commit_shared:
  assumes ok: "plain_ok c H" and h: "holds c H r" and ids: "rq_cached r \<le> length (rq_ids r)"
  defines "l \<equiv> handle_len (rq_handle r)" and "row \<equiv> cm_table c (rq_table r)"
    and "e \<equiv> ceil_pages (rq_cached r) (cm_psize c) * cm_psize c"
  obtains c1 k h' us c2 c3 where
    "cm_insert (take (rq_cached r) (rq_ids r)) (take (rq_cached r) row) c = Inr (c1, k, h')"
    "cm_unlock (rq_handle r) c1 = Inr c2" "c3 = cm_release (slice l k (take (rq_cached r) row)) c2"
    "plain_ok c3 (H - {#rq_handle r#})" "frame c c2" "l \<le> k" "k \<le> handle_len h'" "handle_len h' \<le> rq_cached r"
    "cm_psize c dvd k" "cm_psize c dvd handle_len h'" "take l us = take l row" "length us = k"
    "plain_valid c3 h' (take (handle_len h') (rq_ids r)) (us @ slice k (handle_len h') row)"
    "pool c3 + mset (slice (handle_len h') e row) = pool c + mset (slice l e row)"
    "paged (cm_psize c) (slice (handle_len h') e row)"
    "\<And>g ts ws. plain_valid c g ts ws \<Longrightarrow> plain_valid c3 g ts ws"
proof -
  note p = plain_okD [OF ok]
  note d = holdsD [OF ok h, folded l_def row_def e_def]
  let ?ids = "take (rq_cached r) (rq_ids r)" and ?idx = "take (rq_cached r) row"
  have tl: "take l ?ids = take l (rq_ids r)" using d(3) by (simp add: min_def)
  have v: "plain_valid c (rq_handle r) (take (handle_len (rq_handle r)) ?ids) (take l row)"
    using d(2) tl by (simp add: l_def)
  have len: "handle_len (rq_handle r) \<le> length ?ids" "length ?ids \<le> length ?idx"
    using ids d(3,5,6) by (simp_all add: l_def)
  obtain c1 k h' us c2 where r: "cm_insert ?ids ?idx c = Inr (c1, k, h')" "cm_unlock (rq_handle r) c1 = Inr c2"
    "plain_inv c2 (H - {#rq_handle r#})" "cm_psize c2 = cm_psize c" "l \<le> k" "k \<le> handle_len h'"
    "handle_len h' \<le> length ?ids" "cm_psize c dvd k" "cm_psize c dvd handle_len h'" "length us = k"
    "take l us = take l row" "plain_content c (take k ?ids) us"
    "plain_valid c2 h' (take (handle_len h') ?ids) (us @ slice k (handle_len h') ?idx)"
    "plain_slots c2 = plain_slots c + mset (slice k (handle_len h') ?idx)"
    "\<And>g ts ws. plain_valid c g ts ws \<Longrightarrow> plain_valid c2 g ts ws"
    "\<And>ts vs. plain_content c2 ts vs \<Longrightarrow> plain_content c ts vs \<or>
       (\<exists>n \<le> handle_len h'. cm_psize c dvd n \<and> vs = take n (us @ slice k (handle_len h') ?idx))"
    by (rule plain_pc.commit [OF p(1) d(1) v len, folded l_def]; (assumption | blast)?)
  have hl: "handle_len h' \<le> rq_cached r" using r(7) by simp
  have sl: "slice a b ?idx = slice a b row" if "b \<le> rq_cached r" for a b using that by (rule slice_take)
  have piece: "paged (cm_psize c) (slice a b row)" if "l \<le> a" "b \<le> e" "cm_psize c dvd a" "cm_psize c dvd b" for a b
    using slice_slice [OF that(1,2), of row] paged_slice [OF p(2) d(10), of "a - l" "b - l"] that(3,4) d(7)
    by (simp add: dvd_diff_nat)
  have fr: "frame c c2" by (rule frame_trans [OF cm_insert_frame [OF r(1)] cm_unlock_frame [OF r(2)]])
  have us: "paged (cm_psize c) us" by (rule p(4) [OF r(12)])
  have new: "paged (cm_psize c) (us @ slice k (handle_len h') row)"
    using r(5,8,9) hl d(5) by (intro paged_append [OF p(2) us] piece) simp_all
  have tk: "take (handle_len h') ?ids = take (handle_len h') (rq_ids r)" using hl by (simp add: min_def)
  let ?c3 = "cm_release (slice l k ?idx) c2"
  have pk: "paged (cm_psize c) (slice l k row)" using r(6,8) hl d(5,7) by (intro piece) simp_all
  have "plain_ok c2 (H - {#rq_handle r#})"
  proof (rule plain_okI [OF ok fr r(3)])
    fix ts vs assume "plain_content c2 ts vs"
    then have "plain_content c ts vs \<or> (\<exists>n. cm_psize c dvd n \<and> vs = take n (us @ slice k (handle_len h') row))"
      using r(16) sl [OF hl] by auto
    then show "paged (cm_psize c) vs" using p(4) paged_take [OF p(2) new] by auto
  qed
  then have ok3: "plain_ok ?c3 (H - {#rq_handle r#})"
    by (rule cm_release_ok) (use pk r(4,6) sl hl in simp)
  have cat: "slice l k row @ slice k (handle_len h') row @ slice (handle_len h') e row = slice l e row"
    using r(5,6) hl d(5) by (simp add: slice_append)
  have "pool ?c3 = pool c + mset (slice k (handle_len h') row) + mset (slice l k row)"
    using cm_release_pool [of c2 "slice l k row"] pool_frame [OF fr r(14)] r(4,6) p(2) pk sl hl by simp
  then have po: "pool ?c3 + mset (slice (handle_len h') e row) = pool c + mset (slice l e row)"
    by (simp flip: cat)
  show ?thesis
    by (rule that [OF r(1,2) refl ok3 fr r(5,6) hl r(8,9,11,10) _ po])
      (use r(9,13,15) tk sl [OF hl] piece [of "handle_len h'" e] r(5,6) d(8) in simp_all)
qed


section \<open>Commit of a request\<close>

lemma cache_req_plain_kind: "plain_inv c H \<Longrightarrow> cache_req fin r c = cache_req_plain fin r c"
  by (elim plain_cases) (simp_all add: cache_req_def)

lemma plain_indices:
  assumes "plain_inv c H" and "plain_valid c h ts vs" and "0 < handle_len h"
  shows "handle_indices h c = Inr vs"
  using assms(1)
proof (cases rule: plain_cases)
  case naive
  then show ?thesis using assms(2,3) by (simp add: plain_defs split: handle.splits)
next
  case (radix s R)
  then obtain g where g: "h = RadixH g" "radix_valid s g ts vs"
    using assms(2) by (auto simp: plain_defs split: handle.splits)
  then have "get_matched_indices g s = Inr vs"
    using get_matched_indices_ok [OF radix_invD(1) [OF radix(4)]] assms(3) by (simp add: radix_valid_def)
  then show ?thesis using radix(1) g(1) by (simp add: handle_indices_def)
qed

lemma copy_slice_same:
  assumes "a \<le> b" and "b \<le> length row" and "length src = b - a"
  shows "copy_slice a b src row = Inr (take a row @ src @ drop b row)"
  using assms by (simp add: copy_slice_def)

lemma commit_finished:
  assumes ok: "plain_ok c H" and h: "holds c H r" and ids: "rq_cached r \<le> length (rq_ids r)" and mm: "\<not> rq_mm r"
  obtains c' where "cache_req True r c = Inr (c', r)" "plain_ok c' (H - {#rq_handle r#})"
    "cm_table c' = cm_table c" "cm_psize c' = cm_psize c" "cm_pages c' = cm_pages c"
    "pool c' = pool c + mset (private_slots r c)"
    "\<And>g ts ws. plain_valid c g ts ws \<Longrightarrow> plain_valid c' g ts ws"
proof -
  let ?l = "handle_len (rq_handle r)" and ?row = "cm_table c (rq_table r)"
    and ?e = "ceil_pages (rq_cached r) (cm_psize c) * cm_psize c"
  note p = plain_okD [OF ok] and d = holdsD [OF ok h]
  obtain c1 k h' us c2 c3 where s: "cm_insert (take (rq_cached r) (rq_ids r)) (take (rq_cached r) ?row) c = Inr (c1, k, h')"
    "cm_unlock (rq_handle r) c1 = Inr c2" "c3 = cm_release (slice ?l k (take (rq_cached r) ?row)) c2"
    "plain_ok c3 (H - {#rq_handle r#})" "frame c c2"
    "pool c3 + mset (slice (handle_len h') ?e ?row) = pool c + mset (slice ?l ?e ?row)"
    "paged (cm_psize c) (slice (handle_len h') ?e ?row)"
    "\<And>g ts ws. plain_valid c g ts ws \<Longrightarrow> plain_valid c3 g ts ws"
    by (rule commit_shared [OF ok h ids]) blast
  have f: "cm_table c3 = cm_table c" "cm_psize c3 = cm_psize c" "cm_swa c2 = None" "cm_swa c3 = None"
    "cm_pages c3 = cm_pages c" "cm_table c2 = cm_table c" "cm_psize c2 = cm_psize c" using s(3,5) p(3) by (simp_all add: frame_def cm_release_def split: option.splits)
  let ?c4 = "cm_release (slice (handle_len h') ?e ?row) c3"
  have a: "cache_req True r c = Inr (?c4, r)"
    using s(1,2) f mm by (simp add: cache_req_plain_kind [OF p(1)] cache_req_plain_def Let_def release_both_plain
        padded_tail_def flip: s(3))
  have b: "plain_ok ?c4 (H - {#rq_handle r#})" by (rule cm_release_ok [OF s(4)]) (simp add: f s(7))
  have e: "pool ?c4 = pool c + mset (private_slots r c)"
    using cm_release_pool [of c3 "slice (handle_len h') ?e ?row"] s(6,7) f p(2) d(9) by simp
  have g: "cm_pages ?c4 = cm_pages c" using f(5) by (simp add: cm_release_def split: option.splits)
  show ?thesis by (rule that [OF a b _ _ g e]) (use s(8) f in simp_all)
qed

lemma commit_chunk:
  assumes ok: "plain_ok c H" and h: "holds c H r" and ids: "rq_cached r \<le> length (rq_ids r)" and mm: "\<not> rq_mm r"
  obtains c' h' where "cache_req False r c = Inr (c', r\<lparr>rq_handle := h'\<rparr>)"
    "plain_ok c' (add_mset h' (H - {#rq_handle r#}))"
    "holds c' (add_mset h' (H - {#rq_handle r#})) (r\<lparr>rq_handle := h'\<rparr>)"
    "\<And>t. t \<noteq> rq_table r \<Longrightarrow> cm_table c' t = cm_table c t"
    "cm_psize c' = cm_psize c" "cm_pages c' = cm_pages c" "handle_len (rq_handle r) \<le> handle_len h'"
    "pool c' + mset (private_slots (r\<lparr>rq_handle := h'\<rparr>) c') = pool c + mset (private_slots r c)"
    "\<And>g ts ws. plain_valid c g ts ws \<Longrightarrow> plain_valid c' g ts ws"
proof -
  let ?l = "handle_len (rq_handle r)" and ?row = "cm_table c (rq_table r)"
    and ?e = "ceil_pages (rq_cached r) (cm_psize c) * cm_psize c"
  note p = plain_okD [OF ok] and d = holdsD [OF ok h]
  obtain c1 k h' us c2 c3 where s: "cm_insert (take (rq_cached r) (rq_ids r)) (take (rq_cached r) ?row) c = Inr (c1, k, h')"
    "cm_unlock (rq_handle r) c1 = Inr c2" "c3 = cm_release (slice ?l k (take (rq_cached r) ?row)) c2"
    "plain_ok c3 (H - {#rq_handle r#})" "frame c c2" "?l \<le> k" "k \<le> handle_len h'" "handle_len h' \<le> rq_cached r"
    "take ?l us = take ?l ?row" "length us = k"
    "plain_valid c3 h' (take (handle_len h') (rq_ids r)) (us @ slice k (handle_len h') ?row)"
    "pool c3 + mset (slice (handle_len h') ?e ?row) = pool c + mset (slice ?l ?e ?row)"
    "paged (cm_psize c) (slice (handle_len h') ?e ?row)"
    "\<And>g ts ws. plain_valid c g ts ws \<Longrightarrow> plain_valid c3 g ts ws"
    by (rule commit_shared [OF ok h ids]) blast
  note p3 = plain_okD [OF s(4)]
  have f: "cm_table c3 = cm_table c" "cm_psize c3 = cm_psize c" "cm_swa c2 = None" "cm_swa c3 = None"
    "cm_pages c3 = cm_pages c" "cm_table c2 = cm_table c" "cm_psize c2 = cm_psize c" using s(3,5) p(3) by (simp_all add: frame_def cm_release_def split: option.splits)
  define row' where "row' = us @ drop k ?row"
  define c4 where "c4 = (if k > ?l then set_row (rq_table r) row' c3 else c3)"
  have kr: "k \<le> length ?row" using s(7,8) d(5,6) by simp
  have row: "cm_table c4 (rq_table r) = row'"
  proof (cases "k > ?l")
    case False
    then have "us = take k ?row" using s(6,9,10) by simp
    then have "row' = ?row" by (simp add: row'_def)
    then show ?thesis using False f(1) by (simp add: c4_def)
  qed (simp add: c4_def)
  have sel: "(if k > ?l then and_then (handle_indices h' c3) (\<lambda>canonical.
                and_then (copy_slice ?l k (slice ?l k canonical) (cm_table c3 (rq_table r))) (\<lambda>row.
                Inr (set_row (rq_table r) row c3))) else Inr c3) = Inr c4"
  proof (cases "k > ?l")
    case True
    have i: "handle_indices h' c3 = Inr (us @ slice k (handle_len h') ?row)"
      using True s(7) by (intro plain_indices [OF p3(1) s(11)]) simp
    have sl: "slice ?l k (us @ slice k (handle_len h') ?row) = drop ?l us"
      using s(10) by (simp add: slice_def)
    have "copy_slice ?l k (drop ?l us) ?row = Inr (take ?l ?row @ drop ?l us @ drop k ?row)"
      using s(6,10) kr by (intro copy_slice_same) simp_all
    also have "take ?l ?row @ drop ?l us @ drop k ?row = row'"
      unfolding row'_def s(9) [symmetric] by (simp flip: append_assoc)
    finally show ?thesis using True i sl f(1) by (simp add: c4_def)
  qed (simp add: c4_def)
  have c4: "plain_inv c4 H' = plain_inv c3 H'" "plain_valid c4 = plain_valid c3" "plain_content c4 = plain_content c3"
    "pool c4 = pool c3" "cm_psize c4 = cm_psize c3" "cm_pages c4 = cm_pages c3" for H'
    by (simp_all add: c4_def) (simp add: set_row_def)
  obtain c5 h5 where k5: "cm_lock h' c4 = Inr (c5, h5)" "plain_inv c5 (add_mset h' (H - {#rq_handle r#}))"
    "cm_psize c5 = cm_psize c4" "plain_content c5 = plain_content c4" "plain_slots c5 = plain_slots c4"
    "\<And>g ts ws. plain_valid c4 g ts ws \<Longrightarrow> plain_valid c5 g ts ws"
    using plain_pc.lock_law [of c4 "H - {#rq_handle r#}" h', unfolded c4(1,2), OF p3(1) s(11)]
    by (auto simp: and_then_eq_Inr c4(2))
  have h5: "h5 = h'" using cm_lock_handle [OF _ k5(1)] p3(1) c4(1) by blast
  have f5: "frame c4 c5" by (rule cm_lock_frame [OF k5(1)])
  have tab: "cm_table c5 (rq_table r) = row'" "\<And>t. t \<noteq> rq_table r \<Longrightarrow> cm_table c5 t = cm_table c t"
    using f5 row f(1) by (auto simp: frame_def c4_def set_row_def)
  let ?r' = "r\<lparr>rq_handle := h'\<rparr>" and ?H' = "add_mset h' (H - {#rq_handle r#})"
  have q: "cache_req False r c = Inr (c5, ?r')"
    unfolding cache_req_plain_kind [OF p(1)] cache_req_plain_def Let_def
    by (simp only: mm if_False s(1,2) and_then_simps prod.case release_both_plain [OF f(3)] sel k5(1) h5
        flip: s(3))
  have ok4: "plain_ok c4 (H - {#rq_handle r#})"
    using s(4) c4 by (auto simp: plain_ok_def c4_def set_row_def waiting_def)
  have ok5: "plain_ok c5 ?H'"
    by (rule plain_okI [OF ok4 f5 k5(2)]) (use k5(4) c4(3,5) f(2) p3(4) in simp)
  have ps: "cm_psize c5 = cm_psize c" using k5(3) c4(5) f(2) by simp
  have sl: "slice (handle_len h') ?e row' = slice (handle_len h') ?e ?row"
  proof -
    have "min k ?e = k" using s(7,8) d(5) by simp
    then show ?thesis using s(7,10) by (simp add: row'_def slice_def drop_take)
  qed
  have pr: "private_slots ?r' c5 = slice (handle_len h') ?e ?row"
    using tab(1) ps sl by (simp add: private_slots_def padded_tail_def)
  have "take (handle_len h') row' = us @ slice k (handle_len h') ?row"
    using s(7,10) by (simp add: row'_def slice_def drop_take)
  then have "holds c5 ?H' ?r'"
    using k5(6) s(11,8,13) c4(2) tab(1) ps pr kr s(10) d(6) by (simp add: holds_def Let_def row'_def)
  moreover have "pool c5 + mset (private_slots ?r' c5) = pool c + mset (private_slots r c)"
    using pool_frame [OF f5, of "{#}"] k5(5) c4(4) s(12) pr d(9) by simp
  moreover have "cm_pages c5 = cm_pages c" using f5 c4(6) f(5) by (simp add: frame_def)
  ultimately show ?thesis
    using that [OF q ok5] tab(2) ps s(6,7,14) k5(6) c4(2) by simp
qed


section \<open>Allocation\<close>

text \<open>The manager after an allocation: the same but for the free list and the tree.\<close>

definition same_rest :: "cm \<Rightarrow> cm \<Rightarrow> bool" where
  "same_rest c c' \<longleftrightarrow> cm_lazy c' = cm_lazy c \<and> cm_table c' = cm_table c \<and>
     cm_swa c' = cm_swa c \<and> cm_psize c' = cm_psize c \<and> cm_pages c' = cm_pages c \<and> cm_kind c' = cm_kind c"

lemma evict_paged:
  assumes ok: "plain_ok c H" and n: "0 < sz" "sz \<le> pc_evictable (cm_pc c)"
  obtains c' vs where "cm_evict sz c = Inr (c', vs)" "frame c c'" "plain_ok c' H" "paged (cm_psize c) vs"
    "plain_slots c = mset vs + plain_slots c'" "sz \<le> int (length vs)"
    "pc_evictable (cm_pc c') = pc_evictable (cm_pc c) - int (length vs)"
    "\<And>h ts us. h \<in># H \<Longrightarrow> plain_valid c h ts us \<Longrightarrow> plain_valid c' h ts us"
proof -
  note p = plain_okD [OF ok]
  obtain c' vss where e: "cm_evict sz c = Inr (c', concat vss)" "plain_inv c' H" "cm_psize c' = cm_psize c"
    "plain_slots c = mset (concat vss) + plain_slots c'" "sz \<le> int (length (concat vss))"
    "pc_evictable (cm_pc c') = pc_evictable (cm_pc c) - int (length (concat vss))"
    "\<forall>v \<in> set vss. \<exists>ts us. plain_content c ts (us @ v) \<and> plain_content c (take (length us) ts) us"
    "\<forall>ts vs. plain_content c' ts vs \<longrightarrow> plain_content c ts vs"
    "\<forall>h ts us. h \<in># H \<and> plain_valid c h ts us \<longrightarrow> plain_valid c' h ts us"
    using plain_pc.evict_law [OF p(1) n] by blast
  have "paged (cm_psize c) v" if v: "v \<in> set vss" for v
  proof -
    obtain ts us where u: "plain_content c ts (us @ v)" "plain_content c (take (length us) ts) us"
      using e(7) v by blast
    have "paged (cm_psize c) (drop (length us) (us @ v))"
      by (rule paged_drop [OF p(2) p(4) [OF u(1)] paged_dvd [OF p(2) p(4) [OF u(2)]]])
    then show ?thesis by simp
  qed
  then have pg: "paged (cm_psize c) (concat vss)" by (intro paged_concat p(2))
  have fr: "frame c c'" by (rule cm_evict_frame [OF p(1) e(1)])
  have "plain_ok c' H" by (rule plain_okI [OF ok fr e(2)]) (use e(8) p(4) in blast)
  then show ?thesis using that [OF e(1) fr _ pg e(4,5,6)] e(9) by blast
qed

lemma waiting_drop: "waiting (c\<lparr>cm_free := fs\<rparr>) = waiting c"
  by (simp add: waiting_def)

lemma with_free:
  assumes "plain_ok c H" and "\<And>p. p \<in> set fs \<Longrightarrow> cm_psize c dvd p"
  shows "plain_ok (c\<lparr>cm_free := fs\<rparr>) H" "plain_valid (c\<lparr>cm_free := fs\<rparr>) = plain_valid c"
    "plain_slots (c\<lparr>cm_free := fs\<rparr>) = plain_slots c"
proof -
  have e: "plain_inv (c\<lparr>cm_free := fs\<rparr>) H = plain_inv c H" "plain_content (c\<lparr>cm_free := fs\<rparr>) = plain_content c"
    "plain_valid (c\<lparr>cm_free := fs\<rparr>) = plain_valid c" "plain_slots (c\<lparr>cm_free := fs\<rparr>) = plain_slots c"
    by (rule plain_cong; simp)+
  then show "plain_valid (c\<lparr>cm_free := fs\<rparr>) = plain_valid c" "plain_slots (c\<lparr>cm_free := fs\<rparr>) = plain_slots c"
    by simp_all
  show "plain_ok (c\<lparr>cm_free := fs\<rparr>) H"
    using assms e plain_okD(5) [OF assms(1)] by (auto simp: plain_ok_def waiting_drop)
qed

lemma cm_allocate_ok:
  assumes ok: "plain_ok c H" and n: "int (needed * cm_psize c) \<le> available_size c"
  obtains c' pages where "cm_allocate needed c = Inr (c', pages)" "length pages = needed"
    "\<And>p. p \<in> set pages \<Longrightarrow> cm_psize c dvd p" "plain_ok c' H" "same_rest c c'"
    "pool c = mset (page_to_token (cm_psize c) pages) + pool c'"
    "available_size c' = available_size c - int (needed * cm_psize c)"
    "\<And>h ts us. h \<in># H \<Longrightarrow> plain_valid c h ts us \<Longrightarrow> plain_valid c' h ts us"
proof -
  note p = plain_okD [OF ok]
  let ?ps = "cm_psize c"
  obtain c1 where c1: "(if needed > length (cm_free c) then
        and_then (cm_evict (int ((needed - length (cm_free c)) * cm_psize c)) c) (\<lambda>(c', evicted).
          let c'' = c'\<lparr>cm_free := cm_free c' @ stride (cm_psize c') evicted\<rparr> in
          if length (cm_free c'') \<ge> needed then Inr c'' else Inl AssertionError)
      else Inr c) = Inr c1" "plain_ok c1 H" "same_rest c c1" "pool c = pool c1" "needed \<le> length (cm_free c1)"
    "available_size c1 = available_size c"
    "\<And>h ts us. h \<in># H \<Longrightarrow> plain_valid c h ts us \<Longrightarrow> plain_valid c1 h ts us"
  proof (cases "needed > length (cm_free c)")
    case False
    then show ?thesis by (intro that [of c]) (simp_all add: ok same_rest_def)
  next
    case True
    let ?sz = "int ((needed - length (cm_free c)) * ?ps)"
    have "0 < ?sz" "?sz \<le> pc_evictable (cm_pc c)"
      using True n p(2) by (simp_all add: available_size_def of_nat_diff left_diff_distrib)
    then obtain c' vs where e: "cm_evict ?sz c = Inr (c', vs)" "frame c c'" "plain_ok c' H" "paged ?ps vs"
      "plain_slots c = mset vs + plain_slots c'" "?sz \<le> int (length vs)"
      "pc_evictable (cm_pc c') = pc_evictable (cm_pc c) - int (length vs)"
      "\<And>h ts us. h \<in># H \<Longrightarrow> plain_valid c h ts us \<Longrightarrow> plain_valid c' h ts us"
      by (rule evict_paged [OF ok]) blast
    note f = e(2) [unfolded frame_def]
    have pv: "page_to_token ?ps (stride ?ps vs) = vs" "\<And>p. p \<in> set (stride ?ps vs) \<Longrightarrow> ?ps dvd p"
      using e(4) by (auto simp: paged_def)
    have ls: "length (stride ?ps vs) * ?ps = length vs"
      using page_to_token_length [OF p(2), of "stride ?ps vs"] pv(1) by simp
    have "(needed - length (cm_free c)) * ?ps \<le> length (stride ?ps vs) * ?ps" using ls e(6) by linarith
    then have len: "needed \<le> length (cm_free c @ stride ?ps vs)" using p(2) by simp
    let ?c = "c'\<lparr>cm_free := cm_free c @ stride ?ps vs\<rparr>"
    have w: "plain_ok ?c H" "plain_valid ?c = plain_valid c'" "plain_slots ?c = plain_slots c'"
      by (rule with_free [OF e(3)]; use pv(2) p(5) f in auto)+
    have "pool c = pool ?c"
      using w(3) f pv(1) e(5) by (simp add: pool_def waiting_def page_to_token_append)
    moreover have av: "available_size ?c = available_size c"
      using f e(7) by (simp add: available_size_def algebra_simps flip: ls)
    moreover have "same_rest c ?c" using f by (simp add: same_rest_def)
    ultimately show ?thesis
      using True e(1) f len w(1,2) e(8) av by (intro that [of ?c]) (simp_all add: Let_def)
  qed
  let ?c' = "c1\<lparr>cm_free := drop needed (cm_free c1)\<rparr>" and ?pages = "take needed (cm_free c1)"
  have ps: "cm_psize c1 = ?ps" using c1(3) by (simp add: same_rest_def)
  have al: "?ps dvd q" if "q \<in> set (cm_free c1)" for q using plain_okD(5) [OF c1(2), of q] that ps by simp
  have w: "plain_ok ?c' H" "plain_valid ?c' = plain_valid c1" "plain_slots ?c' = plain_slots c1"
    by (rule with_free [OF c1(2)]; use al ps in \<open>auto dest: in_set_dropD\<close>)+
  have "cm_allocate needed c = Inr (?c', ?pages)" unfolding cm_allocate_def c1(1) by simp
  moreover have "length ?pages = needed" using c1(5) by simp
  moreover have "?ps dvd q" if "q \<in> set ?pages" for q using al that by (auto dest: in_set_takeD)
  moreover have "same_rest c ?c'" using c1(3) by (simp add: same_rest_def)
  moreover have "pool c1 = mset (page_to_token ?ps ?pages) + pool ?c'"
  proof -
    have "page_to_token ?ps (cm_free c1 @ waiting c1) =
        page_to_token ?ps ?pages @ page_to_token ?ps (drop needed (cm_free c1) @ waiting c1)"
      by (simp only: page_to_token_append [symmetric] append_assoc [symmetric] append_take_drop_id)
    then show ?thesis using w(3) ps by (simp add: pool_def waiting_def)
  qed
  moreover have "available_size ?c' = available_size c - int (needed * ?ps)"
    using c1(5,6) ps by (simp add: available_size_def of_nat_diff left_diff_distrib)
  ultimately show ?thesis using that [of ?c' ?pages] w(1,2) c1(4,7) by simp
qed


text \<open>What the page table rows of a batch look like after the allocation.\<close>

definition rows_grown :: "nat \<Rightarrow> (nat \<Rightarrow> slot list) \<Rightarrow> (nat \<Rightarrow> slot list) \<Rightarrow> req \<Rightarrow> slot list \<Rightarrow> bool" where
  "rows_grown ps table table' r ch \<longleftrightarrow>
     (let a = ceil_pages (rq_cached r) ps * ps; b = ceil_pages (rq_device r) ps * ps; row = table (rq_table r) in
      table' (rq_table r) = take a row @ ch @ drop b row \<and> length ch = b - a \<and> paged ps ch)"

definition new_pages :: "nat \<Rightarrow> req \<Rightarrow> nat" where
  "new_pages ps r = ceil_pages (rq_device r) ps - ceil_pages (rq_cached r) ps"

lemma alloc_info_Cons:
  "alloc_info ps (r # rs) =
     (if 0 < new_pages ps r
      then (rq_table r, ceil_pages (rq_cached r) ps, ceil_pages (rq_device r) ps) # alloc_info ps rs
      else alloc_info ps rs)"
  by (simp add: alloc_info_def map_filter_simps new_pages_def Let_def)

lemma alloc_info_sum: "(\<Sum>(t, f, l) \<leftarrow> alloc_info ps rs. l - f) = sum_list (map (new_pages ps) rs)"
proof (induction rs)
  case Nil
  then show ?case by (simp add: alloc_info_def map_filter_simps)
next
  case (Cons r rs)
  then show ?case by (auto simp: alloc_info_Cons new_pages_def)
qed

lemma alloc_info_zero: "sum_list (map (new_pages ps) rs) = 0 \<Longrightarrow> alloc_info ps rs = []"
proof (induction rs)
  case Nil
  then show ?case by (simp add: alloc_info_def map_filter_simps)
next
  case (Cons r rs)
  then show ?case by (simp add: alloc_info_Cons)
qed

lemma write_page_table_grows:
  assumes "0 < ps" and "distinct (map rq_table rs)"
    and "\<And>r. r \<in> set rs \<Longrightarrow> ceil_pages (rq_cached r) ps \<le> ceil_pages (rq_device r) ps \<and>
      ceil_pages (rq_device r) ps * ps \<le> length (table (rq_table r))"
    and "length pages = sum_list (map (new_pages ps) rs)" and "\<And>p. p \<in> set pages \<Longrightarrow> ps dvd p"
  shows "\<exists>table' chs. write_page_table table (page_to_token ps pages) (alloc_info ps rs) ps = Inr table' \<and>
     list_all2 (rows_grown ps table table') rs chs \<and> page_to_token ps pages = concat chs \<and>
     (\<forall>t. t \<notin> rq_table ` set rs \<longrightarrow> table' t = table t)"
  using assms(2-)
proof (induction rs arbitrary: table pages)
  case Nil
  then show ?case by (simp add: alloc_info_def map_filter_simps)
next
  case (Cons r rs)
  let ?f = "ceil_pages (rq_cached r) ps" and ?l = "ceil_pages (rq_device r) ps" and ?row = "table (rq_table r)"
  let ?n = "new_pages ps r"
  let ?ch = "page_to_token ps (take ?n pages)" and ?rest = "drop ?n pages"
  have fl: "?f \<le> ?l" "?l * ps \<le> length ?row" using Cons.prems(2) [of r] by simp_all
  have np: "?n \<le> length pages" using Cons.prems(3) by simp
  have cat: "page_to_token ps pages = ?ch @ page_to_token ps ?rest" by (simp flip: page_to_token_append)
  have lch: "length ?ch = ?l * ps - ?f * ps"
    using np assms(1) by (simp add: new_pages_def diff_mult_distrib)
  have pch: "paged ps ?ch" using assms(1) Cons.prems(4) by (auto dest: in_set_takeD)
  let ?row' = "take (?f * ps) ?row @ ?ch @ drop (?l * ps) ?row"
  let ?t1 = "table(rq_table r := ?row')"
  have t1: "?t1 (rq_table q) = table (rq_table q)" if "q \<in> set rs" for q
  proof -
    have "rq_table q \<noteq> rq_table r" using Cons.prems(1) that by (auto simp: image_iff)
    then show ?thesis by simp
  qed
  have "\<exists>table' chs. write_page_table ?t1 (page_to_token ps ?rest) (alloc_info ps rs) ps = Inr table' \<and>
     list_all2 (rows_grown ps ?t1 table') rs chs \<and> page_to_token ps ?rest = concat chs \<and>
     (\<forall>t. t \<notin> rq_table ` set rs \<longrightarrow> table' t = ?t1 t)"
  proof (rule Cons.IH)
    show "distinct (map rq_table rs)" using Cons.prems(1) by simp
    show "ceil_pages (rq_cached q) ps \<le> ceil_pages (rq_device q) ps \<and>
        ceil_pages (rq_device q) ps * ps \<le> length (?t1 (rq_table q))" if "q \<in> set rs" for q
      unfolding t1 [OF that] using Cons.prems(2) [of q] that by simp
    show "length ?rest = sum_list (map (new_pages ps) rs)" using Cons.prems(3) by simp
    show "ps dvd q" if "q \<in> set ?rest" for q using Cons.prems(4) that by (auto dest: in_set_dropD)
  qed
  then obtain table' chs where w: "write_page_table ?t1 (page_to_token ps ?rest) (alloc_info ps rs) ps = Inr table'"
    "list_all2 (rows_grown ps ?t1 table') rs chs" "page_to_token ps ?rest = concat chs"
    "\<And>t. t \<notin> rq_table ` set rs \<Longrightarrow> table' t = ?t1 t" by blast
  have "rq_table r \<notin> rq_table ` set rs" using Cons.prems(1) by simp
  then have tr: "table' (rq_table r) = ?row'" using w(4) by simp
  have "rows_grown ps table table' r ?ch" using tr lch pch by (simp add: rows_grown_def Let_def)
  moreover have "list_all2 (rows_grown ps table table') rs chs"
    using w(2) by (rule list.rel_mono_strong) (simp only: rows_grown_def Let_def t1)
  moreover have "write_page_table table (page_to_token ps pages) (alloc_info ps (r # rs)) ps = Inr table'"
  proof (cases "0 < ?n")
    case True
    then show ?thesis using w(1) fl lch unfolding alloc_info_Cons cat by (simp add: Let_def)
  next
    case False
    then have z: "?n = 0" and e: "?f = ?l" using fl by (simp_all add: new_pages_def)
    have "?row' = ?row" using z e by simp
    then have "?t1 = table" by simp
    then show ?thesis using w(1) z by (simp add: alloc_info_Cons)
  qed
  ultimately show ?case
    using w(3,4) cat by (intro exI [of _ table'] exI [of _ "?ch # chs"]) auto
qed


lemma holds_grown:
  assumes ok: "plain_ok c H" and h: "holds c H r" and ok': "plain_ok c' H" and ps: "cm_psize c' = cm_psize c"
    and v: "\<And>h ts us. h \<in># H \<Longrightarrow> plain_valid c h ts us \<Longrightarrow> plain_valid c' h ts us"
    and le: "rq_cached r \<le> rq_device r"
    and len: "ceil_pages (rq_device r) (cm_psize c) * cm_psize c \<le> length (cm_table c (rq_table r))"
    and g: "rows_grown (cm_psize c) (cm_table c) (cm_table c') r ch"
  shows "holds c' H (complete_one r)" "private_slots (complete_one r) c' = private_slots r c @ ch"
proof -
  let ?ps = "cm_psize c" and ?l = "handle_len (rq_handle r)" and ?row = "cm_table c (rq_table r)"
  let ?a = "ceil_pages (rq_cached r) ?ps * ?ps" and ?b = "ceil_pages (rq_device r) ?ps * ?ps"
  note p = plain_okD [OF ok] and d = holdsD [OF ok h]
  have ab: "?a \<le> ?b" using le by (simp add: ceil_pages_def div_le_mono)
  have row: "cm_table c' (rq_table r) = take ?a ?row @ ch @ drop ?b ?row" "length ch = ?b - ?a" "paged ?ps ch"
    using g by (simp_all add: rows_grown_def Let_def)
  have la: "?l \<le> ?a" using d(3,5) by simp
  have ta: "length (take ?a ?row) = ?a" using d(6) by simp
  have tl: "take ?l (cm_table c' (rq_table r)) = take ?l ?row" using la ta by (simp add: row(1) min_def)
  have "take ?b (cm_table c' (rq_table r)) = take ?a ?row @ ch" using row(2) ta ab by (simp add: row(1))
  then have sl: "slice ?l ?b (cm_table c' (rq_table r)) = slice ?l ?a ?row @ ch"
    using la ta by (simp add: slice_def)
  show e: "private_slots (complete_one r) c' = private_slots r c @ ch"
    using sl d(9) by (simp add: private_slots_def padded_tail_def complete_one_def ps)
  have "paged ?ps (private_slots r c @ ch)" using d(9,10) row(3) p(2) by (simp add: paged_append)
  moreover have "?b \<le> length (cm_table c' (rq_table r))" using len ta row(2) by (simp add: row(1))
  ultimately show "holds c' H (complete_one r)"
    using d(1,3) v [OF d(1,2)] tl le e by (simp add: holds_def Let_def ps) (simp add: complete_one_def)
qed

lemma allocate_paged_ok:
  assumes ok: "plain_ok c H" and dist: "distinct (map rq_table rs)"
    and rs: "\<And>r. r \<in> set rs \<Longrightarrow> holds c H r \<and> rq_cached r \<le> rq_device r \<and>
      ceil_pages (rq_device r) (cm_psize c) * cm_psize c \<le> length (cm_table c (rq_table r))"
    and av: "int (sum_list (map (new_pages (cm_psize c)) rs) * cm_psize c) \<le> available_size c"
  obtains c' where "allocate_paged rs c = Inr c'" "plain_ok c' H" "cm_psize c' = cm_psize c"
    "cm_pages c' = cm_pages c"
    "available_size c' = available_size c - int (sum_list (map (new_pages (cm_psize c)) rs) * cm_psize c)"
    "\<And>r. r \<in> set rs \<Longrightarrow> holds c' H (complete_one r)"
    "\<And>t. t \<notin> rq_table ` set rs \<Longrightarrow> cm_table c' t = cm_table c t"
    "\<And>h ts us. h \<in># H \<Longrightarrow> plain_valid c h ts us \<Longrightarrow> plain_valid c' h ts us"
    "pool c' + (\<Sum>r \<leftarrow> rs. mset (private_slots (complete_one r) c')) = pool c + (\<Sum>r \<leftarrow> rs. mset (private_slots r c))"
proof -
  let ?ps = "cm_psize c" and ?need = "sum_list (map (new_pages (cm_psize c)) rs)"
  note p = plain_okD [OF ok]
  obtain c1 pages where a: "cm_allocate ?need c = Inr (c1, pages)" "length pages = ?need"
    "\<And>p. p \<in> set pages \<Longrightarrow> ?ps dvd p" "plain_ok c1 H" "same_rest c c1"
    "pool c = mset (page_to_token ?ps pages) + pool c1"
    "available_size c1 = available_size c - int (?need * ?ps)"
    "\<And>h ts us. h \<in># H \<Longrightarrow> plain_valid c h ts us \<Longrightarrow> plain_valid c1 h ts us"
    by (rule cm_allocate_ok [OF ok av]) blast
  note f = a(5) [unfolded same_rest_def]
  have mono: "ceil_pages (rq_cached r) ?ps \<le> ceil_pages (rq_device r) ?ps" if "r \<in> set rs" for r
    unfolding ceil_pages_def using rs [OF that] by (intro div_le_mono diff_le_mono add_le_mono) simp_all
  obtain tb chs where w: "write_page_table (cm_table c) (page_to_token ?ps pages) (alloc_info ?ps rs) ?ps = Inr tb"
    "list_all2 (rows_grown ?ps (cm_table c) tb) rs chs" "page_to_token ?ps pages = concat chs"
    "\<And>t. t \<notin> rq_table ` set rs \<Longrightarrow> tb t = cm_table c t"
    using write_page_table_grows [OF p(2) dist, of "cm_table c" pages] rs mono a(2,3) by blast
  let ?c' = "c1\<lparr>cm_table := tb\<rparr>"
  have pc: "plain_inv ?c' H = plain_inv c1 H" "plain_content ?c' = plain_content c1" "plain_valid ?c' = plain_valid c1"
    "plain_slots ?c' = plain_slots c1" by (rule plain_cong; simp)+
  have ok': "plain_ok ?c' H" using a(4) pc by (simp add: plain_ok_def waiting_def)
  have pool': "pool ?c' = pool c1" using pc by (simp add: pool_def waiting_def)
  have q: "allocate_paged rs c = Inr (if ?need = 0 then c else ?c')"
  proof (cases "?need = 0")
    case True
    then show ?thesis unfolding allocate_paged_def Let_def alloc_info_sum by (simp only: refl if_True)
  next
    case False
    have "allocate_paged rs c = and_then (cm_allocate ?need c) (\<lambda>(c1, pages).
        let allocated = page_to_token ?ps pages in
        and_then
          (case cm_swa c1 of
             None \<Rightarrow> Inr c1
           | Some _ \<Rightarrow>
               and_then (if cm_kind c1 = KSwa then ensure_swa (length allocated) c1 else Inr c1) (\<lambda>c2.
               case cm_swa c2 of
                 None \<Rightarrow> Inl AttributeError
               | Some p \<Rightarrow> and_then (alloc_swa allocated p) (\<lambda>p'. Inr (c2\<lparr>cm_swa := Some p'\<rparr>)))) (\<lambda>c3.
        and_then (write_page_table (cm_table c3) allocated (alloc_info ?ps rs) (cm_psize c3)) (\<lambda>tb.
        Inr (c3\<lparr>cm_table := tb\<rparr>))))"
      using False unfolding allocate_paged_def Let_def alloc_info_sum by (simp only: if_False)
    also have "\<dots> = Inr ?c'" using a(1) f p(3) w(1) by (simp add: Let_def)
    finally show ?thesis using False by (simp only: if_False)
  qed
  have z: "?c' = c" if "?need = 0"
  proof -
    have e: "c1 = c" using a(1) that by (simp add: cm_allocate_def)
    have "tb = cm_table c"
    proof -
      have "length pages = 0" using a(2) that by (simp only:)
      then show ?thesis using w(1) alloc_info_zero [OF that] by simp
    qed
    then show ?thesis using e by simp
  qed
  have grown: "holds ?c' H (complete_one r) \<and> private_slots (complete_one r) ?c' = private_slots r c @ ch"
    if "r \<in> set rs" "rows_grown ?ps (cm_table c) tb r ch" for r ch
  proof -
    have "cm_psize ?c' = ?ps" "rows_grown ?ps (cm_table c) (cm_table ?c') r ch" using f that(2) by simp_all
    from holds_grown [OF ok _ ok' this(1) _ _ _ this(2)] rs [OF that(1)] a(8) pc(3) show ?thesis by auto
  qed
  have "set rs \<subseteq> S \<Longrightarrow> (\<And>r ch. r \<in> S \<Longrightarrow> rows_grown ?ps (cm_table c) tb r ch \<Longrightarrow>
        private_slots (complete_one r) ?c' = private_slots r c @ ch) \<Longrightarrow>
      list_all2 (rows_grown ?ps (cm_table c) tb) rs chs \<Longrightarrow>
      (\<Sum>r \<leftarrow> rs. mset (private_slots (complete_one r) ?c')) = (\<Sum>r \<leftarrow> rs. mset (private_slots r c)) + mset (concat chs)" for S
    by (induction rs chs rule: list_induct2') auto
  from this [of "set rs"] grown w(2) have
    sum: "(\<Sum>r \<leftarrow> rs. mset (private_slots (complete_one r) ?c')) = (\<Sum>r \<leftarrow> rs. mset (private_slots r c)) + mset (concat chs)"
    by blast
  have hd: "holds ?c' H (complete_one r)" if "r \<in> set rs" for r
  proof -
    have "\<exists>ch. rows_grown ?ps (cm_table c) tb r ch" using w(2) that by (induction rs chs rule: list_induct2') auto
    then show ?thesis using grown that by blast
  qed
  have "(if ?need = 0 then c else ?c') = ?c'" using z by metis
  with q have "allocate_paged rs c = Inr ?c'" by (simp only:)
  moreover have "pool ?c' + (\<Sum>r \<leftarrow> rs. mset (private_slots (complete_one r) ?c')) = pool c + (\<Sum>r \<leftarrow> rs. mset (private_slots r c))"
    unfolding sum pool' a(6) w(3) by (simp add: ac_simps)
  ultimately show ?thesis
    using that [of ?c'] ok' f hd w(4) a(7,8) pc(3) by (simp add: available_size_def)
qed

end
