(* ===== verification/Page_Contract.thy ===== *)
theory Page_Contract
  imports Page_Conservation "HOL-Library.Code_Target_Nat"
begin

text \<open>
  What the page manager over the radix and the naive cache promises to the scheduler: with the running
  requests \<open>rs\<close>, every slot of the pool is free, held by the tree, or private to exactly one request
  (\<open>pages_ok c rs\<close>), and every operation of the manager keeps it so.
\<close>

definition pages_ok :: "cm \<Rightarrow> req list \<Rightarrow> bool" where
  "pages_ok c rs \<longleftrightarrow>
     plain_ok c (mset (map rq_handle rs)) \<and> distinct (map rq_table rs) \<and>
     (\<forall>r \<in> set rs. holds c (mset (map rq_handle rs)) r) \<and>
     pool c + (\<Sum>r \<leftarrow> rs. mset (private_slots r c)) = mset [0..<cm_pages c * cm_psize c]"

lemma pages_okD:
  assumes "pages_ok c rs"
  shows "plain_ok c (mset (map rq_handle rs))" "distinct (map rq_table rs)"
    "\<And>r. r \<in> set rs \<Longrightarrow> holds c (mset (map rq_handle rs)) r"
    "pool c + (\<Sum>r \<leftarrow> rs. mset (private_slots r c)) = mset [0..<cm_pages c * cm_psize c]"
  using assms by (simp_all add: pages_ok_def)

text \<open>A request that an operation does not touch keeps its row, its handle and its pages.\<close>

lemma holds_other:
  assumes "holds c H r" and "rq_handle r \<in># H'" and "cm_psize c' = cm_psize c"
    and "cm_table c' (rq_table r) = cm_table c (rq_table r)"
    and "\<And>ts ws. plain_valid c (rq_handle r) ts ws \<Longrightarrow> plain_valid c' (rq_handle r) ts ws"
  shows "holds c' H' r" "private_slots r c' = private_slots r c"
proof -
  show e: "private_slots r c' = private_slots r c"
    using assms(3,4) by (simp add: private_slots_def padded_tail_def)
  show "holds c' H' r" using assms e by (simp add: holds_def Let_def)
qed

lemma private_cong:
  assumes "\<And>r. r \<in> set rs \<Longrightarrow> private_slots r c' = private_slots r c"
  shows "(\<Sum>r \<leftarrow> rs. mset (private_slots r c')) = (\<Sum>r \<leftarrow> rs. mset (private_slots r c))"
  using assms by (induction rs) simp_all

lemma pages_ok_perm:
  assumes e: "mset rs = mset rs'" and p: "pages_ok c rs"
  shows "pages_ok c rs'"
proof -
  have m: "mset (map f rs) = mset (map f rs')" for f :: "req \<Rightarrow> 'b" using e by simp
  have "distinct (map rq_table rs')" using mset_eq_imp_distinct_iff [OF m [of rq_table]] p by (simp add: pages_ok_def)
  moreover have "(\<Sum>r \<leftarrow> rs. mset (private_slots r c)) = (\<Sum>r \<leftarrow> rs'. mset (private_slots r c))"
    by (simp only: sum_mset_sum_list [symmetric] m)
  ultimately show ?thesis
    using p mset_eq_setD [OF e] unfolding pages_ok_def m [of rq_handle] by simp
qed

lemma all_pages: "0 < ps \<Longrightarrow> page_to_token ps (map (\<lambda>i. i * ps) [0..<n]) = [0..<n * ps]"
proof (induction n)
  case (Suc n)
  have "page_slots ps (n * ps) = [n * ps..<n * ps + ps]"
    by (rule nth_equalityI) (simp_all add: page_slots_def)
  then have "page_to_token ps [n * ps] = [n * ps..<n * ps + ps]"
    using Suc.prems by (simp add: page_to_token_concat)
  moreover have "[0..<Suc n * ps] = [0..<n * ps] @ [n * ps..<n * ps + ps]"
    using upt_add_eq_append [of 0 "n * ps" ps] by (simp add: add.commute)
  ultimately show ?case using Suc by (simp add: page_to_token_append)
qed simp

lemma init_pages_ok:
  assumes ps: "0 < ps" and c: "cm_init pages ps table k lp None window uuid clk = Inr c" and k: "k = KNaive \<or> k = KRadix"
  shows "pages_ok c []"
proof -
  note i = radix_init_facts [OF ps, of uuid "clk 0"]
  have r: "radix_inv (radix_init ps uuid (clk 0)) {#}"
    using radix_init_ok [OF ps, of uuid "clk 0"] i(1,5) by (simp add: radix_inv_def)
  have e: "cm_swa c = None" "cm_psize c = ps" "cm_pages c = pages" "cm_kind c = k" "cm_lazy c = None"
    "cm_free c = map (\<lambda>i. i * ps) [0..<pages]"
    "cm_pc c = (if k = KNaive then PNaive else PRadix (radix_init ps uuid (clk 0)))"
    using c k by (auto simp: cm_init_def make_prefix_cache_def and_then_eq_Inr)
  have "plain_inv c {#}" using e k ps r i(4) by (auto simp: plain_inv_def)
  moreover have "paged ps vs" if "plain_content c ts vs" for ts vs
    using that e(7) k i(3) by (auto simp: plain_content_def split: if_splits)
  moreover have "plain_slots c = {#}" using e(7) i(2) by (simp add: plain_slots_def)
  moreover have "waiting c = []" using e(5) by (simp add: waiting_def)
  ultimately show ?thesis using e all_pages [OF ps, of pages] by (auto simp: pages_ok_def plain_ok_def pool_def)
qed

section \<open>Operations keep the pages\<close>

lemma commit_finished_pages:
  assumes ok: "pages_ok c (r # rs)" and ids: "rq_cached r \<le> length (rq_ids r)" and mm: "\<not> rq_mm r"
  obtains c' where "cache_req True r c = Inr (c', r)" "pages_ok c' rs" "cm_table c' = cm_table c"
proof -
  note d = pages_okD [OF ok]
  have h: "holds c (mset (map rq_handle (r # rs))) r" by (rule d(3)) simp
  obtain c' where c: "cache_req True r c = Inr (c', r)" "plain_ok c' (mset (map rq_handle (r # rs)) - {#rq_handle r#})"
    "cm_table c' = cm_table c" "cm_psize c' = cm_psize c" "cm_pages c' = cm_pages c"
    "pool c' = pool c + mset (private_slots r c)"
    "\<And>g ts ws. plain_valid c g ts ws \<Longrightarrow> plain_valid c' g ts ws"
    by (rule commit_finished [OF d(1) h ids mm]) blast
  have o: "holds c' (mset (map rq_handle rs)) q" "private_slots q c' = private_slots q c" if "q \<in> set rs" for q
    using holds_other [OF d(3) [of q], of "mset (map rq_handle rs)" c'] that c(3,4,7) by simp_all
  have "pool c' + (\<Sum>q \<leftarrow> rs. mset (private_slots q c')) = mset [0..<cm_pages c * cm_psize c]"
    using d(4) c(6) private_cong [of rs c' c, OF o(2)] by (simp add: ac_simps)
  then have "pages_ok c' rs" using c(2,4,5) d(2) o(1) by (simp add: pages_ok_def)
  then show ?thesis using that c(1,3) by blast
qed

lemma commit_chunk_pages:
  assumes ok: "pages_ok c (r # rs)" and ids: "rq_cached r \<le> length (rq_ids r)" and mm: "\<not> rq_mm r"
  obtains c' h' where "cache_req False r c = Inr (c', r\<lparr>rq_handle := h'\<rparr>)" "pages_ok c' (r\<lparr>rq_handle := h'\<rparr> # rs)"
    "handle_len (rq_handle r) \<le> handle_len h'" "\<And>t. t \<noteq> rq_table r \<Longrightarrow> cm_table c' t = cm_table c t"
proof -
  note d = pages_okD [OF ok]
  let ?H = "\<lambda>h'. add_mset h' (mset (map rq_handle (r # rs)) - {#rq_handle r#})"
  have h: "holds c (mset (map rq_handle (r # rs))) r" by (rule d(3)) simp
  obtain c' h' where c: "cache_req False r c = Inr (c', r\<lparr>rq_handle := h'\<rparr>)" "plain_ok c' (?H h')"
    "holds c' (?H h') (r\<lparr>rq_handle := h'\<rparr>)" "\<And>t. t \<noteq> rq_table r \<Longrightarrow> cm_table c' t = cm_table c t"
    "cm_psize c' = cm_psize c" "cm_pages c' = cm_pages c" "handle_len (rq_handle r) \<le> handle_len h'"
    "pool c' + mset (private_slots (r\<lparr>rq_handle := h'\<rparr>) c') = pool c + mset (private_slots r c)"
    "\<And>g ts ws. plain_valid c g ts ws \<Longrightarrow> plain_valid c' g ts ws"
    by (rule commit_chunk [OF d(1) h ids mm]) blast
  have H: "?H h' = mset (map rq_handle (r\<lparr>rq_handle := h'\<rparr> # rs))" by simp
  have o: "holds c' (mset (map rq_handle (r\<lparr>rq_handle := h'\<rparr> # rs))) q" "private_slots q c' = private_slots q c"
    if q: "q \<in> set rs" for q
  proof -
    have "rq_table q \<noteq> rq_table r" using d(2) q by (auto simp: image_iff)
    from c(4) [OF this] holds_other [OF d(3) [of q], of "mset (map rq_handle (r\<lparr>rq_handle := h'\<rparr> # rs))" c'] q c(5,9)
    show "holds c' (mset (map rq_handle (r\<lparr>rq_handle := h'\<rparr> # rs))) q" "private_slots q c' = private_slots q c"
      by simp_all
  qed
  have "pool c' + (\<Sum>q \<leftarrow> r\<lparr>rq_handle := h'\<rparr> # rs. mset (private_slots q c')) =
      pool c' + mset (private_slots (r\<lparr>rq_handle := h'\<rparr>) c') + (\<Sum>q \<leftarrow> rs. mset (private_slots q c))"
    using private_cong [of rs c' c, OF o(2)] by (simp add: add.assoc)
  also have "\<dots> = mset [0..<cm_pages c * cm_psize c]"
    unfolding c(8) using d(4) by (simp add: add.assoc)
  finally have "pages_ok c' (r\<lparr>rq_handle := h'\<rparr> # rs)"
    using c(2,3,5,6) d(2) o(1) unfolding H by (simp add: pages_ok_def)
  then show ?thesis using that c(1,4,7) by blast
qed

lemma allocate_pages:
  assumes ok: "pages_ok c (bs @ rs)"
    and bs: "\<And>r. r \<in> set bs \<Longrightarrow> rq_cached r \<le> rq_device r \<and>
      ceil_pages (rq_device r) (cm_psize c) * cm_psize c \<le> length (cm_table c (rq_table r))"
    and av: "int (sum_list (map (new_pages (cm_psize c)) bs) * cm_psize c) \<le> available_size c"
  obtains c' where "allocate_paged bs c = Inr c'" "pages_ok c' (map complete_one bs @ rs)" "cm_psize c' = cm_psize c"
    "available_size c' = available_size c - int (sum_list (map (new_pages (cm_psize c)) bs) * cm_psize c)"
    "\<And>t. t \<notin> rq_table ` set bs \<Longrightarrow> cm_table c' t = cm_table c t"
proof -
  note d = pages_okD [OF ok]
  let ?H = "mset (map rq_handle (bs @ rs))"
  obtain c' where c: "allocate_paged bs c = Inr c'" "plain_ok c' ?H" "cm_psize c' = cm_psize c"
    "cm_pages c' = cm_pages c"
    "available_size c' = available_size c - int (sum_list (map (new_pages (cm_psize c)) bs) * cm_psize c)"
    "\<And>r. r \<in> set bs \<Longrightarrow> holds c' ?H (complete_one r)"
    "\<And>t. t \<notin> rq_table ` set bs \<Longrightarrow> cm_table c' t = cm_table c t"
    "\<And>h ts us. h \<in># ?H \<Longrightarrow> plain_valid c h ts us \<Longrightarrow> plain_valid c' h ts us"
    "pool c' + (\<Sum>r \<leftarrow> bs. mset (private_slots (complete_one r) c')) = pool c + (\<Sum>r \<leftarrow> bs. mset (private_slots r c))"
    by (rule allocate_paged_ok [OF d(1) _ _ av]) (use d(2,3) bs in auto)
  have o: "holds c' ?H q" "private_slots q c' = private_slots q c" if q: "q \<in> set rs" for q
  proof -
    have "rq_table q \<notin> rq_table ` set bs" using d(2) q by (auto simp: image_iff)
    from c(7) [OF this] holds_other [OF d(3) [of q], of ?H c'] q c(3,8)
    show "holds c' ?H q" "private_slots q c' = private_slots q c" by simp_all
  qed
  have H: "mset (map rq_handle (map complete_one bs @ rs)) = ?H"
    by (simp add: complete_one_def comp_def)
  have "pool c' + (\<Sum>q \<leftarrow> map complete_one bs @ rs. mset (private_slots q c')) =
      pool c' + (\<Sum>q \<leftarrow> bs. mset (private_slots (complete_one q) c')) + (\<Sum>q \<leftarrow> rs. mset (private_slots q c))"
    using private_cong [of rs c' c, OF o(2)] by (simp add: comp_def add.assoc)
  also have "\<dots> = mset [0..<cm_pages c * cm_psize c]"
    unfolding c(9) using d(4) by (simp add: add.assoc)
  finally have "pool c' + (\<Sum>q \<leftarrow> map complete_one bs @ rs. mset (private_slots q c')) = mset [0..<cm_pages c * cm_psize c]" .
  moreover have "distinct (map rq_table (map complete_one bs @ rs))"
    using d(2) by (simp add: complete_one_def comp_def)
  ultimately have "pages_ok c' (map complete_one bs @ rs)"
    using c(2-6) o(1) unfolding pages_ok_def H by auto
  then show ?thesis using that c(1,3,5,7) by blast
qed


section \<open>Admission\<close>

lemma ceil_pages_dvd:
  assumes "0 < ps" and "ps dvd n"
  shows "ceil_pages n ps * ps = n"
proof -
  obtain k where k: "n = ps * k" using assms(2) by (rule dvdE)
  have e: "n + ps - 1 = (ps - 1) + ps * k" using assms(1) k by simp
  have "((ps - 1) + ps * k) div ps = k + (ps - 1) div ps"
    by (rule div_mult_self2) (use assms(1) in simp)
  then have "ceil_pages n ps = k" unfolding ceil_pages_def e using assms(1) by simp
  then show ?thesis using k by simp
qed

text \<open>The state between the lock of a matched handle and the seat of its request.\<close>

definition admitting :: "cm \<Rightarrow> handle \<Rightarrow> req list \<Rightarrow> bool" where
  "admitting c h rs \<longleftrightarrow>
     plain_ok c (add_mset h (mset (map rq_handle rs))) \<and> distinct (map rq_table rs) \<and>
     (\<forall>r \<in> set rs. holds c (add_mset h (mset (map rq_handle rs))) r) \<and>
     pool c + (\<Sum>r \<leftarrow> rs. mset (private_slots r c)) = mset [0..<cm_pages c * cm_psize c]"

lemma pages_change:
  assumes "\<forall>r \<in> set rs. holds c H r" and "\<And>r. r \<in> set rs \<Longrightarrow> rq_handle r \<in># H'"
    and "cm_psize c' = cm_psize c" "cm_table c' = cm_table c" "cm_pages c' = cm_pages c" "pool c' = pool c"
    and "\<And>g ts ws. plain_valid c g ts ws \<Longrightarrow> plain_valid c' g ts ws"
    and "pool c + (\<Sum>r \<leftarrow> rs. mset (private_slots r c)) = mset [0..<cm_pages c * cm_psize c]"
  shows "(\<forall>r \<in> set rs. holds c' H' r) \<and>
    pool c' + (\<Sum>r \<leftarrow> rs. mset (private_slots r c')) = mset [0..<cm_pages c' * cm_psize c']"
proof -
  have o: "holds c' H' r" "private_slots r c' = private_slots r c" if "r \<in> set rs" for r
    using holds_other [of c H r H' c'] assms that by auto
  then show ?thesis using assms(3,5,6,8) private_cong [of rs c' c, OF o(2)] by simp
qed

text \<open>Matching and locking may split a node; what is free, cached and written in the rows stays.\<close>

definition same_content :: "cm \<Rightarrow> cm \<Rightarrow> bool" where
  "same_content c c' \<longleftrightarrow> frame c c' \<and> plain_content c' = plain_content c \<and> plain_slots c' = plain_slots c"

lemma same_content_trans: "same_content a b \<Longrightarrow> same_content b c \<Longrightarrow> same_content a c"
  by (auto simp: same_content_def intro: frame_trans)

lemma same_content_row: "same_content c c' \<Longrightarrow> same_content (set_row t row c) (set_row t row c')"
  by (simp add: same_content_def frame_def set_row_def plain_content_def [abs_def] plain_slots_def)

lemma match_pages:
  assumes ok: "pages_ok c rs"
  obtains c' h vs where "cm_match ids c = Inr (c', h, None)" "pages_ok c' rs" "handle_len h \<le> length ids"
    "plain_valid c' h (take (handle_len h) ids) vs" "cm_table c' = cm_table c" "cm_psize c' = cm_psize c"
    "available_size c' = available_size c"
    "\<And>ts ws. plain_content c ts ws \<Longrightarrow> prefix ts ids \<Longrightarrow> length ts \<le> handle_len h" "same_content c c'"
proof -
  note d = pages_okD [OF ok] and p = plain_okD [OF pages_okD(1) [OF ok]]
  obtain c' h vs where m: "and_then (cm_match ids c) (\<lambda>(c', h, _). Inr (c', h)) = Inr (c', h)"
    "plain_inv c' (mset (map rq_handle rs))" "cm_psize c' = cm_psize c" "plain_content c' = plain_content c"
    "plain_slots c' = plain_slots c" "pc_evictable (cm_pc c') = pc_evictable (cm_pc c)" "handle_len h \<le> length ids"
    "plain_valid c' h (take (handle_len h) ids) vs"
    "\<forall>ts ws. plain_content c ts ws \<and> prefix ts ids \<longrightarrow> length ts \<le> handle_len h"
    "\<forall>g ts ws. plain_valid c g ts ws \<longrightarrow> plain_valid c' g ts ws"
    using plain_pc.find_law [OF p(1), of ids] by (elim exE conjE) blast
  have e: "cm_match ids c = Inr (c', h, None)" and fr: "frame c c'"
    using m(1) p(1) by (auto simp: cm_match_def plain_inv_def and_then_eq_Inr frame_def read_clock_def split: pcache.splits)
  have "plain_ok c' (mset (map rq_handle rs))" by (rule plain_okI [OF d(1) fr m(2)]) (use m(4) p(4) in simp)
  moreover have "(\<forall>r \<in> set rs. holds c' (mset (map rq_handle rs)) r) \<and>
      pool c' + (\<Sum>r \<leftarrow> rs. mset (private_slots r c')) = mset [0..<cm_pages c' * cm_psize c']"
    by (rule pages_change [of rs c "mset (map rq_handle rs)"])
      (use d(3,4) m(10) fr pool_frame [OF fr, of "{#}"] m(5) in \<open>simp_all add: frame_def\<close>)
  ultimately have "pages_ok c' rs" using d(2) by (simp add: pages_ok_def)
  then show ?thesis
    using that [OF e _ m(7,8)] m(3-6,9) fr by (simp add: frame_def available_size_def same_content_def)
qed

lemma lock_pages:
  assumes ok: "pages_ok c rs" and v: "plain_valid c h ts vs"
  obtains c' where "cm_lock h c = Inr (c', h)" "admitting c' h rs" "plain_valid c' h ts vs"
    "cm_table c' = cm_table c" "cm_psize c' = cm_psize c" "same_content c c'"
proof -
  note d = pages_okD [OF ok] and p = plain_okD [OF pages_okD(1) [OF ok]]
  obtain c' where l: "and_then (cm_lock h c) (\<lambda>(c', h'). Inr c') = Inr c'"
    "plain_inv c' (add_mset h (mset (map rq_handle rs)))" "cm_psize c' = cm_psize c"
    "plain_content c' = plain_content c" "plain_slots c' = plain_slots c"
    "\<forall>g ts ws. plain_valid c g ts ws \<longrightarrow> plain_valid c' g ts ws"
    using plain_pc.lock_law [OF p(1) v] by blast
  obtain h' where e: "cm_lock h c = Inr (c', h')" using l(1) by (auto simp: and_then_eq_Inr)
  have h: "h' = h" by (rule cm_lock_handle [OF p(1) e])
  have fr: "frame c c'" by (rule cm_lock_frame [OF e])
  have "plain_ok c' (add_mset h (mset (map rq_handle rs)))"
    by (rule plain_okI [OF d(1) fr l(2)]) (use l(4) p(4) in simp)
  moreover have "(\<forall>r \<in> set rs. holds c' (add_mset h (mset (map rq_handle rs))) r) \<and>
      pool c' + (\<Sum>r \<leftarrow> rs. mset (private_slots r c')) = mset [0..<cm_pages c' * cm_psize c']"
    by (rule pages_change [of rs c "mset (map rq_handle rs)"])
      (use d(3,4) l(6) fr pool_frame [OF fr, of "{#}"] l(5) in \<open>simp_all add: frame_def\<close>)
  ultimately have "admitting c' h rs" using d(2) by (simp add: admitting_def)
  then show ?thesis using that e h l(4-6) v fr by (simp add: frame_def same_content_def)
qed

lemma unlock_pages:
  assumes "admitting c h rs"
  obtains c' where "cm_unlock h c = Inr c'" "pages_ok c' rs" "same_content c c'"
proof -
  note a = assms [unfolded admitting_def] and p = plain_okD [of c "add_mset h (mset (map rq_handle rs))"]
  obtain c' where l: "cm_unlock h c = Inr c'" "plain_inv c' (mset (map rq_handle rs))"
    "plain_content c' = plain_content c" "plain_slots c' = plain_slots c"
    "\<forall>g ts ws. plain_valid c g ts ws \<longrightarrow> plain_valid c' g ts ws"
    using plain_pc.unlock_law [of c "add_mset h (mset (map rq_handle rs))" h] p(1) a by auto
  have fr: "frame c c'" by (rule cm_unlock_frame [OF l(1)])
  have "plain_ok c' (mset (map rq_handle rs))"
    by (rule plain_okI [OF _ fr l(2), of "add_mset h (mset (map rq_handle rs))"]) (use a l(3) p(4) in simp_all)
  moreover have "(\<forall>r \<in> set rs. holds c' (mset (map rq_handle rs)) r) \<and>
      pool c' + (\<Sum>r \<leftarrow> rs. mset (private_slots r c')) = mset [0..<cm_pages c' * cm_psize c']"
    by (rule pages_change [of rs c "add_mset h (mset (map rq_handle rs))"])
      (use a l(5) fr pool_frame [OF fr, of "{#}"] l(4) in \<open>simp_all add: frame_def\<close>)
  ultimately have "pages_ok c' rs" using a by (simp add: pages_ok_def)
  then show ?thesis using that l(1,3,4) fr by (simp add: same_content_def)
qed

lemma seat_pages:
  assumes a: "admitting c (rq_handle r) rs" and l: "rq_cached r = handle_len (rq_handle r)"
    and v: "plain_valid c (rq_handle r) (take (rq_cached r) (rq_ids r)) vs"
    and t: "rq_table r \<notin> rq_table ` set rs" and len: "rq_cached r \<le> length (cm_table c (rq_table r))"
  defines "c' \<equiv> set_row (rq_table r) (vs @ drop (rq_cached r) (cm_table c (rq_table r))) c"
  shows "pages_ok c' (r # rs)"
proof -
  let ?H = "mset (map rq_handle (r # rs))"
  note a = a [unfolded admitting_def]
  have ok: "plain_ok c ?H" using a by simp
  note p = plain_okD [OF ok]
  have ct: "plain_content c (take (rq_cached r) (rq_ids r)) vs" and hl: "rq_cached r = length (take (rq_cached r) (rq_ids r))"
    using plain_pc.valid_law [OF p(1) v] l by auto
  have lv: "length vs = rq_cached r" and dv: "cm_psize c dvd rq_cached r"
    using plain_pc.content_law [OF p(1) ct] hl by metis+
  have ce: "ceil_pages (rq_cached r) (cm_psize c) * cm_psize c = rq_cached r"
    by (rule ceil_pages_dvd [OF p(2) dv])
  have pr: "private_slots r c' = []"
    using ce l by (simp add: private_slots_def padded_tail_def c'_def)
  have "holds c' ?H r"
    using v l lv len ce pr by (simp add: holds_def Let_def c'_def)
  moreover have o: "holds c' ?H q \<and> private_slots q c' = private_slots q c" if q: "q \<in> set rs" for q
  proof -
    have "cm_table c' (rq_table q) = cm_table c (rq_table q)"
    proof -
      have "rq_table q \<noteq> rq_table r" using q t by (auto simp: image_iff)
      then show ?thesis by (simp add: c'_def set_row_def)
    qed
    then show ?thesis using holds_other [of c ?H q ?H c'] a q by (simp add: c'_def)
  qed
  moreover have "pool c' + (\<Sum>q \<leftarrow> r # rs. mset (private_slots q c')) = mset [0..<cm_pages c' * cm_psize c']"
  proof -
    have "(\<Sum>q \<leftarrow> rs. mset (private_slots q c')) = (\<Sum>q \<leftarrow> rs. mset (private_slots q c))"
      by (rule private_cong) (use o in blast)
    moreover have "cm_pages c' = cm_pages c" by (simp add: c'_def set_row_def)
    ultimately show ?thesis using a pr by (simp add: c'_def)
  qed
  moreover have "plain_ok c' ?H" using ok by (simp add: plain_ok_def c'_def) (simp add: set_row_def waiting_def)
  ultimately show ?thesis using a t by (auto simp: pages_ok_def)
qed

end
