(* ===== verification/Prefill.thy ===== *)
theory Prefill
  imports Cache_Manager
begin

text \<open>
  Batch scheduling: \<^verbatim>\<open>PrefillAdder\<close> and \<^verbatim>\<open>PrefillManager\<close> (\<^verbatim>\<open>scheduler/prefill.py\<close>) and
  \<^verbatim>\<open>DecodeManager\<close> (\<^verbatim>\<open>scheduler/decode.py\<close>). Requests are mutable objects shared by the managers and
  the batches in flight, so they live in a store from identities to records; a pending request refers
  to its last chunk by identity. The page table of the table manager is the page table of the cache
  manager (one tensor in the source), so admission writes the matched slots there.
\<close>

section \<open>Requests in a store\<close>

type_synonym rid = nat

record pending =
  pd_uid :: nat
  pd_ids :: "token list"
  pd_output :: nat
  pd_mm :: bool
  pd_chunk :: "rid option"

record store =
  st_heap :: "rid \<Rightarrow> req option"
  st_next :: rid

definition put_req :: "rid \<Rightarrow> req \<Rightarrow> store \<Rightarrow> store" where
  "put_req i r st = st\<lparr>st_heap := (st_heap st)(i := Some r)\<rparr>"

definition new_req :: "req \<Rightarrow> store \<Rightarrow> store \<times> rid" where
  "new_req r st = (st\<lparr>st_heap := (st_heap st)(st_next st := Some r), st_next := Suc (st_next st)\<rparr>, st_next st)"

definition the_req :: "store \<Rightarrow> rid \<Rightarrow> err + req" where
  "the_req st i = (case st_heap st i of Some r \<Rightarrow> Inr r | None \<Rightarrow> Inl AttributeError)"

section \<open>Decode manager\<close>

text \<open>\<open>running_reqs\<close> is a set of objects: a list without repetition here.\<close>

definition filter_reqs :: "store \<Rightarrow> rid list \<Rightarrow> rid list \<Rightarrow> rid list" where
  "filter_reqs st running new =
     filter (\<lambda>i. case st_heap st i of Some r \<Rightarrow> can_decode r | None \<Rightarrow> False)
       (running @ filter (\<lambda>i. i \<notin> set running) (remdups new))"

definition remove_req :: "rid \<Rightarrow> rid list \<Rightarrow> rid list" where
  "remove_req i running = filter (\<lambda>j. j \<noteq> i) running"

definition uid_of :: "store \<Rightarrow> rid \<Rightarrow> nat option" where
  "uid_of st i = map_option rq_uid (st_heap st i)"

definition decode_abort :: "store \<Rightarrow> nat \<Rightarrow> rid list \<Rightarrow> rid list \<times> rid option" where
  "decode_abort st uid running =
     (case filter (\<lambda>i. uid_of st i = Some uid) running of
        [] \<Rightarrow> (running, None)
      | i # _ \<Rightarrow> (remove_req i running, Some i))"

definition req_remain :: "store \<Rightarrow> rid \<Rightarrow> int" where
  "req_remain st i = (case st_heap st i of Some r \<Rightarrow> remain_len r | None \<Rightarrow> 0)"

definition inflight_tokens :: "nat \<Rightarrow> store \<Rightarrow> rid list \<Rightarrow> int" where
  "inflight_tokens ps st running =
     sum_list (map (req_remain st) running) + (int ps - 1) * int (length running)"

definition decode_batch :: "store \<Rightarrow> rid list \<Rightarrow> rid list option" where
  "decode_batch st running =
     (if running = [] then None else Some (sort_key (\<lambda>i. case uid_of st i of Some u \<Rightarrow> u | None \<Rightarrow> 0) running))"

section \<open>Admission\<close>

record adder =
  ad_budget :: int
  ad_reserved :: int
  ad_reserved_swa :: int
  ad_cm :: cm
  ad_tb :: tables

record admission =
  am_handle :: handle
  am_table :: nat
  am_linear :: "slot option"
  am_pp :: "(slot \<times> slot) option"
  am_restore :: "slot option"

definition ceil_tokens :: "int \<Rightarrow> int \<Rightarrow> int" where
  "ceil_tokens n ps = div_ceil n ps * ps"

text \<open>The gates after the lock: \<open>None\<close> refuses the request, with the handle unlocked again.\<close>

definition mamba_gate :: "cm \<Rightarrow> err + (cm \<times> bool)" where
  "mamba_gate c =
     (if cm_kind c \<noteq> KHybrid then Inr (c, True)
      else (case cm_lpool c of
              None \<Rightarrow> Inl AttributeError
            | Some p \<Rightarrow>
                and_then (if length (lp_free p) < 3 then ensure_mamba 3 c else Inr c) (\<lambda>c1.
                case cm_lpool c1 of
                  None \<Rightarrow> Inl AttributeError
                | Some p1 \<Rightarrow> Inr (c1, \<not> length (lp_free p1) < 3))))"

definition swa_gate :: "int \<Rightarrow> int \<Rightarrow> cm \<Rightarrow> err + bool" where
  "swa_gate ext reserved_swa c =
     (case cm_swa c of
        None \<Rightarrow> Inr True
      | Some _ \<Rightarrow>
          (let need = ceil_tokens (min (max ext 1) (cm_window c) + 1) (int (cm_psize c)) in
           and_then (cm_swa_available c) (\<lambda>av. Inr (\<not> av - reserved_swa < need))))"

definition write_prefix :: "pending \<Rightarrow> handle \<Rightarrow> nat \<Rightarrow> cm \<Rightarrow> tables \<Rightarrow> err + (cm \<times> tables)" where
  "write_prefix p h t c tb =
     (let l = handle_len h in
      if l = 0 then Inr (c, tb)
      else
        and_then (copy_slice 0 l (take l (pd_ids p)) (tb_tokens tb t)) (\<lambda>toks_row.
        and_then (handle_indices h c) (\<lambda>matched.
        and_then (copy_slice (l - length matched) l matched (cm_table c t)) (\<lambda>row.
        Inr (set_row t row c, tb\<lparr>tb_tokens := (tb_tokens tb)(t := toks_row)\<rparr>)))))"

definition alloc_state :: "cm \<Rightarrow> err + (cm \<times> slot option \<times> (slot \<times> slot) option)" where
  "alloc_state c =
     (if cm_kind c \<noteq> KHybrid then Inr (c, None, None)
      else (case cm_lpool c of
              None \<Rightarrow> Inl AttributeError
            | Some p \<Rightarrow>
                and_then (lp_alloc 1 p) (\<lambda>(p1, lv).
                and_then (lp_alloc 2 p1) (\<lambda>(p2, pp).
                Inr (c\<lparr>cm_lpool := Some p2\<rparr>, Some (hd lv), Some (pp ! 0, pp ! 1))))))"

definition refuse :: "handle \<Rightarrow> adder \<Rightarrow> cm \<Rightarrow> err + (adder \<times> admission option)" where
  "refuse h a c = and_then (cm_unlock h c) (\<lambda>c'. Inr (a\<lparr>ad_cm := c'\<rparr>, None))"

definition try_allocate_one :: "pending \<Rightarrow> adder \<Rightarrow> err + (adder \<times> admission option)" where
  "try_allocate_one p a =
     (if length (tb_free (ad_tb a)) = 0 then Inr (a, None)
      else
        and_then (match_req (pd_ids p) (pd_mm p) (ad_cm a)) (\<lambda>(c0, h0, mv).
        let ext = int (length (pd_ids p)) - int (handle_len h0);
            estimated = ext + int (pd_output p) in
        if estimated + ad_reserved a > available_size c0 then Inr (a\<lparr>ad_cm := c0\<rparr>, None)
        else
          and_then (cm_lock h0 c0) (\<lambda>(c1, h).
          if estimated + ad_reserved a > available_size c1 then refuse h a c1
          else
            and_then (mamba_gate c1) (\<lambda>(c2, ok1).
            if \<not> ok1 then refuse h a c2
            else
              and_then (swa_gate ext (ad_reserved_swa a) c2) (\<lambda>ok2.
              if \<not> ok2 then refuse h a c2
              else
                and_then (tb_allocate (ad_tb a)) (\<lambda>(tb1, t).
                and_then (write_prefix p h t c2 tb1) (\<lambda>(c3, tb2).
                and_then (alloc_state c3) (\<lambda>(c4, lin, pp).
                Inr (a\<lparr>ad_cm := c4, ad_tb := tb2\<rparr>,
                     Some \<lparr>am_handle = h, am_table = t, am_linear = lin, am_pp = pp, am_restore = mv\<rparr>)))))))))"

text \<open>
  The chunk size of a request whose first \<open>cl\<close> tokens are computed, with the window tokens it
  reserves; \<open>None\<close> when no whole page fits.
\<close>

definition chunk_of :: "adder \<Rightarrow> int \<Rightarrow> int \<Rightarrow> int \<Rightarrow> int \<Rightarrow> err + (int \<times> int) option" where
  "chunk_of a remain cl base evicted =
     (let c = ad_cm a; ps = int (cm_psize c); chunk = min (ad_budget a) remain in
      case cm_swa c of
        None \<Rightarrow> Inr (Some (chunk, 0))
      | Some _ \<Rightarrow>
          and_then (cm_swa_available c) (\<lambda>av.
          let new_evicted = align_down (cl - cm_window c - ps) ps;
              self_reclaim = max 0 (new_evicted - max evicted base);
              budget = av + self_reclaim - ad_reserved_swa a;
              max_end = (div_ceil cl ps + max budget 0 div ps) * ps;
              chunk1 = min chunk (max (max_end - cl) 0);
              aligned = align_down (cl + chunk1) ps - cl in
          if 0 < chunk1 \<and> chunk1 < remain \<and> aligned \<le> 0 then Inr None
          else
            (let chunk2 = (if 0 < chunk1 \<and> chunk1 < remain then aligned else chunk1) in
             Inr (Some (chunk2, (div_ceil (cl + chunk2) ps - div_ceil cl ps) * ps)))))"

definition add_one_req ::
  "pending \<Rightarrow> admission \<Rightarrow> nat \<Rightarrow> nat \<Rightarrow> nat \<Rightarrow> adder \<Rightarrow> err + (adder \<times> req option)" where
  "add_one_req p am cl next_track evicted a =
     (let remain = int (length (pd_ids p)) - int cl in
      and_then (chunk_of a remain (int cl) (int (handle_len (am_handle am))) (int evicted)) (\<lambda>ch.
      case ch of
        None \<Rightarrow> Inr (a, None)
      | Some (chunk, swa) \<Rightarrow>
          (let chunked = chunk < remain; n = nat chunk in
           and_then (copy_slice cl (cl + n) (slice cl (cl + n) (pd_ids p)) (tb_tokens (ad_tb a) (am_table am))) (\<lambda>row.
           let a1 = a\<lparr>ad_reserved_swa := ad_reserved_swa a + swa, ad_budget := ad_budget a - chunk,
                      ad_reserved := ad_reserved a + remain + int (pd_output p),
                      ad_tb := (ad_tb a)\<lparr>tb_tokens := (tb_tokens (ad_tb a))(am_table am := row)\<rparr>\<rparr> in
           if chunked \<and> pd_mm p then Inl NotImplementedError
           else
             and_then (req_init chunked (take (cl + n) (pd_ids p)) (am_table am) cl (pd_output p) (pd_uid p)
                         (am_handle am) (pd_mm p)) (\<lambda>r.
             Inr (a1, Some (r\<lparr>rq_linear := am_linear am, rq_ping_pong := am_pp am, rq_next_track := next_track,
                              rq_restore := am_restore am, rq_swa_evicted := evicted\<rparr>)))))))"

definition undo_admission :: "admission \<Rightarrow> adder \<Rightarrow> err + adder" where
  "undo_admission am a =
     and_then (cm_unlock (am_handle am) (ad_cm a)) (\<lambda>c1.
     and_then
       (case am_linear am of
          None \<Rightarrow> Inr c1
        | Some l \<Rightarrow> free_state_slots (l # pp_list (am_pp am)) c1) (\<lambda>c2.
     Inr (a\<lparr>ad_cm := c2, ad_tb := tb_release (am_table am) (ad_tb a)\<rparr>)))"

definition try_add_one :: "store \<Rightarrow> pending \<Rightarrow> adder \<Rightarrow> err + (adder \<times> req option)" where
  "try_add_one st p a =
     (if ad_budget a \<le> 0 then Inr (a, None)
      else
        (case pd_chunk p of
           Some i \<Rightarrow>
             and_then (the_req st i) (\<lambda>r.
             add_one_req p \<lparr>am_handle = rq_handle r, am_table = rq_table r, am_linear = rq_linear r,
                            am_pp = rq_ping_pong r, am_restore = None\<rparr>
               (rq_cached r) (rq_next_track r) (rq_swa_evicted r) a)
         | None \<Rightarrow>
             and_then (try_allocate_one p a) (\<lambda>(a1, res).
             case res of
               None \<Rightarrow> Inr (a1, None)
             | Some am \<Rightarrow>
                 and_then (add_one_req p am (handle_len (am_handle am)) 0 0 a1) (\<lambda>(a2, r).
                 if r = None then and_then (undo_admission am a2) (\<lambda>a3. Inr (a3, None)) else Inr (a2, r)))))"

section \<open>Prefill manager\<close>

record batch =
  bt_reqs :: "rid list"
  bt_prefill :: bool
  bt_new_tokens :: int
  bt_cached_tokens :: int
  bt_admissions :: "(nat \<times> nat \<times> nat) list"

record pass =
  ps_adder :: adder
  ps_store :: store
  ps_chunked :: "pending list"
  ps_batch :: batch

definition add_to_batch :: "pending \<Rightarrow> req \<Rightarrow> adder \<Rightarrow> pass \<Rightarrow> pass" where
  "add_to_batch p r a s =
     (let (st, i) = new_req r (ps_store s); b = ps_batch s; first = (pd_chunk p = None) in
      s\<lparr>ps_adder := a, ps_store := st,
        ps_chunked := ps_chunked s @ (if rq_chunked r then [p\<lparr>pd_chunk := Some i\<rparr>] else []),
        ps_batch := b\<lparr>bt_reqs := bt_reqs b @ [i],
          bt_new_tokens := bt_new_tokens b + extend_len r,
          bt_cached_tokens := bt_cached_tokens b + (if first then int (handle_len (rq_handle r)) else 0),
          bt_admissions := bt_admissions b @
            (if first then [(rq_uid r, length (pd_ids p), handle_len (rq_handle r))] else [])\<rparr>\<rparr>)"

fun prefill_loop :: "pending list \<Rightarrow> pass \<Rightarrow> err + pass" where
  "prefill_loop [] s = Inr s"
| "prefill_loop (p # ps) s =
     and_then (try_add_one (ps_store s) p (ps_adder s)) (\<lambda>(a, r).
       case r of
         None \<Rightarrow> Inr (s\<lparr>ps_adder := a\<rparr>)
       | Some q \<Rightarrow> prefill_loop ps (add_to_batch p q a s))"

definition prefill_schedule ::
  "int \<Rightarrow> rid list \<Rightarrow> pending list \<Rightarrow> store \<Rightarrow> cm \<Rightarrow> tables \<Rightarrow>
   err + (pending list \<times> store \<times> cm \<times> tables \<times> batch option)" where
  "prefill_schedule budget running pend st c tb =
     (if pend = [] then Inr (pend, st, c, tb, None)
      else
        and_then (prefill_loop pend
          \<lparr>ps_adder = \<lparr>ad_budget = budget, ad_reserved = inflight_tokens (cm_psize c) st running,
                        ad_reserved_swa = 0, ad_cm = c, ad_tb = tb\<rparr>,
           ps_store = st, ps_chunked = [],
           ps_batch = \<lparr>bt_reqs = [], bt_prefill = True, bt_new_tokens = 0, bt_cached_tokens = 0,
                        bt_admissions = []\<rparr>\<rparr>) (\<lambda>s.
        let n = length (bt_reqs (ps_batch s)); a = ps_adder s in
        if n = 0 then Inr (pend, st, ad_cm a, ad_tb a, None)
        else Inr (ps_chunked s @ drop n pend, ps_store s, ad_cm a, ad_tb a, Some (ps_batch s))))"

definition add_pending :: "nat \<Rightarrow> token list \<Rightarrow> nat \<Rightarrow> bool \<Rightarrow> pending list \<Rightarrow> pending list" where
  "add_pending uid ids output mm pend =
     pend @ [\<lparr>pd_uid = uid, pd_ids = ids, pd_output = output, pd_mm = mm, pd_chunk = None\<rparr>]"

definition prefill_abort :: "nat \<Rightarrow> pending list \<Rightarrow> pending list \<times> rid option" where
  "prefill_abort uid pend =
     (case dropWhile (\<lambda>p. pd_uid p \<noteq> uid) pend of
        [] \<Rightarrow> (pend, None)
      | p # rest \<Rightarrow> (takeWhile (\<lambda>p. pd_uid p \<noteq> uid) pend @ rest, pd_chunk p))"

end
