(* ===== verification/Prefill_Pass.thy ===== *)
theory Prefill_Pass
  imports Prefill "HOL-Library.Code_Target_Nat"
begin

text \<open>
  What one prefill pass (\<^verbatim>\<open>PrefillManager.schedule_next_batch\<close>) does with the waiting requests, whatever
  the cache type: the budget, the order, and the requests that stay.
\<close>

section \<open>One attempt\<close>

lemma chunk_of_le:
  assumes "chunk_of a remain cl base evicted = Inr (Some (chunk, w))" and "0 \<le> cl"
  shows "chunk \<le> min (ad_budget a) remain \<or> chunk \<le> 0"
proof (cases "cm_swa (ad_cm a)")
  case None
  then show ?thesis using assms by (simp add: chunk_of_def Let_def)
next
  case (Some sp)
  let ?ps = "int (cm_psize (ad_cm a))"
  have al: "align_down (cl + k) ?ps - cl \<le> k \<or> align_down (cl + k) ?ps - cl \<le> 0" for k
    using align_down_le [of ?ps "cl + k"] assms(2) by (cases "0 < ?ps") (auto simp: align_down_def)
  define c1 where "c1 = (\<lambda>av. min (min (ad_budget a) remain)
    (max ((div_ceil cl ?ps + max (av + max 0 (align_down (cl - cm_window (ad_cm a) - ?ps) ?ps - max evicted base) -
       ad_reserved_swa a) 0 div ?ps) * ?ps - cl) 0))"
  have e: "chunk_of a remain cl base evicted = and_then (cm_swa_available (ad_cm a)) (\<lambda>av.
      if 0 < c1 av \<and> c1 av < remain \<and> align_down (cl + c1 av) ?ps - cl \<le> 0 then Inr None
      else Inr (Some (if 0 < c1 av \<and> c1 av < remain then align_down (cl + c1 av) ?ps - cl else c1 av,
        (div_ceil (cl + (if 0 < c1 av \<and> c1 av < remain then align_down (cl + c1 av) ?ps - cl else c1 av)) ?ps
          - div_ceil cl ?ps) * ?ps)))"
    unfolding chunk_of_def Let_def Some option.case c1_def by (rule refl)
  obtain av where "(if 0 < c1 av \<and> c1 av < remain \<and> align_down (cl + c1 av) ?ps - cl \<le> 0 then Inr None
      else Inr (Some (if 0 < c1 av \<and> c1 av < remain then align_down (cl + c1 av) ?ps - cl else c1 av,
        (div_ceil (cl + (if 0 < c1 av \<and> c1 av < remain then align_down (cl + c1 av) ?ps - cl else c1 av)) ?ps
          - div_ceil cl ?ps) * ?ps))) = (Inr (Some (chunk, w)) :: err + (int \<times> int) option)"
    using assms(1) unfolding e and_then_eq_Inr by blast
  then have "chunk = (if 0 < c1 av \<and> c1 av < remain then align_down (cl + c1 av) ?ps - cl else c1 av)"
    by (auto split: if_splits)
  moreover have "c1 av \<le> min (ad_budget a) remain" unfolding c1_def by (rule min.cobounded1)
  ultimately show ?thesis using al [of "c1 av"] by (auto split: if_splits)
qed

text \<open>The fields of a request that an attempt returns.\<close>

lemma add_one_req_facts:
  assumes "add_one_req p am cl nt ev a = Inr (a', Some r)"
  shows "rq_uid r = pd_uid p" "rq_handle r = am_handle am" "rq_table r = am_table am" "rq_cached r = cl"
    "1 \<le> extend_len r" "ad_budget a' = ad_budget a - extend_len r"
    "rq_chunked r \<longleftrightarrow> rq_device r < length (pd_ids p)" "rq_ids r = take (rq_device r) (pd_ids p)"
    "rq_output r = pd_output p" "ad_reserved a' = ad_reserved a + int (length (pd_ids p)) - int cl + int (pd_output p)"
    "rq_aborted r = False" "rq_released r = False" "rq_device r \<le> length (pd_ids p)"
    "extend_len r \<le> ad_budget a"
proof -
  let ?remain = "int (length (pd_ids p)) - int cl"
  obtain chunk w where c: "chunk_of a ?remain (int cl) (int (handle_len (am_handle am))) (int ev) = Inr (Some (chunk, w))"
    using assms by (auto simp: add_one_req_def Let_def and_then_eq_Inr split: option.splits)
  let ?n = "nat chunk"
  have q: "\<not> (chunk < ?remain \<and> pd_mm p)" and
    "\<exists>row q. req_init (chunk < ?remain) (take (cl + ?n) (pd_ids p)) (am_table am) cl (pd_output p) (pd_uid p) (am_handle am) (pd_mm p) = Inr q
      \<and> r = q\<lparr>rq_linear := am_linear am, rq_ping_pong := am_pp am, rq_next_track := nt, rq_restore := am_restore am, rq_swa_evicted := ev\<rparr>
      \<and> a' = a\<lparr>ad_reserved_swa := ad_reserved_swa a + w, ad_budget := ad_budget a - chunk,
                      ad_reserved := ad_reserved a + ?remain + int (pd_output p),
                      ad_tb := (ad_tb a)\<lparr>tb_tokens := (tb_tokens (ad_tb a))(am_table am := row)\<rparr>\<rparr>"
    using assms c by (auto simp: add_one_req_def Let_def and_then_eq_Inr split: if_splits)
  then obtain row q where r: "req_init (chunk < ?remain) (take (cl + ?n) (pd_ids p)) (am_table am) cl (pd_output p) (pd_uid p) (am_handle am) (pd_mm p) = Inr q"
    "r = q\<lparr>rq_linear := am_linear am, rq_ping_pong := am_pp am, rq_next_track := nt, rq_restore := am_restore am, rq_swa_evicted := ev\<rparr>"
    "a' = a\<lparr>ad_reserved_swa := ad_reserved_swa a + w, ad_budget := ad_budget a - chunk,
                      ad_reserved := ad_reserved a + ?remain + int (pd_output p),
                      ad_tb := (ad_tb a)\<lparr>tb_tokens := (tb_tokens (ad_tb a))(am_table am := row)\<rparr>\<rparr>" by blast
  have len: "cl < min (length (pd_ids p)) (cl + ?n)" using r(1) by (auto simp: req_init_def split: if_splits)
  then have pos: "0 < chunk" "chunk \<le> ?remain" "chunk \<le> ad_budget a" using chunk_of_le [OF c] by auto
  then have n: "cl + ?n \<le> length (pd_ids p)" "int ?n = chunk" by linarith+
  have qq: "rq_uid q = pd_uid p" "rq_handle q = am_handle am" "rq_table q = am_table am" "rq_cached q = cl"
    "rq_device q = cl + ?n" "rq_chunked q = (chunk < ?remain)" "rq_ids q = take (cl + ?n) (pd_ids p)"
    "rq_output q = pd_output p" "rq_aborted q = False" "rq_released q = False"
    using r(1) n by (auto simp: req_init_def split: if_splits)
  show "rq_uid r = pd_uid p" "rq_handle r = am_handle am" "rq_table r = am_table am" "rq_cached r = cl"
    "1 \<le> extend_len r" "ad_budget a' = ad_budget a - extend_len r"
    "rq_chunked r \<longleftrightarrow> rq_device r < length (pd_ids p)" "rq_ids r = take (rq_device r) (pd_ids p)"
    "rq_output r = pd_output p" "ad_reserved a' = ad_reserved a + int (length (pd_ids p)) - int cl + int (pd_output p)"
    "rq_aborted r = False" "rq_released r = False" "rq_device r \<le> length (pd_ids p)"
    "extend_len r \<le> ad_budget a"
    using qq r(2,3) pos n by (auto simp: extend_len_def)
qed

lemma add_one_req_carries:
  assumes "add_one_req p am cl nt ev a = Inr (a', Some r)"
  shows "rq_linear r = am_linear am" "rq_ping_pong r = am_pp am" "rq_swa_evicted r = ev"
  using assms by (auto simp: add_one_req_def Let_def and_then_eq_Inr split: option.splits if_splits)

lemma try_allocate_budget:
  assumes "try_allocate_one p a = Inr (a', res)"
  shows "ad_budget a' = ad_budget a" "ad_reserved a' = ad_reserved a"
  using assms
  by (auto simp: try_allocate_one_def Let_def and_then_eq_Inr refuse_def split: if_splits)

lemma undo_budget: "undo_admission am a = Inr a' \<Longrightarrow> ad_budget a' = ad_budget a"
  by (auto simp: undo_admission_def and_then_eq_Inr)

lemma add_one_req_none: "add_one_req p am cl nt ev a = Inr (a', None) \<Longrightarrow> a' = a"
  by (auto simp: add_one_req_def Let_def and_then_eq_Inr split: option.splits if_splits)

text \<open>What an attempt that succeeds returns.\<close>

definition attempt :: "pending \<Rightarrow> adder \<Rightarrow> req \<Rightarrow> adder \<Rightarrow> bool" where
  "attempt p a r a' \<longleftrightarrow>
     rq_uid r = pd_uid p \<and> 1 \<le> extend_len r \<and> extend_len r \<le> ad_budget a \<and>
     ad_budget a' = ad_budget a - extend_len r \<and> rq_chunked r = (rq_device r < length (pd_ids p)) \<and>
     rq_ids r = take (rq_device r) (pd_ids p) \<and> rq_device r \<le> length (pd_ids p) \<and> rq_output r = pd_output p \<and>
     \<not> rq_aborted r \<and> \<not> rq_released r"

lemma try_add_one_facts:
  assumes "try_add_one st p a = Inr (a', Some r)"
  shows "attempt p a r a'"
    "pd_chunk p = Some i \<Longrightarrow> \<exists>q. st_heap st i = Some q \<and> rq_cached r = rq_cached q \<and> rq_table r = rq_table q \<and>
       rq_handle r = rq_handle q \<and> rq_linear r = rq_linear q \<and> rq_ping_pong r = rq_ping_pong q \<and> rq_swa_evicted r = rq_swa_evicted q"
    "pd_chunk p = None \<Longrightarrow> rq_cached r = handle_len (rq_handle r)"
proof -
  have b: "0 < ad_budget a" using assms by (auto simp: try_add_one_def split: if_splits)
  show "attempt p a r a'"
  proof (cases "pd_chunk p")
    case None
    then obtain a1 am where t: "try_allocate_one p a = Inr (a1, Some am)"
      "add_one_req p am (handle_len (am_handle am)) 0 0 a1 = Inr (a', Some r)"
      using assms b by (auto simp: try_add_one_def and_then_eq_Inr split: option.splits if_splits)
    show ?thesis
      using add_one_req_facts [OF t(2)] try_allocate_budget [OF t(1)] by (simp add: attempt_def)
  next
    case (Some i)
    then show ?thesis
      using assms b add_one_req_facts by (auto simp: try_add_one_def and_then_eq_Inr attempt_def)
  qed
  show "\<exists>q. st_heap st i = Some q \<and> rq_cached r = rq_cached q \<and> rq_table r = rq_table q \<and>
      rq_handle r = rq_handle q \<and> rq_linear r = rq_linear q \<and> rq_ping_pong r = rq_ping_pong q \<and> rq_swa_evicted r = rq_swa_evicted q"
    if n: "pd_chunk p = Some i"
  proof -
    obtain q where q: "st_heap st i = Some q"
      using assms b n by (cases "st_heap st i") (simp_all add: try_add_one_def the_req_def)
    have "add_one_req p \<lparr>am_handle = rq_handle q, am_table = rq_table q, am_linear = rq_linear q, am_pp = rq_ping_pong q,
        am_restore = None\<rparr> (rq_cached q) (rq_next_track q) (rq_swa_evicted q) a = Inr (a', Some r)"
      using assms b n q by (simp add: try_add_one_def the_req_def)
    from add_one_req_facts(2-4) [OF this] add_one_req_carries [OF this] q show ?thesis by simp
  qed
  show "rq_cached r = handle_len (rq_handle r)" if n: "pd_chunk p = None"
  proof -
    obtain a1 am where t: "try_allocate_one p a = Inr (a1, Some am)"
      "add_one_req p am (handle_len (am_handle am)) 0 0 a1 = Inr (a', Some r)"
      using assms b n by (auto simp: try_add_one_def and_then_eq_Inr split: option.splits if_splits)
    show ?thesis using add_one_req_facts(2,4) [OF t(2)] by simp
  qed
qed


section \<open>The pass\<close>

text \<open>The waiting requests that continue, and the admissions to report, of the requests admitted in a pass.\<close>

fun continued :: "rid \<Rightarrow> (pending \<times> req) list \<Rightarrow> pending list" where
  "continued i [] = []"
| "continued i ((p, r) # prs) = (if rq_chunked r then [p\<lparr>pd_chunk := Some i\<rparr>] else []) @ continued (Suc i) prs"

fun reported :: "(pending \<times> req) list \<Rightarrow> (nat \<times> nat \<times> nat) list" where
  "reported [] = []"
| "reported ((p, r) # prs) =
     (if pd_chunk p = None then [(pd_uid p, length (pd_ids p), rq_cached r)] else []) @ reported prs"

text \<open>A request of the batch is the next piece of its prompt.\<close>

definition next_piece :: "pending \<Rightarrow> req \<Rightarrow> bool" where
  "next_piece p r \<longleftrightarrow> rq_uid r = pd_uid p \<and> rq_ids r = take (rq_device r) (pd_ids p) \<and> rq_device r \<le> length (pd_ids p) \<and>
     rq_cached r < rq_device r \<and> (rq_chunked r \<longleftrightarrow> rq_device r < length (pd_ids p)) \<and> rq_output r = pd_output p \<and>
     \<not> rq_aborted r \<and> \<not> rq_released r"

text \<open>
  Where a piece starts: a first piece after the prefix its handle covers, a continuation where the request
  of the piece before it has got to, with that request's row, handle and state slots.
\<close>

definition starts :: "store \<Rightarrow> pending \<Rightarrow> req \<Rightarrow> bool" where
  "starts st p r \<longleftrightarrow>
     (case pd_chunk p of
        None \<Rightarrow> rq_cached r = handle_len (rq_handle r)
      | Some i \<Rightarrow> i < st_next st \<longrightarrow>
          (\<exists>q. st_heap st i = Some q \<and> rq_cached r = rq_cached q \<and> rq_table r = rq_table q \<and>
             rq_handle r = rq_handle q \<and> rq_linear r = rq_linear q \<and> rq_ping_pong r = rq_ping_pong q \<and>
             rq_swa_evicted r = rq_swa_evicted q))"

lemma starts_later:
  assumes "starts st' p r" and "st_next st \<le> st_next st'" and "\<And>i. i < st_next st \<Longrightarrow> st_heap st' i = st_heap st i"
  shows "starts st p r"
  using assms by (auto simp: starts_def split: option.splits)

lemma attempt_piece: "attempt p a r a' \<Longrightarrow> next_piece p r"
  by (auto simp: attempt_def next_piece_def extend_len_def)

definition new_tokens :: "req list \<Rightarrow> int" where
  "new_tokens rs = (\<Sum>r \<leftarrow> rs. extend_len r)"

lemma new_tokens_Cons [simp]: "new_tokens (r # rs) = extend_len r + new_tokens rs"
  and new_tokens_Nil [simp]: "new_tokens [] = 0"
  by (simp_all add: new_tokens_def)

definition passed :: "pass \<Rightarrow> pending list \<Rightarrow> req list \<Rightarrow> pass \<Rightarrow> bool" where
  "passed s ps rs s' \<longleftrightarrow>
     (let k = st_next (ps_store s); n = length rs; prs = zip ps rs in
      n \<le> length ps \<and> list_all2 next_piece (take n ps) rs \<and> list_all2 (starts (ps_store s)) (take n ps) rs \<and>
      bt_reqs (ps_batch s') = bt_reqs (ps_batch s) @ [k..<k + n] \<and> st_next (ps_store s') = k + n \<and>
      (\<forall>i < n. st_heap (ps_store s') (k + i) = Some (rs ! i)) \<and>
      (\<forall>i < k. st_heap (ps_store s') i = st_heap (ps_store s) i) \<and>
      bt_new_tokens (ps_batch s') = bt_new_tokens (ps_batch s) + new_tokens rs \<and>
      ad_budget (ps_adder s') = ad_budget (ps_adder s) - new_tokens rs \<and>
      (0 \<le> ad_budget (ps_adder s) \<longrightarrow> 0 \<le> ad_budget (ps_adder s')) \<and> int n \<le> new_tokens rs \<and>
      bt_prefill (ps_batch s') = bt_prefill (ps_batch s) \<and>
      ps_chunked s' = ps_chunked s @ continued k prs \<and>
      bt_admissions (ps_batch s') = bt_admissions (ps_batch s) @ reported prs)"

lemma add_to_batch_fields:
  "ps_adder (add_to_batch p r a s) = a"
  "ps_chunked (add_to_batch p r a s) =
     ps_chunked s @ (if rq_chunked r then [p\<lparr>pd_chunk := Some (st_next (ps_store s))\<rparr>] else [])"
  "st_next (ps_store (add_to_batch p r a s)) = Suc (st_next (ps_store s))"
  "st_heap (ps_store (add_to_batch p r a s)) = (st_heap (ps_store s))(st_next (ps_store s) := Some r)"
  "bt_reqs (ps_batch (add_to_batch p r a s)) = bt_reqs (ps_batch s) @ [st_next (ps_store s)]"
  "bt_new_tokens (ps_batch (add_to_batch p r a s)) = bt_new_tokens (ps_batch s) + extend_len r"
  "bt_prefill (ps_batch (add_to_batch p r a s)) = bt_prefill (ps_batch s)"
  "bt_admissions (ps_batch (add_to_batch p r a s)) = bt_admissions (ps_batch s) @
     (if pd_chunk p = None then [(rq_uid r, length (pd_ids p), handle_len (rq_handle r))] else [])"
  by (simp_all add: add_to_batch_def new_req_def Let_def)

lemma passed_step:
  assumes a: "attempt p (ps_adder s) r a'" and st: "starts (ps_store s) p r"
    and rest: "passed (add_to_batch p r a' s) ps rs s'"
  shows "passed s (p # ps) (r # rs) s'"
proof -
  note f = add_to_batch_fields [of p r a' s]
  note d = rest [unfolded passed_def Let_def f]
  note e = a [unfolded attempt_def]
  let ?k = "st_next (ps_store s)"
  have cl: "pd_chunk p = None \<Longrightarrow> rq_cached r = handle_len (rq_handle r)" using st by (simp add: starts_def)
  have heap: "st_heap (ps_store s') (?k + i) = Some ((r # rs) ! i)" if "i < length (r # rs)" for i
  proof (cases i)
    case 0
    then show ?thesis using d by simp
  next
    case (Suc j)
    then show ?thesis using d that by simp
  qed
  have old: "st_heap (ps_store s') i = st_heap (ps_store s) i" if "i < ?k" for i using d that by simp
  have up: "[?k..<?k + length (r # rs)] = ?k # [Suc ?k..<Suc ?k + length rs]"
  proof -
    have "?k + length (r # rs) = Suc ?k + length rs" "?k < Suc ?k + length rs" by simp_all
    then show ?thesis by (simp only: upt_conv_Cons)
  qed
  show ?thesis
    unfolding passed_def Let_def
  proof (intro conjI)
    show "\<forall>i<length (r # rs). st_heap (ps_store s') (?k + i) = Some ((r # rs) ! i)" using heap by blast
    show "\<forall>i<?k. st_heap (ps_store s') i = st_heap (ps_store s) i" using old by blast
    show "bt_reqs (ps_batch s') = bt_reqs (ps_batch s) @ [?k..<?k + length (r # rs)]" using d unfolding up by simp
    show "list_all2 next_piece (take (length (r # rs)) (p # ps)) (r # rs)" using d attempt_piece [OF a] by simp
    show "list_all2 (starts (ps_store s)) (take (length (r # rs)) (p # ps)) (r # rs)"
    proof -
      have "list_all2 (starts (ps_store (add_to_batch p r a' s))) (take (length rs) ps) rs" using d by blast
      then have "list_all2 (starts (ps_store s)) (take (length rs) ps) rs"
        by (rule list_all2_mono) (erule starts_later; simp add: f)
      with st show ?thesis by simp
    qed
    show "ps_chunked s' = ps_chunked s @ continued ?k (zip (p # ps) (r # rs))" using d by simp
    show "bt_admissions (ps_batch s') = bt_admissions (ps_batch s) @ reported (zip (p # ps) (r # rs))"
      using d e cl by auto
  qed (use d e in auto)
qed

lemma prefill_loop_passed:
  assumes "prefill_loop ps s = Inr s'"
  shows "\<exists>rs. passed s ps rs s'"
  using assms
proof (induction ps arbitrary: s)
  case Nil
  then show ?case by (intro exI [of _ "[]"]) (simp add: passed_def Let_def)
next
  case (Cons p ps)
  obtain a res where t: "try_add_one (ps_store s) p (ps_adder s) = Inr (a, res)"
    using Cons.prems by (auto simp: and_then_eq_Inr)
  show ?case
  proof (cases res)
    case None
    have b: "ad_budget a = ad_budget (ps_adder s)"
      using t None
      by (auto simp: try_add_one_def and_then_eq_Inr split: if_splits option.splits
          dest!: add_one_req_none try_allocate_budget(1) undo_budget)
    have "s' = s\<lparr>ps_adder := a\<rparr>" using Cons.prems t None by simp
    then show ?thesis using b by (intro exI [of _ "[]"]) (simp add: passed_def Let_def)
  next
    case (Some r)
    have "prefill_loop ps (add_to_batch p r a s) = Inr s'" using Cons.prems t Some by simp
    then obtain rs where rs: "passed (add_to_batch p r a s) ps rs s'" using Cons.IH by blast
    note tf = try_add_one_facts [OF t [unfolded Some]]
    have "starts (ps_store s) p r" using tf(2,3) by (auto simp: starts_def split: option.split)
    from passed_step [OF tf(1) this rs] have "passed s (p # ps) (r # rs) s'" .
    then show ?thesis by blast
  qed
qed


lemma prefill_schedule_passed:
  assumes "prefill_schedule budget running pend st c tb = Inr (pend', st', c', tb', Some b)"
  obtains rs where "rs \<noteq> []" "length rs \<le> length pend" "list_all2 next_piece (take (length rs) pend) rs"
    "bt_reqs b = [st_next st..<st_next st + length rs]"
    "\<And>i. i < length rs \<Longrightarrow> st_heap st' (st_next st + i) = Some (rs ! i)"
    "\<And>i. i < st_next st \<Longrightarrow> st_heap st' i = st_heap st i"
    "bt_new_tokens b = new_tokens rs" "int (length rs) \<le> new_tokens rs" "new_tokens rs \<le> budget" "bt_prefill b"
    "pend' = continued (st_next st) (zip pend rs) @ drop (length rs) pend" "bt_admissions b = reported (zip pend rs)"
    "list_all2 (starts st) (take (length rs) pend) rs"
proof -
  let ?s0 = "\<lparr>ps_adder = \<lparr>ad_budget = budget, ad_reserved = inflight_tokens (cm_psize c) st running,
                        ad_reserved_swa = 0, ad_cm = c, ad_tb = tb\<rparr>,
           ps_store = st, ps_chunked = [],
           ps_batch = \<lparr>bt_reqs = [], bt_prefill = True, bt_new_tokens = 0, bt_cached_tokens = 0, bt_admissions = []\<rparr>\<rparr>"
  have ne: "pend \<noteq> []" using assms by (auto simp: prefill_schedule_def)
  then obtain s where s: "prefill_loop pend ?s0 = Inr s" "bt_reqs (ps_batch s) \<noteq> []"
    "pend' = ps_chunked s @ drop (length (bt_reqs (ps_batch s))) pend" "st' = ps_store s" "b = ps_batch s"
    using assms by (auto simp: prefill_schedule_def Let_def and_then_eq_Inr split: if_splits)
  obtain rs where "passed ?s0 pend rs s" using prefill_loop_passed [OF s(1)] by blast
  note p = this [unfolded passed_def Let_def, simplified]
  have n: "rs \<noteq> []" using p s(2) by auto
  have "0 < budget"
  proof (rule ccontr)
    assume "\<not> 0 < budget"
    then have "prefill_loop pend ?s0 = Inr ?s0" using ne by (cases pend) (simp_all add: try_add_one_def)
    then show False using s(1,2) by auto
  qed
  then show ?thesis using that [of rs] n p s by auto
qed


text \<open>C6: a prefill pass that returns a batch admits a prefix of the waiting list, in order, and each admitted
  request becomes the next piece of its prompt. The piece holds the prompt's tokens up to \<open>rq_device\<close>, at least
  one of them not computed yet, and is chunked exactly when the prompt goes on. A first piece starts after the
  cached prefix its handle covers; a continuation starts at the \<open>cached_len\<close> that the request of the piece before
  it has in the store, and takes over that request's row, handle, state slots and window watermark. Together the
  pieces compute at most the token budget. The chunked prompts go back to the front of the list in the same
  order, pointing at their new piece, before the requests that were not reached, and a prompt is reported as
  admitted exactly once, with its first piece.\<close>

theorem prefill_pass:
  assumes "prefill_schedule budget running pend st c tb = Inr (pend', st', c', tb', Some b)"
  shows "\<exists>rs. rs \<noteq> [] \<and> length rs \<le> length pend \<and> list_all2 next_piece (take (length rs) pend) rs \<and>
    bt_reqs b = [st_next st..<st_next st + length rs] \<and>
    (\<forall>i < length rs. st_heap st' (st_next st + i) = Some (rs ! i)) \<and>
    bt_new_tokens b = new_tokens rs \<and> int (length rs) \<le> new_tokens rs \<and> new_tokens rs \<le> budget \<and>
    pend' = continued (st_next st) (zip pend rs) @ drop (length rs) pend \<and>
    bt_admissions b = reported (zip pend rs) \<and> list_all2 (starts st) (take (length rs) pend) rs"
  by (rule prefill_schedule_passed [OF assms]) blast

text \<open>The second token of a chunked prompt is computed; its next piece and the start of a new prompt are admitted.\<close>

definition demo_piece :: req where
  "demo_piece =
     \<lparr>rq_ids = [5, 6], rq_table = 1, rq_cached = 2, rq_device = 3, rq_max_device = 3, rq_output = 1, rq_uid = 2,
      rq_handle = NaiveH, rq_mm = False, rq_linear = None, rq_ping_pong = None, rq_next_track = 0, rq_last_track = None,
      rq_restore = None, rq_swa_evicted = 0, rq_decode_idx = 0, rq_anchor = None, rq_aborted = False,
      rq_released = False, rq_chunked = True\<rparr>"

definition demo_pass :: "err + (pending list \<times> store \<times> cm \<times> tables \<times> batch option)" where
  "demo_pass = prefill_schedule 3 []
     [\<lparr>pd_uid = 2, pd_ids = [5, 6, 4], pd_output = 1, pd_mm = False, pd_chunk = Some 0\<rparr>,
      \<lparr>pd_uid = 1, pd_ids = [7, 8, 9], pd_output = 1, pd_mm = False, pd_chunk = None\<rparr>]
     \<lparr>st_heap = [0 \<mapsto> demo_piece], st_next = 1\<rparr>
     \<lparr>cm_free = [0, 1, 2, 3, 4, 5, 6, 7], cm_pages = 8, cm_psize = 1, cm_kind = KNaive, cm_pc = PNaive,
      cm_lpool = None, cm_swa = None, cm_window = 0, cm_table = (\<lambda>_. replicate 8 0), cm_lazy = None,
      cm_clk = int, cm_reads = 1\<rparr>
     \<lparr>tb_max = 2, tb_free = [0], tb_rows = (\<lambda>_. replicate 8 0), tb_tokens = (\<lambda>_. replicate 8 0)\<rparr>"

lemma demo_pass_eval:
  "case demo_pass of
     Inr (pend', st', c', tb', Some b) \<Rightarrow>
       map (\<lambda>p. (pd_uid p, pd_chunk p)) pend' = [(1, Some 2)] \<and> bt_reqs b = [1, 2] \<and> bt_new_tokens b = 3
   | _ \<Rightarrow> False"
  by code_simp

theorem prefill_pass_witness:
  "\<exists>pend' st' c' tb' b rs. demo_pass = Inr (pend', st', c', tb', Some b) \<and> bt_new_tokens b = 3 \<and>
     length rs = 2 \<and> new_tokens rs \<le> 3 \<and> map pd_uid pend' = [1] \<and> st_heap st' 2 = Some (rs ! 1) \<and>
     rq_cached (rs ! 0) = 2 \<and> rq_table (rs ! 0) = 1"
proof -
  obtain pend' st' c' tb' b where d: "demo_pass = Inr (pend', st', c', tb', Some b)" "map pd_uid pend' = [1]"
    "bt_reqs b = [1, 2]" "bt_new_tokens b = 3"
    using demo_pass_eval by (auto split: sum.splits option.splits)
  from prefill_pass [OF d(1) [unfolded demo_pass_def]] obtain rs where
    rs: "bt_reqs b = [1..<1 + length rs]" "\<forall>i < length rs. st_heap st' (1 + i) = Some (rs ! i)" "new_tokens rs \<le> 3"
      "list_all2 (starts \<lparr>st_heap = [0 \<mapsto> demo_piece], st_next = 1\<rparr>) (take (length rs)
         [\<lparr>pd_uid = 2, pd_ids = [5, 6, 4], pd_output = 1, pd_mm = False, pd_chunk = Some 0\<rparr>,
          \<lparr>pd_uid = 1, pd_ids = [7, 8, 9], pd_output = 1, pd_mm = False, pd_chunk = None\<rparr>]) rs"
    by (auto simp: numeral_eq_Suc)
  have n: "length rs = 2" using arg_cong [OF rs(1), of length] unfolding d(3) length_upt by simp
  then have "st_heap st' 2 = Some (rs ! 1)" using rs(2) [rule_format, of 1] by (simp add: numeral_2_eq_2)
  moreover have "rq_cached (rs ! 0) = 2 \<and> rq_table (rs ! 0) = 1"
    using rs(4) n by (auto simp: numeral_eq_Suc length_Suc_conv starts_def demo_piece_def)
  ultimately show ?thesis using d n rs(3) by (intro exI conjI) (assumption | simp)+
qed

end
