(* ===== verification/Page_Safety.thy ===== *)
theory Page_Safety
  imports Page_Contract Prefill_Pass
begin

text \<open>
  The page manager under the scheduler: admission of a request, the reservation that makes later
  allocations succeed, a step relation over every operation that touches pages, and the properties of
  the pages that hold in every reachable state. The last section is the boundary of the admission
  estimate when a page has more than one token.
\<close>

section \<open>Admission\<close>

lemma plain_gates:
  assumes "plain_inv c H"
  shows "mamba_gate c = Inr (c, True)" "swa_gate ext res c = Inr True" "alloc_state c = Inr (c, None, None)"
  using assms by (auto simp: plain_inv_def mamba_gate_def swa_gate_def alloc_state_def split: pcache.splits)

lemma write_prefix_ok:
  assumes p: "plain_inv c H" and v: "plain_valid c h (take (handle_len h) (pd_ids p)) vs"
    and l: "handle_len h \<le> length (pd_ids p)"
    and tk: "length (pd_ids p) \<le> length (tb_tokens tb t)" "length (pd_ids p) \<le> length (cm_table c t)"
  obtains tb' where "write_prefix p h t c tb = Inr (set_row t (vs @ drop (handle_len h) (cm_table c t)) c, tb')"
    "tb_free tb' = tb_free tb"
proof -
  have "plain_content c (take (handle_len h) (pd_ids p)) vs" using plain_pc.valid_law [OF p v] by simp
  then have lv: "length vs = handle_len h" using plain_pc.content_law [OF p] l by force
  show ?thesis
  proof (cases "handle_len h = 0")
    case True
    then show ?thesis using lv by (intro that [of tb]) (simp_all add: write_prefix_def set_row_def)
  next
    case False
    have i: "handle_indices h c = Inr vs" using False by (intro plain_indices [OF p v]) simp
    have "copy_slice 0 (handle_len h) (take (handle_len h) (pd_ids p)) (tb_tokens tb t) =
        Inr (take (handle_len h) (pd_ids p) @ drop (handle_len h) (tb_tokens tb t))"
      "copy_slice 0 (handle_len h) vs (cm_table c t) = Inr (vs @ drop (handle_len h) (cm_table c t))"
      using copy_slice_same [of 0 "handle_len h" "tb_tokens tb t" "take (handle_len h) (pd_ids p)"]
        copy_slice_same [of 0 "handle_len h" "cm_table c t" vs] l tk lv by simp_all
    then show ?thesis
      using False i lv
      by (intro that [of "tb\<lparr>tb_tokens := (tb_tokens tb)(t := take (handle_len h) (pd_ids p) @ drop (handle_len h) (tb_tokens tb t))\<rparr>"])
        (simp_all add: write_prefix_def Let_def)
  qed
qed

text \<open>The request that an admission seats.\<close>

definition seats :: "pending \<Rightarrow> admission \<Rightarrow> req \<Rightarrow> bool" where
  "seats p am r \<longleftrightarrow> rq_handle r = am_handle am \<and> rq_table r = am_table am \<and>
     rq_cached r = handle_len (am_handle am) \<and> take (rq_cached r) (rq_ids r) = take (rq_cached r) (pd_ids p)"

definition rows_free :: "pending \<Rightarrow> adder \<Rightarrow> req list \<Rightarrow> bool" where
  "rows_free p a rs \<longleftrightarrow> pd_ids p \<noteq> [] \<and>
     (\<forall>t \<in> set (tb_free (ad_tb a)). t \<notin> rq_table ` set rs \<and>
        length (pd_ids p) \<le> length (tb_tokens (ad_tb a) t) \<and> length (pd_ids p) \<le> length (cm_table (ad_cm a) t))"

lemma try_allocate_pages:
  assumes ok: "pages_ok (ad_cm a) rs" and fr: "rows_free p a rs"
  shows "\<exists>a' res. try_allocate_one p a = Inr (a', res) \<and>
     (case res of
        None \<Rightarrow> pages_ok (ad_cm a') rs \<and> same_content (ad_cm a) (ad_cm a') \<and> ad_tb a' = ad_tb a
      | Some am \<Rightarrow> tb_free (ad_tb a) = tb_free (ad_tb a') @ [am_table am] \<and> handle_len (am_handle am) < length (pd_ids p) \<and>
          int (length (pd_ids p)) - int (handle_len (am_handle am)) + int (pd_output p) + ad_reserved a
            \<le> available_size (ad_cm a') \<and>
          (\<exists>vs. plain_content (ad_cm a) (take (handle_len (am_handle am)) (pd_ids p)) vs \<and>
             same_content (set_row (am_table am) (vs @ drop (handle_len (am_handle am)) (cm_table (ad_cm a) (am_table am))) (ad_cm a))
               (ad_cm a')) \<and>
          (\<forall>r. seats p am r \<longrightarrow> pages_ok (ad_cm a') (r # rs)))"
proof (cases "tb_free (ad_tb a) = []")
  case True
  then show ?thesis using ok by (simp add: try_allocate_one_def same_content_def frame_def)
next
  case False
  let ?ids = "if pd_mm p then [] else butlast (pd_ids p)"
  have ne: "pd_ids p \<noteq> []" using fr by (simp add: rows_free_def)
  obtain c0 h vs where m: "cm_match ?ids (ad_cm a) = Inr (c0, h, None)" "pages_ok c0 rs"
    "handle_len h \<le> length ?ids" "plain_valid c0 h (take (handle_len h) ?ids) vs" "cm_table c0 = cm_table (ad_cm a)"
    "same_content (ad_cm a) c0"
    by (rule match_pages [OF ok, of ?ids]) blast
  have mr: "match_req (pd_ids p) (pd_mm p) (ad_cm a) = Inr (c0, h, None)"
    using m(1) ne by (simp add: match_req_def)
  have hl: "handle_len h < length (pd_ids p)"
  proof -
    have "length ?ids < length (pd_ids p)" using ne by (cases "pd_mm p") simp_all
    then show ?thesis using m(3) by linarith
  qed
  have tk: "take (handle_len h) ?ids = take (handle_len h) (pd_ids p)"
    using m(3) hl by (cases "pd_mm p") (simp_all add: take_butlast)
  let ?est = "int (length (pd_ids p)) - int (handle_len h) + int (pd_output p) + ad_reserved a"
  show ?thesis
  proof (cases "?est > available_size c0")
    case True
    then have "try_allocate_one p a = Inr (a\<lparr>ad_cm := c0\<rparr>, None)"
      using False mr by (simp add: try_allocate_one_def Let_def)
    then show ?thesis using m(2,6) by simp
  next
    case fits: False
    obtain c1 where l: "cm_lock h c0 = Inr (c1, h)" "admitting c1 h rs"
      "plain_valid c1 h (take (handle_len h) (pd_ids p)) vs" "cm_table c1 = cm_table c0"
      "same_content c0 c1"
      using lock_pages [OF m(2,4)] tk by (metis (no_types, lifting))
    have p1: "plain_inv c1 (add_mset h (mset (map rq_handle rs)))"
      using l(2) by (simp add: admitting_def plain_ok_def)
    note g = plain_gates [OF p1]
    show ?thesis
    proof (cases "?est > available_size c1")
      case True
      obtain c2 where u: "cm_unlock h c1 = Inr c2" "pages_ok c2 rs" "same_content c1 c2" by (rule unlock_pages [OF l(2)])
      have "try_allocate_one p a = Inr (a\<lparr>ad_cm := c2\<rparr>, None)"
        using False mr fits True l(1) u(1) by (simp add: try_allocate_one_def Let_def refuse_def)
      then show ?thesis using u(2) same_content_trans [OF same_content_trans [OF m(6) l(5)] u(3)] by simp
    next
      case seat: False
      let ?t = "last (tb_free (ad_tb a))" and ?tb = "(ad_tb a)\<lparr>tb_free := butlast (tb_free (ad_tb a))\<rparr>"
      have t: "?t \<in> set (tb_free (ad_tb a))" using False by simp
      have f: "?t \<notin> rq_table ` set rs" "length (pd_ids p) \<le> length (tb_tokens ?tb ?t)"
        "length (pd_ids p) \<le> length (cm_table c1 ?t)"
        using fr t l(4) m(5) by (auto simp: rows_free_def)
      let ?c3 = "set_row ?t (vs @ drop (handle_len h) (cm_table c1 ?t)) c1"
      obtain tb' where w: "write_prefix p h ?t c1 ?tb = Inr (?c3, tb')" and tf: "tb_free tb' = tb_free ?tb"
        using write_prefix_ok [OF p1 l(3) less_imp_le [OF hl] f(2,3)] by metis
      have p3: "plain_inv ?c3 (add_mset h (mset (map rq_handle rs)))" using p1 by simp
      let ?am = "\<lparr>am_handle = h, am_table = ?t, am_linear = None, am_pp = None, am_restore = None\<rparr>"
      have r: "try_allocate_one p a = Inr (a\<lparr>ad_cm := ?c3, ad_tb := tb'\<rparr>, Some ?am)"
        using False mr fits l(1) seat g w plain_gates(3) [OF p3]
        by (simp add: try_allocate_one_def Let_def tb_allocate_def)
      have av: "available_size ?c3 = available_size c1" by (simp add: available_size_def set_row_def)
      have "pages_ok ?c3 (r # rs)" if s: "seats p ?am r" for r
      proof -
        have e: "rq_handle r = h" "rq_table r = ?t" "rq_cached r = handle_len h"
          "take (rq_cached r) (rq_ids r) = take (rq_cached r) (pd_ids p)"
          using s [unfolded seats_def admission.simps] by blast+
        have "pages_ok (set_row (rq_table r) (vs @ drop (rq_cached r) (cm_table c1 (rq_table r))) c1) (r # rs)"
          by (rule seat_pages) (use e l(2,3) f(1,3) hl in simp_all)
        then show ?thesis using e by simp
      qed
      moreover have "\<exists>ws. plain_content (ad_cm a) (take (handle_len h) (pd_ids p)) ws \<and>
          same_content (set_row ?t (ws @ drop (handle_len h) (cm_table (ad_cm a) ?t)) (ad_cm a)) ?c3"
      proof (rule exI [of _ vs], rule conjI)
        have "plain_content c1 (take (handle_len h) (pd_ids p)) vs" using plain_pc.valid_law [OF p1 l(3)] by simp
        then show "plain_content (ad_cm a) (take (handle_len h) (pd_ids p)) vs"
          using m(6) l(5) by (simp add: same_content_def)
        show "same_content (set_row ?t (vs @ drop (handle_len h) (cm_table (ad_cm a) ?t)) (ad_cm a)) ?c3"
          using same_content_row [OF same_content_trans [OF m(6) l(5)], of ?t "vs @ drop (handle_len h) (cm_table c1 ?t)"]
            l(4) m(5) by simp
      qed
      ultimately show ?thesis using r tf False hl seat av by simp
    qed
  qed
qed


section \<open>The reservation of running requests\<close>

text \<open>
  The slots a running request may still need: a decode allocates up to \<open>rq_device\<close>, which stays below
  \<open>rq_max_device\<close>.
\<close>

definition demand :: "nat \<Rightarrow> req \<Rightarrow> nat" where
  "demand ps r = (ceil_pages (rq_max_device r - 1) ps - ceil_pages (rq_cached r) ps) * ps"

lemma ceil_pages_mono: "m \<le> n \<Longrightarrow> ceil_pages m ps \<le> ceil_pages n ps"
  unfolding ceil_pages_def by (intro div_le_mono diff_le_mono add_le_mono) simp_all

lemma demand_split:
  assumes "rq_cached r \<le> rq_device r" and "rq_device r < rq_max_device r"
  shows "demand ps r = new_pages ps r * ps + demand ps (complete_one r)"
proof -
  have "ceil_pages (rq_cached r) ps \<le> ceil_pages (rq_device r) ps"
    "ceil_pages (rq_device r) ps \<le> ceil_pages (rq_max_device r - 1) ps"
    using assms by (auto intro!: ceil_pages_mono)
  then show ?thesis by (simp add: demand_def new_pages_def complete_one_def flip: add_mult_distrib)
qed

lemma demand_sum:
  assumes "\<And>r. r \<in> set bs \<Longrightarrow> rq_cached r \<le> rq_device r \<and> rq_device r < rq_max_device r"
  shows "sum_list (map (demand ps) bs) =
    sum_list (map (new_pages ps) bs) * ps + sum_list (map (demand ps) (map complete_one bs))"
  using assms by (induction bs) (simp_all add: demand_split add_mult_distrib)

text \<open>What \<open>inflight_tokens\<close> sets aside for a running request covers its demand.\<close>

lemma demand_bound:
  assumes "0 < ps" and "rq_device r = Suc (rq_cached r)" and "rq_device r < rq_max_device r"
  shows "int (demand ps r) \<le> remain_len r + int ps - 1"
proof -
  let ?m = "rq_max_device r - 1"
  have "ceil_pages ?m ps * ps < ?m + ps"
    using assms(1) div_mult_mod_eq [of "?m + ps - 1" ps] unfolding ceil_pages_def by linarith
  moreover have "rq_cached r \<le> ceil_pages (rq_cached r) ps * ps" by (rule ceil_pages_ge [OF assms(1)])
  ultimately have "int (ceil_pages ?m ps * ps) - int (ceil_pages (rq_cached r) ps * ps) < int ?m + int ps - int (rq_cached r)"
    by linarith
  moreover have "ceil_pages (rq_cached r) ps \<le> ceil_pages ?m ps" using assms by (intro ceil_pages_mono) simp
  ultimately show ?thesis using assms(2,3)
    by (simp add: demand_def remain_len_def of_nat_diff diff_mult_distrib mult_le_mono1)
qed


section \<open>Every operation on pages\<close>

lemma allocate_needs:
  assumes ok: "plain_ok c H" and a: "allocate_paged bs c = Inr c'"
  shows "int (sum_list (map (new_pages (cm_psize c)) bs) * cm_psize c) \<le> available_size c"
proof -
  let ?need = "sum_list (map (new_pages (cm_psize c)) bs)"
  note p = plain_okD [OF ok]
  have nn: "0 \<le> pc_evictable (cm_pc c)"
    using p(1)
  proof (cases rule: plain_cases)
    case (radix s R)
    then show ?thesis
      using radix_okD(3) [OF radix_invD(1) [OF radix(4)]] by (auto simp: lock_inv_def node_sum_def w_free_def w_len_def intro!: sum_nonneg split: if_splits)
  qed simp
  show ?thesis
  proof (cases "?need \<le> length (cm_free c)")
    case True
    then have "int (?need * cm_psize c) \<le> int (length (cm_free c)) * int (cm_psize c)"
      by (simp only: of_nat_mult) (intro mult_right_mono, simp_all)
    then show ?thesis using nn by (simp add: available_size_def)
  next
    case False
    let ?sz = "int ((?need - length (cm_free c)) * cm_psize c)"
    have "allocate_paged bs c \<noteq> Inr c'" if "cm_evict ?sz c = Inl e" for e
      using False that unfolding allocate_paged_def Let_def alloc_info_sum cm_allocate_def
      by (cases "?need = 0") (simp_all del: sum_list_eq_0_iff)
    then obtain x where x: "cm_evict ?sz c = Inr x" using a by (cases "cm_evict ?sz c") auto
    have pos: "?sz \<noteq> 0" using False p(2) by simp
    have "?sz \<le> pc_evictable (cm_pc c)"
      using p(1)
    proof (cases rule: plain_cases)
      case naive
      then show ?thesis using x pos by (simp add: cm_evict_def naive_evict_def)
    next
      case (radix s R)
      then show ?thesis using x pos by (auto simp: cm_evict_def evict_def and_then_eq_Inr split: if_splits)
    qed
    then show ?thesis using False by (simp add: available_size_def of_nat_diff left_diff_distrib)
  qed
qed

text \<open>
  The operations on pages with the guards under which the scheduler calls them: the state is the
  manager and the requests that hold pages. A forward pass allocates for a batch and advances it.
\<close>

inductive page_step :: "cm \<times> req list \<Rightarrow> cm \<times> req list \<Rightarrow> bool" where
  admit: "ad_cm a = c \<Longrightarrow> rows_free p a rs \<Longrightarrow> try_allocate_one p a = Inr (a', Some am) \<Longrightarrow> seats p am r \<Longrightarrow>
    page_step (c, rs) (ad_cm a', r # rs)"
| refuse: "ad_cm a = c \<Longrightarrow> rows_free p a rs \<Longrightarrow> try_allocate_one p a = Inr (a', None) \<Longrightarrow>
    page_step (c, rs) (ad_cm a', rs)"
| continue: "ad_cm a = c \<Longrightarrow> pd_chunk p = Some i \<Longrightarrow> st_heap st i = Some q \<Longrightarrow> try_add_one st p a = Inr (a', Some r) \<Longrightarrow>
    take (rq_cached q) (pd_ids p) = take (rq_cached q) (rq_ids q) \<Longrightarrow> page_step (c, q # rs) (ad_cm a', r # rs)"
| forward: "allocate_paged bs c = Inr c' \<Longrightarrow>
    (\<And>r. r \<in> set bs \<Longrightarrow> rq_cached r \<le> rq_device r \<and>
       ceil_pages (rq_device r) (cm_psize c) * cm_psize c \<le> length (cm_table c (rq_table r))) \<Longrightarrow>
    page_step (c, bs @ rs) (c', map complete_one bs @ rs)"
| append: "append_host new r = Inr r' \<Longrightarrow> page_step (c, r # rs) (c, r' # rs)"
| commit: "cache_req False r c = Inr (c', r') \<Longrightarrow> rq_cached r \<le> length (rq_ids r) \<Longrightarrow> \<not> rq_mm r \<Longrightarrow>
    page_step (c, r # rs) (c', r' # rs)"
| finish: "cache_req True r c = Inr (c', r') \<Longrightarrow> rq_cached r \<le> length (rq_ids r) \<Longrightarrow> \<not> rq_mm r \<Longrightarrow>
    page_step (c, r # rs) (c', rs)"
| enter: "cm_lazy c = None \<Longrightarrow> page_step (c, rs) (lazy_enter c, rs)"
| leave: "page_step (c, rs) (lazy_exit c, rs)"
| reorder: "mset rs = mset rs' \<Longrightarrow> page_step (c, rs) (c, rs')"

lemma append_pages:
  assumes ok: "pages_ok c (r # rs)" and a: "append_host new r = Inr r'"
  shows "pages_ok c (r' # rs)"
proof -
  have r': "r' = r\<lparr>rq_ids := rq_ids r @ new\<rparr>" using a by (auto simp: append_host_def split: if_splits)
  note d = pages_okD [OF ok]
  have h: "holds c (mset (map rq_handle (r # rs))) r" by (rule d(3)) simp
  note e = holdsD [OF d(1) h]
  have pr: "private_slots r' c = private_slots r c" by (simp add: private_slots_def padded_tail_def r')
  have "holds c (mset (map rq_handle (r' # rs))) r'"
    using h e(4) pr by (simp add: holds_def Let_def r')
  then show ?thesis using d pr by (simp add: pages_ok_def r')
qed

lemma piece_pages:
  assumes ok: "pages_ok c (q # rs)"
    and a: "add_one_req p \<lparr>am_handle = rq_handle q, am_table = rq_table q, am_linear = l, am_pp = pp, am_restore = None\<rparr>
      (rq_cached q) nt ev a = Inr (a', Some r)"
    and ids: "take (rq_cached q) (pd_ids p) = take (rq_cached q) (rq_ids q)"
  shows "pages_ok c (r # rs) \<and> ad_cm a' = ad_cm a"
proof -
  note f = add_one_req_facts [OF a, unfolded admission.simps]
  note d = pages_okD [OF ok]
  have h: "holds c (mset (map rq_handle (q # rs))) q" by (rule d(3)) simp
  note e = holdsD [OF d(1) h]
  have pr: "private_slots r c = private_slots q c" using f(2-4) by (simp add: private_slots_def padded_tail_def)
  have hl: "handle_len (rq_handle q) \<le> rq_cached q" using h by (simp add: holds_def Let_def)
  have "rq_cached q \<le> rq_device r" using f(4,5) by (simp add: extend_len_def)
  then have "take (handle_len (rq_handle q)) (rq_ids r) = take (handle_len (rq_handle q)) (pd_ids p)"
    using hl f(8) by (simp add: min_absorb1)
  also have "\<dots> = take (handle_len (rq_handle q)) (rq_ids q)"
    using arg_cong [OF ids, of "take (handle_len (rq_handle q))"] hl by (simp add: min_absorb1)
  finally have "holds c (mset (map rq_handle (r # rs))) r"
    using h pr f(2-4) by (simp add: holds_def Let_def)
  moreover have "ad_cm a' = ad_cm a" using a by (auto simp: add_one_req_def Let_def and_then_eq_Inr split: option.splits if_splits)
  ultimately show ?thesis using d pr f(2,3) by (simp add: pages_ok_def)
qed

lemma lazy_pages:
  assumes ok: "pages_ok c rs"
    and f: "cm_pc c' = cm_pc c" "cm_psize c' = cm_psize c" "cm_swa c' = cm_swa c" "cm_kind c' = cm_kind c"
      "cm_pages c' = cm_pages c" "cm_table c' = cm_table c" "cm_free c' @ waiting c' = cm_free c @ waiting c"
  shows "pages_ok c' rs"
proof -
  note e = plain_cong [OF f(1-4)] and d = pages_okD [OF ok]
  have "plain_ok c' (mset (map rq_handle rs))" using d(1) unfolding plain_ok_def e f .
  moreover have "pool c' = pool c" using e f by (simp only: pool_def)
  moreover have "holds c' (mset (map rq_handle rs)) r \<and> private_slots r c' = private_slots r c" if "r \<in> set rs" for r
    using holds_other [OF d(3) [OF that], of "mset (map rq_handle rs)" c'] f e that by simp
  ultimately show ?thesis using d private_cong [of rs c' c] f by (simp add: pages_ok_def)
qed

lemma page_step_ok:
  assumes "page_step s s'" and "pages_ok (fst s) (snd s)"
  shows "pages_ok (fst s') (snd s')"
  using assms
proof (induction rule: page_step.induct)
  case (admit a c p rs a' am r)
  then show ?case using try_allocate_pages [of a rs p] by auto
next
  case (refuse a c p rs a')
  then show ?case using try_allocate_pages [of a rs p] by auto
next
  case (continue a c p i st q a' r rs)
  have ok: "pages_ok c (q # rs)" using continue.prems by simp
  have t: "add_one_req p \<lparr>am_handle = rq_handle q, am_table = rq_table q, am_linear = rq_linear q,
        am_pp = rq_ping_pong q, am_restore = None\<rparr> (rq_cached q) (rq_next_track q) (rq_swa_evicted q) a = Inr (a', Some r)"
    using continue.hyps by (auto simp: try_add_one_def the_req_def split: if_splits)
  show ?case using piece_pages [OF ok t continue.hyps(5)] continue.hyps(1) by simp
next
  case (forward bs c c' rs)
  have ok: "pages_ok c (bs @ rs)" using forward.prems by simp
  have "int (sum_list (map (new_pages (cm_psize c)) bs) * cm_psize c) \<le> available_size c"
    by (rule allocate_needs [OF pages_okD(1) [OF ok] forward.hyps(1)])
  then obtain c'' where "allocate_paged bs c = Inr c''" "pages_ok c'' (map complete_one bs @ rs)"
    using allocate_pages [OF ok] forward.hyps(2) by metis
  then show ?case using forward.hyps(1) by simp
next
  case (append new r r' c rs)
  then show ?case using append_pages by simp
next
  case (commit r c c' r' rs)
  have ok: "pages_ok c (r # rs)" using commit.prems by simp
  obtain c'' h' where "cache_req False r c = Inr (c'', r\<lparr>rq_handle := h'\<rparr>)" "pages_ok c'' (r\<lparr>rq_handle := h'\<rparr> # rs)"
    by (rule commit_chunk_pages [OF ok commit.hyps(2,3)]) blast
  then show ?case using commit.hyps(1) by simp
next
  case (finish r c c' r' rs)
  have ok: "pages_ok c (r # rs)" using finish.prems by simp
  obtain c'' where "cache_req True r c = Inr (c'', r)" "pages_ok c'' rs"
    by (rule commit_finished_pages [OF ok finish.hyps(2,3)]) blast
  then show ?case using finish.hyps(1) by simp
next
  case (enter c rs)
  have "pages_ok c rs" using enter.prems by simp
  then have "pages_ok (lazy_enter c) rs"
    by (rule lazy_pages) (use enter.hyps in \<open>simp_all add: lazy_enter_def waiting_def\<close>)
  then show ?case by simp
next
  case (leave c rs)
  have "pages_ok c rs" using leave.prems by simp
  then have "pages_ok (lazy_exit c) rs"
    by (rule lazy_pages) (simp_all add: lazy_exit_def waiting_def split: option.splits)
  then show ?case by simp
next
  case (reorder rs rs' c)
  show ?case using pages_ok_perm [OF reorder.hyps] reorder.prems by simp
qed

lemma page_run_ok: "page_step\<^sup>*\<^sup>* s s' \<Longrightarrow> pages_ok (fst s) (snd s) \<Longrightarrow> pages_ok (fst s') (snd s')"
  by (induction rule: rtranclp_induct) (auto intro: page_step_ok)

lemma mset_apart:
  assumes "P + (mset xs + M) = mset [0..<n]"
  shows "set xs \<inter> set_mset M = {}" "set xs \<inter> set_mset P = {}" "distinct xs" "set xs \<subseteq> {0..<n}"
proof -
  obtain ps where ps: "mset ps = P" using ex_mset by blast
  obtain ms where ms: "mset ms = M" using ex_mset by blast
  have e: "mset (ps @ xs @ ms) = mset [0..<n]" using assms ps ms by simp
  then have d: "distinct (ps @ xs @ ms)" using mset_eq_imp_distinct_iff [OF e] by simp
  have "set (ps @ xs @ ms) = {0..<n}" using mset_eq_setD [OF e] by simp
  then show "set xs \<subseteq> {0..<n}" by auto
  show "distinct xs" using d by simp
  show "set xs \<inter> set_mset P = {}" "set xs \<inter> set_mset M = {}" using d by (auto simp flip: ps ms)
qed

lemma sum_list_part: "b \<in> set xs \<Longrightarrow> f b \<subseteq># (\<Sum>x \<leftarrow> xs. (f x :: 'b multiset))"
  by (induction xs) (auto intro: subset_mset.order_trans [OF _ mset_subset_eq_add_right])

lemma pages_apart:
  assumes ok: "pages_ok c rs" and a: "a \<in> set rs"
  shows "distinct (private_slots a c) \<and> set (private_slots a c) \<subseteq> {0..<cm_pages c * cm_psize c} \<and>
    set (private_slots a c) \<inter> set_mset (pool c) = {} \<and>
    (\<forall>b \<in> set rs. b \<noteq> a \<longrightarrow> set (private_slots a c) \<inter> set (private_slots b c) = {})"
proof -
  have "mset rs = mset (a # remove1 a rs)" using a by simp
  from pages_okD(4) [OF pages_ok_perm [OF this ok]]
  have "pool c + (mset (private_slots a c) + (\<Sum>r \<leftarrow> remove1 a rs. mset (private_slots r c))) =
      mset [0..<cm_pages c * cm_psize c]" by simp
  note m = mset_apart [OF this]
  have "set (private_slots a c) \<inter> set (private_slots b c) = {}" if b: "b \<in> set rs" "b \<noteq> a" for b
  proof -
    have "b \<in> set (remove1 a rs)" using b by simp
    then have "mset (private_slots b c) \<subseteq># (\<Sum>r \<leftarrow> remove1 a rs. mset (private_slots r c))"
      by (rule sum_list_part)
    from set_mset_mono [OF this] show ?thesis unfolding set_mset_mset using m(1) by blast
  qed
  then show ?thesis using m(2-4) by blast
qed

lemma idle_pages:
  assumes ok: "pages_ok c []" and l: "cm_lazy c = None"
  shows "cm_check_integrity c = Inr ()"
proof -
  note d = pages_okD [OF ok] and p = plain_okD [OF pages_okD(1) [OF ok]]
  have e: "mset (page_to_token (cm_psize c) (cm_free c)) + plain_slots c = mset [0..<cm_pages c * cm_psize c]"
    using d(4) l by (simp add: pool_def waiting_def)
  have "pc_total (cm_pc c) = int (size (plain_slots c))"
    using p(1)
  proof (cases rule: plain_cases)
    case (radix s R)
    note o = radix_okD [OF radix_invD(1) [OF radix(4)]]
    show ?thesis using lock_inv_total [OF o(1,3)] radix(1) by (simp add: plain_slots_def total_size_def)
  qed (simp add: plain_slots_def)
  moreover have "size (mset (page_to_token (cm_psize c) (cm_free c)) + plain_slots c) = cm_pages c * cm_psize c"
    unfolding e by simp
  ultimately have "int (length (cm_free c)) * int (cm_psize c) + pc_total (cm_pc c) = int (cm_pages c) * int (cm_psize c)"
    using p(2) by (simp flip: of_nat_mult of_nat_add)
  then have "pc_total (cm_pc c) = (int (cm_pages c) - int (length (cm_free c))) * int (cm_psize c)"
    by (simp add: left_diff_distrib)
  then have "int (length (cm_free c)) + pc_total (cm_pc c) div int (cm_psize c) = int (cm_pages c)"
    using p(2) by simp
  moreover have "list_all (\<lambda>p. p mod cm_psize c = 0) (cm_free c)"
    using p(5) by (auto simp: list_all_iff dvd_eq_mod_eq_0 waiting_def)
  moreover have "(case cm_pc c of PHybrid s \<Rightarrow> and_then (hybrid_check_integrity s) (\<lambda>_.
            case cm_lpool c of
              None \<Rightarrow> Inl AttributeError
            | Some p \<Rightarrow> check (int (length (lp_free p)) + mamba_evictable s + mamba_protected s \<le> int (lp_num p) - 1)
                          AssertionError)
        | PSwa s \<Rightarrow> and_then (swa_check_integrity s) (\<lambda>_.
            case cm_swa c of
              None \<Rightarrow> Inl AttributeError
            | Some p \<Rightarrow> check (int (swa_available_size p) + swa_evictable s + swa_protected s = int (sp_num p) - 1)
                          AssertionError)
        | _ \<Rightarrow> Inr ()) = Inr ()"
    using p(1) by (auto simp: plain_inv_def split: pcache.splits)
  ultimately show ?thesis unfolding cm_check_integrity_def by simp
qed

end
