(* ===== verification/Page_Properties.thy ===== *)
theory Page_Properties
  imports Page_Safety
begin

text \<open>
  The properties of the page manager over the radix and the naive cache, with a small pool on which they
  are instantiated: four pages of two tokens and two requests.
\<close>

section \<open>A small pool\<close>

definition demo_cm :: cm where
  "demo_cm =
     \<lparr>cm_free = [0, 2, 4, 6], cm_pages = 4, cm_psize = 2, cm_kind = KRadix, cm_pc = PRadix (radix_init 2 0 0),
      cm_lpool = None, cm_swa = None, cm_window = 0, cm_table = (\<lambda>_. replicate 8 0), cm_lazy = None,
      cm_clk = int, cm_reads = 1\<rparr>"

definition demo_adder :: "cm \<Rightarrow> nat list \<Rightarrow> adder" where
  "demo_adder c rows =
     \<lparr>ad_budget = 8, ad_reserved = 0, ad_reserved_swa = 0, ad_cm = c,
      ad_tb = \<lparr>tb_max = 2, tb_free = rows, tb_rows = cm_table c, tb_tokens = (\<lambda>_. replicate 8 0)\<rparr>\<rparr>"

definition demo_pending :: "nat \<Rightarrow> token list \<Rightarrow> pending" where
  "demo_pending uid ids = \<lparr>pd_uid = uid, pd_ids = ids, pd_output = 1, pd_mm = False, pd_chunk = None\<rparr>"

definition demo_req :: "nat \<Rightarrow> token list \<Rightarrow> nat \<Rightarrow> req" where
  "demo_req uid ids t =
     \<lparr>rq_ids = ids, rq_table = t, rq_cached = 0, rq_device = length ids, rq_max_device = Suc (length ids),
      rq_output = 1, rq_uid = uid, rq_handle = RadixH \<lparr>h_len = 0, h_node = 0\<rparr>, rq_mm = False, rq_linear = None,
      rq_ping_pong = None, rq_next_track = 0, rq_last_track = None, rq_restore = None, rq_swa_evicted = 0,
      rq_decode_idx = 0, rq_anchor = None, rq_aborted = False, rq_released = False, rq_chunked = False\<rparr>"

definition demo_seated :: "nat list \<Rightarrow> pending \<Rightarrow> nat \<Rightarrow> cm \<Rightarrow> cm" where
  "demo_seated rows p t c =
     (case try_allocate_one p (demo_adder c rows) of
        Inr (a', Some am) \<Rightarrow> if am_handle am = RadixH \<lparr>h_len = 0, h_node = 0\<rparr> \<and> am_table am = t then ad_cm a' else c
      | _ \<Rightarrow> c)"

lemma demo_init: "cm_init 4 2 (\<lambda>_. replicate 8 0) KRadix None None 0 0 int = Inr demo_cm"
  by (simp add: cm_init_def make_prefix_cache_def demo_cm_def upt_rec)

lemma demo_pages: "pages_ok demo_cm []"
  by (rule init_pages_ok [OF _ demo_init]) simp_all

lemma seat_step:
  assumes "case try_allocate_one (demo_pending uid ids) (demo_adder c rows) of
      Inr (a', Some am) \<Rightarrow> am_handle am = RadixH \<lparr>h_len = 0, h_node = 0\<rparr> \<and> am_table am = t | _ \<Rightarrow> False"
    and "rows_free (demo_pending uid ids) (demo_adder c rows) rs"
  shows "page_step (c, rs) (demo_seated rows (demo_pending uid ids) t c, demo_req uid ids t # rs)"
proof -
  obtain a' am where r: "try_allocate_one (demo_pending uid ids) (demo_adder c rows) = Inr (a', Some am)"
    "am_handle am = RadixH \<lparr>h_len = 0, h_node = 0\<rparr>" "am_table am = t"
    using assms(1) by (auto split: sum.splits option.splits)
  have "page_step (c, rs) (ad_cm a', demo_req uid ids t # rs)"
    by (rule page_step.admit [OF _ assms(2) r(1)])
      (use r in \<open>simp_all add: demo_adder_def seats_def demo_req_def\<close>)
  moreover have "demo_seated rows (demo_pending uid ids) t c = ad_cm a'" using r by (simp add: demo_seated_def)
  ultimately show ?thesis by simp
qed

text \<open>Two requests are seated and one forward pass has run.\<close>

definition demo_a :: req where "demo_a = demo_req 1 [7, 8, 9] 1"
definition demo_b :: req where "demo_b = demo_req 2 [5, 6] 0"

definition demo_cm2 :: cm where
  "demo_cm2 = demo_seated [0] (demo_pending 2 [5, 6]) 0 (demo_seated [0, 1] (demo_pending 1 [7, 8, 9]) 1 demo_cm)"

definition demo_cm3 :: cm where
  "demo_cm3 = (case allocate_paged [demo_b, demo_a] demo_cm2 of Inr c \<Rightarrow> c | Inl _ \<Rightarrow> demo_cm2)"

lemma demo_eval:
  "case try_allocate_one (demo_pending 1 [7, 8, 9]) (demo_adder demo_cm [0, 1]) of
      Inr (a', Some am) \<Rightarrow> am_handle am = RadixH \<lparr>h_len = 0, h_node = 0\<rparr> \<and> am_table am = 1 | _ \<Rightarrow> False"
  by code_simp

lemma demo_eval2:
  "case try_allocate_one (demo_pending 2 [5, 6])
        (demo_adder (demo_seated [0, 1] (demo_pending 1 [7, 8, 9]) 1 demo_cm) [0]) of
      Inr (a', Some am) \<Rightarrow> am_handle am = RadixH \<lparr>h_len = 0, h_node = 0\<rparr> \<and> am_table am = 0 | _ \<Rightarrow> False"
  by code_simp

lemma demo_eval3:
  "case allocate_paged [demo_b, demo_a] demo_cm2 of
     Inr c \<Rightarrow> cm_free c = [6] \<and> take 2 (cm_table c 0) = [0, 1] \<and> take 4 (cm_table c 1) = [2, 3, 4, 5] | Inl _ \<Rightarrow> False"
  by code_simp

lemma demo_rows:
  "length (cm_table (demo_seated [0, 1] (demo_pending 1 [7, 8, 9]) 1 demo_cm) 0) = 8"
  "length (cm_table demo_cm2 0) = 8" "length (cm_table demo_cm2 1) = 8" "cm_psize demo_cm2 = 2"
  by code_simp+

lemma demo_run2: "page_step\<^sup>*\<^sup>* (demo_cm, []) (demo_cm2, [demo_b, demo_a])"
proof -
  have 1: "page_step (demo_cm, []) (demo_seated [0, 1] (demo_pending 1 [7, 8, 9]) 1 demo_cm, [demo_a])"
    unfolding demo_a_def by (rule seat_step [OF demo_eval]) (simp add: rows_free_def demo_pending_def demo_adder_def demo_cm_def)
  have 2: "page_step (demo_seated [0, 1] (demo_pending 1 [7, 8, 9]) 1 demo_cm, [demo_a]) (demo_cm2, [demo_b, demo_a])"
    unfolding demo_b_def demo_cm2_def
    by (rule seat_step [OF demo_eval2])
      (use demo_rows(1) in \<open>simp add: rows_free_def demo_pending_def demo_adder_def demo_a_def demo_req_def\<close>)
  show ?thesis using 1 2 by (auto intro: converse_rtranclp_into_rtranclp)
qed

lemma demo_run: "page_step\<^sup>*\<^sup>* (demo_cm, []) (demo_cm3, [complete_one demo_b, complete_one demo_a])"
proof -
  have r: "allocate_paged [demo_b, demo_a] demo_cm2 = Inr demo_cm3"
    using demo_eval3 by (auto simp: demo_cm3_def split: sum.splits)
  have "page_step (demo_cm2, [demo_b, demo_a] @ []) (demo_cm3, map complete_one [demo_b, demo_a] @ [])"
    by (rule page_step.forward [OF r])
      (use demo_rows(2-4) in \<open>auto simp: demo_a_def demo_b_def demo_req_def ceil_pages_def\<close>)
  then show ?thesis using demo_run2 by (auto intro: rtranclp.rtrancl_into_rtrancl)
qed

section \<open>Properties\<close>

text \<open>C1: take a page manager over the naive or the radix cache, without a window pool, and let it run from its
  initial state through any sequence of admissions, refusals, next pieces of chunked prompts, batch allocations
  with their forward pass, appended tokens, lazy free regions, and commits of chunks and finished requests that
  carry no images. Then every slot of the pool is, exactly once, free, waiting to be freed, held by the prefix
  tree, or private to a running request (the part of its row past its handle). So the private slots of a
  request are different slots of the pool, none of them free or cached, and no other running request has one of
  them: no two requests ever write to the same KV slot and no cached prefix is overwritten.\<close>

theorem pages_run_exclusive:
  assumes "0 < ps" and "cm_init pages ps table k lp None window uuid clk = Inr c0" and "k = KNaive \<or> k = KRadix"
    and "page_step\<^sup>*\<^sup>* (c0, []) (c, rs)" and "a \<in> set rs"
  shows "pool c + (\<Sum>r \<leftarrow> rs. mset (private_slots r c)) = mset [0..<cm_pages c * cm_psize c] \<and>
    distinct (map rq_table rs) \<and> distinct (private_slots a c) \<and>
    set (private_slots a c) \<subseteq> {0..<cm_pages c * cm_psize c} \<and> set (private_slots a c) \<inter> set_mset (pool c) = {} \<and>
    (\<forall>b \<in> set rs. b \<noteq> a \<longrightarrow> set (private_slots a c) \<inter> set (private_slots b c) = {})"
proof -
  have "pages_ok c rs" using page_run_ok [OF assms(4)] init_pages_ok [OF assms(1-3)] by simp
  then show ?thesis using pages_apart [of c rs a] pages_okD(2,4) [of c rs] assms(5) by blast
qed

theorem pages_run_exclusive_witness:
  "set (private_slots (complete_one demo_b) demo_cm3) \<inter> set (private_slots (complete_one demo_a) demo_cm3) = {} \<and>
   private_slots (complete_one demo_a) demo_cm3 = [2, 3, 4, 5]"
proof -
  have "complete_one demo_b \<noteq> complete_one demo_a" by (simp add: demo_a_def demo_b_def demo_req_def complete_one_def)
  moreover have "private_slots (complete_one demo_a) demo_cm3 = [2, 3, 4, 5]" by code_simp
  ultimately show ?thesis
    using pages_run_exclusive [OF _ demo_init _ demo_run, of "complete_one demo_b"] by auto
qed

text \<open>C9: when every request of such a run has finished and no lazy free region is open, the integrity check of
  the page manager passes and every slot of the pool is free or in the prefix tree, once. As in C1 the cache is the
  naive or the radix one, without a window pool, and no request carries images. So no page leaks and none is freed
  twice, whatever was admitted, refused, computed in pieces, committed and finished before.\<close>

theorem pages_run_idle:
  assumes "0 < ps" and "cm_init pages ps table k lp None window uuid clk = Inr c0" and "k = KNaive \<or> k = KRadix"
    and "page_step\<^sup>*\<^sup>* (c0, []) (c, [])" and "cm_lazy c = None"
  shows "cm_check_integrity c = Inr () \<and> pool c = mset [0..<cm_pages c * cm_psize c]"
proof -
  have ok: "pages_ok c []" using page_run_ok [OF assms(4)] init_pages_ok [OF assms(1-3)] by simp
  show ?thesis using idle_pages [OF ok assms(5)] pages_okD(4) [OF ok] by simp
qed

definition demo_cm4 :: cm where
  "demo_cm4 = (case cache_req True (complete_one demo_b) demo_cm3 of Inr (c, r) \<Rightarrow> c | Inl _ \<Rightarrow> demo_cm3)"

definition demo_cm5 :: cm where
  "demo_cm5 = (case cache_req True (complete_one demo_a) demo_cm4 of Inr (c, r) \<Rightarrow> c | Inl _ \<Rightarrow> demo_cm4)"

lemma demo_finish:
  "case cache_req True (complete_one demo_b) demo_cm3 of Inr (c, r) \<Rightarrow> True | Inl _ \<Rightarrow> False"
  "case cache_req True (complete_one demo_a) demo_cm4 of Inr (c, r) \<Rightarrow> True | Inl _ \<Rightarrow> False"
  "cm_lazy demo_cm5 = None" "cm_free demo_cm5 = [6, 4]"
  by code_simp+

lemma demo_run_end: "page_step\<^sup>*\<^sup>* (demo_cm, []) (demo_cm5, [])"
proof -
  obtain r where 1: "cache_req True (complete_one demo_b) demo_cm3 = Inr (demo_cm4, r)"
    using demo_finish(1) by (auto simp: demo_cm4_def split: sum.splits)
  obtain r' where 2: "cache_req True (complete_one demo_a) demo_cm4 = Inr (demo_cm5, r')"
    using demo_finish(2) by (auto simp: demo_cm5_def split: sum.splits)
  have "page_step (demo_cm3, complete_one demo_b # [complete_one demo_a]) (demo_cm4, [complete_one demo_a])"
    by (rule page_step.finish [OF 1]) (simp_all add: complete_one_def demo_b_def demo_req_def)
  moreover have "page_step (demo_cm4, complete_one demo_a # []) (demo_cm5, [])"
    by (rule page_step.finish [OF 2]) (simp_all add: complete_one_def demo_a_def demo_req_def)
  ultimately show ?thesis using demo_run by (meson rtranclp.rtrancl_into_rtrancl)
qed

theorem pages_run_idle_witness: "cm_check_integrity demo_cm5 = Inr () \<and> cm_free demo_cm5 = [6, 4]"
  using pages_run_idle [OF _ demo_init _ demo_run_end demo_finish(3)] demo_finish(4) by simp


text \<open>C10: with the naive or the radix cache, no window pool, and the pages accounted for as in C1, committing
  the computed part of a running request without images succeeds. Its handle is exchanged for one that covers at
  least as many tokens, the rows of the other requests do not change, and the pages stay accounted for with the
  new handle: slots the tree already had for the same tokens replace the request's own, which are freed once.\<close>

theorem commit_chunk_kept:
  assumes "pages_ok c (r # rs)" and "rq_cached r \<le> length (rq_ids r)" and "\<not> rq_mm r"
  shows "\<exists>c' h'. cache_req False r c = Inr (c', r\<lparr>rq_handle := h'\<rparr>) \<and> pages_ok c' (r\<lparr>rq_handle := h'\<rparr> # rs) \<and>
    handle_len (rq_handle r) \<le> handle_len h' \<and> (\<forall>t. t \<noteq> rq_table r \<longrightarrow> cm_table c' t = cm_table c t)"
  by (rule commit_chunk_pages [OF assms]) blast

theorem commit_chunk_kept_witness:
  "\<exists>c' h'. cache_req False (complete_one demo_b) demo_cm3 = Inr (c', (complete_one demo_b)\<lparr>rq_handle := h'\<rparr>) \<and>
     pages_ok c' [(complete_one demo_b)\<lparr>rq_handle := h'\<rparr>, complete_one demo_a]"
proof -
  have "pages_ok demo_cm3 [complete_one demo_b, complete_one demo_a]"
    using page_run_ok [OF demo_run] demo_pages by simp
  from commit_chunk_kept [OF this] show ?thesis by (auto simp: complete_one_def demo_b_def demo_req_def)
qed

text \<open>C11: with the naive or the radix cache and no window pool (where the pages are all a decode step needs), a
  decode step of requests that are not chunked does not run out of pages: when the slots still owed to the batch,
  up to the last token each request may produce, and to everything else (\<open>rest\<close>) fit in what is free or
  evictable, and the rows are long enough, the allocation for the batch succeeds, and afterwards the same
  inequality holds with one step less owed.\<close>

theorem decode_reserved:
  assumes ok: "pages_ok c (bs @ rs)"
    and bs: "\<And>r. r \<in> set bs \<Longrightarrow> can_decode r \<and> rq_cached r \<le> rq_device r \<and>
      ceil_pages (rq_device r) (cm_psize c) * cm_psize c \<le> length (cm_table c (rq_table r))"
    and av: "int (sum_list (map (demand (cm_psize c)) bs) + rest) \<le> available_size c"
  shows "\<exists>c'. allocate_paged bs c = Inr c' \<and> pages_ok c' (map complete_one bs @ rs) \<and> cm_psize c' = cm_psize c \<and>
    int (sum_list (map (demand (cm_psize c)) (map complete_one bs)) + rest) \<le> available_size c'"
proof -
  let ?new = "int (sum_list (map (new_pages (cm_psize c)) bs) * cm_psize c)"
  have "rq_cached r \<le> rq_device r \<and> rq_device r < rq_max_device r" if "r \<in> set bs" for r
    using bs [OF that] by (simp add: can_decode_def remain_len_def)
  then have d: "int (sum_list (map (demand (cm_psize c)) bs)) =
      ?new + int (sum_list (map (demand (cm_psize c)) (map complete_one bs)))"
    by (subst demand_sum) (simp_all only: of_nat_add)
  have need: "int (sum_list (map (new_pages (cm_psize c)) bs) * cm_psize c) \<le> available_size c"
    using av d unfolding of_nat_add by linarith
  obtain c' where c: "allocate_paged bs c = Inr c'" "pages_ok c' (map complete_one bs @ rs)" "cm_psize c' = cm_psize c"
    "available_size c' = available_size c - int (sum_list (map (new_pages (cm_psize c)) bs) * cm_psize c)"
    by (rule allocate_pages [OF ok _ need]) (use bs in auto)
  have "int (sum_list (map (demand (cm_psize c)) (map complete_one bs)) + rest) \<le> available_size c'"
    using av d c(4) unfolding of_nat_add by linarith
  then show ?thesis using c(1-3) by blast
qed

theorem decode_reserved_witness:
  "\<exists>c'. allocate_paged [demo_b, demo_a] demo_cm2 = Inr c' \<and> pages_ok c' [complete_one demo_b, complete_one demo_a]"
proof -
  have run: "page_step\<^sup>*\<^sup>* (demo_cm, []) (demo_cm2, [demo_b, demo_a])" by (rule demo_run2)
  have ok: "pages_ok demo_cm2 ([demo_b, demo_a] @ [])" using page_run_ok [OF run] demo_pages by simp
  have av: "int (sum_list (map (demand (cm_psize demo_cm2)) [demo_b, demo_a]) + 0) \<le> available_size demo_cm2"
    by code_simp
  have "can_decode r \<and> rq_cached r \<le> rq_device r \<and>
      ceil_pages (rq_device r) (cm_psize demo_cm2) * cm_psize demo_cm2 \<le> length (cm_table demo_cm2 (rq_table r))"
    if "r \<in> set [demo_b, demo_a]" for r
    using that demo_rows(2-4)
    by (auto simp: demo_a_def demo_b_def demo_req_def ceil_pages_def can_decode_def remain_len_def)
  from decode_reserved [OF ok this av] show ?thesis by (simp only: list.map append_Nil2) blast
qed

text \<open>C12: with the naive or the radix cache and no window pool, for a prompt that fits in the free rows, an
  admission attempt does not raise. It refuses the request, leaves the row pool as it was, and changes nothing of
  what is free, cached or written in the rows. Or it takes the last free row off the list and seats the request in
  it with a locked cached prefix strictly shorter than the prompt, whose slots it writes at the start of the row;
  nothing else of the pages changes, the request's estimate fits in what is free or evictable after the lock, and
  the pages stay accounted for with the new request.\<close>

theorem admission_seats:
  assumes "pages_ok (ad_cm a) rs" and "rows_free p a rs"
  shows "\<exists>a' res. try_allocate_one p a = Inr (a', res) \<and>
     (case res of
        None \<Rightarrow> pages_ok (ad_cm a') rs \<and> same_content (ad_cm a) (ad_cm a') \<and> ad_tb a' = ad_tb a
      | Some am \<Rightarrow> tb_free (ad_tb a) = tb_free (ad_tb a') @ [am_table am] \<and> handle_len (am_handle am) < length (pd_ids p) \<and>
          int (length (pd_ids p)) - int (handle_len (am_handle am)) + int (pd_output p) + ad_reserved a
            \<le> available_size (ad_cm a') \<and>
          (\<exists>vs. plain_content (ad_cm a) (take (handle_len (am_handle am)) (pd_ids p)) vs \<and>
             same_content (set_row (am_table am) (vs @ drop (handle_len (am_handle am)) (cm_table (ad_cm a) (am_table am))) (ad_cm a))
               (ad_cm a')) \<and>
          (\<forall>r. seats p am r \<longrightarrow> pages_ok (ad_cm a') (r # rs)))"
  by (rule try_allocate_pages [OF assms])

theorem admission_seats_witness:
  "\<exists>a' am. try_allocate_one (demo_pending 1 [7, 8, 9]) (demo_adder demo_cm [0, 1]) = Inr (a', Some am) \<and>
     am_table am = 1 \<and> 4 \<le> available_size (ad_cm a')"
proof -
  have "pages_ok (ad_cm (demo_adder demo_cm [0, 1])) []" using demo_pages by (simp add: demo_adder_def)
  moreover have "rows_free (demo_pending 1 [7, 8, 9]) (demo_adder demo_cm [0, 1]) []"
    by (simp add: rows_free_def demo_pending_def demo_adder_def demo_cm_def)
  ultimately obtain a' res where r: "try_allocate_one (demo_pending 1 [7, 8, 9]) (demo_adder demo_cm [0, 1]) = Inr (a', res)"
    "case res of None \<Rightarrow> pages_ok (ad_cm a') []
      | Some am \<Rightarrow> am_table am = 1 \<and> 3 - int (handle_len (am_handle am)) + 1 \<le> available_size (ad_cm a')"
    using admission_seats [of "demo_adder demo_cm [0, 1]" "[]" "demo_pending 1 [7, 8, 9]"]
    by (fastforce simp: demo_pending_def demo_adder_def split: option.splits dest: arg_cong [of _ _ last])
  then show ?thesis using demo_eval by (auto split: option.splits)
qed

section \<open>The estimate of an admission pass\<close>

text \<open>
  A pool of three pages of four tokens, no other request, and two pending requests of five tokens that
  may produce one token each.
\<close>

definition tight_cm :: cm where
  "tight_cm =
     \<lparr>cm_free = [0, 4, 8], cm_pages = 3, cm_psize = 4, cm_kind = KRadix, cm_pc = PRadix (radix_init 4 0 0),
      cm_lpool = None, cm_swa = None, cm_window = 0, cm_table = (\<lambda>_. replicate 12 0), cm_lazy = None,
      cm_clk = int, cm_reads = 1\<rparr>"

definition tight_pass :: "err + (pending list \<times> store \<times> cm \<times> tables \<times> batch option)" where
  "tight_pass = prefill_schedule 100 []
     [demo_pending 1 [1, 2, 3, 4, 5], demo_pending 2 [6, 7, 8, 9, 10]]
     \<lparr>st_heap = (\<lambda>_. None), st_next = 0\<rparr> tight_cm
     \<lparr>tb_max = 2, tb_free = [0, 1], tb_rows = (\<lambda>_. replicate 12 0), tb_tokens = (\<lambda>_. replicate 12 0)\<rparr>"

text \<open>
  The estimate of the admission pass counts tokens, not pages, for the requests admitted in the same
  pass: with pages of four tokens, two requests whose estimates of six tokens fill a pool of twelve are
  both admitted, but each needs two pages of the three, and the allocation of the batch raises.
\<close>

lemma admission_overcommits:
  "case tight_pass of
     Inr (pend, st, c, tb, Some b) \<Rightarrow>
       pend = [] \<and> bt_reqs b = [0, 1] \<and>
       (case map_err (the_req st) (bt_reqs b) of
          Inr rs \<Rightarrow> map rq_device rs = [5, 5] \<and> available_size c = 12 \<and>
            (case allocate_paged rs c of Inl e \<Rightarrow> e = AssertionError | Inr _ \<Rightarrow> False)
        | Inl _ \<Rightarrow> False)
   | _ \<Rightarrow> False"
  by code_simp

end
