(* ===== verification/Scheduler.thy ===== *)
theory Scheduler
  imports Prefill Detokenize
begin

text \<open>
  The scheduler process (\<^verbatim>\<open>scheduler/scheduler.py\<close>): inbound messages, batch preparation, the forward
  as far as the host sees it, the drain of the previous batch, aborts and runtime rebuilds. One call of
  \<open>overlap_loop\<close> is one iteration of the overlapping main loop. What the GPU does is a parameter: the
  tokens a forward samples, the tokenizer's \<open>decode\<close> and the engine's part of a rebuild. Attention
  metadata, padding, multimodal gathering and the CUDA stream order are not modelled; results sent to
  the tokenizer process are collected in \<open>sd_out\<close> in order.
\<close>

section \<open>Messages\<close>

record rebuild_args =
  rb_moe :: "nat option"
  rb_pages :: "nat option"
  rb_mamba :: "nat option"
  rb_swa :: "nat option"

record rebuild_msg =
  rm_id :: string
  rm_if_idle :: bool
  rm_args :: rebuild_args

record user_msg =
  um_uid :: nat
  um_ids :: "token list"
  um_max_tokens :: nat
  um_ignore_eos :: bool
  um_stops :: "codes list"
  um_mm :: bool

datatype backend_msg =
    BatchBackend "backend_msg list"
  | UserB user_msg
  | AbortB nat
  | RebuildB rebuild_msg
  | ExitB

datatype finish_reason = FinishStop | FinishLength

record reply =
  rp_uid :: nat
  rp_token :: token
  rp_finished :: bool
  rp_reason :: "finish_reason option"
  rp_matched :: "codes option"

datatype rebuild_status = RbOk | RbRejected | RbBusy | RbUnsupported | RbFailed

datatype result =
    Reply reply
  | ErrorReply nat
  | PromptAdmitted nat nat nat
  | RebuildResult string rebuild_status

section \<open>State\<close>

record params =
  pr_ignore_eos :: bool
  pr_stops :: "codes list"

record forward_data =
  fd_batch :: batch
  fd_tokens :: "token list"

record config =
  sf_max_seq_len :: nat
  sf_eos :: "token list"
  sf_anchor :: "token option"
  sf_interval :: nat
  sf_tp :: nat
  sf_chunk_cap :: "int option"
  sf_max_extend :: int

record sched =
  sd_cm :: cm
  sd_tb :: tables
  sd_store :: store
  sd_running :: "rid list"
  sd_pending :: "pending list"
  sd_params :: "nat \<Rightarrow> params option"
  sd_finished :: "rid list"
  sd_acks :: "nat list"
  sd_tombs :: "nat list"
  sd_iter :: nat
  sd_last :: "forward_data option"
  sd_rebuild :: "rebuild_msg option"
  sd_budget :: int
  sd_out :: "result list"

definition tombstone_max :: nat where
  "tombstone_max = 65536"

definition send :: "result list \<Rightarrow> sched \<Rightarrow> sched" where
  "send rs s = s\<lparr>sd_out := sd_out s @ rs\<rparr>"

text \<open>The drop of the chunk budget to the cap of the window pool, when the pool has one.\<close>

definition prefill_budget :: "config \<Rightarrow> int" where
  "prefill_budget cf =
     (case sf_chunk_cap cf of
        None \<Rightarrow> sf_max_extend cf
      | Some b \<Rightarrow> if b = 0 then sf_max_extend cf else min (sf_max_extend cf) b)"

section \<open>Releasing a request\<close>

definition free_req_resources :: "rid \<Rightarrow> sched \<Rightarrow> err + sched" where
  "free_req_resources i s =
     and_then (the_req (sd_store s) i) (\<lambda>r.
     if rq_released r then Inr s
     else
       and_then (cache_req True r (sd_cm s)) (\<lambda>(c, r').
       Inr (s\<lparr>sd_cm := c, sd_tb := tb_release (rq_table r) (sd_tb s),
              sd_store := put_req i (r'\<lparr>rq_released := True\<rparr>) (sd_store s)\<rparr>)))"

section \<open>Inbound messages\<close>

definition process_user :: "config \<Rightarrow> user_msg \<Rightarrow> sched \<Rightarrow> sched" where
  "process_user cf m s =
     (if um_uid m \<in> set (sd_tombs s) then s\<lparr>sd_tombs := filter (\<lambda>u. u \<noteq> um_uid m) (sd_tombs s)\<rparr>
      else
        (let max_out = int (sf_max_seq_len cf) - int (length (um_ids m)) in
         if max_out \<le> 0 then send [ErrorReply (um_uid m)] s
         else
           s\<lparr>sd_pending := add_pending (um_uid m) (um_ids m) (min (um_max_tokens m) (nat max_out)) (um_mm m) (sd_pending s),
             sd_params := (sd_params s)(um_uid m \<mapsto> \<lparr>pr_ignore_eos = um_ignore_eos m, pr_stops = um_stops m\<rparr>)\<rparr>))"

text \<open>\<open>tombstones[uid] = None\<close> keeps the place of a key that is already there.\<close>

definition add_tombstone :: "nat \<Rightarrow> nat list \<Rightarrow> nat list" where
  "add_tombstone uid ts =
     (let ts' = (if uid \<in> set ts then ts else ts @ [uid]) in drop (length ts' - tombstone_max) ts')"

definition in_flight :: "rid \<Rightarrow> sched \<Rightarrow> bool" where
  "in_flight i s = (case sd_last s of None \<Rightarrow> False | Some d \<Rightarrow> i \<in> set (bt_reqs (fd_batch d)))"

definition process_abort :: "nat \<Rightarrow> sched \<Rightarrow> err + sched" where
  "process_abort uid s0 =
     (let (pend, from_prefill) = prefill_abort uid (sd_pending s0);
          s1 = s0\<lparr>sd_tombs := add_tombstone uid (sd_tombs s0), sd_pending := pend\<rparr>;
          (s2, victim) =
            (case from_prefill of
               Some i \<Rightarrow> (s1, Some i)
             | None \<Rightarrow> (let (run, j) = decode_abort (sd_store s1) uid (sd_running s1) in
                         (s1\<lparr>sd_running := run\<rparr>, j))) in
      and_then
        (case victim of
           None \<Rightarrow> Inr s2
         | Some i \<Rightarrow>
             if in_flight i s2
             then and_then (the_req (sd_store s2) i) (\<lambda>r.
                    Inr (s2\<lparr>sd_store := put_req i (r\<lparr>rq_aborted := True\<rparr>) (sd_store s2)\<rparr>))
             else free_req_resources i s2) (\<lambda>s3.
      Inr (s3\<lparr>sd_acks := (if uid \<in> set (sd_acks s3) then sd_acks s3 else sd_acks s3 @ [uid])\<rparr>)))"

definition idle :: "sched \<Rightarrow> bool" where
  "idle s \<longleftrightarrow> sd_pending s = [] \<and> sd_running s = []"

definition process_rebuild :: "config \<Rightarrow> rebuild_msg \<Rightarrow> sched \<Rightarrow> sched" where
  "process_rebuild cf m s =
     (if \<not> rm_if_idle m then send [RebuildResult (rm_id m) RbUnsupported] s
      else if sf_tp cf > 1 then send [RebuildResult (rm_id m) RbUnsupported] s
      else if \<not> idle s then send [RebuildResult (rm_id m) RbBusy] s
      else s\<lparr>sd_rebuild := Some m\<rparr>)"

text \<open>\<open>ExitMsg\<close> raises \<open>KeyboardInterrupt\<close>, which ends the process.\<close>

fun process_msg :: "config \<Rightarrow> backend_msg \<Rightarrow> sched \<Rightarrow> err + sched"
  and process_msgs :: "config \<Rightarrow> backend_msg list \<Rightarrow> sched \<Rightarrow> err + sched" where
  "process_msg cf (BatchBackend ms) s = process_msgs cf ms s"
| "process_msg cf (UserB m) s = Inr (process_user cf m s)"
| "process_msg cf (AbortB u) s = process_abort u s"
| "process_msg cf (RebuildB m) s = Inr (process_rebuild cf m s)"
| "process_msg cf ExitB s = Inl KeyboardInterrupt"
| "process_msgs cf [] s = Inr s"
| "process_msgs cf (m # ms) s = and_then (process_msg cf m s) (process_msgs cf ms)"

definition flush_abort_acks :: "sched \<Rightarrow> sched" where
  "flush_abort_acks s =
     (if sd_acks s = [] then s
      else send (map ErrorReply (sort (sd_acks s))) (s\<lparr>sd_acks := []\<rparr>))"

section \<open>Preparing and launching a batch\<close>

fun put_all :: "rid list \<Rightarrow> req list \<Rightarrow> store \<Rightarrow> store" where
  "put_all (i # is) (r # rs) st = put_all is rs (put_req i r st)"
| "put_all _ _ st = st"

definition prepare_batch :: "config \<Rightarrow> batch \<Rightarrow> sched \<Rightarrow> err + sched" where
  "prepare_batch cf b s =
     (let it = Suc (sd_iter s) in
      and_then (map_err (the_req (sd_store s)) (bt_reqs b)) (\<lambda>rs.
      and_then
        (if bt_prefill b then free_swa_out_of_window_extend rs (sd_cm s)
         else and_then (maybe_free_swa_out_of_window (sf_interval cf) it rs (sd_cm s)) (\<lambda>(c, rs').
                Inr (c, map (\<lambda>r. r\<lparr>rq_decode_idx := Suc (rq_decode_idx r)\<rparr>) rs'))) (\<lambda>(c1, rs1).
      and_then (allocate_paged rs1 c1) (\<lambda>c2.
      Inr (s\<lparr>sd_iter := it, sd_cm := c2, sd_store := put_all (bt_reqs b) rs1 (sd_store s)\<rparr>)))))"

definition report_admissions :: "batch \<Rightarrow> sched \<Rightarrow> sched" where
  "report_admissions b s =
     (if \<not> bt_prefill b \<or> bt_admissions b = [] then s
      else send (map (\<lambda>(uid, n, k). PromptAdmitted uid n k) (bt_admissions b)) s)"

text \<open>The prefill manager goes first; decoding is scheduled when it yields no batch.\<close>

definition schedule_next_batch :: "config \<Rightarrow> sched \<Rightarrow> err + (sched \<times> batch option)" where
  "schedule_next_batch cf s =
     and_then (prefill_schedule (sd_budget s) (sd_running s) (sd_pending s) (sd_store s) (sd_cm s) (sd_tb s))
       (\<lambda>(pend, st, c, tb, ob).
     let s1 = s\<lparr>sd_pending := pend, sd_store := st, sd_cm := c, sd_tb := tb\<rparr>;
         ob' = (case ob of
                  Some b \<Rightarrow> Some b
                | None \<Rightarrow> map_option (\<lambda>is. \<lparr>bt_reqs = is, bt_prefill = False, bt_new_tokens = 0,
                                              bt_cached_tokens = 0, bt_admissions = []\<rparr>)
                            (decode_batch st (sd_running s1))) in
     case ob' of
       None \<Rightarrow> Inr (s1, None)
     | Some b \<Rightarrow> and_then (prepare_batch cf b s1) (\<lambda>s2. Inr (report_admissions b s2, Some b)))"

text \<open>\<open>_restore_linear_states\<close>: a prefix hit's snapshot is copied into the live slot once.\<close>

definition restore_one :: "req \<Rightarrow> cm \<Rightarrow> err + (cm \<times> req)" where
  "restore_one r c =
     (case rq_restore r of
        None \<Rightarrow> Inr (c, r)
      | Some src \<Rightarrow>
          (case (cm_lpool c, rq_linear r) of
             (Some p, Some dst) \<Rightarrow> Inr (c\<lparr>cm_lpool := Some (copy_from src dst p)\<rparr>, r\<lparr>rq_restore := None\<rparr>)
           | _ \<Rightarrow> Inl TypeError))"

definition restore_linear_states :: "batch \<Rightarrow> sched \<Rightarrow> err + sched" where
  "restore_linear_states b s =
     (if cm_lpool (sd_cm s) = None \<or> \<not> bt_prefill b then Inr s
      else
        and_then (map_err (the_req (sd_store s)) (bt_reqs b)) (\<lambda>rs.
        and_then (on_reqs restore_one rs (sd_cm s)) (\<lambda>(c, rs').
        Inr (s\<lparr>sd_cm := c, sd_store := put_all (bt_reqs b) rs' (sd_store s)\<rparr>))))"

text \<open>
  The write of the sampled tokens: position \<open>device_len\<close> of the row before the forward, or the last
  position of the row for a request that will not decode.
\<close>

definition write_token :: "tables \<Rightarrow> req \<Rightarrow> token \<Rightarrow> err + tables" where
  "write_token tb r tok =
     (let row = tb_tokens tb (rq_table r);
          pos = (if can_decode r then rq_device r else length row - 1) in
      if pos < length row then Inr (tb\<lparr>tb_tokens := (tb_tokens tb)(rq_table r := row[pos := tok])\<rparr>)
      else Inl IndexError)"

fun write_tokens :: "tables \<Rightarrow> req list \<Rightarrow> token list \<Rightarrow> err + tables" where
  "write_tokens tb (r # rs) (t # ts) = and_then (write_token tb r t) (\<lambda>tb'. write_tokens tb' rs ts)"
| "write_tokens tb [] [] = Inr tb"
| "write_tokens tb _ _ = Inl IndexError"

definition forward :: "config \<Rightarrow> batch \<Rightarrow> token list \<Rightarrow> sched \<Rightarrow> err + sched" where
  "forward cf b sampled s =
     and_then (map_err (the_req (sd_store s)) (bt_reqs b)) (\<lambda>rs.
     and_then
       (if sf_anchor cf \<noteq> None \<and> \<not> bt_prefill b then snapshot_toolcall_anchor rs (sd_cm s)
        else Inr (sd_cm s, rs)) (\<lambda>(c, rs1).
     and_then (write_tokens (sd_tb s) rs1 sampled) (\<lambda>tb.
     let st = put_all (bt_reqs b) (map complete_one rs1) (sd_store s) in
     Inr (s\<lparr>sd_cm := c, sd_tb := tb, sd_store := st, sd_running := filter_reqs st (sd_running s) (bt_reqs b)\<rparr>))))"

section \<open>Draining a batch\<close>

definition match_stop_str :: "(token list \<Rightarrow> codes) \<Rightarrow> codes list \<Rightarrow> req \<Rightarrow> codes option" where
  "match_stop_str decode stops r =
     (let prompt = rq_max_device r - rq_output r; n = length (rq_ids r) in
      if n \<le> prompt then None
      else
        (let max_chars = Max (set (map length stops));
             tail = decode (drop (max prompt (n - (max_chars + 1))) (rq_ids r)) in
         List.find (\<lambda>st. str_find tail st \<noteq> None) stops))"

definition reply_of ::
  "(token list \<Rightarrow> codes) \<Rightarrow> config \<Rightarrow> params \<Rightarrow> token \<Rightarrow> req \<Rightarrow> reply" where
  "reply_of decode cf p tok r =
     (let hit_length = \<not> can_decode r;
          hit_eos = (\<not> pr_ignore_eos p \<and> tok \<in> set (sf_eos cf));
          matched = (if \<not> hit_eos \<and> pr_stops p \<noteq> [] then match_stop_str decode (pr_stops p) r else None);
          fin = (hit_length \<or> hit_eos \<or> matched \<noteq> None) in
      \<lparr>rp_uid = rq_uid r, rp_token = tok, rp_finished = fin,
       rp_reason = (if fin then Some (if hit_eos \<or> matched \<noteq> None then FinishStop else FinishLength) else None),
       rp_matched = matched\<rparr>)"

record drain =
  dr_sched :: sched
  dr_reply :: "reply list"
  dr_finished :: "rid list"

definition drain_sampled ::
  "(token list \<Rightarrow> codes) \<Rightarrow> config \<Rightarrow> bool \<Rightarrow> rid \<Rightarrow> token \<Rightarrow> drain \<Rightarrow> err + drain" where
  "drain_sampled decode cf prefill i tok d =
     (let s = dr_sched d in
      and_then (the_req (sd_store s) i) (\<lambda>r0.
      and_then (append_host [tok] r0) (\<lambda>r1.
      let p = (case sd_params s (rq_uid r1) of Some p \<Rightarrow> p | None \<Rightarrow> \<lparr>pr_ignore_eos = False, pr_stops = []\<rparr>);
          m = reply_of decode cf p tok r1;
          r2 = (if sf_anchor cf = Some tok \<and> rq_anchor r1 = None \<and> \<not> rp_finished m
                then r1\<lparr>rq_anchor := Some (length (rq_ids r1))\<rparr> else r1);
          s1 = s\<lparr>sd_store := put_req i r2 (sd_store s)\<rparr>;
          d1 = d\<lparr>dr_reply := dr_reply d @ [m]\<rparr> in
      if rp_finished m then
        and_then (free_req_resources i (s1\<lparr>sd_running := remove_req i (sd_running s1)\<rparr>)) (\<lambda>s2.
        Inr (d1\<lparr>dr_sched := s2, dr_finished := dr_finished d @ [i]\<rparr>))
      else if prefill \<and> \<not> rq_released r2 then
        and_then (cache_req False r2 (sd_cm s1)) (\<lambda>(c, r3).
        Inr (d1\<lparr>dr_sched := s1\<lparr>sd_cm := c, sd_store := put_req i r3 (sd_store s1)\<rparr>\<rparr>))
      else Inr (d1\<lparr>dr_sched := s1\<rparr>))))"

definition drain_one ::
  "(token list \<Rightarrow> codes) \<Rightarrow> config \<Rightarrow> bool \<Rightarrow> rid \<Rightarrow> token option \<Rightarrow> drain \<Rightarrow> err + drain" where
  "drain_one decode cf prefill i tok d =
     (let s = dr_sched d in
      and_then (the_req (sd_store s) i) (\<lambda>r.
      if rq_chunked r then
        (if rq_aborted r then and_then (free_req_resources i s) (\<lambda>s1. Inr (d\<lparr>dr_sched := s1\<rparr>)) else Inr d)
      else if rq_aborted r then
        and_then (free_req_resources i (s\<lparr>sd_running := remove_req i (sd_running s)\<rparr>)) (\<lambda>s1.
        Inr (d\<lparr>dr_sched := s1, dr_finished := dr_finished d @ [i]\<rparr>))
      else if i \<in> set (sd_finished s) then Inr d
      else (case tok of None \<Rightarrow> Inl IndexError | Some t \<Rightarrow> drain_sampled decode cf prefill i t d)))"

fun drain_loop ::
  "(token list \<Rightarrow> codes) \<Rightarrow> config \<Rightarrow> bool \<Rightarrow> rid list \<Rightarrow> token list \<Rightarrow> drain \<Rightarrow> err + drain" where
  "drain_loop decode cf prefill [] ts d = Inr d"
| "drain_loop decode cf prefill (i # is) ts d =
     and_then (drain_one decode cf prefill i (if ts = [] then None else Some (hd ts)) d)
       (drain_loop decode cf prefill is (tl ts))"

text \<open>The pages freed inside the region reach the free list when it ends; replies go out last.\<close>

definition process_last_data ::
  "(token list \<Rightarrow> codes) \<Rightarrow> config \<Rightarrow> forward_data option \<Rightarrow> sched \<Rightarrow> err + sched" where
  "process_last_data decode cf prev s =
     (case prev of
        None \<Rightarrow> Inr s
      | Some fd \<Rightarrow>
          and_then (drain_loop decode cf (bt_prefill (fd_batch fd)) (bt_reqs (fd_batch fd)) (fd_tokens fd)
              \<lparr>dr_sched = s\<lparr>sd_cm := lazy_enter (sd_cm s)\<rparr>, dr_reply = [], dr_finished = []\<rparr>) (\<lambda>d.
          let s1 = dr_sched d in
          Inr (send (map Reply (dr_reply d))
                 (s1\<lparr>sd_cm := lazy_exit (sd_cm s1), sd_finished := dr_finished d\<rparr>))))"

section \<open>Runtime rebuild\<close>

text \<open>
  The engine's part of a rebuild: it rejects before touching anything, fails before or during the
  destructive phase, or returns the new page count and page table.
\<close>

datatype engine_rebuild =
    EngRejected
  | EngFailedBefore
  | EngFailedDuring
  | EngDone nat "nat \<Rightarrow> slot list"

datatype rebuild_end = RebuildDone | RebuildRejected | RebuildUntouched | RebuildBroken

definition rebuild_cache ::
  "(rebuild_args \<Rightarrow> engine_rebuild) \<Rightarrow> config \<Rightarrow> rebuild_args \<Rightarrow> sched \<Rightarrow> sched \<times> rebuild_end" where
  "rebuild_cache eng cf a s =
     (if \<not> idle s then (s, RebuildUntouched)
      else
        (case eng a of
           EngRejected \<Rightarrow> (s, RebuildRejected)
         | EngFailedBefore \<Rightarrow> (s, RebuildUntouched)
         | EngFailedDuring \<Rightarrow> (s, RebuildBroken)
         | EngDone pages table \<Rightarrow>
             if rb_pages a = None \<and> rb_mamba a = None \<and> rb_swa a = None
             then (s\<lparr>sd_budget := prefill_budget cf\<rparr>, RebuildDone)
             else
               (case cm_rebuild pages table (sd_cm s) of
                  Inl e \<Rightarrow> (s, RebuildBroken)
                | Inr c \<Rightarrow>
                    (let s1 = s\<lparr>sd_cm := c, sd_tb := (if rb_pages a = None then sd_tb s else tb_rebuild table (sd_tb s))\<rparr> in
                     case cm_check_integrity c of
                       Inl e \<Rightarrow> (s1, RebuildBroken)
                     | Inr u \<Rightarrow> (s1\<lparr>sd_budget := prefill_budget cf\<rparr>, RebuildDone)))))"

text \<open>\<open>prior\<close> is the serving size of exactly the pools the request touches.\<close>

definition prior_args :: "rebuild_args \<Rightarrow> rebuild_args \<Rightarrow> rebuild_args" where
  "prior_args req geo =
     \<lparr>rb_moe = (if rb_moe req = None then None else rb_moe geo),
      rb_pages = (if rb_pages req = None then None else rb_pages geo),
      rb_mamba = (if rb_mamba req = None then None else rb_mamba geo),
      rb_swa = (if rb_swa req = None then None else rb_swa geo)\<rparr>"

definition execute_rebuild ::
  "(rebuild_args \<Rightarrow> engine_rebuild) \<Rightarrow> (rebuild_args \<Rightarrow> engine_rebuild) \<Rightarrow> config \<Rightarrow> rebuild_args \<Rightarrow> sched \<Rightarrow> err + sched" where
  "execute_rebuild eng eng' cf geo s0 =
     (case sd_rebuild s0 of
        None \<Rightarrow> Inl AssertionError
      | Some m \<Rightarrow>
          (let s = s0\<lparr>sd_rebuild := None\<rparr>; answer = (\<lambda>st s. send [RebuildResult (rm_id m) st] s) in
           case rebuild_cache eng cf (rm_args m) s of
             (s1, RebuildDone) \<Rightarrow> Inr (answer RbOk s1)
           | (s1, RebuildRejected) \<Rightarrow> Inr (answer RbRejected s1)
           | (s1, RebuildUntouched) \<Rightarrow> Inr (answer RbRejected s1)
           | (s1, RebuildBroken) \<Rightarrow>
               if sf_tp cf > 1 then Inr (answer RbFailed s1)
               else (case rebuild_cache eng' cf (prior_args (rm_args m) geo) s1 of
                       (s2, RebuildDone) \<Rightarrow> Inr (answer RbRejected s2)
                     | (s2, _) \<Rightarrow> Inr (answer RbFailed s2))))"

section \<open>The main loops\<close>

record world =
  wd_decode :: "token list \<Rightarrow> codes"
  wd_sampled :: "token list"
  wd_engine :: "rebuild_args \<Rightarrow> engine_rebuild"
  wd_engine2 :: "rebuild_args \<Rightarrow> engine_rebuild"
  wd_geometry :: rebuild_args

definition run_rebuild :: "world \<Rightarrow> config \<Rightarrow> bool \<Rightarrow> sched \<Rightarrow> err + sched" where
  "run_rebuild w cf drained s =
     (if sd_rebuild s \<noteq> None \<and> drained \<and> idle s
      then execute_rebuild (wd_engine w) (wd_engine2 w) cf (wd_geometry w) s else Inr s)"

definition launch :: "world \<Rightarrow> config \<Rightarrow> sched \<Rightarrow> err + (sched \<times> forward_data option)" where
  "launch w cf s =
     and_then (schedule_next_batch cf s) (\<lambda>(s1, ob).
     case ob of
       None \<Rightarrow> Inr (s1, None)
     | Some b \<Rightarrow>
         and_then (restore_linear_states b s1) (\<lambda>s2.
         and_then (forward cf b (wd_sampled w) s2) (\<lambda>s3.
         Inr (s3, Some \<lparr>fd_batch = b, fd_tokens = wd_sampled w\<rparr>))))"

definition overlap_loop ::
  "world \<Rightarrow> config \<Rightarrow> backend_msg list \<Rightarrow> forward_data option \<Rightarrow> sched \<Rightarrow> err + (sched \<times> forward_data option)" where
  "overlap_loop w cf msgs prev s =
     and_then (process_msgs cf msgs (s\<lparr>sd_last := prev\<rparr>)) (\<lambda>s1.
     and_then (run_rebuild w cf (prev = None) s1) (\<lambda>s2.
     and_then (launch w cf s2) (\<lambda>(s3, ongoing).
     and_then (process_last_data (wd_decode w) cf prev s3) (\<lambda>s4.
     Inr (flush_abort_acks s4, ongoing)))))"

definition normal_loop :: "world \<Rightarrow> config \<Rightarrow> backend_msg list \<Rightarrow> sched \<Rightarrow> err + sched" where
  "normal_loop w cf msgs s =
     and_then (process_msgs cf msgs s) (\<lambda>s1.
     and_then (run_rebuild w cf True s1) (\<lambda>s2.
     and_then (launch w cf s2) (\<lambda>(s3, ongoing).
     and_then (process_last_data (wd_decode w) cf ongoing s3) (\<lambda>s4.
     Inr (flush_abort_acks s4)))))"

end
