(* ===== verification/Scheduler_Drain.thy ===== *)
theory Scheduler_Drain
  imports Scheduler "HOL-Library.Code_Target_Nat"
begin

text \<open>
  What the scheduler sends and when: the replies of a drained batch, the acknowledgements of aborts, the
  tombstones of aborts that overtake their request, and the answer of a rebuild.
\<close>

section \<open>Releasing a request\<close>

lemma free_req_frame:
  assumes "free_req_resources i s = Inr s'"
  shows "sd_out s' = sd_out s" "sd_acks s' = sd_acks s" "sd_tombs s' = sd_tombs s" "sd_finished s' = sd_finished s"
    "sd_running s' = sd_running s" "sd_pending s' = sd_pending s" "sd_rebuild s' = sd_rebuild s" "sd_last s' = sd_last s"
    "sd_params s' = sd_params s" "\<And>j. j \<noteq> i \<Longrightarrow> st_heap (sd_store s') j = st_heap (sd_store s) j"
    "\<exists>r. st_heap (sd_store s') i = Some r \<and> rq_released r"
  using assms
  by (auto simp: free_req_resources_def and_then_eq_Inr the_req_def put_req_def split: option.splits if_splits)

lemma free_req_again:
  assumes "st_heap (sd_store s) i = Some r" and "rq_released r"
  shows "free_req_resources i s = Inr s"
  using assms by (simp add: free_req_resources_def the_req_def)

section \<open>Draining a batch\<close>

text \<open>A request is answered when it is computed to the end of its prompt, not aborted and not already finished.\<close>

definition answered :: "sched \<Rightarrow> rid \<Rightarrow> bool" where
  "answered s i \<longleftrightarrow> i \<notin> set (sd_finished s) \<and>
     (case st_heap (sd_store s) i of Some r \<Rightarrow> \<not> rq_chunked r \<and> \<not> rq_aborted r | None \<Rightarrow> False)"

definition uid_at :: "sched \<Rightarrow> rid \<Rightarrow> nat" where
  "uid_at s i = (case st_heap (sd_store s) i of Some r \<Rightarrow> rq_uid r | None \<Rightarrow> 0)"

lemma drain_sampled_facts:
  assumes "drain_sampled decode cf pre i tok d = Inr d'"
  shows "\<exists>m. dr_reply d' = dr_reply d @ [m] \<and> rp_uid m = uid_at (dr_sched d) i \<and> rp_token m = tok \<and>
      dr_finished d' = dr_finished d @ (if rp_finished m then [i] else [])"
    "sd_out (dr_sched d') = sd_out (dr_sched d)" "sd_finished (dr_sched d') = sd_finished (dr_sched d)"
    "sd_acks (dr_sched d') = sd_acks (dr_sched d)"
    "\<And>j. j \<noteq> i \<Longrightarrow> st_heap (sd_store (dr_sched d')) j = st_heap (sd_store (dr_sched d)) j"
proof -
  let ?s = "dr_sched d"
  obtain r0 r1 where r: "st_heap (sd_store ?s) i = Some r0" "append_host [tok] r0 = Inr r1"
    using assms by (auto simp: drain_sampled_def Let_def and_then_eq_Inr the_req_def split: option.splits)
  define p where "p = (case sd_params ?s (rq_uid r1) of Some p \<Rightarrow> p | None \<Rightarrow> \<lparr>pr_ignore_eos = False, pr_stops = []\<rparr>)"
  define m where "m = reply_of decode cf p tok r1"
  define r2 where "r2 = (if sf_anchor cf = Some tok \<and> rq_anchor r1 = None \<and> \<not> rp_finished m
                then r1\<lparr>rq_anchor := Some (length (rq_ids r1))\<rparr> else r1)"
  define s1 where "s1 = ?s\<lparr>sd_store := put_req i r2 (sd_store ?s)\<rparr>"
  define d1 where "d1 = d\<lparr>dr_reply := dr_reply d @ [m]\<rparr>"
  have e: "(if rp_finished m then
        and_then (free_req_resources i (s1\<lparr>sd_running := remove_req i (sd_running s1)\<rparr>)) (\<lambda>s2.
        Inr (d1\<lparr>dr_sched := s2, dr_finished := dr_finished d @ [i]\<rparr>))
      else if pre \<and> \<not> rq_released r2 then
        and_then (cache_req False r2 (sd_cm s1)) (\<lambda>(c, r3).
        Inr (d1\<lparr>dr_sched := s1\<lparr>sd_cm := c, sd_store := put_req i r3 (sd_store s1)\<rparr>\<rparr>))
      else Inr (d1\<lparr>dr_sched := s1\<rparr>)) = Inr d'"
    using assms r unfolding drain_sampled_def Let_def the_req_def p_def m_def r2_def s1_def d1_def by simp
  have u: "rp_uid m = uid_at ?s i" "rp_token m = tok"
    using r by (auto simp: m_def reply_of_def Let_def uid_at_def append_host_def split: if_splits)
  have s1: "sd_out s1 = sd_out ?s" "sd_finished s1 = sd_finished ?s" "sd_acks s1 = sd_acks ?s"
    "\<And>j. j \<noteq> i \<Longrightarrow> st_heap (sd_store s1) j = st_heap (sd_store ?s) j" by (simp_all add: s1_def put_req_def)
  consider (fin) s2 where "rp_finished m" "free_req_resources i (s1\<lparr>sd_running := remove_req i (sd_running s1)\<rparr>) = Inr s2"
      "d' = d1\<lparr>dr_sched := s2, dr_finished := dr_finished d @ [i]\<rparr>"
    | (cache) c r3 where "\<not> rp_finished m" "d' = d1\<lparr>dr_sched := s1\<lparr>sd_cm := c, sd_store := put_req i r3 (sd_store s1)\<rparr>\<rparr>"
    | (plain) "\<not> rp_finished m" "d' = d1\<lparr>dr_sched := s1\<rparr>"
    using e by (auto simp: and_then_eq_Inr split: if_splits)
  then have "dr_reply d' = dr_reply d @ [m] \<and> dr_finished d' = dr_finished d @ (if rp_finished m then [i] else []) \<and>
     sd_out (dr_sched d') = sd_out ?s \<and> sd_finished (dr_sched d') = sd_finished ?s \<and> sd_acks (dr_sched d') = sd_acks ?s \<and>
     (\<forall>j. j \<noteq> i \<longrightarrow> st_heap (sd_store (dr_sched d')) j = st_heap (sd_store ?s) j)"
  proof cases
    case fin
    then show ?thesis using free_req_frame [OF fin(2)] s1 by (simp add: d1_def)
  next
    case cache
    then show ?thesis using s1 by (simp add: d1_def put_req_def)
  next
    case plain
    then show ?thesis using s1 by (simp add: d1_def)
  qed
  then show "\<exists>m. dr_reply d' = dr_reply d @ [m] \<and> rp_uid m = uid_at (dr_sched d) i \<and> rp_token m = tok \<and>
      dr_finished d' = dr_finished d @ (if rp_finished m then [i] else [])"
    "sd_out (dr_sched d') = sd_out (dr_sched d)" "sd_finished (dr_sched d') = sd_finished (dr_sched d)"
    "sd_acks (dr_sched d') = sd_acks (dr_sched d)"
    "\<And>j. j \<noteq> i \<Longrightarrow> st_heap (sd_store (dr_sched d')) j = st_heap (sd_store (dr_sched d)) j"
    using u by blast+
qed

lemma drain_one_facts:
  assumes "drain_one decode cf pre i tok d = Inr d'"
  shows "if answered (dr_sched d) i
      then \<exists>m t. tok = Some t \<and> dr_reply d' = dr_reply d @ [m] \<and> rp_uid m = uid_at (dr_sched d) i \<and> rp_token m = t
      else dr_reply d' = dr_reply d"
    "sd_out (dr_sched d') = sd_out (dr_sched d)" "sd_finished (dr_sched d') = sd_finished (dr_sched d)"
    "sd_acks (dr_sched d') = sd_acks (dr_sched d)"
    "\<And>j. j \<noteq> i \<Longrightarrow> st_heap (sd_store (dr_sched d')) j = st_heap (sd_store (dr_sched d)) j"
proof -
  let ?s = "dr_sched d"
  obtain r where r: "st_heap (sd_store ?s) i = Some r"
    using assms by (auto simp: drain_one_def Let_def and_then_eq_Inr the_req_def split: option.splits)
  have "(if answered ?s i
      then \<exists>m t. tok = Some t \<and> dr_reply d' = dr_reply d @ [m] \<and> rp_uid m = uid_at ?s i \<and> rp_token m = t
      else dr_reply d' = dr_reply d) \<and>
    sd_out (dr_sched d') = sd_out ?s \<and> sd_finished (dr_sched d') = sd_finished ?s \<and> sd_acks (dr_sched d') = sd_acks ?s \<and>
    (\<forall>j. j \<noteq> i \<longrightarrow> st_heap (sd_store (dr_sched d')) j = st_heap (sd_store ?s) j)"
  proof (cases "rq_chunked r \<or> rq_aborted r \<or> i \<in> set (sd_finished ?s)")
    case True
    then have "\<not> answered ?s i" using r by (auto simp: answered_def)
    then show ?thesis
      using assms r True
      by (auto simp: drain_one_def Let_def and_then_eq_Inr the_req_def split: if_splits dest: free_req_frame)
  next
    case False
    then have a: "answered ?s i" using r by (auto simp: answered_def)
    obtain t where t: "tok = Some t" "drain_sampled decode cf pre i t d = Inr d'"
      using assms r False by (auto simp: drain_one_def Let_def the_req_def split: option.splits)
    show ?thesis using a t(1) drain_sampled_facts [OF t(2)] by auto
  qed
  then show "if answered (dr_sched d) i
      then \<exists>m t. tok = Some t \<and> dr_reply d' = dr_reply d @ [m] \<and> rp_uid m = uid_at (dr_sched d) i \<and> rp_token m = t
      else dr_reply d' = dr_reply d"
    "sd_out (dr_sched d') = sd_out (dr_sched d)" "sd_finished (dr_sched d') = sd_finished (dr_sched d)"
    "sd_acks (dr_sched d') = sd_acks (dr_sched d)"
    "\<And>j. j \<noteq> i \<Longrightarrow> st_heap (sd_store (dr_sched d')) j = st_heap (sd_store (dr_sched d)) j" by blast+
qed

lemma drain_loop_facts:
  assumes "drain_loop decode cf pre is ts d = Inr d'" and "distinct is"
    and "\<And>i. i \<in> set is \<Longrightarrow> st_heap (sd_store (dr_sched d)) i = st_heap (sd_store s) i"
    and "sd_finished (dr_sched d) = sd_finished s"
  shows "\<exists>rs. dr_reply d' = dr_reply d @ rs \<and>
      map (\<lambda>m. (rp_uid m, rp_token m)) rs = map (\<lambda>(i, t). (uid_at s i, t)) (filter (\<lambda>(i, t). answered s i) (zip is ts))"
    "sd_out (dr_sched d') = sd_out (dr_sched d)" "sd_acks (dr_sched d') = sd_acks (dr_sched d)"
proof -
  have "(\<exists>rs. dr_reply d' = dr_reply d @ rs \<and>
      map (\<lambda>m. (rp_uid m, rp_token m)) rs = map (\<lambda>(i, t). (uid_at s i, t)) (filter (\<lambda>(i, t). answered s i) (zip is ts))) \<and>
    sd_out (dr_sched d') = sd_out (dr_sched d) \<and> sd_acks (dr_sched d') = sd_acks (dr_sched d)"
    using assms
  proof (induction "is" arbitrary: ts d)
    case Nil
    then show ?case by simp
  next
    case (Cons i "is")
    obtain d1 where d1: "drain_one decode cf pre i (if ts = [] then None else Some (hd ts)) d = Inr d1"
      "drain_loop decode cf pre is (tl ts) d1 = Inr d'"
      using Cons.prems(1) by (auto simp: and_then_eq_Inr)
    note f = drain_one_facts [OF d1(1)]
    have a: "answered (dr_sched d) i = answered s i" "uid_at (dr_sched d) i = uid_at s i"
      using Cons.prems(3) [of i] Cons.prems(4) by (simp_all add: answered_def uid_at_def)
    have "st_heap (sd_store (dr_sched d1)) j = st_heap (sd_store s) j" if "j \<in> set is" for j
      using f(5) [of j] Cons.prems(2) Cons.prems(3) [of j] that by auto
    from Cons.IH [OF d1(2) _ this] obtain rs where rs: "dr_reply d' = dr_reply d1 @ rs"
      "map (\<lambda>m. (rp_uid m, rp_token m)) rs = map (\<lambda>(i, t). (uid_at s i, t)) (filter (\<lambda>(i, t). answered s i) (zip is (tl ts)))"
      "sd_out (dr_sched d') = sd_out (dr_sched d1)" "sd_acks (dr_sched d') = sd_acks (dr_sched d1)"
      using Cons.prems(2,4) f(3) by auto
    show ?case
    proof (cases "answered s i")
      case True
      then obtain m t ts' where m: "ts = t # ts'" "dr_reply d1 = dr_reply d @ [m]" "rp_uid m = uid_at s i" "rp_token m = t"
        using f(1) a by (cases ts) auto
      then have "dr_reply d' = dr_reply d @ m # rs \<and> map (\<lambda>m. (rp_uid m, rp_token m)) (m # rs) =
          map (\<lambda>(i, t). (uid_at s i, t)) (filter (\<lambda>(i, t). answered s i) (zip (i # is) (t # ts')))"
        using rs(1,2) True by simp
      then show ?thesis using rs(3,4) f(2,4) m(1) by metis
    next
      case False
      then have "dr_reply d' = dr_reply d @ rs \<and> map (\<lambda>m. (rp_uid m, rp_token m)) rs =
          map (\<lambda>(i, t). (uid_at s i, t)) (filter (\<lambda>(i, t). answered s i) (zip (i # is) ts))"
        using f(1) a rs(1,2) by (cases ts) simp_all
      then show ?thesis using rs(3,4) f(2,4) by metis
    qed
  qed
  then show "\<exists>rs. dr_reply d' = dr_reply d @ rs \<and>
      map (\<lambda>m. (rp_uid m, rp_token m)) rs = map (\<lambda>(i, t). (uid_at s i, t)) (filter (\<lambda>(i, t). answered s i) (zip is ts))"
    "sd_out (dr_sched d') = sd_out (dr_sched d)" "sd_acks (dr_sched d') = sd_acks (dr_sched d)" by blast+
qed

lemma process_last_data_sends:
  assumes "process_last_data decode cf (Some fd) s = Inr s'" and "distinct (bt_reqs (fd_batch fd))"
  shows "\<exists>rs. sd_out s' = sd_out s @ map Reply rs \<and>
      map (\<lambda>m. (rp_uid m, rp_token m)) rs =
        map (\<lambda>(i, t). (uid_at s i, t)) (filter (\<lambda>(i, t). answered s i) (zip (bt_reqs (fd_batch fd)) (fd_tokens fd)))"
    "sd_acks s' = sd_acks s"
proof -
  let ?d0 = "\<lparr>dr_sched = s\<lparr>sd_cm := lazy_enter (sd_cm s)\<rparr>, dr_reply = [], dr_finished = []\<rparr>"
  obtain d where d: "drain_loop decode cf (bt_prefill (fd_batch fd)) (bt_reqs (fd_batch fd)) (fd_tokens fd) ?d0 = Inr d"
    "s' = send (map Reply (dr_reply d)) ((dr_sched d)\<lparr>sd_cm := lazy_exit (sd_cm (dr_sched d)), sd_finished := dr_finished d\<rparr>)"
    using assms(1) by (auto simp: process_last_data_def Let_def and_then_eq_Inr)
  note f = drain_loop_facts [OF d(1) assms(2), of s]
  show "\<exists>rs. sd_out s' = sd_out s @ map Reply rs \<and>
      map (\<lambda>m. (rp_uid m, rp_token m)) rs =
        map (\<lambda>(i, t). (uid_at s i, t)) (filter (\<lambda>(i, t). answered s i) (zip (bt_reqs (fd_batch fd)) (fd_tokens fd)))"
    using f by (auto simp: d(2) send_def)
  show "sd_acks s' = sd_acks s" using f by (simp add: d(2) send_def)
qed


section \<open>Aborts\<close>

text \<open>The uids of the aborts in a message, in the order they are processed.\<close>

fun msg_aborts :: "backend_msg \<Rightarrow> nat list"
  and msgs_aborts :: "backend_msg list \<Rightarrow> nat list" where
  "msg_aborts (BatchBackend ms) = msgs_aborts ms"
| "msg_aborts (AbortB u) = [u]"
| "msg_aborts (UserB m) = []"
| "msg_aborts (RebuildB m) = []"
| "msg_aborts ExitB = []"
| "msgs_aborts [] = []"
| "msgs_aborts (m # ms) = msg_aborts m @ msgs_aborts ms"

lemma process_abort_facts:
  assumes "process_abort u s = Inr s'"
  shows "sd_acks s' = (if u \<in> set (sd_acks s) then sd_acks s else sd_acks s @ [u])" "sd_out s' = sd_out s"
    "sd_tombs s' = add_tombstone u (sd_tombs s)" "sd_pending s' = fst (prefill_abort u (sd_pending s))"
    "sd_params s' = sd_params s" "sd_rebuild s' = sd_rebuild s"
proof -
  obtain pend i where p: "prefill_abort u (sd_pending s) = (pend, i)" by fastforce
  define s1 where "s1 = s\<lparr>sd_tombs := add_tombstone u (sd_tombs s), sd_pending := pend\<rparr>"
  obtain run j where d: "decode_abort (sd_store s1) u (sd_running s1) = (run, j)" by fastforce
  define s2 where "s2 = (case i of Some _ \<Rightarrow> s1 | None \<Rightarrow> s1\<lparr>sd_running := run\<rparr>)"
  define victim where "victim = (case i of Some i \<Rightarrow> Some i | None \<Rightarrow> j)"
  have e: "process_abort u s = and_then
        (case victim of
           None \<Rightarrow> Inr s2
         | Some i \<Rightarrow>
             if in_flight i s2
             then and_then (the_req (sd_store s2) i) (\<lambda>r.
                    Inr (s2\<lparr>sd_store := put_req i (r\<lparr>rq_aborted := True\<rparr>) (sd_store s2)\<rparr>))
             else free_req_resources i s2) (\<lambda>s3.
      Inr (s3\<lparr>sd_acks := (if u \<in> set (sd_acks s3) then sd_acks s3 else sd_acks s3 @ [u])\<rparr>))"
    using p d by (cases i; cases j) (auto simp: process_abort_def Let_def s1_def s2_def victim_def)
  have f2: "sd_acks s2 = sd_acks s" "sd_out s2 = sd_out s" "sd_tombs s2 = add_tombstone u (sd_tombs s)"
    "sd_pending s2 = pend" "sd_params s2 = sd_params s" "sd_rebuild s2 = sd_rebuild s"
    by (simp_all add: s2_def s1_def split: option.splits)
  obtain s3 where s3: "(case victim of
           None \<Rightarrow> Inr s2
         | Some i \<Rightarrow>
             if in_flight i s2
             then and_then (the_req (sd_store s2) i) (\<lambda>r.
                    Inr (s2\<lparr>sd_store := put_req i (r\<lparr>rq_aborted := True\<rparr>) (sd_store s2)\<rparr>))
             else free_req_resources i s2) = Inr s3"
    "s' = s3\<lparr>sd_acks := (if u \<in> set (sd_acks s3) then sd_acks s3 else sd_acks s3 @ [u])\<rparr>"
    using assms unfolding e and_then_eq_Inr by blast
  have "sd_acks s3 = sd_acks s2 \<and> sd_out s3 = sd_out s2 \<and> sd_tombs s3 = sd_tombs s2 \<and> sd_pending s3 = sd_pending s2 \<and>
      sd_params s3 = sd_params s2 \<and> sd_rebuild s3 = sd_rebuild s2"
    using s3(1) free_req_frame [of "the victim" s2 s3]
    by (cases victim) (auto simp: and_then_eq_Inr split: if_splits)
  then show "sd_acks s' = (if u \<in> set (sd_acks s) then sd_acks s else sd_acks s @ [u])" "sd_out s' = sd_out s"
    "sd_tombs s' = add_tombstone u (sd_tombs s)" "sd_pending s' = fst (prefill_abort u (sd_pending s))"
    "sd_params s' = sd_params s" "sd_rebuild s' = sd_rebuild s"
    using f2 p by (simp_all add: s3(2))
qed

lemma process_user_frame: "sd_acks (process_user cf m s) = sd_acks s" "prefix (sd_out s) (sd_out (process_user cf m s))"
  by (auto simp: process_user_def Let_def send_def)

lemma process_rebuild_frame:
  "sd_acks (process_rebuild cf m s) = sd_acks s" "prefix (sd_out s) (sd_out (process_rebuild cf m s))"
  by (auto simp: process_rebuild_def send_def)

lemma process_msg_acks:
  shows "process_msg cf m s = Inr s' \<Longrightarrow> distinct (sd_acks s) \<Longrightarrow>
      distinct (sd_acks s') \<and> set (sd_acks s') = set (sd_acks s) \<union> set (msg_aborts m) \<and> prefix (sd_out s) (sd_out s')"
    and "process_msgs cf ms s = Inr s' \<Longrightarrow> distinct (sd_acks s) \<Longrightarrow>
      distinct (sd_acks s') \<and> set (sd_acks s') = set (sd_acks s) \<union> set (msgs_aborts ms) \<and> prefix (sd_out s) (sd_out s')"
proof (induction m and ms arbitrary: s s' and s s' rule: msg_aborts_msgs_aborts.induct)
  case (2 u)
  then show ?case using process_abort_facts [of u s s'] by auto
next
  case (3 m)
  then show ?case using process_user_frame(1) [of cf m s] process_user_frame(2) [of s cf m] by auto
next
  case (4 m)
  then show ?case using process_rebuild_frame(1) [of cf m s] process_rebuild_frame(2) [of s cf m] by auto
next
  case (7 m ms)
  then obtain s1 where s1: "process_msg cf m s = Inr s1" "process_msgs cf ms s1 = Inr s'"
    by (auto simp: and_then_eq_Inr)
  note a = 7(1) [OF s1(1) 7(4)]
  have "distinct (sd_acks s') \<and> set (sd_acks s') = set (sd_acks s1) \<union> set (msgs_aborts ms) \<and> prefix (sd_out s1) (sd_out s')"
    using 7(2) [OF s1(2)] a by blast
  then show ?case using a by (auto intro: prefix_order.trans)
qed auto

lemma execute_rebuild_facts:
  assumes "execute_rebuild eng eng' cf geo s = Inr s'"
  shows "\<exists>m st. sd_rebuild s = Some m \<and> sd_out s' = sd_out s @ [RebuildResult (rm_id m) st]"
    "sd_rebuild s' = None" "sd_acks s' = sd_acks s" "sd_pending s' = sd_pending s" "sd_running s' = sd_running s"
    "sd_store s' = sd_store s"
proof -
  have r: "sd_out (fst (rebuild_cache e cf a t)) = sd_out t \<and> sd_rebuild (fst (rebuild_cache e cf a t)) = sd_rebuild t \<and>
      sd_acks (fst (rebuild_cache e cf a t)) = sd_acks t \<and> sd_pending (fst (rebuild_cache e cf a t)) = sd_pending t \<and>
      sd_running (fst (rebuild_cache e cf a t)) = sd_running t \<and> sd_store (fst (rebuild_cache e cf a t)) = sd_store t" for e a t
    by (auto simp: rebuild_cache_def Let_def split: engine_rebuild.splits sum.splits)
  obtain m where m: "sd_rebuild s = Some m" using assms by (auto simp: execute_rebuild_def split: option.splits)
  let ?s = "s\<lparr>sd_rebuild := None\<rparr>"
  obtain s1 e1 where 1: "rebuild_cache eng cf (rm_args m) ?s = (s1, e1)" by fastforce
  obtain s2 e2 where 2: "rebuild_cache eng' cf (prior_args (rm_args m) geo) s1 = (s2, e2)" by fastforce
  note f = r [of eng "rm_args m" ?s, unfolded 1] r [of eng' "prior_args (rm_args m) geo" s1, unfolded 2]
  have "\<exists>st t. (t = s1 \<or> t = s2) \<and> s' = send [RebuildResult (rm_id m) st] t"
    using assms m 1 2 by (cases e1; cases e2) (auto simp: execute_rebuild_def Let_def split: if_splits)
  then obtain st t where t: "t = s1 \<or> t = s2" "s' = send [RebuildResult (rm_id m) st] t" by blast
  show "\<exists>m st. sd_rebuild s = Some m \<and> sd_out s' = sd_out s @ [RebuildResult (rm_id m) st]"
    using m t f by (auto simp: send_def)
  show "sd_rebuild s' = None" "sd_acks s' = sd_acks s" "sd_pending s' = sd_pending s" "sd_running s' = sd_running s"
    "sd_store s' = sd_store s" using t f by (auto simp: send_def)
qed

lemma run_rebuild_frame:
  assumes "run_rebuild w cf dr s = Inr s'"
  shows "sd_acks s' = sd_acks s" "prefix (sd_out s) (sd_out s')"
  using assms execute_rebuild_facts [of "wd_engine w" "wd_engine2 w" cf "wd_geometry w" s s']
  by (auto simp: run_rebuild_def split: if_splits)

lemma prepare_batch_frame:
  "prepare_batch cf b s = Inr s' \<Longrightarrow> sd_acks s' = sd_acks s \<and> sd_out s' = sd_out s \<and> sd_tombs s' = sd_tombs s"
  by (auto simp: prepare_batch_def Let_def and_then_eq_Inr)

lemma report_frame:
  "sd_acks (report_admissions b s) = sd_acks s \<and> prefix (sd_out s) (sd_out (report_admissions b s)) \<and>
   sd_tombs (report_admissions b s) = sd_tombs s"
  by (simp add: report_admissions_def send_def)

lemma schedule_frame:
  assumes "schedule_next_batch cf s = Inr (s', ob)"
  shows "sd_acks s' = sd_acks s \<and> prefix (sd_out s) (sd_out s') \<and> sd_tombs s' = sd_tombs s"
proof -
  obtain pend st c tb ob0 where p: "prefill_schedule (sd_budget s) (sd_running s) (sd_pending s) (sd_store s) (sd_cm s) (sd_tb s)
      = Inr (pend, st, c, tb, ob0)"
    using assms by (auto simp: schedule_next_batch_def and_then_eq_Inr)
  let ?s1 = "s\<lparr>sd_pending := pend, sd_store := st, sd_cm := c, sd_tb := tb\<rparr>"
  have "(s' = ?s1 \<and> ob = None) \<or> (\<exists>b s2. prepare_batch cf b ?s1 = Inr s2 \<and> s' = report_admissions b s2)"
    using assms p by (auto simp: schedule_next_batch_def and_then_eq_Inr Let_def split: option.splits)
  then show ?thesis
  proof (elim disjE exE conjE)
    fix b s2 assume "prepare_batch cf b ?s1 = Inr s2" "s' = report_admissions b s2"
    then show ?thesis using prepare_batch_frame [of cf b ?s1 s2] report_frame [of b s2] by simp
  qed simp
qed

lemma launch_frame:
  assumes "launch w cf s = Inr (s', fd)"
  shows "sd_acks s' = sd_acks s \<and> prefix (sd_out s) (sd_out s') \<and> sd_tombs s' = sd_tombs s"
proof -
  have r: "sd_acks s2 = sd_acks s1 \<and> sd_out s2 = sd_out s1 \<and> sd_tombs s2 = sd_tombs s1"
    if "restore_linear_states b s1 = Inr s2" for b s1 s2
    using that by (auto simp: restore_linear_states_def and_then_eq_Inr split: if_splits)
  have f: "sd_acks s2 = sd_acks s1 \<and> sd_out s2 = sd_out s1 \<and> sd_tombs s2 = sd_tombs s1"
    if "forward cf b ts s1 = Inr s2" for b ts s1 s2
    using that by (auto simp: forward_def and_then_eq_Inr Let_def)
  obtain s1 ob where 1: "schedule_next_batch cf s = Inr (s1, ob)"
    using assms by (auto simp: launch_def and_then_eq_Inr)
  show ?thesis
  proof (cases ob)
    case None
    then show ?thesis using assms 1 schedule_frame [OF 1] by (simp add: launch_def)
  next
    case (Some b)
    then obtain s2 where "restore_linear_states b s1 = Inr s2" "forward cf b (wd_sampled w) s2 = Inr s'"
      using assms 1 by (auto simp: launch_def and_then_eq_Inr)
    then show ?thesis using schedule_frame [OF 1] r f by metis
  qed
qed

text \<open>One iteration of the main loop.\<close>

lemma overlap_frame:
  assumes run: "overlap_loop w cf msgs prev s = Inr (s', fd)" and a: "sd_acks s = []"
    and d: "\<And>b. prev = Some b \<Longrightarrow> distinct (bt_reqs (fd_batch b))"
  shows "\<exists>mid acks. sd_out s' = mid @ map ErrorReply acks \<and> prefix (sd_out s) mid \<and> sorted acks \<and> distinct acks \<and>
     set acks = set (msgs_aborts msgs) \<and> sd_acks s' = []"
proof -
  obtain s1 s2 s3 s4 where s: "process_msgs cf msgs (s\<lparr>sd_last := prev\<rparr>) = Inr s1" "run_rebuild w cf (prev = None) s1 = Inr s2"
    "launch w cf s2 = Inr (s3, fd)" "process_last_data (wd_decode w) cf prev s3 = Inr s4" "s' = flush_abort_acks s4"
    using run by (auto simp: overlap_loop_def and_then_eq_Inr)
  have 1: "distinct (sd_acks s1)" "set (sd_acks s1) = set (msgs_aborts msgs)" "prefix (sd_out s) (sd_out s1)"
    using process_msg_acks(2) [OF s(1)] a by simp_all
  have 2: "sd_acks s2 = sd_acks s1" "prefix (sd_out s1) (sd_out s2)" by (rule run_rebuild_frame [OF s(2)])+
  have 3: "sd_acks s3 = sd_acks s2" "prefix (sd_out s2) (sd_out s3)" using launch_frame [OF s(3)] by simp_all
  have 4: "sd_acks s4 = sd_acks s3 \<and> prefix (sd_out s3) (sd_out s4)"
  proof (cases prev)
    case None
    then show ?thesis using s(4) by (simp add: process_last_data_def)
  next
    case (Some b)
    from process_last_data_sends [OF s(4) [unfolded Some] d [OF Some]] show ?thesis by auto
  qed
  have p: "prefix (sd_out s) (sd_out s4)"
    using 1(3) 2(2) 3(2) 4 by (meson prefix_order.trans)
  have acks: "distinct (sd_acks s4)" "set (sd_acks s4) = set (msgs_aborts msgs)" using 1 2(1) 3(1) 4 by simp_all
  show ?thesis
  proof (cases "sd_acks s4 = []")
    case True
    then show ?thesis using s(5) p acks by (intro exI [of _ "sd_out s4"] exI [of _ "[]"]) (simp add: flush_abort_acks_def)
  next
    case False
    then show ?thesis
      using s(5) p acks
      by (intro exI [of _ "sd_out s4"] exI [of _ "sort (sd_acks s4)"]) (simp add: flush_abort_acks_def send_def)
  qed
qed


section \<open>Tombstones\<close>

lemma add_tombstone_facts:
  assumes "length ts \<le> tombstone_max"
  shows "uid \<in> set (add_tombstone uid ts)" "length (add_tombstone uid ts) \<le> tombstone_max"
    "distinct ts \<Longrightarrow> distinct (add_tombstone uid ts)"
proof -
  have "uid \<in> set (drop (Suc (length ts) - tombstone_max) (ts @ [uid]))"
  proof -
    have "Suc (length ts) - tombstone_max \<le> length ts" using assms by (simp add: tombstone_max_def)
    then show ?thesis by simp
  qed
  then show "uid \<in> set (add_tombstone uid ts)" using assms by (auto simp: add_tombstone_def Let_def)
  show "length (add_tombstone uid ts) \<le> tombstone_max" by (auto simp: add_tombstone_def Let_def)
  show "distinct ts \<Longrightarrow> distinct (add_tombstone uid ts)"
    by (auto simp: add_tombstone_def Let_def intro: distinct_drop)
qed

section \<open>A small scheduler\<close>

definition demo_config :: config where
  "demo_config = \<lparr>sf_max_seq_len = 8, sf_eos = [99], sf_anchor = None, sf_interval = 1, sf_tp = 1,
     sf_chunk_cap = None, sf_max_extend = 8\<rparr>"

definition demo_sched :: sched where
  "demo_sched =
     \<lparr>sd_cm = \<lparr>cm_free = [0, 1, 2, 3, 4, 5, 6, 7], cm_pages = 8, cm_psize = 1, cm_kind = KNaive, cm_pc = PNaive,
        cm_lpool = None, cm_swa = None, cm_window = 0, cm_table = (\<lambda>_. replicate 8 0), cm_lazy = None,
        cm_clk = int, cm_reads = 1\<rparr>,
      sd_tb = \<lparr>tb_max = 2, tb_free = [0, 1], tb_rows = (\<lambda>_. replicate 8 0), tb_tokens = (\<lambda>_. replicate 8 0)\<rparr>,
      sd_store = \<lparr>st_heap = (\<lambda>_. None), st_next = 0\<rparr>, sd_running = [], sd_pending = [], sd_params = (\<lambda>_. None),
      sd_finished = [], sd_acks = [], sd_tombs = [], sd_iter = 0, sd_last = None, sd_rebuild = None, sd_budget = 8,
      sd_out = []\<rparr>"

definition demo_world :: world where
  "demo_world = \<lparr>wd_decode = (\<lambda>_. []), wd_sampled = [42], wd_engine = (\<lambda>_. EngRejected),
     wd_engine2 = (\<lambda>_. EngRejected), wd_geometry = \<lparr>rb_moe = None, rb_pages = None, rb_mamba = None, rb_swa = None\<rparr>\<rparr>"

definition demo_user :: "nat \<Rightarrow> user_msg" where
  "demo_user uid = \<lparr>um_uid = uid, um_ids = [7, 8, 9], um_max_tokens = 1, um_ignore_eos = False, um_stops = [], um_mm = False\<rparr>"

definition demo_first :: "sched \<times> forward_data option" where
  "demo_first = (case overlap_loop demo_world demo_config [UserB (demo_user 1), AbortB 5, AbortB 3] None demo_sched of
     Inr r \<Rightarrow> r | Inl _ \<Rightarrow> (demo_sched, None))"

lemma demo_first_ok: "overlap_loop demo_world demo_config [UserB (demo_user 1), AbortB 5, AbortB 3] None demo_sched = Inr demo_first"
proof -
  have "case overlap_loop demo_world demo_config [UserB (demo_user 1), AbortB 5, AbortB 3] None demo_sched of
     Inr r \<Rightarrow> True | Inl _ \<Rightarrow> False" by code_simp
  then show ?thesis by (auto simp: demo_first_def split: sum.splits)
qed

lemma demo_first_eval:
  "sd_out (fst demo_first) = [PromptAdmitted 1 3 0, ErrorReply 3, ErrorReply 5]"
  "map_option (\<lambda>fd. (bt_reqs (fd_batch fd), fd_tokens fd)) (snd demo_first) = Some ([0], [42])"
  "uid_at (fst demo_first) 0 = 1" "answered (fst demo_first) 0"
  by code_simp+

section \<open>Properties\<close>

text \<open>C5: draining a batch sends, in batch order, exactly one reply with its sampled token for every request of the
  batch that has its whole prompt computed, was not aborted meanwhile and had not finished in the previous drain,
  and nothing else: a chunk, an aborted request and a request that was still in flight when it finished get none.\<close>

theorem drain_replies:
  assumes "process_last_data decode cf (Some fd) s = Inr s'" and "distinct (bt_reqs (fd_batch fd))"
  shows "\<exists>rs. sd_out s' = sd_out s @ map Reply rs \<and>
      map (\<lambda>m. (rp_uid m, rp_token m)) rs =
        map (\<lambda>(i, t). (uid_at s i, t)) (filter (\<lambda>(i, t). answered s i) (zip (bt_reqs (fd_batch fd)) (fd_tokens fd)))"
  by (rule process_last_data_sends(1) [OF assms])

theorem drain_replies_witness:
  "\<exists>fd s' rs. snd demo_first = Some fd \<and> process_last_data (\<lambda>_. []) demo_config (Some fd) (fst demo_first) = Inr s' \<and>
     sd_out s' = sd_out (fst demo_first) @ map Reply rs \<and> map (\<lambda>m. (rp_uid m, rp_token m)) rs = [(1, 42)]"
proof -
  obtain fd where fd: "snd demo_first = Some fd" "bt_reqs (fd_batch fd) = [0]" "fd_tokens fd = [42]"
    using demo_first_eval(2) by (cases "snd demo_first") auto
  have "case process_last_data (\<lambda>_. []) demo_config (snd demo_first) (fst demo_first) of Inr s' \<Rightarrow> True | Inl _ \<Rightarrow> False"
    by code_simp
  then obtain s' where s': "process_last_data (\<lambda>_. []) demo_config (Some fd) (fst demo_first) = Inr s'"
    using fd(1) by (auto split: sum.splits)
  have "distinct (bt_reqs (fd_batch fd))" using fd(2) by simp
  from drain_replies [OF s' this] show ?thesis
    using fd s' demo_first_eval(3,4) by auto
qed

text \<open>C24: in one iteration of the overlapping loop, every request aborted by an inbound message, however nested in
  batches, is acknowledged exactly once; the acknowledgements go out last, in increasing order, after everything
  else the iteration sends, so no reply for an aborted request follows its acknowledgement in that iteration.\<close>

theorem abort_acked_last:
  assumes "overlap_loop w cf msgs prev s = Inr (s', fd)" and "sd_acks s = []"
    and "\<And>b. prev = Some b \<Longrightarrow> distinct (bt_reqs (fd_batch b))"
  shows "\<exists>mid acks. sd_out s' = mid @ map ErrorReply acks \<and> prefix (sd_out s) mid \<and> sorted acks \<and> distinct acks \<and>
     set acks = set (msgs_aborts msgs) \<and> sd_acks s' = []"
  by (rule overlap_frame [OF assms])

theorem abort_acked_last_witness:
  "\<exists>mid acks. sd_out (fst demo_first) = mid @ map ErrorReply acks \<and> set acks = {3, 5} \<and> sorted acks \<and> distinct acks"
proof -
  have "overlap_loop demo_world demo_config [UserB (demo_user 1), AbortB 5, AbortB 3] None demo_sched =
      Inr (fst demo_first, snd demo_first)" using demo_first_ok by simp
  from abort_acked_last [OF this] show ?thesis by (auto simp: demo_sched_def)
qed

text \<open>C25: an abort that overtakes its request cancels it: the request message that follows is dropped, nothing is
  queued or sent for it and its tombstone is used up; the tombstones never exceed 65536, and the newest is never
  the one that is dropped.\<close>

theorem abort_cancels_late:
  assumes "process_abort uid s = Inr s1" and "length (sd_tombs s) \<le> tombstone_max" and "um_uid m = uid"
  shows "sd_pending (process_user cf m s1) = sd_pending s1 \<and> sd_out (process_user cf m s1) = sd_out s1 \<and>
    sd_params (process_user cf m s1) = sd_params s1 \<and> uid \<notin> set (sd_tombs (process_user cf m s1)) \<and>
    length (sd_tombs s1) \<le> tombstone_max \<and> uid \<in> set (sd_acks s1)"
proof -
  note f = process_abort_facts [OF assms(1)] and t = add_tombstone_facts [OF assms(2), of uid]
  then show ?thesis using assms(3) by (auto simp: process_user_def)
qed

theorem abort_cancels_late_witness:
  "\<exists>s1. process_abort 4 demo_sched = Inr s1 \<and> sd_pending (process_user demo_config (demo_user 4) s1) = [] \<and>
     sd_out (process_user demo_config (demo_user 4) s1) = []"
proof -
  have "case process_abort 4 demo_sched of Inr s1 \<Rightarrow> sd_pending s1 = [] \<and> sd_out s1 = [] | Inl _ \<Rightarrow> False"
    by code_simp
  then obtain s1 where s1: "process_abort 4 demo_sched = Inr s1" "sd_pending s1 = []" "sd_out s1 = []"
    by (auto split: sum.splits)
  have "length (sd_tombs demo_sched) \<le> tombstone_max" "um_uid (demo_user 4) = 4" by (simp_all add: demo_sched_def demo_user_def)
  from abort_cancels_late [OF s1(1) this, of demo_config] s1 show ?thesis by auto
qed

text \<open>C26: a deferred rebuild is always answered, exactly once and with the id of its request, whatever the engine
  does: rejects it, fails before it tears anything down, fails halfway, succeeds, or fails again in the rollback.
  The answer is \<open>ok\<close> exactly when the rebuild went through, and \<open>failed\<close> exactly when it broke halfway and either
  there are several ranks or the rollback did not go through. The wish is cleared; waiting and running requests
  and their tokens are not touched.\<close>

theorem rebuild_answered_once:
  assumes "sd_rebuild s = Some m"
  shows "\<exists>s' st. execute_rebuild eng eng' cf geo s = Inr s' \<and> sd_out s' = sd_out s @ [RebuildResult (rm_id m) st] \<and>
    sd_rebuild s' = None \<and> sd_pending s' = sd_pending s \<and> sd_running s' = sd_running s \<and> sd_store s' = sd_store s \<and>
    (let first = rebuild_cache eng cf (rm_args m) (s\<lparr>sd_rebuild := None\<rparr>);
         back = rebuild_cache eng' cf (prior_args (rm_args m) geo) (fst first) in
     (st = RbOk \<longleftrightarrow> snd first = RebuildDone) \<and>
     (st = RbFailed \<longleftrightarrow> snd first = RebuildBroken \<and> (sf_tp cf > 1 \<or> snd back \<noteq> RebuildDone)) \<and>
     (st = RbOk \<or> st = RbRejected \<or> st = RbFailed))"
proof -
  let ?s = "s\<lparr>sd_rebuild := None\<rparr>"
  obtain s1 e1 where 1: "rebuild_cache eng cf (rm_args m) ?s = (s1, e1)" by fastforce
  obtain s2 e2 where 2: "rebuild_cache eng' cf (prior_args (rm_args m) geo) s1 = (s2, e2)" by fastforce
  obtain s' st where r: "execute_rebuild eng eng' cf geo s = Inr s'"
    "\<exists>t. s' = send [RebuildResult (rm_id m) st] t"
    "st = RbOk \<longleftrightarrow> e1 = RebuildDone" "st = RbFailed \<longleftrightarrow> e1 = RebuildBroken \<and> (sf_tp cf > 1 \<or> e2 \<noteq> RebuildDone)"
    "st = RbOk \<or> st = RbRejected \<or> st = RbFailed"
    using assms 1 2 by (cases e1; cases e2; cases "sf_tp cf > 1") (simp_all add: execute_rebuild_def Let_def, blast+)
  note f = execute_rebuild_facts [OF r(1)]
  have "sd_out s' = sd_out s @ [RebuildResult (rm_id m) st]"
    using f(1) r(2) assms by (auto simp: send_def)
  then show ?thesis using r f(2,4-6) 1 2 by (intro exI [of _ s'] exI [of _ st]) (simp add: Let_def)
qed

definition demo_rebuild :: sched where
  "demo_rebuild = demo_sched\<lparr>sd_rebuild := Some \<lparr>rm_id = ''r'', rm_if_idle = True,
     rm_args = \<lparr>rb_moe = None, rb_pages = Some 4, rb_mamba = None, rb_swa = None\<rparr>\<rparr>\<rparr>"

theorem rebuild_answered_once_witness:
  "\<exists>s'. execute_rebuild (\<lambda>_. EngFailedDuring) (\<lambda>_. EngDone 4 (\<lambda>_. replicate 4 0)) demo_config
      (wd_geometry demo_world) demo_rebuild = Inr s' \<and> sd_out s' = [RebuildResult ''r'' RbRejected] \<and> sd_rebuild s' = None"
proof -
  let ?e = "execute_rebuild (\<lambda>_. EngFailedDuring) (\<lambda>_. EngDone 4 (\<lambda>_. replicate 4 0)) demo_config
      (wd_geometry demo_world) demo_rebuild"
  have "case ?e of Inr s' \<Rightarrow> sd_out s' = [RebuildResult ''r'' RbRejected] | Inl _ \<Rightarrow> False" by code_simp
  moreover have "\<exists>s'. ?e = Inr s' \<and> sd_rebuild s' = None"
    by (rule exE [OF rebuild_answered_once [of demo_rebuild]]) (auto simp: demo_rebuild_def)
  ultimately show ?thesis by (auto split: sum.splits)
qed

text \<open>C27: the resources of a request are released at most once: a second release finds the mark of the first and
  changes nothing, so a request that is aborted and then drained does not free its pages and row twice.\<close>

theorem free_once:
  assumes "free_req_resources i s = Inr s'"
  shows "free_req_resources i s' = Inr s'"
proof -
  obtain r where "st_heap (sd_store s') i = Some r" "rq_released r" using free_req_frame(11) [OF assms] by blast
  then show ?thesis by (rule free_req_again)
qed

theorem free_once_witness:
  "\<exists>s'. free_req_resources 0 (fst demo_first) = Inr s' \<and> free_req_resources 0 s' = Inr s' \<and>
     tb_free (sd_tb (fst demo_first)) = [0] \<and> tb_free (sd_tb s') = [0, 1]"
proof -
  have "case free_req_resources 0 (fst demo_first) of Inr s' \<Rightarrow> tb_free (sd_tb s') = [0, 1] | Inl _ \<Rightarrow> False" by code_simp
  then obtain s' where s': "free_req_resources 0 (fst demo_first) = Inr s'" "tb_free (sd_tb s') = [0, 1]"
    by (auto split: sum.splits)
  have "tb_free (sd_tb (fst demo_first)) = [0]" by code_simp
  then show ?thesis using s' free_once [OF s'(1)] by blast
qed

end
