(* ===== verification/Pool_Properties.thy ===== *)
theory Pool_Properties
  imports Dsv4_Pool Bounded_Rings Message_Codec Detokenize "HOL-Library.Code_Target_Nat"
begin

text \<open>
  What the sizing code, the window pool, the rings and the message codec promise, with concrete
  instances: the budget split is maximal, the DeepSeek-V4 page search ends at the largest count
  that fits, the byte model is the size of the buffers, no window slot is mapped twice, a polled
  log neither skips nor repeats a record, and a message survives the wire.
\<close>

section \<open>Memory budget\<close>

text \<open>C28: the split of a byte budget between expert slots and KV pages, when it is accepted, fits the budget,
  keeps at least one layer of experts and the reserved pages, and leaves nothing unused: with these
  experts no larger page count fits, and with the reserved pages no larger expert count below the cap fits.\<close>

theorem budget_split_maximal:
  assumes "plan_cache_budget budget per_expert per_page num_experts total_experts overlap_wish reserve_pages max_slots
             = Inr (moe, pages, overlap)" and "0 \<le> num_experts"
  shows "required_bytes moe pages per_expert per_page \<le> budget \<and>
    num_experts \<le> moe \<and> moe \<le> min total_experts max_slots \<and> 1 < pages \<and> reserve_pages \<le> pages \<and>
    (overlap \<longrightarrow> overlap_wish \<and> 2 * num_experts \<le> moe) \<and>
    (\<forall>k. reserve_pages \<le> k \<and> required_bytes moe k per_expert per_page \<le> budget \<longrightarrow> k \<le> pages) \<and>
    (\<forall>m. moe < m \<and> m \<le> min total_experts max_slots \<longrightarrow> budget < required_bytes m reserve_pages per_expert per_page)"
  using plan_cache_budget_ok [OF assms(1)] assms(2) by blast

theorem budget_split_maximal_witness:
  "plan_cache_budget 100 10 5 2 8 False 2 8 = Inr (8, 4, False) \<and>
   required_bytes 8 4 10 5 \<le> 100 \<and> 100 < required_bytes 8 5 10 5"
proof -
  have e: "plan_cache_budget 100 10 5 2 8 False 2 8 = Inr (8, 4, False)" by code_simp
  from budget_split_maximal [OF e] have f: "required_bytes 8 4 10 5 \<le> 100"
    and k: "\<And>k. 2 \<le> k \<Longrightarrow> required_bytes 8 k 10 5 \<le> 100 \<Longrightarrow> k \<le> 4" by simp_all
  have "100 < required_bytes 8 5 10 5" by (rule ccontr) (use k [of 5] in simp)
  then show ?thesis using e f by blast
qed

text \<open>
  Without an override, the page count solved for a pool is the largest whose pages and fixed part fit the
  available bytes, and a count of one page or less is refused.
\<close>

lemma page_count_maximal:
  assumes "cf_num_page_override cf = None" and "0 < per_page"
  shows "case solve_num_pages (per_page, fixed, pt, mr) cf available of
     Inr n \<Rightarrow> 1 < n \<and> n * per_page + fixed \<le> available \<and> available < (n + 1) * per_page + fixed
   | Inl e \<Rightarrow> e = AssertionError \<and> available < 2 * per_page + fixed"
proof (cases "solve_num_pages (per_page, fixed, pt, mr) cf available")
  case (Inr n)
  then show ?thesis using solve_num_pages_ok [OF Inr assms] by simp
next
  case (Inl e)
  then have "e = AssertionError" "(available - fixed) div per_page \<le> 1"
    using assms(1) by (auto simp: solve_num_pages_def Let_def split: if_splits)
  moreover have "available - fixed < 2 * per_page"
  proof (rule ccontr)
    assume "\<not> available - fixed < 2 * per_page"
    then have "2 * per_page div per_page \<le> (available - fixed) div per_page"
      using assms(2) by (intro zdiv_mono1) simp_all
    then show False using calculation(2) assms(2) by simp
  qed
  ultimately show ?thesis using Inl by simp
qed

text \<open>C32: the page search of the DeepSeek-V4 pool always ends: it returns the sizes of a page count that
  fits and whose successor does not, or raises when even the smallest permitted count does not fit. The
  doubling and the bisection never run out of fuel, and no tier of the compression ratios 0, 4 and 128 is missing.\<close>

theorem dsv4_pages_maximal:
  assumes "args_ok a" and "0 < P" and "0 \<le> n_scratch" and "0 \<le> fl"
  shows "(\<exists>n sz sz'. max fl 2 \<le> n \<and> dsv4_solve_num_pages avail a swa_ratio fl P n_scratch = Inr sz \<and>
            sizes_at a swa_ratio fl P n = Inr sz \<and> dsv4_pool_bytes sz a n_scratch \<le> avail \<and>
            sizes_at a swa_ratio fl P (n + 1) = Inr sz' \<and> avail < dsv4_pool_bytes sz' a n_scratch) \<or>
         (\<exists>sz. dsv4_solve_num_pages avail a swa_ratio fl P n_scratch = Inl ValueError \<and>
            sizes_at a swa_ratio fl P (max fl 2) = Inr sz \<and> avail < dsv4_pool_bytes sz a n_scratch)"
  by (rule dsv4_solve_ok [OF assms])

definition demo_dsv4 :: dsv4_args where
  "demo_dsv4 = \<lparr>da_head_dim = 2, da_index_dim = 2, da_ratios = [0, 4], da_layers = 2, da_window = 4\<rparr>"

theorem dsv4_pages_maximal_witness:
  "\<exists>n sz. 2 \<le> n \<and> dsv4_solve_num_pages 3000 demo_dsv4 (1 / 2) 1 4 1 = Inr sz \<and>
     sizes_at demo_dsv4 (1 / 2) 1 4 n = Inr sz \<and> dsv4_pool_bytes sz demo_dsv4 1 \<le> 3000"
proof -
  have a: "args_ok demo_dsv4" by (simp add: args_ok_def demo_dsv4_def ratios_def)
  have "case sizes_at demo_dsv4 (1 / 2) 1 4 2 of Inr sz \<Rightarrow> dsv4_pool_bytes sz demo_dsv4 1 \<le> 3000 | Inl _ \<Rightarrow> True"
    by code_simp
  then show ?thesis using dsv4_pages_maximal [OF a, of 4 1 1 3000 "1 / 2"] by auto
qed

text \<open>C33: the byte model the DeepSeek-V4 sizing searches with is exactly the size of the buffers the pool
  allocates for those sizes: the search neither over-commits memory nor wastes it.\<close>

theorem dsv4_bytes_exact: "total_bytes (alloc_buffers a sz n_scratch) = dsv4_pool_bytes sz a n_scratch"
  by (rule total_bytes_model)

section \<open>The window pool\<close>

text \<open>
  What clients of the pool do: allocate window slots for positions, free distinct positions, mapped or
  not, and rebuild the pool. A careful client allocates only for distinct positions that have no slot.
\<close>

inductive swa_step :: "bool \<Rightarrow> swa_pool \<Rightarrow> swa_pool \<Rightarrow> bool" for careful :: bool where
  alloc: "alloc_swa full p = Inr p' \<Longrightarrow> (careful \<Longrightarrow> distinct full \<and> (\<forall>i \<in> set full. sp_map p ! i \<le> 0)) \<Longrightarrow>
    swa_step careful p p'"
| release: "free_swa full p = Inr p' \<Longrightarrow> distinct full \<Longrightarrow> swa_step careful p p'"
| rebuild: "swa_step careful p (sp_rebuild pages num p)"

definition no_double :: "swa_pool \<Rightarrow> bool" where
  "no_double p \<longleftrightarrow> mset (sp_free p) + mapped (sp_map p) \<subseteq># mset_set {1..<sp_num p}"

lemma swa_step_range:
  assumes "alloc_swa full p = Inr p' \<or> free_swa full p = Inr p'" and "full \<noteq> []"
  shows "in_range full (sp_map p)"
  using assms by (auto simp: alloc_swa_def free_swa_def translate_loc_from_full_to_swa_def Let_def split: if_splits)

lemma mapped_ints: "\<forall>v \<in> set vs. 0 < v \<Longrightarrow> mapped (map int vs) = mset vs"
  by (induction vs) (auto simp: mapped_def)

lemma alloc_no_double:
  assumes n: "no_double p" and a: "alloc_swa full p = Inr p'" and ne: "full \<noteq> []"
  shows "no_double p'"
proof -
  let ?n = "length full"
  let ?ps = "zip full (map int (take ?n (sp_free p)))"
  have l: "?n \<le> length (sp_free p)" and p': "p' = p\<lparr>sp_free := drop ?n (sp_free p), sp_map := scatter (sp_map p) ?ps\<rparr>"
    using a ne by (auto simp: alloc_swa_def Let_def split: if_splits)
  have z: "map fst ?ps = full" "map snd ?ps = map int (take ?n (sp_free p))" using l by simp_all
  have "set_mset (mset (sp_free p) + mapped (sp_map p)) \<subseteq> {1..<sp_num p}"
    using set_mset_mono [OF n [unfolded no_double_def]] by simp
  then have "\<forall>v \<in> set (take ?n (sp_free p)). 0 < v" by (auto dest!: in_set_takeD)
  then have "mapped (map int (take ?n (sp_free p))) = mset (take ?n (sp_free p))" by (rule mapped_ints)
  then have "mapped (sp_map p') \<subseteq># mapped (sp_map p) + mset (take ?n (sp_free p))"
    using mapped_scatter_sub [of ?ps "sp_map p"] swa_step_range [of full p p'] a ne p' unfolding z by simp
  then have "mset (sp_free p') + mapped (sp_map p') \<subseteq>#
      mset (drop ?n (sp_free p)) + (mapped (sp_map p) + mset (take ?n (sp_free p)))" using p' by simp
  also have "\<dots> = (mset (take ?n (sp_free p)) + mset (drop ?n (sp_free p))) + mapped (sp_map p)" by (simp only: ac_simps)
  also have "\<dots> = mset (sp_free p) + mapped (sp_map p)" by (metis append_take_drop_id mset_append)
  finally show ?thesis using n p' unfolding no_double_def by (auto intro: subset_mset.order_trans)
qed

lemma free_no_double:
  assumes n: "no_double p" and f: "free_swa full p = Inr p'" and ne: "full \<noteq> []" and d: "distinct full"
  shows "no_double p'"
proof -
  let ?ps = "map (\<lambda>i. (i, 0 :: int)) full"
  have r: "in_range full (sp_map p)" using swa_step_range f ne by blast
  have p': "p' = p\<lparr>sp_free := sp_free p @ map nat (filter (\<lambda>v. v > 0) (map (\<lambda>i. sp_map p ! i) full)), sp_map := scatter (sp_map p) ?ps\<rparr>"
    using f ne r by (simp add: free_swa_def translate_loc_from_full_to_swa_def Let_def)
  have z: "map fst ?ps = full" "map snd ?ps = map (\<lambda>_. 0) full" by (simp_all add: comp_def)
  have "mapped (map (\<lambda>_. 0 :: int) full) = {#}" by (simp add: mapped_def filter_empty_conv)
  then have "mapped (scatter (sp_map p) ?ps) + mapped (map (\<lambda>i. sp_map p ! i) full) = mapped (sp_map p)"
    using mapped_scatter [of ?ps "sp_map p"] d r unfolding z by simp
  then have e: "mset (sp_free p') + mapped (sp_map p') = mset (sp_free p) + mapped (sp_map p)"
    using p' by (simp add: mapped_def ac_simps)
  have "sp_num p' = sp_num p" using p' by simp
  then show ?thesis using n unfolding no_double_def e by simp
qed

lemma swa_step_ok:
  assumes "swa_step careful p p'"
  shows "(no_double p \<longrightarrow> no_double p') \<and> (careful \<longrightarrow> swa_ok p \<longrightarrow> swa_ok p')"
  using assms
proof cases
  case (alloc full)
  show ?thesis
  proof (cases "full = []")
    case True
    then show ?thesis using alloc by (simp add: alloc_swa_def)
  next
    case False
    have l: "length full \<le> length (sp_free p)" using alloc(1) False by (auto simp: alloc_swa_def Let_def split: if_splits)
    have r: "in_range full (sp_map p)" using swa_step_range alloc(1) False by blast
    have "swa_ok p'" if c: careful and ok: "swa_ok p"
      by (rule alloc_swa_ok [OF ok _ r _ l]) (use alloc c in auto)
    then show ?thesis using alloc_no_double alloc(1) False by blast
  qed
next
  case (release full)
  show ?thesis
  proof (cases "full = []")
    case True
    then show ?thesis using release by (simp add: free_swa_def)
  next
    case False
    have r: "in_range full (sp_map p)" using swa_step_range release(1) False by blast
    have "swa_ok p'" if ok: "swa_ok p" by (rule free_swa_ok [OF ok release(2) r]) (use release(1) in simp)
    then show ?thesis using free_no_double release False by blast
  qed
next
  case (rebuild pages num)
  have "swa_ok p'" unfolding rebuild sp_rebuild_def Let_def by (rule init_swa_ok)
  then show ?thesis by (simp add: no_double_def swa_ok_def)
qed

lemma swa_steps_ok:
  "(swa_step careful)\<^sup>*\<^sup>* p p' \<Longrightarrow> swa_ok p \<Longrightarrow> no_double p' \<and> (careful \<longrightarrow> swa_ok p')"
proof (induction rule: rtranclp_induct)
  case base
  then show ?case by (simp add: no_double_def swa_ok_def)
next
  case (step p1 p2)
  then show ?case using swa_step_ok [OF step.hyps(2)] by blast
qed

lemma mapped_distinct:
  "mapped m + F = mset_set S \<Longrightarrow> i < length m \<Longrightarrow> j < length m \<Longrightarrow> i \<noteq> j \<Longrightarrow> 0 < m ! i \<Longrightarrow> m ! i \<noteq> m ! j"
proof
  assume a: "mapped m + F = mset_set S" "i < length m" "j < length m" "i \<noteq> j" "0 < m ! i" "m ! i = m ! j"
  have "mset (map nat (filter (\<lambda>v. v > 0) m)) + F = mset_set S" using a(1) by (simp add: mapped_def)
  then have "distinct (map nat (filter (\<lambda>v. v > 0) m))" by (rule mset_set_distinct)
  then have d: "distinct (filter (\<lambda>v. v > 0) m)" by (simp add: distinct_map)
  have two: "distinct (filter P m) \<Longrightarrow> i < j \<Longrightarrow> j < length m \<Longrightarrow> P (m ! i) \<Longrightarrow> m ! i \<noteq> m ! j" for i j P
  proof (induction m arbitrary: i j)
    case (Cons x m)
    then show ?case by (cases i; cases j) (auto simp: nth_Cons split: if_splits)
  qed simp
  consider "i < j" | "j < i" using a(4) by linarith
  then show False
    by cases (use two [of "\<lambda>v. 0 < v" i j] two [of "\<lambda>v. 0 < v" j i] d a in auto)
qed

text \<open>C34: take a window pool and any sequence of allocations, frees and rebuilds in which no single free names a
  position twice. Two positions of the full pool are never mapped to the same window slot, no mapped slot is on the
  free list, and no slot is free twice, whatever positions the allocations name and also when a position is freed
  again. When, in addition, allocations name distinct positions that have no slot, no slot is lost either: the free
  and the mapped slots are together all slots but the null slot 0. (Allocating again for a mapped position loses
  its old slot.)\<close>

theorem window_slots_exclusive:
  assumes "(swa_step careful)\<^sup>*\<^sup>* (sp_init pages ps num) p"
  shows "mset (sp_free p) + mapped (sp_map p) \<subseteq># mset_set {1..<sp_num p} \<and> distinct (sp_free p) \<and>
    (\<forall>i < length (sp_map p). \<forall>j < length (sp_map p). i \<noteq> j \<and> 0 < sp_map p ! i \<longrightarrow> sp_map p ! i \<noteq> sp_map p ! j) \<and>
    (\<forall>i < length (sp_map p). 0 < sp_map p ! i \<longrightarrow> nat (sp_map p ! i) \<notin> set (sp_free p)) \<and>
    (careful \<longrightarrow> mset (sp_free p) + mapped (sp_map p) = mset_set {1..<sp_num p})"
proof -
  have "swa_ok (sp_init pages ps num)" by (simp add: sp_init_def Let_def init_swa_ok)
  from swa_steps_ok [OF assms this] have nd: "mset (sp_free p) + mapped (sp_map p) \<subseteq># mset_set {1..<sp_num p}"
    and c: "careful \<longrightarrow> mset (sp_free p) + mapped (sp_map p) = mset_set {1..<sp_num p}"
    by (simp_all add: no_double_def swa_ok_def)
  then obtain R where R: "mset_set {1..<sp_num p} = mset (sp_free p) + mapped (sp_map p) + R"
    by (auto simp: subset_mset.le_iff_add)
  have m': "mapped (sp_map p) + (mset (sp_free p) + R) = mset_set {1..<sp_num p}" using R by (simp add: ac_simps)
  have d: "mset (sp_free p) + (mapped (sp_map p) + R) = mset_set {1..<sp_num p}" using R by (simp add: ac_simps)
  have fr: "nat (sp_map p ! i) \<notin> set (sp_free p)" if i: "i < length (sp_map p)" "0 < sp_map p ! i" for i
  proof
    assume f: "nat (sp_map p ! i) \<in> set (sp_free p)"
    have "nat (sp_map p ! i) \<in># mapped (sp_map p)" using i by (force simp: mapped_def)
    then have "2 \<le> count (mset (sp_free p) + (mapped (sp_map p) + R)) (nat (sp_map p ! i))"
      using f by (simp add: Suc_le_eq flip: count_greater_zero_iff set_mset_mset)
    then show False unfolding d by (simp add: count_mset_set' split: if_splits)
  qed
  have "distinct (sp_free p)" by (rule mset_set_distinct [OF d])
  then show ?thesis using nd c mapped_distinct [OF m'] fr by blast
qed

theorem window_slots_exclusive_witness:
  "\<exists>p. alloc_swa [2, 5] (sp_init 3 2 None) = Inr p \<and> sp_map p ! 2 \<noteq> sp_map p ! 5 \<and>
     mset (sp_free p) + mapped (sp_map p) = mset_set {1..<sp_num p}"
proof -
  define p0 where "p0 = sp_init 3 2 None"
  obtain p where p: "alloc_swa [2, 5] p0 = Inr p" "sp_map p = [0, 0, 1, 0, 0, 2, 0, 0, -1]"
    unfolding p0_def by (simp add: alloc_swa_def sp_init_def init_swa_paged_state_def in_range_def Let_def
        numeral_2_eq_2 upt_conv_Cons eval_nat_numeral)
  have "swa_step True p0 p" by (rule swa_step.alloc [OF p(1)])
      (simp_all add: p0_def sp_init_def init_swa_paged_state_def Let_def eval_nat_numeral)
  then have r: "(swa_step True)\<^sup>*\<^sup>* (sp_init 3 2 None) p" unfolding p0_def by (rule r_into_rtranclp)
  show ?thesis using window_slots_exclusive [OF r] p unfolding p0_def by simp
qed

section \<open>Rings\<close>

lemma ring_adds:
  "rg_cap (fold ring_add rs g) = rg_cap g \<and> rg_next (fold ring_add rs g) = rg_next g + length rs \<and>
   (ring_ok g \<longrightarrow> ring_ok (fold ring_add rs g))"
  by (induction rs arbitrary: g) (simp_all add: ring_add_def, metis ring_add_def ring_add_ok)

lemma ring_content: "map snd (rg_buf (fold ring_add rs (ring_init cap))) = drop (length rs - cap) rs"
proof (induction rs rule: rev_induct)
  case (snoc r rs)
  let ?g = "fold ring_add rs (ring_init cap)"
  have c: "rg_cap ?g = cap" using ring_adds [of rs "ring_init cap"] by (simp add: ring_init_def)
  have one: "map snd (drop k [x]) = drop k [snd x]" for k and x :: "nat \<times> 'a" by (cases k) simp_all
  have "map snd (rg_buf (ring_add r ?g)) = deque_append cap r (map snd (rg_buf ?g))"
    by (simp add: ring_add_def deque_append_def Let_def drop_map c one)
  also have "\<dots> = drop (length rs + 1 - cap) (rs @ [r])"
    unfolding snoc deque_append_def Let_def by (cases "length rs \<le> cap") (auto simp: Suc_diff_le)
  finally show ?case by simp
qed (simp add: ring_init_def)

text \<open>C38: polling the request ring in pages neither skips nor repeats a record: the ring holds the last
  \<open>cap\<close> records, a page of \<open>since\<close> holds at most \<open>limit\<close> of the records numbered from the cursor, and
  continuing at the returned cursor, which is one past the last returned record when the page is full,
  delivers exactly the rest.\<close>

theorem ring_poll_complete:
  assumes "ring_since cursor limit (fold ring_add rs (ring_init cap)) = (page, cont)" and "0 < limit"
  shows "drop (max cursor (length rs - cap)) rs = page @ drop (max cont (length rs - cap)) rs \<and>
    length page \<le> limit"
proof -
  let ?g = "fold ring_add rs (ring_init cap)"
  have g: "rg_cap ?g = cap" "rg_next ?g = length rs" "ring_ok ?g"
    using ring_adds [of rs "ring_init cap"] by (simp_all add: ring_init_ok, simp_all add: ring_init_def)
  have l: "length (rg_buf ?g) = length rs - (length rs - cap)"
    using arg_cong [OF ring_content [of rs cap], of length] by simp
  have f: "map snd (filter (\<lambda>e. fst e \<ge> c) (rg_buf ?g)) = drop (max c (length rs - cap)) rs" for c
    unfolding ring_matched [OF g(3)] l g(2) drop_map [symmetric] ring_content
    by (simp add: max_def)
  show ?thesis using ring_since_pages(1,2) [OF g(3) assms(2,1)] unfolding f by blast
qed

theorem ring_poll_complete_witness:
  "\<exists>page cont. ring_since 0 2 (fold ring_add ''abcde'' (ring_init 4)) = (page, cont) \<and>
     page = ''bc'' \<and> ''bcde'' = page @ drop (max cont 1) ''abcde''"
proof -
  have e: "ring_since 0 2 (fold ring_add ''abcde'' (ring_init 4)) = (''bc'', 3)" by code_simp
  show ?thesis using ring_poll_complete [OF e] e by simp
qed

section \<open>Messages\<close>

text \<open>C36: a message survives the wire: every value a message may carry is encoded without error, and
  decoding gives it back, also when a client's dictionary carries the tags of the codec itself.\<close>

theorem message_roundtrip:
  assumes "wf_val known np v"
  shows "\<exists>w. serialize_any v = Inr w \<and> deserialize_any known np w = Inr v"
  by (rule serialize_roundtrip(1) [OF assms])

theorem message_roundtrip_witness:
  "\<exists>w. serialize_any (PObj ''Msg'' [(''kwargs'', PDict [(''__type__'', PStr ''Evil'')]), (''uid'', PInt 3)] :: unit pyval) = Inr w \<and>
     deserialize_any {''Msg''} {} w =
       Inr (PObj ''Msg'' [(''kwargs'', PDict [(''__type__'', PStr ''Evil'')]), (''uid'', PInt 3)])"
  by (rule message_roundtrip) (simp add: type_key_def)

end
