(* ===== verification/Detok_Stream.thy ===== *)
theory Detok_Stream
  imports Detokenize "HOL-Library.Code_Target_Nat"
begin

text \<open>
  What a client reads of a streamed reply. A batch of replies with one message per request is a
  family of independent steps, one per request; along the messages of one request the pieces
  sent are consecutive slices of the text its tokens decode to, and end at the stop string. The
  decoder of the tokenizer is a parameter with the laws \<open>decoder_ok\<close>.
\<close>

section \<open>One request\<close>

definition taken :: "int list \<Rightarrow> detok_msg \<Rightarrow> decode_status option \<Rightarrow> decode_status" where
  "taken eos m so =
     (let s = (case so of Some s \<Rightarrow> s | None \<Rightarrow> fresh_status) in
      if \<not> (dm_finished m \<and> dm_token m \<in> set eos) then s\<lparr>ds_ids := ds_ids s @ [dm_token m]\<rparr> else s)"

definition sent_piece :: "detok_msg \<Rightarrow> codes \<Rightarrow> codes \<Rightarrow> decode_status \<Rightarrow> decode_status option \<times> codes" where
  "sent_piece m read_str surr_str s =
     (let (s1, out) = advance read_str surr_str s; e = emit_end m out in
      (if dm_finished m then None else Some (s1\<lparr>ds_sent := max (ds_sent s1) e\<rparr>),
       if e > ds_sent s1 then take (e - ds_sent s1) (drop (ds_sent s1) out) else []))"

definition windows :: "decode_status \<Rightarrow> int list \<times> int list" where
  "windows s = (drop (ds_surr s) (ds_ids s), take (ds_read s - ds_surr s) (drop (ds_surr s) (ds_ids s)))"

definition detok_one ::
  "(int list \<Rightarrow> codes) \<Rightarrow> int list \<Rightarrow> detok_msg \<Rightarrow> decode_status option \<Rightarrow> decode_status option \<times> codes" where
  "detok_one decode eos m so =
     (let s = taken eos m so; (r, q) = windows s in sent_piece m (decode r) (decode q) s)"

fun one_run ::
  "(int list \<Rightarrow> codes) \<Rightarrow> int list \<Rightarrow> detok_msg list \<Rightarrow> decode_status option \<Rightarrow> decode_status option \<times> codes"
where
  "one_run decode eos [] so = (so, [])"
| "one_run decode eos (m # ms) so =
     (let (so1, p) = detok_one decode eos m so; (so2, ps) = one_run decode eos ms so1 in (so2, p @ ps))"

fun detok_run :: "(int list \<Rightarrow> codes) \<Rightarrow> detok_msg list list \<Rightarrow> detok \<Rightarrow> err + (detok \<times> codes list list)" where
  "detok_run decode [] d = Inr (d, [])"
| "detok_run decode (b # bs) d =
     and_then (detokenize decode b d) (\<lambda>(d1, incs).
     and_then (detok_run decode bs d1) (\<lambda>(d2, rest). Inr (d2, incs # rest)))"

definition piece_of :: "uid \<Rightarrow> detok_msg list \<Rightarrow> codes list \<Rightarrow> codes" where
  "piece_of u ms incs = concat (map snd (filter (\<lambda>(m, i). dm_uid m = u) (zip ms incs)))"

definition pieces :: "uid \<Rightarrow> detok_msg list list \<Rightarrow> codes list list \<Rightarrow> codes" where
  "pieces u bs outs = concat (map (\<lambda>(ms, incs). piece_of u ms incs) (zip bs outs))"

definition msgs_of :: "uid \<Rightarrow> detok_msg list list \<Rightarrow> detok_msg list" where
  "msgs_of u bs = filter (\<lambda>m. dm_uid m = u) (concat bs)"

section \<open>A batch is a family of independent steps\<close>

lemma collect_step_taken:
  "collect_step m d =
     (d\<lparr>dk_map := (dk_map d)(dm_uid m \<mapsto> taken (dk_eos d) m (dk_map d (dm_uid m)))\<rparr>,
      windows (taken (dk_eos d) m (dk_map d (dm_uid m))))"
  by (simp add: collect_step_def taken_def windows_def Let_def)

lemma collect_taken:
  assumes "distinct (map dm_uid ms)"
  shows "snd (collect ms d) = map (\<lambda>m. windows (taken (dk_eos d) m (dk_map d (dm_uid m)))) ms"
    "dk_eos (fst (collect ms d)) = dk_eos d"
    "m \<in> set ms \<Longrightarrow> dk_map (fst (collect ms d)) (dm_uid m) = Some (taken (dk_eos d) m (dk_map d (dm_uid m)))"
    "u \<notin> dm_uid ` set ms \<Longrightarrow> dk_map (fst (collect ms d)) u = dk_map d u"
proof -
  have "snd (collect ms d) = map (\<lambda>m. windows (taken (dk_eos d) m (dk_map d (dm_uid m)))) ms \<and>
    dk_eos (fst (collect ms d)) = dk_eos d \<and>
    (\<forall>m \<in> set ms. dk_map (fst (collect ms d)) (dm_uid m) = Some (taken (dk_eos d) m (dk_map d (dm_uid m)))) \<and>
    (\<forall>u. u \<notin> dm_uid ` set ms \<longrightarrow> dk_map (fst (collect ms d)) u = dk_map d u)"
    using assms
  proof (induction ms arbitrary: d)
    case (Cons m ms)
    let ?d = "d\<lparr>dk_map := (dk_map d)(dm_uid m \<mapsto> taken (dk_eos d) m (dk_map d (dm_uid m)))\<rparr>"
    have IH: "snd (collect ms ?d) = map (\<lambda>k. windows (taken (dk_eos ?d) k (dk_map ?d (dm_uid k)))) ms"
      "dk_eos (fst (collect ms ?d)) = dk_eos ?d"
      "\<forall>k \<in> set ms. dk_map (fst (collect ms ?d)) (dm_uid k) = Some (taken (dk_eos ?d) k (dk_map ?d (dm_uid k)))"
      "\<forall>u. u \<notin> dm_uid ` set ms \<longrightarrow> dk_map (fst (collect ms ?d)) u = dk_map ?d u"
      using Cons.IH [of ?d] Cons.prems by simp_all
    have ne: "dm_uid k \<noteq> dm_uid m" if "k \<in> set ms" for k
      using Cons.prems that by (auto simp: image_iff)
    have c: "collect (m # ms) d = (fst (collect ms ?d),
        windows (taken (dk_eos d) m (dk_map d (dm_uid m))) # snd (collect ms ?d))"
      by (simp add: collect_step_taken case_prod_beta split: prod.splits)
    show ?case unfolding c using IH ne Cons.prems by auto
  qed simp
  then show "snd (collect ms d) = map (\<lambda>m. windows (taken (dk_eos d) m (dk_map d (dm_uid m)))) ms"
    "dk_eos (fst (collect ms d)) = dk_eos d"
    "m \<in> set ms \<Longrightarrow> dk_map (fst (collect ms d)) (dm_uid m) = Some (taken (dk_eos d) m (dk_map d (dm_uid m)))"
    "u \<notin> dm_uid ` set ms \<Longrightarrow> dk_map (fst (collect ms d)) u = dk_map d u" by blast+
qed

lemma emit_step_piece:
  assumes "dk_map d (dm_uid m) = Some s"
  shows "emit_step m r q d =
    Inr (d\<lparr>dk_map := (dk_map d)(dm_uid m := fst (sent_piece m r q s))\<rparr>, snd (sent_piece m r q s))"
  using assms by (simp add: emit_step_def sent_piece_def Let_def split: prod.splits)

lemma emit_loop_pieces:
  assumes "distinct (map (\<lambda>x. dm_uid (fst x)) xs)"
    and "\<And>m r q. (m, r, q) \<in> set xs \<Longrightarrow> dk_map d (dm_uid m) = Some (st m)"
  shows "\<exists>d'. emit_loop xs d = Inr (d', map (\<lambda>(m, r, q). snd (sent_piece m r q (st m))) xs) \<and> dk_eos d' = dk_eos d \<and>
    (\<forall>(m, r, q) \<in> set xs. dk_map d' (dm_uid m) = fst (sent_piece m r q (st m))) \<and>
    (\<forall>u. u \<notin> (\<lambda>x. dm_uid (fst x)) ` set xs \<longrightarrow> dk_map d' u = dk_map d u)"
  using assms
proof (induction xs arbitrary: d)
  case (Cons x xs)
  obtain m r q where x: "x = (m, r, q)" by (metis prod.collapse)
  let ?d = "d\<lparr>dk_map := (dk_map d)(dm_uid m := fst (sent_piece m r q (st m)))\<rparr>"
  have e: "emit_step m r q d = Inr (?d, snd (sent_piece m r q (st m)))"
    by (rule emit_step_piece) (use Cons.prems(2) x in auto)
  have ne: "dm_uid k \<noteq> dm_uid m" if "(k, a, b) \<in> set xs" for k a b using Cons.prems(1) that x by force
  have "\<exists>d'. emit_loop xs ?d = Inr (d', map (\<lambda>(m, r, q). snd (sent_piece m r q (st m))) xs) \<and> dk_eos d' = dk_eos ?d \<and>
    (\<forall>(m, r, q) \<in> set xs. dk_map d' (dm_uid m) = fst (sent_piece m r q (st m))) \<and>
    (\<forall>u. u \<notin> (\<lambda>x. dm_uid (fst x)) ` set xs \<longrightarrow> dk_map d' u = dk_map ?d u)"
  proof (rule Cons.IH)
    show "distinct (map (\<lambda>x. dm_uid (fst x)) xs)" using Cons.prems(1) by simp
    fix k a b assume k: "(k, a, b) \<in> set xs"
    then have "dk_map d (dm_uid k) = Some (st k)" using Cons.prems(2) by auto
    then show "dk_map ?d (dm_uid k) = Some (st k)" using ne [OF k] by simp
  qed
  then obtain d' where d': "emit_loop xs ?d = Inr (d', map (\<lambda>(m, r, q). snd (sent_piece m r q (st m))) xs)"
    "dk_eos d' = dk_eos d" "\<forall>(m, r, q) \<in> set xs. dk_map d' (dm_uid m) = fst (sent_piece m r q (st m))"
    "\<forall>u. u \<notin> (\<lambda>x. dm_uid (fst x)) ` set xs \<longrightarrow> dk_map d' u = dk_map ?d u"
    by auto
  have hd: "dk_map d' (dm_uid m) = fst (sent_piece m r q (st m))"
    using d'(4) Cons.prems(1) x by auto
  show ?case
    by (rule exI [of _ d']) (use e d' hd x in auto)
qed simp

lemma detokenize_batch:
  assumes d: "distinct (map dm_uid ms)"
  obtains d' where
    "detokenize decode ms d = Inr (d', map (\<lambda>m. snd (detok_one decode (dk_eos d) m (dk_map d (dm_uid m)))) ms)"
    "dk_eos d' = dk_eos d"
    "\<And>m. m \<in> set ms \<Longrightarrow> dk_map d' (dm_uid m) = fst (detok_one decode (dk_eos d) m (dk_map d (dm_uid m)))"
    "\<And>u. u \<notin> dm_uid ` set ms \<Longrightarrow> dk_map d' u = dk_map d u"
proof -
  let ?st = "\<lambda>m. taken (dk_eos d) m (dk_map d (dm_uid m))"
  let ?xs = "map (\<lambda>m. (m, decode (fst (windows (?st m))), decode (snd (windows (?st m))))) ms"
  note c = collect_taken [OF d, where d = d]
  have zip: "zip ms (map (\<lambda>(r, s). (decode r, decode s)) (snd (collect ms d))) = ?xs"
    unfolding c(1) by (rule nth_equalityI) (auto simp: case_prod_beta)
  have e: "detokenize decode ms d = emit_loop ?xs (fst (collect ms d))"
    unfolding detokenize_def Let_def zip [symmetric] by (simp add: case_prod_beta)
  have "\<exists>d'. emit_loop ?xs (fst (collect ms d)) = Inr (d', map (\<lambda>(m, r, q). snd (sent_piece m r q (?st m))) ?xs) \<and>
    dk_eos d' = dk_eos (fst (collect ms d)) \<and>
    (\<forall>(m, r, q) \<in> set ?xs. dk_map d' (dm_uid m) = fst (sent_piece m r q (?st m))) \<and>
    (\<forall>u. u \<notin> (\<lambda>x. dm_uid (fst x)) ` set ?xs \<longrightarrow> dk_map d' u = dk_map (fst (collect ms d)) u)"
    by (rule emit_loop_pieces) (use d c(3) in \<open>auto simp: comp_def\<close>)
  then obtain d' where d': "emit_loop ?xs (fst (collect ms d)) = Inr (d', map (\<lambda>(m, r, q). snd (sent_piece m r q (?st m))) ?xs)"
    "dk_eos d' = dk_eos (fst (collect ms d))"
    "\<forall>(m, r, q) \<in> set ?xs. dk_map d' (dm_uid m) = fst (sent_piece m r q (?st m))"
    "\<forall>u. u \<notin> (\<lambda>x. dm_uid (fst x)) ` set ?xs \<longrightarrow> dk_map d' u = dk_map (fst (collect ms d)) u"
    by blast
  have one: "detok_one decode (dk_eos d) m (dk_map d (dm_uid m)) =
      sent_piece m (decode (fst (windows (?st m)))) (decode (snd (windows (?st m)))) (?st m)" for m
    by (simp add: detok_one_def Let_def case_prod_beta)
  show ?thesis
  proof (rule that [of d'])
    show "detokenize decode ms d = Inr (d', map (\<lambda>m. snd (detok_one decode (dk_eos d) m (dk_map d (dm_uid m)))) ms)"
      unfolding e d'(1) one by (simp add: comp_def)
    show "dk_eos d' = dk_eos d" using d'(2) c(2) by simp
    show "dk_map d' (dm_uid m) = fst (detok_one decode (dk_eos d) m (dk_map d (dm_uid m)))" if "m \<in> set ms" for m
      unfolding one using d'(3) that by auto
    show "dk_map d' u = dk_map d u" if "u \<notin> dm_uid ` set ms" for u
      using d'(4) c(4) that by (auto simp: image_image)
  qed
qed

lemma filter_uid:
  assumes "distinct (map dm_uid ms)"
  shows "filter (\<lambda>m. dm_uid m = u) ms = [] \<and> u \<notin> dm_uid ` set ms \<or>
    (\<exists>m. filter (\<lambda>m. dm_uid m = u) ms = [m] \<and> m \<in> set ms \<and> dm_uid m = u)"
  using assms by (induction ms) (auto simp: filter_empty_conv)

lemma piece_of_map: "piece_of u ms (map f ms) = concat (map f (filter (\<lambda>m. dm_uid m = u) ms))"
  by (induction ms) (auto simp: piece_of_def)

lemma one_run_append:
  "one_run decode eos (xs @ ys) so =
     (let (so1, p) = one_run decode eos xs so; (so2, q) = one_run decode eos ys so1 in (so2, p @ q))"
  by (induction xs arbitrary: so) (auto simp: Let_def split: prod.splits)

text \<open>A run of batches, seen from one request, is the run of the messages of that request.\<close>

lemma detok_run_one:
  assumes "\<forall>b \<in> set bs. distinct (map dm_uid b)"
  shows "\<exists>d' outs. detok_run decode bs d = Inr (d', outs) \<and> length outs = length bs \<and>
    (\<forall>u. one_run decode (dk_eos d) (msgs_of u bs) (dk_map d u) = (dk_map d' u, pieces u bs outs))"
  using assms
proof (induction bs arbitrary: d)
  case (Cons b bs)
  let ?f = "\<lambda>m. detok_one decode (dk_eos d) m (dk_map d (dm_uid m))"
  have "distinct (map dm_uid b)" using Cons.prems by simp
  then obtain d1 where d1: "detokenize decode b d = Inr (d1, map (\<lambda>m. snd (?f m)) b)" "dk_eos d1 = dk_eos d"
    "\<And>m. m \<in> set b \<Longrightarrow> dk_map d1 (dm_uid m) = fst (?f m)" "\<And>u. u \<notin> dm_uid ` set b \<Longrightarrow> dk_map d1 u = dk_map d u"
    by (rule detokenize_batch [where decode = decode and d = d]) blast
  obtain d' outs where r: "detok_run decode bs d1 = Inr (d', outs)" "length outs = length bs"
    "\<And>u. one_run decode (dk_eos d1) (msgs_of u bs) (dk_map d1 u) = (dk_map d' u, pieces u bs outs)"
    using Cons.IH [of d1] Cons.prems by auto
  have one: "one_run decode (dk_eos d) (filter (\<lambda>m. dm_uid m = u) b) (dk_map d u) =
      (dk_map d1 u, piece_of u b (map (\<lambda>m. snd (?f m)) b))" for u
    using filter_uid [OF \<open>distinct (map dm_uid b)\<close>, of u]
  proof
    assume "filter (\<lambda>m. dm_uid m = u) b = [] \<and> u \<notin> dm_uid ` set b"
    then show ?thesis using d1(4) by (simp add: piece_of_map)
  next
    assume "\<exists>m. filter (\<lambda>m. dm_uid m = u) b = [m] \<and> m \<in> set b \<and> dm_uid m = u"
    then obtain m where m: "filter (\<lambda>m. dm_uid m = u) b = [m]" "m \<in> set b" "dm_uid m = u" by blast
    then show ?thesis using d1(3) [OF m(2)] by (simp add: piece_of_map Let_def split: prod.splits)
  qed
  have "msgs_of u (b # bs) = filter (\<lambda>m. dm_uid m = u) b @ msgs_of u bs" for u by (simp add: msgs_of_def)
  then have "one_run decode (dk_eos d) (msgs_of u (b # bs)) (dk_map d u) =
      (dk_map d' u, piece_of u b (map (\<lambda>m. snd (?f m)) b) @ pieces u bs outs)" for u
    using one [of u] r(3) [of u] d1(2) by (simp add: one_run_append)
  then show ?case using d1(1) r(1,2) by (auto simp: pieces_def)
qed (simp add: msgs_of_def pieces_def)


section \<open>The text of a stream\<close>

text \<open>
  The laws of a decoder: the empty list decodes to the empty text; once a text does not end in
  the replacement character (no character is incomplete), decoding further tokens only appends,
  and what they append can be read off a window, if the window added some text; and whatever is
  before the trailing replacement characters never changes again.
\<close>

definition settled :: "codes \<Rightarrow> bool" where
  "settled t \<longleftrightarrow> t = [] \<or> last t \<noteq> 0xFFFD"

definition strip_repl :: "codes \<Rightarrow> codes" where
  "strip_repl t = rev (dropWhile (\<lambda>c. c = 0xFFFD) (rev t))"

definition decoder_ok :: "(int list \<Rightarrow> codes) \<Rightarrow> bool" where
  "decoder_ok decode \<longleftrightarrow> decode [] = [] \<and>
     (\<forall>a s b. settled (decode (a @ s)) \<and> (a = [] \<or> length (decode a) < length (decode (a @ s))) \<longrightarrow>
        decode (a @ s @ b) = decode (a @ s) @ drop (length (decode s)) (decode (s @ b))) \<and>
     (\<forall>x y. prefix (strip_repl (decode x)) (decode (x @ y)))"

lemma strip_repl_prefix: "prefix (strip_repl t) t"
  unfolding strip_repl_def by (metis suffix_dropWhile suffix_to_prefix rev_rev_ident)

lemma strip_repl_settled: "settled t \<Longrightarrow> strip_repl t = t"
  by (cases t rule: rev_cases) (auto simp: settled_def strip_repl_def)

lemma settled_strip_repl: "settled (strip_repl t)"
  unfolding settled_def strip_repl_def
  by (metis (mono_tags, lifting) hd_dropWhile last_rev rev_is_Nil_conv)

lemma prefix_strip_repl:
  assumes "prefix p t" and "settled p"
  shows "prefix p (strip_repl t)"
proof -
  obtain q where t: "t = p @ q" using assms(1) by (auto simp: prefix_def)
  have "strip_repl (p @ q) = (if \<forall>c \<in> set q. c = 0xFFFD then strip_repl p else p @ strip_repl q)"
    by (auto simp: strip_repl_def dropWhile_append)
  then show ?thesis using strip_repl_settled [OF assms(2)] by (simp add: t split: if_splits)
qed

lemma printable_prefix: "prefix (find_printable_text t) t"
  by (auto simp: find_printable_text_def upto_last_space_def intro: prefixI dest: sym)
    (metis append_butlast_last_id append_take_drop_id butlast_conv_take prefixI take_is_prefix
      rev_rev_ident suffix_dropWhile suffix_to_prefix)+

lemma printable_settled:
  assumes "t = [] \<or> last t = 0xFFFD"
  shows "settled (find_printable_text t)"
proof -
  have u: "settled (upto_last_space t)"
    unfolding settled_def upto_last_space_def
    by (metis (mono_tags, lifting) hd_dropWhile last_rev numeral_eq_iff rev_is_Nil_conv semiring_norm(88))
  have b: "settled (butlast t)" if "length t > 1" "is_chinese_char (t ! (length t - 2))"
  proof -
    have "last (butlast t) = t ! (length t - 2)"
      using that(1) by (cases t rule: rev_cases) (auto simp: last_conv_nth nth_append)
    then show ?thesis using that(2) by (auto simp: settled_def is_chinese_char_def)
  qed
  have n: "\<not> is_chinese_char 0xFFFD" by (simp add: is_chinese_char_def)
  show ?thesis
  proof (cases "t = []")
    case True
    then show ?thesis by (simp add: settled_def find_printable_text_def upto_last_space_def)
  next
    case False
    then have l: "last t = 0xFFFD" using assms by simp
    show ?thesis unfolding find_printable_text_def using l n u b by simp
  qed
qed

lemma settled_append: "settled x \<Longrightarrow> settled y \<Longrightarrow> settled (x @ y)"
  by (cases y rule: rev_cases) (simp_all add: settled_def)

text \<open>The state of a request after its tokens so far, of which the text \<open>e\<close> has been sent.\<close>

definition stream_ok :: "(int list \<Rightarrow> codes) \<Rightarrow> decode_status \<Rightarrow> codes \<Rightarrow> bool" where
  "stream_ok decode s e \<longleftrightarrow> ds_surr s \<le> ds_read s \<and> ds_read s \<le> length (ds_ids s) \<and>
     ds_str s = decode (take (ds_read s) (ds_ids s)) \<and> settled (ds_str s) \<and>
     (ds_surr s = 0 \<or> length (decode (take (ds_surr s) (ds_ids s))) < length (ds_str s)) \<and>
     length e = ds_sent s \<and> prefix e (strip_repl (decode (ds_ids s)))"

lemma fresh_ok: "decoder_ok decode \<Longrightarrow> stream_ok decode fresh_status []"
  by (simp add: stream_ok_def fresh_status_def decoder_ok_def settled_def)

lemma stream_ok_grow:
  assumes D: "decoder_ok decode" and ok: "stream_ok decode s e"
  shows "stream_ok decode (s\<lparr>ds_ids := ds_ids s @ xs\<rparr>) e"
proof -
  have "prefix (strip_repl (decode (ds_ids s))) (decode (ds_ids s @ xs))"
    using D by (simp add: decoder_ok_def)
  then have "prefix (strip_repl (decode (ds_ids s))) (strip_repl (decode (ds_ids s @ xs)))"
    by (rule prefix_strip_repl) (rule settled_strip_repl)
  then have "prefix e (strip_repl (decode (ds_ids s @ xs)))"
    using ok by (auto simp: stream_ok_def intro: prefix_order.trans)
  then show ?thesis using ok by (auto simp: stream_ok_def)
qed

lemma advance_ok:
  assumes D: "decoder_ok decode" and ok: "stream_ok decode s e"
    and a: "advance (decode (fst (windows s))) (decode (snd (windows s))) s = (s1, out)"
  shows "stream_ok decode s1 e" "ds_sent s1 = ds_sent s" "ds_ids s1 = ds_ids s"
    "prefix out (strip_repl (decode (ds_ids s)))" "settled (decode (ds_ids s)) \<Longrightarrow> out = decode (ds_ids s)"
proof -
  let ?a = "take (ds_surr s) (ds_ids s)" and ?q = "snd (windows s)" and ?b = "drop (ds_read s) (ds_ids s)"
  let ?T = "decode (ds_ids s)"
  define new where "new = drop (length (decode ?q)) (decode (fst (windows s)))"
  have le: "ds_surr s \<le> ds_read s" "ds_read s \<le> length (ds_ids s)" using ok by (simp_all add: stream_ok_def)
  have aq: "?a @ ?q = take (ds_read s) (ds_ids s)"
    unfolding windows_def snd_conv using le(1) by (metis append_take_drop_id le_add_diff_inverse take_add)
  have qb: "?q @ ?b = fst (windows s)"
    unfolding windows_def fst_conv snd_conv
    by (metis (no_types, lifting) append_take_drop_id drop_drop le(1) le_add_diff_inverse2 add.commute)
  have ids: "?a @ ?q @ ?b = ds_ids s" by (metis append_assoc append_take_drop_id aq)
  have st: "ds_str s = decode (?a @ ?q)" "settled (decode (?a @ ?q))"
    "?a = [] \<or> length (decode ?a) < length (decode (?a @ ?q))"
    using ok unfolding aq by (auto simp: stream_ok_def)
  have "decode (?a @ ?q @ ?b) = decode (?a @ ?q) @ drop (length (decode ?q)) (decode (?q @ ?b))"
    using D st(2,3) unfolding decoder_ok_def by blast
  then have T: "?T = ds_str s @ new" unfolding ids unfolding qb st(1) new_def .
  consider (grow) "new \<noteq> []" "last new \<noteq> 0xFFFD" | (wait) "new = [] \<or> last new = 0xFFFD" by blast
  then have "stream_ok decode s1 e \<and> ds_sent s1 = ds_sent s \<and> ds_ids s1 = ds_ids s \<and>
      prefix out (strip_repl ?T) \<and> (settled ?T \<longrightarrow> out = ?T)"
  proof cases
    case grow
    then have s1: "s1 = s\<lparr>ds_str := ds_str s @ new, ds_surr := ds_read s, ds_read := length (ds_ids s)\<rparr>" "out = ds_str s @ new"
      using a by (auto simp: advance_def Let_def new_def)
    have "settled ?T" using grow by (simp add: T settled_def)
    moreover have "stream_ok decode s1 e"
      using ok grow(1) le(2) \<open>settled ?T\<close> T by (auto simp: stream_ok_def s1)
    ultimately show ?thesis using s1 T strip_repl_settled [of ?T] by simp
  next
    case wait
    then have s1: "s1 = s" "out = ds_str s @ find_printable_text new"
      using a by (auto simp: advance_def Let_def new_def)
    have "prefix out ?T" unfolding T s1 using printable_prefix by simp
    moreover have "settled out"
      unfolding s1 st(1) by (rule settled_append [OF st(2) printable_settled [OF wait]])
    ultimately have "prefix out (strip_repl ?T)" by (rule prefix_strip_repl)
    moreover have "out = ?T" if "settled ?T"
    proof -
      have "new = []" using that wait by (cases "new = []") (auto simp: T settled_def)
      then show ?thesis by (simp add: s1 T find_printable_text_def upto_last_space_def)
    qed
    ultimately show ?thesis using ok s1 by simp
  qed
  then show "stream_ok decode s1 e" "ds_sent s1 = ds_sent s" "ds_ids s1 = ds_ids s"
    "prefix out (strip_repl ?T)" "settled ?T \<Longrightarrow> out = ?T" by blast+
qed

text \<open>A slice appended to what was sent is again what was sent.\<close>

lemma slice_sent:
  assumes "prefix e t" and "prefix out t" and "n \<le> length out"
  shows "e @ (if n > length e then take (n - length e) (drop (length e) out) else []) = take (max (length e) n) t"
proof -
  have e: "e = take (length e) t" "out = take (length out) t" using assms(1,2) by (metis prefix_def append_eq_conv_conj)+
  show ?thesis
  proof (cases "n > length e")
    case True
    have "take (length e) t @ take (n - length e) (drop (length e) (take (length out) t)) = take n t"
      using True assms(3) by (simp add: drop_take min_absorb1 flip: take_add)
    then show ?thesis using True e by (metis max.absorb4)
  next
    case False
    then show ?thesis using e by (simp add: max_absorb1)
  qed
qed

text \<open>The end of what may be sent never passes the start of a stop string that is still to come.\<close>

lemma emit_end_hold:
  assumes fin: "\<not> dm_finished m" and stop: "x \<in> set (dm_stop_strs m)" and F: "prefix out F" "str_find F x = Some k"
    and t: "prefix out t" "str_find t x = None"
  shows "emit_end m out \<le> k"
proof (cases "length out \<le> k")
  case True
  then show ?thesis using fin by (auto simp: emit_end_def)
next
  case False
  have x: "prefix x (drop k F)" using str_find_spec(1) [OF F(2)] by blast
  have dk: "prefix (drop k out) (drop k F)" "prefix (drop k out) (drop k t)"
    using F(1) t(1) False by (auto simp: prefix_def)
  have "x \<noteq> []" using t(2) by (cases t) auto
  then have "\<not> prefix x (drop k t)" using str_find_spec(2) [OF t(2), of k] by blast
  then have "\<not> prefix x (drop k out)" using dk(2) by (meson prefix_order.trans)
  then have p: "prefix (drop k out) x" using x dk(1) by (meson prefix_same_cases)
  then have "drop k out = take (length out - k) x" by (metis append_eq_conv_conj length_drop prefix_def)
  moreover have "length out - k < length x"
    using p \<open>\<not> prefix x (drop k out)\<close> by (metis length_drop not_equal_is_parallel prefix_length_le prefix_order.refl nat_less_le parallelD1 prefix_def append_eq_conv_conj take_all_iff order_refl)
  moreover have "suffix (drop k out) out" by (rule suffix_drop)
  ultimately have "length out - k \<le> stop_prefix_holdback out (dm_stop_strs m)"
    using holdback_maximal [OF stop] by simp
  then show ?thesis using fin stop by (auto simp: emit_end_def)
qed

definition opt_ok :: "(int list \<Rightarrow> codes) \<Rightarrow> decode_status option \<Rightarrow> int list \<Rightarrow> codes \<Rightarrow> bool" where
  "opt_ok decode so ids e \<longleftrightarrow> (case so of None \<Rightarrow> ids = [] \<and> e = [] | Some s \<Rightarrow> stream_ok decode s e \<and> ds_ids s = ids)"

lemma emit_end_le: "emit_end m out \<le> length out"
  using str_find_spec(1) [of out "dm_matched_stop m"] by (auto simp: emit_end_def split: option.splits)

lemma detok_one_ok:
  assumes D: "decoder_ok decode" and ok: "opt_ok decode so ids e"
    and ids': "ids' = (if dm_finished m \<and> dm_token m \<in> set eos then ids else ids @ [dm_token m])"
  obtains so' p out where "detok_one decode eos m so = (so', p)"
    "e @ p = take (max (length e) (emit_end m out)) (strip_repl (decode ids'))"
    "prefix out (strip_repl (decode ids'))" "settled (decode ids') \<Longrightarrow> out = decode ids'"
    "dm_finished m \<Longrightarrow> so' = None" "\<not> dm_finished m \<Longrightarrow> opt_ok decode so' ids' (e @ p)"
proof -
  define s where "s = taken eos m so"
  have ok0: "stream_ok decode (case so of Some s \<Rightarrow> s | None \<Rightarrow> fresh_status) e"
    "ds_ids (case so of Some s \<Rightarrow> s | None \<Rightarrow> fresh_status) = ids"
    using ok fresh_ok [OF D] by (auto simp: opt_ok_def fresh_status_def split: option.splits)
  have s: "stream_ok decode s e" "ds_ids s = ids'"
    using ok0 stream_ok_grow [OF D ok0(1), of "[dm_token m]"] unfolding s_def taken_def Let_def ids' by auto
  obtain s1 out where a: "advance (decode (fst (windows s))) (decode (snd (windows s))) s = (s1, out)"
    by (metis prod.collapse)
  note f = advance_ok [OF D s(1) a]
  let ?n = "emit_end m out" and ?T = "strip_repl (decode ids')"
  define p where "p = (if ?n > length e then take (?n - length e) (drop (length e) out) else [])"
  have le: "length e = ds_sent s1" using s(1) f(2) by (simp add: stream_ok_def)
  have pre: "prefix e ?T" "prefix out ?T" using f(1,3,4) s(2) by (auto simp: stream_ok_def)
  have ep: "e @ p = take (max (length e) ?n) ?T"
    unfolding p_def by (rule slice_sent [OF pre emit_end_le])
  have one: "detok_one decode eos m so = (if dm_finished m then None else Some (s1\<lparr>ds_sent := max (ds_sent s1) ?n\<rparr>), p)"
    using a by (simp add: detok_one_def s_def [symmetric] sent_piece_def Let_def case_prod_beta p_def le)
  have "length (e @ p) = max (length e) ?n"
    unfolding ep using pre emit_end_le [of m out]
    by (auto simp: min_def dest!: prefix_length_le)
  then have "stream_ok decode (s1\<lparr>ds_sent := max (ds_sent s1) ?n\<rparr>) (e @ p)"
    using f(1) le f(3) s(2) ep take_is_prefix [of "max (length e) ?n" ?T] by (auto simp: stream_ok_def)
  then have "opt_ok decode (if dm_finished m then None else Some (s1\<lparr>ds_sent := max (ds_sent s1) ?n\<rparr>)) ids' (e @ p)"
    if "\<not> dm_finished m" using that f(3) s(2) by (simp add: opt_ok_def)
  then show ?thesis
    using that [OF one ep pre(2)] f(5) s(2) by auto
qed

lemma one_run_ok:
  assumes D: "decoder_ok decode" and ok: "opt_ok decode so ids e" and fin: "\<forall>m \<in> set ms. \<not> dm_finished m"
  obtains so' p where "one_run decode eos ms so = (so', p)" "opt_ok decode so' (ids @ map dm_token ms) (e @ p)"
    "\<And>x F k. prefix (strip_repl (decode (ids @ map dm_token ms))) F \<Longrightarrow> str_find F x = Some k \<Longrightarrow>
       \<forall>m \<in> set ms. x \<in> set (dm_stop_strs m) \<Longrightarrow>
       \<forall>j \<le> length ms. str_find (decode (ids @ take j (map dm_token ms))) x = None \<Longrightarrow>
       length e \<le> k \<Longrightarrow> length (e @ p) \<le> k"
  using ok fin
proof (induction ms arbitrary: so ids e thesis)
  case Nil
  then show ?case by simp
next
  case (Cons m ms)
  let ?ids = "ids @ [dm_token m]"
  have m: "\<not> dm_finished m" using Cons.prems(3) by simp
  have ids': "?ids = (if dm_finished m \<and> dm_token m \<in> set eos then ids else ids @ [dm_token m])" using m by simp
  obtain so1 p1 out where one: "detok_one decode eos m so = (so1, p1)"
    "e @ p1 = take (max (length e) (emit_end m out)) (strip_repl (decode ?ids))"
    "prefix out (strip_repl (decode ?ids))" "opt_ok decode so1 ?ids (e @ p1)"
    by (rule detok_one_ok [OF D Cons.prems(2) ids']) (use m in blast)
  have fin: "\<forall>m \<in> set ms. \<not> dm_finished m" using Cons.prems(3) by simp
  obtain so2 p2 where r: "one_run decode eos ms so1 = (so2, p2)"
    "opt_ok decode so2 (?ids @ map dm_token ms) ((e @ p1) @ p2)"
    "\<And>x F k. prefix (strip_repl (decode (?ids @ map dm_token ms))) F \<Longrightarrow> str_find F x = Some k \<Longrightarrow>
       \<forall>m \<in> set ms. x \<in> set (dm_stop_strs m) \<Longrightarrow>
       \<forall>j \<le> length ms. str_find (decode (?ids @ take j (map dm_token ms))) x = None \<Longrightarrow>
       length (e @ p1) \<le> k \<Longrightarrow> length ((e @ p1) @ p2) \<le> k"
    by (rule Cons.IH [OF _ one(4) fin]) blast
  show ?case
  proof (rule Cons.prems(1))
    show "one_run decode eos (m # ms) so = (so2, p1 @ p2)" using one(1) r(1) by simp
    show "opt_ok decode so2 (ids @ map dm_token (m # ms)) (e @ p1 @ p2)" using r(2) by simp
    fix x F k
    assume h: "prefix (strip_repl (decode (ids @ map dm_token (m # ms)))) F" "str_find F x = Some k"
      "\<forall>m \<in> set (m # ms). x \<in> set (dm_stop_strs m)"
      "\<forall>j \<le> length (m # ms). str_find (decode (ids @ take j (map dm_token (m # ms)))) x = None" "length e \<le> k"
    have pF: "prefix (strip_repl (decode (?ids @ map dm_token ms))) F" using h(1) by simp
    have st: "prefix (strip_repl (decode ?ids)) (decode (?ids @ map dm_token ms))"
      using D unfolding decoder_ok_def by blast
    have "prefix (strip_repl (decode ?ids)) (strip_repl (decode (?ids @ map dm_token ms)))"
      by (rule prefix_strip_repl [OF st settled_strip_repl])
    then have oF: "prefix out F" using one(3) pF by (meson prefix_order.trans)
    have ot: "prefix out (decode ?ids)" using one(3) strip_repl_prefix by (meson prefix_order.trans)
    have no: "str_find (decode ?ids) x = None" using h(4) [rule_format, of 1] by simp
    have "emit_end m out \<le> k" by (rule emit_end_hold [OF m _ oF h(2) ot no]) (use h(3) in simp)
    then have l1: "length (e @ p1) \<le> k" unfolding one(2) using h(5) by simp
    have no': "\<forall>j \<le> length ms. str_find (decode (?ids @ take j (map dm_token ms))) x = None"
    proof (intro allI impI)
      fix j assume "j \<le> length ms"
      then show "str_find (decode (?ids @ take j (map dm_token ms))) x = None" using h(4) [rule_format, of "Suc j"] by simp
    qed
    show "length (e @ p1 @ p2) \<le> k"
      using r(3) [OF pF h(2) _ no' l1] h(3) by simp
  qed
qed

section \<open>What the client reads\<close>

definition cut_at_stop :: "codes \<Rightarrow> codes \<Rightarrow> codes" where
  "cut_at_stop text stop =
     (if stop = [] then text else case str_find text stop of Some k \<Rightarrow> take k text | None \<Rightarrow> text)"

text \<open>C37: take a request whose decoder behaves as \<open>decoder_ok\<close> says, over any run of batches with at most one
  message per request and whatever else the batches hold, whose complete token list decodes to a text that does
  not end in a replacement character. When it ends by a stop string, let that string be among the stop strings
  of every earlier message and not occur in the text of any earlier prefix. Then the pieces its client receives
  add up to the decoded text of its tokens, cut before the matched stop string: under these conditions no
  character is lost, repeated or shown too early, and a stop string cut between tokens does not leak. At the end
  the decode state of the request is dropped.\<close>

theorem detok_stream_text:
  assumes "decoder_ok decode" and "\<forall>b \<in> set bs. distinct (map dm_uid b)" and "dk_map d u = None"
    and "msgs_of u bs = ms @ [m]" and "dm_finished m" and "\<forall>m \<in> set ms. \<not> dm_finished m"
    and "ids = map dm_token ms @ (if dm_token m \<in> set (dk_eos d) then [] else [dm_token m])"
    and "settled (decode ids)"
    and "dm_matched_stop m \<noteq> [] \<Longrightarrow> \<forall>n \<in> set ms. dm_matched_stop m \<in> set (dm_stop_strs n)"
    and "dm_matched_stop m \<noteq> [] \<Longrightarrow>
      \<forall>j \<le> length ms. str_find (decode (take j (map dm_token ms))) (dm_matched_stop m) = None"
  shows "\<exists>d' outs. detok_run decode bs d = Inr (d', outs) \<and>
    pieces u bs outs = cut_at_stop (decode ids) (dm_matched_stop m) \<and> dk_map d' u = None"
proof -
  note D = assms(1)
  let ?toks = "map dm_token ms" and ?x = "dm_matched_stop m"
  obtain d' outs where r: "detok_run decode bs d = Inr (d', outs)"
    "\<And>u. one_run decode (dk_eos d) (msgs_of u bs) (dk_map d u) = (dk_map d' u, pieces u bs outs)"
    using detok_run_one [OF assms(2), of decode d] by blast
  have z: "opt_ok decode None [] []" by (simp add: opt_ok_def)
  obtain so p where a: "one_run decode (dk_eos d) ms None = (so, p)" "opt_ok decode so ?toks p"
    "\<And>x F k. prefix (strip_repl (decode ?toks)) F \<Longrightarrow> str_find F x = Some k \<Longrightarrow>
       \<forall>m \<in> set ms. x \<in> set (dm_stop_strs m) \<Longrightarrow>
       \<forall>j \<le> length ms. str_find (decode (take j ?toks)) x = None \<Longrightarrow> length p \<le> k"
    by (rule one_run_ok [OF D z assms(6), where eos = "dk_eos d"]) simp
  have ids': "ids = (if dm_finished m \<and> dm_token m \<in> set (dk_eos d) then ?toks else ?toks @ [dm_token m])"
    using assms(5,7) by simp
  obtain so' q out where b: "detok_one decode (dk_eos d) m so = (so', q)"
    "p @ q = take (max (length p) (emit_end m out)) (strip_repl (decode ids))" "out = decode ids" "so' = None"
    by (rule detok_one_ok [OF D a(2) ids']) (use assms(5,8) in blast)
  have T: "strip_repl (decode ids) = decode ids" by (rule strip_repl_settled [OF assms(8)])
  have run: "dk_map d' u = None" "pieces u bs outs = p @ q"
    using r(2) [of u] a(1) b(1,4) unfolding assms(3,4) by (simp_all add: one_run_append)
  have "p @ q = cut_at_stop (decode ids) ?x"
  proof (cases "?x = [] \<or> str_find (decode ids) ?x = None")
    case True
    then have "emit_end m out = length (decode ids)" using assms(5) b(3) by (auto simp: emit_end_def)
    then show ?thesis using True b(2) unfolding T by (auto simp: cut_at_stop_def)
  next
    case False
    then obtain k where k: "str_find (decode ids) ?x = Some k" "?x \<noteq> []" by blast
    have "prefix (strip_repl (decode ?toks)) (decode (?toks @ (if dm_token m \<in> set (dk_eos d) then [] else [dm_token m])))"
      using D unfolding decoder_ok_def by blast
    then have "prefix (strip_repl (decode ?toks)) (decode ids)" using assms(7) by simp
    then have "length p \<le> k" by (rule a(3) [OF _ k(1) assms(9) [OF k(2)] assms(10) [OF k(2)]])
    moreover have "emit_end m out = k" using assms(5) k b(3) by (simp add: emit_end_def)
    ultimately show ?thesis using b(2) k unfolding T by (simp add: cut_at_stop_def max_absorb2)
  qed
  then show ?thesis using r(1) run by auto
qed

definition demo_msg :: "uid \<Rightarrow> int \<Rightarrow> bool \<Rightarrow> codes \<Rightarrow> detok_msg" where
  "demo_msg u t fin stop =
     \<lparr>dm_uid = u, dm_token = t, dm_finished = fin, dm_matched_stop = stop, dm_stop_strs = [[35, 33]]\<rparr>"

definition demo_batches :: "detok_msg list list" where
  "demo_batches = [[demo_msg 1 72 False [], demo_msg 2 79 False []], [demo_msg 1 35 False []],
     [demo_msg 2 75 False [], demo_msg 1 33 True [35, 33]]]"

lemma demo_decoder: "decoder_ok (map nat)"
  unfolding decoder_ok_def using prefix_order.trans [OF strip_repl_prefix] by (auto intro: prefixI)

theorem detok_stream_text_witness:
  "\<exists>d' outs. detok_run (map nat) demo_batches \<lparr>dk_map = (\<lambda>_. None), dk_eos = [0]\<rparr> = Inr (d', outs) \<and>
     pieces 1 demo_batches outs = [72] \<and> dk_map d' 1 = None"
proof -
  let ?ms = "[demo_msg 1 72 False [], demo_msg 1 35 False []]"
  have m: "msgs_of 1 demo_batches = ?ms @ [demo_msg 1 33 True [35, 33]]"
    by (simp add: msgs_of_def demo_batches_def demo_msg_def)
  have c: "cut_at_stop (map nat [72, 35, 33]) [35, 33] = [72]" by (simp add: cut_at_stop_def)
  have "\<exists>d' outs. detok_run (map nat) demo_batches \<lparr>dk_map = (\<lambda>_. None), dk_eos = [0]\<rparr> = Inr (d', outs) \<and>
     pieces 1 demo_batches outs = cut_at_stop (map nat [72, 35, 33]) (dm_matched_stop (demo_msg 1 33 True [35, 33])) \<and>
     dk_map d' 1 = None"
    by (rule detok_stream_text [OF demo_decoder _ _ m])
      (auto simp: demo_batches_def demo_msg_def settled_def take_Cons' le_Suc_eq)
  then show ?thesis using c by (simp add: demo_msg_def)
qed

text \<open>
  Without the condition on the end of the text a word can be lost: the last message of a request whose text ends in
  an incomplete character goes through \<open>find_printable_text\<close>, which keeps only whole words, so "hi" is not sent.
\<close>

lemma detok_drops_last_word:
  "detokenize (\<lambda>is. if is = [] then [] else [104, 105, 0xFFFD]) [demo_msg 1 7 True []] \<lparr>dk_map = (\<lambda>_. None), dk_eos = [0]\<rparr>
     = Inr (\<lparr>dk_map = (\<lambda>_. None), dk_eos = [0]\<rparr>, [[]])"
  by (simp add: detokenize_def collect_step_def fresh_status_def demo_msg_def emit_step_def advance_def Let_def and_then_def
      find_printable_text_def is_chinese_char_def upto_last_space_def emit_end_def fun_upd_def fun_eq_iff)

end
