(* ===== verification/Dual_Tree.thy ===== *)
theory Dual_Tree
  imports Radix_Grow
begin

text \<open>
  Facts the hybrid and the sliding-window cache share: pruning an unlocked leaf, changes of fields
  outside the shape of a node, and sums over the live nodes of what a node carries besides its
  tokens (a snapshot, a window flag).
\<close>

section \<open>Unlocked leaves\<close>

definition free_leaves :: "'a rtree_scheme \<Rightarrow> nid set" where
  "free_leaves t = {n \<in> live t. n \<noteq> root t \<and> is_leaf t n \<and> n_ref (heap t n) = 0}"

lemma free_leafD:
  assumes "n \<in> free_leaves t"
  shows "n \<in> live t" "n \<noteq> root t" "is_leaf t n" "n_ref (heap t n) = 0"
  using assms by (auto simp: free_leaves_def)

lemma free_leaf_parent:
  assumes wf: "tree_wf t" and n: "n \<in> free_leaves t"
  obtains p where "n_parent (heap t n) = Some p" "p \<in> live t" "\<not> is_leaf t p" "p \<noteq> n" "\<not> is_root t n"
proof -
  note d = free_leafD [OF n]
  from inv_node [OF wfD [OF wf] d(1,2)] obtain p where p: "p \<in> live t" "n_parent (heap t n) = Some p"
    "(key_fn (psize t) (n_key (heap t n)), n) \<in> set (n_children (heap t p))" by metis
  have "\<not> is_leaf t p" using p(3) by (auto simp: is_leaf_def)
  then show ?thesis using that [OF p(2,1)] d p(2) by (auto simp: is_root_def)
qed

text \<open>What one unlinked leaf changes.\<close>

lemma prune_leaf:
  assumes wf: "tree_wf t" and L: "lock_inv t e q" and r: "0 < n_ref (heap t (root t))"
    and n: "n \<in> free_leaves t" and p: "n_parent (heap t n) = Some p"
  defines "u \<equiv> unlink_result n p t"
  shows "unlink n t = Inr (u, p)" "tree_wf u" "lock_inv u (e - int (node_len t n)) q"
    "live u = live t - {n}" "root u = root t" "psize u = psize t" "counter u = counter t" "same_ext t u"
    "owned t = mset (n_value (heap t n)) + owned u"
    "m \<in> live t \<Longrightarrow> m \<noteq> n \<Longrightarrow> direct u m = direct t m \<and> toks u m = toks t m \<and> vals u m = vals t m"
    "\<exists>ks. heap u m = (heap t m)\<lparr>n_children := ks\<rparr>"
    "free_leaves u = free_leaves t - {n} \<union> (if is_leaf u p \<and> n_ref (heap u p) = 0 \<and> \<not> is_root u p then {p} else {})"
    "p \<notin> free_leaves t" "p \<in> live u" "cached u ts vs \<Longrightarrow> cached t ts vs"
    "length (n_value (heap t n)) = node_len t n" "0 < node_len t n"
proof -
  note d = free_leafD [OF n]
  from free_leaf_parent [OF wf n] p have pl: "p \<in> live t" "\<not> is_leaf t p" "p \<noteq> n" by (metis option.inject)+
  note w = wf_unlink [OF wf d(1) p d(3)] and li = lock_inv_unlink [OF wf d(1) p d(3,4) L]
  show "unlink n t = Inr (u, p)" unfolding u_def by (rule unlink_eq [OF wfD [OF wf] d(1) p])
  show wu: "tree_wf u" and "lock_inv u (e - int (node_len t n)) q" and lv: "live u = live t - {n}"
    unfolding u_def by (rule w(1), rule li(1), rule w(2))
  show rt: "root u = root t" "psize u = psize t" "counter u = counter t"
    unfolding u_def by (simp_all add: unlink_result_simps)
  show "same_ext t u" unfolding u_def by (rule same_ext_simps)
  show "owned t = mset (n_value (heap t n)) + owned u" unfolding u_def by (rule owned_unlink [OF wf d(1) p d(3)])
  show "direct u m = direct t m \<and> toks u m = toks t m \<and> vals u m = vals t m" if "m \<in> live t" "m \<noteq> n"
    unfolding u_def using li(2) [OF that] w(3,4) [OF that] by simp
  show h: "\<exists>ks. heap u m = (heap t m)\<lparr>n_children := ks\<rparr>" for m
    unfolding u_def by (rule unlink_result_nodes)
  have hp: "heap u m = heap t m" if "m \<noteq> p" for m unfolding u_def using that by (simp add: unlink_result_other)
  show pn: "p \<notin> free_leaves t" using pl(2) by (auto simp: free_leaves_def)
  show pu: "p \<in> live u" unfolding lv using pl by simp
  have ir: "is_root u p \<longleftrightarrow> p = root t" using inv_is_root [OF wfD [OF wu] pu] rt by simp
  have ref: "n_ref (heap u m) = n_ref (heap t m)" for m using h [of m] by auto
  have "m \<in> free_leaves u \<longleftrightarrow> m \<in> free_leaves t - {n} \<union>
      (if is_leaf u p \<and> n_ref (heap u p) = 0 \<and> \<not> is_root u p then {p} else {})" for m
  proof (cases "m = p")
    case True
    then show ?thesis using pn pu ref [of p] ir rt by (auto simp: free_leaves_def)
  next
    case False
    then show ?thesis using hp [OF False] lv rt ref [of m] by (auto simp: free_leaves_def is_leaf_def)
  qed
  then show "free_leaves u = free_leaves t - {n} \<union> (if is_leaf u p \<and> n_ref (heap u p) = 0 \<and> \<not> is_root u p then {p} else {})"
    by blast
  show "cached t ts vs" if "cached u ts vs" using that w(5) unfolding u_def by simp
  show "length (n_value (heap t n)) = node_len t n" "0 < node_len t n"
    by (rule inv_len_value [OF wfD [OF wf] d(1,2)], rule inv_len_pos [OF wfD [OF wf] d(1,2)])
qed

section \<open>Changes outside the shape\<close>

definition same_tree :: "'a rtree_scheme \<Rightarrow> 'b rtree_scheme \<Rightarrow> bool" where
  "same_tree t t' \<longleftrightarrow> counter t' = counter t \<and> root t' = root t \<and> psize t' = psize t \<and>
     (\<forall>n. shape (heap t' n) = shape (heap t n) \<and> n_ref (heap t' n) = n_ref (heap t n))"

lemma same_tree:
  assumes s: "same_tree t t'" and wf: "tree_wf t"
  shows "tree_wf t'" "live t' = live t" "cached t' = cached t" "root t' = root t" "psize t' = psize t"
    "counter t' = counter t" "n \<in> live t \<Longrightarrow> toks t' n = toks t n" "n \<in> live t \<Longrightarrow> vals t' n = vals t n"
    "n \<in> live t \<Longrightarrow> anc t' n = anc t n" "n \<in> live t \<Longrightarrow> direct t' n = direct t n" "lock_inv t' e p = lock_inv t e p"
    "owned t' = owned t" "n_ref (heap t' n) = n_ref (heap t n)" "free_leaves t' = free_leaves t"
    "node_len t' n = node_len t n" "is_leaf t' n = is_leaf t n" "is_root t' n = is_root t n"
    "n_value (heap t' n) = n_value (heap t n)" "n_parent (heap t' n) = n_parent (heap t n)"
    "n_key (heap t' n) = n_key (heap t n)"
proof -
  have a: "counter t' = counter t" "root t' = root t" "psize t' = psize t"
    and h: "\<And>n. shape (heap t' n) = shape (heap t n)" "\<And>n. n_ref (heap t' n) = n_ref (heap t n)"
    using s by (auto simp: same_tree_def)
  note c = wf_cong [OF wf h(1) a] and l = lock_inv_cong [OF wf h a]
  show "tree_wf t'" "live t' = live t" "cached t' = cached t" "root t' = root t" "psize t' = psize t" "counter t' = counter t"
    "n \<in> live t \<Longrightarrow> toks t' n = toks t n" "n \<in> live t \<Longrightarrow> vals t' n = vals t n" "n \<in> live t \<Longrightarrow> anc t' n = anc t n"
    "n \<in> live t \<Longrightarrow> direct t' n = direct t n" "lock_inv t' e p = lock_inv t e p" "n_ref (heap t' n) = n_ref (heap t n)"
    using c l a h by auto
  have v: "n_value (heap t' n) = n_value (heap t n)" "n_key (heap t' n) = n_key (heap t n)"
    "n_children (heap t' n) = n_children (heap t n)" "n_parent (heap t' n) = n_parent (heap t n)" for n
    using h(1) [of n] by (simp_all add: shape_def)
  show "owned t' = owned t" unfolding owned_def using c(2) a v by (intro node_sum_cong) auto
  show "free_leaves t' = free_leaves t" unfolding free_leaves_def is_leaf_def using c(2) a h(2) v by auto
  show "node_len t' n = node_len t n" "is_leaf t' n = is_leaf t n" "is_root t' n = is_root t n"
    "n_value (heap t' n) = n_value (heap t n)" "n_parent (heap t' n) = n_parent (heap t n)"
    "n_key (heap t' n) = n_key (heap t n)"
    using v by (simp_all add: node_len_def is_leaf_def is_root_def)
qed

lemma same_tree_upd:
  assumes "\<And>nd. shape (f nd) = shape nd \<and> n_ref (f nd) = n_ref nd" and "same_tree t t'"
  shows "same_tree t (upd n f t')"
  using assms by (auto simp: same_tree_def heap_upd)

lemma same_tree_refl [simp]: "same_tree t t"
  by (simp add: same_tree_def)

lemma node_cached:
  assumes wf: "tree_wf t" and n: "n \<in> live t"
  shows "cached t (toks t n) (vals t n)"
  unfolding cached_def
  by (rule bexI [OF _ n]) (simp add: inv_P_dvd [OF wfD [OF wf] n] inv_len_PV [OF wfD [OF wf] n])

section \<open>What nodes carry\<close>

text \<open>The sum of a weight that is zero on the nodes a walk creates does not change.\<close>

lemma node_sum_more:
  assumes "finite (live t')" and "live t \<subseteq> live t'" and "root t' = root t"
    and "\<And>n. n \<in> live t \<Longrightarrow> w (heap t' n) = w (heap t n)"
    and "\<And>n. n \<in> live t' \<Longrightarrow> n \<notin> live t \<Longrightarrow> w (heap t' n) = 0"
  shows "node_sum t' w = node_sum t w"
proof -
  have "node_sum t' w = (\<Sum>n \<in> live t - {root t}. w (heap t' n))"
    unfolding node_sum_def using assms by (intro sum.mono_neutral_right) auto
  then show ?thesis unfolding node_sum_def using assms(4) by (auto intro: sum.cong)
qed

text \<open>One node changes what it carries.\<close>

lemma node_sum_one:
  assumes "finite (live t)" and "live t' = live t" and "root t' = root t" and "n \<in> live t" and "n \<noteq> root t"
    and "\<And>m. m \<noteq> n \<Longrightarrow> w (heap t' m) = w (heap t m)"
  shows "node_sum t' w + w (heap t n) = node_sum t w + w (heap t' n)"
proof -
  let ?S = "live t - {root t} - {n}"
  have n: "n \<in> live t - {root t}" using assms(4,5) by simp
  have a: "node_sum t' w = w (heap t' n) + (\<Sum>m \<in> ?S. w (heap t' m))"
    unfolding node_sum_def assms(2,3) using assms(1) n by (simp add: sum.remove)
  have b: "node_sum t w = w (heap t n) + (\<Sum>m \<in> ?S. w (heap t m))"
    unfolding node_sum_def using assms(1) n by (simp add: sum.remove)
  have "(\<Sum>m \<in> ?S. w (heap t' m)) = (\<Sum>m \<in> ?S. w (heap t m))" using assms(6) by (intro sum.cong) auto
  then show ?thesis unfolding a b by (simp add: ac_simps)
qed

lemma node_sum_count:
  assumes "tree_wf t" and "\<And>n. n \<in> live t \<Longrightarrow> n \<noteq> root t \<Longrightarrow> w (heap t n) = (if P n then 1 else 0 :: int)"
  shows "node_sum t w = int (card {n \<in> live t - {root t}. P n})"
proof -
  have "node_sum t w = (\<Sum>n \<in> live t - {root t}. if P n then 1 else 0)"
    unfolding node_sum_def using assms(2) by (intro sum.cong) auto
  also have "\<dots> = int (card {n \<in> live t - {root t}. P n})"
    using live_finite [OF assms(1)] by (simp add: sum.If_cases Int_def)
  finally show ?thesis .
qed

section \<open>The eviction heap\<close>

lemma heappop_in: "q \<noteq> [] \<Longrightarrow> heappop t q = (x, rest) \<Longrightarrow> x \<in> set q \<and> rest = remove1 x q"
  unfolding heappop_def Let_def using arg_min_list_in by fastforce

lemma live_le_counter: "tree_wf t \<Longrightarrow> card (live t) \<le> counter t"
  using card_mono [of "{..<counter t}" "live t"] wfD [of t] by (simp add: tree_inv_def)

end
