(* ===== verification/Hybrid_Contract.thy ===== *)
theory Hybrid_Contract
  imports Hybrid_Cache Dual_Tree
begin

text \<open>
  The contract of the hybrid cache: KV slots and state snapshots are conserved, the counters count
  them, a match is the deepest cached prefix that owns a snapshot, and what a held handle needs
  (its path and its snapshot) survives every operation. \<open>H\<close> is the multiset of the nodes of the
  handles in use.
\<close>

section \<open>Invariant\<close>

definition w_snap :: "rnode \<Rightarrow> slot multiset" where
  "w_snap nd = (case n_mamba nd of None \<Rightarrow> {#} | Some v \<Rightarrow> {#v#})"

definition w_mfree :: "rnode \<Rightarrow> int" where
  "w_mfree nd = (if n_mamba nd \<noteq> None \<and> n_mamba_ref nd = 0 then 1 else 0)"

definition w_mheld :: "rnode \<Rightarrow> int" where
  "w_mheld nd = (if n_mamba nd \<noteq> None \<and> n_mamba_ref nd \<noteq> 0 then 1 else 0)"

definition snaps :: "'a rtree_scheme \<Rightarrow> slot multiset" where
  "snaps t = node_sum t w_snap"

definition hold_ok :: "'a rtree_scheme \<Rightarrow> nid multiset \<Rightarrow> nid \<Rightarrow> bool" where
  "hold_ok t H n \<longleftrightarrow> direct t n = int (count H n) \<and> n_mamba_ref (heap t n) = int (count H n) \<and>
     (n \<in># H \<longrightarrow> n_mamba (heap t n) \<noteq> None)"

definition hybrid_inv :: "hybrid \<Rightarrow> nid multiset \<Rightarrow> bool" where
  "hybrid_inv s H \<longleftrightarrow> tree_wf s \<and> n_ref (heap s (root s)) = 1 \<and> n_mamba (heap s (root s)) = None \<and>
     lock_inv s (full_evictable s) (full_protected s) \<and>
     mamba_evictable s = node_sum s w_mfree \<and> mamba_protected s = node_sum s w_mheld \<and>
     set_mset H \<subseteq> live s \<and> (\<forall>n \<in> live s. n \<noteq> root s \<longrightarrow> hold_ok s H n)"

lemma hybrid_invD:
  assumes "hybrid_inv s H"
  shows "tree_wf s" "n_ref (heap s (root s)) = 1" "0 < n_ref (heap s (root s))" "n_mamba (heap s (root s)) = None"
    "lock_inv s (full_evictable s) (full_protected s)"
    "mamba_evictable s = node_sum s w_mfree" "mamba_protected s = node_sum s w_mheld"
    "set_mset H \<subseteq> live s" "n \<in> live s \<Longrightarrow> n \<noteq> root s \<Longrightarrow> hold_ok s H n"
  using assms by (auto simp: hybrid_inv_def)

lemma carry_more [simp]:
  "w_snap (nd\<lparr>n_children := ks\<rparr>) = w_snap nd" "w_mfree (nd\<lparr>n_children := ks\<rparr>) = w_mfree nd"
  "w_mheld (nd\<lparr>n_children := ks\<rparr>) = w_mheld nd" "w_snap (nd\<lparr>n_ref := r\<rparr>) = w_snap nd"
  "w_mfree (nd\<lparr>n_ref := r\<rparr>) = w_mfree nd" "w_mheld (nd\<lparr>n_ref := r\<rparr>) = w_mheld nd"
  by (simp_all add: w_snap_def w_mfree_def w_mheld_def)

text \<open>A change that keeps what the nodes carry keeps the sums.\<close>

lemma carry_grown:
  assumes g: "grown s (s' :: hybrid)" and wf: "tree_wf s'"
  shows "node_sum s' w_snap = node_sum s w_snap" "node_sum s' w_mfree = node_sum s w_mfree"
    "node_sum s' w_mheld = node_sum s w_mheld"
proof -
  note d = grownD [OF g]
  have o: "n_mamba (heap s' n) = n_mamba (heap s n) \<and> n_mamba_ref (heap s' n) = n_mamba_ref (heap s n)"
    if "n \<in> live s" for n using d(11,12) [OF that] by simp
  have z: "n_mamba (heap s' n) = None" if "n \<in> live s'" "n \<notin> live s" for n using d(14) that by blast
  show "node_sum s' w_snap = node_sum s w_snap"
    by (rule node_sum_more [OF live_finite [OF wf] d(1,2)]) (use o z in \<open>auto simp: w_snap_def\<close>)
  show "node_sum s' w_mfree = node_sum s w_mfree"
    by (rule node_sum_more [OF live_finite [OF wf] d(1,2)]) (use o z in \<open>auto simp: w_mfree_def\<close>)
  show "node_sum s' w_mheld = node_sum s w_mheld"
    by (rule node_sum_more [OF live_finite [OF wf] d(1,2)]) (use o z in \<open>auto simp: w_mheld_def\<close>)
qed

lemma same_ext_fields:
  assumes "same_ext s (t :: hybrid)"
  shows "full_evictable t = full_evictable s" "full_protected t = full_protected s"
    "mamba_evictable t = mamba_evictable s" "mamba_protected t = mamba_protected s"
  using assms by (auto simp: same_ext_def) (metis dtree.select_convs hybrid.select_convs hybrid.surjective rtree.update_convs)+

lemma hybrid_walk:
  assumes i: "hybrid_inv s H"
  obtains s' n k where "tree_walk tic ids s = Inr (s', n, k)" "walked s ids s' n k" "grown s s'" "hybrid_inv s' H"
    "same_ext s s'"
proof -
  note d = hybrid_invD [OF i]
  obtain s' n k where w: "tree_walk tic ids s = Inr (s', n, k)" "walked s ids s' n k" "grown s s'"
    "lock_inv s' (full_evictable s) (full_protected s)"
    by (rule tree_walk_grown [OF d(1,5), where tic = tic and ids = ids])
  note g = grownD [OF w(3)] and wf = walkedD(1) [OF w(2)]
  note f = same_ext_fields [OF g(6)] and c = carry_grown [OF w(3) wf]
  have r: "root s \<in> live s" by (rule live.root)
  have "hold_ok s' H n" if n: "n \<in> live s'" "n \<noteq> root s'" for n
  proof (cases "n \<in> live s")
    case True
    then show ?thesis using d(9) [OF True] n(2) g(2) g(9,11,12) [OF True] by (simp add: hold_ok_def)
  next
    case False
    then have "count H n = 0" using d(8) by (auto simp: count_eq_zero_iff)
    then show ?thesis using g(13-15) [OF n(1) False] by (simp add: hold_ok_def flip: count_greater_zero_iff)
  qed
  then have "hybrid_inv s' H"
    using wf d w(4) g(1,2) g(10,11) [OF r] f c by (auto simp: hybrid_inv_def)
  then show ?thesis by (rule that [OF w(1-3) _ g(6)])
qed

section \<open>Match\<close>

lemma path_lengths:
  assumes wf: "tree_wf t" and n: "n \<in> live t"
  shows "(\<Sum>m \<leftarrow> anc t n. node_len t m) = length (toks t n)"
  unfolding toks_def by (simp add: length_concat node_len_def comp_def rev_map [symmetric])

lemma snap_loop_find:
  assumes wf: "tree_wf t" and n: "n \<in> live t"
  shows "snap_loop t (anc t n) (length (toks t n)) =
    map_option (\<lambda>m. (m, length (toks t m))) (find (\<lambda>m. n_mamba (heap t m) \<noteq> None) (anc t n))"
  using n
proof (induction rule: inv_induct [OF wfD [OF wf], consumes 1, case_names 1 2])
  case 1
  then show ?case by (simp add: anc_root [OF wfD [OF wf]])
next
  case (2 n p)
  have "length (toks t n) - node_len t n = length (toks t p)" using 2(5) by (simp add: node_len_def)
  then show ?case using 2(7) anc_step [OF wfD [OF wf] 2(1,4)] by simp
qed

lemma find_deepest:
  assumes wf: "tree_wf t" and n: "n \<in> live t" and f: "find P (anc t n) = Some c" and m: "m \<in> set (anc t n)" "P m"
  shows "prefix (toks t m) (toks t c)"
  using n f m
proof (induction rule: inv_induct [OF wfD [OF wf], consumes 1, case_names 1 2])
  case 1
  then show ?case by (simp add: anc_root [OF wfD [OF wf]])
next
  case (2 n p)
  note a = anc_step [OF wfD [OF wf] 2(1,4)]
  show ?case
  proof (cases "P n")
    case True
    then have "c = n" using 2(8) a by simp
    then show ?thesis using anc_facts(4) [OF wfD [OF wf] 2(1)] 2(9) by blast
  next
    case False
    then show ?thesis using 2(7-) a by auto
  qed
qed

text \<open>
  The deepest cached prefix with a snapshot. The result names its node, slots and snapshot, and no
  other node with a snapshot lies deeper on the way to the input.
\<close>

lemma hybrid_match_ok:
  assumes i: "hybrid_inv s H"
  obtains s' m where "hybrid_match tic ids s = Inr (s', m)" "hybrid_inv s' H" "grown s s'"
    "hm_node m \<in> live s'" "hm_len m \<le> length ids" "toks s' (hm_node m) = take (hm_len m) ids"
    "hm_kv m = vals s' (hm_node m)" "hm_mamba m = n_mamba (heap s' (hm_node m))"
    "hm_node m \<noteq> root s' \<Longrightarrow> hm_mamba m \<noteq> None" "hm_node m = root s' \<Longrightarrow> hm_len m = 0"
    "\<And>n. n \<in> live s \<Longrightarrow> n_mamba (heap s n) \<noteq> None \<Longrightarrow> prefix (toks s n) ids \<Longrightarrow> length (toks s n) \<le> hm_len m"
proof -
  obtain s1 n k where w: "tree_walk tic ids s = Inr (s1, n, k)" "walked s ids s1 n k" "grown s s1" "hybrid_inv s1 H"
    by (rule hybrid_walk [OF i, where tic = tic and ids = ids])
  note d = walkedD [OF w(2)] and g = grownD [OF w(3)] and hi = hybrid_invD [OF w(4)]
  let ?f = "find (\<lambda>m. n_mamba (heap s1 m) \<noteq> None) (anc s1 n)"
  have pl: "path_len s1 n = Inr (length (toks s1 n))"
    by (simp add: path_len_def wf_up_path [OF d(1,2)] path_lengths [OF d(1,2)])
  have deep: "\<exists>c. ?f = Some c \<and> length (toks s q) \<le> length (toks s1 c)"
    if q: "q \<in> live s" "n_mamba (heap s q) \<noteq> None" "prefix (toks s q) ids" for q
  proof -
    have q1: "q \<in> live s1" "n_mamba (heap s1 q) \<noteq> None" "toks s1 q = toks s q" using g q by auto
    have "cached s (toks s q) (vals s q)" by (rule node_cached [OF hybrid_invD(1) [OF i] q(1)])
    then have "length (toks s q) \<le> k" using d(7) q(3) by blast
    then have "prefix (toks s1 q) (toks s1 n)"
      unfolding d(3) q1(3) using q(3) by (metis prefix_length_prefix take_is_prefix length_take min.absorb2 d(4))
    then have "q = root s1 \<or> q \<in> set (anc s1 n)" by (rule prefix_on_path [OF wfD [OF d(1)] q1(1) d(2)])
    then have a: "q \<in> set (anc s1 n)" using q1(2) hi(4) by auto
    then have "?f \<noteq> None" using q1(2) by (auto simp: find_None_iff)
    then obtain c where c: "?f = Some c" by blast
    have "prefix (toks s1 q) (toks s1 c)"
      by (rule find_deepest [OF d(1,2) c a]) (rule q1(2))
    then show ?thesis using c q1(3) by (auto dest: prefix_length_le)
  qed
  note run = hybrid_match_def [of tic ids s, unfolded w(1), simplified, unfolded pl wf_up_path [OF d(1,2)], simplified,
      unfolded snap_loop_find [OF d(1,2)]]
  show ?thesis
  proof (cases ?f)
    case None
    have "hybrid_match tic ids s = Inr (s1, \<lparr>hm_kv = [], hm_len = 0, hm_mamba = None, hm_node = root s1\<rparr>)"
      unfolding run None by simp
    then show ?thesis
      using deep None hi(4) inv_root_P [OF wfD [OF d(1)]] inv_root_V [OF wfD [OF d(1)]]
      by (intro that [OF _ w(4,3)]) (auto simp: live.root)
  next
    case (Some c)
    then have c: "c \<in> set (anc s1 n)" "n_mamba (heap s1 c) \<noteq> None"
      by (auto simp: find_Some_iff)
    have cl: "c \<in> live s1" "c \<noteq> root s1" using anc_facts(1) [OF wfD [OF d(1)] d(2)] c(1) by auto
    have "prefix (toks s1 c) (toks s1 n)" using anc_facts(4) [OF wfD [OF d(1)] d(2)] c(1) by blast
    then have "prefix (toks s1 c) ids" unfolding d(3) using take_is_prefix by (rule prefix_order.trans)
    then have ct: "toks s1 c = take (length (toks s1 c)) ids" "length (toks s1 c) \<le> length ids"
      by (metis append_eq_conv_conj prefix_def, rule prefix_length_le)
    have "hybrid_match tic ids s = Inr (s1, \<lparr>hm_kv = vals s1 c, hm_len = length (toks s1 c),
        hm_mamba = n_mamba (heap s1 c), hm_node = c\<rparr>)"
      unfolding run Some by (simp add: wf_path_values [OF d(1) cl(1)])
    then show ?thesis
      using deep Some ct cl c(2) by (intro that [OF _ w(4,3)]) auto
  qed
qed

section \<open>Insert\<close>

lemma mamba_sums:
  assumes i: "hybrid_inv s H" and t: "same_tree s (t :: hybrid)" and n: "n \<in> live s" "n \<noteq> root s"
    and o: "\<And>m. m \<noteq> n \<Longrightarrow> n_mamba (heap t m) = n_mamba (heap s m) \<and> n_mamba_ref (heap t m) = n_mamba_ref (heap s m)"
  shows "node_sum t w_snap + w_snap (heap s n) = node_sum s w_snap + w_snap (heap t n)"
    "node_sum t w_mfree + w_mfree (heap s n) = node_sum s w_mfree + w_mfree (heap t n)"
    "node_sum t w_mheld + w_mheld (heap s n) = node_sum s w_mheld + w_mheld (heap t n)"
proof -
  note wf = hybrid_invD(1) [OF i]
  note one = node_sum_one [OF live_finite [OF wf] same_tree(2,4) [OF t wf] n]
  show "node_sum t w_snap + w_snap (heap s n) = node_sum s w_snap + w_snap (heap t n)"
    by (rule one) (use o in \<open>simp add: w_snap_def\<close>)
  show "node_sum t w_mfree + w_mfree (heap s n) = node_sum s w_mfree + w_mfree (heap t n)"
    by (rule one) (use o in \<open>simp add: w_mfree_def\<close>)
  show "node_sum t w_mheld + w_mheld (heap s n) = node_sum s w_mheld + w_mheld (heap t n)"
    by (rule one) (use o in \<open>simp add: w_mheld_def\<close>)
qed

text \<open>The invariant after a change of what one node carries.\<close>

lemma hybrid_inv_carry:
  assumes i: "hybrid_inv s H" and t: "same_tree s (t :: hybrid)" and n: "n \<in> live s" "n \<noteq> root s"
    and o: "\<And>m. m \<noteq> n \<Longrightarrow> n_mamba (heap t m) = n_mamba (heap s m) \<and> n_mamba_ref (heap t m) = n_mamba_ref (heap s m)"
    and f: "full_evictable t = full_evictable s" "full_protected t = full_protected s"
    and e: "mamba_evictable t + w_mfree (heap s n) = mamba_evictable s + w_mfree (heap t n)"
    and p: "mamba_protected t + w_mheld (heap s n) = mamba_protected s + w_mheld (heap t n)"
    and h: "hold_ok t H n"
  shows "hybrid_inv t H"
proof -
  note d = hybrid_invD [OF i] and T = same_tree [OF t hybrid_invD(1) [OF i]]
  note ms = mamba_sums [OF i t n o]
  have "hold_ok t H m" if "m \<in> live t" "m \<noteq> root t" for m
  proof (cases "m = n")
    case False
    then show ?thesis using d(9) [of m] o [OF False] T(2,4,10) that by (simp add: hold_ok_def)
  qed (use h in simp)
  moreover have "n_mamba (heap t (root t)) = None" using o [of "root s"] n(2) d(4) T(4) by auto
  moreover have "mamba_evictable t = node_sum t w_mfree" "mamba_protected t = node_sum t w_mheld"
    using ms(2,3) e p d(6,7) by simp_all
  ultimately show ?thesis
    using T(1,2,4,11,13) d f by (auto simp: hybrid_inv_def)
qed

lemma attach_snapshot_ok:
  assumes i: "hybrid_inv s H" and n: "n \<in> live s"
  obtains s' ex where "attach_snapshot n mv s = (s', ex)" "hybrid_inv s' H" "same_tree s s'"
    "snaps s' = snaps s + (if ex then {#} else {#mv#})" "n \<noteq> root s \<Longrightarrow> n_mamba (heap s' n) \<noteq> None"
    "\<And>m. n_mamba (heap s m) \<noteq> None \<Longrightarrow> n_mamba (heap s' m) = n_mamba (heap s m)"
proof (cases "n = root s \<or> n_mamba (heap s n) \<noteq> None")
  case True
  then have "attach_snapshot n mv s = (s, True)"
    using inv_is_root [OF wfD [OF hybrid_invD(1) [OF i]] n] by (auto simp: attach_snapshot_def)
  then show ?thesis using that [of s True] i True by auto
next
  case False
  then have n': "n \<noteq> root s" "n_mamba (heap s n) = None" by auto
  note d = hybrid_invD [OF i] and ho = hybrid_invD(9) [OF i n n'(1)]
  have c: "count H n = 0" using ho n'(2) by (auto simp: hold_ok_def count_eq_zero_iff)
  then have r0: "n_mamba_ref (heap s n) = 0" using ho by (simp add: hold_ok_def)
  let ?s1 = "upd n (\<lambda>nd. nd\<lparr>n_mamba := Some mv\<rparr>) s"
  let ?s = "?s1\<lparr>mamba_evictable := mamba_evictable ?s1 + 1\<rparr>"
  have e: "attach_snapshot n mv s = (?s, False)"
    using n' r0 inv_is_root [OF wfD [OF d(1)] n] by (simp add: attach_snapshot_def heap_upd Let_def)
  have t: "same_tree s ?s" by (simp add: same_tree_def heap_upd upd_def shape_def)
  have o: "n_mamba (heap ?s m) = n_mamba (heap s m) \<and> n_mamba_ref (heap ?s m) = n_mamba_ref (heap s m)" if "m \<noteq> n" for m
    using that by (simp add: heap_upd)
  have hn: "n_mamba (heap ?s n) = Some mv" "n_mamba_ref (heap ?s n) = 0" using r0 by (simp_all add: heap_upd)
  have "hybrid_inv ?s H"
  proof (rule hybrid_inv_carry [OF i t n n'(1) o])
    show "full_evictable ?s = full_evictable s" "full_protected ?s = full_protected s" by (simp_all add: upd_def)
    show "mamba_evictable ?s + w_mfree (heap s n) = mamba_evictable s + w_mfree (heap ?s n)"
      "mamba_protected ?s + w_mheld (heap s n) = mamba_protected s + w_mheld (heap ?s n)"
      using n'(2) hn r0 unfolding w_mfree_def w_mheld_def by (simp_all add: upd_def)
    show "hold_ok ?s H n"
      using ho hn r0 c same_tree(10) [OF t d(1) n] by (simp add: hold_ok_def)
  qed
  moreover have "snaps ?s = snaps s + {#mv#}"
  proof -
    have z: "w_snap (heap s n) = {#}" "w_snap (heap ?s n) = {#mv#}" using n'(2) hn by (simp_all add: w_snap_def)
    show ?thesis using mamba_sums(1) [OF i t n n'(1) o] unfolding z snaps_def by simp
  qed
  moreover have "n_mamba (heap ?s m) = n_mamba (heap s m)" if "n_mamba (heap s m) \<noteq> None" for m
    using that n'(2) by (auto simp: heap_upd)
  ultimately show ?thesis using that [OF e _ t] hn by simp
qed

lemma carry_leaf:
  "w_snap ((new_node tic)\<lparr>n_key := k, n_value := v, n_parent := p\<rparr>) = 0"
  "w_mfree ((new_node tic)\<lparr>n_key := k, n_value := v, n_parent := p\<rparr>) = 0"
  "w_mheld ((new_node tic)\<lparr>n_key := k, n_value := v, n_parent := p\<rparr>) = 0"
  by (simp_all add: w_snap_def w_mfree_def w_mheld_def new_node_def)

text \<open>Attaching a new leaf, with its tokens counted as evictable.\<close>

lemma hybrid_leaf_ok:
  fixes tic :: int
  assumes i: "hybrid_inv s H" and n: "n \<in> live s" "get_child s n k = None"
    and k: "k \<noteq> []" "psize s dvd length k" "length v = length k"
  defines "t \<equiv> leaf_result tic k v n s" and "m \<equiv> counter s"
  defines "u \<equiv> t\<lparr>full_evictable := full_evictable t + int (node_len t m)\<rparr>"
  shows "add_leaf tic k v n s = Inr (t, m)" "hybrid_inv u H" "live u = insert m (live s)" "root u = root s"
    "psize u = psize s" "toks u m = toks s n @ k" "vals u m = vals s n @ v" "owned u = mset v + owned s"
    "snaps u = snaps s" "m \<noteq> root s" "m \<notin> live s"
    "q \<in> live s \<Longrightarrow> direct u q = direct s q \<and> toks u q = toks s q \<and> vals u q = vals s q \<and>
       n_mamba (heap u q) = n_mamba (heap s q)"
    "cached u ts vs \<longleftrightarrow> cached s ts vs \<or>
       (psize s dvd length ts \<and> prefix ts (toks s n @ k) \<and> vs = take (length ts) (vals s n @ v))"
proof -
  note d = hybrid_invD [OF i]
  note lf = wf_leaf(1-7) [OF d(1) n k, where tic = tic, folded t_def m_def]
    and li = lock_inv_leaf [OF d(1) n k d(5), where tic = tic, folded t_def m_def]
    and h = leaf_result_nodes(1,2) [OF d(1) n(1), where tic = tic and k = k and v = v, folded t_def m_def]
      leaf_result_nodes(3) [OF d(1) n(1), folded m_def]
  have nm: "n \<noteq> m" using h(3) n(1) by auto
  show "add_leaf tic k v n s = Inr (t, m)"
    unfolding t_def m_def by (rule add_leaf_eq) (use nm k(3) in \<open>simp_all add: m_def\<close>)
  have ex: "same_ext s t" unfolding t_def by (rule same_ext_simps)
  note f = same_ext_fields [OF ex]
  have nl: "node_len t m = length k" using h(1) by (simp add: node_len_def)
  have st: "same_tree t u" by (simp add: same_tree_def u_def)
  note T = same_tree [OF st lf(1)]
  have rt: "root t = root s" "psize t = psize s" by (simp_all add: leaf_result_simps t_def)
  have rl: "root s \<in> live s" by (rule live.root)
  show mr: "m \<noteq> root s" and ml: "m \<notin> live s" using h(3) rl by auto
  have hu: "heap u = heap t" by (simp add: u_def)
  have old: "n_ref (heap t q) = n_ref (heap s q) \<and> n_mamba (heap t q) = n_mamba (heap s q) \<and>
      n_mamba_ref (heap t q) = n_mamba_ref (heap s q)" if "q \<in> live s" for q using h(2) [OF that] by auto
  have new: "n_mamba (heap t m) = None" "n_mamba_ref (heap t m) = 0" using h(1) by (simp_all add: new_node_def)
  have sums: "node_sum u w = node_sum t w" for w :: "rnode \<Rightarrow> 'z::comm_monoid_add"
    using T(2) hu rt by (simp add: node_sum_def u_def)
  have leaf: "node_sum u w = w ((new_node tic)\<lparr>n_key := k, n_value := v, n_parent := Some n\<rparr>) + node_sum s w"
    if "\<And>nd ks. w (nd\<lparr>n_children := ks\<rparr>) = w nd" for w :: "rnode \<Rightarrow> 'z::comm_monoid_add"
    unfolding sums t_def by (rule node_sum_leaf [OF d(1) n k that])
  have ms: "node_sum u w_snap = node_sum s w_snap" "node_sum u w_mfree = node_sum s w_mfree"
    "node_sum u w_mheld = node_sum s w_mheld"
    using leaf [of w_snap] leaf [of w_mfree] leaf [of w_mheld] by (simp_all add: carry_leaf)
  then show "snaps u = snaps s" by (simp add: snaps_def)
  show lv: "live u = insert m (live s)" using T(2) lf(2) by simp
  show ru: "root u = root s" "psize u = psize s" using T(4,5) rt by simp_all
  have hold: "hold_ok u H q" if q: "q \<in> live u" "q \<noteq> root u" for q
  proof (cases "q = m")
    case True
    have "count H m = 0" using ml d(8) by (auto simp: count_eq_zero_iff)
    moreover have "direct u m = 0" using T(10) [of m] lf(2) li(3) by simp
    ultimately show ?thesis using new hu True by (simp add: hold_ok_def flip: count_greater_zero_iff)
  next
    case False
    then have q': "q \<in> live s" "q \<in> live t" using q lv lf(2) by auto
    have "direct u q = direct s q" using T(10) [OF q'(2)] li(2) [OF q'(1)] by simp
    then show ?thesis using d(9) [OF q'(1)] q(2) ru(1) old [OF q'(1)] hu by (simp add: hold_ok_def)
  qed
  have fu: "full_evictable u = full_evictable s + int (length k)" "full_protected u = full_protected s"
    "mamba_evictable u = mamba_evictable s" "mamba_protected u = mamba_protected s"
    using f nl by (simp_all add: u_def)
  show "hybrid_inv u H"
    unfolding hybrid_inv_def fu ms ru using T(1,11) li(1) old [OF rl] d lv hold hu ru by auto
  show "toks u m = toks s n @ k" "vals u m = vals s n @ v" using T(7,8) [of m] lf(2,5,6) by simp_all
  show "owned u = mset v + owned s" using T(12) owned_leaf [OF d(1) n k, of tic] by (simp add: t_def)
  show "direct u q = direct s q \<and> toks u q = toks s q \<and> vals u q = vals s q \<and> n_mamba (heap u q) = n_mamba (heap s q)"
    if "q \<in> live s" for q
  proof -
    have "q \<in> live t" using that lf(2) by simp
    then show ?thesis using T(7,8,10) lf(3,4) li(2) that old [OF that] hu by simp
  qed
  show "cached u ts vs \<longleftrightarrow> cached s ts vs \<or>
       (psize s dvd length ts \<and> prefix ts (toks s n @ k) \<and> vs = take (length ts) (vals s n @ v))"
    using T(3) lf(7) by simp
qed

text \<open>
  What \<open>insert\<close> does: the slots past the cached prefix join the tree, the snapshot joins it unless
  the node of the input already has one, and nothing else changes.
\<close>

lemma hybrid_insert_ok:
  assumes i: "hybrid_inv s H" and len: "length ids \<le> length idx"
  defines "il \<equiv> align_down_nat (length ids) (psize s)"
  obtains s' k ex n us where "hybrid_insert tic tic' ids idx mv s = Inr (s', k, ex)" "hybrid_inv s' H"
    "k \<le> il" "psize s dvd k" "cached s (take k ids) us"
    "\<And>ts vs. cached s ts vs \<Longrightarrow> prefix ts (take il ids) \<Longrightarrow> length ts \<le> k"
    "n \<in> live s'" "toks s' n = take il ids" "vals s' n = us @ drop k (take il idx)"
    "0 < il \<Longrightarrow> n_mamba (heap s' n) \<noteq> None" "owned s' = owned s + mset (drop k (take il idx))"
    "snaps s' = snaps s + (if ex then {#} else {#mv#})" "live s \<subseteq> live s'" "root s' = root s" "psize s' = psize s"
    "\<And>q. q \<in> live s \<Longrightarrow> toks s' q = toks s q \<and> vals s' q = vals s q \<and>
       (n_mamba (heap s q) \<noteq> None \<longrightarrow> n_mamba (heap s' q) = n_mamba (heap s q))"
proof -
  let ?ids = "take il ids" and ?idx = "take il idx"
  obtain s1 n k where w: "tree_walk tic ?ids s = Inr (s1, n, k)" "walked s ?ids s1 n k" "grown s s1" "hybrid_inv s1 H"
    by (rule hybrid_walk [OF i, where tic = tic and ids = "?ids"])
  note d = walkedD [OF w(2)] and c = walked_cached [OF w(2)] and g = grownD [OF w(3)]
  have il: "il \<le> length ids" "psize s dvd il" by (simp_all add: il_def)
  have lens: "length ?ids = il" "length ?idx = il" using il(1) len by auto
  have tk: "take k ?ids = take k ids" using d(4) lens by simp
  have kl: "k \<le> il" using d(4) lens by simp
  obtain s2 m where st: "hybrid_insert tic tic' ids idx mv s = (case attach_snapshot m mv s2 of (s3, ex) \<Rightarrow> Inr (s3, k, ex))"
    "hybrid_inv s2 H" "m \<in> live s2" "toks s2 m = ?ids" "vals s2 m = vals s1 n @ drop k ?idx" "snaps s2 = snaps s1"
    "owned s2 = owned s1 + mset (drop k ?idx)" "live s1 \<subseteq> live s2" "root s2 = root s1" "psize s2 = psize s1"
    "\<And>q. q \<in> live s1 \<Longrightarrow> toks s2 q = toks s1 q \<and> vals s2 q = vals s1 q \<and> n_mamba (heap s2 q) = n_mamba (heap s1 q)"
  proof (cases "k = il")
    case True
    have "hybrid_insert tic tic' ids idx mv s = (case attach_snapshot n mv s1 of (s3, ex) \<Rightarrow> Inr (s3, k, ex))"
      using w(1) True by (simp add: hybrid_insert_def il_def [symmetric] Let_def)
    then show ?thesis by (rule that) (use w(4) d(2,3) True lens in auto)
  next
    case False
    then have lt: "k < length ?ids" using kl lens by simp
    have a: "get_child s1 n (drop k ?ids) = None" "drop k ?ids \<noteq> []" "psize s1 dvd length (drop k ?ids)"
      "length (drop k ?idx) = length (drop k ?ids)"
      using walked_attach [OF w(2) lt, of ?idx] il lens by auto
    note lf = hybrid_leaf_ok(1-9,12) [OF w(4) d(2) a, where tic = tic']
    have app: "toks s1 n @ drop k ?ids = ?ids" by (simp only: d(3) append_take_drop_id)
    let ?u = "leaf_result tic' (drop k ?ids) (drop k ?idx) n s1
      \<lparr>full_evictable := full_evictable (leaf_result tic' (drop k ?ids) (drop k ?idx) n s1) +
         int (node_len (leaf_result tic' (drop k ?ids) (drop k ?idx) n s1) (counter s1))\<rparr>"
    have "hybrid_insert tic tic' ids idx mv s =
        (case attach_snapshot (counter s1) mv ?u of (s3, ex) \<Rightarrow> Inr (s3, k, ex))"
      using w(1) False lf(1) by (simp add: hybrid_insert_def il_def [symmetric] Let_def)
    then show ?thesis
      by (rule that) (use lf(2-10) app in \<open>auto simp: add.commute\<close>)
  qed
  obtain s' ex where at: "attach_snapshot m mv s2 = (s', ex)" "hybrid_inv s' H" "same_tree s2 s'"
    "snaps s' = snaps s2 + (if ex then {#} else {#mv#})" "m \<noteq> root s2 \<Longrightarrow> n_mamba (heap s' m) \<noteq> None"
    "\<And>q. n_mamba (heap s2 q) \<noteq> None \<Longrightarrow> n_mamba (heap s' q) = n_mamba (heap s2 q)"
    by (rule attach_snapshot_ok [OF st(2,3), where mv = mv]) blast
  note T = same_tree [OF at(3) hybrid_invD(1) [OF st(2)]]
  have gs: "snaps s1 = snaps s" unfolding snaps_def by (rule carry_grown(1) [OF w(3) d(1)])
  show ?thesis
  proof (rule that [of s' k ex "vals s1 n" m])
    show "hybrid_insert tic tic' ids idx mv s = Inr (s', k, ex)" using st(1) at(1) by simp
    show "hybrid_inv s' H" "k \<le> il" "psize s dvd k" by (rule at(2), rule kl, rule c(3))
    show "cached s (take k ids) (vals s1 n)" using c(1) unfolding tk .
    show "length ts \<le> k" if "cached s ts vs" "prefix ts ?ids" for ts vs by (rule d(7) [OF that])
    show "m \<in> live s'" "toks s' m = ?ids" "vals s' m = vals s1 n @ drop k ?idx"
      using T(2,7,8) st(3-5) by simp_all
    show "n_mamba (heap s' m) \<noteq> None" if "0 < il"
    proof -
      have "toks s2 m \<noteq> []" using st(4) lens that by auto
      then have "m \<noteq> root s2" using inv_root_P [OF wfD [OF hybrid_invD(1) [OF st(2)]]] by auto
      then show ?thesis by (rule at(5))
    qed
    show "owned s' = owned s + mset (drop k ?idx)" using T(12) st(7) g(5) by simp
    show "snaps s' = snaps s + (if ex then {#} else {#mv#})" using at(4) st(6) gs by simp
    show "live s \<subseteq> live s'" "root s' = root s" "psize s' = psize s" using T(2,4,5) st(8-10) g(1-3) by auto
    show "toks s' q = toks s q \<and> vals s' q = vals s q \<and>
       (n_mamba (heap s q) \<noteq> None \<longrightarrow> n_mamba (heap s' q) = n_mamba (heap s q))" if q: "q \<in> live s" for q
    proof -
      have "q \<in> live s1" "q \<in> live s2" using q g(1) st(8) by auto
      then show ?thesis using T(7,8) st(11) g(7,8,11) [OF q] at(6) [of q] by simp
    qed
  qed
qed

section \<open>Locks\<close>

lemma same_tree_heap: "heap s = heap t \<Longrightarrow> counter s = counter t \<Longrightarrow> root s = root t \<Longrightarrow> psize s = psize t \<Longrightarrow> same_tree s t"
  by (simp add: same_tree_def)

text \<open>The tree part of a lock or unlock, whatever the snapshot part did before.\<close>

lemma hybrid_bump_ok:
  fixes s t u :: hybrid
  assumes i: "hybrid_inv s H" and h: "h \<in> live s"
    and t: "same_tree s t" "mamba_evictable t = node_sum t w_mfree" "mamba_protected t = node_sum t w_mheld"
    and tm: "\<And>n. n_mamba (heap t n) = n_mamba (heap s n)"
    and b: "heap u = heap (bump (anc s h) d t)" "counter u = counter t" "root u = root t" "psize u = psize t"
      "mamba_evictable u = mamba_evictable t" "mamba_protected u = mamba_protected t"
    and l: "lock_inv (bump (anc s h) d t) (full_evictable u) (full_protected u)"
    and H: "set_mset H' \<subseteq> live s" and m: "n_mamba (heap s h) \<noteq> None \<or> h = root s"
    and c: "\<And>n. n \<in> live s \<Longrightarrow> n \<noteq> root s \<Longrightarrow> int (count H' n) = int (count H n) + (if n = h then d else 0)"
    and r: "\<And>n. n \<in> live s \<Longrightarrow> n \<noteq> root s \<Longrightarrow> n_mamba_ref (heap t n) = int (count H' n)"
  shows "hybrid_inv u H'" "live u = live s" "root u = root s" "psize u = psize s" "cached u = cached s" "owned u = owned s"
    "snaps u = snaps s" "q \<in> live s \<Longrightarrow> toks u q = toks s q \<and> vals u q = vals s q \<and> n_mamba (heap u q) = n_mamba (heap s q)"
proof -
  note D = hybrid_invD [OF i] and T = same_tree [OF t(1) hybrid_invD(1) [OF i]]
  let ?b = "bump (anc s h) d t"
  have ah: "anc s h = anc t h" using T(9) [OF h] by simp
  have ht: "h \<in> live t" using h T(2) by simp
  note bf = bump_facts [OF T(1) ht, where d = d, folded ah]
  have su: "same_tree ?b u" by (rule same_tree_heap) (use b in simp_all)
  note U = same_tree [OF su bf(1)]
  have lv: "live u = live s" using U(2) bf(2) T(2) by simp
  have rt: "root u = root s" "psize u = psize s" using b T(4,5) by simp_all
  have car: "w_snap (heap u n) = w_snap (heap t n)" "w_mfree (heap u n) = w_mfree (heap t n)"
    "w_mheld (heap u n) = w_mheld (heap t n)" "n_mamba (heap u n) = n_mamba (heap t n)"
    "n_mamba_ref (heap u n) = n_mamba_ref (heap t n)" for n
    by (simp_all add: b bump_def)
  have ns: "node_sum u w = node_sum t w" if "\<And>n. w (heap u n) = w (heap t n)" for w :: "rnode \<Rightarrow> 'z::comm_monoid_add"
    by (rule node_sum_cong) (use that lv T(2,4) rt in simp_all)
  have rn: "root s \<notin> set (anc s h)" using anc_facts(1) [OF wfD [OF D(1)] h] by blast
  have "hold_ok u H' n" if n: "n \<in> live s" "n \<noteq> root s" for n
  proof -
    have nt: "n \<in> live t" "n \<noteq> root t" using n T(2,4) by simp_all
    have nb: "n \<in> live ?b" using nt bf(2) by simp
    have "direct u n = direct s n + (if n = h then d else 0)"
      using U(10) [OF nb] bf(7) [OF nt] T(10) [OF n(1)] by simp
    then have "direct u n = int (count H' n)" using c [OF n] D(9) [OF n] by (simp add: hold_ok_def)
    moreover have "n_mamba (heap s n) \<noteq> None" if "n \<in># H'"
    proof (cases "n = h")
      case True
      then show ?thesis using m n(2) by blast
    next
      case False
      then have "count H n = count H' n" using c [OF n] by simp
      then have "n \<in># H" using that by (metis count_greater_zero_iff)
      then show ?thesis using D(9) [OF n] by (simp add: hold_ok_def)
    qed
    ultimately show ?thesis using r [OF n] car(4,5) tm by (simp add: hold_ok_def)
  qed
  moreover have "n_ref (heap u (root s)) = 1" using rn D(2) T(13) [of "root s"] by (simp add: b bump_def)
  moreover have "n_mamba (heap u (root s)) = None" using car(4) tm D(4) by simp
  moreover have "mamba_evictable u = node_sum u w_mfree" "mamba_protected u = node_sum u w_mheld"
    using ns [of w_mfree] ns [of w_mheld] car(2,3) b(5,6) t(2,3) by simp_all
  ultimately show "hybrid_inv u H'"
    using U(1,11) bf(1) l H lv rt by (simp add: hybrid_inv_def)
  show "live u = live s" "root u = root s" "psize u = psize s" by (rule lv, rule rt, rule rt)
  show "cached u = cached s" using U(3) bf(3) T(3) by simp
  show "owned u = owned s" using U(12) owned_bump [OF T(1) ht, where d = d, folded ah] T(12) by simp
  have "w_snap (heap t n) = w_snap (heap s n)" for n using tm by (simp add: w_snap_def)
  then show "snaps u = snaps s"
    unfolding snaps_def using ns [of w_snap] car(1) node_sum_cong [OF T(2,4), of w_snap w_snap] by simp
  show "toks u q = toks s q \<and> vals u q = vals s q \<and> n_mamba (heap u q) = n_mamba (heap s q)" if q: "q \<in> live s"
  proof -
    have "q \<in> live t" "q \<in> live ?b" using q T(2) bf(2) by simp_all
    then show ?thesis using U(7,8) bf(4,5) T(7,8) [OF q] car(4) tm by simp
  qed
qed

lemma mamba_inc_ok:
  assumes i: "hybrid_inv s H" and h: "h \<in> live s" "n_mamba (heap s h) \<noteq> None \<or> h = root s"
  shows "same_tree s (mamba_inc h s)" "mamba_evictable (mamba_inc h s) = node_sum (mamba_inc h s) w_mfree"
    "mamba_protected (mamba_inc h s) = node_sum (mamba_inc h s) w_mheld"
    "n_mamba (heap (mamba_inc h s) n) = n_mamba (heap s n)"
    "n_mamba_ref (heap (mamba_inc h s) n) = n_mamba_ref (heap s n) + (if n = h \<and> h \<noteq> root s then 1 else 0)"
    "full_evictable (mamba_inc h s) = full_evictable s" "full_protected (mamba_inc h s) = full_protected s"
proof -
  note d = hybrid_invD [OF i]
  let ?t = "mamba_inc h s"
  show t: "same_tree s ?t" by (simp add: mamba_inc_def same_tree_def heap_upd upd_def shape_def Let_def)
  show nm: "n_mamba (heap ?t n) = n_mamba (heap s n)" for n by (simp add: mamba_inc_def heap_upd Let_def)
  show nr: "n_mamba_ref (heap ?t n) = n_mamba_ref (heap s n) + (if n = h \<and> h \<noteq> root s then 1 else 0)" for n
    using h(2) d(4) by (auto simp: mamba_inc_def heap_upd Let_def)
  show "full_evictable ?t = full_evictable s" "full_protected ?t = full_protected s"
    by (simp_all add: mamba_inc_def upd_def Let_def)
  have "mamba_evictable ?t = node_sum ?t w_mfree \<and> mamba_protected ?t = node_sum ?t w_mheld"
  proof (cases "h = root s")
    case True
    then have "?t = s" using d(4) by (simp add: mamba_inc_def)
    then show ?thesis using d(6,7) by simp
  next
    case False
    have m: "n_mamba (heap s h) \<noteq> None" using h(2) False by blast
    have r: "0 \<le> n_mamba_ref (heap s h)" using d(9) [OF h(1) False] by (simp add: hold_ok_def)
    have o: "n_mamba (heap ?t m) = n_mamba (heap s m) \<and> n_mamba_ref (heap ?t m) = n_mamba_ref (heap s m)" if "m \<noteq> h" for m
      using nm nr that by simp
    note ms = mamba_sums [OF i t h(1) False o]
    have w: "w_mfree (heap ?t h) = 0" "w_mheld (heap ?t h) = 1"
      using m r nm [of h] nr [of h] False by (simp_all add: w_mfree_def w_mheld_def)
    have c: "mamba_evictable ?t = mamba_evictable s - w_mfree (heap s h)"
      "mamba_protected ?t = mamba_protected s + w_mfree (heap s h)" "w_mheld (heap s h) = 1 - w_mfree (heap s h)"
      using m by (simp_all add: mamba_inc_def w_mfree_def w_mheld_def upd_def Let_def)
    show ?thesis using ms(2,3) w c d(6,7) by simp
  qed
  then show "mamba_evictable ?t = node_sum ?t w_mfree" "mamba_protected ?t = node_sum ?t w_mheld" by blast+
qed

lemma mamba_dec_ok:
  assumes i: "hybrid_inv s H" and h: "h \<in># H"
  shows "same_tree s (mamba_dec h s)" "mamba_evictable (mamba_dec h s) = node_sum (mamba_dec h s) w_mfree"
    "mamba_protected (mamba_dec h s) = node_sum (mamba_dec h s) w_mheld"
    "n_mamba (heap (mamba_dec h s) n) = n_mamba (heap s n)"
    "n_mamba_ref (heap (mamba_dec h s) n) = n_mamba_ref (heap s n) - (if n = h \<and> h \<noteq> root s then 1 else 0)"
    "full_evictable (mamba_dec h s) = full_evictable s" "full_protected (mamba_dec h s) = full_protected s"
proof -
  note d = hybrid_invD [OF i]
  have hl: "h \<in> live s" using d(8) h by blast
  have ho: "0 < n_mamba_ref (heap s h) \<and> n_mamba (heap s h) \<noteq> None" if "h \<noteq> root s"
    using d(9) [OF hl that] h by (simp add: hold_ok_def)
  let ?t = "mamba_dec h s"
  show t: "same_tree s ?t" by (simp add: mamba_dec_def same_tree_def heap_upd upd_def shape_def Let_def)
  show nm: "n_mamba (heap ?t n) = n_mamba (heap s n)" for n by (simp add: mamba_dec_def heap_upd Let_def)
  show nr: "n_mamba_ref (heap ?t n) = n_mamba_ref (heap s n) - (if n = h \<and> h \<noteq> root s then 1 else 0)" for n
    using ho d(4) by (auto simp: mamba_dec_def heap_upd Let_def)
  show "full_evictable ?t = full_evictable s" "full_protected ?t = full_protected s"
    by (simp_all add: mamba_dec_def upd_def Let_def)
  have "mamba_evictable ?t = node_sum ?t w_mfree \<and> mamba_protected ?t = node_sum ?t w_mheld"
  proof (cases "h = root s")
    case True
    then have "?t = s" using d(4) by (simp add: mamba_dec_def)
    then show ?thesis using d(6,7) by simp
  next
    case False
    note r = ho [OF False]
    have o: "n_mamba (heap ?t m) = n_mamba (heap s m) \<and> n_mamba_ref (heap ?t m) = n_mamba_ref (heap s m)" if "m \<noteq> h" for m
      using nm nr that by simp
    note ms = mamba_sums [OF i t hl False o]
    have w: "w_mfree (heap s h) = 0" "w_mheld (heap s h) = 1"
      using r by (simp_all add: w_mfree_def w_mheld_def)
    have c: "mamba_evictable ?t = mamba_evictable s + w_mfree (heap ?t h)"
      "mamba_protected ?t = mamba_protected s - w_mfree (heap ?t h)" "w_mheld (heap ?t h) = 1 - w_mfree (heap ?t h)"
      using r by (simp_all add: mamba_dec_def w_mfree_def w_mheld_def upd_def Let_def)
    show ?thesis using ms(2,3) w c d(6,7) by simp
  qed
  then show "mamba_evictable ?t = node_sum ?t w_mfree" "mamba_protected ?t = node_sum ?t w_mheld" by blast+
qed

lemma hybrid_lock_ok:
  assumes i: "hybrid_inv s H" and h: "h \<in> live s" "n_mamba (heap s h) \<noteq> None \<or> h = root s"
  obtains s' where "hybrid_inc_lock h s = Inr s'" "hybrid_inv s' (add_mset h H)" "live s' = live s" "root s' = root s"
    "psize s' = psize s" "cached s' = cached s" "owned s' = owned s" "snaps s' = snaps s"
    "\<And>q. q \<in> live s \<Longrightarrow> toks s' q = toks s q \<and> vals s' q = vals s q \<and> n_mamba (heap s' q) = n_mamba (heap s q)"
proof -
  note d = hybrid_invD [OF i] and m = mamba_inc_ok [OF i h]
  let ?t = "mamba_inc h s"
  note T = same_tree [OF m(1) d(1)]
  have L: "lock_inv ?t (full_evictable ?t) (full_protected ?t)" using T(11) d(5) m(6,7) by simp
  obtain e' p' where b: "lock_loop (Suc (counter ?t)) h ?t (full_evictable ?t) (full_protected ?t) = Inr (bump (anc ?t h) 1 ?t, e', p')"
    "lock_inv (bump (anc ?t h) 1 ?t) e' p'"
    by (rule lock_loop_inv [OF T(1) L]) (use T(2) h(1) in auto)
  define u where "u = (bump (anc s h) 1 ?t)\<lparr>full_evictable := e', full_protected := p'\<rparr>"
  have "hybrid_inc_lock h s = Inr u"
    using b(1) T(9) [OF h(1)] by (simp add: hybrid_inc_lock_def Let_def set_full_def u_def)
  moreover have "n_mamba_ref (heap ?t n) = int (count (add_mset h H) n)" if "n \<in> live s" "n \<noteq> root s" for n
    using m(5) [of n] d(9) [OF that] that by (auto simp: hold_ok_def)
  then have "hybrid_inv u (add_mset h H) \<and> live u = live s \<and> root u = root s \<and> psize u = psize s \<and> cached u = cached s \<and>
     owned u = owned s \<and> snaps u = snaps s \<and>
     (\<forall>q \<in> live s. toks u q = toks s q \<and> vals u q = vals s q \<and> n_mamba (heap u q) = n_mamba (heap s q))"
    using hybrid_bump_ok [OF i h(1) m(1-4), of u 1 "add_mset h H"] b(2) T(9) [OF h(1)] d(8) h
    by (simp add: u_def bump_def)
  ultimately show ?thesis using that by blast
qed

lemma hybrid_unlock_ok:
  assumes i: "hybrid_inv s H" and h: "h \<in># H"
  obtains s' where "hybrid_dec_lock h s = Inr s'" "hybrid_inv s' (H - {#h#})" "live s' = live s" "root s' = root s"
    "psize s' = psize s" "cached s' = cached s" "owned s' = owned s" "snaps s' = snaps s"
    "\<And>q. q \<in> live s \<Longrightarrow> toks s' q = toks s q \<and> vals s' q = vals s q \<and> n_mamba (heap s' q) = n_mamba (heap s q)"
proof -
  note d = hybrid_invD [OF i] and m = mamba_dec_ok [OF i h]
  have hl: "h \<in> live s" using d(8) h by blast
  have hc: "0 < count H h" using h by simp
  have ho: "n_mamba (heap s h) \<noteq> None \<or> h = root s" using d(9) [OF hl] h by (auto simp: hold_ok_def)
  let ?t = "mamba_dec h s"
  note T = same_tree [OF m(1) d(1)]
  have L: "lock_inv ?t (full_evictable ?t) (full_protected ?t)" using T(11) d(5) m(6,7) by simp
  have dr: "h \<noteq> root ?t \<longrightarrow> 0 < direct ?t h" using d(9) [OF hl] hc T(4,10) hl by (simp add: hold_ok_def)
  obtain e' p' where b: "unlock_loop (Suc (counter ?t)) h ?t (full_evictable ?t) (full_protected ?t) = Inr (bump (anc ?t h) (-1) ?t, e', p')"
    "lock_inv (bump (anc ?t h) (-1) ?t) e' p'"
    by (rule unlock_loop_inv [OF T(1) L _ dr]) (use T(2) hl in auto)
  define u where "u = (bump (anc s h) (-1) ?t)\<lparr>full_evictable := e', full_protected := p'\<rparr>"
  have "hybrid_dec_lock h s = Inr u"
    using b(1) T(9) [OF hl] by (simp add: hybrid_dec_lock_def Let_def set_full_def u_def)
  moreover
  have r: "n_mamba_ref (heap ?t n) = int (count (H - {#h#}) n)" if "n \<in> live s" "n \<noteq> root s" for n
    using m(5) [of n] d(9) [OF that] that hc by (auto simp: hold_ok_def of_nat_diff)
  have hs: "set_mset (H - {#h#}) \<subseteq> live s" using d(8) by (auto dest: in_diffD)
  have cn: "int (count (H - {#h#}) n) = int (count H n) + (if n = h then -1 else 0)" for n
    using hc by (auto simp: of_nat_diff)
  have ub: "heap u = heap (bump (anc s h) (-1) ?t)" "counter u = counter ?t" "root u = root ?t" "psize u = psize ?t"
      "mamba_evictable u = mamba_evictable ?t" "mamba_protected u = mamba_protected ?t"
    by (simp_all add: u_def bump_def)
  have ul: "lock_inv (bump (anc s h) (-1) ?t) (full_evictable u) (full_protected u)"
    using b(2) T(9) [OF hl] by (simp add: u_def)
  note hybrid_bump_ok [OF i hl m(1-4) ub ul hs ho cn r]
  then have "hybrid_inv u (H - {#h#}) \<and> live u = live s \<and> root u = root s \<and> psize u = psize s \<and> cached u = cached s \<and>
     owned u = owned s \<and> snaps u = snaps s \<and>
     (\<forall>q \<in> live s. toks u q = toks s q \<and> vals u q = vals s q \<and> n_mamba (heap u q) = n_mamba (heap s q))"
    by blast
  ultimately show ?thesis using that by blast
qed

end
