(* ===== verification/Hybrid_Evict.thy ===== *)
theory Hybrid_Evict
  imports Hybrid_Contract
begin

text \<open>
  The two evictions of the hybrid cache. Both prune unlocked leaves, with the snapshot of the
  pruned node and with the KV-only leaves this uncovers; \<open>evict_mamba\<close> also takes the snapshot of
  an inner node. Nothing a held handle uses is touched, and every slot handed out was in the tree.
\<close>

section \<open>What an eviction may do\<close>

definition free_snaps :: "hybrid \<Rightarrow> nid set" where
  "free_snaps s = {n \<in> live s. n \<noteq> root s \<and> n_mamba (heap s n) \<noteq> None \<and> n_mamba_ref (heap s n) = 0}"

definition pruned :: "nid multiset \<Rightarrow> hybrid \<Rightarrow> slot list \<Rightarrow> slot list \<Rightarrow> hybrid \<Rightarrow> bool" where
  "pruned H s kvs sns s' \<longleftrightarrow> hybrid_inv s' H \<and> live s' \<subseteq> live s \<and> root s' = root s \<and> psize s' = psize s \<and>
     owned s = mset kvs + owned s' \<and> snaps s = mset sns + snaps s' \<and>
     (\<forall>q \<in> live s'. toks s' q = toks s q \<and> vals s' q = vals s q \<and>
        (n_mamba (heap s' q) = n_mamba (heap s q) \<or> n_mamba (heap s' q) = None \<and> q \<notin># H))"

lemma prunedD:
  assumes "pruned H s kvs sns s'"
  shows "hybrid_inv s' H" "live s' \<subseteq> live s" "root s' = root s" "psize s' = psize s"
    "owned s = mset kvs + owned s'" "snaps s = mset sns + snaps s'"
    "q \<in> live s' \<Longrightarrow> toks s' q = toks s q \<and> vals s' q = vals s q"
    "q \<in># H \<Longrightarrow> q \<in> live s' \<and> n_mamba (heap s' q) = n_mamba (heap s q)"
  using assms hybrid_invD(8) [of s' H] by (auto simp: pruned_def)

lemma pruned_refl: "hybrid_inv s H \<Longrightarrow> pruned H s [] [] s"
  by (simp add: pruned_def)

lemma pruned_trans: "pruned H a k n b \<Longrightarrow> pruned H b k' n' c \<Longrightarrow> pruned H a (k @ k') (n @ n') c"
  by (auto simp: pruned_def) (metis subset_iff)+

lemma free_leaf_unheld:
  assumes i: "hybrid_inv s H" and n: "n \<in> free_leaves s"
  shows "n \<notin># H" "n_mamba_ref (heap s n) = 0"
proof -
  note d = hybrid_invD [OF i] and f = free_leafD [OF n]
  have "kids s n = {}" using kids_leaf [OF d(1) f(1)] f(3) by simp
  then have "direct s n = 0" using f(4) by (simp add: direct_def)
  then show "n \<notin># H" "n_mamba_ref (heap s n) = 0"
    using d(9) [OF f(1,2)] by (simp_all add: hold_ok_def flip: count_eq_zero_iff)
qed

section \<open>Pruning one leaf\<close>

lemma hybrid_prune:
  fixes out :: "slot list"
  assumes i: "hybrid_inv s H" and n: "n \<in> free_leaves s"
  defines "t \<equiv> free_node_mamba n (s\<lparr>full_evictable := full_evictable s - int (node_len s n)\<rparr>, out)"
  obtains u p sn where "unlink n (fst t) = Inr (u, p)" "snd t = out @ sn" "pruned H s (n_value (heap s n)) sn u"
    "sn = (case n_mamba (heap s n) of None \<Rightarrow> [] | Some v \<Rightarrow> [v])"
    "live u = live s - {n}" "free_leaves u = free_leaves s - {n} \<union> (if p \<in> free_leaves u then {p} else {})"
    "p \<notin> free_leaves s" "p \<in> live u" "free_snaps u = free_snaps s - {n}" "counter u = counter s"
    "length (n_value (heap s n)) = node_len s n"
proof -
  note d = hybrid_invD [OF i] and f = free_leafD [OF n] and uh = free_leaf_unheld [OF i n]
  obtain p where p: "n_parent (heap s n) = Some p" "p \<in> live s" "\<not> is_leaf s p" "p \<noteq> n" "\<not> is_root s n"
    by (rule free_leaf_parent [OF d(1) n])
  define s1 where "s1 = fst t"
  have s1: "same_tree s s1" "full_evictable s1 = full_evictable s - int (node_len s n)" "full_protected s1 = full_protected s"
    "mamba_evictable s1 = mamba_evictable s - w_mfree (heap s n)" "mamba_protected s1 = mamba_protected s"
    "n_mamba (heap s1 n) = None" "\<And>m. n_mamba_ref (heap s1 m) = n_mamba_ref (heap s m)"
    "\<And>m. m \<noteq> n \<Longrightarrow> n_mamba (heap s1 m) = n_mamba (heap s m)"
    using uh(2) by (auto simp: s1_def t_def free_node_mamba_def same_tree_def heap_upd upd_def shape_def w_mfree_def Let_def split: option.splits)
  define sn where "sn = (case n_mamba (heap s n) of None \<Rightarrow> [] | Some v \<Rightarrow> [v])"
  have out: "snd t = out @ sn" by (auto simp: t_def free_node_mamba_def sn_def Let_def split: option.splits)
  have msn: "mset sn = w_snap (heap s n)" by (auto simp: sn_def w_snap_def split: option.splits)
  note T = same_tree [OF s1(1) d(1)]
  have n1: "n \<in> free_leaves s1" "n_parent (heap s1 n) = Some p" using n p T by simp_all
  have L: "lock_inv s1 (full_evictable s) (full_protected s)" using T(11) d(5) by simp
  have r1: "0 < n_ref (heap s1 (root s1))" using T(13) [of "root s"] T(4) d(2) by simp
  define u where "u = unlink_result n p s1"
  note P = prune_leaf [OF T(1) L r1 n1, folded u_def]
  note e = same_ext_fields [OF P(8)]
  have car: "n_mamba (heap u m) = n_mamba (heap s1 m)" "n_mamba_ref (heap u m) = n_mamba_ref (heap s m)"
    "n_ref (heap u m) = n_ref (heap s m)" for m
    using P(11) [of m] s1(7) [of m] T(13) [of m] by auto
  have z: "w_snap (heap s1 n) = {#}" "w_mfree (heap s1 n) = 0" "w_mheld (heap s1 n) = 0"
    using s1(6) by (simp_all add: w_snap_def w_mfree_def w_mheld_def)
  have zh: "w_mheld (heap s n) = 0" using uh(2) by (simp add: w_mheld_def)
  have o: "n_mamba (heap s1 m) = n_mamba (heap s m) \<and> n_mamba_ref (heap s1 m) = n_mamba_ref (heap s m)" if "m \<noteq> n" for m
    using s1(7,8) that by simp
  note ms = mamba_sums [OF i s1(1) f(1,2) o]
  have nl: "n \<in> live s1" "is_leaf s1 n" using n1(1) by (simp_all add: free_leaves_def)
  have us: "node_sum s1 w = w (heap s1 n) + node_sum u w" if "\<And>nd ks. w (nd\<lparr>n_children := ks\<rparr>) = w nd"
    for w :: "rnode \<Rightarrow> 'z::comm_monoid_add"
    unfolding u_def by (rule node_sum_unlink [OF T(1) nl(1) n1(2) nl(2) that])
  have sums: "node_sum s w_snap = w_snap (heap s n) + node_sum u w_snap" "node_sum s w_mfree = w_mfree (heap s n) + node_sum u w_mfree"
    "node_sum s w_mheld = node_sum u w_mheld"
    using ms us [of w_snap] us [of w_mfree] us [of w_mheld] z zh by (simp_all add: add.commute)
  have lv: "live u = live s - {n}" using P(4) T(2) by simp
  have rt: "root u = root s" "psize u = psize s" "counter u = counter s" using P(5-7) T(4-6) by simp_all
  have hold: "hold_ok u H m" if m: "m \<in> live u" "m \<noteq> root u" for m
  proof -
    have m': "m \<in> live s" "m \<noteq> n" "m \<in> live s1" "m \<noteq> root s" using m lv rt(1) T(2) by auto
    have "direct u m = direct s m" using P(10) [OF m'(3,2)] T(10) [OF m'(1)] by simp
    then show ?thesis using d(9) [OF m'(1,4)] car s1(8) [OF m'(2)] by (simp add: hold_ok_def)
  qed
  have ui: "hybrid_inv u H"
    unfolding hybrid_inv_def
  proof (intro conjI ballI impI)
    show "tree_wf u" by (rule P(2))
    show "n_ref (heap u (root u)) = 1" "n_mamba (heap u (root u)) = None"
      using car [of "root s"] rt(1) d(2,4) s1(8) [of "root s"] f(2) by simp_all
    show "lock_inv u (full_evictable u) (full_protected u)"
      using P(3) e s1(2,3) T(15) by simp
    show "mamba_evictable u = node_sum u w_mfree" "mamba_protected u = node_sum u w_mheld"
      using e s1(4,5) sums d(6,7) by simp_all
    show "set_mset H \<subseteq> live u" using d(8) uh(1) lv by auto
    show "hold_ok u H m" if "m \<in> live u" "m \<noteq> root u" for m by (rule hold [OF that])
  qed
  have ow: "owned s = mset (n_value (heap s n)) + owned u" using P(9) T(12,18) by simp
  have pr: "pruned H s (n_value (heap s n)) sn u"
    unfolding pruned_def
  proof (intro conjI ballI)
    show "snaps s = mset sn + snaps u" using sums(1) msn by (simp add: snaps_def)
    fix q assume q: "q \<in> live u"
    then have q': "q \<in> live s" "q \<noteq> n" "q \<in> live s1" using lv T(2) by auto
    show "toks u q = toks s q" "vals u q = vals s q" using P(10) [OF q'(3,2)] T(7,8) [OF q'(1)] by simp_all
    show "n_mamba (heap u q) = n_mamba (heap s q) \<or> n_mamba (heap u q) = None \<and> q \<notin># H"
      using car(1) s1(8) [OF q'(2)] by simp
  qed (use ui lv rt ow in auto)
  have pf: "p \<in> free_leaves u \<longleftrightarrow> is_leaf u p \<and> n_ref (heap u p) = 0 \<and> \<not> is_root u p"
    using P(14) inv_is_root [OF wfD [OF P(2)] P(14)] by (auto simp: free_leaves_def)
  show ?thesis
  proof (rule that [of u p sn])
    show "unlink n (fst t) = Inr (u, p)" using P(1) by (simp add: s1_def)
    show "free_leaves u = free_leaves s - {n} \<union> (if p \<in> free_leaves u then {p} else {})"
      unfolding pf using P(12) unfolding T(14) .
    show "p \<notin> free_leaves s" using P(13) T(14) by simp
    show "free_snaps u = free_snaps s - {n}"
      using lv rt(1) car s1(8) by (auto simp: free_snaps_def)
    show "length (n_value (heap s n)) = node_len s n"
      by (rule inv_len_value [OF wfD [OF d(1)] f(1,2)])
  qed (use out pr lv P(14) rt in \<open>auto simp: sn_def\<close>)
qed

lemma leafy_iff:
  assumes i: "hybrid_inv s H" and p: "p \<in> live s"
  shows "is_leaf s p \<and> n_ref (heap s p) = 0 \<and> \<not> is_root s p \<longleftrightarrow> p \<in> free_leaves s"
  using p inv_is_root [OF wfD [OF hybrid_invD(1) [OF i]] p] by (auto simp: free_leaves_def)

section \<open>The cascade\<close>

lemma cascade_loop_ok:
  assumes "hybrid_inv s H" and "p \<in> live s" and "free_leaves s = Q \<union> (if p \<in> free_leaves s then {p} else {})"
    and "p \<notin> Q" and "card (live s) \<le> f"
  shows "\<exists>s' p' vss. cascade_loop f p s kv fr = Inr (s', p', kv @ vss, fr + int (length (concat vss))) \<and>
    pruned H s (concat vss) [] s' \<and> p' \<in> live s' \<and> p' \<notin> Q \<and> card (live s') \<le> card (live s) \<and>
    free_leaves s' = Q \<union> (if p' \<in> free_leaves s' then {p'} else {}) \<and> free_snaps s' = free_snaps s \<and> counter s' = counter s"
  using assms
proof (induction f arbitrary: p s kv fr)
  case 0
  then show ?case using live_finite [OF hybrid_invD(1) [OF 0(1)]] by (auto simp: card_eq_0_iff)
next
  case (Suc f)
  note i = Suc.prems(1)
  have fin: "finite (live s)" by (rule live_finite [OF hybrid_invD(1) [OF i]])
  show ?case
  proof (cases "n_mamba (heap s p) = None \<and> p \<in> free_leaves s")
    case False
    then have "cascade_loop (Suc f) p s kv fr = Inr (s, p, kv, fr)"
      using leafy_iff [OF i Suc.prems(2)] by auto
    then show ?thesis using Suc.prems pruned_refl [OF i] by (intro exI [of _ s] exI [of _ p] exI [of _ "[]"]) auto
  next
    case True
    note m = True [THEN conjunct1] and fl = True [THEN conjunct2]
    let ?s0 = "s\<lparr>full_evictable := full_evictable s - int (node_len s p)\<rparr>"
    have t: "free_node_mamba p (?s0, []) = (?s0, [])" using m by (simp add: free_node_mamba_def)
    obtain u p2 sn where u: "unlink p ?s0 = Inr (u, p2)" "pruned H s (n_value (heap s p)) [] u"
      "live u = live s - {p}" "free_leaves u = free_leaves s - {p} \<union> (if p2 \<in> free_leaves u then {p2} else {})"
      "p2 \<notin> free_leaves s" "p2 \<in> live u" "free_snaps u = free_snaps s - {p}" "counter u = counter s"
      "length (n_value (heap s p)) = node_len s p"
      by (rule hybrid_prune [OF i fl, of "[]", unfolded t]) (use m in simp)
    have c: "card (live u) \<le> f" "card (live u) \<le> card (live s)"
      using u(3) Suc.prems(2,5) fin by auto
    have Q: "free_leaves u = Q \<union> (if p2 \<in> free_leaves u then {p2} else {})" "p2 \<notin> Q"
      using u(4,5) Suc.prems(3,4) fl by auto
    obtain s' p' vss where r: "cascade_loop f p2 u (kv @ [n_value (heap s p)]) (fr + int (node_len s p)) =
        Inr (s', p', (kv @ [n_value (heap s p)]) @ vss, (fr + int (node_len s p)) + int (length (concat vss)))"
      "pruned H u (concat vss) [] s'" "p' \<in> live s'" "p' \<notin> Q" "card (live s') \<le> card (live u)"
      "free_leaves s' = Q \<union> (if p' \<in> free_leaves s' then {p'} else {})" "free_snaps s' = free_snaps u" "counter s' = counter u"
      using Suc.IH [OF prunedD(1) [OF u(2)] u(6) Q c(1)] by blast
    have "cascade_loop (Suc f) p s kv fr = cascade_loop f p2 u (kv @ [n_value (heap s p)]) (fr + int (node_len s p))"
      using leafy_iff [OF i Suc.prems(2)] fl m u(1) by (simp add: Let_def)
    moreover have "pruned H s (concat (n_value (heap s p) # vss)) [] s'"
      using pruned_trans [OF u(2) r(2)] by simp
    moreover have "free_snaps s' = free_snaps s" using r(7) u(7) m by (auto simp: free_snaps_def)
    ultimately show ?thesis
      using r(1,3-6,8) c(2) u(8,9) by (intro exI [of _ s'] exI [of _ p'] exI [of _ "n_value (heap s p) # vss"]) auto
  qed
qed

text \<open>One pruned leaf with the cascade behind it.\<close>

lemma prune_cascade:
  assumes i: "hybrid_inv s H" and n: "n \<in> free_leaves s"
  obtains t u p u' p' vss c sn where
    "free_node_mamba n (s\<lparr>full_evictable := full_evictable s - int (node_len s n)\<rparr>, out) = (t, out @ sn)"
    "unlink n t = Inr (u, p)" "cascade_tombstone_leaves p u kv = Inr (u', p', kv @ vss, c)"
    "pruned H s (n_value (heap s n) @ concat vss) sn u'" "card (live u') < card (live s)"
    "free_leaves u' = free_leaves s - {n} \<union> (if p' \<in> free_leaves u' then {p'} else {})"
    "p' \<in> live u'" "p' \<notin> free_leaves s - {n}" "free_snaps u' = free_snaps s - {n}" "counter u' = counter s"
    "c = int (length (concat vss))" "sn = (case n_mamba (heap s n) of None \<Rightarrow> [] | Some v \<Rightarrow> [v])"
    "length (n_value (heap s n)) = node_len s n"
proof -
  let ?t = "free_node_mamba n (s\<lparr>full_evictable := full_evictable s - int (node_len s n)\<rparr>, out)"
  note d = hybrid_invD [OF i] and f = free_leafD [OF n]
  obtain u p sn where u: "unlink n (fst ?t) = Inr (u, p)" "snd ?t = out @ sn" "pruned H s (n_value (heap s n)) sn u"
    "sn = (case n_mamba (heap s n) of None \<Rightarrow> [] | Some v \<Rightarrow> [v])"
    "live u = live s - {n}" "free_leaves u = free_leaves s - {n} \<union> (if p \<in> free_leaves u then {p} else {})"
    "p \<notin> free_leaves s" "p \<in> live u" "free_snaps u = free_snaps s - {n}" "counter u = counter s"
    "length (n_value (heap s n)) = node_len s n"
    by (rule hybrid_prune [OF i n])
  have "live u \<subseteq> {..<counter u}" using wfD [OF hybrid_invD(1) [OF prunedD(1) [OF u(3)]]] by (simp add: tree_inv_def)
  then have c: "card (live u) \<le> Suc (counter u)" using card_mono [of "{..<counter u}" "live u"] by simp
  have p: "p \<notin> free_leaves s - {n}" using u(7) by blast
  obtain u' p' vss where r: "cascade_loop (Suc (counter u)) p u kv 0 = Inr (u', p', kv @ vss, 0 + int (length (concat vss)))"
    "pruned H u (concat vss) [] u'" "p' \<in> live u'" "p' \<notin> free_leaves s - {n}" "card (live u') \<le> card (live u)"
    "free_leaves u' = free_leaves s - {n} \<union> (if p' \<in> free_leaves u' then {p'} else {})"
    "free_snaps u' = free_snaps u" "counter u' = counter u"
    using cascade_loop_ok [OF prunedD(1) [OF u(3)] u(8,6) p c, of kv 0] by blast
  have "card (live u) < card (live s)"
    using card_Diff1_less [OF live_finite [OF d(1)] f(1)] u(5) by simp
  moreover have "pruned H s (n_value (heap s n) @ concat vss) sn u'" using pruned_trans [OF u(3) r(2)] by simp
  ultimately show ?thesis
    using that [of "fst ?t" sn u p u' p' vss "int (length (concat vss))"] u r
    by (simp add: cascade_tombstone_leaves_def prod_eq_iff)
qed

section \<open>The loops\<close>

text \<open>\<open>evict_full\<close> frees what was asked for or runs out of unlocked leaves.\<close>

lemma evict_full_loop_ok:
  assumes "hybrid_inv s H" and "distinct q" and "set q = free_leaves s" and "card (live s) \<le> f"
  shows "\<exists>s' vss sns. evict_full_loop f num q s kv mm fr = Inr (s', kv @ vss, mm @ sns) \<and>
    pruned H s (concat vss) sns s' \<and> (num \<le> fr + int (length (concat vss)) \<or> free_leaves s' = {})"
  using assms
proof (induction f arbitrary: q s kv mm fr)
  case 0
  then show ?case using live_finite [OF hybrid_invD(1) [OF 0(1)]] live.root [of s] by (auto simp: card_eq_0_iff)
next
  case (Suc f)
  note i = Suc.prems(1)
  show ?case
  proof (cases "fr < num \<and> q \<noteq> []")
    case False
    then have "evict_full_loop (Suc f) num q s kv mm fr = Inr (s, kv, mm)" by auto
    then show ?thesis
      using False Suc.prems(3) pruned_refl [OF i] by (intro exI [of _ s] exI [of _ "[]"]) auto
  next
    case True
    obtain n rest where hp: "heappop s q = (n, rest)" by (metis prod.collapse)
    have n: "n \<in> set q" "rest = remove1 n q" using heappop_in [OF _ hp] True by auto
    have nf: "n \<in> free_leaves s" using n(1) Suc.prems(3) by simp
    note fl = free_leafD [OF nf]
    have nr: "\<not> is_root s n" using leafy_iff [OF i fl(1)] nf by simp
    obtain t u p u' p' vss c sn where r:
      "free_node_mamba n (s\<lparr>full_evictable := full_evictable s - int (node_len s n)\<rparr>, mm) = (t, mm @ sn)"
      "unlink n t = Inr (u, p)" "cascade_tombstone_leaves p u (kv @ [n_value (heap s n)]) = Inr (u', p', (kv @ [n_value (heap s n)]) @ vss, c)"
      "pruned H s (n_value (heap s n) @ concat vss) sn u'" "card (live u') < card (live s)"
      "free_leaves u' = free_leaves s - {n} \<union> (if p' \<in> free_leaves u' then {p'} else {})"
      "p' \<in> live u'" "p' \<notin> free_leaves s - {n}" "c = int (length (concat vss))"
      "length (n_value (heap s n)) = node_len s n"
      by (rule prune_cascade [OF i nf, where out = mm and kv = "kv @ [n_value (heap s n)]"])
    note ui = prunedD(1) [OF r(4)]
    define q' where "q' = (if is_leaf u' p' \<and> n_ref (heap u' p') = 0 \<and> \<not> is_root u' p' then heappush p' rest else rest)"
    have st: "evict_full_loop (Suc f) num q s kv mm fr =
        evict_full_loop f num q' u' (kv @ [n_value (heap s n)] @ vss) (mm @ sn) (fr + int (node_len s n) + c)"
      using True hp fl nr r(1-3) by (simp add: Let_def q'_def)
    have rest: "distinct rest" "set rest = free_leaves s - {n}"
      using Suc.prems(2,3) n(2) by (simp_all add: set_remove1_eq)
    have "q' = (if p' \<in> free_leaves u' then rest @ [p'] else rest)"
      unfolding q'_def leafy_iff [OF ui r(7)] heappush_def ..
    then have "distinct q' \<and> set q' = free_leaves s - {n} \<union> (if p' \<in> free_leaves u' then {p'} else {})"
      using rest r(8) by (cases "p' \<in> free_leaves u'") simp_all
    then have q': "distinct q'" "set q' = free_leaves u'" unfolding r(6) [symmetric] by blast+
    have "card (live u') \<le> f" using r(5) Suc.prems(4) by simp
    from Suc.IH [OF ui q' this, of "kv @ [n_value (heap s n)] @ vss" "mm @ sn" "fr + int (node_len s n) + c"]
    obtain s' vss' sns where w:
      "evict_full_loop f num q' u' (kv @ [n_value (heap s n)] @ vss) (mm @ sn) (fr + int (node_len s n) + c) =
         Inr (s', (kv @ [n_value (heap s n)] @ vss) @ vss', (mm @ sn) @ sns)"
      "pruned H u' (concat vss') sns s'"
      "num \<le> fr + int (node_len s n) + c + int (length (concat vss')) \<or> free_leaves s' = {}" by blast
    have "pruned H s (concat (n_value (heap s n) # vss @ vss')) (sn @ sns) s'"
      using pruned_trans [OF r(4) w(2)] by simp
    then show ?thesis
      unfolding st using w(1,3) r(9,10)
      by (intro exI [of _ s'] exI [of _ "n_value (heap s n) # vss @ vss'"] exI [of _ "sn @ sns"]) auto
  qed
qed

text \<open>The snapshot of an inner or locked node goes, its KV stays.\<close>

lemma drop_snapshot:
  assumes i: "hybrid_inv s H" and n: "n \<in> free_snaps s"
  obtains t v where "n_mamba (heap s n) = Some v" "free_node_mamba n (s, out) = (t, out @ [v])" "pruned H s [] [v] t"
    "free_snaps t = free_snaps s - {n}"
proof -
  from n obtain v where v: "n \<in> live s" "n \<noteq> root s" "n_mamba (heap s n) = Some v" "n_mamba_ref (heap s n) = 0"
    by (auto simp: free_snaps_def)
  note d = hybrid_invD [OF i] and ho = hybrid_invD(9) [OF i v(1,2)]
  have uh: "n \<notin># H" using ho v(4) by (auto simp: hold_ok_def count_eq_zero_iff)
  let ?t = "(upd n (\<lambda>nd. nd\<lparr>n_mamba := None\<rparr>) s)\<lparr>mamba_evictable := mamba_evictable s - 1\<rparr>"
  have e: "free_node_mamba n (s, out) = (?t, out @ [v])"
    using v by (simp add: free_node_mamba_def heap_upd Let_def) (simp add: upd_def)
  have t: "same_tree s ?t" by (simp add: same_tree_def heap_upd upd_def shape_def)
  note T = same_tree [OF t d(1)]
  have o: "n_mamba (heap ?t m) = n_mamba (heap s m) \<and> n_mamba_ref (heap ?t m) = n_mamba_ref (heap s m)" if "m \<noteq> n" for m
    using that by (simp add: heap_upd)
  have hn: "n_mamba (heap ?t n) = None" "n_mamba_ref (heap ?t n) = 0" using v(4) by (simp_all add: heap_upd)
  have ti: "hybrid_inv ?t H"
  proof (rule hybrid_inv_carry [OF i t v(1,2) o])
    show "full_evictable ?t = full_evictable s" "full_protected ?t = full_protected s" by (simp_all add: upd_def)
    show "mamba_evictable ?t + w_mfree (heap s n) = mamba_evictable s + w_mfree (heap ?t n)"
      "mamba_protected ?t + w_mheld (heap s n) = mamba_protected s + w_mheld (heap ?t n)"
      using v hn unfolding w_mfree_def w_mheld_def by (simp_all add: upd_def)
    show "hold_ok ?t H n" using ho hn v(4) uh T(10) [OF v(1)] by (simp add: hold_ok_def)
  qed
  have "w_snap (heap s n) = {#v#}" "w_snap (heap ?t n) = {#}" using v hn by (simp_all add: w_snap_def)
  then have "snaps s = mset [v] + snaps ?t"
    using mamba_sums(1) [OF i t v(1,2) o] by (simp add: snaps_def)
  then have "pruned H s [] [v] ?t"
    unfolding pruned_def
  proof (intro conjI ballI)
    show "n_mamba (heap ?t q) = n_mamba (heap s q) \<or> n_mamba (heap ?t q) = None \<and> q \<notin># H" for q
      using o [of q] hn uh by (cases "q = n") auto
  qed (use ti T in auto)
  moreover have "free_snaps ?t = free_snaps s - {n}"
  proof (rule set_eqI)
    show "m \<in> free_snaps ?t \<longleftrightarrow> m \<in> free_snaps s - {n}" for m
      using T(2,4) o [of m] hn by (cases "m = n") (auto simp: free_snaps_def simp del: heap_upd)
  qed
  ultimately show ?thesis by (rule that [OF v(3) e])
qed

lemma evict_mamba_loop_ok:
  assumes "hybrid_inv s H" and "distinct q" and "set q = free_snaps s" and "length q < f"
  shows "\<exists>s' vss sns. evict_mamba_loop f num q s kv mm fr = Inr (s', kv @ vss, mm @ sns) \<and>
    pruned H s (concat vss) sns s' \<and> (num \<le> fr + int (length sns) \<or> free_snaps s' = {})"
  using assms
proof (induction f arbitrary: q s kv mm fr)
  case (Suc f)
  note i = Suc.prems(1)
  show ?case
  proof (cases "fr < num \<and> q \<noteq> []")
    case False
    then have "evict_mamba_loop (Suc f) num q s kv mm fr = Inr (s, kv, mm)" by auto
    then show ?thesis
      using False Suc.prems(3) pruned_refl [OF i] by (intro exI [of _ s] exI [of _ "[]"]) auto
  next
    case True
    obtain n rest where hp: "heappop s q = (n, rest)" by (metis prod.collapse)
    have n: "n \<in> set q" "rest = remove1 n q" using heappop_in [OF _ hp] True by auto
    have nf: "n \<in> free_snaps s" using n(1) Suc.prems(3) by simp
    have nl: "n \<in> live s" "n_mamba (heap s n) \<noteq> None" "n_mamba_ref (heap s n) = 0" "\<not> is_root s n"
      using nf inv_is_root [OF wfD [OF hybrid_invD(1) [OF i]]] by (auto simp: free_snaps_def)
    obtain v0 where nv: "n_mamba (heap s n) = Some v0" using nl(2) by blast
    have rest: "distinct rest" "set rest = free_snaps s - {n}" "length rest < f"
      using n Suc.prems(2-4) length_pos_if_in_set [OF n(1)]
      by (simp_all add: set_remove1_eq length_remove1 del: length_greater_0_conv)
    show ?thesis
    proof (cases "n \<in> free_leaves s")
      case True
      note fl = free_leafD [OF True]
      obtain t u p u' p' vss c sn where r:
        "free_node_mamba n (s\<lparr>full_evictable := full_evictable s - int (node_len s n)\<rparr>, mm) = (t, mm @ sn)"
        "unlink n t = Inr (u, p)" "cascade_tombstone_leaves p u (kv @ [n_value (heap s n)]) = Inr (u', p', (kv @ [n_value (heap s n)]) @ vss, c)"
        "pruned H s (n_value (heap s n) @ concat vss) sn u'" "free_snaps u' = free_snaps s - {n}"
        "sn = (case n_mamba (heap s n) of None \<Rightarrow> [] | Some v \<Rightarrow> [v])"
        by (rule prune_cascade [OF i True, where out = mm and kv = "kv @ [n_value (heap s n)]"])
      have st: "evict_mamba_loop (Suc f) num q s kv mm fr =
          evict_mamba_loop f num rest u' (kv @ [n_value (heap s n)] @ vss) (mm @ sn) (fr + 1)"
        using \<open>fr < num \<and> q \<noteq> []\<close> hp nl nv fl r(1-3) by (simp add: Let_def)
      have q': "set rest = free_snaps u'" using rest(2) r(5) by simp
      from Suc.IH [OF prunedD(1) [OF r(4)] rest(1) q' rest(3), of "kv @ [n_value (heap s n)] @ vss" "mm @ sn" "fr + 1"]
      obtain s' vss' sns where w:
        "evict_mamba_loop f num rest u' (kv @ [n_value (heap s n)] @ vss) (mm @ sn) (fr + 1) =
           Inr (s', (kv @ [n_value (heap s n)] @ vss) @ vss', (mm @ sn) @ sns)"
        "pruned H u' (concat vss') sns s'" "num \<le> fr + 1 + int (length sns) \<or> free_snaps s' = {}" by blast
      have "pruned H s (concat (n_value (heap s n) # vss @ vss')) (sn @ sns) s'"
        using pruned_trans [OF r(4) w(2)] by simp
      then show ?thesis
        unfolding st using w(1,3) r(6) nl(2)
        by (intro exI [of _ s'] exI [of _ "n_value (heap s n) # vss @ vss'"] exI [of _ "sn @ sns"]) auto
    next
      case False
      obtain t v where r: "free_node_mamba n (s, mm) = (t, mm @ [v])" "pruned H s [] [v] t" "free_snaps t = free_snaps s - {n}"
        by (rule drop_snapshot [OF i nf, where out = mm])
      have nlf: "\<not> (is_leaf s n \<and> n_ref (heap s n) = 0)" using leafy_iff [OF i nl(1)] False nl(4) by simp
      have st: "evict_mamba_loop (Suc f) num q s kv mm fr = evict_mamba_loop f num rest t kv (mm @ [v]) (fr + 1)"
        using \<open>fr < num \<and> q \<noteq> []\<close> hp nl nv nlf r(1) by (auto simp: Let_def)
      have q': "set rest = free_snaps t" using rest(2) r(3) by simp
      from Suc.IH [OF prunedD(1) [OF r(2)] rest(1) q' rest(3), of kv "mm @ [v]" "fr + 1"]
      obtain s' vss' sns where w:
        "evict_mamba_loop f num rest t kv (mm @ [v]) (fr + 1) = Inr (s', kv @ vss', (mm @ [v]) @ sns)"
        "pruned H t (concat vss') sns s'" "num \<le> fr + 1 + int (length sns) \<or> free_snaps s' = {}" by blast
      have "pruned H s (concat vss') (v # sns) s'" using pruned_trans [OF r(2) w(2)] by simp
      then show ?thesis
        unfolding st using w(1,3) by (intro exI [of _ s'] exI [of _ vss'] exI [of _ "v # sns"]) auto
    qed
  qed
qed simp

section \<open>The operations\<close>

lemma hybrid_evict_full_ok:
  assumes i: "hybrid_inv s H"
  obtains s' kvs sns where "hybrid_evict_full num s = Inr (s', kvs, sns)" "pruned H s kvs sns s'"
    "num \<le> int (length kvs) \<or> full_evictable s' = 0"
proof -
  note d = hybrid_invD [OF i]
  obtain ns where ns: "dfs s = Inr ns" "distinct ns" "set ns = live s" by (rule dfs_ok [OF d(1)])
  let ?q = "filter (\<lambda>n. n_ref (heap s n) = 0) (filter (\<lambda>n. is_leaf s n \<and> \<not> is_root s n) ns)"
  have q: "distinct ?q" "set ?q = free_leaves s"
    using ns(2,3) leafy_iff [OF i] by (auto simp: free_leaves_def)
  have f: "card (live s) \<le> Suc (2 * counter s)" using live_le_counter [OF d(1)] by simp
  obtain s' vss sns where r: "evict_full_loop (Suc (2 * counter s)) num ?q s [] [] 0 = Inr (s', vss, sns)"
    "pruned H s (concat vss) sns s'" "num \<le> int (length (concat vss)) \<or> free_leaves s' = {}"
    using evict_full_loop_ok [OF i q f, of num "[]" "[]" 0] by auto
  note d' = hybrid_invD [OF prunedD(1) [OF r(2)]]
  have "full_evictable s' = 0" if "free_leaves s' = {}"
  proof (rule ccontr)
    assume a: "full_evictable s' \<noteq> 0"
    have "0 \<le> full_evictable s'"
    proof -
      have "0 \<le> node_sum s' w_free" unfolding node_sum_def by (rule sum_nonneg) (auto simp: w_free_def w_len_def)
      then show ?thesis using d'(5) by (simp add: lock_inv_def)
    qed
    then have "0 < full_evictable s'" using a by simp
    from unlocked_leaf_exists [OF d'(1,5) this] that show False by (auto simp: free_leaves_def)
  qed
  moreover have "hybrid_evict_full num s = Inr (s', concat vss, sns)"
    using ns(1) r(1) by (simp add: hybrid_evict_full_def leaves_def del: evict_full_loop.simps)
  ultimately show ?thesis using that r(2,3) by blast
qed

lemma hybrid_evict_mamba_ok:
  assumes i: "hybrid_inv s H"
  obtains s' kvs sns where "hybrid_evict_mamba num s = Inr (s', kvs, sns)" "pruned H s kvs sns s'"
    "num \<le> int (length sns) \<or> mamba_evictable s' = 0"
proof -
  note d = hybrid_invD [OF i]
  obtain ns where ns: "dfs s = Inr ns" "distinct ns" "set ns = live s" by (rule dfs_ok [OF d(1)])
  let ?q = "filter (\<lambda>n. n_mamba_ref (heap s n) = 0) (filter (\<lambda>n. n_mamba (heap s n) \<noteq> None \<and> \<not> is_root s n) ns)"
  have q: "distinct ?q" "set ?q = free_snaps s"
    using ns(2,3) inv_is_root [OF wfD [OF d(1)]] by (auto simp: free_snaps_def)
  have "length ns \<le> counter s"
    using live_le_counter [OF d(1)] distinct_card [OF ns(2)] ns(3) by simp
  moreover have "length ?q \<le> length ns" by (rule order_trans [OF length_filter_le length_filter_le])
  ultimately have f: "length ?q < Suc (counter s)" by (meson le_imp_less_Suc order_trans)
  obtain s' vss sns where r: "evict_mamba_loop (Suc (counter s)) num ?q s [] [] 0 = Inr (s', vss, sns)"
    "pruned H s (concat vss) sns s'" "num \<le> int (length sns) \<or> free_snaps s' = {}"
    using evict_mamba_loop_ok [OF i q f, of num "[]" "[]" 0] by auto
  note d' = hybrid_invD [OF prunedD(1) [OF r(2)]]
  have "mamba_evictable s' = 0" if "free_snaps s' = {}"
    unfolding d'(6) node_sum_def
    by (rule sum.neutral) (use that in \<open>auto simp: free_snaps_def w_mfree_def\<close>)
  moreover have "hybrid_evict_mamba num s = Inr (s', concat vss, sns)"
    using ns(1) r(1) by (simp add: hybrid_evict_mamba_def snapshot_nodes_def del: evict_mamba_loop.simps)
  ultimately show ?thesis using that r(2,3) by blast
qed

end
