(* ===== verification/Hybrid_Properties.thy ===== *)
theory Hybrid_Properties
  imports Hybrid_Evict Radix_Cache
begin

text \<open>
  What the hybrid cache guarantees in every state its clients can reach: no operation raises, the
  integrity check passes, the counters are exact, a match is the deepest snapshot, and the
  evictions hand out exactly what they remove and nothing a held handle uses.
\<close>

section \<open>Clients\<close>

text \<open>
  What the page manager does with the cache: insert a prefix with a donated snapshot, match and
  lock the match, unlock a held handle, evict either side. A match alone is a step too: it splits
  nodes.
\<close>

inductive hybrid_step :: "hybrid \<times> nid multiset \<Rightarrow> hybrid \<times> nid multiset \<Rightarrow> bool" where
  look: "hybrid_match tic ids s = Inr (s', m) \<Longrightarrow> hybrid_step (s, H) (s', H)"
| insert: "hybrid_insert tic tic' ids idx mv s = Inr (s', k, ex) \<Longrightarrow> length ids \<le> length idx \<Longrightarrow> hybrid_step (s, H) (s', H)"
| lock: "hybrid_match tic ids s = Inr (s1, m) \<Longrightarrow> hybrid_inc_lock (hm_node m) s1 = Inr s' \<Longrightarrow>
     hybrid_step (s, H) (s', add_mset (hm_node m) H)"
| unlock: "h \<in># H \<Longrightarrow> hybrid_dec_lock h s = Inr s' \<Longrightarrow> hybrid_step (s, H) (s', H - {#h#})"
| evict_kv: "hybrid_evict_full num s = Inr (s', kvs, sns) \<Longrightarrow> hybrid_step (s, H) (s', H)"
| evict_snap: "hybrid_evict_mamba num s = Inr (s', kvs, sns) \<Longrightarrow> hybrid_step (s, H) (s', H)"

lemma hybrid_step_inv: "hybrid_step a b \<Longrightarrow> hybrid_inv (fst a) (snd a) \<Longrightarrow> hybrid_inv (fst b) (snd b)"
proof (induction rule: hybrid_step.induct)
  case (look tic ids s s' m H)
  have i: "hybrid_inv s H" using look by simp
  show ?case by (rule hybrid_match_ok [OF i, of tic ids]) (use look in simp)
next
  case (insert tic tic' ids idx mv s s' k ex H)
  have i: "hybrid_inv s H" using insert by simp
  show ?case by (rule hybrid_insert_ok [OF i insert(2), of tic tic' mv]) (use insert in simp)
next
  case (lock tic ids s s1 m s' H)
  have i: "hybrid_inv s H" using lock by simp
  show ?case
  proof (rule hybrid_match_ok [OF i, of tic ids])
    fix s2 m2
    assume a: "hybrid_match tic ids s = Inr (s2, m2)" "hybrid_inv s2 H" "hm_node m2 \<in> live s2"
      "hm_mamba m2 = n_mamba (heap s2 (hm_node m2))" "hm_node m2 \<noteq> root s2 \<Longrightarrow> hm_mamba m2 \<noteq> None"
    have e: "s2 = s1" "m2 = m" using a(1) lock(1) by simp_all
    have n: "n_mamba (heap s1 (hm_node m)) \<noteq> None \<or> hm_node m = root s1" using a(4,5) e by auto
    show ?thesis by (rule hybrid_lock_ok [OF a(2,3) [unfolded e] n]) (use lock(2) in simp)
  qed
next
  case (unlock h H s s')
  have i: "hybrid_inv s H" using unlock by simp
  show ?case by (rule hybrid_unlock_ok [OF i unlock(1)]) (use unlock in simp)
next
  case (evict_kv num s s' kvs sns H)
  have i: "hybrid_inv s H" using evict_kv by simp
  show ?case by (rule hybrid_evict_full_ok [OF i, of num]) (use evict_kv prunedD(1) in fastforce)
next
  case (evict_snap num s s' kvs sns H)
  have i: "hybrid_inv s H" using evict_snap by simp
  show ?case by (rule hybrid_evict_mamba_ok [OF i, of num]) (use evict_snap prunedD(1) in fastforce)
qed

lemma hybrid_steps_inv: "hybrid_step\<^sup>*\<^sup>* a b \<Longrightarrow> hybrid_inv (fst a) (snd a) \<Longrightarrow> hybrid_inv (fst b) (snd b)"
  by (induction rule: rtranclp_induct) (blast intro: hybrid_step_inv)+

lemma hybrid_init_inv:
  assumes "hybrid_init chunk ps uuid tic = Inr s" and "0 < ps"
  shows "hybrid_inv s {#}"
proof -
  let ?r = "radix_init ps uuid tic"
  note r = radix_okD [OF radix_init_ok [OF assms(2), of uuid tic]]
  have s: "s = \<lparr>heap = heap ?r, counter = counter ?r, root = root ?r, psize = psize ?r, full_evictable = 0, full_protected = 0,
                mamba_evictable = 0, mamba_protected = 0\<rparr>"
    using assms(1) by (auto simp: hybrid_init_def radix_init_def split: if_splits)
  have t: "same_tree ?r s" by (simp add: s same_tree_def)
  note T = same_tree [OF t r(1)]
  have l: "live s = {root s}"
    using T(2,4) tree_inv_wf(2) [OF radix_init_wf [OF assms(2), of uuid tic]] by (simp add: radix_init_def)
  have "lock_inv s 0 0" using T(11) r(3) by (simp add: radix_init_def)
  moreover have "n_ref (heap s (root s)) = 1" using r(2) by (simp add: s)
  moreover have "n_mamba (heap s (root s)) = None" by (simp add: s radix_init_def new_node_def)
  ultimately show ?thesis
    using T(1) l by (simp add: hybrid_inv_def node_sum_def) (simp add: s)
qed

lemma hybrid_reach_inv:
  assumes "hybrid_init chunk ps uuid tic = Inr t" and "0 < ps" and "hybrid_step\<^sup>*\<^sup>* (t, {#}) (s, H)"
  shows "hybrid_inv s H"
  using hybrid_steps_inv [OF assms(3)] hybrid_init_inv [OF assms(1,2)] by simp

lemma hybrid_integrity:
  assumes i: "hybrid_inv s H"
  shows "hybrid_check_integrity s = Inr ()"
proof -
  note d = hybrid_invD [OF i]
  obtain ns where ns: "dfs s = Inr ns" "set ns = live s" by (rule dfs_ok [OF d(1)])
  have "0 \<le> n_mamba_ref (heap s n) \<and> 0 \<le> n_ref (heap s n)" if "n \<in> live s" "n \<noteq> root s" for n
    using d(9) [OF that] lock_inv_refs(1) [OF d(5) that] by (simp add: hold_ok_def)
  then show ?thesis
    using ns inv_is_root [OF wfD [OF d(1)]]
    by (auto simp: hybrid_check_integrity_def snapshot_nodes_def)
qed

section \<open>Properties\<close>

text \<open>C18: in every state that \<open>HybridRadixCache\<close> reaches from an empty tree by its own operations, where each
  insertion brings at least as many slots as tokens and each lock follows the match whose node it pins, no
  operation raises: the integrity check, a match, the lock of the node it returns, the unlock of every held
  handle, an insertion and both evictions return. Every held handle still stands on a live node that owns its
  snapshot (or on the root), and the snapshot counters are the number of unheld and of held snapshots in the tree.\<close>

theorem hybrid_run_total:
  assumes "hybrid_init chunk ps uuid tic = Inr t" and "0 < ps" and "hybrid_step\<^sup>*\<^sup>* (t, {#}) (s, H)"
    and "length ids \<le> length idx"
  shows "hybrid_check_integrity s = Inr () \<and>
    (\<exists>s1 m r. hybrid_match tic ids s = Inr (s1, m) \<and> hybrid_inc_lock (hm_node m) s1 = Inr r) \<and>
    (\<exists>r. hybrid_insert tic tic' ids idx mv s = Inr r) \<and>
    (\<exists>r. hybrid_evict_full num s = Inr r) \<and> (\<exists>r. hybrid_evict_mamba num s = Inr r) \<and>
    (\<forall>h \<in># H. (\<exists>r. hybrid_dec_lock h s = Inr r) \<and> h \<in> live s \<and> (h \<noteq> root s \<longrightarrow> n_mamba (heap s h) \<noteq> None)) \<and>
    mamba_evictable s = int (card {n \<in> live s - {root s}. n_mamba (heap s n) \<noteq> None \<and> n \<notin># H}) \<and>
    mamba_protected s = int (card {n \<in> live s - {root s}. n_mamba (heap s n) \<noteq> None \<and> n \<in># H})"
proof -
  have i: "hybrid_inv s H" by (rule hybrid_reach_inv [OF assms(1-3)])
  note d = hybrid_invD [OF i]
  have z: "n_mamba_ref (heap s n) = 0 \<longleftrightarrow> n \<notin># H" if "n \<in> live s" "n \<noteq> root s" for n
    using d(9) [OF that] by (simp add: hold_ok_def count_eq_zero_iff)
  have "mamba_evictable s = int (card {n \<in> live s - {root s}. n_mamba (heap s n) \<noteq> None \<and> n \<notin># H})"
    unfolding d(6) by (rule node_sum_count [OF d(1)]) (simp add: w_mfree_def z)
  moreover have "mamba_protected s = int (card {n \<in> live s - {root s}. n_mamba (heap s n) \<noteq> None \<and> n \<in># H})"
    unfolding d(7) by (rule node_sum_count [OF d(1)]) (simp add: w_mheld_def z)
  moreover have "\<exists>s1 m r. hybrid_match tic ids s = Inr (s1, m) \<and> hybrid_inc_lock (hm_node m) s1 = Inr r"
  proof (rule hybrid_match_ok [OF i, of tic ids])
    fix s1 m
    assume a: "hybrid_match tic ids s = Inr (s1, m)" "hybrid_inv s1 H" "hm_node m \<in> live s1"
      "hm_mamba m = n_mamba (heap s1 (hm_node m))" "hm_node m \<noteq> root s1 \<Longrightarrow> hm_mamba m \<noteq> None"
    have n: "n_mamba (heap s1 (hm_node m)) \<noteq> None \<or> hm_node m = root s1" using a(4,5) by auto
    have "\<exists>r. hybrid_inc_lock (hm_node m) s1 = Inr r" by (rule hybrid_lock_ok [OF a(2,3) n]) blast
    with a(1) show ?thesis by blast
  qed
  moreover have "\<exists>r. hybrid_insert tic tic' ids idx mv s = Inr r"
    by (rule hybrid_insert_ok [OF i assms(4), of tic tic' mv]) blast
  moreover have "\<exists>r. hybrid_evict_full num s = Inr r" by (rule hybrid_evict_full_ok [OF i, of num]) blast
  moreover have "\<exists>r. hybrid_evict_mamba num s = Inr r" by (rule hybrid_evict_mamba_ok [OF i, of num]) blast
  moreover have "(\<exists>r. hybrid_dec_lock h s = Inr r) \<and> h \<in> live s \<and> (h \<noteq> root s \<longrightarrow> n_mamba (heap s h) \<noteq> None)"
    if h: "h \<in># H" for h
  proof -
    have "\<exists>r. hybrid_dec_lock h s = Inr r" by (rule hybrid_unlock_ok [OF i h]) blast
    moreover have l: "h \<in> live s" using d(8) h by blast
    ultimately show ?thesis using d(9) [OF l] h by (auto simp: hold_ok_def)
  qed
  ultimately show ?thesis using hybrid_integrity [OF i] by simp
qed

text \<open>C16: in those states a match of \<open>HybridRadixCache\<close> returns the node whose path spells exactly the matched
  tokens, with that path's slots and that node's snapshot, which a non-empty match always has. No node on the
  request's path with a snapshot is longer. The match may split a node, but changes neither the cached prefixes,
  nor the slots the tree owns, nor any node's snapshot.\<close>

theorem hybrid_match_deepest:
  assumes "hybrid_init chunk ps uuid tic = Inr t" and "0 < ps" and "hybrid_step\<^sup>*\<^sup>* (t, {#}) (s, H)"
  shows "\<exists>s' m. hybrid_match tic' ids s = Inr (s', m) \<and> cached s' = cached s \<and> owned s' = owned s \<and>
    hm_len m \<le> length ids \<and> length (hm_kv m) = hm_len m \<and> cached s (take (hm_len m) ids) (hm_kv m) \<and>
    hm_node m \<in> live s' \<and> toks s' (hm_node m) = take (hm_len m) ids \<and> vals s' (hm_node m) = hm_kv m \<and>
    (0 < hm_len m \<longrightarrow> hm_mamba m \<noteq> None) \<and> hm_mamba m = n_mamba (heap s' (hm_node m)) \<and>
    (\<forall>n \<in> live s. n_mamba (heap s' n) = n_mamba (heap s n)) \<and> (\<forall>n \<in> live s' - live s. n_mamba (heap s' n) = None) \<and>
    (\<forall>n \<in> live s. n_mamba (heap s n) \<noteq> None \<and> prefix (toks s n) ids \<longrightarrow> length (toks s n) \<le> hm_len m)"
proof -
  have i: "hybrid_inv s H" by (rule hybrid_reach_inv [OF assms])
  obtain s' m where m: "hybrid_match tic' ids s = Inr (s', m)" "hybrid_inv s' H" "grown s s'" "hm_node m \<in> live s'"
    "hm_len m \<le> length ids" "toks s' (hm_node m) = take (hm_len m) ids" "hm_kv m = vals s' (hm_node m)"
    "hm_mamba m = n_mamba (heap s' (hm_node m))" "hm_node m \<noteq> root s' \<Longrightarrow> hm_mamba m \<noteq> None"
    "hm_node m = root s' \<Longrightarrow> hm_len m = 0"
    "\<And>n. n \<in> live s \<Longrightarrow> n_mamba (heap s n) \<noteq> None \<Longrightarrow> prefix (toks s n) ids \<Longrightarrow> length (toks s n) \<le> hm_len m"
    by (rule hybrid_match_ok [OF i, of tic' ids]) blast
  note wf = hybrid_invD(1) [OF m(2)] and g = grownD [OF m(3)]
  have "cached s (take (hm_len m) ids) (hm_kv m)" using node_cached [OF wf m(4)] m(6,7) g(4) by simp
  moreover have "length (hm_kv m) = hm_len m"
    using inv_len_PV [OF wfD [OF wf] m(4)] m(5-7) by simp
  moreover have "0 < hm_len m \<longrightarrow> hm_mamba m \<noteq> None" using m(9,10) by (cases "hm_node m = root s'") auto
  moreover have "\<forall>n \<in> live s. n_mamba (heap s' n) = n_mamba (heap s n)" "\<forall>n \<in> live s' - live s. n_mamba (heap s' n) = None"
    using m(3) by (auto simp: grown_def)
  ultimately show ?thesis using m(1,4-8,11) g(4,5) by (intro exI [of _ s'] exI [of _ m] conjI) auto
qed

text \<open>C17: the evictions of the hybrid cache are safe and exact: the KV slots and the snapshots handed out are exactly
  those removed from the tree, the path and the snapshot of every held handle stay, and an eviction stops short of
  the amount asked for only when nothing unheld is left.\<close>

theorem hybrid_evict_safe:
  assumes "hybrid_init chunk ps uuid tic = Inr t" and "0 < ps" and "hybrid_step\<^sup>*\<^sup>* (t, {#}) (s, H)"
    and "hybrid_evict_full num s = Inr (s', kvs, sns) \<or> hybrid_evict_mamba num s = Inr (s', kvs, sns)"
  shows "owned s = mset kvs + owned s' \<and> snaps s = mset sns + snaps s' \<and>
    (\<forall>h \<in># H. h \<in> live s' \<and> toks s' h = toks s h \<and> vals s' h = vals s h \<and> n_mamba (heap s' h) = n_mamba (heap s h)) \<and>
    (hybrid_evict_full num s = Inr (s', kvs, sns) \<longrightarrow> num \<le> int (length kvs) \<or> full_evictable s' = 0) \<and>
    (hybrid_evict_mamba num s = Inr (s', kvs, sns) \<longrightarrow> num \<le> int (length sns) \<or> mamba_evictable s' = 0)"
proof -
  have i: "hybrid_inv s H" by (rule hybrid_reach_inv [OF assms(1-3)])
  obtain a k n where f: "hybrid_evict_full num s = Inr (a, k, n)" "pruned H s k n a" "num \<le> int (length k) \<or> full_evictable a = 0"
    by (rule hybrid_evict_full_ok [OF i, of num])
  obtain b k' n' where g: "hybrid_evict_mamba num s = Inr (b, k', n')" "pruned H s k' n' b"
    "num \<le> int (length n') \<or> mamba_evictable b = 0"
    by (rule hybrid_evict_mamba_ok [OF i, of num])
  have p: "pruned H s kvs sns s'" using assms(4) f(1,2) g(1,2) by auto
  have "(\<forall>h \<in># H. h \<in> live s' \<and> toks s' h = toks s h \<and> vals s' h = vals s h \<and> n_mamba (heap s' h) = n_mamba (heap s h))"
    using prunedD(7,8) [OF p] by blast
  then show ?thesis using prunedD(5,6) [OF p] f(1,3) g(1,3) by auto
qed

section \<open>A concrete run\<close>

text \<open>
  A prefix, locked, and a longer one that extends it; pages of one token.
\<close>

lemmas run_simps = hybrid_init_def hybrid_insert_def hybrid_match_def hybrid_inc_lock_def hybrid_evict_full_def
  tree_walk_def path_len_def up_path_def path_values_def get_child_def is_root_def is_leaf_def node_len_def key_fn_def
  add_leaf_def alloc_def set_key_value_def set_parent_def upd_def split_at_def unlink_def align_down_nat_def
  attach_snapshot_def mamba_inc_def set_full_def free_node_mamba_def cascade_tombstone_leaves_def leaves_def dfs_def
  heappop_def heappush_def new_node_def Let_def eval_nat_numeral and_then_def

definition demo_run :: "err + (hmatch \<times> slot list \<times> slot list)" where
  "demo_run =
     and_then (hybrid_init 1 1 0 0) (\<lambda>t.
     and_then (hybrid_insert 1 2 [7, 8] [1, 2] 5 t) (\<lambda>(s1, _, _).
     and_then (hybrid_insert 3 4 [7, 8, 6] [3, 4, 9] 6 s1) (\<lambda>(s2, _, _).
     and_then (hybrid_match 5 [7, 8] s2) (\<lambda>(s3, m).
     and_then (hybrid_inc_lock (hm_node m) s3) (\<lambda>s4.
     and_then (hybrid_evict_full 9 s4) (\<lambda>(s5, kvs, sns).
     Inr (m, kvs, sns)))))))"

lemma demo_run_eval:
  "case demo_run of
     Inr (m, kvs, sns) \<Rightarrow> hm_len m = 2 \<and> hm_kv m = [1, 2] \<and> hm_mamba m = Some 5 \<and> kvs = [9] \<and> sns = [6]
   | Inl _ \<Rightarrow> False"
  by (simp add: demo_run_def run_simps)

lemma demo_reach:
  obtains t s m s3 s4 where "hybrid_init 1 1 0 0 = Inr t" "hybrid_step\<^sup>*\<^sup>* (t, {#}) (s, {#})"
    "hybrid_match 5 [7, 8] s = Inr (s3, m)" "hm_len m = 2" "hm_kv m = [1, 2]" "hm_mamba m = Some 5"
    "hybrid_inc_lock (hm_node m) s3 = Inr s4" "hybrid_step\<^sup>*\<^sup>* (t, {#}) (s4, {#hm_node m#})"
    "\<exists>s5. hybrid_evict_full 9 s4 = Inr (s5, [9], [6])"
proof -
  obtain m kvs sns where d: "demo_run = Inr (m, kvs, sns)"
    and f: "hm_len m = 2" "hm_kv m = [1, 2]" "hm_mamba m = Some 5" "kvs = [9]" "sns = [6]"
    using demo_run_eval by (auto split: sum.splits)
  obtain t s1 k1 e1 s2 k2 e2 s3 s4 s5 where r: "hybrid_init 1 1 0 0 = Inr t"
    "hybrid_insert 1 2 [7, 8] [1, 2] 5 t = Inr (s1, k1, e1)"
    "hybrid_insert 3 4 [7, 8, 6] [3, 4, 9] 6 s1 = Inr (s2, k2, e2)"
    "hybrid_match 5 [7, 8] s2 = Inr (s3, m)" "hybrid_inc_lock (hm_node m) s3 = Inr s4"
    "hybrid_evict_full 9 s4 = Inr (s5, kvs, sns)"
    using d unfolding demo_run_def and_then_eq_Inr by (force simp: and_then_eq_Inr split: prod.splits)
  have "hybrid_step (t, {#}) (s1, {#})" by (rule hybrid_step.insert [OF r(2)]) simp
  moreover have "hybrid_step (s1, {#}) (s2, {#})" by (rule hybrid_step.insert [OF r(3)]) simp
  ultimately have a: "hybrid_step\<^sup>*\<^sup>* (t, {#}) (s2, {#})" by (meson rtranclp.simps)
  moreover have "hybrid_step (s2, {#}) (s4, {#hm_node m#})" by (rule hybrid_step.lock [OF r(4,5)])
  ultimately have "hybrid_step\<^sup>*\<^sup>* (t, {#}) (s4, {#hm_node m#})" by (rule rtranclp.rtrancl_into_rtrancl)
  then show ?thesis using that [OF r(1) a r(4) f(1-3) r(5)] r(6) f(4,5) by blast
qed

theorem hybrid_run_total_witness:
  "\<exists>s H. H \<noteq> {#} \<and> hybrid_check_integrity s = Inr () \<and> (\<exists>r. hybrid_evict_full 9 s = Inr r) \<and>
     mamba_protected s = int (card {n \<in> live s - {root s}. n_mamba (heap s n) \<noteq> None \<and> n \<in># H})"
proof (rule demo_reach)
  fix t s m s3 s4
  assume a: "hybrid_init 1 1 0 0 = Inr t" "hybrid_step\<^sup>*\<^sup>* (t, {#}) (s4, {#hm_node m#})"
  note p = hybrid_run_total [OF a(1) _ a(2), of "[]" "[]" 0 0 9]
  show ?thesis by (rule exI [of _ s4], rule exI [of _ "{#hm_node m#}"]) (use p in auto)
qed

theorem hybrid_match_deepest_witness:
  "\<exists>s s' m. hybrid_match 5 [7, 8] s = Inr (s', m) \<and> hm_len m = 2 \<and> cached s [7, 8] (hm_kv m) \<and> hm_mamba m = Some 5"
proof (rule demo_reach)
  fix t s m s3 s4
  assume a: "hybrid_init 1 1 0 0 = Inr t" "hybrid_step\<^sup>*\<^sup>* (t, {#}) (s, {#})" "hybrid_match 5 [7, 8] s = Inr (s3, m)"
    "hm_len m = 2" "hm_mamba m = Some 5"
  show ?thesis
    using hybrid_match_deepest [OF a(1) _ a(2), of 5 "[7, 8]"] a(3-5)
    by (intro exI [of _ s] exI [of _ s3] exI [of _ m]) auto
qed

theorem hybrid_evict_safe_witness:
  "\<exists>s s' h. hybrid_evict_full 9 s = Inr (s', [9], [6]) \<and> owned s = {#9#} + owned s' \<and> h \<in> live s' \<and> vals s' h = vals s h"
proof (rule demo_reach)
  fix t s m s3 s4
  assume a: "hybrid_init 1 1 0 0 = Inr t" "hybrid_step\<^sup>*\<^sup>* (t, {#}) (s4, {#hm_node m#})"
    "\<exists>s5. hybrid_evict_full 9 s4 = Inr (s5, [9], [6])"
  then obtain s5 where e: "hybrid_evict_full 9 s4 = Inr (s5, [9], [6])" by blast
  show ?thesis
    using hybrid_evict_safe [OF a(1) _ a(2), of 9 s5 "[9]" "[6]"] e
    by (intro exI [of _ s4] exI [of _ s5] exI [of _ "hm_node m"]) auto
qed

end
