(* ===== verification/Swa_Flags.thy ===== *)
theory Swa_Flags
  imports Swa_Cache Dual_Tree
begin

text \<open>
  Which tokens of a path still have their sliding-window copy. \<open>flags t n\<close> has one entry per token
  on the path of \<open>n\<close>; a prefix is reusable when its last window is live, or all of it.
\<close>

section \<open>Changes that keep the keys\<close>

definition same_skel :: "'a rtree_scheme \<Rightarrow> 'b rtree_scheme \<Rightarrow> bool" where
  "same_skel t t' \<longleftrightarrow> counter t' = counter t \<and> root t' = root t \<and> psize t' = psize t \<and>
     (\<forall>n \<in> live t. n_key (heap t' n) = n_key (heap t n) \<and> n_children (heap t' n) = n_children (heap t n) \<and>
        n_parent (heap t' n) = n_parent (heap t n) \<and> length (n_value (heap t' n)) = length (n_value (heap t n)))"

lemma same_skel:
  assumes s: "same_skel t t'" and wf: "tree_wf t"
  shows "tree_wf t'" "live t' = live t" "n \<in> live t \<Longrightarrow> toks t' n = toks t n" "n \<in> live t \<Longrightarrow> anc t' n = anc t n"
    "n \<in> live t \<Longrightarrow> node_len t' n = node_len t n" "n \<in> live t \<Longrightarrow> is_leaf t' n = is_leaf t n" "kids t' n = kids t n"
proof -
  have a: "counter t' = counter t" "root t' = root t" "psize t' = psize t" using s by (auto simp: same_skel_def)
  have h: "n_key (heap t' m) = n_key (heap t m)" "n_children (heap t' m) = n_children (heap t m)"
    "n_parent (heap t' m) = n_parent (heap t m)" "length (n_value (heap t' m)) = length (n_value (heap t m))"
    if "m \<in> live t" for m using s that by (auto simp: same_skel_def)
  note inv = wfD [OF wf]
  define V where "V m = concat (map (\<lambda>k. n_value (heap t' k)) (rev (anc t m)))" for m
  have i: "tree_inv t' (live t) (toks t) V"
    unfolding tree_inv_def
  proof (intro conjI ballI impI)
    show "0 < psize t'" "root t' \<in> live t" "live t \<subseteq> {..<counter t'}"
      "n_parent (heap t' (root t')) = None" "toks t (root t') = []" "V (root t') = []"
      using inv a h(3) [OF live.root] anc_root [OF inv] by (auto simp: tree_inv_def V_def)
    fix m assume m: "m \<in> live t"
    show "kids_ok t' (live t) m"
      using inv m h a(2,3) unfolding tree_inv_def kids_ok_def by fastforce
    assume "m \<noteq> root t'"
    then have r: "m \<noteq> root t" using a(2) by simp
    from inv_node [OF inv m r] obtain p where p: "p \<in> live t" "n_parent (heap t m) = Some p"
      "(key_fn (psize t) (n_key (heap t m)), m) \<in> set (n_children (heap t p))"
      "n_key (heap t m) \<noteq> []" "psize t dvd length (n_key (heap t m))"
      "length (n_value (heap t m)) = length (n_key (heap t m))" "toks t m = toks t p @ n_key (heap t m)" by metis
    have "V m = V p @ n_value (heap t' m)" using anc_step [OF inv m p(2)] by (simp add: V_def)
    then show "node_ok t' (live t) (toks t) V m"
      unfolding node_ok_def using p h [OF m] h [OF p(1)] a by (intro bexI [of _ p]) auto
  qed
  note r = tree_inv_wf [OF i]
  show w: "tree_wf t'" and l: "live t' = live t" and "n \<in> live t \<Longrightarrow> toks t' n = toks t n" using r by auto
  show "anc t' n = anc t n" if "n \<in> live t"
    using that
  proof (induction rule: inv_induct [OF inv, consumes 1, case_names 1 2])
    case 1
    then show ?case using anc_root [OF i] anc_root [OF inv] a(2) by simp
  next
    case (2 n p)
    have "n_parent (heap t' n) = Some p" using h(3) [OF 2(1)] 2(4) by simp
    then show ?case using anc_step [OF i 2(1)] anc_step [OF inv 2(1,4)] 2(7) by simp
  qed
  show "n \<in> live t \<Longrightarrow> node_len t' n = node_len t n" "n \<in> live t \<Longrightarrow> is_leaf t' n = is_leaf t n"
    using h by (simp_all add: node_len_def is_leaf_def)
  show "kids t' n = kids t n" using l h(3) by (auto simp: kids_def)
qed

section \<open>The path after a split\<close>

definition ins :: "nid \<Rightarrow> nid \<Rightarrow> nid list \<Rightarrow> nid list" where
  "ins n m ns = concat (map (\<lambda>k. if k = n then [n, m] else [k]) ns)"

lemma ins_simps [simp]:
  "ins n m [] = []" "ins n m (k # ns) = (if k = n then [n, m] else [k]) @ ins n m ns"
  "ins n m (ns @ ms) = ins n m ns @ ins n m ms"
  by (simp_all add: ins_def)

lemma ins_id: "n \<notin> set ns \<Longrightarrow> ins n m ns = ns"
  by (induction ns) auto

lemma set_ins: "set (ins n m ns) = set ns \<union> (if n \<in> set ns then {m} else {})"
  by (induction ns) auto

lemma sum_ins: "n \<noteq> m \<Longrightarrow> f n + f m = g n \<Longrightarrow> (\<And>k. k \<in> set ns \<Longrightarrow> k \<noteq> n \<Longrightarrow> f k = g k) \<Longrightarrow>
  (\<Sum>k \<leftarrow> ins n m ns. f k) = (\<Sum>k \<leftarrow> ns. (g k :: int))"
  by (induction ns) (auto simp: add.assoc [symmetric])

lemma anc_split:
  assumes wf: "tree_wf t" and n: "n \<in> live t" "n_parent (heap t n) = Some p"
    and pos: "0 < pos" "pos < node_len t n" "psize t dvd pos"
  shows "q \<in> live t \<Longrightarrow> anc (split_result n p pos t) q = ins n (counter t) (anc t q)"
    "anc (split_result n p pos t) (counter t) = counter t # anc t p"
proof -
  let ?t = "split_result n p pos t"
  note s = wf_split [OF wf n pos] and h = split_result_nodes [OF wf n] and inv = wfD [OF wf] and inv' = wfD [OF s(1)]
  have m: "counter t \<in> live ?t" "n_parent (heap ?t (counter t)) = Some p" using s(2) h(1) by simp_all
  have a: "anc ?t q = ins n (counter t) (anc t q)" if "q \<in> live t" for q
    using that
  proof (induction rule: inv_induct [OF inv, consumes 1, case_names 1 2])
    case 1
    then show ?case using anc_root [OF inv] anc_root [OF inv'] by (simp add: split_result_simps)
  next
    case (2 q r)
    have ql: "q \<in> live ?t" using 2(1) s(2) by simp
    show ?case
    proof (cases "q = n")
      case True
      then have "r = p" using 2(4) n(2) by simp
      have "n_parent (heap ?t q) = Some (counter t)" using h(2) True by simp
      then have "anc ?t q = q # counter t # anc ?t r"
        using anc_step [OF inv' ql] anc_step [OF inv' m] \<open>r = p\<close> by simp
      then show ?thesis using 2(7) anc_step [OF inv 2(1,4)] True by simp
    next
      case False
      have "n_parent (heap ?t q) = Some r" using h(3) [OF 2(1) False, of pos] 2(4) by auto
      then show ?thesis using anc_step [OF inv' ql] anc_step [OF inv 2(1,4)] 2(7) False by simp
    qed
  qed
  then show "q \<in> live t \<Longrightarrow> anc ?t q = ins n (counter t) (anc t q)" .
  have p: "p \<in> live t" by (rule h(5))
  have "n \<notin> set (anc t p)" using anc_facts(5) [OF inv n(1)] anc_step [OF inv n] by simp
  then show "anc ?t (counter t) = counter t # anc t p"
    using anc_step [OF inv' m] a [OF p] by (simp add: ins_id)
qed

lemma anc_leaf:
  assumes wf: "tree_wf t" and p: "p \<in> live t" "get_child t p k = None"
    and k: "k \<noteq> []" "psize t dvd length k" "length v = length k"
  shows "q \<in> live t \<Longrightarrow> anc (leaf_result tic k v p t) q = anc t q"
    "anc (leaf_result tic k v p t) (counter t) = counter t # anc t p"
proof -
  let ?t = "leaf_result tic k v p t"
  note s = wf_leaf(1,2) [OF wf p k, where tic = tic] and h = leaf_result_nodes(1,2) [OF wf p(1), where tic = tic and k = k and v = v] and inv = wfD [OF wf]
  note inv' = wfD [OF s(1)]
  have a: "anc ?t q = anc t q" if "q \<in> live t" for q
    using that
  proof (induction rule: inv_induct [OF inv, consumes 1, case_names 1 2])
    case 1
    then show ?case using anc_root [OF inv] anc_root [OF inv'] by (simp add: leaf_result_simps)
  next
    case (2 q r)
    have "n_parent (heap ?t q) = Some r" using h(2) [OF 2(1)] 2(4) by auto
    moreover have "q \<in> live ?t" using 2(1) s(2) by simp
    ultimately show ?case using anc_step [OF inv'] anc_step [OF inv 2(1,4)] 2(7) by simp
  qed
  then show "q \<in> live t \<Longrightarrow> anc ?t q = anc t q" .
  have "counter t \<in> live ?t" "n_parent (heap ?t (counter t)) = Some p" using s(2) h(1) by simp_all
  then show "anc ?t (counter t) = counter t # anc t p" using anc_step [OF inv'] a [OF p(1)] by simp
qed

lemma anc_unlink:
  assumes wf: "tree_wf t" and n: "n \<in> live t" "n_parent (heap t n) = Some p" and leaf: "is_leaf t n"
    and q: "q \<in> live t" "q \<noteq> n"
  shows "anc (unlink_result n p t) q = anc t q"
proof -
  let ?t = "unlink_result n p t"
  note s = wf_unlink [OF wf n leaf] and inv = wfD [OF wf]
  note inv' = wfD [OF s(1)]
  show ?thesis
    using q
  proof (induction rule: inv_induct [OF inv, consumes 1, case_names 1 2])
    case 1
    then show ?case using anc_root [OF inv] anc_root [OF inv'] by (simp add: unlink_result_simps)
  next
    case (2 q r)
    have "n_parent (heap ?t q) = Some r" using unlink_result_nodes [of n p t q] 2(4) by auto
    moreover have "q \<in> live ?t" using 2(1,8) s(2) by simp
    moreover have "r \<noteq> n"
    proof
      assume "r = n"
      then have "q \<in> kids t n" using 2(1,4) by (simp add: kids_def)
      then show False using kids_leaf [OF wf n(1)] leaf by simp
    qed
    ultimately show ?case using anc_step [OF inv'] anc_step [OF inv 2(1,4)] 2(7) by simp
  qed
qed

section \<open>Live tokens\<close>

definition flags :: "'a rtree_scheme \<Rightarrow> nid \<Rightarrow> bool list" where
  "flags t n = concat (map (\<lambda>m. replicate (node_len t m) (\<not> n_tomb (heap t m))) (rev (anc t n)))"

lemma flags_step: "tree_wf t \<Longrightarrow> n \<in> live t \<Longrightarrow> n_parent (heap t n) = Some p \<Longrightarrow>
  flags t n = flags t p @ replicate (node_len t n) (\<not> n_tomb (heap t n))"
  by (simp add: flags_def anc_step [OF wfD])

lemma flags_root: "tree_wf t \<Longrightarrow> flags t (root t) = []"
  by (simp add: flags_def anc_root [OF wfD])

text \<open>The same tree with the flags in place of the slots.\<close>

definition flagged :: "'a rtree_scheme \<Rightarrow> 'a rtree_scheme" where
  "flagged t = t\<lparr>heap := \<lambda>m. if m = root t then heap t m
     else (heap t m)\<lparr>n_value := map of_bool (replicate (node_len t m) (\<not> n_tomb (heap t m)))\<rparr>\<rparr>"

lemma flagged:
  assumes wf: "tree_wf t"
  shows "tree_wf (flagged t)" "live (flagged t) = live t" "n \<in> live t \<Longrightarrow> toks (flagged t) n = toks t n"
    "n \<in> live t \<Longrightarrow> vals (flagged t) n = map of_bool (flags t n)"
proof -
  have s: "same_skel t (flagged t)"
    using inv_len_value [OF wfD [OF wf]] by (auto simp: same_skel_def flagged_def node_len_def)
  note k = same_skel [OF s wf]
  show "tree_wf (flagged t)" "live (flagged t) = live t" "n \<in> live t \<Longrightarrow> toks (flagged t) n = toks t n" using k by auto
  show "vals (flagged t) n = map of_bool (flags t n)" if n: "n \<in> live t"
  proof -
    have "m \<noteq> root t" if "m \<in> set (anc t n)" for m using anc_facts(1) [OF wfD [OF wf] n] that by blast
    then have "map (\<lambda>m. n_value (heap (flagged t) m)) (rev (anc t n)) =
        map (\<lambda>m. map of_bool (replicate (node_len t m) (\<not> n_tomb (heap t m)))) (rev (anc t n))"
      by (auto simp: flagged_def)
    then show ?thesis unfolding vals_def flags_def k(4) [OF n] by (simp only: map_concat map_map comp_def)
  qed
qed

lemma flags_unique:
  assumes wf: "tree_wf t" and n: "n \<in> live t" and m: "m \<in> live t"
    and k: "psize t dvd length ts" "prefix ts (toks t n)" "prefix ts (toks t m)"
  shows "take (length ts) (flags t n) = take (length ts) (flags t m)"
proof -
  note f = flagged [OF wf]
  have p: "psize (flagged t) = psize t" by (simp add: flagged_def)
  have "take (length ts) (vals (flagged t) n) = take (length ts) (vals (flagged t) m)"
    by (rule prefix_values_unique [OF wfD [OF f(1)]]) (use f n m k p in simp_all)
  then have "map (of_bool :: bool \<Rightarrow> nat) (take (length ts) (flags t n)) = map of_bool (take (length ts) (flags t m))"
    using f(4) [OF n] f(4) [OF m] by (simp add: take_map)
  moreover have "inj (of_bool :: bool \<Rightarrow> nat)" by (simp add: inj_def)
  ultimately show ?thesis using inj_map_eq_map by blast
qed

lemma flags_len: "tree_wf t \<Longrightarrow> n \<in> live t \<Longrightarrow> length (flags t n) = length (toks t n)"
  using inv_len_PV [OF wfD [OF flagged(1)], of t n] by (simp add: flagged)

lemma flags_split:
  assumes wf: "tree_wf t" and n: "n \<in> live t" "n_parent (heap t n) = Some p"
    and pos: "0 < pos" "pos < node_len t n" "psize t dvd pos" and q: "q \<in> live t"
  shows "flags (split_result n p pos t) q = flags t q"
proof -
  let ?t = "split_result n p pos t"
  let ?f = "\<lambda>t m. replicate (node_len t m) (\<not> n_tomb (heap t m))"
  note h = split_result_nodes [OF wf n]
  have two: "?f ?t (counter t) @ ?f ?t n = ?f t n"
    using pos(2) h(1,2) by (simp add: node_len_def replicate_add [symmetric])
  have one: "?f ?t m = ?f t m" if "m \<in> live t" "m \<noteq> n" for m
    using h(3) [OF that, of pos] by (auto simp: node_len_def)
  have "concat (map (?f ?t) (rev (ins n (counter t) ns))) = concat (map (?f t) (rev ns))" if "set ns \<subseteq> live t" for ns
    using that two one by (induction ns) auto
  moreover have "set (anc t q) \<subseteq> live t" using anc_facts(1) [OF wfD [OF wf] q] by blast
  ultimately show ?thesis unfolding flags_def anc_split(1) [OF wf n pos q] by blast
qed

section \<open>Windows\<close>

definition win_ok :: "int \<Rightarrow> bool list \<Rightarrow> bool" where
  "win_ok w fs \<longleftrightarrow> False \<notin> set (take (nat w) (rev fs))"

definition trail :: "bool list \<Rightarrow> int option" where
  "trail fs = (if False \<notin> set fs then None else Some (int (length (takeWhile id (rev fs)))))"

lemma win_ok_nil [simp]: "win_ok w []"
  by (simp add: win_ok_def)

lemma trail_nil [simp]: "trail [] = None"
  by (simp add: trail_def)

lemma takeWhile_full:
  "False \<in> set xs \<Longrightarrow> n \<le> length (takeWhile id xs) \<longleftrightarrow> False \<notin> set (take n xs)"
proof (induction xs arbitrary: n)
  case (Cons x xs)
  then show ?case by (cases n; cases x) auto
qed simp

lemma covers_trail: "covers (trail fs) w \<longleftrightarrow> win_ok w fs"
proof (cases "False \<in> set fs")
  case True
  then have "covers (trail fs) w \<longleftrightarrow> nat w \<le> length (takeWhile id (rev fs))"
    by (auto simp: covers_def trail_def)
  then show ?thesis using takeWhile_full [of "rev fs" "nat w"] True by (simp add: win_ok_def)
next
  case False
  then show ?thesis by (auto simp: covers_def trail_def win_ok_def dest: in_set_takeD)
qed

lemma trail_app:
  "0 < l \<Longrightarrow> trail (fs @ replicate l (\<not> b)) = add_run (if b then Some 0 else trail fs) b (int l)"
proof (cases b)
  case True
  assume "0 < l"
  then obtain k where r: "rev (fs @ replicate l False) = False # k"
    by (cases l) (auto simp: replicate_append_same)
  then have "False \<in> set (fs @ replicate l False)" by (metis list.set_intros(1) set_rev)
  then show ?thesis using True r by (simp add: trail_def add_run_def)
next
  case False
  then show ?thesis by (auto simp: trail_def add_run_def takeWhile_append)
qed

lemma win_ok_live: "win_ok w fs \<Longrightarrow> win_ok w (fs @ replicate l True)"
proof -
  have "set (take (nat w - l) (rev fs)) \<subseteq> set (take (nat w) (rev fs))" by (rule set_take_subset_set_take) simp
  then show "win_ok w fs \<Longrightarrow> win_ok w (fs @ replicate l True)"
    by (auto simp: win_ok_def dest: in_set_takeD)
qed

lemma win_ok_tomb: "0 < w \<Longrightarrow> 0 < l \<Longrightarrow> \<not> win_ok w (fs @ replicate l False)"
proof -
  assume "0 < w" "0 < l"
  then obtain k j where "rev (fs @ replicate l False) = False # k" "nat w = Suc j"
    by (cases l; cases "nat w") (auto simp: replicate_append_same)
  then show "\<not> win_ok w (fs @ replicate l False)" by (simp add: win_ok_def)
qed

definition reusable :: "swa \<Rightarrow> token list \<Rightarrow> bool" where
  "reusable s ts \<longleftrightarrow> (\<exists>n \<in> live s. psize s dvd length ts \<and> prefix ts (toks s n) \<and>
     win_ok (swa_window s) (take (length ts) (flags s n)))"

end
