(* ===== verification/Swa_Contract.thy ===== *)
theory Swa_Contract
  imports Swa_Flags
begin

text \<open>
  The contract of the sliding-window cache. \<open>H\<close> is the multiset of the handles in use: the locked
  node with the window stamp its lock returned. A handle pins every node of its path, and the live
  nodes from its node up to the stamped one, \<open>seg\<close>, which cover the window or the whole path.
\<close>

section \<open>Handles\<close>

type_synonym hold = "nid \<times> nat option"

fun seg_of :: "'a rtree_scheme \<Rightarrow> nat option \<Rightarrow> nid list \<Rightarrow> nid list" where
  "seg_of t u [] = []"
| "seg_of t u (n # ns) = n # (if u \<noteq> None \<and> n_swa_uuid (heap t n) = u then [] else seg_of t u ns)"

definition seg :: "'a rtree_scheme \<Rightarrow> hold \<Rightarrow> nid list" where
  "seg t h = seg_of t (snd h) (anc t (fst h))"

definition paths :: "'a rtree_scheme \<Rightarrow> hold multiset \<Rightarrow> nid \<Rightarrow> int" where
  "paths t H n = int (size (filter_mset (\<lambda>h. n \<in> set (anc t (fst h))) H))"

definition pins :: "'a rtree_scheme \<Rightarrow> hold multiset \<Rightarrow> nid \<Rightarrow> int" where
  "pins t H n = int (size (filter_mset (\<lambda>h. n \<in> set (seg t h)) H))"

lemma seg_of_prefix: "\<exists>ms. ns = seg_of t u ns @ ms"
  by (induction ns) auto

lemma seg_of_set: "set (seg_of t u ns) \<subseteq> set ns"
  by (induction ns) auto

lemma seg_of_None [simp]: "seg_of t None ns = ns"
  by (induction ns) auto

lemma seg_of_cong:
  "(\<And>n. n \<in> set ns \<Longrightarrow> n_swa_uuid (heap t' n) = u \<longleftrightarrow> n_swa_uuid (heap t n) = u) \<Longrightarrow> seg_of t' u ns = seg_of t u ns"
  by (induction ns) auto

lemma seg_set: "set (seg t h) \<subseteq> set (anc t (fst h))"
  by (simp add: seg_def seg_of_set)

lemma paths_simps [simp]:
  "paths t {#} n = 0" "paths t (add_mset h H) n = paths t H n + (if n \<in> set (anc t (fst h)) then 1 else 0)"
  by (simp_all add: paths_def)

lemma pins_simps [simp]:
  "pins t {#} n = 0" "pins t (add_mset h H) n = pins t H n + (if n \<in> set (seg t h) then 1 else 0)"
  by (simp_all add: pins_def)

lemma paths_zero: "paths t H n = 0 \<longleftrightarrow> (\<forall>h \<in># H. n \<notin> set (anc t (fst h)))"
  by (induction H) (auto simp: paths_def)

lemma pins_zero: "pins t H n = 0 \<longleftrightarrow> (\<forall>h \<in># H. n \<notin> set (seg t h))"
  by (induction H) (auto simp: pins_def)

lemma pins_le_paths: "0 \<le> pins t H n" "pins t H n \<le> paths t H n"
  using seg_set [of t] by (induction H) (auto simp: subset_iff)

lemma holds_cong:
  assumes "\<And>h. h \<in># H \<Longrightarrow> (n \<in> set (anc t' (fst h)) \<longleftrightarrow> m \<in> set (anc t (fst h))) \<and> (n \<in> set (seg t' h) \<longleftrightarrow> m \<in> set (seg t h))"
  shows "paths t' H n = paths t H m" "pins t' H n = pins t H m"
  unfolding paths_def pins_def using assms by (auto cong: filter_mset_cong)

text \<open>The locks held on a node itself.\<close>

lemma direct_paths:
  assumes wf: "tree_wf t" and q: "q \<noteq> root t" and "fst ` set_mset H \<subseteq> live t"
  shows "paths t H q - (\<Sum>c \<in> kids t q. paths t H c) = int (count (image_mset fst H) q)"
  using assms(3)
proof (induction H)
  case (add h H)
  then have h: "fst h \<in> live t" by simp
  have "q \<in> set (anc t (fst h))" if "q = fst h" using anc_facts(6) [OF wfD [OF wf] h] that q by simp
  then show ?case
    using add kids_anc [OF wf h q]
    by (auto simp: sum_indicator [OF kids_finite [OF wf], of _ _ 1])
qed simp

section \<open>Invariant\<close>

definition w_sfree :: "rnode \<Rightarrow> int" where
  "w_sfree nd = (if n_tomb nd \<or> n_swa_ref nd \<noteq> 0 then 0 else w_len nd)"

definition w_sheld :: "rnode \<Rightarrow> int" where
  "w_sheld nd = (if n_tomb nd \<or> n_swa_ref nd = 0 then 0 else w_len nd)"

definition w_live :: "rnode \<Rightarrow> slot multiset" where
  "w_live nd = (if n_tomb nd then {#} else mset (n_value nd))"

definition live_owned :: "'a rtree_scheme \<Rightarrow> slot multiset" where
  "live_owned t = node_sum t w_live"

lemma w_live_children [simp]:
  "w_sfree (nd\<lparr>n_children := ks\<rparr>) = w_sfree nd" "w_sheld (nd\<lparr>n_children := ks\<rparr>) = w_sheld nd"
  "w_live (nd\<lparr>n_children := ks\<rparr>) = w_live nd"
  by (simp_all add: w_sfree_def w_sheld_def w_live_def w_len_def)

definition hand_ok :: "swa \<Rightarrow> hold \<Rightarrow> bool" where
  "hand_ok s h \<longleftrightarrow> fst h \<in> live s \<and> (\<forall>m \<in> set (seg s h). \<not> n_tomb (heap s m)) \<and>
     (snd h = None \<or> swa_window s \<le> (\<Sum>m \<leftarrow> seg s h. int (node_len s m))) \<and>
     (\<forall>u. snd h = Some u \<longrightarrow> u \<le> swa_uuid_ctr s)"

definition marks_ok :: "swa \<Rightarrow> bool" where
  "marks_ok s \<longleftrightarrow> (\<forall>n \<in> live s - {root s}. \<forall>u. n_swa_uuid (heap s n) = Some u \<longrightarrow>
     u \<le> swa_uuid_ctr s \<and> (\<forall>m \<in> live s - {root s}. n_swa_uuid (heap s m) = Some u \<longrightarrow> m = n))"

definition sums_ok :: "swa \<Rightarrow> bool" where
  "sums_ok s \<longleftrightarrow> full_evictable s = node_sum s w_free \<and> full_protected s = node_sum s w_used \<and>
     swa_evictable s = node_sum s w_sfree \<and> swa_protected s = node_sum s w_sheld"

definition swa_inv :: "swa \<Rightarrow> hold multiset \<Rightarrow> bool" where
  "swa_inv s H \<longleftrightarrow> tree_wf s \<and> n_ref (heap s (root s)) = 1 \<and> 0 < swa_window s \<and> sums_ok s \<and>
     (\<forall>h \<in># H. hand_ok s h) \<and>
     (\<forall>n \<in> live s. n \<noteq> root s \<longrightarrow> n_ref (heap s n) = paths s H n \<and> n_swa_ref (heap s n) = pins s H n) \<and>
     marks_ok s"

lemma swa_invD:
  assumes "swa_inv s H"
  shows "tree_wf s" "n_ref (heap s (root s)) = 1" "0 < n_ref (heap s (root s))" "0 < swa_window s" "sums_ok s"
    "h \<in># H \<Longrightarrow> hand_ok s h" "h \<in># H \<Longrightarrow> fst h \<in> live s"
    "n \<in> live s \<Longrightarrow> n \<noteq> root s \<Longrightarrow> n_ref (heap s n) = paths s H n"
    "n \<in> live s \<Longrightarrow> n \<noteq> root s \<Longrightarrow> n_swa_ref (heap s n) = pins s H n" "marks_ok s"
  using assms by (auto simp: swa_inv_def hand_ok_def)

lemma swa_lock_inv:
  assumes i: "swa_inv s H"
  shows "lock_inv s (full_evictable s) (full_protected s)"
    "n \<in> live s \<Longrightarrow> n \<noteq> root s \<Longrightarrow> direct s n = int (count (image_mset fst H) n)"
proof -
  note d = swa_invD [OF i]
  have "kids s n \<subseteq> live s - {root s}" for n using live_root_ne [OF d(1)] by (auto simp: kids_def)
  then have "(\<Sum>c \<in> kids s n. n_ref (heap s c)) = (\<Sum>c \<in> kids s n. paths s H c)" for n
    using d(8) by (intro sum.cong) auto
  then show c: "n \<in> live s \<Longrightarrow> n \<noteq> root s \<Longrightarrow> direct s n = int (count (image_mset fst H) n)" for n
    using direct_paths [OF d(1), of n H] d(8) subsetI [of "fst ` set_mset H" "live s"] d(7)
    by (fastforce simp: direct_def)
  have "0 \<le> paths s H n" for n by (simp add: paths_def)
  then show "lock_inv s (full_evictable s) (full_protected s)"
    using c d(5,8) by (auto simp: lock_inv_def sums_ok_def)
qed

text \<open>Nothing a handle pins is a tombstone; what is not pinned belongs to no handle.\<close>

lemma swa_tomb_unpinned:
  assumes i: "swa_inv s H" and n: "n \<in> live s" "n \<noteq> root s"
  shows "n_tomb (heap s n) \<Longrightarrow> n_swa_ref (heap s n) = 0"
    "n_swa_ref (heap s n) = 0 \<Longrightarrow> h \<in># H \<Longrightarrow> n \<notin> set (seg s h)"
    "n_ref (heap s n) = 0 \<Longrightarrow> h \<in># H \<Longrightarrow> n \<notin> set (anc s (fst h))"
    "0 \<le> n_swa_ref (heap s n)" "n_swa_ref (heap s n) \<le> n_ref (heap s n)"
  using swa_invD(6,8,9) [OF i] n pins_le_paths [of s H n] pins_zero [of s H n] paths_zero [of s H n]
  by (auto simp: hand_ok_def)

lemma swa_same_ext:
  assumes "same_ext s (t :: swa)"
  shows "full_evictable t = full_evictable s" "full_protected t = full_protected s"
    "swa_evictable t = swa_evictable s" "swa_protected t = swa_protected s" "swa_window t = swa_window s"
    "swa_clk t = swa_clk s" "swa_uuid_ctr t = swa_uuid_ctr s" "swa_revives t = swa_revives s"
  using assms by (auto simp: same_ext_def) (metis dtree.select_convs swa.select_convs swa.surjective rtree.update_convs)+

text \<open>A change that keeps keys, locks and stamps, with counters that follow.\<close>

lemma swa_inv_skel:
  assumes i: "swa_inv s H" and k: "same_skel s (t :: swa)"
    and f: "\<And>n. n \<in> live s \<Longrightarrow> n_ref (heap t n) = n_ref (heap s n) \<and> n_swa_ref (heap t n) = n_swa_ref (heap s n) \<and>
      n_swa_uuid (heap t n) = n_swa_uuid (heap s n)"
    and w: "swa_window t = swa_window s" "swa_uuid_ctr t = swa_uuid_ctr s" and c: "sums_ok t"
    and tb: "\<And>h n. h \<in># H \<Longrightarrow> n \<in> set (seg s h) \<Longrightarrow> \<not> n_tomb (heap t n)"
  shows "swa_inv t H" "h \<in># H \<Longrightarrow> seg t h = seg s h"
proof -
  note d = swa_invD [OF i]
  note K = same_skel [OF k d(1)]
  have r: "root t = root s" using k by (simp add: same_skel_def)
  have al: "set (anc s n) \<subseteq> live s" if "n \<in> live s" for n using anc_facts(1) [OF wfD [OF d(1)] that] by blast
  show sg: "seg t h = seg s h" if h: "h \<in># H" for h
    unfolding seg_def K(4) [OF d(7) [OF h]] using al [OF d(7) [OF h]] f by (intro seg_of_cong) auto
  have "hand_ok t h" if h: "h \<in># H" for h
  proof -
    have "(\<Sum>m \<leftarrow> seg s h. int (node_len t m)) = (\<Sum>m \<leftarrow> seg s h. int (node_len s m))"
      using K(5) al [OF d(7) [OF h]] seg_set [of s h] by (intro arg_cong [where f = sum_list] map_cong) auto
    then show ?thesis using d(6) [OF h] tb [OF h] sg [OF h] K(2) w by (simp add: hand_ok_def)
  qed
  moreover have "marks_ok t"
  proof -
    have "n_swa_uuid (heap t n) = n_swa_uuid (heap s n)" if "n \<in> live s - {root s}" for n using f that by blast
    then show ?thesis using d(10) unfolding marks_ok_def K(2) r w(2) by metis
  qed
  moreover have "n_ref (heap t (root t)) = 1" using d(2) f [OF live.root] r by simp
  ultimately show "swa_inv t H"
    unfolding swa_inv_def
  proof (intro conjI ballI impI)
    fix n assume "n \<in> live t" "n \<noteq> root t"
    then have n: "n \<in> live s" "n \<noteq> root s" using K(2) r by simp_all
    have e: "paths t H n = paths s H n" "pins t H n = pins s H n" using holds_cong [of H n t n s] sg K(4) d(7) by auto
    show "n_ref (heap t n) = paths t H n" unfolding e(1) using f [OF n(1)] d(8) [OF n] by simp
    show "n_swa_ref (heap t n) = pins t H n" unfolding e(2) using f [OF n(1)] d(9) [OF n] by simp
  qed (use K(1) w(1) d(4) c in simp_all)
qed

section \<open>Growth\<close>

definition sgrown :: "swa \<Rightarrow> swa \<Rightarrow> bool" where
  "sgrown s s' \<longleftrightarrow> live s \<subseteq> live s' \<and> root s' = root s \<and> psize s' = psize s \<and> cached s' = cached s \<and>
     owned s' = owned s \<and> live_owned s' = live_owned s \<and> swa_window s' = swa_window s \<and>
     (\<forall>q \<in> live s. toks s' q = toks s q \<and> vals s' q = vals s q \<and> flags s' q = flags s q)"

lemma sgrown_refl: "sgrown s s"
  by (simp add: sgrown_def)

lemma sgrown_trans: "sgrown a b \<Longrightarrow> sgrown b c \<Longrightarrow> sgrown a c"
  by (auto simp: sgrown_def)

lemma sgrownD:
  assumes "sgrown s s'"
  shows "live s \<subseteq> live s'" "root s' = root s" "psize s' = psize s" "cached s' = cached s" "owned s' = owned s"
    "live_owned s' = live_owned s" "swa_window s' = swa_window s" "q \<in> live s \<Longrightarrow> toks s' q = toks s q"
    "q \<in> live s \<Longrightarrow> vals s' q = vals s q" "q \<in> live s \<Longrightarrow> flags s' q = flags s q"
  using assms by (auto simp: sgrown_def)

text \<open>A change that leaves shape and flags alone.\<close>

lemma sgrown_shape:
  assumes wf: "tree_wf s" and f: "counter t = counter s" "root t = root s" "psize t = psize s" "swa_window t = swa_window s"
    and h: "\<And>n. shape (heap t n) = shape (heap s n) \<and> n_tomb (heap t n) = n_tomb (heap s n)"
  shows "sgrown s t" "live t = live s" "same_skel s t"
proof -
  have v: "n_value (heap t n) = n_value (heap s n)" "n_key (heap t n) = n_key (heap s n)"
    "n_children (heap t n) = n_children (heap s n)" "n_parent (heap t n) = n_parent (heap s n)" for n
    using h [of n] by (simp_all add: shape_def)
  show k: "same_skel s t" using f v by (simp add: same_skel_def)
  note c = wf_cong [OF wf conjunct1 [OF h] f(1-3)]
  show l: "live t = live s" by (rule c(2))
  have "owned t = owned s" "live_owned t = live_owned s"
    unfolding owned_def live_owned_def using v h by (auto intro!: node_sum_cong [OF l f(2)] simp: w_live_def)
  moreover have "flags t q = flags s q" if "q \<in> live s" for q
    unfolding flags_def c(6) [OF that] node_len_def v(2) using h by simp
  ultimately show "sgrown s t" using c f by (simp add: sgrown_def)
qed

text \<open>A change of nothing but times and of the clock.\<close>

definition restamped :: "swa \<Rightarrow> swa \<Rightarrow> bool" where
  "restamped s t \<longleftrightarrow> t = s\<lparr>heap := heap t, swa_clk := swa_clk t\<rparr> \<and> (\<forall>n. \<exists>x. heap t n = (heap s n)\<lparr>n_time := x\<rparr>)"

lemma restamped_ok:
  assumes i: "swa_inv s H" and r: "restamped s t"
  shows "swa_inv t H" "sgrown s t" "live t = live s" "counter t = counter s"
proof -
  note d = swa_invD [OF i]
  obtain hp c where t: "t = s\<lparr>heap := hp, swa_clk := c\<rparr>" using r unfolding restamped_def by blast
  then have f: "counter t = counter s" "root t = root s" "psize t = psize s" "swa_window t = swa_window s"
    "swa_uuid_ctr t = swa_uuid_ctr s" by simp_all
  from t have e: "full_evictable t = full_evictable s" "full_protected t = full_protected s"
    "swa_evictable t = swa_evictable s" "swa_protected t = swa_protected s" by simp_all
  have h: "shape (heap t n) = shape (heap s n)" "n_ref (heap t n) = n_ref (heap s n)" "n_tomb (heap t n) = n_tomb (heap s n)"
    "n_swa_ref (heap t n) = n_swa_ref (heap s n)" "n_swa_uuid (heap t n) = n_swa_uuid (heap s n)"
    "n_key (heap t n) = n_key (heap s n)" for n
  proof -
    obtain x where "heap t n = (heap s n)\<lparr>n_time := x\<rparr>" using r by (auto simp: restamped_def)
    then show "shape (heap t n) = shape (heap s n)" "n_ref (heap t n) = n_ref (heap s n)" "n_tomb (heap t n) = n_tomb (heap s n)"
      "n_swa_ref (heap t n) = n_swa_ref (heap s n)" "n_swa_uuid (heap t n) = n_swa_uuid (heap s n)"
      "n_key (heap t n) = n_key (heap s n)" by simp_all
  qed
  have "shape (heap t n) = shape (heap s n) \<and> n_tomb (heap t n) = n_tomb (heap s n)" for n using h by blast
  note g = sgrown_shape [OF d(1) f(1-4) this]
  have "node_sum t w = node_sum s w" if "\<And>n. w (heap t n) = w (heap s n)" for w :: "rnode \<Rightarrow> int"
    by (rule node_sum_cong) (use g(2) f(2) that in simp_all)
  then have so: "sums_ok t"
    using d(5) by (simp add: sums_ok_def w_free_def w_used_def w_sfree_def w_sheld_def w_len_def h e)
  show "swa_inv t H"
    by (rule swa_inv_skel(1) [OF i g(3) _ f(4,5) so]) (use h d(6) in \<open>auto simp: hand_ok_def\<close>)
  show "sgrown s t" "live t = live s" "counter t = counter s" by (rule g(1), rule g(2), rule f(1))
qed

section \<open>Splits\<close>

lemma seg_of_ins:
  assumes "m \<notin> set ns" and "n_swa_uuid (heap t' n) = None" and "n_swa_uuid (heap t' m) = n_swa_uuid (heap t n)"
    and "\<And>k. k \<in> set ns \<Longrightarrow> k \<noteq> n \<Longrightarrow> n_swa_uuid (heap t' k) = n_swa_uuid (heap t k)"
  shows "seg_of t' u (ins n m ns) = ins n m (seg_of t u ns)"
  using assms(1,4)
proof (induction ns)
  case (Cons k ns)
  then show ?case using assms(2,3) by (cases "k = n") auto
qed simp

lemma swa_split:
  assumes i: "swa_inv s H" and n: "n \<in> live s" "n_parent (heap s n) = Some p"
    and pos: "0 < pos" "pos < node_len s n" "psize s dvd pos"
  shows "swa_inv (split_result n p pos s) H" "sgrown s (split_result n p pos s)"
proof -
  let ?t = "split_result n p pos s" and ?m = "counter s"
  note d = swa_invD [OF i]
  note s = wf_split [OF d(1) n pos] and h = split_result_nodes(1-3) [OF d(1) n, where pos = pos] and inv = wfD [OF d(1)]
  note f = swa_same_ext [OF same_ext_simps(3) [of s n p pos]]
  have rt: "root ?t = root s" "psize ?t = psize s" by (simp_all add: split_result_simps)
  have nr: "n \<noteq> root s" by (rule live_root_ne [OF d(1) n])
  have nm: "n \<noteq> ?m" "root s \<noteq> ?m" using s(8) n(1) live.root [of s] by auto
  have o: "n_ref (heap ?t k) = n_ref (heap s k) \<and> n_swa_ref (heap ?t k) = n_swa_ref (heap s k) \<and>
      n_tomb (heap ?t k) = n_tomb (heap s k) \<and> (k \<noteq> n \<longrightarrow> n_swa_uuid (heap ?t k) = n_swa_uuid (heap s k) \<and> node_len ?t k = node_len s k)"
    if "k \<in> live s" for k
    using h(2) h(3) [OF that] by (cases "k = n") (auto simp: node_len_def)
  have new: "n_ref (heap ?t ?m) = n_ref (heap s n)" "n_swa_ref (heap ?t ?m) = n_swa_ref (heap s n)"
    "n_tomb (heap ?t ?m) = n_tomb (heap s n)" "n_swa_uuid (heap ?t ?m) = n_swa_uuid (heap s n)"
    "n_swa_uuid (heap ?t n) = None" "node_len ?t n + node_len ?t ?m = node_len s n"
    using h(1,2) pos(2) by (simp_all add: node_len_def)
  have al: "set (anc s q) \<subseteq> live s" if "q \<in> live s" for q using anc_facts(1) [OF inv that] by blast
  have sg: "seg ?t x = ins n ?m (seg s x)" if x: "x \<in># H" for x
    unfolding seg_def anc_split(1) [OF d(1) n pos d(7) [OF x]]
    by (rule seg_of_ins) (use al [OF d(7) [OF x]] s(8) new o in auto)
  have an: "anc ?t (fst x) = ins n ?m (anc s (fst x))" if "x \<in># H" for x
    by (rule anc_split(1) [OF d(1) n pos d(7) [OF that]])
  have sl: "set (seg s x) \<subseteq> live s" if "x \<in># H" for x using al [OF d(7) [OF that]] seg_set [of s x] by blast
  have cnt: "paths ?t H q = paths s H q \<and> pins ?t H q = pins s H q" if q: "q \<in> live s" for q
  proof -
    have "q \<noteq> ?m" using q s(8) by auto
    then show ?thesis using holds_cong [of H q ?t q s] sg an by (auto simp: set_ins)
  qed
  have cm: "paths ?t H ?m = paths s H n \<and> pins ?t H ?m = pins s H n"
  proof -
    have "?m \<notin> set (anc s (fst x)) \<and> ?m \<notin> set (seg s x)" if "x \<in># H" for x
      using s(8) al [OF d(7) [OF that]] sl [OF that] by blast
    then show ?thesis using holds_cong [of H ?m ?t n s] sg an by (auto simp: set_ins)
  qed
  have hd: "hand_ok ?t x" if x: "x \<in># H" for x
  proof -
    have "(\<Sum>k \<leftarrow> seg ?t x. int (node_len ?t k)) = (\<Sum>k \<leftarrow> seg s x. int (node_len s k))"
      unfolding sg [OF x] using new(6) nm(1) o sl [OF x] by (intro sum_ins) auto
    moreover have "\<not> n_tomb (heap ?t k)" if "k \<in> set (seg ?t x)" for k
      using that d(6) [OF x] o sl [OF x] new(3) unfolding sg [OF x] set_ins by (auto simp: hand_ok_def split: if_splits)
    ultimately show ?thesis using d(6) [OF x] s(2) f by (auto simp: hand_ok_def)
  qed
  have sums: "node_sum ?t w_free = node_sum s w_free" "node_sum ?t w_used = node_sum s w_used"
    "node_sum ?t w_sfree = node_sum s w_sfree" "node_sum ?t w_sheld = node_sum s w_sheld"
    using pos(2) h(1,2)
    by (auto intro!: node_sum_split [OF d(1) n pos] simp: w_free_def w_used_def w_sfree_def w_sheld_def w_len_def node_len_def)
  have "mset (take pos (n_value (heap s n))) + mset (drop pos (n_value (heap s n))) = mset (n_value (heap s n))"
    by (metis append_take_drop_id mset_append)
  then have lo: "live_owned ?t = live_owned s"
    unfolding live_owned_def using h(1,2) by (intro node_sum_split [OF d(1) n pos]) (auto simp: w_live_def)
  have mk: "marks_ok ?t"
    unfolding marks_ok_def
  proof (intro ballI allI impI)
    fix k u assume k: "k \<in> live ?t - {root ?t}" "n_swa_uuid (heap ?t k) = Some u"
    define orig where "orig x = (if x = ?m then n else x)" for x
    have og: "orig x \<in> live s - {root s} \<and> n_swa_uuid (heap s (orig x)) = Some u \<and> x \<noteq> n"
      if "x \<in> live ?t - {root ?t}" "n_swa_uuid (heap ?t x) = Some u" for x
      using that s(2) rt(1) n(1) nr new o [of x] by (cases "x = ?m"; cases "x = n") (auto simp: orig_def)
    have "u \<le> swa_uuid_ctr s \<and> (\<forall>j \<in> live s - {root s}. n_swa_uuid (heap s j) = Some u \<longrightarrow> j = orig k)"
      using d(10) [unfolded marks_ok_def] og [OF k] by blast
    moreover have "x = k" if "orig x = orig k" "x \<noteq> n" "k \<noteq> n" for x
      using that by (auto simp: orig_def split: if_splits)
    ultimately show "u \<le> swa_uuid_ctr ?t \<and> (\<forall>j \<in> live ?t - {root ?t}. n_swa_uuid (heap ?t j) = Some u \<longrightarrow> j = k)"
      using og [OF k] og f by metis
  qed
  show "swa_inv ?t H"
    unfolding swa_inv_def
  proof (intro conjI ballI impI)
    show "sums_ok ?t" using d(5) sums f by (simp add: sums_ok_def)
    show "n_ref (heap ?t (root ?t)) = 1" using o [OF live.root] rt d(2) by simp
    show "0 < swa_window ?t" using d(4) f by simp
    fix q assume q: "q \<in> live ?t" "q \<noteq> root ?t"
    show "n_ref (heap ?t q) = paths ?t H q" "n_swa_ref (heap ?t q) = pins ?t H q"
      using q s(2) rt cm cnt [of q] new o [of q] d(8,9) n(1) nr by (cases "q = ?m"; auto)+
  qed (use s(1) hd mk in auto)
  show "sgrown s ?t"
    using s(2,3,4,7) rt owned_split [OF d(1) n pos] lo f flags_split [OF d(1) n pos]
    by (auto simp: sgrown_def)
qed

end
