(* ===== verification/Swa_Match.thy ===== *)
theory Swa_Match
  imports Swa_Contract
begin

text \<open>
  \<open>match_prefix\<close> of the sliding-window cache: it stops at the longest cached prefix and returns the
  longest reusable one, the last whose trailing window is live. \<open>scan\<close> is its loop invariant.
\<close>

section \<open>The loop\<close>

definition scan :: "swa \<Rightarrow> nid \<Rightarrow> int option \<Rightarrow> slot list list \<Rightarrow> nat \<Rightarrow> nid \<Rightarrow> bool" where
  "scan s n since vs best b \<longleftrightarrow>
     since = trail (flags s n) \<and> concat vs = vals s n \<and> best \<le> length vs \<and> b \<in> live s \<and>
     prefix (toks s b) (toks s n) \<and> concat (take best vs) = vals s b \<and> win_ok (swa_window s) (flags s b) \<and>
     (\<forall>k \<le> length (toks s n). win_ok (swa_window s) (take k (flags s n)) \<longrightarrow>
        k \<le> length (toks s b) \<or> win_ok (swa_window s) (flags s n))"

lemma scan_root: "tree_wf s \<Longrightarrow> scan s (root s) None [] 0 (root s)"
  using inv_root_P [OF wfD, of s] inv_root_V [OF wfD, of s] by (simp add: scan_def flags_root live.root)

lemma scan_grown:
  assumes "scan s n since vs best b" and "sgrown s s'" and "n \<in> live s"
  shows "scan s' n since vs best b"
  using assms sgrownD(1,7-10) [OF assms(2)] by (auto simp: scan_def)

text \<open>One node down: at a tombstone the boundary before it is committed if its window is live.\<close>

lemma scan_step:
  assumes wf: "tree_wf s" and w: "0 < swa_window s" and sc: "scan s n since vs best b"
    and n: "n \<in> live s" and c: "c \<in> live s" "n_parent (heap s c) = Some n"
  defines "hit \<equiv> n_tomb (heap s c) \<and> covers since (swa_window s)"
  shows "scan s c (add_run (if n_tomb (heap s c) then Some 0 else since) (n_tomb (heap s c)) (int (node_len s c)))
    (vs @ [n_value (heap s c)]) (if hit then length vs else best) (if hit then n else b)"
proof -
  let ?w = "swa_window s" and ?l = "node_len s c" and ?F = "flags s n"
  note S = sc [unfolded scan_def]
  have cr: "c \<noteq> root s" by (rule live_root_ne [OF wf c])
  have l: "0 < ?l" by (rule inv_len_pos [OF wfD [OF wf] c(1) cr])
  have F: "flags s c = ?F @ replicate ?l (\<not> n_tomb (heap s c))" by (rule flags_step [OF wf c])
  from inv_node [OF wfD [OF wf] c(1) cr] c(2)
  have tv: "toks s c = toks s n @ n_key (heap s c)" "vals s c = vals s n @ n_value (heap s c)"
    by (metis option.inject)+
  have len: "length ?F = length (toks s n)" "length (toks s c) = length (toks s n) + ?l"
    using flags_len [OF wf n] tv(1) by (simp_all add: node_len_def)
  have t: "add_run (if n_tomb (heap s c) then Some 0 else since) (n_tomb (heap s c)) (int ?l) = trail (flags s c)"
    unfolding F using trail_app [OF l, of ?F "n_tomb (heap s c)"] S by simp
  have cv: "covers since ?w \<longleftrightarrow> win_ok ?w ?F" using S covers_trail by metis
  have best: "k \<le> length (toks s (if hit then n else b)) \<or> win_ok ?w (flags s c)"
    if k: "k \<le> length (toks s c)" "win_ok ?w (take k (flags s c))" for k
  proof (cases "k \<le> length (toks s n)")
    case True
    then have "win_ok ?w (take k ?F)" using k(2) F len(1) by simp
    then have a: "k \<le> length (toks s b) \<or> win_ok ?w ?F" using S True by blast
    show ?thesis
    proof (cases "n_tomb (heap s c)")
      case True
      then show ?thesis using a cv \<open>k \<le> length (toks s n)\<close> by (auto simp: hit_def)
    next
      case False
      then show ?thesis using a win_ok_live [of ?w ?F ?l] F by (auto simp: hit_def)
    qed
  next
    case False
    define j where "j = k - length (toks s n)"
    have j: "0 < j" "j \<le> ?l" "take k (flags s c) = ?F @ replicate j (\<not> n_tomb (heap s c))"
      using False k(1) F len by (simp_all add: j_def min_def)
    have nt: "\<not> n_tomb (heap s c)" using k(2) win_ok_tomb [OF w j(1), of ?F] j(3) by auto
    have "flags s c = take k (flags s c) @ replicate (?l - j) True"
      using j F nt by (simp add: replicate_add [symmetric])
    then show ?thesis using win_ok_live k(2) by metis
  qed
  show ?thesis
    unfolding scan_def t
  proof (intro conjI allI impI)
    show "prefix (toks s (if hit then n else b)) (toks s c)" using S tv(1) by (auto intro: prefix_order.trans)
    show "win_ok ?w (flags s (if hit then n else b))" using S cv by (auto simp: hit_def)
  qed (use S tv n best in auto)
qed

lemma swa_match_loop_ok:
  assumes "swa_inv s H" and "n \<in> live s" and "toks s n = take pos ids" and "pos \<le> length ids"
    and "length ids - pos < f" and "scan s n since vs best b"
  shows "\<exists>s' m k since' vs' best' b'. swa_match_loop f ids n pos since vs best b s = Inr (s', m, since', vs', best', b') \<and>
    swa_inv s' H \<and> sgrown s s' \<and> walked s ids s' m k \<and> scan s' m since' vs' best' b'"
  using assms
proof (induction f arbitrary: n pos since vs best b)
  case (Suc f)
  note i = Suc.prems(1) and n = Suc.prems(2-4) and sc = Suc.prems(6) and d = swa_invD [OF Suc.prems(1)]
  show ?case
  proof (cases "pos < length ids \<and> get_child s n (drop pos ids) \<noteq> None")
    case False
    then have "swa_match_loop (Suc f) ids n pos since vs best b s = Inr (s, n, since, vs, best, b)" by auto
    moreover have "walked s ids s n pos" by (rule walk_none [OF d(1) n]) (use False in auto)
    ultimately show ?thesis using i sc sgrown_refl by blast
  next
    case True
    then obtain c where lt: "pos < length ids" and c: "get_child s n (drop pos ids) = Some c" by auto
    define m where "m = align_down_nat (match_len (n_key (heap s c)) (drop pos ids)) (psize s)"
    define tb where "tb = n_tomb (heap s c)"
    define hit where "hit \<longleftrightarrow> tb \<and> covers since (swa_window s)"
    define best1 where "best1 = (if hit then length vs else best)"
    define b1 where "b1 = (if hit then n else b)"
    note ch = walk_child [OF d(1) n c, folded m_def]
    have run: "swa_match_loop (Suc f) ids n pos since vs best b s =
       (if m < node_len s c then and_then (split_at c m s) (\<lambda>(s1, h).
          Inr (s1, h, add_run (if tb then Some 0 else since) (n_tomb (heap s1 h)) (int (node_len s1 h)),
            vs @ [n_value (heap s1 h)], best1, b1))
        else swa_match_loop f ids c (pos + m) (add_run (if tb then Some 0 else since) tb (int (node_len s c)))
            (vs @ [n_value (heap s c)]) best1 b1 s)"
      using lt c ch(4) by (simp add: m_def [symmetric] tb_def hit_def best1_def b1_def Let_def)
    show ?thesis
    proof (cases "m < node_len s c")
      case True
      let ?t = "split_result c n m s" and ?h = "counter s"
      note sp = swa_split [OF i ch(1,3,4) True ch(5)]
      note s = wf_split [OF d(1) ch(1,3,4) True ch(5)] and h = split_result_nodes(1) [OF d(1) ch(1,3), where pos = m]
      have hl: "?h \<in> live ?t" "n_parent (heap ?t ?h) = Some n" "n_tomb (heap ?t ?h) = tb"
        using s(2) h by (simp_all add: tb_def)
      have nl: "n \<in> live ?t" using n(1) s(2) by simp
      have w: "0 < swa_window ?t" "swa_window ?t = swa_window s" using swa_invD(4) [OF sp(1)] sgrownD(7) [OF sp(2)] by simp_all
      have "scan ?t ?h (add_run (if tb then Some 0 else since) (n_tomb (heap ?t ?h)) (int (node_len ?t ?h)))
          (vs @ [n_value (heap ?t ?h)]) best1 b1"
        using scan_step [OF s(1) w(1) scan_grown [OF sc sp(2) n(1)] nl hl(1,2)]
        by (simp add: hl(3) w(2) hit_def best1_def b1_def)
      moreover have "walked s ids ?t ?h (pos + m)"
        unfolding m_def by (rule walk_part [OF d(1) n c]) (use True in \<open>simp add: m_def\<close>)
      moreover have "split_at c m s = Inr (?t, ?h)" by (rule split_at_eq [OF wfD [OF d(1)] ch(1,3,4) True])
      ultimately show ?thesis using run True sp by (auto simp: Let_def)
    next
      case False
      then have eq: "m = node_len s c" using ch(6) by simp
      have sc': "scan s c (add_run (if tb then Some 0 else since) tb (int (node_len s c)))
          (vs @ [n_value (heap s c)]) best1 b1"
        unfolding tb_def best1_def b1_def hit_def by (rule scan_step [OF d(1,4) sc n(1) ch(1,3)])
      have "length ids - (pos + m) < f" using lt ch(4) Suc.prems(5) by simp
      from Suc.IH [OF i ch(1) ch(9) [OF eq] ch(7) this sc'] show ?thesis using run False by simp
    qed
  qed
qed simp

section \<open>Stamps\<close>

lemma stamp_loop_restamped: "restamped s t \<Longrightarrow> restamped s (stamp_loop b off ns t)"
proof (induction ns arbitrary: off t)
  case (Cons n ns)
  obtain hp c where t: "t = s\<lparr>heap := hp, swa_clk := c\<rparr>"
    using Cons.prems unfolding restamped_def by blast
  have x: "\<exists>x. hp m = (heap s m)\<lparr>n_time := x\<rparr>" for m using Cons.prems t by (simp add: restamped_def)
  have "\<exists>x. (hp n)\<lparr>n_time := b - off\<rparr> = (heap s n)\<lparr>n_time := x\<rparr>" using x [of n] by auto
  then have "restamped s (upd n (\<lambda>nd. nd\<lparr>n_time := b - off\<rparr>) t)"
    using x by (auto simp: restamped_def t upd_def)
  then show ?case using Cons.IH by simp
qed simp

lemma stamp_path_ok:
  assumes wf: "tree_wf s" and n: "n \<in> live s"
  obtains t where "stamp_path n s = Inr t" "restamped s t"
proof -
  let ?s = "s\<lparr>swa_clk := swa_clk s + 1\<rparr>"
  have T: "same_tree s ?s" by (simp add: same_tree_def)
  note t = same_tree [OF T wf]
  have "up_path ?s n = Inr (anc s n)" using wf_up_path [OF t(1)] t(2,9) n by simp
  moreover have "restamped s ?s" by (simp add: restamped_def) (metis rnode.surjective rnode.update_convs(6))
  ultimately show ?thesis using that stamp_loop_restamped by (auto simp: stamp_path_def Let_def)
qed

section \<open>The match\<close>

lemma swa_match_ok:
  assumes i: "swa_inv s H"
  obtains s' kv n where "swa_match ids s = Inr (s', kv, length kv, n)" "swa_inv s' H" "sgrown s s'" "n \<in> live s'"
    "length kv \<le> length ids" "toks s' n = take (length kv) ids" "kv = vals s' n" "win_ok (swa_window s') (flags s' n)"
    "\<And>k. k \<le> length ids \<Longrightarrow> reusable s (take k ids) \<Longrightarrow> k \<le> length kv"
proof -
  note d = swa_invD [OF i]
  obtain s1 m k since vs best b where r: "swa_match_loop (Suc (length ids)) ids (root s) 0 None [] 0 (root s) s =
      Inr (s1, m, since, vs, best, b)" "swa_inv s1 H" "sgrown s s1" "walked s ids s1 m k" "scan s1 m since vs best b"
  proof -
    have "toks s (root s) = take 0 ids" using inv_root_P [OF wfD [OF d(1)]] by simp
    moreover have "length ids - 0 < Suc (length ids)" by simp
    ultimately show ?thesis
      using swa_match_loop_ok [OF i live.root _ le0 _ scan_root [OF d(1)]] that by blast
  qed
  note w = walkedD [OF r(4)] and g = sgrownD [OF r(3)] and S = r(5) [unfolded scan_def]
  define hit where "hit = covers since (swa_window s1)"
  define best' where "best' = (if hit then length vs else best)"
  define n where "n = (if hit then m else b)"
  have hit: "hit \<longleftrightarrow> win_ok (swa_window s1) (flags s1 m)" unfolding hit_def using S covers_trail by metis
  have nl: "n \<in> live s1" using S w(2) by (simp add: n_def)
  obtain s2 where st: "stamp_path n s1 = Inr s2" "restamped s1 s2" by (rule stamp_path_ok [OF w(1) nl])
  note R = restamped_ok [OF r(2) st(2)] and g2 = sgrownD [OF restamped_ok(2) [OF r(2) st(2)]]
  have kv: "concat (take best' vs) = vals s1 n" using S by (simp add: best'_def n_def)
  have len: "length (vals s1 n) = length (toks s1 n)" by (rule inv_len_PV [OF wfD [OF w(1)] nl])
  have pm: "prefix (toks s1 n) (take k ids)" using S w(3) by (auto simp: n_def)
  then have pre: "prefix (toks s1 n) ids" using take_is_prefix prefix_order.trans by blast
  have e: "swa_match ids s = Inr (s2, vals s1 n, length (vals s1 n), n)"
    using r(1) st(1) kv by (simp add: swa_match_def hit_def [symmetric] best'_def [symmetric] n_def [symmetric] Let_def)
  show ?thesis
  proof (rule that [of s2 "vals s1 n" n])
    show "swa_match ids s = Inr (s2, vals s1 n, length (vals s1 n), n)" by (rule e)
    show "swa_inv s2 H" "sgrown s s2" by (rule R(1), rule sgrown_trans [OF r(3) R(2)])
    show "n \<in> live s2" "vals s1 n = vals s2 n" using nl R(3) g2(9) [OF nl] by simp_all
    show "length (vals s1 n) \<le> length ids" "toks s2 n = take (length (vals s1 n)) ids"
      using pre g2(8) [OF nl] len by (auto simp: prefix_def)
    show "win_ok (swa_window s2) (flags s2 n)" using S hit g2(7,10) nl by (simp add: n_def)
    fix j assume j: "j \<le> length ids" "reusable s (take j ids)"
    then obtain q where q: "q \<in> live s" "psize s dvd j" "prefix (take j ids) (toks s q)"
      "win_ok (swa_window s) (take j (flags s q))" by (auto simp: reusable_def min_absorb2)
    have "j \<le> length (toks s q)" using prefix_length_le [OF q(3)] j(1) by simp
    then have "cached s (take j ids) (take j (vals s q))"
      unfolding cached_def using q j(1) by (intro bexI [of _ q]) (simp_all add: min_absorb2)
    then have jk: "j \<le> k" using w(7) take_is_prefix [of j ids] j(1) by (metis length_take min_absorb2)
    have "take j (flags s1 q) = take j (flags s1 m)"
    proof -
      have "prefix (take j ids) (toks s1 m)" unfolding w(3) using jk by (metis min_absorb1 take_is_prefix take_take)
      moreover have "prefix (take j ids) (toks s1 q)" using q(1,3) g(8) by simp
      ultimately show ?thesis
        using flags_unique [OF w(1) _ w(2), of q "take j ids"] q(1,2) g(1,3) j(1) by (auto simp: min_absorb2)
    qed
    then have "win_ok (swa_window s1) (take j (flags s1 m))" using q(1,4) g(7,10) by simp
    moreover have "j \<le> length (toks s1 m)" unfolding w(3) using jk w(4) by simp
    ultimately have "j \<le> length (toks s1 b) \<or> hit" using S hit by blast
    moreover have "length (toks s1 m) = k" using w(3,4) by simp
    ultimately show "j \<le> length (vals s1 n)" using jk len by (cases hit) (auto simp: n_def)
  qed
qed

end
