(* ===== verification/Swa_Lock.thy ===== *)
theory Swa_Lock
  imports Swa_Match
begin

text \<open>
  Locking and unlocking in the sliding-window cache: \<open>inc_lock\<close> pins the path and the trailing
  window, \<open>dec_lock\<close> with the returned stamp takes back exactly these pins.
\<close>

section \<open>What the loops change\<close>

definition moved :: "(rnode \<Rightarrow> int) \<Rightarrow> swa \<Rightarrow> swa \<Rightarrow> nid list \<Rightarrow> int" where
  "moved w s t ns = (\<Sum>m \<leftarrow> ns. w (heap t m) - w (heap s m))"

definition relocked :: "swa \<Rightarrow> nid list \<Rightarrow> nid list \<Rightarrow> int \<Rightarrow> (nid \<Rightarrow> nat option) \<Rightarrow> swa \<Rightarrow> bool" where
  "relocked s ns sg d f t \<longleftrightarrow>
     counter t = counter s \<and> root t = root s \<and> psize t = psize s \<and> swa_window t = swa_window s \<and>
     (\<forall>m. heap t m = (heap s m)\<lparr>n_ref := n_ref (heap s m) + (if m \<in> set ns then d else 0),
        n_swa_ref := n_swa_ref (heap s m) + (if m \<in> set sg then d else 0), n_swa_uuid := f m\<rparr>) \<and>
     full_evictable t = full_evictable s + moved w_free s t ns \<and> full_protected t = full_protected s + moved w_used s t ns \<and>
     swa_evictable t = swa_evictable s + moved w_sfree s t ns \<and> swa_protected t = swa_protected s + moved w_sheld s t ns"

lemma relocked_nil: "relocked s [] [] d (\<lambda>m. n_swa_uuid (heap s m)) s"
  by (simp add: relocked_def moved_def)

text \<open>One node, then the rest of the path.\<close>

lemma relocked_Cons:
  assumes r: "relocked s1 ns sg d f t" and n: "n \<notin> set ns" "set sg \<subseteq> set ns"
    and b: "counter s1 = counter s" "root s1 = root s" "psize s1 = psize s" "swa_window s1 = swa_window s"
    and h: "heap s1 = (heap s)(n := (heap s n)\<lparr>n_ref := n_ref (heap s n) + d,
        n_swa_ref := n_swa_ref (heap s n) + (if p then d else 0), n_swa_uuid := f n\<rparr>)"
    and c: "full_evictable s1 = full_evictable s + (w_free (heap s1 n) - w_free (heap s n))"
      "full_protected s1 = full_protected s + (w_used (heap s1 n) - w_used (heap s n))"
      "swa_evictable s1 = swa_evictable s + (w_sfree (heap s1 n) - w_sfree (heap s n))"
      "swa_protected s1 = swa_protected s + (w_sheld (heap s1 n) - w_sheld (heap s n))"
  shows "relocked s (n # ns) (if p then n # sg else sg) d f t"
proof -
  have t: "heap t m = (heap s1 m)\<lparr>n_ref := n_ref (heap s1 m) + (if m \<in> set ns then d else 0),
        n_swa_ref := n_swa_ref (heap s1 m) + (if m \<in> set sg then d else 0), n_swa_uuid := f m\<rparr>" for m
    using r by (simp add: relocked_def)
  have sg: "n \<notin> set sg" using n by blast
  have tn: "heap t n = heap s1 n" using t [of n] n(1) sg h by simp
  have "moved w s1 t ns = moved w s t ns" for w
    unfolding moved_def using n(1) h by (intro arg_cong [where f = sum_list] map_cong) auto
  then have mv: "moved w s t (n # ns) = (w (heap s1 n) - w (heap s n)) + moved w s1 t ns" for w
    using tn by (simp add: moved_def)
  have hp: "heap t m = (heap s m)\<lparr>n_ref := n_ref (heap s m) + (if m \<in> set (n # ns) then d else 0),
      n_swa_ref := n_swa_ref (heap s m) + (if m \<in> set (if p then n # sg else sg) then d else 0), n_swa_uuid := f m\<rparr>" for m
    using t [of m] h n(1) sg by (cases "m = n") auto
  show ?thesis
    unfolding relocked_def mv using r hp b c by (simp add: relocked_def del: set_simps)
qed

lemma node_sum_moved:
  assumes wf: "tree_wf s" and l: "live t = live s" "root t = root s" and ns: "set ns \<subseteq> live s - {root s}" "distinct ns"
    and o: "\<And>m. m \<notin> set ns \<Longrightarrow> w (heap t m) = w (heap s m)"
  shows "node_sum t w = node_sum s w + moved w s t ns"
proof -
  have "node_sum t w - node_sum s w = (\<Sum>m \<in> live s - {root s}. w (heap t m) - w (heap s m))"
    unfolding node_sum_def l by (simp add: sum_subtractf)
  also have "\<dots> = (\<Sum>m \<in> set ns. w (heap t m) - w (heap s m))"
    using ns(1) o live_finite [OF wf] by (intro sum.mono_neutral_right) auto
  finally show ?thesis unfolding moved_def using ns(2) by (simp add: sum_list_distinct_conv_sum_set)
qed

lemma relocked_ok:
  assumes i: "swa_inv s H" and h: "n \<in> live s" and r: "relocked s (anc s n) sg d f t" and sg: "set sg \<subseteq> set (anc s n)"
    and H: "\<And>x. x \<in># H' \<Longrightarrow> hand_ok t x"
    and p: "\<And>m. m \<in> live s \<Longrightarrow> m \<noteq> root s \<Longrightarrow> paths t H' m = paths s H m + (if m \<in> set (anc s n) then d else 0) \<and>
      pins t H' m = pins s H m + (if m \<in> set sg then d else 0)"
    and m: "marks_ok t"
  shows "swa_inv t H'"
proof -
  note D = swa_invD [OF i] and a = anc_facts(1,5) [OF wfD [OF swa_invD(1) [OF i]] h]
  have f: "counter t = counter s" "root t = root s" "psize t = psize s" "swa_window t = swa_window s"
    and hp: "\<And>m. heap t m = (heap s m)\<lparr>n_ref := n_ref (heap s m) + (if m \<in> set (anc s n) then d else 0),
        n_swa_ref := n_swa_ref (heap s m) + (if m \<in> set sg then d else 0), n_swa_uuid := f m\<rparr>"
    and c: "full_evictable t = full_evictable s + moved w_free s t (anc s n)" "full_protected t = full_protected s + moved w_used s t (anc s n)"
     "swa_evictable t = swa_evictable s + moved w_sfree s t (anc s n)" "swa_protected t = swa_protected s + moved w_sheld s t (anc s n)"
    using r by (auto simp: relocked_def)
  have sh: "shape (heap t m) = shape (heap s m) \<and> n_tomb (heap t m) = n_tomb (heap s m)" for m by (simp add: hp shape_def)
  note g = sgrown_shape [OF D(1) f sh]
  have o: "w (heap t m) = w (heap s m)"
    if "m \<notin> set (anc s n)" "\<And>nd x. w (nd\<lparr>n_swa_uuid := x\<rparr>) = w nd" for m and w :: "rnode \<Rightarrow> int"
    using that sg by (subst hp) auto
  have ms: "node_sum t w = node_sum s w + moved w s t (anc s n)" if "\<And>nd x. w (nd\<lparr>n_swa_uuid := x\<rparr>) = w nd" for w
    by (rule node_sum_moved [OF D(1) g(2) f(2) a]) (rule o [OF _ that])
  have so: "sums_ok t"
    using D(5) c ms [of w_free] ms [of w_used] ms [of w_sfree] ms [of w_sheld]
    by (simp add: sums_ok_def w_free_def w_used_def w_sfree_def w_sheld_def w_len_def)
  show ?thesis
    unfolding swa_inv_def
  proof (intro conjI ballI impI)
    show "tree_wf t" by (rule same_skel(1) [OF g(3) D(1)])
    show "n_ref (heap t (root t)) = 1" using D(2) a(1) f(2) by (subst hp) auto
    show "0 < swa_window t" using D(4) f(4) by simp
    fix m assume "m \<in> live t" "m \<noteq> root t"
    then have m': "m \<in> live s" "m \<noteq> root s" using g(2) f(2) by simp_all
    show "n_ref (heap t m) = paths t H' m" "n_swa_ref (heap t m) = pins t H' m"
      unfolding hp using p [OF m'] D(8,9) [OF m'] by simp_all
  qed (use so H m in auto)
qed

section \<open>The window below a node\<close>

text \<open>The nodes \<open>inc_lock\<close> pins, and the node at which the pinned length first covers the window.\<close>

fun win_cut :: "swa \<Rightarrow> int \<Rightarrow> nid list \<Rightarrow> nid list \<times> nid option" where
  "win_cut s l [] = ([], None)"
| "win_cut s l (n # ns) =
     (if \<not> l < swa_window s then ([], None)
      else if l + int (node_len s n) \<ge> swa_window s then ([n], Some n)
      else (case win_cut s (l + int (node_len s n)) ns of (xs, b) \<Rightarrow> (n # xs, b)))"

definition mark :: "swa \<Rightarrow> nid \<Rightarrow> nat" where
  "mark s b = (case n_swa_uuid (heap s b) of None \<Rightarrow> Suc (swa_uuid_ctr s) | Some x \<Rightarrow> x)"

lemma win_cut_set: "win_cut s l ns = (xs, b) \<Longrightarrow> set xs \<subseteq> set ns \<and> (\<forall>c. b = Some c \<longrightarrow> c \<in> set xs)"
proof (induction ns arbitrary: l xs b)
  case (Cons n ns)
  obtain ys c where y: "win_cut s (l + int (node_len s n)) ns = (ys, c)" by fastforce
  show ?case using Cons.IH [OF y] Cons.prems y by (auto split: if_splits)
qed simp

lemma win_cut_past [simp]: "\<not> l < swa_window s \<Longrightarrow> win_cut s l ns = ([], None)"
  by (cases ns) auto

lemma win_cut_cong:
  "swa_window t = swa_window s \<Longrightarrow> (\<And>m. m \<in> set ns \<Longrightarrow> node_len t m = node_len s m) \<Longrightarrow> win_cut t l ns = win_cut s l ns"
  by (induction ns arbitrary: l) auto

lemma win_cut_none: "win_cut s l ns = (xs, None) \<Longrightarrow> l < swa_window s \<Longrightarrow> xs = ns"
  by (induction ns arbitrary: l xs) (auto split: if_splits prod.splits)

lemma win_cut_some:
  "win_cut s l ns = (xs, Some b) \<Longrightarrow> swa_window s \<le> l + (\<Sum>m \<leftarrow> xs. int (node_len s m)) \<and>
   (n_swa_uuid (heap t b) = Some u \<longrightarrow> (\<forall>m \<in> set ns. m \<noteq> b \<longrightarrow> n_swa_uuid (heap t m) \<noteq> Some u) \<longrightarrow>
     distinct ns \<longrightarrow> seg_of t (Some u) ns = xs)"
proof (induction ns arbitrary: l xs)
  case (Cons n ns)
  show ?case
  proof (cases "l + int (node_len s n) \<ge> swa_window s")
    case True
    then show ?thesis using Cons.prems by (auto split: if_splits)
  next
    case False
    then obtain ys where y: "win_cut s (l + int (node_len s n)) ns = (ys, Some b)" "xs = n # ys"
      using Cons.prems by (auto split: if_splits prod.splits)
    have "b \<in> set ns" using win_cut_set [OF y(1)] by auto
    then show ?thesis using Cons.IH [OF y(1)] y(2) by auto
  qed
qed simp

text \<open>A live window has no tombstone among these nodes.\<close>

lemma win_cut_live:
  assumes "False \<notin> set (take (nat (swa_window s - l)) (concat (map (\<lambda>m. replicate (node_len s m) (\<not> n_tomb (heap s m))) ns)))"
    and "\<And>m. m \<in> set ns \<Longrightarrow> 0 < node_len s m" and "m \<in> set (fst (win_cut s l ns))"
  shows "\<not> n_tomb (heap s m)"
  using assms
proof (induction ns arbitrary: l)
  case (Cons n ns)
  let ?l = "node_len s n" and ?k = "nat (swa_window s - l)"
  have w: "l < swa_window s" using Cons.prems(3) by (auto split: if_splits)
  have "take ?k (replicate ?l (\<not> n_tomb (heap s n))) \<noteq> []" using w Cons.prems(2) by simp
  then have n: "\<not> n_tomb (heap s n)" using Cons.prems(1) by (cases "n_tomb (heap s n)") (auto simp: min_def split: if_splits)
  show ?case
  proof (cases "m = n")
    case False
    then have m: "m \<in> set (fst (win_cut s (l + int ?l) ns))"
      using Cons.prems(3) w by (auto split: if_splits prod.splits)
    have "nat (swa_window s - (l + int ?l)) = ?k - ?l" by simp
    then show ?thesis using Cons.IH [OF _ _ m] Cons.prems(1,2) by simp
  qed (use n in simp)
qed simp

lemma win_cut_win:
  assumes i: "swa_inv s H" and n: "n \<in> live s" and w: "win_ok (swa_window s) (flags s n)" and m: "m \<in> set (fst (win_cut s 0 (anc s n)))"
  shows "\<not> n_tomb (heap s m)"
proof (rule win_cut_live [OF _ _ m])
  note d = swa_invD [OF i]
  have "rev (flags s n) = concat (map (\<lambda>m. replicate (node_len s m) (\<not> n_tomb (heap s m))) (anc s n))"
    by (simp add: flags_def rev_concat rev_map [symmetric] comp_def)
  then show "False \<notin> set (take (nat (swa_window s - 0)) (concat (map (\<lambda>m. replicate (node_len s m) (\<not> n_tomb (heap s m))) (anc s n))))"
    using w by (simp add: win_ok_def)
  show "0 < node_len s k" if "k \<in> set (anc s n)" for k
    using anc_facts(1) [OF wfD [OF d(1)] n] that by (intro inv_len_pos [OF wfD [OF d(1)]]) auto
qed

text \<open>Conversely, what a handle pins keeps its trailing window live.\<close>

lemma hand_win:
  assumes i: "swa_inv s H" and h: "h \<in># H"
  shows "win_ok (swa_window s) (flags s (fst h))"
proof -
  note d = swa_invD [OF i] and a = swa_invD(6) [OF i h, unfolded hand_ok_def]
  let ?f = "\<lambda>m. replicate (node_len s m) (\<not> n_tomb (heap s m))"
  obtain ms where ms: "anc s (fst h) = seg s h @ ms" using seg_of_prefix unfolding seg_def by blast
  have r: "rev (flags s (fst h)) = concat (map ?f (seg s h)) @ concat (map ?f ms)"
    using ms by (simp add: flags_def rev_concat rev_map [symmetric] comp_def)
  have "map ?f (seg s h) = map (\<lambda>m. replicate (node_len s m) True) (seg s h)" using a by simp
  then have l: "False \<notin> set (concat (map ?f (seg s h)))" by (simp only: set_concat set_map) auto
  have "length (concat (map ?f (seg s h))) = (\<Sum>m \<leftarrow> seg s h. node_len s m)" by (simp add: length_concat comp_def)
  moreover have "int (\<Sum>m \<leftarrow> xs. node_len s m) = (\<Sum>m \<leftarrow> xs. int (node_len s m))" for xs
    by (induction xs) auto
  ultimately have e: "int (length (concat (map ?f (seg s h)))) = (\<Sum>m \<leftarrow> seg s h. int (node_len s m))" by simp
  have "snd h = None \<or> swa_window s \<le> (\<Sum>m \<leftarrow> seg s h. int (node_len s m))" using a by blast
  then have "snd h = None \<or> nat (swa_window s) \<le> length (concat (map ?f (seg s h)))" unfolding e [symmetric] by linarith
  then show ?thesis
  proof
    assume "snd h = None"
    then have "ms = []" using ms by (simp add: seg_def)
    then have "False \<notin> set (rev (flags s (fst h)))" unfolding r using l by (simp only: list.map concat.simps append_Nil2 not_False_eq_True)
    then show ?thesis unfolding win_ok_def by (blast dest: in_set_takeD)
  next
    assume "nat (swa_window s) \<le> length (concat (map ?f (seg s h)))"
    then have "take (nat (swa_window s)) (rev (flags s (fst h))) = take (nat (swa_window s)) (concat (map ?f (seg s h)))"
      unfolding r by (simp only: take_append diff_is_0_eq [THEN iffD2] take_0 append_Nil2)
    then show ?thesis unfolding win_ok_def using l by (metis in_set_takeD)
  qed
qed

section \<open>The loops\<close>

lemma heap_first:
  "heap_update g (full_evictable_update f s) = full_evictable_update f (heap_update g s)"
  "heap_update g (full_protected_update f s) = full_protected_update f (heap_update g s)"
  "heap_update g (swa_evictable_update f s) = swa_evictable_update f (heap_update g s)"
  "heap_update g (swa_protected_update f s) = swa_protected_update f (heap_update g s)"
  "heap_update g (swa_uuid_ctr_update k s) = swa_uuid_ctr_update k (heap_update g s)"
  for s :: swa
  by (cases s; simp)+

lemma same_uuid: "n_swa_uuid nd = y \<Longrightarrow> nd\<lparr>n_swa_uuid := y\<rparr> = nd"
  by (cases nd) simp

lemma swa_inc_loop_ok:
  assumes "up_loop f s n = Inr ns" and "distinct ns" and "\<forall>m \<in> set (fst (win_cut s l ns)). \<not> n_tomb (heap s m)"
    and "\<forall>m \<in> set ns. 0 \<le> n_ref (heap s m) \<and> 0 \<le> n_swa_ref (heap s m)" and "win_cut s l ns = (sg, b)"
  shows "\<exists>t. swa_inc_loop f n l u s = Inr (t, case b of None \<Rightarrow> u | Some c \<Rightarrow> Some (mark s c)) \<and>
    relocked s ns sg 1 (\<lambda>m. if b = Some m then Some (mark s m) else n_swa_uuid (heap s m)) t \<and>
    swa_uuid_ctr t = (if \<exists>c. b = Some c \<and> n_swa_uuid (heap s c) = None then Suc (swa_uuid_ctr s) else swa_uuid_ctr s)"
  using assms
proof (induction f arbitrary: n ns l u s sg b)
  case (Suc f)
  show ?case
  proof (cases "n_parent (heap s n)")
    case None
    then have "ns = []" using Suc.prems(1) by simp
    then show ?thesis using None Suc.prems(5) relocked_nil by auto
  next
    case (Some p)
    then obtain ms where ms: "up_loop f s p = Inr ms" "ns = n # ms"
      using Suc.prems(1) by (auto simp: and_then_eq_Inr)
    have n: "n \<notin> set ms" "distinct ms" using Suc.prems(2) ms(2) by auto
    let ?l = "int (node_len s n)" and ?w = "swa_window s"
    define lo where "lo \<longleftrightarrow> l < ?w"
    define hit where "hit \<longleftrightarrow> lo \<and> l + ?l \<ge> ?w"
    define x where "x = (heap s n)\<lparr>n_ref := n_ref (heap s n) + 1, n_swa_ref := n_swa_ref (heap s n) + (if lo then 1 else 0),
      n_swa_uuid := (if hit then Some (mark s n) else n_swa_uuid (heap s n))\<rparr>"
    define s1 where "s1 = s\<lparr>heap := (heap s)(n := x),
      full_evictable := full_evictable s - w_free (heap s n), full_protected := full_protected s + w_free (heap s n),
      swa_evictable := swa_evictable s - (if lo then w_sfree (heap s n) else 0),
      swa_protected := swa_protected s + (if lo then w_sfree (heap s n) else 0),
      swa_uuid_ctr := (if hit \<and> n_swa_uuid (heap s n) = None then Suc (swa_uuid_ctr s) else swa_uuid_ctr s)\<rparr>"
    define l1 where "l1 = (if lo then l + ?l else l)"
    define u1 where "u1 = (if hit then Some (mark s n) else u)"
    have tb: "\<not> n_tomb (heap s n)" if lo
      using Suc.prems(3) that unfolding ms(2) lo_def by (auto split: if_splits prod.splits)
    have step: "swa_inc_loop (Suc f) n l u s = swa_inc_loop f p l1 u1 s1"
    proof (cases lo)
      case False
      have "s1 = upd n (\<lambda>x. x\<lparr>n_ref := n_ref x + 1\<rparr>) (if n_ref (heap s n) = 0
          then s\<lparr>full_evictable := full_evictable s - ?l, full_protected := full_protected s + ?l\<rparr> else s)"
        using False by (simp add: s1_def x_def hit_def upd_def w_free_def w_len_def node_len_def heap_first same_uuid)
      then show ?thesis using Some False by (simp add: l1_def u1_def hit_def lo_def Let_def del: fun_upd_apply)
    next
      case True
      note t = tb [OF True]
      show ?thesis
        using Some True t
        by (cases "n_ref (heap s n) = 0"; cases "n_swa_ref (heap s n) = 0"; cases hit; cases "n_swa_uuid (heap s n)")
          (simp_all add: l1_def u1_def s1_def x_def hit_def [unfolded lo_def] lo_def upd_def w_free_def w_sfree_def w_len_def node_len_def Let_def mark_def heap_first same_uuid)
    qed
    have o: "heap s1 m = heap s m" if "m \<noteq> n" for m using that by (simp add: s1_def)
    have on: "heap s1 m = heap s m" if "m \<in> set ms" for m
    proof (rule o)
      show "m \<noteq> n" using that n(1) by blast
    qed
    have un: "up_loop f s1 p = Inr ms"
    proof -
      have "up_loop g s1 q = up_loop g s q" for g q
        by (induction g arbitrary: q) (auto simp: s1_def x_def split: option.splits)
      then show ?thesis using ms(1) by simp
    qed
    have wc: "win_cut s1 l1 ms = win_cut s l1 ms"
      by (rule win_cut_cong) (use o n(1) in \<open>auto simp: s1_def node_len_def x_def\<close>)
    obtain sg1 b1 where c1: "win_cut s l1 ms = (sg1, b1)" by fastforce
    have cut: "sg = (if lo then n # sg1 else sg1)" "b = (if hit then Some n else b1)" "hit \<Longrightarrow> b1 = None"
      using Suc.prems(5) c1 unfolding ms(2) by (auto simp: lo_def hit_def l1_def split: if_splits)
    have sub: "set sg1 \<subseteq> set ms" "\<And>c. b1 = Some c \<Longrightarrow> c \<in> set ms" using win_cut_set [OF c1] by auto
    have p3: "\<forall>m \<in> set (fst (win_cut s1 l1 ms)). \<not> n_tomb (heap s1 m)"
    proof
      fix m assume "m \<in> set (fst (win_cut s1 l1 ms))"
      then have m: "m \<in> set sg1" "m \<in> set sg" using wc c1 cut(1) by auto
      then have "heap s1 m = heap s m" using sub(1) on by blast
      then show "\<not> n_tomb (heap s1 m)" using Suc.prems(3,5) m(2) by simp
    qed
    have p4: "\<forall>m \<in> set ms. 0 \<le> n_ref (heap s1 m) \<and> 0 \<le> n_swa_ref (heap s1 m)"
      using Suc.prems(4) on ms(2) by simp
    have mk: "mark s1 c = mark s c" if "b1 = Some c" for c
    proof -
      have "\<not> hit" using that cut(3) by auto
      then have "swa_uuid_ctr s1 = swa_uuid_ctr s" by (simp add: s1_def)
      then show ?thesis by (simp only: mark_def on [OF sub(2) [OF that]])
    qed
    obtain t where t: "swa_inc_loop f p l1 u1 s1 = Inr (t, case b1 of None \<Rightarrow> u1 | Some c \<Rightarrow> Some (mark s1 c))"
      "relocked s1 ms sg1 1 (\<lambda>m. if b1 = Some m then Some (mark s1 m) else n_swa_uuid (heap s1 m)) t"
      "swa_uuid_ctr t = (if \<exists>c. b1 = Some c \<and> n_swa_uuid (heap s1 c) = None then Suc (swa_uuid_ctr s1) else swa_uuid_ctr s1)"
      using Suc.IH [OF un n(2) p3 p4, of sg1 b1 u1] wc c1 by auto
    let ?f = "\<lambda>m. if b = Some m then Some (mark s m) else n_swa_uuid (heap s m)"
    have f: "(\<lambda>m. if b1 = Some m then Some (mark s1 m) else n_swa_uuid (heap s1 m)) = ?f"
    proof
      fix m
      show "(if b1 = Some m then Some (mark s1 m) else n_swa_uuid (heap s1 m)) = ?f m"
        using cut(2,3) sub(2) n(1) mk by (cases "m = n") (auto simp: s1_def x_def)
    qed
    have nn: "0 \<le> n_ref (heap s n)" "0 \<le> n_swa_ref (heap s n)" using Suc.prems(4) ms(2) by simp_all
    have "relocked s (n # ms) (if lo then n # sg1 else sg1) 1 ?f t"
    proof (rule relocked_Cons [OF t(2) [unfolded f] n(1) sub(1)])
      show "heap s1 = (heap s)(n := (heap s n)\<lparr>n_ref := n_ref (heap s n) + 1,
        n_swa_ref := n_swa_ref (heap s n) + (if lo then 1 else 0), n_swa_uuid := ?f n\<rparr>)"
        using cut(2) sub(2) [of n] n(1) by (auto simp: s1_def x_def)
    qed (use nn tb in \<open>auto simp: s1_def x_def w_free_def w_used_def w_sfree_def w_sheld_def w_len_def\<close>)
    moreover have "(case b1 of None \<Rightarrow> u1 | Some c \<Rightarrow> Some (mark s1 c)) = (case b of None \<Rightarrow> u | Some c \<Rightarrow> Some (mark s c))"
      using cut(2,3) mk by (cases b1) (auto simp: u1_def)
    moreover have "swa_uuid_ctr t = (if \<exists>c. b = Some c \<and> n_swa_uuid (heap s c) = None then Suc (swa_uuid_ctr s) else swa_uuid_ctr s)"
      using t(3) cut(2,3) sub(2) n(1) o by (auto simp: s1_def)
    ultimately show ?thesis using step t(1) cut(1) ms(2) by auto
  qed
qed simp

lemma swa_dec_loop_ok:
  assumes "up_loop f s n = Inr ns" and "distinct ns" and "\<forall>m \<in> set ns. 0 < n_ref (heap s m)"
    and "sg = (if dec then seg_of s u ns else [])" and "\<forall>m \<in> set sg. \<not> n_tomb (heap s m) \<and> 0 < n_swa_ref (heap s m)"
  shows "\<exists>t. swa_dec_loop f n u dec s = Inr t \<and> relocked s ns sg (-1) (\<lambda>m. n_swa_uuid (heap s m)) t \<and>
    swa_uuid_ctr t = swa_uuid_ctr s"
  using assms
proof (induction f arbitrary: n ns s dec sg)
  case (Suc f)
  show ?case
  proof (cases "n_parent (heap s n)")
    case None
    then have "ns = []" using Suc.prems(1) by simp
    then show ?thesis using None Suc.prems(4) relocked_nil by auto
  next
    case (Some p)
    then obtain ms where ms: "up_loop f s p = Inr ms" "ns = n # ms"
      using Suc.prems(1) by (auto simp: and_then_eq_Inr)
    have n: "n \<notin> set ms" "distinct ms" using Suc.prems(2) ms(2) by auto
    define x where "x = (heap s n)\<lparr>n_ref := n_ref (heap s n) - 1, n_swa_ref := n_swa_ref (heap s n) - (if dec then 1 else 0)\<rparr>"
    define s1 where "s1 = s\<lparr>heap := (heap s)(n := x),
      full_evictable := full_evictable s + w_free x, full_protected := full_protected s - w_free x,
      swa_evictable := swa_evictable s + (if dec then w_sfree x else 0),
      swa_protected := swa_protected s - (if dec then w_sfree x else 0)\<rparr>"
    define dec1 where "dec1 \<longleftrightarrow> dec \<and> \<not> (u \<noteq> None \<and> n_swa_uuid (heap s n) = u)"
    define sg1 where "sg1 = (if dec1 then seg_of s u ms else [])"
    have sg: "sg = (if dec then n # sg1 else sg1)" using Suc.prems(4) ms(2) by (auto simp: sg1_def dec1_def)
    have pos: "0 < n_ref (heap s n)" "dec \<Longrightarrow> \<not> n_tomb (heap s n) \<and> 0 < n_swa_ref (heap s n)"
      using Suc.prems(3,5) ms(2) sg by auto
    have step: "swa_dec_loop (Suc f) n u dec s = swa_dec_loop f p u dec1 s1"
    proof (cases dec)
      case False
      then show ?thesis using Some pos(1)
        by (cases "n_ref (heap s n) = 1") (auto simp: s1_def x_def dec1_def upd_def w_free_def w_len_def node_len_def Let_def heap_first)
    next
      case True
      note t = pos(2) [OF True]
      show ?thesis using Some pos(1) True t
        by (cases "n_ref (heap s n) = 1"; cases "n_swa_ref (heap s n) = 1")
          (simp_all add: s1_def x_def dec1_def upd_def w_free_def w_sfree_def w_len_def node_len_def Let_def heap_first)
    qed
    have o: "heap s1 m = heap s m" if "m \<noteq> n" for m using that by (simp add: s1_def)
    have on: "heap s1 m = heap s m" if "m \<in> set ms" for m
    proof (rule o)
      show "m \<noteq> n" using that n(1) by blast
    qed
    have uu: "n_swa_uuid (heap s1 m) = n_swa_uuid (heap s m)" for m by (simp add: s1_def x_def)
    have un: "up_loop f s1 p = Inr ms"
    proof -
      have "up_loop g s1 q = up_loop g s q" for g q
        by (induction g arbitrary: q) (auto simp: s1_def x_def split: option.splits)
      then show ?thesis using ms(1) by simp
    qed
    have sub: "set sg1 \<subseteq> set ms" using seg_of_set by (auto simp: sg1_def)
    have e: "sg1 = (if dec1 then seg_of s1 u ms else [])"
      unfolding sg1_def using uu by (auto intro: seg_of_cong)
    have p3: "\<forall>m \<in> set ms. 0 < n_ref (heap s1 m)" using Suc.prems(3) ms(2) on by simp
    have p5: "\<forall>m \<in> set sg1. \<not> n_tomb (heap s1 m) \<and> 0 < n_swa_ref (heap s1 m)"
    proof
      fix m assume m: "m \<in> set sg1"
      then have "heap s1 m = heap s m" using sub on by blast
      moreover have "m \<in> set sg" using m sg by simp
      ultimately show "\<not> n_tomb (heap s1 m) \<and> 0 < n_swa_ref (heap s1 m)" using Suc.prems(5) by simp
    qed
    obtain t where t: "swa_dec_loop f p u dec1 s1 = Inr t" "relocked s1 ms sg1 (-1) (\<lambda>m. n_swa_uuid (heap s m)) t"
      "swa_uuid_ctr t = swa_uuid_ctr s1"
      using Suc.IH [OF un n(2) p3 e p5] uu by auto
    have "relocked s (n # ms) (if dec then n # sg1 else sg1) (-1) (\<lambda>m. n_swa_uuid (heap s m)) t"
    proof (rule relocked_Cons [OF t(2) n(1) sub])
      show "heap s1 = (heap s)(n := (heap s n)\<lparr>n_ref := n_ref (heap s n) + - 1,
        n_swa_ref := n_swa_ref (heap s n) + (if dec then - 1 else 0), n_swa_uuid := n_swa_uuid (heap s n)\<rparr>)"
        by (simp add: s1_def x_def)
    qed (use pos in \<open>auto simp: s1_def x_def w_free_def w_used_def w_sfree_def w_sheld_def w_len_def\<close>)
    then show ?thesis using step t(1,3) sg ms(2) by (simp add: s1_def)
  qed
qed simp


section \<open>The operations\<close>

lemma relocked_grown:
  assumes "tree_wf s" and "relocked s ns sg d f t"
  shows "sgrown s t" "live t = live s" "same_skel s t"
  by (rule sgrown_shape [OF assms(1)]; use assms(2) in \<open>simp add: relocked_def shape_def\<close>)+

lemma swa_inc_lock_ok:
  assumes i: "swa_inv s H" and h: "n \<in> live s" and w: "win_ok (swa_window s) (flags s n)"
  obtains t u where "swa_inc_lock n s = Inr (t, u)" "swa_inv t (add_mset (n, u) H)" "sgrown s t" "live t = live s"
proof -
  note d = swa_invD [OF i] and inv = wfD [OF swa_invD(1) [OF i]]
  let ?ns = "anc s n"
  note a = anc_facts [OF inv h]
  obtain sg b where cut: "win_cut s 0 ?ns = (sg, b)" by fastforce
  let ?f = "\<lambda>m. if b = Some m then Some (mark s m) else n_swa_uuid (heap s m)"
  let ?u = "case b of None \<Rightarrow> None | Some c \<Rightarrow> Some (mark s c)"
  have al: "m \<in> live s \<and> m \<noteq> root s" if "m \<in> set ?ns" for m using a(1) that by blast
  have up: "up_loop (Suc (counter s)) s n = Inr ?ns" using wf_up_path [OF d(1) h] by (simp add: up_path_def)
  have tb: "\<forall>m \<in> set (fst (win_cut s 0 ?ns)). \<not> n_tomb (heap s m)" using win_cut_win [OF i h w] by blast
  have nn: "\<forall>m \<in> set ?ns. 0 \<le> n_ref (heap s m) \<and> 0 \<le> n_swa_ref (heap s m)"
    using al swa_tomb_unpinned(4,5) [OF i] by (meson order_trans)
  obtain t where t: "swa_inc_lock n s = Inr (t, ?u)" "relocked s ?ns sg 1 ?f t"
    "swa_uuid_ctr t = (if \<exists>c. b = Some c \<and> n_swa_uuid (heap s c) = None then Suc (swa_uuid_ctr s) else swa_uuid_ctr s)"
    using swa_inc_loop_ok [OF up a(5) tb nn cut, of None] by (auto simp: swa_inc_lock_def simp del: swa_inc_loop.simps)
  note g = relocked_grown [OF d(1) t(2)] and sub = win_cut_set [OF cut]
  note K = same_skel [OF g(3) d(1)]
  have rt: "root t = root s" using g(3) by (simp add: same_skel_def)
  have ctr: "swa_uuid_ctr s \<le> swa_uuid_ctr t" using t(3) by simp
  have hp: "n_swa_uuid (heap t m) = ?f m" "n_tomb (heap t m) = n_tomb (heap s m)" "node_len t m = node_len s m" for m
    using t(2) by (simp_all add: relocked_def node_len_def)
  have mk: "mark s c \<le> swa_uuid_ctr t" "\<And>m. m \<in> live s \<Longrightarrow> m \<noteq> root s \<Longrightarrow> m \<noteq> c \<Longrightarrow> n_swa_uuid (heap s m) \<noteq> Some (mark s c)"
    if "b = Some c" for c
  proof -
    have c: "c \<in> live s - {root s}" using sub that al by blast
    have M: "x \<le> swa_uuid_ctr s" "m' = m"
      if "m \<in> live s - {root s}" "n_swa_uuid (heap s m) = Some x" "m' \<in> live s - {root s}" "n_swa_uuid (heap s m') = Some x" for m m' x
      using d(10) that unfolding marks_ok_def by blast+
    show "mark s c \<le> swa_uuid_ctr t" using M(1) [OF c _ c] t(3) that by (auto simp: mark_def split: option.splits)
    show "n_swa_uuid (heap s m) \<noteq> Some (mark s c)" if m: "m \<in> live s" "m \<noteq> root s" "m \<noteq> c" for m
    proof
      assume x: "n_swa_uuid (heap s m) = Some (mark s c)"
      have m': "m \<in> live s - {root s}" using m by simp
      show False using M [OF m' x m' x] M(2) [OF m' x c] m(3) by (auto simp: mark_def split: option.splits)
    qed
  qed
  have old: "seg t x = seg s x" if x: "x \<in># H" for x
  proof -
    have "n_swa_uuid (heap t m) = snd x \<longleftrightarrow> n_swa_uuid (heap s m) = snd x" if u: "snd x = Some v" for m v
    proof (cases "b = Some m \<and> n_swa_uuid (heap s m) = None")
      case True
      then have "n_swa_uuid (heap t m) = Some (Suc (swa_uuid_ctr s))" by (simp add: hp(1) mark_def)
      then show ?thesis using True u d(6) [OF x] by (auto simp: hand_ok_def)
    next
      case False
      then show ?thesis by (auto simp: hp(1) mark_def)
    qed
    then show ?thesis
      unfolding seg_def K(4) [OF d(7) [OF x]] by (cases "snd x") (auto intro: seg_of_cong)
  qed
  have new: "seg t (n, ?u) = sg"
  proof (cases b)
    case None
    then show ?thesis using win_cut_none [of s 0 ?ns sg] cut d(4) K(4) [OF h] by (simp add: seg_def)
  next
    case (Some c)
    have "n_swa_uuid (heap t m) \<noteq> Some (mark s c)" if "m \<in> set ?ns" "m \<noteq> c" for m
      using mk(2) [OF Some] al [OF that(1)] that(2) Some by (simp add: hp(1))
    moreover have "n_swa_uuid (heap t c) = Some (mark s c)" using Some by (simp add: hp(1))
    ultimately show ?thesis
      using win_cut_some [of s 0 ?ns sg c t "mark s c"] cut Some a(5) K(4) [OF h] by (simp add: seg_def)
  qed
  have cov: "swa_window s \<le> (\<Sum>m \<leftarrow> sg. int (node_len s m))" if "b = Some c" for c
    using win_cut_some [of s 0 ?ns sg c s] cut that by simp
  have "hand_ok t x" if x: "x \<in># add_mset (n, ?u) H" for x
  proof (cases "x = (n, ?u)")
    case True
    have l: "\<And>ns. (\<Sum>m \<leftarrow> ns. int (node_len t m)) = (\<Sum>m \<leftarrow> ns. int (node_len s m))" by (simp add: hp(3))
    have "swa_window t = swa_window s" using t(2) by (simp add: relocked_def)
    then show ?thesis
      unfolding True hand_ok_def new l using h g(2) tb cut mk(1) cov
      by (auto simp: hp(2) split: option.splits)
  next
    case False
    then have x': "x \<in># H" using x by simp
    have l: "\<And>ns. (\<Sum>m \<leftarrow> ns. int (node_len t m)) = (\<Sum>m \<leftarrow> ns. int (node_len s m))" by (simp add: hp(3))
    have "swa_window t = swa_window s" using t(2) by (simp add: relocked_def)
    then show ?thesis using d(6) [OF x'] g(2) ctr unfolding hand_ok_def old [OF x'] l hp(2) by auto
  qed
  moreover have "paths t (add_mset (n, ?u) H) m = paths s H m + (if m \<in> set ?ns then 1 else 0) \<and>
      pins t (add_mset (n, ?u) H) m = pins s H m + (if m \<in> set sg then 1 else 0)" for m
    using holds_cong [of H m t m s] old K(4) d(7) new K(4) [OF h] by simp
  moreover have "marks_ok t"
    unfolding marks_ok_def K(2) rt
  proof (intro ballI allI impI conjI)
    fix m x assume m: "m \<in> live s - {root s}" "n_swa_uuid (heap t m) = Some x"
    have M: "y \<le> swa_uuid_ctr s" "k' = k"
      if "k \<in> live s - {root s}" "n_swa_uuid (heap s k) = Some y" "k' \<in> live s - {root s}" "n_swa_uuid (heap s k') = Some y" for k k' y
      using d(10) that unfolding marks_ok_def by blast+
    show "x \<le> swa_uuid_ctr t" using m mk(1) [of m] M(1) [OF m(1) _ m(1)] ctr by (auto simp: hp(1) split: if_splits)
    show "k = m" if "k \<in> live s - {root s}" "n_swa_uuid (heap t k) = Some x" for k
    proof (cases "b = Some m \<or> b = Some k")
      case True
      then show ?thesis using m that mk(2) by (auto simp: hp(1) split: if_splits)
    next
      case False
      then show ?thesis using M(2) [of m x k] m that by (auto simp: hp(1))
    qed
  qed
  ultimately have "swa_inv t (add_mset (n, ?u) H)"
    using relocked_ok [OF i h t(2), of "add_mset (n, ?u) H"] sub by blast
  then show ?thesis using that t(1) g(1,2) by blast
qed

lemma swa_dec_lock_ok:
  assumes i: "swa_inv s H" and h: "h \<in># H"
  obtains t where "swa_dec_lock (fst h) (snd h) False s = Inr t" "swa_inv t (H - {#h#})" "sgrown s t" "live t = live s"
proof -
  note d = swa_invD [OF i] and inv = wfD [OF swa_invD(1) [OF i]]
  let ?ns = "anc s (fst h)"
  have hl: "fst h \<in> live s" by (rule d(7) [OF h])
  note a = anc_facts [OF inv hl] and hd = d(6) [OF h, unfolded hand_ok_def]
  have al: "m \<in> live s \<and> m \<noteq> root s" if "m \<in> set ?ns" for m using a(1) that by blast
  have up: "up_loop (Suc (counter s)) s (fst h) = Inr ?ns" using wf_up_path [OF d(1) hl] by (simp add: up_path_def)
  have r: "\<forall>m \<in> set ?ns. 0 < n_ref (heap s m)"
  proof
    fix m assume m: "m \<in> set ?ns"
    have "paths s H m \<noteq> 0" using paths_zero m h by blast
    then show "0 < n_ref (heap s m)" using d(8) al [OF m] pins_le_paths [of s H m] by force
  qed
  have q: "\<forall>m \<in> set (seg s h). \<not> n_tomb (heap s m) \<and> 0 < n_swa_ref (heap s m)"
  proof
    fix m assume m: "m \<in> set (seg s h)"
    have "pins s H m \<noteq> 0" using pins_zero m h by blast
    moreover have "m \<in> set ?ns" using m seg_set by blast
    ultimately show "\<not> n_tomb (heap s m) \<and> 0 < n_swa_ref (heap s m)"
      using d(9) al pins_le_paths(1) [of s H m] hd m by force
  qed
  obtain t where t: "swa_dec_lock (fst h) (snd h) False s = Inr t"
    "relocked s ?ns (seg s h) (-1) (\<lambda>m. n_swa_uuid (heap s m)) t" "swa_uuid_ctr t = swa_uuid_ctr s"
    using swa_dec_loop_ok [OF up a(5) r, of "seg s h" True "snd h"] q
    by (auto simp: swa_dec_lock_def seg_def simp del: swa_dec_loop.simps)
  note g = relocked_grown [OF d(1) t(2)]
  note K = same_skel [OF g(3) d(1)]
  have hp: "n_swa_uuid (heap t m) = n_swa_uuid (heap s m)" "n_tomb (heap t m) = n_tomb (heap s m)" "node_len t m = node_len s m" for m
    using t(2) by (simp_all add: relocked_def node_len_def)
  have f: "root t = root s" "swa_window t = swa_window s" using t(2) by (simp_all add: relocked_def)
  have sg: "seg t x = seg s x" if "x \<in># H" for x
    unfolding seg_def K(4) [OF d(7) [OF that]] using hp(1) by (intro seg_of_cong) auto
  have "hand_ok t x" if "x \<in># H - {#h#}" for x
  proof -
    have x: "x \<in># H" using that by (rule in_diffD)
    show ?thesis using d(6) [OF x] unfolding hand_ok_def sg [OF x] by (simp add: hp f g(2) t(3))
  qed
  moreover have "paths t (H - {#h#}) m = paths s H m + (if m \<in> set ?ns then -1 else 0) \<and>
      pins t (H - {#h#}) m = pins s H m + (if m \<in> set (seg s h) then -1 else 0)" for m
  proof -
    have "paths t H m = paths s H m \<and> pins t H m = pins s H m" using holds_cong [of H m t m s] sg K(4) d(7) by auto
    moreover obtain H' where H': "H = add_mset h H'" using h by (metis insert_DiffM)
    ultimately show ?thesis using sg [OF h] K(4) [OF hl] by (auto simp: H')
  qed
  moreover have "marks_ok t" using d(10) unfolding marks_ok_def K(2) f hp(1) t(3) .
  ultimately have "swa_inv t (H - {#h#})"
    using relocked_ok [OF i hl t(2) seg_set, of "H - {#h#}"] by blast
  then show ?thesis using that t(1) g(1,2) by blast
qed

end
