(* ===== verification/Swa_Evict.thy ===== *)
theory Swa_Evict
  imports Swa_Lock
begin

text \<open>
  The two evictions of the sliding-window cache and the trimming of a finished prompt. All prune
  unlocked leaves or turn unpinned nodes into tombstones; the slots handed out are exactly those
  that leave the tree, and the window copies handed out exactly those that stop being live.
\<close>

section \<open>What an eviction may do\<close>

definition free_swas :: "swa \<Rightarrow> nid set" where
  "free_swas s = {n \<in> live s. n \<noteq> root s \<and> \<not> n_tomb (heap s n) \<and> n_swa_ref (heap s n) = 0}"

definition spruned :: "hold multiset \<Rightarrow> swa \<Rightarrow> slot list \<Rightarrow> slot list \<Rightarrow> swa \<Rightarrow> bool" where
  "spruned H s kvs sws s' \<longleftrightarrow> swa_inv s' H \<and> live s' \<subseteq> live s \<and> root s' = root s \<and> psize s' = psize s \<and>
     swa_window s' = swa_window s \<and> owned s = mset kvs + owned s' \<and> live_owned s = mset sws + live_owned s' \<and>
     (\<forall>q \<in> live s'. toks s' q = toks s q \<and> vals s' q = vals s q)"

lemma sprunedD:
  assumes "spruned H s kvs sws s'"
  shows "swa_inv s' H" "live s' \<subseteq> live s" "root s' = root s" "psize s' = psize s" "swa_window s' = swa_window s"
    "owned s = mset kvs + owned s'" "live_owned s = mset sws + live_owned s'"
    "q \<in> live s' \<Longrightarrow> toks s' q = toks s q \<and> vals s' q = vals s q"
    "h \<in># H \<Longrightarrow> fst h \<in> live s'"
  using assms swa_invD(7) [of s' H] by (auto simp: spruned_def)

lemma spruned_refl: "swa_inv s H \<Longrightarrow> spruned H s [] [] s"
  by (simp add: spruned_def)

lemma spruned_trans: "spruned H a k n b \<Longrightarrow> spruned H b k' n' c \<Longrightarrow> spruned H a (k @ k') (n @ n') c"
  unfolding spruned_def by (auto simp: subset_iff)

lemma sleafy_iff:
  assumes i: "swa_inv s H" and p: "p \<in> live s"
  shows "is_leaf s p \<and> n_ref (heap s p) = 0 \<and> \<not> is_root s p \<longleftrightarrow> p \<in> free_leaves s"
  using p inv_is_root [OF wfD [OF swa_invD(1) [OF i]] p] by (auto simp: free_leaves_def)

section \<open>Pruning one leaf\<close>

lemma swa_prune:
  assumes i: "swa_inv s H" and n: "n \<in> free_leaves s"
    and t: "counter t = counter s" "root t = root s" "psize t = psize s" "swa_window t = swa_window s"
      "swa_uuid_ctr t = swa_uuid_ctr s" "heap t = (heap s)(n := (heap s n)\<lparr>n_tomb := b\<rparr>)"
    and c: "full_evictable t = full_evictable s - int (node_len s n)" "full_protected t = full_protected s"
      "swa_evictable t = swa_evictable s - (if n_tomb (heap s n) then 0 else int (node_len s n))" "swa_protected t = swa_protected s"
  defines "sw \<equiv> if n_tomb (heap s n) then [] else n_value (heap s n)"
  obtains u p where "unlink n t = Inr (u, p)" "spruned H s (n_value (heap s n)) sw u"
    "live u = live s - {n}" "free_leaves u = free_leaves s - {n} \<union> (if p \<in> free_leaves u then {p} else {})"
    "p \<notin> free_leaves s" "p \<in> live u" "free_swas u = free_swas s - {n}" "counter u = counter s"
    "length (n_value (heap s n)) = node_len s n"
proof -
  note d = swa_invD [OF i] and f = free_leafD [OF n] and L = swa_lock_inv(1) [OF i]
  note un = swa_tomb_unpinned [OF i f(1,2)]
  have q0: "n_swa_ref (heap s n) = 0" using un(4,5) f(4) by simp
  obtain p where p: "n_parent (heap s n) = Some p" by (rule free_leaf_parent [OF d(1) n])
  have T0: "same_tree s t" using t by (simp add: same_tree_def shape_def)
  note T = same_tree [OF T0 d(1)]
  have n1: "n \<in> free_leaves t" "n_parent (heap t n) = Some p" using n p T by simp_all
  have r1: "0 < n_ref (heap t (root t))" using T(13) [of "root s"] T(4) d(2) by simp
  define u where "u = unlink_result n p t"
  note P = prune_leaf [OF T(1) _ r1 n1, where e = "full_evictable s" and q = "full_protected s", folded u_def, unfolded T(11), OF L]
  note e = swa_same_ext [OF P(8)]
  have hu: "\<exists>ks. heap u m = (heap s m)\<lparr>n_children := ks\<rparr>" if "m \<noteq> n" for m using P(11) [of m] t(6) that by simp
  have car: "n_tomb (heap u m) = n_tomb (heap s m)" "n_ref (heap u m) = n_ref (heap s m)" "n_swa_ref (heap u m) = n_swa_ref (heap s m)"
    "n_swa_uuid (heap u m) = n_swa_uuid (heap s m)" "node_len u m = node_len s m" if "m \<noteq> n" for m
    using hu [OF that] by (auto simp: node_len_def)
  have sum: "node_sum s w = w (heap s n) + node_sum u w" if "\<And>nd ks. w (nd\<lparr>n_children := ks\<rparr>) = w nd"
    for w :: "rnode \<Rightarrow> 'z::cancel_comm_monoid_add"
  proof -
    have o: "w (heap t m) = w (heap s m)" if "m \<noteq> n" for m using that t(6) by simp
    have "node_sum t w + w (heap s n) = node_sum s w + w (heap t n)"
      by (rule node_sum_one [OF live_finite [OF d(1)] T(2,4) f(1,2) o])
    moreover have "node_sum t w = w (heap t n) + node_sum u w"
    proof -
      have "n \<in> live t" "is_leaf t n" using n1(1) by (simp_all add: free_leaves_def)
      then show ?thesis unfolding u_def by (rule node_sum_unlink [OF T(1) _ n1(2) _ that])
    qed
    ultimately have "w (heap t n) + (w (heap s n) + node_sum u w) = w (heap t n) + node_sum s w" by (simp add: ac_simps)
    then show ?thesis by simp
  qed
  have lv: "live u = live s - {n}" using P(4) T(2) by simp
  have rt: "root u = root s" "psize u = psize s" "counter u = counter s" "swa_window u = swa_window s" "swa_uuid_ctr u = swa_uuid_ctr s"
    using P(5-7) T(4-6) e t by simp_all
  have lf: "n \<in> live t" "is_leaf t n" using n1(1) by (simp_all add: free_leaves_def)
  have an: "anc u m = anc s m" if "m \<in> live s" "m \<noteq> n" for m
    unfolding u_def using anc_unlink [OF T(1) lf(1) n1(2) lf(2), of m] T(2,9) that by simp
  have np: "n \<notin> set (anc s (fst h))" "fst h \<noteq> n" if h: "h \<in># H" for h
  proof -
    show "n \<notin> set (anc s (fst h))" by (rule un(3) [OF f(4) h])
    then show "fst h \<noteq> n" using anc_facts(6) [OF wfD [OF d(1)] f(1,2)] by metis
  qed
  have sg: "seg u h = seg s h" if h: "h \<in># H" for h
    unfolding seg_def an [OF d(7) [OF h] np(2) [OF h]] by (rule seg_of_cong) (metis car(4) np(1) [OF h])
  have hd: "hand_ok u h" if h: "h \<in># H" for h
  proof -
    have m: "m \<noteq> n" if "m \<in> set (seg s h)" for m using np(1) [OF h] seg_set that by blast
    then have "(\<Sum>m \<leftarrow> seg s h. int (node_len u m)) = (\<Sum>m \<leftarrow> seg s h. int (node_len s m))"
      by (intro arg_cong [where f = sum_list] map_cong) (auto simp: car)
    moreover have "\<not> n_tomb (heap u m)" if "m \<in> set (seg s h)" for m
      using d(6) [OF h] m [OF that] that car(1) by (auto simp: hand_ok_def)
    ultimately show ?thesis using d(6) [OF h] lv rt np(2) [OF h] sg [OF h] by (auto simp: hand_ok_def)
  qed
  have ui: "swa_inv u H"
    unfolding swa_inv_def
  proof (intro conjI ballI impI)
    show "tree_wf u" by (rule P(2))
    show "n_ref (heap u (root u)) = 1" using car(2) [of "root s"] rt(1) d(2) f(2) by simp
    show "0 < swa_window u" using d(4) rt by simp
    show "sums_ok u"
      using d(5) c e sum [of w_free] sum [of w_used] sum [of w_sfree] sum [of w_sheld] q0 f(4)
      by (simp add: sums_ok_def w_free_def w_used_def w_sfree_def w_sheld_def w_len_def node_len_def)
    show "hand_ok u h" if "h \<in># H" for h by (rule hd [OF that])
    show "marks_ok u" using d(10) car(4) unfolding marks_ok_def lv rt by (metis Diff_iff insertCI)
    fix m assume m: "m \<in> live u" "m \<noteq> root u"
    then have m': "m \<in> live s" "m \<noteq> root s" "m \<noteq> n" using lv rt by auto
    have "paths u H m = paths s H m \<and> pins u H m = pins s H m"
      using holds_cong [of H m u m s] sg an d(7) np(2) by auto
    then show "n_ref (heap u m) = paths u H m" "n_swa_ref (heap u m) = pins u H m"
      using d(8,9) [OF m'(1,2)] car m'(3) by simp_all
  qed
  have pr: "spruned H s (n_value (heap s n)) sw u"
    unfolding spruned_def
  proof (intro conjI ballI)
    show "owned s = mset (n_value (heap s n)) + owned u" using sum [of "\<lambda>nd. mset (n_value nd)"] by (simp add: owned_def)
    show "live_owned s = mset sw + live_owned u"
      unfolding live_owned_def using sum [of w_live] by (simp add: sw_def w_live_def)
    fix q assume "q \<in> live u"
    then have q: "q \<in> live s" "q \<noteq> n" "q \<in> live t" using lv T(2) by auto
    show "toks u q = toks s q" "vals u q = vals s q" using P(10) [OF q(3,2)] T(7,8) [OF q(1)] by simp_all
  qed (use ui lv rt in auto)
  have pf: "p \<in> free_leaves u \<longleftrightarrow> is_leaf u p \<and> n_ref (heap u p) = 0 \<and> \<not> is_root u p"
    using P(14) inv_is_root [OF wfD [OF P(2)] P(14)] by (auto simp: free_leaves_def)
  show ?thesis
  proof (rule that [of u p])
    show "unlink n t = Inr (u, p)" by (rule P(1))
    show "free_leaves u = free_leaves s - {n} \<union> (if p \<in> free_leaves u then {p} else {})"
      unfolding pf using P(12) unfolding T(14) .
    show "p \<notin> free_leaves s" using P(13) T(14) by simp
    show "free_swas u = free_swas s - {n}" using lv rt(1) car by (auto simp: free_swas_def)
    show "length (n_value (heap s n)) = node_len s n" by (rule inv_len_value [OF wfD [OF d(1)] f(1,2)])
  qed (use pr lv P(14) rt in auto)
qed

section \<open>The cascade\<close>

lemma same_tomb: "n_tomb nd = y \<Longrightarrow> nd\<lparr>n_tomb := y\<rparr> = nd"
  by (cases nd) simp

lemma swa_cascade_loop_ok:
  assumes "swa_inv s H" and "p \<in> live s" and "free_leaves s = Q \<union> (if p \<in> free_leaves s then {p} else {})"
    and "p \<notin> Q" and "card (live s) \<le> f"
  shows "\<exists>s' p' vss. swa_cascade_loop f p s kv fr = Inr (s', p', kv @ vss, fr + int (length (concat vss))) \<and>
    spruned H s (concat vss) [] s' \<and> p' \<in> live s' \<and> p' \<notin> Q \<and> card (live s') \<le> card (live s) \<and>
    free_leaves s' = Q \<union> (if p' \<in> free_leaves s' then {p'} else {}) \<and> free_swas s' = free_swas s \<and> counter s' = counter s"
  using assms
proof (induction f arbitrary: p s kv fr)
  case 0
  then show ?case using live_finite [OF swa_invD(1) [OF 0(1)]] by (auto simp: card_eq_0_iff)
next
  case (Suc f)
  note i = Suc.prems(1)
  have fin: "finite (live s)" by (rule live_finite [OF swa_invD(1) [OF i]])
  show ?case
  proof (cases "n_tomb (heap s p) \<and> p \<in> free_leaves s")
    case False
    then have "swa_cascade_loop (Suc f) p s kv fr = Inr (s, p, kv, fr)"
      using sleafy_iff [OF i Suc.prems(2)] by auto
    then show ?thesis using Suc.prems spruned_refl [OF i] by (intro exI [of _ s] exI [of _ p] exI [of _ "[]"]) auto
  next
    case True
    note m = True [THEN conjunct1] and fl = True [THEN conjunct2]
    let ?t = "s\<lparr>full_evictable := full_evictable s - int (node_len s p)\<rparr>"
    obtain u p2 where u: "unlink p ?t = Inr (u, p2)" "spruned H s (n_value (heap s p)) (if n_tomb (heap s p) then [] else n_value (heap s p)) u"
      "live u = live s - {p}" "free_leaves u = free_leaves s - {p} \<union> (if p2 \<in> free_leaves u then {p2} else {})"
      "p2 \<notin> free_leaves s" "p2 \<in> live u" "free_swas u = free_swas s - {p}" "counter u = counter s"
      "length (n_value (heap s p)) = node_len s p"
      by (rule swa_prune [OF i fl, of ?t True]) (use m in \<open>simp_all add: same_tomb\<close>)
    have sp: "spruned H s (n_value (heap s p)) [] u" using u(2) m by simp
    have c: "card (live u) \<le> f" "card (live u) \<le> card (live s)"
      using u(3) Suc.prems(2,5) fin by auto
    have Q: "free_leaves u = Q \<union> (if p2 \<in> free_leaves u then {p2} else {})" "p2 \<notin> Q"
      using u(4,5) Suc.prems(3,4) fl by auto
    obtain s' p' vss where r: "swa_cascade_loop f p2 u (kv @ [n_value (heap s p)]) (fr + int (node_len s p)) =
        Inr (s', p', (kv @ [n_value (heap s p)]) @ vss, (fr + int (node_len s p)) + int (length (concat vss)))"
      "spruned H u (concat vss) [] s'" "p' \<in> live s'" "p' \<notin> Q" "card (live s') \<le> card (live u)"
      "free_leaves s' = Q \<union> (if p' \<in> free_leaves s' then {p'} else {})" "free_swas s' = free_swas u" "counter s' = counter u"
      using Suc.IH [OF sprunedD(1) [OF sp] u(6) Q c(1)] by blast
    have "swa_cascade_loop (Suc f) p s kv fr = swa_cascade_loop f p2 u (kv @ [n_value (heap s p)]) (fr + int (node_len s p))"
      using sleafy_iff [OF i Suc.prems(2)] fl m u(1) by (simp add: Let_def)
    moreover have "spruned H s (concat (n_value (heap s p) # vss)) [] s'"
      using spruned_trans [OF sp r(2)] by simp
    moreover have "free_swas s' = free_swas s" using r(7) u(7) m by (auto simp: free_swas_def)
    ultimately show ?thesis
      using r(1,3-6,8) c(2) u(8,9) by (intro exI [of _ s'] exI [of _ p'] exI [of _ "n_value (heap s p) # vss"]) auto
  qed
qed

text \<open>One pruned leaf with the cascade behind it.\<close>

lemma swa_prune_cascade:
  assumes i: "swa_inv s H" and n: "n \<in> free_leaves s"
    and t: "counter t = counter s" "root t = root s" "psize t = psize s" "swa_window t = swa_window s"
      "swa_uuid_ctr t = swa_uuid_ctr s" "heap t = (heap s)(n := (heap s n)\<lparr>n_tomb := b\<rparr>)"
    and c: "full_evictable t = full_evictable s - int (node_len s n)" "full_protected t = full_protected s"
      "swa_evictable t = swa_evictable s - (if n_tomb (heap s n) then 0 else int (node_len s n))" "swa_protected t = swa_protected s"
  obtains u p u' p' vss k where
    "unlink n t = Inr (u, p)" "cascade_swa_tombstone_leaves p u kv = Inr (u', p', kv @ vss, k)"
    "spruned H s (n_value (heap s n) @ concat vss) (if n_tomb (heap s n) then [] else n_value (heap s n)) u'"
    "card (live u') < card (live s)" "free_leaves u' = free_leaves s - {n} \<union> (if p' \<in> free_leaves u' then {p'} else {})"
    "p' \<in> live u'" "p' \<notin> free_leaves s - {n}" "free_swas u' = free_swas s - {n}" "counter u' = counter s"
    "k = int (length (concat vss))" "length (n_value (heap s n)) = node_len s n"
proof -
  note d = swa_invD [OF i] and f = free_leafD [OF n]
  let ?sw = "if n_tomb (heap s n) then [] else n_value (heap s n)"
  obtain u p where u: "unlink n t = Inr (u, p)" "spruned H s (n_value (heap s n)) ?sw u"
    "live u = live s - {n}" "free_leaves u = free_leaves s - {n} \<union> (if p \<in> free_leaves u then {p} else {})"
    "p \<notin> free_leaves s" "p \<in> live u" "free_swas u = free_swas s - {n}" "counter u = counter s"
    "length (n_value (heap s n)) = node_len s n"
    by (rule swa_prune [OF i n t c])
  have l: "card (live u) \<le> Suc (counter u)" using live_le_counter [OF swa_invD(1) [OF sprunedD(1) [OF u(2)]]] by simp
  have p: "p \<notin> free_leaves s - {n}" using u(5) by blast
  obtain u' p' vss where r: "swa_cascade_loop (Suc (counter u)) p u kv 0 = Inr (u', p', kv @ vss, 0 + int (length (concat vss)))"
    "spruned H u (concat vss) [] u'" "p' \<in> live u'" "p' \<notin> free_leaves s - {n}" "card (live u') \<le> card (live u)"
    "free_leaves u' = free_leaves s - {n} \<union> (if p' \<in> free_leaves u' then {p'} else {})"
    "free_swas u' = free_swas u" "counter u' = counter u"
    using swa_cascade_loop_ok [OF sprunedD(1) [OF u(2)] u(6,4) p l, of kv 0] by blast
  have "card (live u) < card (live s)"
    using card_Diff1_less [OF live_finite [OF d(1)] f(1)] u(3) by simp
  moreover have "spruned H s (n_value (heap s n) @ concat vss) ?sw u'" using spruned_trans [OF u(2) r(2)] by simp
  ultimately show ?thesis
    using that [of u p u' p' vss "int (length (concat vss))"] u r
    by (simp add: cascade_swa_tombstone_leaves_def)
qed

section \<open>Tombstones\<close>

text \<open>The window copies of an unpinned inner or locked node go, its KV stays.\<close>

definition tombstone :: "nid \<Rightarrow> swa \<Rightarrow> swa" where
  "tombstone n s = upd n (\<lambda>nd. nd\<lparr>n_tomb := True\<rparr>) (s\<lparr>swa_evictable := swa_evictable s - int (node_len s n)\<rparr>)"

lemma tombstone_ok:
  assumes i: "swa_inv s H" and n: "n \<in> free_swas s"
  shows "spruned H s [] (n_value (heap s n)) (tombstone n s)" "free_swas (tombstone n s) = free_swas s - {n}"
    "live (tombstone n s) = live s" "cached (tombstone n s) = cached s" "counter (tombstone n s) = counter s"
    "same_skel s (tombstone n s)"
proof -
  let ?t = "tombstone n s"
  note d = swa_invD [OF i]
  from n have f: "n \<in> live s" "n \<noteq> root s" "\<not> n_tomb (heap s n)" "n_swa_ref (heap s n) = 0" by (auto simp: free_swas_def)
  have h: "heap ?t = (heap s)(n := (heap s n)\<lparr>n_tomb := True\<rparr>)" by (simp add: tombstone_def upd_def)
  have b: "counter ?t = counter s" "root ?t = root s" "psize ?t = psize s" "swa_window ?t = swa_window s" "swa_uuid_ctr ?t = swa_uuid_ctr s"
    "full_evictable ?t = full_evictable s" "full_protected ?t = full_protected s"
    "swa_evictable ?t = swa_evictable s - int (node_len s n)" "swa_protected ?t = swa_protected s"
    by (simp_all add: tombstone_def upd_def)
  have T0: "same_tree s ?t" using h b by (simp add: same_tree_def shape_def)
  note T = same_tree [OF T0 d(1)]
  show k: "same_skel s ?t" using h b by (simp add: same_skel_def)
  have o: "w (heap ?t m) = w (heap s m)" if "m \<noteq> n" for m and w :: "rnode \<Rightarrow> 'z::comm_monoid_add" using that h by simp
  have one: "node_sum ?t w + w (heap s n) = node_sum s w + w (heap ?t n)" for w :: "rnode \<Rightarrow> 'z::comm_monoid_add"
    by (rule node_sum_one [OF live_finite [OF d(1)] T(2,4) f(1,2) o])
  have "sums_ok ?t"
  proof -
    have "w_free (heap ?t n) = w_free (heap s n)" "w_used (heap ?t n) = w_used (heap s n)"
      using h by (simp_all add: w_free_def w_used_def w_len_def)
    then have "node_sum ?t w_free = node_sum s w_free" "node_sum ?t w_used = node_sum s w_used"
      using one [of w_free] one [of w_used] by simp_all
    moreover have "node_sum ?t w_sfree + int (node_len s n) = node_sum s w_sfree" "node_sum ?t w_sheld = node_sum s w_sheld"
      using one [of w_sfree] one [of w_sheld] f(3,4) h by (simp_all add: w_sfree_def w_sheld_def w_len_def node_len_def)
    ultimately show ?thesis using d(5) b by (simp add: sums_ok_def)
  qed
  note so = this
  have ti: "swa_inv ?t H"
    by (rule swa_inv_skel(1) [OF i k _ b(4,5) so])
      (use h swa_tomb_unpinned(2) [OF i f(1,2,4)] d(6) in \<open>auto simp: hand_ok_def\<close>)
  have "live_owned ?t + mset (n_value (heap s n)) = live_owned s"
    using one [of w_live] f(3) h by (simp add: live_owned_def w_live_def)
  then show "spruned H s [] (n_value (heap s n)) ?t"
    unfolding spruned_def using ti T b by (auto simp: add.commute)
  show "free_swas ?t = free_swas s - {n}" using T(2) b(2) h by (auto simp: free_swas_def)
  show "live ?t = live s" "cached ?t = cached s" "counter ?t = counter s" using T b by simp_all
qed


section \<open>The loops\<close>

lemma swa_evict_full_loop_ok:
  assumes "swa_inv s H" and "distinct q" and "set q = free_leaves s" and "card (live s) \<le> f"
  shows "\<exists>s' vss wss. swa_evict_full_loop f num q s kv sw fr = Inr (s', kv @ vss, sw @ wss) \<and>
    spruned H s (concat vss) (concat wss) s' \<and> (num \<le> fr + int (length (concat vss)) \<or> free_leaves s' = {})"
  using assms
proof (induction f arbitrary: q s kv sw fr)
  case 0
  then show ?case using live_finite [OF swa_invD(1) [OF 0(1)]] live.root [of s] by (auto simp: card_eq_0_iff)
next
  case (Suc f)
  note i = Suc.prems(1)
  show ?case
  proof (cases "fr < num \<and> q \<noteq> []")
    case False
    then have "swa_evict_full_loop (Suc f) num q s kv sw fr = Inr (s, kv, sw)" by auto
    then show ?thesis
      using False Suc.prems(3) spruned_refl [OF i] by (intro exI [of _ s] exI [of _ "[]"]) auto
  next
    case True
    obtain n rest where hp: "heappop s q = (n, rest)" by (metis prod.collapse)
    have n: "n \<in> set q" "rest = remove1 n q" using heappop_in [OF _ hp] True by auto
    have nf: "n \<in> free_leaves s" using n(1) Suc.prems(3) by simp
    note fl = free_leafD [OF nf]
    have nr: "\<not> is_root s n" using sleafy_iff [OF i fl(1)] nf by simp
    define sws where "sws = (if n_tomb (heap s n) then [] else [n_value (heap s n)])"
    define t where "t = (if n_tomb (heap s n) then s\<lparr>full_evictable := full_evictable s - int (node_len s n)\<rparr>
       else s\<lparr>full_evictable := full_evictable s - int (node_len s n), swa_evictable := swa_evictable s - int (node_len s n)\<rparr>)"
    obtain u p u' p' vss k where r:
      "unlink n t = Inr (u, p)" "cascade_swa_tombstone_leaves p u (kv @ [n_value (heap s n)]) = Inr (u', p', (kv @ [n_value (heap s n)]) @ vss, k)"
      "spruned H s (n_value (heap s n) @ concat vss) (if n_tomb (heap s n) then [] else n_value (heap s n)) u'" "card (live u') < card (live s)"
      "free_leaves u' = free_leaves s - {n} \<union> (if p' \<in> free_leaves u' then {p'} else {})"
      "p' \<in> live u'" "p' \<notin> free_leaves s - {n}" "k = int (length (concat vss))"
      "length (n_value (heap s n)) = node_len s n"
      by (rule swa_prune_cascade [OF i nf, of t "n_tomb (heap s n)" "kv @ [n_value (heap s n)]"]) (simp_all add: t_def same_tomb)
    have sp: "spruned H s (concat (n_value (heap s n) # vss)) (concat sws) u'"
      using r(3) by (simp add: sws_def split: if_splits)
    note ui = sprunedD(1) [OF r(3)]
    define q' where "q' = (if is_leaf u' p' \<and> n_ref (heap u' p') = 0 \<and> \<not> is_root u' p' then heappush p' rest else rest)"
    have st: "swa_evict_full_loop (Suc f) num q s kv sw fr =
        swa_evict_full_loop f num q' u' (kv @ [n_value (heap s n)] @ vss) (sw @ sws) (fr + int (node_len s n) + k)"
      using True hp fl nr r(1,2) by (cases "n_tomb (heap s n)") (simp_all add: Let_def q'_def t_def sws_def)
    have rest: "distinct rest" "set rest = free_leaves s - {n}"
      using Suc.prems(2,3) n(2) by (simp_all add: set_remove1_eq)
    have "q' = (if p' \<in> free_leaves u' then rest @ [p'] else rest)"
      unfolding q'_def sleafy_iff [OF ui r(6)] heappush_def ..
    then have "distinct q' \<and> set q' = free_leaves s - {n} \<union> (if p' \<in> free_leaves u' then {p'} else {})"
      using rest r(7) by (cases "p' \<in> free_leaves u'") simp_all
    then have q': "distinct q'" "set q' = free_leaves u'" unfolding r(5) [symmetric] by blast+
    have "card (live u') \<le> f" using r(4) Suc.prems(4) by simp
    from Suc.IH [OF ui q' this, of "kv @ [n_value (heap s n)] @ vss" "sw @ sws" "fr + int (node_len s n) + k"]
    obtain s' vss' wss where w:
      "swa_evict_full_loop f num q' u' (kv @ [n_value (heap s n)] @ vss) (sw @ sws) (fr + int (node_len s n) + k) =
         Inr (s', (kv @ [n_value (heap s n)] @ vss) @ vss', (sw @ sws) @ wss)"
      "spruned H u' (concat vss') (concat wss) s'"
      "num \<le> fr + int (node_len s n) + k + int (length (concat vss')) \<or> free_leaves s' = {}" by blast
    have "spruned H s (concat (n_value (heap s n) # vss @ vss')) (concat (sws @ wss)) s'"
      using spruned_trans [OF sp w(2)] by simp
    then show ?thesis
      unfolding st using w(1,3) r(8,9)
      by (intro exI [of _ s'] exI [of _ "n_value (heap s n) # vss @ vss'"] exI [of _ "sws @ wss"]) auto
  qed
qed

lemma evict_swa_loop_ok:
  assumes "swa_inv s H" and "distinct q" and "set q = free_swas s" and "length q < f"
  shows "\<exists>s' vss wss. evict_swa_loop f num q s kv sw fr = Inr (s', kv @ vss, sw @ wss) \<and>
    spruned H s (concat vss) (concat wss) s' \<and> (num \<le> fr + int (length (concat wss)) \<or> free_swas s' = {})"
  using assms
proof (induction f arbitrary: q s kv sw fr)
  case (Suc f)
  note i = Suc.prems(1)
  show ?case
  proof (cases "fr < num \<and> q \<noteq> []")
    case False
    then have "evict_swa_loop (Suc f) num q s kv sw fr = Inr (s, kv, sw)" by auto
    then show ?thesis
      using False Suc.prems(3) spruned_refl [OF i] by (intro exI [of _ s] exI [of _ "[]"]) auto
  next
    case True
    obtain n rest where hp: "heappop s q = (n, rest)" by (metis prod.collapse)
    have n: "n \<in> set q" "rest = remove1 n q" using heappop_in [OF _ hp] True by auto
    have nf: "n \<in> free_swas s" using n(1) Suc.prems(3) by simp
    have nl: "n \<in> live s" "n \<noteq> root s" "\<not> n_tomb (heap s n)" "n_swa_ref (heap s n) = 0" "\<not> is_root s n"
      using nf inv_is_root [OF wfD [OF swa_invD(1) [OF i]]] by (auto simp: free_swas_def)
    have len: "length (n_value (heap s n)) = node_len s n"
      by (rule inv_len_value [OF wfD [OF swa_invD(1) [OF i]] nl(1,2)])
    have rest: "distinct rest" "set rest = free_swas s - {n}" "length rest < f"
      using n Suc.prems(2-4) length_pos_if_in_set [OF n(1)]
      by (simp_all add: set_remove1_eq length_remove1 del: length_greater_0_conv)
    show ?thesis
    proof (cases "n \<in> free_leaves s")
      case True
      note fl = free_leafD [OF True]
      let ?s0 = "s\<lparr>full_evictable := full_evictable s - int (node_len s n), swa_evictable := swa_evictable s - int (node_len s n)\<rparr>"
      let ?t = "upd n (\<lambda>nd. nd\<lparr>n_tomb := True\<rparr>) ?s0"
      obtain u p u' p' vss k where r:
        "unlink n ?t = Inr (u, p)" "cascade_swa_tombstone_leaves p u (kv @ [n_value (heap s n)]) = Inr (u', p', (kv @ [n_value (heap s n)]) @ vss, k)"
        "spruned H s (n_value (heap s n) @ concat vss) (if n_tomb (heap s n) then [] else n_value (heap s n)) u'"
        "free_swas u' = free_swas s - {n}"
        by (rule swa_prune_cascade [OF i True, of ?t True "kv @ [n_value (heap s n)]"]) (simp_all add: nl(3) upd_def)
      have sp: "spruned H s (concat (n_value (heap s n) # vss)) (n_value (heap s n)) u'" using r(3) nl(3) by simp
      have st: "evict_swa_loop (Suc f) num q s kv sw fr =
          evict_swa_loop f num rest u' (kv @ [n_value (heap s n)] @ vss) (sw @ [n_value (heap s n)]) (fr + int (node_len s n))"
        using \<open>fr < num \<and> q \<noteq> []\<close> hp nl fl r(1,2) by (simp add: Let_def)
      have q': "set rest = free_swas u'" using rest(2) r(4) by simp
      from Suc.IH [OF sprunedD(1) [OF r(3)] rest(1) q' rest(3), of "kv @ [n_value (heap s n)] @ vss" "sw @ [n_value (heap s n)]" "fr + int (node_len s n)"]
      obtain s' vss' wss where w:
        "evict_swa_loop f num rest u' (kv @ [n_value (heap s n)] @ vss) (sw @ [n_value (heap s n)]) (fr + int (node_len s n)) =
           Inr (s', (kv @ [n_value (heap s n)] @ vss) @ vss', (sw @ [n_value (heap s n)]) @ wss)"
        "spruned H u' (concat vss') (concat wss) s'"
        "num \<le> fr + int (node_len s n) + int (length (concat wss)) \<or> free_swas s' = {}" by blast
      have "spruned H s (concat (n_value (heap s n) # vss @ vss')) (concat (n_value (heap s n) # wss)) s'"
        using spruned_trans [OF sp w(2)] by simp
      then show ?thesis
        unfolding st using w(1,3) len
        by (intro exI [of _ s'] exI [of _ "n_value (heap s n) # vss @ vss'"] exI [of _ "n_value (heap s n) # wss"]) auto
    next
      case False
      note tb = tombstone_ok [OF i nf]
      have nlf: "\<not> (is_leaf s n \<and> n_ref (heap s n) = 0)" using sleafy_iff [OF i nl(1)] False nl(5) by simp
      have st: "evict_swa_loop (Suc f) num q s kv sw fr =
          evict_swa_loop f num rest (tombstone n s) kv (sw @ [n_value (heap s n)]) (fr + int (node_len s n))"
        using \<open>fr < num \<and> q \<noteq> []\<close> hp nl nlf by (auto simp: Let_def tombstone_def)
      have q': "set rest = free_swas (tombstone n s)" using rest(2) tb(2) by simp
      from Suc.IH [OF sprunedD(1) [OF tb(1)] rest(1) q' rest(3), of kv "sw @ [n_value (heap s n)]" "fr + int (node_len s n)"]
      obtain s' vss' wss where w:
        "evict_swa_loop f num rest (tombstone n s) kv (sw @ [n_value (heap s n)]) (fr + int (node_len s n)) =
           Inr (s', kv @ vss', (sw @ [n_value (heap s n)]) @ wss)"
        "spruned H (tombstone n s) (concat vss') (concat wss) s'"
        "num \<le> fr + int (node_len s n) + int (length (concat wss)) \<or> free_swas s' = {}" by blast
      have "spruned H s (concat vss') (concat (n_value (heap s n) # wss)) s'" using spruned_trans [OF tb(1) w(2)] by simp
      then show ?thesis
        unfolding st using w(1,3) len
        by (intro exI [of _ s'] exI [of _ vss'] exI [of _ "n_value (heap s n) # wss"]) auto
    qed
  qed
qed simp

section \<open>The operations\<close>

lemma swa_evict_full_ok:
  assumes i: "swa_inv s H"
  obtains s' kvs sws where "swa_evict_full num s = Inr (s', kvs, sws)" "spruned H s kvs sws s'"
    "num \<le> int (length kvs) \<or> full_evictable s' = 0"
proof -
  note d = swa_invD [OF i]
  obtain ns where ns: "dfs s = Inr ns" "distinct ns" "set ns = live s" by (rule dfs_ok [OF d(1)])
  let ?q = "filter (\<lambda>n. n_ref (heap s n) = 0) (filter (\<lambda>n. is_leaf s n \<and> \<not> is_root s n) ns)"
  have q: "distinct ?q" "set ?q = free_leaves s"
    using ns(2,3) sleafy_iff [OF i] by (auto simp: free_leaves_def)
  have f: "card (live s) \<le> Suc (2 * counter s)" using live_le_counter [OF d(1)] by simp
  obtain s' vss wss where r: "swa_evict_full_loop (Suc (2 * counter s)) num ?q s [] [] 0 = Inr (s', vss, wss)"
    "spruned H s (concat vss) (concat wss) s'" "num \<le> int (length (concat vss)) \<or> free_leaves s' = {}"
    using swa_evict_full_loop_ok [OF i q f, of num "[]" "[]" 0] by auto
  note d' = swa_invD [OF sprunedD(1) [OF r(2)]] and L = swa_lock_inv(1) [OF sprunedD(1) [OF r(2)]]
  have "full_evictable s' = 0" if "free_leaves s' = {}"
  proof (rule ccontr)
    assume a: "full_evictable s' \<noteq> 0"
    have "0 \<le> node_sum s' w_free" unfolding node_sum_def by (rule sum_nonneg) (auto simp: w_free_def w_len_def)
    then have "0 < full_evictable s'" using a L by (simp add: lock_inv_def)
    from unlocked_leaf_exists [OF d'(1) L this] that show False by (auto simp: free_leaves_def)
  qed
  moreover have "swa_evict_full num s = Inr (s', concat vss, concat wss)"
    using ns(1) r(1) by (simp add: swa_evict_full_def leaves_def del: swa_evict_full_loop.simps)
  ultimately show ?thesis using that r(2,3) by blast
qed

lemma evict_swa_ok:
  assumes i: "swa_inv s H"
  obtains s' kvs sws where "evict_swa num s = Inr (s', kvs, sws)" "spruned H s kvs sws s'"
    "num \<le> int (length sws) \<or> swa_evictable s' = 0"
proof -
  note d = swa_invD [OF i]
  obtain ns where ns: "dfs s = Inr ns" "distinct ns" "set ns = live s" by (rule dfs_ok [OF d(1)])
  let ?q = "filter (\<lambda>n. n_swa_ref (heap s n) = 0) (filter (\<lambda>n. \<not> is_root s n \<and> \<not> n_tomb (heap s n)) ns)"
  have q: "distinct ?q" "set ?q = free_swas s"
    using ns(2,3) inv_is_root [OF wfD [OF d(1)]] by (auto simp: free_swas_def)
  have "length ns \<le> counter s"
    using live_le_counter [OF d(1)] distinct_card [OF ns(2)] ns(3) by simp
  moreover have "length ?q \<le> length ns" by (rule order_trans [OF length_filter_le length_filter_le])
  ultimately have f: "length ?q < Suc (counter s)" by (meson le_imp_less_Suc order_trans)
  obtain s' vss wss where r: "evict_swa_loop (Suc (counter s)) num ?q s [] [] 0 = Inr (s', vss, wss)"
    "spruned H s (concat vss) (concat wss) s'" "num \<le> int (length (concat wss)) \<or> free_swas s' = {}"
    using evict_swa_loop_ok [OF i q f, of num "[]" "[]" 0] by auto
  note d' = swa_invD [OF sprunedD(1) [OF r(2)]]
  have "swa_evictable s' = 0" if "free_swas s' = {}"
  proof -
    have "node_sum s' w_sfree = 0"
      unfolding node_sum_def by (rule sum.neutral) (use that in \<open>auto simp: free_swas_def w_sfree_def\<close>)
    then show ?thesis using d'(5) by (simp add: sums_ok_def)
  qed
  moreover have "evict_swa num s = Inr (s', concat vss, concat wss)"
    using ns(1) r(1) by (simp add: evict_swa_def swa_nodes_def del: evict_swa_loop.simps)
  ultimately show ?thesis using that r(2,3) by blast
qed

section \<open>Trimming\<close>

lemma trim_loop_ok:
  assumes "swa_inv s H" and "n \<in> live s" and "keep - pos < f"
  shows "\<exists>s' wss. trim_loop f ids keep n pos fr s = Inr (s', fr @ wss) \<and> spruned H s [] (concat wss) s' \<and>
    live s' = live s \<and> cached s' = cached s"
  using assms
proof (induction f arbitrary: n pos fr s)
  case (Suc f)
  note i = Suc.prems(1) and d = swa_invD [OF Suc.prems(1)]
  show ?case
  proof (cases "pos < keep \<and> (\<exists>c. get_child s n (drop pos ids) = Some c \<and> pos + node_len s c \<le> keep)")
    case False
    then have "trim_loop (Suc f) ids keep n pos fr s = Inr (s, fr)" by (auto split: option.splits)
    then show ?thesis using spruned_refl [OF i] by (intro exI [of _ s] exI [of _ "[]"]) auto
  next
    case True
    then obtain c where c: "get_child s n (drop pos ids) = Some c" "pos + node_len s c \<le> keep" "pos < keep" by blast
    note cd = inv_get_child_dest [OF wfD [OF d(1)] Suc.prems(2) c(1)]
    have l: "0 < node_len s c" by (rule inv_len_pos [OF wfD [OF d(1)] cd(1,2)])
    have lt: "keep - (pos + node_len s c) < f" using l c(3) Suc.prems(3) by simp
    show ?thesis
    proof (cases "\<not> n_tomb (heap s c) \<and> n_swa_ref (heap s c) = 0 \<and> \<not> is_leaf s c")
      case True
      then have cf: "c \<in> free_swas s" using cd(1,2) by (simp add: free_swas_def)
      note tb = tombstone_ok [OF i cf]
      have "trim_loop (Suc f) ids keep n pos fr s =
          trim_loop f ids keep c (pos + node_len s c) (fr @ [n_value (heap s c)]) (tombstone c s)"
        using c True by (simp add: Let_def tombstone_def)
      moreover obtain s' wss where w:
        "trim_loop f ids keep c (pos + node_len s c) (fr @ [n_value (heap s c)]) (tombstone c s) = Inr (s', (fr @ [n_value (heap s c)]) @ wss)"
        "spruned H (tombstone c s) [] (concat wss) s'" "live s' = live (tombstone c s)" "cached s' = cached (tombstone c s)"
        using Suc.IH [OF sprunedD(1) [OF tb(1)] _ lt] cd(1) tb(3) by blast
      moreover have "spruned H s [] (concat (n_value (heap s c) # wss)) s'" using spruned_trans [OF tb(1) w(2)] by simp
      ultimately show ?thesis using tb(3,4) by (intro exI [of _ s'] exI [of _ "n_value (heap s c) # wss"]) auto
    next
      case False
      then have "trim_loop (Suc f) ids keep n pos fr s = trim_loop f ids keep c (pos + node_len s c) fr s"
        using c by (auto simp: Let_def)
      then show ?thesis using Suc.IH [OF i cd(1) lt, of fr] by simp
    qed
  qed
qed simp

lemma sgrown_spruned:
  assumes g: "sgrown s t" and p: "spruned H t kvs sws s'"
  shows "owned s = mset kvs + owned s'" "live_owned s = mset sws + live_owned s'"
  using sgrownD(5,6) [OF g] sprunedD(6,7) [OF p] by simp_all

lemma trim_head_swa_ok:
  assumes i: "swa_inv s H"
  obtains s' sws where "trim_head_swa ids keep s = Inr (s', sws)" "swa_inv s' H" "live s \<subseteq> live s'" "root s' = root s"
    "swa_window s' = swa_window s" "owned s' = owned s" "live_owned s = mset sws + live_owned s'" "cached s' = cached s"
    "\<And>q. q \<in> live s \<Longrightarrow> toks s' q = toks s q \<and> vals s' q = vals s q"
proof (cases "keep \<le> 0")
  case True
  then have "trim_head_swa ids keep s = Inr (s, [])" by (simp add: trim_head_swa_def)
  then show ?thesis by (rule that) (use i in auto)
next
  case False
  obtain s1 kv n where m: "swa_match (take (nat keep) ids) s = Inr (s1, kv, length kv, n)" "swa_inv s1 H" "sgrown s s1"
    by (rule swa_match_ok [OF i, of "take (nat keep) ids"])
  have lt: "nat keep - 0 < Suc (nat keep)" by simp
  obtain s' wss where t: "trim_loop (Suc (nat keep)) ids (nat keep) (root s1) 0 [] s1 = Inr (s', wss)"
    "spruned H s1 [] (concat wss) s'" "live s' = live s1" "cached s' = cached s1"
    using trim_loop_ok [OF m(2) live.root lt, of ids "[]"] by auto
  note g = sgrownD [OF m(3)] and p = sprunedD [OF t(2)]
  have e: "trim_head_swa ids keep s = Inr (s', concat wss)"
    using False m(1) t(1) by (simp add: trim_head_swa_def del: trim_loop.simps)
  show ?thesis
  proof (rule that [OF e p(1)])
    show "toks s' q = toks s q \<and> vals s' q = vals s q" if "q \<in> live s" for q
    proof -
      have "q \<in> live s1" using g(1) that by blast
      then show ?thesis using g(8,9) [OF that] p(8) [of q] t(3) by simp
    qed
  qed (use g p t(3,4) in auto)
qed

end
