(* ===== verification/Swa_Insert.thy ===== *)
theory Swa_Insert
  imports Swa_Lock
begin

text \<open>
  \<open>insert\<close> of the sliding-window cache. Matched nodes keep their slots, or are revived with the
  request's live ones; the rest of the input joins the tree. Every slot of the request past its
  reused prefix ends in the tree or is handed back, and so does every slot it displaced.
\<close>

section \<open>What an insertion may do\<close>

definition merged :: "hold multiset \<Rightarrow> swa \<Rightarrow> slot list \<Rightarrow> slot list \<Rightarrow> swa \<Rightarrow> bool" where
  "merged H s add fr t \<longleftrightarrow> swa_inv t H \<and> live s \<subseteq> live t \<and> root t = root s \<and> psize t = psize s \<and>
     swa_window t = swa_window s \<and> (\<forall>q \<in> live s. toks t q = toks s q) \<and>
     (\<forall>h \<in># H. vals t (fst h) = vals s (fst h)) \<and> owned t + mset fr = owned s + mset add"

lemma mergedD:
  assumes "merged H s add fr t"
  shows "swa_inv t H" "live s \<subseteq> live t" "root t = root s" "psize t = psize s" "swa_window t = swa_window s"
    "q \<in> live s \<Longrightarrow> toks t q = toks s q" "h \<in># H \<Longrightarrow> vals t (fst h) = vals s (fst h)"
    "owned t + mset fr = owned s + mset add"
  using assms by (auto simp: merged_def)

lemma merged_grown: "swa_inv t H \<Longrightarrow> swa_inv s H \<Longrightarrow> sgrown s t \<Longrightarrow> merged H s [] [] t"
  using swa_invD(7) [of s H] by (auto simp: merged_def sgrown_def)

lemma merged_trans:
  assumes "swa_inv a H" and "merged H a x f b" and "merged H b y g c"
  shows "merged H a (x @ y) (f @ g) c"
proof -
  note b = mergedD [OF assms(2)] and c = mergedD [OF assms(3)]
  have "owned c + mset (f @ g) = (owned c + mset g) + mset f" by simp
  also have "\<dots> = (owned b + mset f) + mset y" unfolding c(8) by simp
  also have "\<dots> = owned a + mset (x @ y)" unfolding b(8) by simp
  finally show ?thesis
    using b c swa_invD(7) [OF assms(1)] unfolding merged_def by (auto simp: subset_iff)
qed

lemma merged_cached:
  assumes m: "merged H s x f t" and c: "cached s ts vs"
  shows "\<exists>ws. cached t ts ws"
proof -
  from c obtain n where "n \<in> live s" "psize s dvd length ts" "prefix ts (toks s n)" by (auto simp: cached_def)
  then have "cached t ts (take (length ts) (vals t n))"
    unfolding cached_def using mergedD(2,4,6) [OF m] by (intro bexI [of _ n]) auto
  then show ?thesis by blast
qed

text \<open>No prefix joins the tree.\<close>

definition no_more :: "swa \<Rightarrow> swa \<Rightarrow> bool" where
  "no_more s t \<longleftrightarrow> (\<forall>ts vs. cached t ts vs \<longrightarrow> (\<exists>us. cached s ts us))"

lemma no_more_same: "cached t = cached s \<Longrightarrow> no_more s t"
  by (auto simp: no_more_def)

lemma no_more_trans: "no_more a b \<Longrightarrow> no_more b c \<Longrightarrow> no_more a c"
  unfolding no_more_def by blast

lemma no_more_skel:
  assumes k: "same_skel s t" and wf: "tree_wf s"
  shows "no_more s t"
proof -
  have p: "psize t = psize s" using k by (simp add: same_skel_def)
  have "cached s ts (take (length ts) (vals s n))" if "n \<in> live s" "psize s dvd length ts" "prefix ts (toks s n)" for n ts
    unfolding cached_def using that by blast
  then show ?thesis
    using same_skel(2,3) [OF k wf] p unfolding no_more_def cached_def by auto
qed

section \<open>Reviving a tombstone\<close>

lemma swa_revive_ok:
  assumes i: "swa_inv s H" and c: "c \<in> live s" "c \<noteq> root s" "n_tomb (heap s c)" "n_ref (heap s c) = 0"
    and len: "length v = node_len s c"
  obtains t where "swa_revive c v s = Inr t" "merged H s v (n_value (heap s c)) t" "no_more s t"
    "n_children (heap t c) = n_children (heap s c)"
proof -
  note d = swa_invD [OF i] and un = swa_tomb_unpinned [OF i c(1,2)]
  let ?nd = "(heap s c)\<lparr>n_value := v, n_tomb := False, n_time := (swa_clk s + 1) * event_stride\<rparr>"
  define t where "t = s\<lparr>heap := (heap s)(c := ?nd), swa_evictable := swa_evictable s + int (node_len s c),
    swa_clk := swa_clk s + 1, swa_revives := swa_revives s + 1\<rparr>"
  have run: "swa_revive c v s = Inr t"
    using len by (simp add: swa_revive_def set_key_value_def upd_def swa_tick_def node_len_def Let_def t_def)
  have b: "counter t = counter s" "root t = root s" "psize t = psize s" "swa_window t = swa_window s" "swa_uuid_ctr t = swa_uuid_ctr s"
    "full_evictable t = full_evictable s" "full_protected t = full_protected s"
    "swa_evictable t = swa_evictable s + int (node_len s c)" "swa_protected t = swa_protected s"
    and h: "heap t = (heap s)(c := ?nd)" by (simp_all add: t_def)
  have lv: "length (n_value (heap s c)) = node_len s c" by (rule inv_len_value [OF wfD [OF d(1)] c(1,2)])
  have k: "same_skel s t" using h b len lv by (simp add: same_skel_def)
  note K = same_skel [OF k d(1)]
  have one: "node_sum t w + w (heap s c) = node_sum s w + w ?nd" for w :: "rnode \<Rightarrow> 'z::comm_monoid_add"
  proof -
    have o: "w (heap t m) = w (heap s m)" if "m \<noteq> c" for m using that h by simp
    have "heap t c = ?nd" using h by simp
    then show ?thesis using node_sum_one [OF live_finite [OF d(1)] K(2) b(2) c(1,2), of w, OF o] by simp
  qed
  have q0: "n_swa_ref (heap s c) = 0" by (rule un(1) [OF c(3)])
  have so: "sums_ok t"
    using d(5) b one [of w_free] one [of w_used] one [of w_sfree] one [of w_sheld] c(3,4) q0
    by (simp add: sums_ok_def w_free_def w_used_def w_sfree_def w_sheld_def w_len_def node_len_def)
  have ti: "swa_inv t H"
    by (rule swa_inv_skel(1) [OF i k _ b(4,5) so])
      (use h d(6) in \<open>auto simp: hand_ok_def split: if_splits\<close>)
  have "vals t (fst x) = vals s (fst x)" if x: "x \<in># H" for x
  proof -
    have "c \<notin> set (anc s (fst x))" by (rule un(3) [OF c(4) x])
    then have "map (\<lambda>m. n_value (heap t m)) (rev (anc s (fst x))) = map (\<lambda>m. n_value (heap s m)) (rev (anc s (fst x)))"
      using h by auto
    then show ?thesis unfolding vals_def K(4) [OF d(7) [OF x]] by (simp only:)
  qed
  moreover have "owned t + mset (n_value (heap s c)) = owned s + mset v"
    using one [of "\<lambda>nd. mset (n_value nd)"] by (simp add: owned_def)
  ultimately have "merged H s v (n_value (heap s c)) t"
    unfolding merged_def using ti K(2,3) b by simp
  then show ?thesis using that [OF run] no_more_skel [OF k d(1)] h by simp
qed

section \<open>One matched node\<close>

lemma swa_reconcile_ok:
  assumes i: "swa_inv s H" and c: "c \<in> live s" "n_parent (heap s c) = Some p" and len: "length sg = node_len s c"
    and al: "psize s dvd ev" "psize s dvd tot"
  obtains t fr where "swa_reconcile c sg tot (node_len s c) ev af s = Inr (t, fr)"
    "merged H s (if af < tot + node_len s c then sg else []) (concat fr) t" "no_more s t"
    "n_children (heap t c) = n_children (heap s c)"
proof -
  note d = swa_invD [OF i]
  let ?m = "node_len s c"
  have cr: "c \<noteq> root s" by (rule live_root_ne [OF d(1) c])
  have keep: "merged H s sg sg s" using i by (simp add: merged_def)
  have none: "merged H s [] [] s" using i by (simp add: merged_def)
  have nm: "no_more s s" by (rule no_more_same [OF refl])
  have q0: "n_tomb (heap s c) \<Longrightarrow> n_swa_ref (heap s c) = 0" by (rule swa_tomb_unpinned(1) [OF i c(1) cr])
  have r0: "0 \<le> n_ref (heap s c)" using d(8) [OF c(1) cr] by (simp add: paths_def)
  consider (in_prefix) "\<not> af < tot + ?m" | (kept) "af < tot + ?m" "\<not> n_tomb (heap s c) \<or> 0 < n_ref (heap s c) \<or> tot + ?m \<le> ev"
    | (whole) "af < tot + ?m" "n_tomb (heap s c)" "n_ref (heap s c) = 0" "ev \<le> tot"
    | (half) "af < tot + ?m" "n_tomb (heap s c)" "n_ref (heap s c) = 0" "tot < ev" "ev < tot + ?m"
    using r0 by linarith
  then show ?thesis
  proof cases
    case in_prefix
    then show ?thesis using that [of s "[]"] none nm by (simp add: swa_reconcile_def)
  next
    case kept
    have l: "0 < ?m" by (rule inv_len_pos [OF wfD [OF d(1)] c(1) cr])
    have "swa_reconcile c sg tot ?m ev af s = Inr (s, [sg])"
      using kept q0 l by (auto simp: swa_reconcile_def)
    then show ?thesis using that [of s "[sg]"] keep kept(1) nm by simp
  next
    case whole
    obtain t where t: "swa_revive c sg s = Inr t" "merged H s sg (n_value (heap s c)) t"
      "no_more s t" "n_children (heap t c) = n_children (heap s c)"
      by (rule swa_revive_ok [OF i c(1) cr whole(2,3) len])
    have "swa_reconcile c sg tot ?m ev af s = Inr (t, [n_value (heap s c)])"
      using whole q0 t(1) by (simp add: swa_reconcile_def Let_def)
    then show ?thesis using that [of t "[n_value (heap s c)]"] t whole(1) by simp
  next
    case half
    define st where "st = ev - tot"
    have pos: "0 < st" "st < ?m" "psize s dvd st" using half al by (simp_all add: st_def dvd_diff_nat)
    let ?t = "split_result c p st s"
    note sp = swa_split [OF i c pos] and w = wf_split [OF d(1) c pos] and h = split_result_nodes(2) [OF d(1) c, where pos = st]
    have cl: "c \<in> live ?t" "c \<noteq> root ?t" "n_tomb (heap ?t c)" "n_ref (heap ?t c) = 0"
      using w(2) c(1) cr h half(2,3) by (simp_all add: split_result_simps)
    have ln: "length (drop st sg) = node_len ?t c" using h len by (simp add: node_len_def)
    obtain t where t: "swa_revive c (drop st sg) ?t = Inr t" "merged H ?t (drop st sg) (n_value (heap ?t c)) t"
      "no_more ?t t" "n_children (heap t c) = n_children (heap ?t c)"
      by (rule swa_revive_ok [OF sp(1) cl ln])
    have "split_at c st s = Inr (?t, counter s)" by (rule split_at_eq [OF wfD [OF d(1)] c pos(1,2)])
    then have run: "swa_reconcile c sg tot ?m ev af s = Inr (t, [n_value (heap ?t c), take st sg])"
      using half q0 t(1) by (simp add: swa_reconcile_def st_def Let_def)
    have m: "merged H s (drop st sg) (n_value (heap ?t c)) t"
      using merged_trans [OF i merged_grown [OF sp(1) i sp(2)] t(2)] by simp
    have "mset sg = mset (take st sg) + mset (drop st sg)" by (metis append_take_drop_id mset_append)
    then have "merged H s sg (concat [n_value (heap ?t c), take st sg]) t"
      using m by (simp add: merged_def ac_simps)
    moreover have "no_more s t" by (rule no_more_trans [OF no_more_same [OF w(7)] t(3)])
    ultimately show ?thesis using that [OF run] t(4) h half(1) by simp
  qed
qed

section \<open>The walk\<close>

lemma boundary_between:
  assumes wf: "tree_wf s" and q: "q \<in> live s" and c: "c \<in> live s" "n_parent (heap s c) = Some n"
    and p: "prefix (toks s q) (toks s c)" and lt: "length (toks s q) < length (toks s c)"
  shows "length (toks s q) \<le> length (toks s n)"
proof -
  note inv = wfD [OF wf]
  have n: "n \<in> live s" using inv_parent_neq [OF inv c] by simp
  from prefix_on_path [OF inv q c(1) p] consider "q = root s" | "q \<in> set (anc s c)" by blast
  then show ?thesis
  proof cases
    case 1
    then show ?thesis using inv_root_P [OF inv] by simp
  next
    case 2
    then have "q \<in> set (anc s n)" using anc_step [OF inv c] lt by auto
    then show ?thesis using anc_facts(4) [OF inv n] by (auto dest: prefix_length_le)
  qed
qed

lemma swa_insert_loop_ok:
  assumes "swa_inv s H" and "n \<in> live s" and "toks s n = take tot ids" and "tot \<le> length ids"
    and "length ids - tot < f" and "length kv = length ids" and "psize s dvd ev"
    and "q \<in> live s" and "toks s q = take af ids" and "af \<le> length ids"
  shows "\<exists>t m k fr. swa_insert_loop f ids kv ev af n tot freed s = Inr (t, m, k, freed @ fr) \<and>
    merged H s (drop (max tot af) (take k kv)) (concat fr) t \<and> m \<in> live t \<and> toks t m = take k ids \<and> tot \<le> k \<and>
    k \<le> length ids \<and> (k < length ids \<longrightarrow> get_child t m (drop k ids) = None) \<and>
    (\<forall>ts vs. cached s ts vs \<longrightarrow> prefix ts ids \<longrightarrow> length ts \<le> k) \<and> no_more s t"
  using assms
proof (induction f arbitrary: n tot freed s)
  case (Suc f)
  note i = Suc.prems(1) and n = Suc.prems(2-4) and d = swa_invD [OF Suc.prems(1)] and inv = wfD [OF swa_invD(1) [OF Suc.prems(1)]]
  show ?case
  proof (cases "tot < length ids \<and> get_child s n (drop tot ids) \<noteq> None")
    case False
    then have "swa_insert_loop (Suc f) ids kv ev af n tot freed s = Inr (s, n, tot, freed @ [])" by auto
    moreover have "walked s ids s n tot" by (rule walk_none [OF d(1) n]) (use False in auto)
    moreover have "merged H s (drop (max tot af) (take tot kv)) (concat []) s" using i by (simp add: merged_def)
    ultimately show ?thesis using n(1,2) no_more_same [OF refl, of s] unfolding walked_def by blast
  next
    case True
    then obtain c0 where lt: "tot < length ids" and c0: "get_child s n (drop tot ids) = Some c0" by auto
    define m where "m = align_down_nat (match_len (n_key (heap s c0)) (drop tot ids)) (psize s)"
    note ch = walk_child [OF d(1) n c0, folded m_def]
    define part where "part \<longleftrightarrow> m < node_len s c0"
    define s1 where "s1 = (if part then split_result c0 n m s else s)"
    define c where "c = (if part then counter s else c0)"
    have st: "(if part then split_at c0 m s else Inr (s, c0)) = Inr (s1, c)"
      using split_at_eq [OF inv ch(1,3,4)] by (simp add: part_def s1_def c_def)
    have S: "swa_inv s1 H" "sgrown s s1" "c \<in> live s1" "n_parent (heap s1 c) = Some n" "node_len s1 c = m"
      "toks s1 c = take (tot + m) ids"
    proof -
      show "swa_inv s1 H" "sgrown s s1"
        using swa_split [OF i ch(1,3,4) _ ch(5)] i sgrown_refl by (auto simp: s1_def part_def)
      show "c \<in> live s1" "n_parent (heap s1 c) = Some n" "node_len s1 c = m" "toks s1 c = take (tot + m) ids"
        using wf_split(2,5) [OF d(1) ch(1,3,4) _ ch(5)] split_result_nodes(1) [OF d(1) ch(1,3), of m] ch
        by (auto simp: s1_def c_def part_def node_len_def)
    qed
    note D1 = swa_invD [OF S(1)] and g = sgrownD [OF S(2)]
    have wk: "part \<Longrightarrow> walked s ids s1 c (tot + m)"
      using walk_part [OF d(1) n c0] by (simp add: part_def s1_def c_def m_def)
    let ?sg = "take m (drop tot kv)"
    have len: "length ?sg = node_len s1 c" using S(5) ch(7) Suc.prems(6) by simp
    have al: "psize s1 dvd ev" "psize s1 dvd tot"
      using Suc.prems(7) g(3) inv_P_dvd [OF inv n(1)] n(2,3) by simp_all
    obtain s2 fr where r: "swa_reconcile c ?sg tot m ev af s1 = Inr (s2, fr)"
      "merged H s1 (if af < tot + m then ?sg else []) (concat fr) s2" "n_children (heap s2 c) = n_children (heap s1 c)"
      "no_more s1 s2"
      using swa_reconcile_ok [OF S(1,3,4) len al, of af] unfolding S(5) by blast
    note M = mergedD [OF r(2)]
    have nm: "no_more s s2" by (rule no_more_trans [OF no_more_same [OF g(4)] r(4)])
    have M0: "merged H s (if af < tot + m then ?sg else []) (concat fr) s2"
      using merged_trans [OF i merged_grown [OF S(1) i S(2)] r(2)] by simp
    have run: "swa_insert_loop (Suc f) ids kv ev af n tot freed s =
       (if part then Inr (s2, c, tot + m, freed @ fr) else swa_insert_loop f ids kv ev af c (tot + m) (freed @ fr) s2)"
      using lt c0 ch(4) st r(1) by (simp add: m_def [symmetric] part_def Let_def)
    have af: "af \<le> tot" if "af < tot + m"
    proof -
      have e: "length (toks s1 q) = af" "length (toks s1 c) = tot + m" "length (toks s1 n) = tot"
        using S(6) ch(7) Suc.prems(8-10) g(8) n by auto
      have "prefix (take af ids) (take (tot + m) ids)" using that by (metis less_imp_le min_absorb1 take_is_prefix take_take)
      then have "prefix (toks s1 q) (toks s1 c)" using S(6) Suc.prems(8,9) g(8) by simp
      then show ?thesis
        using boundary_between [OF D1(1) _ S(3,4), of q] g(1) Suc.prems(8) e that by auto
    qed
    have add: "(if af < tot + m then ?sg else []) @ drop (max (tot + m) af) (take k kv) = drop (max tot af) (take k kv)"
      if k: "tot + m \<le> k" for k
    proof (cases "af < tot + m")
      case True
      have "take m (drop tot kv) = take m (drop tot (take k kv))" using k by (simp add: drop_take min_def)
      moreover have "drop (tot + m) (take k kv) = drop m (drop tot (take k kv))" by (simp add: add.commute)
      ultimately have "take m (drop tot kv) @ drop (tot + m) (take k kv) = drop tot (take k kv)" by (simp only: append_take_drop_id)
      then show ?thesis using True af by (simp add: max_def)
    qed (simp add: max_def)
    have cl: "c \<in> live s2" using S(3) M(2) by blast
    have tc: "toks s2 c = take (tot + m) ids" using M(6) [OF S(3)] S(6) by simp
    have gc: "get_child s2 c x = get_child s1 c x" for x using r(3) M(4) by (simp add: get_child_def)
    show ?thesis
    proof (cases part)
      case True
      note W = walkedD [OF wk [OF True]]
      have "merged H s (drop (max tot af) (take (tot + m) kv)) (concat fr) s2"
        using M0 add [of "tot + m"] Suc.prems(6) ch(7) by (simp add: max_def split: if_splits)
      then show ?thesis
        using run True cl tc ch(7) W(7,8) gc nm
        by (intro exI [of _ s2] exI [of _ c] exI [of _ "tot + m"] exI [of _ fr]) auto
    next
      case False
      then have e: "s1 = s" "c = c0" by (simp_all add: s1_def c_def)
      have fu: "length ids - (tot + m) < f" using lt ch(4) Suc.prems(5) by simp
      have ev: "psize s2 dvd ev" using Suc.prems(7) M(4) g(3) by simp
      have q2: "q \<in> live s2" "toks s2 q = take af ids"
        using Suc.prems(8,9) mergedD(2,6) [OF M0] by auto
      from Suc.IH [OF M(1) cl tc ch(7) fu Suc.prems(6) ev q2 Suc.prems(10), of "freed @ fr"]
      obtain t x k fr' where w: "swa_insert_loop f ids kv ev af c (tot + m) (freed @ fr) s2 = Inr (t, x, k, (freed @ fr) @ fr')"
        "merged H s2 (drop (max (tot + m) af) (take k kv)) (concat fr') t" "x \<in> live t" "toks t x = take k ids" "tot + m \<le> k"
        "k \<le> length ids" "k < length ids \<longrightarrow> get_child t x (drop k ids) = None"
        "\<And>ts vs. cached s2 ts vs \<Longrightarrow> prefix ts ids \<Longrightarrow> length ts \<le> k" "no_more s2 t" by blast
      have "merged H s (drop (max tot af) (take k kv)) (concat (fr @ fr')) t"
        using merged_trans [OF i M0 w(2)] add [OF w(5)] by simp
      moreover have "length ts \<le> k" if "cached s ts vs" "prefix ts ids" for ts vs
        using merged_cached [OF M0 that(1)] w(8) that(2) by blast
      moreover have "no_more s t" by (rule no_more_trans [OF nm w(9)])
      ultimately show ?thesis
        using run False w(1,3-7)
        by (intro exI [of _ t] exI [of _ x] exI [of _ k] exI [of _ "fr @ fr'"]) auto
    qed
  qed
qed simp


section \<open>The new suffix\<close>

lemma swa_add_child_ok:
  assumes i: "swa_inv s H" and n: "n \<in> live s" "get_child s n k = None"
    and k: "k \<noteq> []" "psize s dvd length k" "length v = length k"
  obtains t where "swa_add_child n k v tb s = Inr (t, counter s)" "merged H s v [] t" "counter s \<in> live t"
    "toks t (counter s) = toks s n @ k" "is_leaf t (counter s)"
    "\<And>ts vs. cached t ts vs \<Longrightarrow> (\<exists>us. cached s ts us) \<or> (psize s dvd length ts \<and> prefix ts (toks s n @ k))"
proof -
  let ?m = "counter s"
  define s1 where "s1 = s\<lparr>swa_clk := swa_clk s + 1\<rparr>"
  define tic where "tic = (swa_clk s + 1) * event_stride"
  have hs: "heap s1 = heap s" "counter s1 = counter s" "root s1 = root s" "psize s1 = psize s" by (simp_all add: s1_def)
  have "restamped s s1" unfolding restamped_def hs(1) by (simp add: s1_def) (metis rnode.surjective rnode.update_convs(6))
  note R = restamped_ok [OF i this]
  note i1 = R(1) and g = sgrownD [OF R(2)] and d = swa_invD [OF R(1)]
  have n1: "n \<in> live s1" "get_child s1 n k = None" "psize s1 dvd length k" using n k R(3) hs by (simp_all add: get_child_def)
  let ?t0 = "leaf_result tic k v n s1"
  note lf = wf_leaf(1-7) [OF d(1) n1(1,2) k(1) n1(3) k(3), where tic = tic] and lf8 = wf_leaf(8) [OF d(1) n1(1,2) k(1) n1(3) k(3)] and an = anc_leaf [OF d(1) n1(1,2) k(1) n1(3) k(3), where tic = tic]
    and h = leaf_result_nodes(1,2) [OF d(1) n1(1), where tic = tic and k = k and v = v]
  note e0 = swa_same_ext [OF same_ext_simps(4) [of s1 tic k v n]]
  let ?l = "int (length k)"
  let ?u0 = "upd ?m (\<lambda>nd. nd\<lparr>n_tomb := tb\<rparr>) ?t0"
  define t where "t = (if tb then ?u0\<lparr>full_evictable := full_evictable s + ?l\<rparr>
     else ?u0\<lparr>full_evictable := full_evictable s + ?l, swa_evictable := swa_evictable s + ?l\<rparr>)"
  have nm: "n \<noteq> ?m" "?m \<notin> live s" "?m \<noteq> root s" using lf8 n(1) R(3) hs(2) live.root [of s] by auto
  have c1: "full_evictable s1 = full_evictable s" "full_protected s1 = full_protected s" "swa_evictable s1 = swa_evictable s"
    "swa_protected s1 = swa_protected s" "swa_window s1 = swa_window s" "swa_uuid_ctr s1 = swa_uuid_ctr s" by (simp_all add: s1_def)
  have ht: "heap t = (heap ?t0)(?m := (heap ?t0 ?m)\<lparr>n_tomb := tb\<rparr>)" by (simp add: t_def heap_upd)
  have b: "counter t = counter ?t0" "root t = root ?t0" "psize t = psize ?t0" by (simp_all add: t_def)
  have cn: "full_evictable t = full_evictable s + ?l" "full_protected t = full_protected s"
    "swa_evictable t = swa_evictable s + (if tb then 0 else ?l)" "swa_protected t = swa_protected s"
    "swa_window t = swa_window s" "swa_uuid_ctr t = swa_uuid_ctr s"
    using e0 c1 by (simp_all add: t_def upd_def)
  have run: "swa_add_child n k v tb s = Inr (t, ?m)"
    using add_leaf_eq [of n s1 k v tic] nm(1) k(3) hs(2) h(1) e0(1,3) c1
    by (simp add: swa_add_child_def swa_tick_def s1_def [symmetric] tic_def [symmetric] Let_def t_def node_len_def upd_def)
  have T0: "same_tree ?t0 t" using ht b by (simp add: same_tree_def shape_def)
  note T = same_tree [OF T0 lf(1)]
  have lv: "live t = insert ?m (live s)" using T(2) lf(2) R(3) hs(2) by simp
  have rt: "root t = root s" "psize t = psize s" using b hs by (simp_all add: leaf_result_simps)
  have old: "\<exists>ks. heap t q = (heap s q)\<lparr>n_children := ks\<rparr>" if "q \<in> live s" for q
  proof -
    have "q \<noteq> ?m" using that nm(2) by auto
    then show ?thesis using h(2) [of q] that R(3) hs(1) ht by simp
  qed
  have car: "n_tomb (heap t q) = n_tomb (heap s q)" "n_ref (heap t q) = n_ref (heap s q)" "n_swa_ref (heap t q) = n_swa_ref (heap s q)"
    "n_swa_uuid (heap t q) = n_swa_uuid (heap s q)" "node_len t q = node_len s q" "n_value (heap t q) = n_value (heap s q)" if "q \<in> live s" for q
    using old [OF that] by (auto simp: node_len_def)
  have new: "heap t ?m = (new_node tic)\<lparr>n_key := k, n_value := v, n_parent := Some n, n_tomb := tb\<rparr>"
    using ht h(1) hs(2) by simp
  have sum: "node_sum t w = w (heap t ?m) + node_sum s w" if w: "\<And>nd ks. w (nd\<lparr>n_children := ks\<rparr>) = w nd"
    for w :: "rnode \<Rightarrow> 'z::comm_monoid_add"
  proof -
    have S: "live t - {root t} = insert ?m (live s - {root s})" using lv rt(1) nm(3) by auto
    have "w (heap t q) = w (heap s q)" if "q \<in> live s - {root s}" for q using old [of q] that w by auto
    moreover have "finite (live s - {root s})" using live_finite [OF swa_invD(1) [OF i]] by simp
    ultimately show ?thesis unfolding node_sum_def S using nm(2) by simp
  qed
  have so: "sums_ok t"
    using swa_invD(5) [OF i] cn sum [of w_free] sum [of w_used] sum [of w_sfree] sum [of w_sheld]
    by (simp add: sums_ok_def w_free_def w_used_def w_sfree_def w_sheld_def w_len_def new new_node_def)
  have ac: "anc t q = anc s q" if "q \<in> live s" for q
  proof -
    have "anc s1 q = anc s q"
      using same_tree(9) [of s s1 q] that swa_invD(1) [OF i] hs by (simp add: same_tree_def)
    then show ?thesis using T(9) [of q] an(1) [of q] that lf(2) R(3) by simp
  qed
  have al: "set (anc s q) \<subseteq> live s" if "q \<in> live s" for q using anc_facts(1) [OF wfD [OF swa_invD(1) [OF i]] that] by blast
  have hl: "fst x \<in> live s" if "x \<in># H" for x by (rule swa_invD(7) [OF i that])
  have sg: "seg t x = seg s x" if "x \<in># H" for x
    unfolding seg_def ac [OF hl [OF that]] using al [OF hl [OF that]] car(4) by (intro seg_of_cong) auto
  have hd: "hand_ok t x" if x: "x \<in># H" for x
  proof -
    have sl: "set (seg s x) \<subseteq> live s" using seg_set al [OF hl [OF x]] by blast
    then have "(\<Sum>m \<leftarrow> seg s x. int (node_len t m)) = (\<Sum>m \<leftarrow> seg s x. int (node_len s m))"
      by (intro arg_cong [where f = sum_list] map_cong) (auto simp: car)
    then show ?thesis using swa_invD(6) [OF i x] car(1) sl lv cn sg [OF x] by (auto simp: hand_ok_def)
  qed
  have cnt: "paths t H q = paths s H q \<and> pins t H q = pins s H q" for q
    using holds_cong [of H q t q s] sg ac hl by auto
  have z: "paths s H ?m = 0" "pins s H ?m = 0"
    unfolding paths_zero pins_zero using nm(2) al hl seg_set by blast+
  have ti: "swa_inv t H"
    unfolding swa_inv_def
  proof (intro conjI ballI impI)
    show "tree_wf t" by (rule T(1))
    show "n_ref (heap t (root t)) = 1" using car(2) [OF live.root] rt swa_invD(2) [OF i] by simp
    show "0 < swa_window t" using swa_invD(4) [OF i] cn by simp
    show "marks_ok t"
      unfolding marks_ok_def
    proof (intro ballI allI impI)
      fix q x assume q: "q \<in> live t - {root t}" "n_swa_uuid (heap t q) = Some x"
      have r: "y \<in> live s - {root s} \<and> n_swa_uuid (heap s y) = Some x"
        if "y \<in> live t - {root t}" "n_swa_uuid (heap t y) = Some x" for y
      proof -
        have "y \<noteq> ?m" using that(2) new by (auto simp: new_node_def)
        then have y: "y \<in> live s" "y \<noteq> root s" using that(1) lv rt(1) by auto
        then show ?thesis using car(4) [OF y(1)] that(2) by simp
      qed
      show "x \<le> swa_uuid_ctr t \<and> (\<forall>y \<in> live t - {root t}. n_swa_uuid (heap t y) = Some x \<longrightarrow> y = q)"
      proof -
        have "x \<le> swa_uuid_ctr s" "\<And>y. y \<in> live s - {root s} \<Longrightarrow> n_swa_uuid (heap s y) = Some x \<Longrightarrow> y = q"
          using swa_invD(10) [OF i] r [OF q] unfolding marks_ok_def by blast+
        then show ?thesis using r cn(6) by simp
      qed
    qed
    fix q assume q: "q \<in> live t" "q \<noteq> root t"
    show "n_ref (heap t q) = paths t H q" "n_swa_ref (heap t q) = pins t H q"
      using q lv rt(1) cnt [of q] z car [of q] swa_invD(8,9) [OF i, of q]
      by (cases "q = ?m"; simp add: new new_node_def)+
  qed (use so hd in auto)
  have "vals t (fst x) = vals s (fst x)" if "x \<in># H" for x
  proof -
    have "map (\<lambda>m. n_value (heap t m)) (rev (anc s (fst x))) = map (\<lambda>m. n_value (heap s m)) (rev (anc s (fst x)))"
      using al [OF hl [OF that]] car(6) by auto
    then show ?thesis unfolding vals_def ac [OF hl [OF that]] by (simp only:)
  qed
  moreover have tk: "toks t q = toks s q" if "q \<in> live s" for q
    using T(7) [of q] lf(2,3) g(8) [OF that] that R(3) by simp
  moreover have "owned t = owned s + mset v"
    using sum [of "\<lambda>nd. mset (n_value nd)"] by (simp add: owned_def new add.commute)
  ultimately have "merged H s v [] t" unfolding merged_def using ti lv rt cn by auto
  moreover have "toks t ?m = toks s n @ k" using T(7) [of ?m] lf(2,5) hs(2) g(8) [OF n(1)] by simp
  moreover have "is_leaf t ?m" by (simp add: is_leaf_def new new_node_def)
  moreover have "(\<exists>us. cached s ts us) \<or> (psize s dvd length ts \<and> prefix ts (toks s n @ k))" if "cached t ts vs" for ts vs
    using that T(3) lf(7) [of ts vs] g(4) g(8) [OF n(1)] hs(4) by auto
  ultimately show ?thesis using that [OF run] lv by blast
qed

section \<open>The operation\<close>

lemma swa_insert_ok:
  assumes i: "swa_inv s H" and len: "length ids \<le> length kv" and ev: "psize s dvd ev"
  defines "il \<equiv> align_down_nat (length ids) (psize s)"
  assumes q: "q \<in> live s" "toks s q = take af ids" "af \<le> il"
  obtains t k fr m where "swa_insert ids kv ev af s = Inr (t, k, fr)" "merged H s (drop af (take il kv)) fr t" "k \<le> il"
    "m \<in> live t" "toks t m = take il ids" "\<exists>us. cached s (take k ids) us"
    "\<And>ts vs. cached s ts vs \<Longrightarrow> prefix ts (take il ids) \<Longrightarrow> length ts \<le> k"
    "\<And>ts vs. cached t ts vs \<Longrightarrow> (\<exists>us. cached s ts us) \<or> prefix ts (take il ids)"
proof -
  note d = swa_invD [OF i]
  let ?ids = "take il ids" and ?kv = "take il kv"
  have il: "il \<le> length ids" "psize s dvd il" by (simp_all add: il_def)
  have ln: "length ?ids = il" "length ?kv = length ?ids" using il(1) len by auto
  have q': "toks s q = take af ?ids" "af \<le> length ?ids" using q(2,3) ln by (simp_all add: min_def)
  have r0: "toks s (root s) = take 0 ?ids" using inv_root_P [OF wfD [OF d(1)]] by simp
  have f: "length ?ids - 0 < Suc (length ?ids)" by simp
  obtain s1 n k fr where w: "swa_insert_loop (Suc (length ?ids)) ?ids ?kv ev af (root s) 0 [] s = Inr (s1, n, k, fr)"
    "merged H s (drop af (take k ?kv)) (concat fr) s1" "n \<in> live s1" "toks s1 n = take k ?ids" "k \<le> length ?ids"
    "k < length ?ids \<longrightarrow> get_child s1 n (drop k ?ids) = None" "\<And>ts vs. cached s ts vs \<Longrightarrow> prefix ts ?ids \<Longrightarrow> length ts \<le> k"
    "no_more s s1"
    using swa_insert_loop_ok [OF i live.root r0 le0 f ln(2) ev q(1) q', of "[]", unfolded append_Nil max_0L] by blast
  note M = mergedD [OF w(2)] and D = swa_invD [OF mergedD(1) [OF w(2)]]
  have kl: "k \<le> il" using w(5) ln by simp
  have afk: "af \<le> k"
  proof -
    have "cached s (toks s q) (vals s q)" by (rule cached_node [OF d(1) q(1)])
    then have "length (toks s q) \<le> k" using w(7) q'(1) take_is_prefix by metis
    then show ?thesis using q' by simp
  qed
  have pk: "psize s dvd k" using inv_P_dvd [OF wfD [OF D(1)] w(3)] w(4,5) M(4) by simp
  have ck: "\<exists>us. cached s (take k ids) us"
  proof -
    have "cached s1 (take k ids) (vals s1 n)" using cached_node [OF D(1) w(3)] w(4) kl by (simp add: min_def)
    then show ?thesis using w(8) by (auto simp: no_more_def)
  qed
  let ?sfx = "drop k ?ids" and ?skv = "drop k ?kv"
  define b where "b = min (min ev il - k) (length ?sfx - psize s)"
  have run: "swa_insert ids kv ev af s =
     (if \<not> k < il then Inr (s1, k, concat fr)
      else and_then (if b > 0 then swa_add_child n (take b ?sfx) (take b ?skv) True s1 else Inr (s1, n)) (\<lambda>(s2, n2).
           and_then (if drop b ?sfx \<noteq> [] then and_then (swa_add_child n2 (drop b ?sfx) (drop b ?skv) False s2) (\<lambda>(s3, _). Inr s3)
                     else Inr s2) (\<lambda>s3. Inr (s3, k, concat fr))))"
    unfolding swa_insert_def Let_def il_def [symmetric] w(1) b_def by simp
  show ?thesis
  proof (cases "k < il")
    case False
    then have e: "k = il" using kl by simp
    show ?thesis
      by (rule that [of s1 k "concat fr" n]) (use run w M ck e False no_more_def in auto)
  next
    case True
    have ls: "length ?sfx = il - k" "length ?skv = length ?sfx" using ln by simp_all
    have ps: "psize s dvd length ?sfx" "0 < length ?sfx" using ls il(2) pk True by (simp_all add: dvd_diff_nat)
    have psz: "0 < psize s" "psize s \<le> length ?sfx" using inv_psize [OF wfD [OF d(1)]] ps by (auto intro: dvd_imp_le)
    have bl: "b < length ?sfx" "psize s dvd b"
    proof -
      have "psize s dvd min ev il" using ev il(2) by (simp add: min_def)
      then have "psize s dvd min ev il - k" "psize s dvd length ?sfx - psize s"
        using pk ps(1) by (simp_all only: dvd_diff_nat dvd_refl)
      then show "psize s dvd b" unfolding b_def min_def [of _ "length ?sfx - psize s"] by presburger
      show "b < length ?sfx" using psz by (simp add: b_def del: length_drop)
    qed
    obtain s2 n2 where two: "(if b > 0 then swa_add_child n (take b ?sfx) (take b ?skv) True s1 else Inr (s1, n)) = Inr (s2, n2)"
      "merged H s1 (take b ?skv) [] s2" "n2 \<in> live s2" "toks s2 n2 = take k ?ids @ take b ?sfx"
      "get_child s2 n2 (drop b ?sfx) = None"
      "\<And>ts vs. cached s2 ts vs \<Longrightarrow> (\<exists>us. cached s1 ts us) \<or> prefix ts ?ids"
    proof (cases "b > 0")
      case True
      have p: "get_child s1 n (take b ?sfx) = None" "take b ?sfx \<noteq> []" "psize s1 dvd length (take b ?sfx)" "length (take b ?skv) = length (take b ?sfx)"
      proof -
        have "psize s1 \<le> b" using True bl(2) M(4) by (simp add: dvd_imp_le)
        then have "take (psize s1) (take b ?sfx) = take (psize s1) ?sfx" by (simp add: min_def)
        moreover have "get_child s1 n ?sfx = None" using w(6) \<open>k < il\<close> ln(1) by simp
        ultimately show "get_child s1 n (take b ?sfx) = None" by (simp add: get_child_def key_fn_def)
        show "take b ?sfx \<noteq> []" using True bl(1) by auto
        show "psize s1 dvd length (take b ?sfx)" using bl M(4) by (simp add: min_def)
        show "length (take b ?skv) = length (take b ?sfx)" using ls(2) by simp
      qed
      obtain t where t: "swa_add_child n (take b ?sfx) (take b ?skv) True s1 = Inr (t, counter s1)"
        "merged H s1 (take b ?skv) [] t" "counter s1 \<in> live t" "toks t (counter s1) = toks s1 n @ take b ?sfx" "is_leaf t (counter s1)"
        "\<And>ts vs. cached t ts vs \<Longrightarrow> (\<exists>us. cached s1 ts us) \<or> (psize s1 dvd length ts \<and> prefix ts (toks s1 n @ take b ?sfx))"
        by (rule swa_add_child_ok [OF M(1) w(3) p, of True]) blast
      have "prefix (toks s1 n @ take b ?sfx) ?ids"
      proof -
        have "toks s1 n @ take b ?sfx = take (k + b) ?ids" unfolding w(4) by (simp only: take_add)
        then show ?thesis by (simp only: take_is_prefix)
      qed
      then have c: "(\<exists>us. cached s1 ts us) \<or> prefix ts ?ids" if "cached t ts vs" for ts vs
        using t(6) [OF that] by (auto intro: prefix_order.trans)
      have "get_child t (counter s1) (drop b ?sfx) = None" using t(5) by (simp add: get_child_def is_leaf_def)
      then show ?thesis using that [of t "counter s1"] True t(1-4) w(4) c by simp
    next
      case False
      have "merged H s1 [] [] s1" using M(1) by (simp add: merged_def)
      then show ?thesis using that [of s1 n] False w(3,4,6) \<open>k < il\<close> ln(1) by auto
    qed
    note M2 = mergedD [OF two(2)]
    have p: "drop b ?sfx \<noteq> []" "psize s2 dvd length (drop b ?sfx)" "length (drop b ?skv) = length (drop b ?sfx)"
    proof -
      show "drop b ?sfx \<noteq> []" using bl(1) by simp
      show "psize s2 dvd length (drop b ?sfx)"
        unfolding M2(4) M(4) length_drop [of b] by (rule dvd_diff_nat [OF ps(1) bl(2)])
      show "length (drop b ?skv) = length (drop b ?sfx)" using ls(2) by simp
    qed
    obtain t where t: "swa_add_child n2 (drop b ?sfx) (drop b ?skv) False s2 = Inr (t, counter s2)"
      "merged H s2 (drop b ?skv) [] t" "counter s2 \<in> live t" "toks t (counter s2) = toks s2 n2 @ drop b ?sfx" "is_leaf t (counter s2)"
      "\<And>ts vs. cached t ts vs \<Longrightarrow> (\<exists>us. cached s2 ts us) \<or> (psize s2 dvd length ts \<and> prefix ts (toks s2 n2 @ drop b ?sfx))"
      by (rule swa_add_child_ok [OF M2(1) two(3,5) p, of False]) blast
    have full: "toks s2 n2 @ drop b ?sfx = ?ids"
      unfolding two(4) by (simp only: append_assoc append_take_drop_id)
    have m: "merged H s (drop af (take k ?kv) @ take b ?skv @ drop b ?skv) (concat fr) t"
      using merged_trans [OF i w(2) merged_trans [OF M(1) two(2) t(2)]] by simp
    have "drop af (take k ?kv) @ take b ?skv @ drop b ?skv = drop af ?kv"
    proof -
      have "take k ?kv @ drop k ?kv = ?kv" by (rule append_take_drop_id)
      moreover have "drop af (take k ?kv @ drop k ?kv) = drop af (take k ?kv) @ drop k ?kv"
        using afk kl ln by simp
      ultimately show ?thesis by (simp only: append_take_drop_id)
    qed
    then have m': "merged H s (drop af ?kv) (concat fr) t" using m by simp
    show ?thesis
    proof (rule that [of t k "concat fr" "counter s2"])
      show "swa_insert ids kv ev af s = Inr (t, k, concat fr)" using run True two(1) p(1) t(1) by simp
      show "toks t (counter s2) = ?ids" using t(4) full by simp
      show "(\<exists>us. cached s ts us) \<or> prefix ts ?ids" if "cached t ts vs" for ts vs
        using t(6) [OF that] two(6) w(8) unfolding full no_more_def by blast
    qed (use m' kl t(3) ck w(7) in auto)
  qed
qed

end
