(* ===== verification/Swa_Properties.thy ===== *)
theory Swa_Properties
  imports Swa_Evict Swa_Insert Radix_Cache
begin

text \<open>
  What the sliding-window cache guarantees in every state its clients can reach: no operation
  raises, the counters are exact, a match is the longest prefix whose trailing window is live, an
  insertion and the evictions account for every slot, and a held handle keeps its slots and its
  trailing window.
\<close>

section \<open>Clients\<close>

text \<open>
  What the page manager does with the cache. An insertion names a page-aligned free frontier \<open>ev\<close>
  and the length \<open>af\<close> of the prefix its request reused, which ends at a node; a lock follows the
  match whose node it pins, and the handle keeps the window stamp for the unlock.
\<close>

definition ends_at :: "swa \<Rightarrow> token list \<Rightarrow> nat \<Rightarrow> bool" where
  "ends_at s ids k \<longleftrightarrow> k \<le> align_down_nat (length ids) (psize s) \<and> (\<exists>q \<in> live s. toks s q = take k ids)"

inductive radix_swa_step :: "swa \<times> hold multiset \<Rightarrow> swa \<times> hold multiset \<Rightarrow> bool" where
  look: "swa_match ids s = Inr (s', r) \<Longrightarrow> radix_swa_step (s, H) (s', H)"
| insert: "swa_insert ids kv ev af s = Inr (s', r) \<Longrightarrow> length ids \<le> length kv \<Longrightarrow> psize s dvd ev \<Longrightarrow> ends_at s ids af \<Longrightarrow>
     radix_swa_step (s, H) (s', H)"
| lock: "swa_match ids s = Inr (s1, kv, l, n) \<Longrightarrow> swa_inc_lock n s1 = Inr (s', u) \<Longrightarrow> radix_swa_step (s, H) (s', add_mset (n, u) H)"
| unlock: "h \<in># H \<Longrightarrow> swa_dec_lock (fst h) (snd h) False s = Inr s' \<Longrightarrow> radix_swa_step (s, H) (s', H - {#h#})"
| evict_kv: "swa_evict_full num s = Inr (s', r) \<Longrightarrow> radix_swa_step (s, H) (s', H)"
| evict_window: "evict_swa num s = Inr (s', r) \<Longrightarrow> radix_swa_step (s, H) (s', H)"
| trim: "trim_head_swa ids keep s = Inr (s', r) \<Longrightarrow> radix_swa_step (s, H) (s', H)"

lemma radix_swa_step_inv: "radix_swa_step a b \<Longrightarrow> swa_inv (fst a) (snd a) \<Longrightarrow> swa_inv (fst b) (snd b)"
proof (induction rule: radix_swa_step.induct)
  case (look ids s s' r H)
  have i: "swa_inv s H" using look by simp
  show ?case by (rule swa_match_ok [OF i, of ids]) (use look in simp)
next
  case (insert ids kv ev af s s' r H)
  have i: "swa_inv s H" using insert by simp
  obtain q where q: "q \<in> live s" "toks s q = take af ids" "af \<le> align_down_nat (length ids) (psize s)"
    using insert(4) by (auto simp: ends_at_def)
  show ?case by (rule swa_insert_ok [OF i insert(2,3) q]) (use insert(1) mergedD(1) in fastforce)
next
  case (lock ids s s1 kv l n s' u H)
  have i: "swa_inv s H" using lock by simp
  show ?case
  proof (rule swa_match_ok [OF i, of ids])
    fix s2 kv2 n2
    assume a: "swa_match ids s = Inr (s2, kv2, length kv2, n2)" "swa_inv s2 H" "n2 \<in> live s2" "win_ok (swa_window s2) (flags s2 n2)"
    then have e: "s2 = s1" "n2 = n" using lock(1) by simp_all
    show ?thesis by (rule swa_inc_lock_ok [OF a(2-4) [unfolded e]]) (use lock(2) in simp)
  qed
next
  case (unlock h H s s')
  have i: "swa_inv s H" using unlock by simp
  show ?case by (rule swa_dec_lock_ok [OF i unlock(1)]) (use unlock in simp)
next
  case (evict_kv num s s' r H)
  have i: "swa_inv s H" using evict_kv by simp
  show ?case by (rule swa_evict_full_ok [OF i, of num]) (use evict_kv sprunedD(1) in fastforce)
next
  case (evict_window num s s' r H)
  have i: "swa_inv s H" using evict_window by simp
  show ?case by (rule evict_swa_ok [OF i, of num]) (use evict_window sprunedD(1) in fastforce)
next
  case (trim ids keep s s' r H)
  have i: "swa_inv s H" using trim by simp
  show ?case by (rule trim_head_swa_ok [OF i, of ids keep]) (use trim in simp)
qed

lemma radix_swa_steps_inv: "radix_swa_step\<^sup>*\<^sup>* a b \<Longrightarrow> swa_inv (fst a) (snd a) \<Longrightarrow> swa_inv (fst b) (snd b)"
  by (induction rule: rtranclp_induct) (blast intro: radix_swa_step_inv)+

lemma swa_init_inv:
  assumes "swa_init ps w uuid tic = Inr s" and "0 < ps"
  shows "swa_inv s {#}"
proof -
  let ?r = "radix_init ps uuid tic"
  note r = radix_okD [OF radix_init_ok [OF assms(2), of uuid tic]]
  have s: "s = \<lparr>heap = heap ?r, counter = counter ?r, root = root ?r, psize = psize ?r, full_evictable = 0, full_protected = 0,
                swa_evictable = 0, swa_protected = 0, swa_window = w, swa_clk = 0, swa_uuid_ctr = 0, swa_revives = 0\<rparr>"
    and w: "0 < w"
    using assms(1) by (auto simp: swa_init_def radix_init_def split: if_splits)
  have t: "same_tree ?r s" by (simp add: s same_tree_def)
  note T = same_tree [OF t r(1)]
  have l: "live s = {root s}"
    using T(2,4) tree_inv_wf(2) [OF radix_init_wf [OF assms(2), of uuid tic]] by (simp add: radix_init_def)
  have "n_ref (heap s (root s)) = 1" using r(2) by (simp add: s)
  then show ?thesis
    using T(1) l w by (simp add: swa_inv_def sums_ok_def marks_ok_def node_sum_def) (simp add: s)
qed

lemma swa_reach_inv:
  assumes "swa_init ps w uuid tic = Inr t" and "0 < ps" and "radix_swa_step\<^sup>*\<^sup>* (t, {#}) (s, H)"
  shows "swa_inv s H"
  using radix_swa_steps_inv [OF assms(3)] swa_init_inv [OF assms(1,2)] by simp


lemma reusable_grown:
  assumes g: "sgrown s s'" and wf: "tree_wf s'" and r: "reusable s' ts"
  shows "reusable s ts"
proof -
  note G = sgrownD [OF g]
  obtain n where n: "n \<in> live s'" "psize s' dvd length ts" "prefix ts (toks s' n)"
    "win_ok (swa_window s') (take (length ts) (flags s' n))" using r by (auto simp: reusable_def)
  have "cached s' ts (take (length ts) (vals s' n))" unfolding cached_def using n by blast
  then obtain q where q: "q \<in> live s" "prefix ts (toks s q)" "psize s dvd length ts" unfolding G(4) by (auto simp: cached_def)
  have q': "q \<in> live s'" "prefix ts (toks s' q)" using q(1,2) G(1,8) by auto
  have "take (length ts) (flags s' q) = take (length ts) (flags s' n)" by (rule flags_unique [OF wf q'(1) n(1,2) q'(2) n(3)])
  then show ?thesis unfolding reusable_def using q n(4) G(7,10) by metis
qed


section \<open>Properties\<close>

text \<open>C19: in every state that \<open>SWARadixCache\<close> reaches from an empty tree by its own operations, where each
  lock follows the match whose node it pins and each insertion names a page-aligned free frontier
  and a reused length that ends at a node, \<open>match_prefix\<close> returns a node whose path spells exactly the
  matched tokens together with their slots. Those tokens are a page-aligned prefix of the request
  whose trailing window is live (all of it when it is shorter than the window), and no longer
  prefix of the request has that. The match may split a node, but changes neither the cached
  prefixes nor the slots the tree owns, tombstoned or live.\<close>

theorem swa_match_longest:
  assumes "swa_init ps w uuid tic = Inr t" and "0 < ps" and "radix_swa_step\<^sup>*\<^sup>* (t, {#}) (s, H)"
  shows "\<exists>s' kv n. swa_match ids s = Inr (s', kv, length kv, n) \<and> cached s' = cached s \<and> owned s' = owned s \<and>
    live_owned s' = live_owned s \<and> length kv \<le> length ids \<and> n \<in> live s' \<and> toks s' n = take (length kv) ids \<and> cached s (take (length kv) ids) kv \<and>
    reusable s (take (length kv) ids) \<and> (\<forall>k \<le> length ids. reusable s (take k ids) \<longrightarrow> k \<le> length kv)"
proof -
  have i: "swa_inv s H" by (rule swa_reach_inv [OF assms])
  obtain s' kv n where m: "swa_match ids s = Inr (s', kv, length kv, n)" "swa_inv s' H" "sgrown s s'" "n \<in> live s'"
    "length kv \<le> length ids" "toks s' n = take (length kv) ids" "kv = vals s' n" "win_ok (swa_window s') (flags s' n)"
    "\<And>k. k \<le> length ids \<Longrightarrow> reusable s (take k ids) \<Longrightarrow> k \<le> length kv"
    by (rule swa_match_ok [OF i, of ids]) blast
  note wf = swa_invD(1) [OF m(2)] and g = sgrownD [OF m(3)]
  have c: "cached s' (take (length kv) ids) kv" using cached_node [OF wf m(4)] m(6,7) by simp
  have "length (flags s' n) = length (toks s' n)" by (rule flags_len [OF wf m(4)])
  then have "reusable s' (take (length kv) ids)"
    unfolding reusable_def using m(4,6,8) inv_P_dvd [OF wfD [OF wf] m(4)] by (intro bexI [of _ n]) auto
  then have "reusable s (take (length kv) ids)" by (rule reusable_grown [OF m(3) wf])
  then show ?thesis using m(1,4-6,9) g(4-6) c by (intro exI [of _ s'] exI [of _ kv] exI [of _ n]) auto
qed


text \<open>C21: in those states an eviction of \<open>SWARadixCache\<close> (\<open>evict_full\<close>, \<open>evict_swa\<close> and the head trim)
  hands out exactly the slots the tree stops owning: its full-pool slots and, as a second list, its
  live window slots. Every outstanding handle keeps its node, its tokens and slots, and a live
  trailing window. \<open>evict_full\<close> frees what it was asked for or leaves no evictable full token, and
  \<open>evict_swa\<close> likewise for the window.\<close>

theorem swa_evict_safe:
  assumes "swa_init ps w uuid tic = Inr t" and "0 < ps" and "radix_swa_step\<^sup>*\<^sup>* (t, {#}) (s, H)"
    and "swa_evict_full num s = Inr (s', kvs, sws) \<or> evict_swa num s = Inr (s', kvs, sws) \<or>
      kvs = [] \<and> trim_head_swa ids num s = Inr (s', sws)"
  shows "owned s = mset kvs + owned s' \<and> live_owned s = mset sws + live_owned s' \<and>
    (\<forall>h \<in># H. fst h \<in> live s' \<and> toks s' (fst h) = toks s (fst h) \<and> vals s' (fst h) = vals s (fst h) \<and>
       win_ok (swa_window s) (flags s' (fst h))) \<and>
    (swa_evict_full num s = Inr (s', kvs, sws) \<longrightarrow> num \<le> int (length kvs) \<or> full_evictable s' = 0) \<and>
    (evict_swa num s = Inr (s', kvs, sws) \<longrightarrow> num \<le> int (length sws) \<or> swa_evictable s' = 0)"
proof -
  have i: "swa_inv s H" by (rule swa_reach_inv [OF assms(1-3)])
  obtain a k l where f: "swa_evict_full num s = Inr (a, k, l)" "spruned H s k l a" "num \<le> int (length k) \<or> full_evictable a = 0"
    by (rule swa_evict_full_ok [OF i, of num])
  obtain b k' l' where g: "evict_swa num s = Inr (b, k', l')" "spruned H s k' l' b" "num \<le> int (length l') \<or> swa_evictable b = 0"
    by (rule evict_swa_ok [OF i, of num])
  obtain c l'' where m: "trim_head_swa ids num s = Inr (c, l'')" "swa_inv c H" "swa_window c = swa_window s" "owned c = owned s"
    "live_owned s = mset l'' + live_owned c" "\<And>q. q \<in> live s \<Longrightarrow> toks c q = toks s q \<and> vals c q = vals s q"
    by (rule trim_head_swa_ok [OF i, of ids num]) blast
  have p: "swa_inv s' H \<and> swa_window s' = swa_window s \<and> owned s = mset kvs + owned s' \<and> live_owned s = mset sws + live_owned s' \<and>
      (\<forall>h \<in># H. toks s' (fst h) = toks s (fst h) \<and> vals s' (fst h) = vals s (fst h))"
    using assms(4)
  proof (elim disjE conjE)
    assume "swa_evict_full num s = Inr (s', kvs, sws)"
    then have "spruned H s kvs sws s'" using f by simp
    from sprunedD [OF this] show ?thesis by blast
  next
    assume "evict_swa num s = Inr (s', kvs, sws)"
    then have "spruned H s kvs sws s'" using g by simp
    from sprunedD [OF this] show ?thesis by blast
  next
    assume a: "kvs = []" "trim_head_swa ids num s = Inr (s', sws)"
    then show ?thesis using m swa_invD(7) [OF i] by simp
  qed
  then have "\<forall>h \<in># H. fst h \<in> live s' \<and> win_ok (swa_window s) (flags s' (fst h))"
    using hand_win [of s' H] swa_invD(7) [of s' H] by metis
  then show ?thesis using p f(1,3) g(1,3) by auto
qed

text \<open>C22: in those states \<open>insert\<close> of \<open>SWARadixCache\<close> on at least as many slots as tokens, with a
  page-aligned free frontier and a reused length \<open>af\<close> that ends at a node, succeeds. Of the aligned
  slots past \<open>af\<close>, with the ones the tree had, each is owned by the tree or returned to be freed,
  once. The length it returns is the longest prefix cached before. The tree then caches what it
  cached before and every page-aligned prefix of the request, and an outstanding handle keeps its
  tokens, its slots and a live trailing window.\<close>

theorem swa_insert_accounts:
  assumes "swa_init ps w uuid tic = Inr t" and "0 < ps" and "radix_swa_step\<^sup>*\<^sup>* (t, {#}) (s, H)"
    and "length ids \<le> length kv" and "psize s dvd ev" and "ends_at s ids af"
  shows "\<exists>s' k fr. swa_insert ids kv ev af s = Inr (s', k, fr) \<and>
    owned s' + mset fr = owned s + mset (drop af (take (align_down_nat (length ids) (psize s)) kv)) \<and>
    (\<exists>us. cached s (take k ids) us) \<and>
    (\<forall>ts vs. cached s ts vs \<and> prefix ts (take (align_down_nat (length ids) (psize s)) ids) \<longrightarrow> length ts \<le> k) \<and>
    (\<forall>ts. (\<exists>vs. cached s' ts vs) \<longleftrightarrow> (\<exists>vs. cached s ts vs) \<or>
       psize s dvd length ts \<and> prefix ts (take (align_down_nat (length ids) (psize s)) ids)) \<and>
    (\<forall>h \<in># H. toks s' (fst h) = toks s (fst h) \<and> vals s' (fst h) = vals s (fst h) \<and> win_ok (swa_window s) (flags s' (fst h)))"
proof -
  have i: "swa_inv s H" by (rule swa_reach_inv [OF assms(1-3)])
  let ?il = "align_down_nat (length ids) (psize s)"
  obtain q where q: "q \<in> live s" "toks s q = take af ids" "af \<le> ?il" using assms(6) by (auto simp: ends_at_def)
  obtain s' k fr m where r: "swa_insert ids kv ev af s = Inr (s', k, fr)" "merged H s (drop af (take ?il kv)) fr s'"
    "m \<in> live s'" "toks s' m = take ?il ids" "\<exists>us. cached s (take k ids) us"
    "\<And>ts vs. cached s ts vs \<Longrightarrow> prefix ts (take ?il ids) \<Longrightarrow> length ts \<le> k"
    "\<And>ts vs. cached s' ts vs \<Longrightarrow> (\<exists>us. cached s ts us) \<or> prefix ts (take ?il ids)"
    by (rule swa_insert_ok [OF i assms(4,5) q]) blast
  note M = mergedD [OF r(2)]
  have c: "(\<exists>vs. cached s' ts vs) \<longleftrightarrow> (\<exists>vs. cached s ts vs) \<or> psize s dvd length ts \<and> prefix ts (take ?il ids)" for ts
  proof
    assume "\<exists>vs. cached s' ts vs"
    then obtain vs where v: "cached s' ts vs" by blast
    then have "psize s dvd length ts" using M(4) by (auto simp: cached_def)
    then show "(\<exists>vs. cached s ts vs) \<or> psize s dvd length ts \<and> prefix ts (take ?il ids)" using r(7) [OF v] by blast
  next
    assume "(\<exists>vs. cached s ts vs) \<or> psize s dvd length ts \<and> prefix ts (take ?il ids)"
    then show "\<exists>vs. cached s' ts vs"
    proof
      assume "psize s dvd length ts \<and> prefix ts (take ?il ids)"
      then have "cached s' ts (take (length ts) (vals s' m))" unfolding cached_def using r(3,4) M(4) by (intro bexI [of _ m]) auto
      then show ?thesis by blast
    qed (use merged_cached [OF r(2)] in blast)
  qed
  have "toks s' (fst h) = toks s (fst h) \<and> vals s' (fst h) = vals s (fst h) \<and> win_ok (swa_window s) (flags s' (fst h))"
    if h: "h \<in># H" for h
    using M(6) [OF swa_invD(7) [OF i h]] M(7) [OF h] hand_win [OF M(1) h] M(5) by simp
  moreover have "\<forall>ts vs. cached s ts vs \<and> prefix ts (take ?il ids) \<longrightarrow> length ts \<le> k" using r(6) by blast
  moreover have "owned s' + mset fr = owned s + mset (drop af (take ?il kv))" using M(8) by simp
  ultimately show ?thesis using r(1,5) c by (intro exI [of _ s'] exI [of _ k] exI [of _ fr]) simp
qed

section \<open>A concrete run\<close>

text \<open>
  A window of two tokens, pages of one: a prefix of two tokens, locked with its whole window, and
  a longer one that reuses it.
\<close>

lemmas swa_run_simps = swa_init_def swa_insert_def swa_reconcile_def swa_add_child_def swa_tick_def swa_match_def stamp_path_def
  swa_inc_lock_def evict_swa_def swa_nodes_def cascade_swa_tombstone_leaves_def covers_def add_run_def event_stride_def
  up_path_def get_child_def is_root_def is_leaf_def node_len_def key_fn_def add_leaf_def alloc_def set_key_value_def set_parent_def
  upd_def split_at_def unlink_def align_down_nat_def dfs_def heappop_def new_node_def Let_def eval_nat_numeral and_then_def

definition swa_demo :: "err + (nat \<times> nat \<times> slot list \<times> nat option \<times> (slot list \<times> slot list) \<times> nat \<times> slot list)" where
  "swa_demo =
     and_then (swa_init 1 2 0 0) (\<lambda>t.
     and_then (swa_insert [7, 8] [1, 2] 0 0 t) (\<lambda>(s1, _, _).
     and_then (swa_insert [7, 8, 6] [3, 4, 5] 0 0 s1) (\<lambda>(s2, _, _).
     and_then (swa_match [7, 8] s2) (\<lambda>(s3, kv, l, n).
     and_then (swa_inc_lock n s3) (\<lambda>(s4, u).
     and_then (evict_swa 9 s4) (\<lambda>(s5, kvs, sws).
     and_then (swa_insert [7, 8, 5] [6, 9, 10] 1 0 s4) (\<lambda>(s6, k, fr).
     Inr (psize s4, l, kv, u, (kvs, sws), k, fr))))))))"

lemma swa_demo_eval: "swa_demo = Inr (1, 2, [1, 2], Some 1, ([5], [5]), 2, [6, 9])"
  by (simp add: swa_demo_def swa_run_simps)

lemma ends_at_zero: "swa_inv s H \<Longrightarrow> ends_at s ids 0"
  using swa_invD(1) [of s H] by (auto simp: ends_at_def tree_wf_def tree_inv_def intro!: bexI [OF _ live.root])

lemma swa_demo_reach:
  obtains t s s3 n s4 where "swa_init 1 2 0 0 = Inr t" "radix_swa_step\<^sup>*\<^sup>* (t, {#}) (s, {#})"
    "swa_match [7, 8] s = Inr (s3, [1, 2], 2, n)" "swa_inc_lock n s3 = Inr (s4, Some 1)"
    "radix_swa_step\<^sup>*\<^sup>* (t, {#}) (s4, {#(n, Some 1)#})" "\<And>ids. ends_at s4 ids 0" "\<exists>s5. evict_swa 9 s4 = Inr (s5, [5], [5])"
    "\<exists>s6. swa_insert [7, 8, 5] [6, 9, 10] 1 0 s4 = Inr (s6, 2, [6, 9])" "psize s4 = 1"
proof -
  obtain t s1 k1 f1 s2 k2 f2 s3 n s4 s5 s6 where r: "swa_init 1 2 0 0 = Inr t"
    "swa_insert [7, 8] [1, 2] 0 0 t = Inr (s1, k1, f1)" "swa_insert [7, 8, 6] [3, 4, 5] 0 0 s1 = Inr (s2, k2, f2)"
    "swa_match [7, 8] s2 = Inr (s3, [1, 2], 2, n)" "swa_inc_lock n s3 = Inr (s4, Some 1)"
    "evict_swa 9 s4 = Inr (s5, [5], [5])" "swa_insert [7, 8, 5] [6, 9, 10] 1 0 s4 = Inr (s6, 2, [6, 9])" "psize s4 = 1"
    using swa_demo_eval unfolding swa_demo_def and_then_eq_Inr by (force simp: and_then_eq_Inr split: prod.splits)
  note i0 = swa_init_inv [OF r(1)]
  have st: "radix_swa_step (t, {#}) (s1, {#})" by (rule radix_swa_step.insert [OF r(2)]) (use ends_at_zero i0 in auto)
  have i1: "swa_inv s1 {#}" using radix_swa_step_inv [OF st] i0 by simp
  have "radix_swa_step (s1, {#}) (s2, {#})" by (rule radix_swa_step.insert [OF r(3)]) (use ends_at_zero i1 in auto)
  with st have a: "radix_swa_step\<^sup>*\<^sup>* (t, {#}) (s2, {#})" by (meson rtranclp.simps)
  moreover have "radix_swa_step (s2, {#}) (s4, {#(n, Some 1)#})" by (rule radix_swa_step.lock [OF r(4,5)])
  ultimately have b: "radix_swa_step\<^sup>*\<^sup>* (t, {#}) (s4, {#(n, Some 1)#})" by (rule rtranclp.rtrancl_into_rtrancl)
  have "swa_inv s4 {#(n, Some 1)#}" by (rule swa_reach_inv [OF r(1) _ b]) simp
  then have "ends_at s4 ids 0" for ids by (rule ends_at_zero)
  then show ?thesis using that [OF r(1) a r(4,5) b] r(6,7,8) by blast
qed

theorem swa_match_longest_witness:
  "\<exists>s s' n. swa_match [7, 8] s = Inr (s', [1, 2], 2, n) \<and> cached s [7, 8] [1, 2] \<and> reusable s [7, 8] \<and> owned s' = owned s"
proof (rule swa_demo_reach)
  fix t s s3 n s4
  assume a: "swa_init 1 2 0 0 = Inr t" "radix_swa_step\<^sup>*\<^sup>* (t, {#}) (s, {#})" "swa_match [7, 8] s = Inr (s3, [1, 2], 2, n)"
  show ?thesis
    using swa_match_longest [OF a(1) _ a(2), of "[7, 8]"] a(3)
    by (intro exI [of _ s] exI [of _ s3] exI [of _ n]) auto
qed


theorem swa_evict_safe_witness:
  "\<exists>s s' h. evict_swa 9 s = Inr (s', [5], [5]) \<and> owned s = {#5#} + owned s' \<and> h \<in> live s' \<and> vals s' h = vals s h \<and>
     win_ok (swa_window s) (flags s' h)"
proof (rule swa_demo_reach)
  fix t s s3 n s4
  assume a: "swa_init 1 2 0 0 = Inr t" "radix_swa_step\<^sup>*\<^sup>* (t, {#}) (s4, {#(n, Some 1)#})" "\<exists>s5. evict_swa 9 s4 = Inr (s5, [5], [5])"
  then obtain s5 where e: "evict_swa 9 s4 = Inr (s5, [5], [5])" by blast
  show ?thesis
    using swa_evict_safe [OF a(1) _ a(2), of 9 s5 "[5]" "[5]" "[]"] e
    by (intro exI [of _ s4] exI [of _ s5] exI [of _ n]) auto
qed

theorem swa_insert_accounts_witness:
  "\<exists>s s' h. swa_insert [7, 8, 5] [6, 9, 10] 1 0 s = Inr (s', 2, [6, 9]) \<and> owned s' = owned s + {#10#} \<and>
     (\<exists>vs. cached s' [7, 8, 5] vs) \<and> vals s' h = vals s h \<and> win_ok (swa_window s) (flags s' h)"
proof (rule swa_demo_reach)
  fix t s s3 n s4
  assume a: "swa_init 1 2 0 0 = Inr t" "radix_swa_step\<^sup>*\<^sup>* (t, {#}) (s4, {#(n, Some 1)#})" "\<And>ids. ends_at s4 ids 0"
    "\<exists>s6. swa_insert [7, 8, 5] [6, 9, 10] 1 0 s4 = Inr (s6, 2, [6, 9])" "psize s4 = 1"
  then obtain s6 where e: "swa_insert [7, 8, 5] [6, 9, 10] 1 0 s4 = Inr (s6, 2, [6, 9])" by blast
  show ?thesis
    using swa_insert_accounts [OF a(1) _ a(2) _ _ a(3) [of "[7, 8, 5]"], of "[6, 9, 10]" 1] e a(5)
    by (intro exI [of _ s4] exI [of _ s6] exI [of _ n]) (auto simp: align_down_nat_def)
qed

end
