(* ===== verification/Expert_Cache.thy ===== *)
theory Expert_Cache
  imports Prelude Python_Numbers "HOL-Library.Product_Lexorder"
begin

text \<open>
  The expert offload cache: \<^verbatim>\<open>OffloadMoeCache\<close> of \<^verbatim>\<open>python/freetoken/moe/offload_cache.py\<close> and the
  slot kernels of \<^verbatim>\<open>python/freetoken/moe/offload_kernels.py\<close>. The experts of all layers live in host
  banks; a fixed number of GPU slots holds rows of them. \<open>slot_for_id\<close> maps a flat expert id
  (\<open>layer * num_experts + expert\<close>) to its slot, \<open>id_of_slot\<close> back, with -1 for none, as in the source.
  A row of a bank is an opaque value (type \<open>'r\<close>). Tensors are lists, a masked vector store of a kernel
  is a fold over its lanes. Both the CPU mirror of the capped-fetch kernel and the GPU kernel itself
  are modelled.
\<close>

section \<open>State\<close>

text \<open>The four tables that a slot cache works on, and the staged copies.\<close>

record lru =
  slot_for_id :: "int list"
  id_of_slot :: "int list"
  usage :: "int list"
  lru_step :: int
  evict_slots :: "int list"
  src_indices :: "int list"
  num_indices :: int

record hstats =
  hs_missing :: int
  hs_active :: int
  hs_fetched :: int
  hs_calls :: int

text \<open>
  \<open>bank_sources\<close> and \<open>bank_caches\<close> are in the order of the bank schema. The per-layer statistics
  are \<open>layer_stats\<close>, the totals \<open>totals\<close>. \<open>buf_layer\<close> and \<open>buf_released\<close> are the state of the two
  prefill buffers, \<open>slot_snapshot\<close> the copy of \<open>slot_for_id\<close> taken when a prefill begins.
\<close>

record 'r ecache = lru +
  num_layers :: nat
  num_experts :: nat
  cache_size :: nat
  quant_format :: string
  decode_target :: string
  prefill_overlap :: bool
  prefill_hit_d2d :: bool
  active_mask :: "int list"
  num_missing_full :: int
  expert_recency :: "int list"
  bank_sources :: "'r list list list"
  bank_caches :: "'r list list"
  bank_bytes :: "nat list"
  alphas :: "('r list \<times> 'r list) option"
  pending_src_layer :: "nat option"
  buf_layer :: "nat option list"
  buf_released :: "bool list"
  slot_snapshot :: "int list"
  hit_active :: bool
  prefill_hit_rows :: int
  prefill_total_rows :: int
  totals :: hstats
  layer_stats :: "hstats list"
  cpu_layer_ids :: "nat set"

definition no_stats :: hstats where
  "no_stats = \<lparr>hs_missing = 0, hs_active = 0, hs_fetched = 0, hs_calls = 0\<rparr>"

text \<open>\<open>_BANK_SCHEMAS\<close> and \<open>MARLIN_MAX_CACHE_SIZE\<close>.\<close>

definition bank_schemas :: "(string \<times> string list) list" where
  "bank_schemas =
     [(''bf16'', [''gate_up'', ''down'']),
      (''fp8_block'', [''gate_up'', ''gate_up_scale'', ''down'', ''down_scale'']),
      (''q4_0'', [''gate_up'', ''down'']),
      (''nvfp4'', [''gate_up_packed'', ''gate_up_scale'', ''gate_up_global'',
                   ''down_packed'', ''down_scale'', ''down_global'']),
      (''nvfp4_marlin'', [''gate_up_packed'', ''gate_up_scale'', ''down_packed'', ''down_scale'']),
      (''nvfp4_b12x'', [''gate_up_packed'', ''gate_up_scale'', ''down_packed'', ''down_scale'']),
      (''mxfp4_triton'', [''gate_up_blocks'', ''gate_up_scales'', ''gate_up_bias'',
                          ''down_blocks'', ''down_scales'', ''down_bias'']),
      (''ds_fp4'', [''gate_up_packed'', ''gate_up_scale'', ''down_packed'', ''down_scale''])]"

definition marlin_max_cache_size :: nat where
  "marlin_max_cache_size = 992"

definition small_bank_feat_bytes :: nat where
  "small_bank_feat_bytes = 256 * 1024"

section \<open>Construction\<close>

definition ec_validate_rebuild :: "nat \<Rightarrow> string \<Rightarrow> nat \<Rightarrow> err + unit" where
  "ec_validate_rebuild experts fmt slots =
     (if slots < experts then Inl ValueError
      else if fmt = ''nvfp4_marlin'' \<and> marlin_max_cache_size < slots then Inl ValueError
      else Inr ())"

text \<open>
  \<open>__post_init__\<close>. The tensors made by \<open>torch.empty\<close> start with an arbitrary value \<open>junk\<close>.
\<close>

definition ec_init ::
  "nat \<Rightarrow> nat \<Rightarrow> nat \<Rightarrow> string \<Rightarrow> bool \<Rightarrow> bool \<Rightarrow> string \<Rightarrow> string \<Rightarrow> int \<Rightarrow> err + 'r ecache" where
  "ec_init layers experts slots policy overlap hit_d2d fmt target junk =
     (if policy \<noteq> ''lru'' then Inl AssertionError
      else if target \<notin> {''gpu'', ''cpu'', ''hybrid''} then Inl AssertionError
      else if map_of bank_schemas fmt = None then Inl AssertionError
      else and_then (ec_validate_rebuild experts fmt slots) (\<lambda>_.
      if overlap \<and> slots < 2 * experts then Inl AssertionError
      else Inr \<lparr>slot_for_id = replicate (layers * experts) (-1), id_of_slot = replicate slots (-1),
                usage = replicate slots 0, lru_step = 0, evict_slots = replicate experts junk,
                src_indices = replicate experts junk, num_indices = 0,
                num_layers = layers, num_experts = experts, cache_size = slots, quant_format = fmt,
                decode_target = target, prefill_overlap = overlap, prefill_hit_d2d = hit_d2d,
                active_mask = replicate experts 0, num_missing_full = 0,
                expert_recency = replicate (layers * experts) (-1),
                bank_sources = [], bank_caches = [], bank_bytes = [], alphas = None, pending_src_layer = None,
                buf_layer = [None, None], buf_released = [True, True], slot_snapshot = [],
                hit_active = False, prefill_hit_rows = 0, prefill_total_rows = 0,
                totals = no_stats, layer_stats = replicate layers no_stats, cpu_layer_ids = {}\<rparr>))"

text \<open>
  A host bank of one layer, with the attributes that \<open>set_bank_sources\<close> checks. \<open>bk_bytes\<close> is
  the number of bytes of a row (\<open>prod(shape[1:]) * element_size()\<close>).
\<close>

record 'r bank =
  bk_rows :: "'r list"
  bk_shape :: "nat list"
  bk_dtype :: string
  bk_bytes :: nat
  bk_contiguous :: bool

definition init_prefill_buffers :: "'r ecache \<Rightarrow> 'r ecache" where
  "init_prefill_buffers s =
     s\<lparr>buf_layer := [None, None], buf_released := [True, True]\<rparr>"

text \<open>The checks on the layers of one bank and the slot cache it gets; \<open>blank\<close> is what \<open>torch.empty\<close> holds.\<close>

definition check_bank :: "nat \<Rightarrow> nat \<Rightarrow> 'r bank list \<Rightarrow> err + unit" where
  "check_bank layers experts bs =
     (if length bs \<noteq> layers then Inl AssertionError
      else case bs of [] \<Rightarrow> Inl IndexError
      | h # _ \<Rightarrow>
         check (\<forall>b \<in> set bs. bk_contiguous b \<and> length (bk_rows b) = experts \<and>
                  bk_shape b = bk_shape h \<and> bk_dtype b = bk_dtype h) AssertionError)"

definition set_bank_sources ::
  "'r \<Rightarrow> (string \<times> 'r bank list) list \<Rightarrow> string list option \<Rightarrow> 'r ecache \<Rightarrow> err + 'r ecache" where
  "set_bank_sources blank sources residency s =
     (case map_of bank_schemas (quant_format s) of
        None \<Rightarrow> Inl KeyError
      | Some schema \<Rightarrow>
     (if fst ` set sources \<noteq> set schema then Inl AssertionError
      else
        (let res = (case residency of None \<Rightarrow> replicate (num_layers s) ''pinned''
                    | Some r \<Rightarrow> if r = [] then replicate (num_layers s) ''pinned'' else r) in
         if length res \<noteq> num_layers s then Inl AssertionError
         else if \<exists>r \<in> set res. r \<noteq> ''pinned'' then Inl NotImplementedError
         else
           and_then (map_err (\<lambda>n. and_then (check_bank (num_layers s) (num_experts s) (the (map_of sources n)))
                                 (\<lambda>_. Inr (the (map_of sources n)))) schema) (\<lambda>banks.
           let s1 = s\<lparr>bank_sources := map (map bk_rows) banks,
                      bank_caches := map (\<lambda>_. replicate (cache_size s) blank) banks,
                      bank_bytes := map (\<lambda>bs. bk_bytes (hd bs)) banks\<rparr> in
           Inr (if prefill_overlap s1 then init_prefill_buffers s1 else s1)))))"

definition reset_tables :: "'r ecache \<Rightarrow> nat \<Rightarrow> 'r ecache" where
  "reset_tables s slots =
     s\<lparr>slot_for_id := replicate (num_layers s * num_experts s) (-1), id_of_slot := replicate slots (-1),
       usage := replicate slots 0, lru_step := 0, active_mask := replicate (num_experts s) 0, num_indices := 0\<rparr>"

definition ec_rebuild :: "'r \<Rightarrow> nat \<Rightarrow> 'r ecache \<Rightarrow> err + 'r ecache" where
  "ec_rebuild blank slots s =
     (if bank_sources s = [] then Inl AssertionError
      else and_then (ec_validate_rebuild (num_experts s) (quant_format s) slots) (\<lambda>_.
       let s1 = (reset_tables s slots)\<lparr>
                  buf_layer := [None, None], buf_released := [True, True], cache_size := slots,
                  bank_caches := map (\<lambda>_. replicate slots blank) (bank_sources s),
                  num_missing_full := 0, expert_recency := replicate (num_layers s * num_experts s) (-1),
                  prefill_hit_rows := 0, prefill_total_rows := 0, totals := no_stats,
                  layer_stats := replicate (num_layers s) no_stats\<rparr>;
           s2 = (if prefill_overlap s1 \<and> slots < 2 * num_experts s1 then s1\<lparr>prefill_overlap := False\<rparr> else s1) in
       Inr (if prefill_overlap s2 then init_prefill_buffers s2 else s2)))"

text \<open>\<open>reset\<close>: the tables by the kernel \<open>_reset_cache_kernel\<close>, the recencies by the method itself.\<close>

definition ec_reset :: "'r ecache \<Rightarrow> 'r ecache" where
  "ec_reset s = (reset_tables s (cache_size s))\<lparr>expert_recency := replicate (num_layers s * num_experts s) (-1)\<rparr>"

text \<open>\<open>set_alphas\<close>: the per-expert scales of the pre-tiled formats, one per flat expert id.\<close>

definition set_alphas :: "'r list option \<Rightarrow> 'r list option \<Rightarrow> 'r ecache \<Rightarrow> err + 'r ecache" where
  "set_alphas gate_up down s =
     (case (gate_up, down) of
        (None, None) \<Rightarrow> Inr s
      | (Some g, Some d) \<Rightarrow>
          (if length g = num_layers s * num_experts s \<and> length d = num_layers s * num_experts s
           then Inr (s\<lparr>alphas := Some (g, d)\<rparr>) else Inl AssertionError)
      | _ \<Rightarrow> Inl AssertionError)"

text \<open>The scales per slot for a decode call, and those of a whole layer for a prefill.\<close>

definition alphas_for_slots :: "nat \<Rightarrow> 'r ecache \<Rightarrow> ('r list \<times> 'r list) option" where
  "alphas_for_slots layer s =
     (case alphas s of
        None \<Rightarrow> None
      | Some (g, d) \<Rightarrow>
          (let idx = map (\<lambda>i. layer * num_experts s + nat (max i 0) mod num_experts s) (id_of_slot s)
           in Some (map ((!) g) idx, map ((!) d) idx)))"

definition alphas_for_layer :: "nat \<Rightarrow> 'r ecache \<Rightarrow> ('r list \<times> 'r list) option" where
  "alphas_for_layer layer s =
     (case alphas s of
        None \<Rightarrow> None
      | Some (g, d) \<Rightarrow>
          (let lo = layer * num_experts s in
           Some (take (num_experts s) (drop lo g), take (num_experts s) (drop lo d))))"

section \<open>Residency for a decode step\<close>

text \<open>
  \<open>ensure_experts\<close> hands the tables to \<open>lru_ensure\<close> of the package flashlib, an argument here:
  from the id base, the requested ids and the tables it makes new tables and the rewritten ids.
\<close>

definition ensure_experts ::
  "(nat \<Rightarrow> nat list \<Rightarrow> lru \<Rightarrow> lru \<times> int list) \<Rightarrow> nat \<Rightarrow> nat list \<Rightarrow> 'r ecache \<Rightarrow> 'r ecache \<times> int list" where
  "ensure_experts lru_ensure layer ids s =
     (let (t, out) = lru_ensure (layer * num_experts s) ids (lru.truncate s) in
      (s\<lparr>pending_src_layer := Some layer, slot_for_id := slot_for_id t, id_of_slot := id_of_slot t,
         usage := usage t, lru_step := lru_step t, evict_slots := evict_slots t,
         src_indices := src_indices t, num_indices := num_indices t\<rparr>, out))"

text \<open>
  The bandwidth-matched split: of \<open>m\<close> misses fetch the neighbour of \<open>m * q / 2^16\<close> with the smaller
  cost, where \<open>q\<close> is the fetch fraction in 16-bit fixed point.
\<close>

definition q16 :: int where "q16 = 2 ^ 16"

definition fetch_cost :: "int \<Rightarrow> int \<Rightarrow> int \<Rightarrow> int" where
  "fetch_cost q m f = max (f * (q16 - q)) ((m - f) * q)"

definition balanced_fetch :: "int \<Rightarrow> int \<Rightarrow> int" where
  "balanced_fetch q m =
     (let lo = (m * q) div q16 in if fetch_cost q m lo \<le> fetch_cost q m (lo + 1) then lo else lo + 1)"

text \<open>The fixed point of a fraction.\<close>

definition frac_q16 :: "rat \<Rightarrow> int" where
  "frac_q16 fraction = min q16 (max 0 (py_round (fraction * of_int q16)))"

definition seen_of :: "nat list \<Rightarrow> nat list" where
  "seen_of ids = fold (\<lambda>e seen. if e \<in> set seen then seen else seen @ [e]) ids []"

definition touch :: "int \<Rightarrow> int list \<Rightarrow> nat list \<Rightarrow> int list \<Rightarrow> int list" where
  "touch step sf is u = fold (\<lambda>i u. if sf ! i \<noteq> -1 then u[nat (sf ! i) := step] else u) is u"

text \<open>One round of the fetch loop: the least recently used slot is taken for the next miss.\<close>

definition fetch_one :: "nat \<Rightarrow> nat \<times> nat \<Rightarrow> 'a lru_scheme \<Rightarrow> 'a lru_scheme" where
  "fetch_one base p s = (case p of (idx, expert) \<Rightarrow>
     (let victim = arg_min_list (\<lambda>c. (usage s ! c, c)) [0..<length (usage s)];
          old = id_of_slot s ! victim;
          sf = (if 0 \<le> old then (slot_for_id s)[nat old := -1] else slot_for_id s) in
      s\<lparr>id_of_slot := (id_of_slot s)[victim := int (base + expert)],
        slot_for_id := sf[base + expert := int victim],
        usage := (usage s)[victim := lru_step s],
        evict_slots := (evict_slots s)[idx := int victim],
        src_indices := (src_indices s)[idx := int expert]\<rparr>))"

text \<open>\<open>_ensure_experts_hybrid_cpu\<close>. \<open>by_recency\<close> is \<open>_HYBRID_FETCH_BY_RECENCY\<close>.\<close>

definition hybrid_missing :: "bool \<Rightarrow> nat \<Rightarrow> nat list \<Rightarrow> 'r ecache \<Rightarrow> nat list" where
  "hybrid_missing by_recency base seen s =
     (let missing = filter (\<lambda>e. slot_for_id s ! (base + e) = -1) seen in
      if by_recency then sort_key (\<lambda>e. (- (expert_recency s ! (base + e)), e)) missing else sort missing)"

definition hybrid_cap :: "int \<Rightarrow> int \<Rightarrow> int \<Rightarrow> int" where
  "hybrid_cap max_fetch q m = min m (if 0 < q then balanced_fetch q m else max_fetch)"

definition ensure_hybrid_cpu ::
  "bool \<Rightarrow> nat \<Rightarrow> nat list \<Rightarrow> int \<Rightarrow> int \<Rightarrow> 'r ecache \<Rightarrow> 'r ecache \<times> int list" where
  "ensure_hybrid_cpu by_recency layer ids max_fetch q s =
     (let base = layer * num_experts s;
          seen = seen_of ids;
          step = lru_step s + 1;
          s1 = s\<lparr>lru_step := step,
                 active_mask := fold (\<lambda>e m. m[e := 1]) seen (replicate (num_experts s) 0),
                 usage := touch step (slot_for_id s) (map ((+) base) seen) (usage s)\<rparr>;
          missing = hybrid_missing by_recency base seen s1;
          num = hybrid_cap max_fetch q (int (length missing));
          s2 = s1\<lparr>num_missing_full := int (length missing), num_indices := num\<rparr>;
          s3 = fold (fetch_one base) (enumerate 0 (take (nat num) missing)) s2;
          s4 = (if by_recency then s3\<lparr>expert_recency := fold (\<lambda>e r. r[base + e := step]) seen (expert_recency s3)\<rparr>
                else s3)
      in (s4, map (\<lambda>e. slot_for_id s4 ! (base + e)) ids))"

text \<open>\<open>OffloadMoeCache.ensure_experts_hybrid\<close> on the CPU reference.\<close>

definition ensure_experts_hybrid ::
  "bool \<Rightarrow> nat \<Rightarrow> nat list \<Rightarrow> int \<Rightarrow> rat \<Rightarrow> 'r ecache \<Rightarrow> 'r ecache \<times> int list" where
  "ensure_experts_hybrid by_recency layer ids max_fetch fraction s =
     ensure_hybrid_cpu by_recency layer ids max_fetch (frac_q16 fraction) (s\<lparr>pending_src_layer := Some layer\<rparr>)"

section \<open>The GPU kernel of the capped fetch\<close>

text \<open>
  \<open>_ensure_experts_hybrid_kernel\<close>, phase by phase, on the lanes below \<open>num_experts\<close> and
  \<open>cache_size\<close>. \<open>big\<close> is the largest 64-bit value, \<open>none\<close> the score of a lane that is not missing.
\<close>

definition big :: int where "big = 9223372036854775807"
definition none :: int where "none = - 1152921504606846976"

definition lanes :: "nat \<Rightarrow> (nat \<Rightarrow> 'b) \<Rightarrow> 'b list" where
  "lanes n f = map f [0..<n]"

definition argmin_lane :: "int list \<Rightarrow> nat" where
  "argmin_lane u = arg_min_list (\<lambda>c. u ! c) [0..<length u]"

definition argmax_lane :: "int list \<Rightarrow> nat" where
  "argmax_lane u = arg_min_list (\<lambda>c. - (u ! c)) [0..<length u]"

text \<open>
  The state of phase 2: the masked usages, the scores, and the tables in memory. \<open>oid\<close> is the
  reverse table as loaded before the loop, \<open>rank\<close> the rank of each missing lane.
\<close>

record 'a evict_regs =
  er_u :: "int list"
  er_score :: "int list"
  er_mem :: "'a lru_scheme"

definition kernel_fetch ::
  "bool \<Rightarrow> nat \<Rightarrow> nat \<Rightarrow> int list \<Rightarrow> bool list \<Rightarrow> int list \<Rightarrow> nat \<Rightarrow> 'a evict_regs \<Rightarrow> 'a evict_regs" where
  "kernel_fetch by_recency base E oid missing rank i r =
     (let victim = argmin_lane (er_u r);
          old = (\<Sum>c \<leftarrow> [0..<length oid]. if c = victim then oid ! c else 0);
          m = er_mem r;
          sf = (if 0 \<le> old then (slot_for_id m)[nat old := -1] else slot_for_id m);
          e = (if by_recency then argmax_lane (er_score r)
               else (\<Sum>o' \<leftarrow> [0..<E]. if rank ! o' = int i \<and> missing ! o' then o' else 0));
          score = (if by_recency then (er_score r)[e := none] else er_score r) in
      \<lparr>er_u = (er_u r)[victim := big], er_score = score,
       er_mem = m\<lparr>id_of_slot := (id_of_slot m)[victim := int (base + e)],
                   slot_for_id := sf[base + e := int victim],
                   usage := (usage m)[victim := lru_step m],
                   evict_slots := (evict_slots m)[i := int victim],
                   src_indices := (src_indices m)[i := int e]\<rparr>\<rparr>)"

definition ensure_hybrid_gpu ::
  "bool \<Rightarrow> nat \<Rightarrow> nat list \<Rightarrow> int \<Rightarrow> int \<Rightarrow> 'r ecache \<Rightarrow> 'r ecache \<times> int list" where
  "ensure_hybrid_gpu by_recency layer ids max_fetch q s =
     (let E = num_experts s; base = layer * E;
          step = lru_step s + 1;
          active = lanes E (\<lambda>e. e \<in> set ids);
          slot = lanes E (\<lambda>e. slot_for_id s ! (base + e));
          missing = lanes E (\<lambda>e. active ! e \<and> slot ! e = -1);
          m = (\<Sum>e \<leftarrow> [0..<E]. if missing ! e then 1 else 0);
          lo = (m * q) div q16;
          cost_lo = max (lo * (q16 - q)) ((m - lo) * q);
          cost_hi = max ((lo + 1) * (q16 - q)) ((m - lo - 1) * q);
          cap = (if 0 < q then if cost_lo \<le> cost_hi then lo else lo + 1 else max_fetch);
          num = min m cap;
          u1 = fold (\<lambda>e u. if active ! e \<and> 0 \<le> slot ! e then u[nat (slot ! e) := step] else u) [0..<E] (usage s);
          s1 = s\<lparr>lru_step := step, active_mask := lanes E (\<lambda>e. if active ! e then 1 else 0),
                 num_missing_full := m, num_indices := num, usage := u1\<rparr>;
          score = lanes E (\<lambda>e. if missing ! e then expert_recency s ! (base + e) * int E + (int E - 1 - int e) else none);
          rank = lanes E (\<lambda>e. (\<Sum>o' \<leftarrow> [0..<Suc e]. if missing ! o' then 1 else 0) - 1);
          s3 = (if 0 < num then
                  (let oid = id_of_slot s1;
                       owner = lanes (cache_size s) (\<lambda>c. \<exists>e \<in> set ids. oid ! c = int (base + e));
                       u = lanes (cache_size s) (\<lambda>c. if owner ! c then big else usage s1 ! c)
                   in er_mem (fold (kernel_fetch by_recency base E oid missing rank) [0..<nat num]
                               \<lparr>er_u = u, er_score = score, er_mem = s1\<rparr>))
                else s1);
          out = map (\<lambda>e. slot_for_id s3 ! (base + e)) ids;
          s4 = (if by_recency
                then s3\<lparr>expert_recency := fold (\<lambda>e r. if active ! e then r[base + e := step] else r) [0..<E] (expert_recency s3)\<rparr>
                else s3)
      in (s4, out))"

end
