(* ===== verification/Expert_Movement.thy ===== *)
theory Expert_Movement
  imports Expert_Cache
begin

text \<open>
  The movements of expert rows: the staged copies of a decode step (\<open>copy_missing\<close> and its checked
  variant), the materialisation of a layer, and the double buffer of a prefill, which borrows the
  first \<open>2 * num_experts\<close> slots. The source runs the prefill copies on a second CUDA stream ordered by
  events; here each copy is one atomic operation in program order.
\<close>

section \<open>A whole layer in the first slots\<close>

text \<open>\<open>_materialize_layer_kernel\<close>, store by store.\<close>

definition materialize_layer :: "nat \<Rightarrow> 'r ecache \<Rightarrow> 'r ecache" where
  "materialize_layer layer s =
     (let E = num_experts s; base = layer * E;
          oid = id_of_slot s;
          same = lanes (cache_size s) (\<lambda>c. int base \<le> oid ! c \<and> oid ! c < int (base + E));
          io1 = fold (\<lambda>c io. if same ! c then io[c := -1] else io) [0..<cache_size s] (id_of_slot s);
          us1 = fold (\<lambda>c u. if same ! c then u[c := 0] else u) [0..<cache_size s] (usage s);
          sf1 = fold (\<lambda>c sf. if 0 \<le> oid ! c \<and> \<not> same ! c then sf[nat (oid ! c) := -1] else sf) [0..<E] (slot_for_id s);
          step = lru_step s + 1 in
      s\<lparr>pending_src_layer := Some layer, lru_step := step,
        id_of_slot := fold (\<lambda>c io. io[c := int (base + c)]) [0..<E] io1,
        slot_for_id := fold (\<lambda>c sf. sf[base + c := int c]) [0..<E] sf1,
        usage := fold (\<lambda>c u. u[c := step]) [0..<E] us1,
        evict_slots := fold (\<lambda>c ev. ev[c := int c]) [0..<E] (evict_slots s),
        src_indices := fold (\<lambda>c ev. ev[c := int c]) [0..<E] (src_indices s),
        num_indices := int E\<rparr>)"

section \<open>The staged copies\<close>

definition copy_rows :: "'r list \<Rightarrow> (nat \<times> nat) list \<Rightarrow> 'r list \<Rightarrow> 'r list" where
  "copy_rows source plan cache = fold (\<lambda>(d, x) c. c[d := source ! x]) plan cache"

definition staged :: "'a lru_scheme \<Rightarrow> (nat \<times> nat) list" where
  "staged s =
     zip (map nat (take (nat (num_indices s)) (evict_slots s)))
         (map nat (take (nat (num_indices s)) (src_indices s)))"

text \<open>\<open>_safe_copy_plan\<close>: the staged copies, checked on the host.\<close>

definition safe_copy_plan :: "'r ecache \<Rightarrow> err + (nat \<times> nat) list" where
  "safe_copy_plan s =
     (if num_indices s < 0 \<or> int (num_experts s) < num_indices s then Inl ValueError
      else
        (let ds = take (nat (num_indices s)) (evict_slots s);
             xs = take (nat (num_indices s)) (src_indices s) in
         if \<exists>(d, x) \<in> set (zip ds xs). d < 0 \<or> int (cache_size s) \<le> d \<or> x < 0 \<or> int (num_experts s) \<le> x
         then Inl ValueError
         else if \<not> distinct (map fst (zip ds xs)) then Inl ValueError
         else Inr (zip (map nat ds) (map nat xs))))"

text \<open>
  \<open>copy_missing\<close>; \<open>safe\<close> is \<open>should_use_safe_offload_copy\<close>. The fused launch and the launch per bank
  have the same effect: row \<open>src_indices[i]\<close> of the pending layer goes to slot \<open>evict_slots[i]\<close> in every bank.
\<close>

definition copy_banks :: "nat \<Rightarrow> (nat \<times> nat) list \<Rightarrow> 'r ecache \<Rightarrow> 'r ecache" where
  "copy_banks layer plan s =
     s\<lparr>bank_caches := map2 (\<lambda>per_layer cache. copy_rows (per_layer ! layer) plan cache) (bank_sources s) (bank_caches s)\<rparr>"

definition copy_missing :: "bool \<Rightarrow> 'r ecache \<Rightarrow> err + 'r ecache" where
  "copy_missing safe s =
     (if bank_caches s = [] then Inl AssertionError
      else case pending_src_layer s of
        None \<Rightarrow> Inl AssertionError
      | Some layer \<Rightarrow>
          (if safe then and_then (safe_copy_plan s) (\<lambda>plan. Inr (copy_banks layer plan s))
           else Inr (copy_banks layer (staged s) s)))"

text \<open>\<open>bank_views\<close>: the slot cache of every bank, or its first \<open>n\<close> slots.\<close>

definition bank_views :: "nat option \<Rightarrow> 'r ecache \<Rightarrow> err + 'r list list" where
  "bank_views n s =
     (if bank_caches s = [] then Inl AssertionError
      else Inr (case n of None \<Rightarrow> bank_caches s | Some k \<Rightarrow> map (take k) (bank_caches s)))"

section \<open>The prefill buffers\<close>

definition fill_slice :: "nat \<Rightarrow> nat \<Rightarrow> 'b \<Rightarrow> 'b list \<Rightarrow> 'b list" where
  "fill_slice a n v xs = take a xs @ replicate n v @ drop (a + n) xs"

definition put_slice :: "nat \<Rightarrow> 'b list \<Rightarrow> 'b list \<Rightarrow> 'b list" where
  "put_slice a ys xs = take a xs @ ys @ drop (a + length ys) xs"

definition invalidate_prefill_buffer :: "nat \<Rightarrow> 'r ecache \<Rightarrow> 'r ecache" where
  "invalidate_prefill_buffer b s =
     (let E = num_experts s; a = b * E;
          old_ids = take E (drop a (id_of_slot s)) in
      s\<lparr>slot_for_id := fold (\<lambda>i sf. if 0 \<le> i then sf[nat i := -1] else sf) old_ids (slot_for_id s),
        id_of_slot := fill_slice a E (-1) (id_of_slot s), usage := fill_slice a E 0 (usage s)\<rparr>)"

text \<open>
  \<open>avail\<close> stands for the parts of \<open>_hit_d2d_usable\<close> that depend on the platform: the copy stream,
  the fused copy plan and the batched copy.
\<close>

definition hit_d2d_usable :: "bool \<Rightarrow> 'r ecache \<Rightarrow> bool" where
  "hit_d2d_usable avail s \<longleftrightarrow> avail \<and> 2 * num_experts s < cache_size s"

definition begin_prefill :: "bool \<Rightarrow> 'r ecache \<Rightarrow> 'r ecache" where
  "begin_prefill avail s =
     (if \<not> prefill_overlap s then s
      else
        (let act = prefill_hit_d2d s \<and> hit_d2d_usable avail s;
             s1 = s\<lparr>buf_layer := [None, None], buf_released := [True, True], hit_active := act\<rparr> in
         if act then s1\<lparr>slot_snapshot := slot_for_id s\<rparr> else s1))"

text \<open>The coalesced runs of the missing experts, as the numpy expressions of \<open>_prefetch_split\<close> build them.\<close>

definition run_starts :: "nat list \<Rightarrow> nat list" where
  "run_starts miss = 0 # map Suc (filter (\<lambda>i. miss ! Suc i \<noteq> miss ! i + 1) [0..<length miss - 1])"

definition miss_runs :: "nat list \<Rightarrow> (nat \<times> nat) list" where
  "miss_runs miss =
     (if miss = [] then []
      else zip (map ((!) miss) (run_starts miss))
               (map2 (-) (tl (run_starts miss) @ [length miss]) (run_starts miss)))"

text \<open>
  The entries of the batched copy for one bank: destination slot, source row, number of rows. The
  source multiplies them by the row size in bytes. A small bank is one entry for the whole layer.
\<close>

definition copy_entries :: "nat \<Rightarrow> nat \<Rightarrow> nat list \<Rightarrow> nat \<Rightarrow> (nat \<times> nat \<times> nat) list" where
  "copy_entries b E miss bytes =
     (if bytes < small_bank_feat_bytes then [(b * E, 0, E)]
      else map (\<lambda>(st, n). (b * E + st, st, n)) (miss_runs miss))"

definition batch_copy :: "'r list \<Rightarrow> (nat \<times> nat \<times> nat) list \<Rightarrow> 'r list \<Rightarrow> 'r list" where
  "batch_copy source es cache = fold (\<lambda>(d, x, n) c. put_slice d (take n (drop x source)) c) es cache"

text \<open>\<open>_prefill_hit_compact_kernel\<close> on the live map, and the gather it feeds for the large banks.\<close>

definition hit_compact :: "nat \<Rightarrow> nat \<Rightarrow> 'r ecache \<Rightarrow> (nat \<times> nat) list" where
  "hit_compact layer b s =
     (let E = num_experts s in
      map (\<lambda>e. (b * E + e, nat (slot_for_id s ! (layer * E + e))))
        (filter (\<lambda>e. int (2 * E) \<le> slot_for_id s ! (layer * E + e)) [0..<E]))"

definition gather_hits :: "(nat \<times> nat) list \<Rightarrow> nat \<Rightarrow> 'r list \<Rightarrow> 'r list" where
  "gather_hits plan bytes cache =
     (if bytes < small_bank_feat_bytes then cache else copy_rows cache plan cache)"

definition prefetch_split :: "nat \<Rightarrow> nat \<Rightarrow> 'r ecache \<Rightarrow> 'r ecache" where
  "prefetch_split layer b s =
     (let E = num_experts s;
          hit = lanes E (\<lambda>e. int (2 * E) \<le> slot_snapshot s ! (layer * E + e));
          s1 = s\<lparr>prefill_hit_rows := prefill_hit_rows s + int (length (filter id hit)),
                 prefill_total_rows := prefill_total_rows s + int E,
                 bank_caches := map2 (gather_hits (hit_compact layer b s)) (bank_bytes s) (bank_caches s)\<rparr>;
          miss = filter (\<lambda>e. \<not> hit ! e) [0..<E];
          s2 = invalidate_prefill_buffer b s1 in
      s2\<lparr>bank_caches := map2 (\<lambda>(per_layer, bytes) cache.
                                 batch_copy (per_layer ! layer) (copy_entries b E miss bytes) cache)
                            (zip (bank_sources s2) (bank_bytes s2)) (bank_caches s2)\<rparr>)"

definition full_copy :: "nat \<Rightarrow> nat \<Rightarrow> 'r ecache \<Rightarrow> 'r ecache" where
  "full_copy layer b s =
     (let s1 = invalidate_prefill_buffer b s in
      s1\<lparr>bank_caches := map2 (\<lambda>per_layer cache. put_slice (b * num_experts s) (per_layer ! layer) cache)
                            (bank_sources s1) (bank_caches s1)\<rparr>)"

definition prefetch_prefill_layer :: "int \<Rightarrow> 'r ecache \<Rightarrow> err + 'r ecache" where
  "prefetch_prefill_layer layer s =
     (if \<not> prefill_overlap s \<or> int (num_layers s) \<le> layer then Inr s
      else if layer < 0 then Inl ValueError
      else if bank_caches s = [] then Inl AssertionError
      else
        (let l = nat layer; b = l mod 2 in
         if buf_layer s ! b = Some l then Inr s
         else if buf_layer s ! b \<noteq> None \<and> \<not> buf_released s ! b then Inl AssertionError
         else
           (let s1 = (if hit_active s then prefetch_split l b s else full_copy l b s) in
            Inr (s1\<lparr>buf_layer := (buf_layer s1)[b := Some l], buf_released := (buf_released s1)[b := False]\<rparr>))))"

definition wait_prefill_layer :: "nat \<Rightarrow> 'r ecache \<Rightarrow> err + ('r ecache \<times> 'r list list)" where
  "wait_prefill_layer layer s =
     (if \<not> prefill_overlap s \<or> bank_caches s = [] then Inl AssertionError
      else and_then (prefetch_prefill_layer (int layer) s) (\<lambda>s1.
        (let b = layer mod 2; E = num_experts s1 in
         if buf_layer s1 ! b \<noteq> Some layer then Inl AssertionError
         else Inr (s1, map (\<lambda>c. take E (drop (b * E) c)) (bank_caches s1)))))"

definition release_prefill_layer :: "nat \<Rightarrow> 'r ecache \<Rightarrow> 'r ecache" where
  "release_prefill_layer layer s =
     (let b = layer mod 2 in
      if \<not> prefill_overlap s \<or> buf_layer s ! b \<noteq> Some layer then s
      else s\<lparr>buf_released := (buf_released s)[b := True]\<rparr>)"

section \<open>Statistics\<close>

definition add_stats :: "int \<Rightarrow> int \<Rightarrow> int \<Rightarrow> hstats \<Rightarrow> hstats" where
  "add_stats missing fetched active h =
     \<lparr>hs_missing = hs_missing h + missing, hs_active = hs_active h + active,
      hs_fetched = hs_fetched h + fetched, hs_calls = hs_calls h + 1\<rparr>"

definition record_decode_stats_hybrid :: "int \<Rightarrow> 'r ecache \<Rightarrow> err + 'r ecache" where
  "record_decode_stats_hybrid layer s =
     (if \<not> (0 \<le> layer \<and> layer < int (num_layers s)) then Inl AssertionError
      else
        (let f = add_stats (num_missing_full s) (num_indices s) (sum_list (active_mask s)) in
         Inr (s\<lparr>totals := f (totals s), layer_stats := (layer_stats s)[nat layer := f (layer_stats s ! nat layer)]\<rparr>)))"

definition reset_stats :: "'r ecache \<Rightarrow> 'r ecache" where
  "reset_stats s =
     s\<lparr>prefill_hit_rows := 0, prefill_total_rows := 0, totals := no_stats,
       layer_stats := map (\<lambda>_. no_stats) (layer_stats s)\<rparr>"

end
