(* ===== verification/Expert_Invariant.thy ===== *)
theory Expert_Invariant
  imports Expert_Movement
begin

text \<open>
  The invariant of the slot tables: the two maps are inverse to each other where they are defined, no
  slot was used after the current step, and every table has its size. The capped fetch keeps it, takes
  only slots that no requested expert occupies, and among them the least recently used ones.
\<close>

section \<open>Tables\<close>

definition tables_ok :: "nat \<Rightarrow> nat \<Rightarrow> 'a lru_scheme \<Rightarrow> bool" where
  "tables_ok n m t \<longleftrightarrow>
     length (slot_for_id t) = n \<and> length (id_of_slot t) = m \<and> length (usage t) = m \<and> 0 \<le> lru_step t \<and>
     (\<forall>i < n. slot_for_id t ! i = -1 \<or> (\<exists>c < m. slot_for_id t ! i = int c \<and> id_of_slot t ! c = int i)) \<and>
     (\<forall>c < m. id_of_slot t ! c = -1 \<or> (\<exists>i < n. id_of_slot t ! c = int i \<and> slot_for_id t ! i = int c)) \<and>
     (\<forall>c < m. 0 \<le> usage t ! c \<and> usage t ! c \<le> lru_step t)"

lemma tables_okD:
  assumes "tables_ok n m t"
  shows "length (slot_for_id t) = n" "length (id_of_slot t) = m" "length (usage t) = m" "0 \<le> lru_step t"
    and "i < n \<Longrightarrow> slot_for_id t ! i = -1 \<or> (\<exists>c < m. slot_for_id t ! i = int c \<and> id_of_slot t ! c = int i)"
    and "c < m \<Longrightarrow> id_of_slot t ! c = -1 \<or> (\<exists>i < n. id_of_slot t ! c = int i \<and> slot_for_id t ! i = int c)"
    and "c < m \<Longrightarrow> 0 \<le> usage t ! c" "c < m \<Longrightarrow> usage t ! c \<le> lru_step t"
  using assms unfolding tables_ok_def by blast+

lemma slot_iff:
  assumes "tables_ok n m t" and "i < n" and "c < m"
  shows "slot_for_id t ! i = int c \<longleftrightarrow> id_of_slot t ! c = int i"
  using tables_okD(5) [OF assms(1,2)] tables_okD(6) [OF assms(1,3)] by fastforce

lemma slot_cases:
  assumes "tables_ok n m t" and "i < n"
  obtains "slot_for_id t ! i = -1" | c where "c < m" "slot_for_id t ! i = int c" "id_of_slot t ! c = int i"
  using tables_okD(5) [OF assms] by blast

section \<open>The least recently used slot\<close>

lemma arg_min_list_first:
  assumes "xs \<noteq> []"
  shows "arg_min_list f xs \<in> set xs" and "\<And>x. x \<in> set xs \<Longrightarrow> f (arg_min_list f xs) \<le> (f x :: 'b::linorder)"
  using assms arg_min_list_in [of xs f] f_arg_min_list_f [of xs f] by auto

lemma arg_min_upt_least:
  fixes f :: "nat \<Rightarrow> 'b::linorder"
  assumes "c < arg_min_list f [k..<n]" and "k \<le> c" and "k < n"
  shows "f (arg_min_list f [k..<n]) < f c"
  using assms
proof (induction "n - k" arbitrary: k)
  case (Suc d)
  show ?case
  proof (cases "Suc k < n")
    case True
    let ?m = "arg_min_list f [Suc k..<n]"
    have u: "[k..<n] = k # Suc k # [Suc (Suc k)..<n]" "[Suc k..<n] = Suc k # [Suc (Suc k)..<n]"
      using True by (simp_all add: upt_conv_Cons)
    have e: "arg_min_list f [k..<n] = (if f k \<le> f ?m then k else ?m)"
      unfolding u by (simp add: Let_def)
    show ?thesis
    proof (cases "f k \<le> f ?m")
      case True
      then show ?thesis using e Suc.prems by simp
    next
      case False
      then show ?thesis
        using e Suc.prems Suc.hyps(1) [of "Suc k"] Suc.hyps(2) True
        by (cases "c = k") auto
    qed
  next
    case False
    then have "[k..<n] = [k]" using Suc.prems by (simp add: upt_conv_Cons)
    then show ?thesis using Suc.prems by simp
  qed
qed simp

lemma arg_min_upt:
  fixes f :: "nat \<Rightarrow> 'b::linorder"
  assumes "0 < n"
  shows "arg_min_list f [0..<n] < n" "c < n \<Longrightarrow> f (arg_min_list f [0..<n]) \<le> f c"
    "c < arg_min_list f [0..<n] \<Longrightarrow> f (arg_min_list f [0..<n]) < f c"
  using arg_min_list_first [where xs = "[0..<n]" and f = f] arg_min_upt_least [where c = c and f = f and k = 0 and n = n] assms by auto

lemma arg_min_upt_unique:
  fixes f :: "nat \<Rightarrow> 'b::linorder"
  assumes "v < n" and "\<And>c. c < n \<Longrightarrow> f v \<le> f c" and "\<And>c. c < v \<Longrightarrow> f v < f c"
  shows "arg_min_list f [0..<n] = v"
proof -
  let ?a = "arg_min_list f [0..<n]"
  note a = arg_min_upt [where n = n and f = f]
  have "0 < n" using assms(1) by simp
  then have "f ?a \<le> f v" "f v \<le> f ?a" using a(1) a(2) [of v] assms(1,2) by auto
  then have "\<not> ?a < v" "\<not> v < ?a" using assms(3) [of ?a] a(3) [of v] \<open>0 < n\<close> by auto
  then show ?thesis by simp
qed

section \<open>One fetch\<close>

text \<open>
  Between the first stamp of a step and its end, the slots stamped with the step are those of the
  requested ids \<open>A\<close>.
\<close>

definition hot_ok :: "nat set \<Rightarrow> nat \<Rightarrow> 'a lru_scheme \<Rightarrow> bool" where
  "hot_ok A m t \<longleftrightarrow> (\<forall>c < m. usage t ! c = lru_step t \<longleftrightarrow> id_of_slot t ! c \<in> int ` A)"

lemma cold_slot:
  assumes t: "tables_ok n m t" and A: "finite A" "A \<subseteq> {..<n}" "card A \<le> m" and a: "a \<in> A" "slot_for_id t ! a = -1"
  shows "\<exists>c < m. id_of_slot t ! c \<notin> int ` A"
proof (rule ccontr)
  assume "\<not> ?thesis"
  then have s: "\<forall>c < m. \<exists>b \<in> A. id_of_slot t ! c = int b" by auto
  define f where "f c = nat (id_of_slot t ! c)" for c
  have f: "f c \<in> A - {a}" "slot_for_id t ! f c = int c" if c: "c < m" for c
  proof -
    obtain b where b: "b \<in> A" "id_of_slot t ! c = int b" using s c by blast
    have "slot_for_id t ! b = int c" using slot_iff [OF t _ c, of b] b A(2) by auto
    then show "f c \<in> A - {a}" "slot_for_id t ! f c = int c" using b a(2) by (auto simp: f_def)
  qed
  have "inj_on f {..<m}"
  proof (rule inj_onI)
    fix c d assume "c \<in> {..<m}" "d \<in> {..<m}" "f c = f d"
    then show "c = d" using f(2) [of c] f(2) [of d] by (metis lessThan_iff of_nat_eq_iff)
  qed
  moreover have "f ` {..<m} \<subseteq> A - {a}" using f(1) by blast
  ultimately have "card {..<m} \<le> card (A - {a})" using A(1) by (intro card_inj_on_le [of f]) simp_all
  moreover have "card (A - {a}) < card A" using A(1) a(1) by (meson card_Diff1_less)
  ultimately show False using A(3) by simp
qed

definition victim_of :: "'a lru_scheme \<Rightarrow> nat" where
  "victim_of t = arg_min_list (\<lambda>c. (usage t ! c, c)) [0..<length (usage t)]"

lemma victim:
  assumes t: "tables_ok n m t" and h: "hot_ok A m t" and A: "finite A" "A \<subseteq> {..<n}" "card A \<le> m"
    and a: "a \<in> A" "slot_for_id t ! a = -1"
  defines "v \<equiv> victim_of t"
  shows "v < m" "usage t ! v < lru_step t" "id_of_slot t ! v \<notin> int ` A"
    "c < m \<Longrightarrow> usage t ! v \<le> usage t ! c" "c < v \<Longrightarrow> usage t ! v < usage t ! c"
proof -
  note d = tables_okD [OF t]
  obtain k where k: "k < m" "id_of_slot t ! k \<notin> int ` A" using cold_slot [OF t A a] by blast
  then have k': "usage t ! k < lru_step t" using h d(8) [of k] unfolding hot_ok_def by fastforce
  have m: "0 < length (usage t)" using k(1) d(3) by simp
  note u = arg_min_upt [OF m, where f = "\<lambda>c. (usage t ! c, c)", folded victim_of_def v_def, unfolded d(3)]
  show v: "v < m" by (rule u(1))
  show le: "usage t ! v \<le> usage t ! c" if "c < m" for c using u(2) [OF that] by auto
  show "usage t ! v < usage t ! c" if "c < v" for c using u(3) [OF that] that by auto
  show lt: "usage t ! v < lru_step t" using le [OF k(1)] k' by simp
  show "id_of_slot t ! v \<notin> int ` A" using h v lt unfolding hot_ok_def by force
qed

lemma victim_sel:
  "c < m \<Longrightarrow> usage t ! victim_of t \<le> usage t ! c" if "tables_ok n m t"
proof -
  assume c: "c < m"
  then have "0 < length (usage t)" using tables_okD(3) [OF that] by simp
  from arg_min_upt(2) [OF this, where c = c and f = "\<lambda>c. (usage t ! c, c)"] c tables_okD(3) [OF that]
  show ?thesis by (auto simp: victim_of_def)
qed

text \<open>The tables after the slot \<open>v\<close> has been given to the id \<open>i\<close>.\<close>

lemma assign_ok:
  assumes t: "tables_ok n m t" and i: "i < n" "slot_for_id t ! i = -1" and v: "v < m"
    and sf: "slot_for_id t' = (if 0 \<le> id_of_slot t ! v then (slot_for_id t)[nat (id_of_slot t ! v) := -1] else slot_for_id t)[i := int v]"
    and io: "id_of_slot t' = (id_of_slot t)[v := int i]" and us: "usage t' = (usage t)[v := lru_step t]"
    and st: "lru_step t' = lru_step t"
  shows "tables_ok n m t'"
    and "\<And>j. j < n \<Longrightarrow> j \<noteq> i \<Longrightarrow> slot_for_id t' ! j = (if id_of_slot t ! v = int j then -1 else slot_for_id t ! j)"
proof -
  note d = tables_okD [OF t]
  have g: "slot_for_id t' ! j = (if id_of_slot t ! v = int j then -1 else slot_for_id t ! j)" if "j < n" "j \<noteq> i" for j
    using that d(1) d(6) [OF v] i unfolding sf by (auto simp: nth_list_update)
  have gi: "slot_for_id t' ! i = int v" using i(1) d(1) unfolding sf by (auto simp: nth_list_update)
  have gc: "id_of_slot t' ! c = (if c = v then int i else id_of_slot t ! c)" if "c < m" for c
    using that d(2) unfolding io by (auto simp: nth_list_update)
  show "slot_for_id t' ! j = (if id_of_slot t ! v = int j then -1 else slot_for_id t ! j)" if "j < n" "j \<noteq> i" for j
    by (rule g [OF that])
  have 1: "slot_for_id t' ! j = -1 \<or> (\<exists>c < m. slot_for_id t' ! j = int c \<and> id_of_slot t' ! c = int j)" if j: "j < n" for j
  proof (cases "j = i")
    case True
    then show ?thesis using gi gc [OF v] v by auto
  next
    case False
    show ?thesis
    proof (rule slot_cases [OF t j])
      assume "slot_for_id t ! j = -1"
      then show ?thesis using g [OF j False] by simp
    next
      fix c assume c: "c < m" "slot_for_id t ! j = int c" "id_of_slot t ! c = int j"
      then show ?thesis using g [OF j False] gc [OF c(1)] by (cases "c = v") auto
    qed
  qed
  have 2: "id_of_slot t' ! c = -1 \<or> (\<exists>j < n. id_of_slot t' ! c = int j \<and> slot_for_id t' ! j = int c)" if c: "c < m" for c
  proof (cases "c = v")
    case True
    then show ?thesis using gi gc [OF v] i(1) by auto
  next
    case False
    show ?thesis
    proof (cases "id_of_slot t ! c = -1")
      case True
      then show ?thesis using gc [OF c] False by simp
    next
      case no: False
      then obtain j where j: "j < n" "id_of_slot t ! c = int j" "slot_for_id t ! j = int c" using d(6) [OF c] by blast
      have "j \<noteq> i" using j(3) i(2) by auto
      moreover have "id_of_slot t ! v \<noteq> int j"
        using slot_iff [OF t j(1) v] j(3) False by auto
      ultimately have "slot_for_id t' ! j = int c" using g [OF j(1)] j(3) by simp
      then show ?thesis using gc [OF c] False j by auto
    qed
  qed
  have 3: "0 \<le> usage t' ! c \<and> usage t' ! c \<le> lru_step t'" if "c < m" for c
    using that d(3,4) d(7) [OF that] d(8) [OF that] unfolding us st by (cases "c = v") simp_all
  show "tables_ok n m t'"
    unfolding tables_ok_def using 1 2 3 d(1-4) by (simp add: sf io us st)
qed

section \<open>The fetch loop\<close>

text \<open>
  What the loop over the misses \<open>ms\<close> leaves: every miss has got a slot of its own, recorded from
  position \<open>k\<close> on, taken from slots that no requested id occupied and that were not used after any
  slot left alone; the other slots are as before, and so are the requested ids that were resident.
\<close>

definition fetched :: "nat \<Rightarrow> nat \<Rightarrow> nat \<Rightarrow> nat set \<Rightarrow> nat \<Rightarrow> nat list \<Rightarrow> 'a lru_scheme \<Rightarrow> 'a lru_scheme \<Rightarrow> nat list \<Rightarrow> bool" where
  "fetched n m base A k ms t t' vs \<longleftrightarrow>
     tables_ok n m t' \<and> hot_ok A m t' \<and> length vs = length ms \<and> distinct vs \<and>
     (\<forall>v \<in> set vs. v < m \<and> id_of_slot t ! v \<notin> int ` A) \<and>
     (\<forall>v \<in> set vs. \<forall>c < m. c \<notin> set vs \<longrightarrow> usage t ! v \<le> usage t ! c) \<and>
     (\<forall>j < length ms. slot_for_id t' ! (base + ms ! j) = int (vs ! j) \<and> id_of_slot t' ! (vs ! j) = int (base + ms ! j)) \<and>
     (\<forall>c < m. c \<notin> set vs \<longrightarrow> id_of_slot t' ! c = id_of_slot t ! c) \<and>
     (\<forall>a \<in> A. a \<notin> (\<lambda>e. base + e) ` set ms \<longrightarrow> slot_for_id t' ! a = slot_for_id t ! a) \<and>
     (\<forall>i < n. i \<notin> A \<longrightarrow> slot_for_id t' ! i = -1 \<or> slot_for_id t' ! i = slot_for_id t ! i) \<and>
     length (evict_slots t') = length (evict_slots t) \<and> length (src_indices t') = length (src_indices t) \<and>
     (k + length ms \<le> length (evict_slots t) \<longrightarrow>
        take (k + length ms) (evict_slots t') = take k (evict_slots t) @ map int vs) \<and>
     (k + length ms \<le> length (src_indices t) \<longrightarrow>
        take (k + length ms) (src_indices t') = take k (src_indices t) @ map int ms) \<and>
     (\<exists>sf io us ev src. t' = t\<lparr>slot_for_id := sf, id_of_slot := io, usage := us, evict_slots := ev, src_indices := src\<rparr>)"

lemma fetchedD:
  assumes "fetched n m base A k ms t t' vs"
  shows "tables_ok n m t'" "hot_ok A m t'" "length vs = length ms" "distinct vs"
    "v \<in> set vs \<Longrightarrow> v < m" "v \<in> set vs \<Longrightarrow> id_of_slot t ! v \<notin> int ` A"
    "v \<in> set vs \<Longrightarrow> c < m \<Longrightarrow> c \<notin> set vs \<Longrightarrow> usage t ! v \<le> usage t ! c"
    "j < length ms \<Longrightarrow> slot_for_id t' ! (base + ms ! j) = int (vs ! j)"
    "j < length ms \<Longrightarrow> id_of_slot t' ! (vs ! j) = int (base + ms ! j)"
    "c < m \<Longrightarrow> c \<notin> set vs \<Longrightarrow> id_of_slot t' ! c = id_of_slot t ! c"
    "a \<in> A \<Longrightarrow> a \<notin> (\<lambda>e. base + e) ` set ms \<Longrightarrow> slot_for_id t' ! a = slot_for_id t ! a"
    "i < n \<Longrightarrow> i \<notin> A \<Longrightarrow> slot_for_id t' ! i = -1 \<or> slot_for_id t' ! i = slot_for_id t ! i"
    "length (evict_slots t') = length (evict_slots t)" "length (src_indices t') = length (src_indices t)"
    "k + length ms \<le> length (evict_slots t) \<Longrightarrow> take (k + length ms) (evict_slots t') = take k (evict_slots t) @ map int vs"
    "k + length ms \<le> length (src_indices t) \<Longrightarrow> take (k + length ms) (src_indices t') = take k (src_indices t) @ map int ms"
    "\<exists>sf io us ev src. t' = t\<lparr>slot_for_id := sf, id_of_slot := io, usage := us, evict_slots := ev, src_indices := src\<rparr>"
  using assms unfolding fetched_def by simp_all

lemma fetch_one_ok:
  fixes t :: "'a lru_scheme" and k :: nat
  assumes t: "tables_ok n m t" and h: "hot_ok A m t" and A: "finite A" "A \<subseteq> {..<n}" "card A \<le> m"
    and a: "base + e \<in> A" "slot_for_id t ! (base + e) = -1"
  defines "t' \<equiv> fetch_one base (k, e) t" and "v \<equiv> victim_of t"
  shows "tables_ok n m t'" "hot_ok A m t'" "v < m" "id_of_slot t ! v \<notin> int ` A" "usage t ! v < lru_step t"
    "c < m \<Longrightarrow> usage t ! v \<le> usage t ! c"
    "slot_for_id t' ! (base + e) = int v"
    "id_of_slot t' = (id_of_slot t)[v := int (base + e)]" "usage t' = (usage t)[v := lru_step t]"
    "b \<in> A \<Longrightarrow> b \<noteq> base + e \<Longrightarrow> slot_for_id t' ! b = slot_for_id t ! b"
    "i < n \<Longrightarrow> i \<noteq> base + e \<Longrightarrow> slot_for_id t' ! i = -1 \<or> slot_for_id t' ! i = slot_for_id t ! i"
    "evict_slots t' = (evict_slots t)[k := int v]" "src_indices t' = (src_indices t)[k := int e]" "lru_step t' = lru_step t"
proof -
  note d = tables_okD [OF t]
  note w = victim [OF t h A a, folded v_def]
  show "v < m" "id_of_slot t ! v \<notin> int ` A" "usage t ! v < lru_step t" by (rule w)+
  show "c < m \<Longrightarrow> usage t ! v \<le> usage t ! c" by (rule w(4))
  have e: "slot_for_id t' = (if 0 \<le> id_of_slot t ! v then (slot_for_id t)[nat (id_of_slot t ! v) := -1] else slot_for_id t)[base + e := int v]"
    and io: "id_of_slot t' = (id_of_slot t)[v := int (base + e)]" and us: "usage t' = (usage t)[v := lru_step t]"
    and st: "lru_step t' = lru_step t"
    and r: "evict_slots t' = (evict_slots t)[k := int v]" "src_indices t' = (src_indices t)[k := int e]"
    by (simp_all add: t'_def fetch_one_def Let_def v_def victim_of_def)
  have i: "base + e < n" using a(1) A(2) by blast
  note z = assign_ok [OF t i a(2) w(1) e io us st]
  show "tables_ok n m t'" by (rule z(1))
  show "slot_for_id t' ! (base + e) = int v" using i d(1) unfolding e by simp
  show "id_of_slot t' = (id_of_slot t)[v := int (base + e)]" "usage t' = (usage t)[v := lru_step t]"
    "evict_slots t' = (evict_slots t)[k := int v]" "src_indices t' = (src_indices t)[k := int e]" "lru_step t' = lru_step t"
    by (rule io us r st)+
  show "slot_for_id t' ! b = slot_for_id t ! b" if "b \<in> A" "b \<noteq> base + e" for b
  proof -
    have "b < n" using that(1) A(2) by blast
    moreover have "id_of_slot t ! v \<noteq> int b" using w(3) that(1) by auto
    ultimately show ?thesis using z(2) [of b] that(2) by simp
  qed
  show "slot_for_id t' ! i = -1 \<or> slot_for_id t' ! i = slot_for_id t ! i" if "i < n" "i \<noteq> base + e" for i
    using z(2) [OF that] by simp
  have ia: "int (base + e) \<in> int ` A" using a(1) by blast
  show "hot_ok A m t'"
    using h w(1) ia d(2,3) unfolding hot_ok_def io us st by (simp add: nth_list_update del: of_nat_add)
qed

lemma fetch_loop_ok:
  fixes t :: "'a lru_scheme"
  assumes "tables_ok n m t" and "hot_ok A m t" and A: "finite A" "A \<subseteq> {..<n}" "card A \<le> m"
    and "distinct ms" and "\<forall>e \<in> set ms. base + e \<in> A \<and> slot_for_id t ! (base + e) = -1"
  shows "\<exists>vs. fetched n m base A k ms t (fold (fetch_one base) (enumerate k ms) t) vs"
  using assms(1,2,6,7)
proof (induction ms arbitrary: t k)
  case Nil
  have "t = t\<lparr>slot_for_id := slot_for_id t, id_of_slot := id_of_slot t, usage := usage t, evict_slots := evict_slots t,
    src_indices := src_indices t\<rparr>" by simp
  then have "\<exists>sf io us ev src. t = t\<lparr>slot_for_id := sf, id_of_slot := io, usage := us, evict_slots := ev, src_indices := src\<rparr>"
    by blast
  then have "fetched n m base A k [] t t []" using Nil unfolding fetched_def by simp
  then show ?case by auto
next
  case (Cons e ms)
  have a: "base + e \<in> A" "slot_for_id t ! (base + e) = -1" using Cons.prems(4) by auto
  define t1 where "t1 = fetch_one base (k, e) t"
  define v where "v = victim_of t"
  note o = fetch_one_ok(1,2,7-14) [OF Cons.prems(1,2) A a, where k = k, folded t1_def v_def]
  note p = fetch_one_ok(3-6) [OF Cons.prems(1,2) A a, folded v_def]
  have m: "\<forall>x \<in> set ms. base + x \<in> A \<and> slot_for_id t1 ! (base + x) = -1"
  proof
    fix x assume x: "x \<in> set ms"
    then have "x \<noteq> e" "base + x \<in> A \<and> slot_for_id t ! (base + x) = -1" using Cons.prems(3,4) by auto
    then show "base + x \<in> A \<and> slot_for_id t1 ! (base + x) = -1" using o(6) [of "base + x"] by simp
  qed
  have "distinct ms" using Cons.prems(3) by simp
  from Cons.IH [OF o(1,2) this m, of "Suc k"] obtain vs where
    f: "fetched n m base A (Suc k) ms t1 (fold (fetch_one base) (enumerate (Suc k) ms) t1) vs" by blast
  define t2 where "t2 = fold (fetch_one base) (enumerate (Suc k) ms) t1"
  note d = tables_okD [OF Cons.prems(1)] and g = fetchedD [OF f, folded t2_def]
  have io: "id_of_slot t1 ! c = (if c = v then int (base + e) else id_of_slot t ! c)" if "c < m" for c
    using that d(2) unfolding o(4) by (simp add: nth_list_update)
  have us: "usage t1 ! c = (if c = v then lru_step t else usage t ! c)" if "c < m" for c
    using that d(3) unfolding o(5) by (simp add: nth_list_update)
  have ia: "int (base + e) \<in> int ` A" using a(1) by blast
  have nv: "v \<notin> set vs" using g(6) [of v] io [OF p(1)] ia by auto
  have nm: "base + e \<notin> (\<lambda>e. base + e) ` set ms" using Cons.prems(3) by auto
  have "fetched n m base A k (e # ms) t t2 (v # vs)"
    unfolding fetched_def
  proof (intro conjI allI ballI impI)
    show "tables_ok n m t2" "hot_ok A m t2" by (rule g)+
    show "length (v # vs) = length (e # ms)" "distinct (v # vs)" using g(3,4) nv by simp_all
    show "x < m" "id_of_slot t ! x \<notin> int ` A" if "x \<in> set (v # vs)" for x
      using that p(1,2) g(5,6) [of x] io [of x] nv by (cases "x = v"; simp)+
    show "usage t ! x \<le> usage t ! c" if "x \<in> set (v # vs)" "c < m" "c \<notin> set (v # vs)" for x c
    proof (cases "x = v")
      case True
      then show ?thesis using p(4) [OF that(2)] by simp
    next
      case False
      then have x: "x \<in> set vs" using that(1) by simp
      have "usage t1 ! x \<le> usage t1 ! c" using g(7) [OF x that(2)] that(3) by simp
      then show ?thesis using us [OF g(5) [OF x]] us [OF that(2)] False that(3) by simp
    qed
    show "slot_for_id t2 ! (base + (e # ms) ! j) = int ((v # vs) ! j)" if "j < length (e # ms)" for j
    proof (cases j)
      case 0
      have "slot_for_id t2 ! (base + e) = slot_for_id t1 ! (base + e)" by (rule g(11) [OF a(1) nm])
      then show ?thesis using o(3) 0 by simp
    qed (use that g(8) in simp)
    show "id_of_slot t2 ! ((v # vs) ! j) = int (base + (e # ms) ! j)" if "j < length (e # ms)" for j
    proof (cases j)
      case 0
      then show ?thesis using g(10) [OF p(1) nv] io [OF p(1)] by simp
    qed (use that g(9) in simp)
    show "id_of_slot t2 ! c = id_of_slot t ! c" if "c < m" "c \<notin> set (v # vs)" for c
      using g(10) [OF that(1)] io [OF that(1)] that(2) by simp
    show "slot_for_id t2 ! b = slot_for_id t ! b" if "b \<in> A" "b \<notin> (\<lambda>e. base + e) ` set (e # ms)" for b
      using g(11) [of b] o(6) [of b] that by simp
    show "slot_for_id t2 ! i = -1 \<or> slot_for_id t2 ! i = slot_for_id t ! i" if "i < n" "i \<notin> A" for i
    proof -
      have "i \<noteq> base + e" using a(1) that(2) by auto
      then show ?thesis using g(12) [OF that] o(7) [OF that(1)] by auto
    qed
    show "length (evict_slots t2) = length (evict_slots t)" "length (src_indices t2) = length (src_indices t)"
      using g(13,14) o(8,9) by simp_all
    show "take (k + length (e # ms)) (evict_slots t2) = take k (evict_slots t) @ map int (v # vs)"
      if "k + length (e # ms) \<le> length (evict_slots t)"
      using g(15) that by (simp add: o(8) take_Suc_conv_app_nth)
    show "take (k + length (e # ms)) (src_indices t2) = take k (src_indices t) @ map int (e # ms)"
      if "k + length (e # ms) \<le> length (src_indices t)"
      using g(16) that by (simp add: o(9) take_Suc_conv_app_nth)
    obtain sf io us ev src where "t2 = t1\<lparr>slot_for_id := sf, id_of_slot := io, usage := us, evict_slots := ev, src_indices := src\<rparr>"
      using g(17) by blast
    then have "t2 = t\<lparr>slot_for_id := sf, id_of_slot := io, usage := us, evict_slots := ev, src_indices := src\<rparr>"
      by (simp add: t1_def fetch_one_def Let_def)
    then show "\<exists>sf io us ev src. t2 = t\<lparr>slot_for_id := sf, id_of_slot := io, usage := us, evict_slots := ev, src_indices := src\<rparr>" by blast
  qed
  then show ?case by (auto simp: t2_def t1_def)
qed

end
