(* ===== verification/Expert_Coherence.thy ===== *)
theory Expert_Coherence
  imports Expert_Invariant
begin

text \<open>
  The invariant of the whole expert cache and its coherence: a slot that the tables assign to an
  expert holds that expert's row in every bank. Each operation of the cache keeps both; for the
  external slot cache this rests on its contract, the locale \<open>slot_cache\<close>.
\<close>

section \<open>Invariant\<close>

definition banks_ok :: "'r ecache \<Rightarrow> bool" where
  "banks_ok s \<longleftrightarrow>
     length (bank_caches s) = length (bank_sources s) \<and> length (bank_bytes s) = length (bank_sources s) \<and>
     (\<forall>c \<in> set (bank_caches s). length c = cache_size s) \<and>
     (\<forall>b \<in> set (bank_sources s). length b = num_layers s \<and> (\<forall>l \<in> set b. length l = num_experts s))"

definition ec_inv :: "'r ecache \<Rightarrow> bool" where
  "ec_inv s \<longleftrightarrow>
     tables_ok (num_layers s * num_experts s) (cache_size s) s \<and> num_experts s \<le> cache_size s \<and>
     (prefill_overlap s \<longrightarrow> 2 * num_experts s \<le> cache_size s) \<and>
     length (evict_slots s) = num_experts s \<and> length (src_indices s) = num_experts s \<and>
     length (active_mask s) = num_experts s \<and>
     length (expert_recency s) = num_layers s * num_experts s \<and>
     (\<forall>r \<in> set (expert_recency s). -1 \<le> r \<and> r \<le> lru_step s) \<and>
     length (buf_layer s) = 2 \<and> length (buf_released s) = 2 \<and> banks_ok s"

lemma ec_invD:
  assumes "ec_inv s"
  shows "tables_ok (num_layers s * num_experts s) (cache_size s) s" "num_experts s \<le> cache_size s"
    "prefill_overlap s \<Longrightarrow> 2 * num_experts s \<le> cache_size s"
    "length (evict_slots s) = num_experts s" "length (src_indices s) = num_experts s"
    "length (active_mask s) = num_experts s" "length (expert_recency s) = num_layers s * num_experts s"
    "r \<in> set (expert_recency s) \<Longrightarrow> -1 \<le> r \<and> r \<le> lru_step s"
    "length (buf_layer s) = 2" "length (buf_released s) = 2" "banks_ok s"
  using assms unfolding ec_inv_def by blast+

lemma banks_okD:
  assumes "banks_ok s"
  shows "length (bank_caches s) = length (bank_sources s)" "length (bank_bytes s) = length (bank_sources s)"
    "b < length (bank_sources s) \<Longrightarrow> length (bank_caches s ! b) = cache_size s"
    "b < length (bank_sources s) \<Longrightarrow> length (bank_sources s ! b) = num_layers s"
    "b < length (bank_sources s) \<Longrightarrow> l < num_layers s \<Longrightarrow> length (bank_sources s ! b ! l) = num_experts s"
  using assms unfolding banks_ok_def by (metis nth_mem)+

text \<open>The row of the flat expert id \<open>i\<close> in bank \<open>b\<close>, and coherence outside the slots \<open>P\<close>.\<close>

definition row_of :: "'r ecache \<Rightarrow> nat \<Rightarrow> nat \<Rightarrow> 'r" where
  "row_of s b i = bank_sources s ! b ! (i div num_experts s) ! (i mod num_experts s)"

definition coherent :: "nat set \<Rightarrow> 'r ecache \<Rightarrow> bool" where
  "coherent P s \<longleftrightarrow>
     (\<forall>b < length (bank_caches s). \<forall>c < cache_size s. \<forall>i.
        c \<notin> P \<longrightarrow> id_of_slot s ! c = int i \<longrightarrow> bank_caches s ! b ! c = row_of s b i)"

lemma coherentD:
  "coherent P s \<Longrightarrow> b < length (bank_caches s) \<Longrightarrow> c < cache_size s \<Longrightarrow> c \<notin> P \<Longrightarrow> id_of_slot s ! c = int i \<Longrightarrow>
   bank_caches s ! b ! c = row_of s b i"
  unfolding coherent_def by blast

lemma flat_id:
  assumes "layer < L" and "e < E"
  shows "layer * E + e < L * (E::nat)"
proof -
  have "layer * E + e < Suc layer * E" using assms(2) by simp
  also have "\<dots> \<le> L * E" using assms(1) by (intro mult_le_mono1) simp
  finally show ?thesis .
qed

lemma row_of_flat: "e < num_experts s \<Longrightarrow> row_of s b (layer * num_experts s + e) = bank_sources s ! b ! layer ! e"
  by (simp add: row_of_def)

section \<open>The capped fetch\<close>

lemma seen_of_fold:
  "distinct s \<Longrightarrow> distinct (fold (\<lambda>e seen. if e \<in> set seen then seen else seen @ [e]) ids s) \<and>
   set (fold (\<lambda>e seen. if e \<in> set seen then seen else seen @ [e]) ids s) = set ids \<union> set s"
  by (induction ids arbitrary: s) auto

lemma seen_of: "distinct (seen_of ids)" "set (seen_of ids) = set ids"
  using seen_of_fold [of "[]" ids] by (simp_all add: seen_of_def)

lemma touch_nth:
  assumes "\<forall>i \<in> set is. sf ! i = -1 \<or> (\<exists>c < length u. sf ! i = int c)"
  shows "length (touch step sf is u) = length u \<and>
    (\<forall>c < length u. touch step sf is u ! c = (if \<exists>i \<in> set is. sf ! i = int c then step else u ! c))"
  using assms
proof (induction "is" arbitrary: u)
  case (Cons i "is")
  let ?u = "if sf ! i \<noteq> -1 then u[nat (sf ! i) := step] else u"
  have e: "touch step sf (i # is) u = touch step sf is ?u" by (simp add: touch_def)
  have p: "\<forall>i \<in> set is. sf ! i = -1 \<or> (\<exists>c < length ?u. sf ! i = int c)" using Cons.prems by auto
  note h = Cons.IH [OF p]
  have "?u ! c = (if sf ! i = int c then step else u ! c)" if "c < length u" for c
    using that Cons.prems by (auto simp: nth_list_update)
  then show ?case using h unfolding e by auto
qed (simp add: touch_def)

lemma touch_ok:
  fixes t :: "'a lru_scheme"
  assumes t: "tables_ok n m t" and A: "A \<subseteq> {..<n}" and i: "set is = A"
    and t': "slot_for_id t' = slot_for_id t" "id_of_slot t' = id_of_slot t" "lru_step t' = lru_step t + 1"
      "usage t' = touch (lru_step t + 1) (slot_for_id t) is (usage t)"
  shows "tables_ok n m t'" "hot_ok A m t'"
proof -
  note d = tables_okD [OF t]
  have b: "\<forall>i \<in> set is. slot_for_id t ! i = -1 \<or> (\<exists>c < length (usage t). slot_for_id t ! i = int c)"
    using A i d(3,5) by (metis lessThan_iff subsetD)
  note u = touch_nth [OF b, of "lru_step t + 1"]
  have uc: "usage t' ! c = (if \<exists>i \<in> A. slot_for_id t ! i = int c then lru_step t + 1 else usage t ! c)" if "c < m" for c
    using u that d(3) i unfolding t'(4) by simp
  have us: "0 \<le> usage t' ! c \<and> usage t' ! c \<le> lru_step t + 1" if "c < m" for c
    using uc [OF that] d(4) d(7,8) [OF that] by auto
  have l: "length (usage t') = m" using u d(3) unfolding t'(4) by simp
  show "tables_ok n m t'"
    using t us l unfolding tables_ok_def t'(1,2,3) by auto
  show "hot_ok A m t'"
    unfolding hot_ok_def
  proof (intro allI impI)
    fix c assume c: "c < m"
    have "(\<exists>i \<in> A. slot_for_id t ! i = int c) \<longleftrightarrow> id_of_slot t ! c \<in> int ` A"
      using slot_iff [OF t _ c] A by (auto simp: image_iff)
    then show "usage t' ! c = lru_step t' \<longleftrightarrow> id_of_slot t' ! c \<in> int ` A"
      using uc [OF c] d(8) [OF c] unfolding t'(2,3) by auto
  qed
qed

lemma fold_upd_const:
  "length (fold (\<lambda>e r. r[f e := v]) es r) = length r"
  "i < length r \<Longrightarrow> fold (\<lambda>e r. r[f e := v]) es r ! i = (if i \<in> f ` set es then v else r ! i)"
proof -
  show l: "length (fold (\<lambda>e r. r[f e := v]) es r) = length r" by (induction es arbitrary: r) auto
  show "i < length r \<Longrightarrow> fold (\<lambda>e r. r[f e := v]) es r ! i = (if i \<in> f ` set es then v else r ! i)"
    by (induction es arbitrary: r) (auto simp: nth_list_update)
qed

lemma set_fold_upd_const: "set (fold (\<lambda>e r. r[f e := v]) es r) \<subseteq> insert v (set r)"
proof (induction es arbitrary: r)
  case (Cons e es)
  then show ?case using Cons.IH [of "r[f e := v]"] set_update_subset_insert [of r "f e" v] by auto
qed auto

text \<open>The misses of a step, in the order of the fetches.\<close>

lemma hybrid_missing:
  "distinct seen \<Longrightarrow> distinct (hybrid_missing rec base seen s)"
  "set (hybrid_missing rec base seen s) = {e \<in> set seen. slot_for_id s ! (base + e) = -1}"
  by (auto simp: hybrid_missing_def Let_def)

text \<open>
  The step as a whole: \<open>ms\<close> are the fetched misses, \<open>vs\<close> their slots; \<open>out\<close> is the slot of each requested
  expert, or -1 for a miss that is not fetched.
\<close>

definition hybrid_result ::
  "nat \<Rightarrow> nat list \<Rightarrow> 'r ecache \<Rightarrow> 'r ecache \<Rightarrow> nat list \<Rightarrow> nat list \<Rightarrow> int list \<Rightarrow> bool" where
  "hybrid_result layer ids s s' ms vs out \<longleftrightarrow>
     (let E = num_experts s; base = layer * E in
      ec_inv s' \<and> num_experts s' = E \<and> num_layers s' = num_layers s \<and> cache_size s' = cache_size s \<and>
      bank_sources s' = bank_sources s \<and> bank_caches s' = bank_caches s \<and> alphas s' = alphas s \<and>
      pending_src_layer s' = pending_src_layer s \<and> decode_target s' = decode_target s \<and> cpu_layer_ids s' = cpu_layer_ids s \<and>
      prefill_overlap s' = prefill_overlap s \<and> lru_step s' = lru_step s + 1 \<and>
      distinct ms \<and> set ms \<subseteq> {e \<in> set ids. slot_for_id s ! (base + e) = -1} \<and>
      length vs = length ms \<and> distinct vs \<and> set vs \<subseteq> {..<cache_size s} \<and>
      (\<forall>v \<in> set vs. \<forall>e \<in> set ids. id_of_slot s ! v \<noteq> int (base + e)) \<and>
      (\<forall>v \<in> set vs. \<forall>c < cache_size s. c \<notin> set vs \<longrightarrow> (\<forall>e \<in> set ids. id_of_slot s ! c \<noteq> int (base + e)) \<longrightarrow> usage s ! v \<le> usage s ! c) \<and>
      nat (num_indices s') = length ms \<and> take (length ms) (evict_slots s') = map int vs \<and>
      take (length ms) (src_indices s') = map int ms \<and>
      (\<forall>c < cache_size s. c \<notin> set vs \<longrightarrow> id_of_slot s' ! c = id_of_slot s ! c) \<and>
      (\<forall>j < length ms. id_of_slot s' ! (vs ! j) = int (base + ms ! j) \<and> slot_for_id s' ! (base + ms ! j) = int (vs ! j)) \<and>
      out = map (\<lambda>e. slot_for_id s' ! (base + e)) ids)"

lemma ensure_hybrid_cpu_ok:
  fixes s :: "'r ecache"
  assumes i: "ec_inv s" and l: "layer < num_layers s" and ids: "\<forall>e \<in> set ids. e < num_experts s"
  obtains s' ms vs out where "ensure_hybrid_cpu rec layer ids mf q s = (s', out)" "hybrid_result layer ids s s' ms vs out"
    "num_missing_full s' = int (card {e \<in> set ids. slot_for_id s ! (layer * num_experts s + e) = -1})"
    "num_indices s' = hybrid_cap mf q (num_missing_full s')"
    "active_mask s' = map (\<lambda>e. if e \<in> set ids then 1 else 0) [0..<num_experts s]"
    "totals s' = totals s" "layer_stats s' = layer_stats s"
proof -
  define E where "E = num_experts s"
  define base where "base = layer * E"
  define n where "n = num_layers s * E"
  define m where "m = cache_size s"
  define seen where "seen = seen_of ids"
  define A where "A = (\<lambda>e. base + e) ` set ids"
  note I = ec_invD [OF i, folded E_def, folded n_def m_def]
  define s1 where "s1 = s\<lparr>lru_step := lru_step s + 1, active_mask := fold (\<lambda>e m. m[e := 1]) seen (replicate E 0),
    usage := touch (lru_step s + 1) (slot_for_id s) (map ((+) base) seen) (usage s)\<rparr>"
  define missing where "missing = hybrid_missing rec base seen s1"
  define num where "num = hybrid_cap mf q (int (length missing))"
  define ms where "ms = take (nat num) missing"
  define s2 where "s2 = s1\<lparr>num_missing_full := int (length missing), num_indices := num\<rparr>"
  define s3 where "s3 = fold (fetch_one base) (enumerate 0 ms) s2"
  define s4 where "s4 = (if rec then s3\<lparr>expert_recency := fold (\<lambda>e r. r[base + e := lru_step s + 1]) seen (expert_recency s3)\<rparr> else s3)"
  define out where "out = map (\<lambda>e. slot_for_id s4 ! (base + e)) ids"
  have r: "ensure_hybrid_cpu rec layer ids mf q s = (s4, out)"
    unfolding ensure_hybrid_cpu_def Let_def
    by (simp only: E_def base_def seen_def s1_def missing_def num_def ms_def s2_def s3_def s4_def out_def)
  have A: "finite A" "A \<subseteq> {..<n}" "set (map ((+) base) seen) = A"
    using ids l by (auto simp: A_def seen_def seen_of base_def n_def E_def intro: flat_id)
  have inA: "x \<notin> int ` A \<longleftrightarrow> (\<forall>e \<in> set ids. x \<noteq> int (base + e))" for x
    by (auto simp: A_def image_iff simp del: of_nat_add)
  have cA: "card A \<le> m"
  proof -
    have "card A \<le> card (set ids)" unfolding A_def by (simp add: card_image_le)
    also have "\<dots> \<le> card {..<E}" using ids by (intro card_mono) (auto simp: E_def)
    finally show ?thesis using I(2) by simp
  qed
  have t: "tables_ok n m s1" "hot_ok A m s1" by (rule touch_ok [OF I(1) A(2,3)]; simp add: s1_def)+
  then have t2: "tables_ok n m s2" "hot_ok A m s2" by (simp_all add: s2_def tables_ok_def hot_ok_def)
  have dm: "distinct missing" "set missing = {e \<in> set ids. slot_for_id s ! (base + e) = -1}"
    using hybrid_missing [where seen = seen and rec = rec and base = base and s = s1] by (simp_all add: missing_def seen_def seen_of s1_def)
  have ms: "distinct ms" "\<forall>e \<in> set ms. base + e \<in> A \<and> slot_for_id s2 ! (base + e) = -1"
    using dm set_take_subset [of "nat num" missing] by (auto simp: ms_def A_def s2_def s1_def)
  obtain vs where f: "fetched n m base A 0 ms s2 s3 vs"
    using fetch_loop_ok [OF t2 A(1,2) cA ms, of 0] unfolding s3_def by blast
  note g = fetchedD [OF f]
  obtain sf io us ev src where s3: "s3 = s2\<lparr>slot_for_id := sf, id_of_slot := io, usage := us, evict_slots := ev, src_indices := src\<rparr>"
    using g(17) by blast
  have lm: "length ms \<le> E"
  proof -
    have "length ms = card (set ms)" using ms(1) by (simp add: distinct_card)
    also have "\<dots> \<le> card {..<E}" using set_take_subset [of "nat num" missing] dm(2) ids by (intro card_mono) (auto simp: ms_def E_def)
    finally show ?thesis by simp
  qed
  have rr: "length (expert_recency s4) = n \<and> (\<forall>r \<in> set (expert_recency s4). -1 \<le> r \<and> r \<le> lru_step s + 1)"
  proof (cases rec)
    case True
    then have e: "expert_recency s4 = fold (\<lambda>e r. r[base + e := lru_step s + 1]) seen (expert_recency s)"
      by (simp add: s4_def s3 s2_def s1_def)
    have "-1 \<le> r \<and> r \<le> lru_step s + 1" if "r \<in> set (expert_recency s4)" for r
    proof -
      have "r = lru_step s + 1 \<or> r \<in> set (expert_recency s)"
        using set_fold_upd_const [of "(+) base" "lru_step s + 1" seen "expert_recency s"] that e by auto
      then show ?thesis using I(8) [of r] tables_okD(4) [OF I(1)] by auto
    qed
    then show ?thesis using I(7) by (simp add: e fold_upd_const)
  next
    case False
    then have e: "expert_recency s4 = expert_recency s" by (simp add: s4_def s3 s2_def s1_def)
    then show ?thesis using I(7,8) by fastforce
  qed
  have am: "active_mask s4 = map (\<lambda>e. if e \<in> set ids then 1 else 0) [0..<E]"
  proof -
    have e: "active_mask s4 = fold (\<lambda>e m. m[e := 1]) seen (replicate E 0)" by (simp add: s4_def s3 s2_def s1_def)
    show ?thesis
      unfolding e by (rule nth_equalityI)
        (use fold_upd_const [where f = id and v = "1::int" and es = seen and r = "replicate E 0"] in \<open>simp_all add: seen_def seen_of\<close>)
  qed
  have T: "tables_ok n m s4" using g(1) by (simp add: s4_def tables_ok_def)
  have N: "nat num = length ms" "num \<le> int (length missing)" by (auto simp: ms_def num_def hybrid_cap_def)
  have k: "usage s2 ! c = usage s ! c" if "c < m" "id_of_slot s ! c \<notin> int ` A" for c
  proof -
    have "usage s2 ! c \<noteq> lru_step s + 1" using t2(2) that by (simp add: hot_ok_def s2_def s1_def)
    moreover have "\<forall>i \<in> A. slot_for_id s ! i = -1 \<or> (\<exists>c < length (usage s). slot_for_id s ! i = int c)"
      using A(2) tables_okD(3,5) [OF I(1)] by (metis lessThan_iff subsetD)
    then have "usage s2 ! c = (if \<exists>i \<in> A. slot_for_id s ! i = int c then lru_step s + 1 else usage s ! c)"
      using touch_nth [of "map ((+) base) seen" "slot_for_id s" "usage s" "lru_step s + 1", unfolded A(3)] that(1)
        tables_okD(3) [OF I(1)]
      by (simp add: s2_def s1_def)
    ultimately show ?thesis by (simp split: if_splits)
  qed
  have v: "v < m \<and> id_of_slot s ! v \<notin> int ` A" if "v \<in> set vs" for v using g(5,6) [OF that] by (simp add: s2_def s1_def)
  have lru: "usage s ! v \<le> usage s ! c" if "v \<in> set vs" "c < m" "c \<notin> set vs" "id_of_slot s ! c \<notin> int ` A" for v c
    using g(7) [OF that(1-3)] k [of v] k [of c] v [OF that(1)] that(2,4) by simp
  define rc where "rc = expert_recency s4"
  define am' where "am' = active_mask s4"
  have s4: "s4 = s\<lparr>lru_step := lru_step s + 1, active_mask := am', num_missing_full := int (length missing), num_indices := num,
    slot_for_id := sf, id_of_slot := io, usage := us, evict_slots := ev, src_indices := src, expert_recency := rc\<rparr>"
    by (cases rec) (simp_all add: rc_def am'_def s4_def s3 s2_def s1_def)
  have inv: "ec_inv s4"
    unfolding ec_inv_def
  proof (intro conjI ballI impI)
    show "tables_ok (num_layers s4 * num_experts s4) (cache_size s4) s4" using T by (simp add: s4 n_def E_def m_def)
    show "length (evict_slots s4) = num_experts s4" "length (src_indices s4) = num_experts s4"
      using g(13,14) I(4,5) by (simp_all add: s4 s3 s2_def s1_def E_def)
    show "length (active_mask s4) = num_experts s4" using am by (simp add: s4 E_def)
    show "length (expert_recency s4) = num_layers s4 * num_experts s4" using rr by (simp add: s4 E_def n_def)
    show "-1 \<le> r" "r \<le> lru_step s4" if "r \<in> set (expert_recency s4)" for r using rr that by (simp_all add: s4)
    show "banks_ok s4" using I(11) by (simp add: s4 banks_ok_def)
  qed (use I in \<open>simp_all add: s4 E_def m_def\<close>)
  have "hybrid_result layer ids s s4 ms vs out"
    unfolding hybrid_result_def Let_def E_def [symmetric] base_def [symmetric] m_def [symmetric]
  proof (intro conjI allI ballI impI)
    show "set ms \<subseteq> {e \<in> set ids. slot_for_id s ! (base + e) = -1}" using dm(2) set_take_subset [of "nat num" missing] by (simp add: ms_def)
    show "take (length ms) (evict_slots s4) = map int vs" "take (length ms) (src_indices s4) = map int ms"
      using g(15,16) lm I(4,5) by (simp_all add: s4 s3 s2_def s1_def)
    show "id_of_slot s ! v \<noteq> int (base + e)" if "v \<in> set vs" "e \<in> set ids" for v e using v [OF that(1)] that(2) by (simp add: inA)
    show "usage s ! v \<le> usage s ! c" if "v \<in> set vs" "c < m" "c \<notin> set vs" "\<forall>e \<in> set ids. id_of_slot s ! c \<noteq> int (base + e)" for v c
      by (rule lru [OF that(1-3)]) (use that(4) in \<open>simp add: inA\<close>)
    show "set vs \<subseteq> {..<m}" using v by auto
  qed (use inv ms(1) g N in \<open>simp_all add: s4 s3 s2_def s1_def E_def m_def out_def\<close>)
  moreover have "num_missing_full s4 = int (card {e \<in> set ids. slot_for_id s ! (layer * num_experts s + e) = -1})"
    using distinct_card [OF dm(1)] dm(2) by (simp add: s4 base_def E_def)
  moreover have "num_indices s4 = hybrid_cap mf q (num_missing_full s4)" by (simp add: s4 num_def)
  moreover have "totals s4 = totals s" "layer_stats s4 = layer_stats s" by (simp_all add: s4)
  ultimately show ?thesis using that [OF r] am unfolding E_def by blast
qed

end
