(* ===== verification/Expert_Steps.thy ===== *)
theory Expert_Steps
  imports Expert_Coherence
begin

text \<open>
  Every operation of the expert cache keeps the invariant and coherence: the staged copies complete a
  decode step, the materialisation and the prefill buffers give up the slots they take, a reset or
  a rebuild starts cold. \<open>slot_cache\<close> is the contract of the external slot cache; the CPU mirror without
  a cap meets it.
\<close>

section \<open>Staged copies\<close>

lemma copy_rows_length [simp]: "length (copy_rows src plan cache) = length cache"
  by (induction plan arbitrary: cache) (auto simp: copy_rows_def split: prod.splits)

lemma copy_rows_nth:
  assumes "distinct (map fst plan)" and "c < length cache"
  shows "copy_rows src plan cache ! c = (case map_of plan c of None \<Rightarrow> cache ! c | Some x \<Rightarrow> src ! x)"
  using assms
proof (induction plan arbitrary: cache)
  case (Cons p plan)
  obtain d x where p: "p = (d, x)" by (cases p)
  have "copy_rows src (p # plan) cache = copy_rows src plan (cache[d := src ! x])" by (simp add: copy_rows_def p)
  moreover have "map_of plan d = None" using Cons.prems(1) by (simp add: p map_of_eq_None_iff)
  ultimately show ?case using Cons.IH [of "cache[d := src ! x]"] Cons.prems by (cases "c = d") (simp_all add: p nth_list_update split: option.splits)
qed (simp add: copy_rows_def)

lemma map_of_zip_distinct:
  assumes "length vs = length ms" and "distinct vs"
  shows "j < length vs \<Longrightarrow> map_of (zip vs ms) (vs ! j) = Some (ms ! j)"
    "c \<notin> set vs \<Longrightarrow> map_of (zip vs ms) c = None"
proof -
  show "j < length vs \<Longrightarrow> map_of (zip vs ms) (vs ! j) = Some (ms ! j)"
    using assms by (metis length_map map_of_zip_nth)
  show "c \<notin> set vs \<Longrightarrow> map_of (zip vs ms) c = None" using assms by simp
qed

text \<open>A decode step between its bookkeeping and its copies: the rows \<open>ms\<close> of \<open>layer\<close> are due in the slots \<open>vs\<close>.\<close>

definition staged_ok :: "nat \<Rightarrow> nat list \<Rightarrow> nat list \<Rightarrow> 'r ecache \<Rightarrow> bool" where
  "staged_ok layer ms vs s \<longleftrightarrow>
     pending_src_layer s = Some layer \<and> layer < num_layers s \<and> length vs = length ms \<and> distinct vs \<and>
     set vs \<subseteq> {..<cache_size s} \<and> set ms \<subseteq> {..<num_experts s} \<and> num_indices s = int (length ms) \<and>
     length ms \<le> num_experts s \<and>
     take (length ms) (evict_slots s) = map int vs \<and> take (length ms) (src_indices s) = map int ms \<and>
     (\<forall>j < length ms. id_of_slot s ! (vs ! j) = int (layer * num_experts s + ms ! j))"

lemma copy_missing_ok:
  assumes i: "ec_inv s" and st: "staged_ok layer ms vs s" and b: "bank_caches s \<noteq> []" and c: "coherent (set vs) s"
  obtains s' where "copy_missing safe s = Inr s'" "ec_inv s'" "coherent {} s'"
    "s' = s\<lparr>bank_caches := bank_caches s'\<rparr>" "length (bank_caches s') = length (bank_caches s)"
proof -
  note S = st [unfolded staged_ok_def]
  define s' where "s' = copy_banks layer (zip vs ms) s"
  have pl: "staged s = zip vs ms" using S by (simp add: staged_def comp_def)
  have z: "zip (map int vs) (map int ms) = map (\<lambda>(d, x). (int d, int x)) (zip vs ms)" by (simp add: zip_map_map)
  have sp: "safe_copy_plan s = Inr (zip vs ms)"
  proof -
    have "\<not> (\<exists>(d, x) \<in> set (zip (map int vs) (map int ms)). d < 0 \<or> int (cache_size s) \<le> d \<or> x < 0 \<or> int (num_experts s) \<le> x)"
      using S unfolding z by (auto dest: set_zip_leftD set_zip_rightD)
    moreover have "distinct (map fst (zip (map int vs) (map int ms)))" using S by (simp add: distinct_map)
    ultimately show ?thesis using S by (simp add: safe_copy_plan_def Let_def comp_def del: zip_map_map)
  qed
  have r: "copy_missing safe s = Inr s'" using S b pl sp by (simp add: copy_missing_def s'_def)
  note B = banks_okD [OF ec_invD(11) [OF i]]
  have l: "length (bank_caches s') = length (bank_caches s)" using B(1) by (simp add: s'_def copy_banks_def)
  have k: "bank_caches s' ! j = copy_rows (bank_sources s ! j ! layer) (zip vs ms) (bank_caches s ! j)"
    if "j < length (bank_caches s)" for j
    using that B(1) by (simp add: s'_def copy_banks_def)
  have bk: "banks_ok s'"
  proof -
    have "length x = cache_size s" if "x \<in> set (bank_caches s')" for x
      using that k B(1,3) l by (metis copy_rows_length in_set_conv_nth)
    then show ?thesis using ec_invD(11) [OF i] l by (simp add: banks_ok_def s'_def copy_banks_def)
  qed
  have e: "s' = s\<lparr>bank_caches := bank_caches s'\<rparr>" by (simp add: s'_def copy_banks_def)
  have inv: "ec_inv s'"
    using i bk unfolding ec_inv_def by (simp add: s'_def copy_banks_def tables_ok_def)
  have "coherent {} s'"
    unfolding coherent_def
  proof (intro allI impI)
    fix j d n
    assume j: "j < length (bank_caches s')" and d: "d < cache_size s'" and n: "id_of_slot s' ! d = int n"
    have j': "j < length (bank_caches s)" "j < length (bank_sources s)" using j l B(1) by simp_all
    have d': "d < length (bank_caches s ! j)" using d B(3) [OF j'(2)] by (simp add: s'_def copy_banks_def)
    have n': "id_of_slot s ! d = int n" using n by (simp add: s'_def copy_banks_def)
    have ro: "row_of s' j n = row_of s j n" by (simp add: row_of_def s'_def copy_banks_def)
    have dz: "distinct (map fst (zip vs ms))" using S by simp
    show "bank_caches s' ! j ! d = row_of s' j n"
    proof (cases "d \<in> set vs")
      case True
      then obtain q where q: "q < length vs" "d = vs ! q" by (metis in_set_conv_nth)
      have mo: "map_of (zip vs ms) d = Some (ms ! q)" using map_of_zip_distinct(1) [of vs ms q] q S by simp
      have "bank_caches s' ! j ! d = bank_sources s ! j ! layer ! (ms ! q)"
        using copy_rows_nth [OF dz d'] k [OF j'(1)] mo by simp
      moreover have "n = layer * num_experts s + ms ! q"
        using S q n' by (metis of_nat_eq_iff)
      moreover have "ms ! q < num_experts s" using S q(1) by (metis lessThan_iff nth_mem subsetD)
      ultimately show ?thesis unfolding ro by (simp add: row_of_flat)
    next
      case False
      then have "bank_caches s' ! j ! d = bank_caches s ! j ! d"
        using copy_rows_nth [OF dz d'] k [OF j'(1)] map_of_zip_distinct(2) [of vs ms d] S by simp
      then show ?thesis using coherentD [OF c j'(1) _ False n'] d unfolding ro by (simp add: s'_def copy_banks_def)
    qed
  qed
  then show ?thesis by (rule that [OF r inv _ e l])
qed

section \<open>The hybrid step\<close>

lemma hybrid_resultD:
  assumes "hybrid_result layer ids s s' ms vs out"
  shows "ec_inv s'" "num_experts s' = num_experts s" "num_layers s' = num_layers s" "cache_size s' = cache_size s"
    "bank_sources s' = bank_sources s" "bank_caches s' = bank_caches s" "alphas s' = alphas s"
    "pending_src_layer s' = pending_src_layer s" "decode_target s' = decode_target s" "cpu_layer_ids s' = cpu_layer_ids s"
    "prefill_overlap s' = prefill_overlap s" "lru_step s' = lru_step s + 1" "distinct ms"
    "set ms \<subseteq> {e \<in> set ids. slot_for_id s ! (layer * num_experts s + e) = -1}" "length vs = length ms" "distinct vs"
    "set vs \<subseteq> {..<cache_size s}"
    "v \<in> set vs \<Longrightarrow> e \<in> set ids \<Longrightarrow> id_of_slot s ! v \<noteq> int (layer * num_experts s + e)"
    "v \<in> set vs \<Longrightarrow> c < cache_size s \<Longrightarrow> c \<notin> set vs \<Longrightarrow> \<forall>e \<in> set ids. id_of_slot s ! c \<noteq> int (layer * num_experts s + e) \<Longrightarrow>
       usage s ! v \<le> usage s ! c"
    "nat (num_indices s') = length ms" "take (length ms) (evict_slots s') = map int vs"
    "take (length ms) (src_indices s') = map int ms"
    "c < cache_size s \<Longrightarrow> c \<notin> set vs \<Longrightarrow> id_of_slot s' ! c = id_of_slot s ! c"
    "j < length ms \<Longrightarrow> id_of_slot s' ! (vs ! j) = int (layer * num_experts s + ms ! j)"
    "out = map (\<lambda>e. slot_for_id s' ! (layer * num_experts s + e)) ids"
  using assms unfolding hybrid_result_def Let_def by blast+

lemma hybrid_staged:
  assumes r: "hybrid_result layer ids s s' ms vs out" and l: "layer < num_layers s" "\<forall>e \<in> set ids. e < num_experts s"
    and p: "pending_src_layer s = Some layer" and c: "coherent {} s" and n: "0 \<le> num_indices s'"
  shows "staged_ok layer ms vs s'" "coherent (set vs) s'"
proof -
  note R = hybrid_resultD [OF r]
  have m: "set ms \<subseteq> {..<num_experts s}" using R(14) l(2) by auto
  have "length ms = card (set ms)" using R(13) by (simp add: distinct_card)
  also have "\<dots> \<le> card {..<num_experts s}" using m by (intro card_mono) auto
  finally have lm: "length ms \<le> num_experts s" by simp
  have n': "num_indices s' = int (length ms)" using n R(20) by simp
  show "staged_ok layer ms vs s'"
    unfolding staged_ok_def using R(2-4,8,15,16,17,21,22,24) p l(1) m lm n' by simp
  show "coherent (set vs) s'"
    unfolding coherent_def
  proof (intro allI impI)
    fix b d i
    assume a: "b < length (bank_caches s')" "d < cache_size s'" "d \<notin> set vs" "id_of_slot s' ! d = int i"
    have "id_of_slot s ! d = int i" using R(23) a R(4) by simp
    then show "bank_caches s' ! b ! d = row_of s' b i"
      using coherentD [OF c, of b d i] a R(2,4,5,6) by (simp add: row_of_def)
  qed
qed

lemma balanced_nonneg: "0 \<le> q \<Longrightarrow> 0 \<le> m \<Longrightarrow> 0 \<le> balanced_fetch q m"
proof -
  assume "0 \<le> q" "0 \<le> m"
  then have "0 \<le> m * q div q16" by (intro pos_imp_zdiv_nonneg_iff [THEN iffD2]) (simp_all add: q16_def)
  then show ?thesis by (simp add: balanced_fetch_def Let_def)
qed

lemma hybrid_cap_nonneg: "0 \<le> mf \<Longrightarrow> 0 \<le> m \<Longrightarrow> 0 \<le> hybrid_cap mf q m"
  using balanced_nonneg [of q m] by (simp add: hybrid_cap_def)

section \<open>The external slot cache\<close>

definition slot_result :: "nat \<Rightarrow> nat list \<Rightarrow> nat \<Rightarrow> nat \<Rightarrow> lru \<Rightarrow> lru \<Rightarrow> nat list \<Rightarrow> nat list \<Rightarrow> int list \<Rightarrow> bool" where
  "slot_result base ids n m t t' ms vs out \<longleftrightarrow>
     tables_ok n m t' \<and> lru_step t \<le> lru_step t' \<and> length (evict_slots t') = length (evict_slots t) \<and>
     length (src_indices t') = length (src_indices t) \<and>
     out = map (\<lambda>e. slot_for_id t' ! (base + e)) ids \<and> (\<forall>e \<in> set ids. slot_for_id t' ! (base + e) \<noteq> -1) \<and>
     set ms \<subseteq> set ids \<and> distinct ms \<and> length vs = length ms \<and> distinct vs \<and> set vs \<subseteq> {..<m} \<and>
     num_indices t' = int (length ms) \<and> take (length ms) (evict_slots t') = map int vs \<and>
     take (length ms) (src_indices t') = map int ms \<and>
     (\<forall>j < length ms. id_of_slot t' ! (vs ! j) = int (base + ms ! j)) \<and>
     (\<forall>c < m. c \<notin> set vs \<longrightarrow> id_of_slot t' ! c = id_of_slot t ! c)"

locale slot_cache =
  fixes lru_ensure :: "nat \<Rightarrow> nat list \<Rightarrow> lru \<Rightarrow> lru \<times> int list"
  assumes ensure: "tables_ok n m t \<Longrightarrow> E \<le> m \<Longrightarrow> base + E \<le> n \<Longrightarrow> length (evict_slots t) = E \<Longrightarrow> length (src_indices t) = E \<Longrightarrow>
    \<forall>e \<in> set ids. e < E \<Longrightarrow> \<exists>t' ms vs out. lru_ensure base ids t = (t', out) \<and> slot_result base ids n m t t' ms vs out"
begin

lemma ensure_experts_ok:
  fixes s :: "'r ecache"
  assumes i: "ec_inv s" and l: "layer < num_layers s" and ids: "\<forall>e \<in> set ids. e < num_experts s" and c: "coherent {} s"
  obtains s' ms vs out where "ensure_experts lru_ensure layer ids s = (s', out)" "ec_inv s'" "staged_ok layer ms vs s'"
    "coherent (set vs) s'" "out = map (\<lambda>e. slot_for_id s' ! (layer * num_experts s + e)) ids"
    "\<forall>e \<in> set ids. slot_for_id s' ! (layer * num_experts s + e) \<noteq> -1"
    "num_layers s' = num_layers s" "num_experts s' = num_experts s" "cache_size s' = cache_size s"
    "bank_sources s' = bank_sources s" "bank_caches s' = bank_caches s" "alphas s' = alphas s"
    "prefill_overlap s' = prefill_overlap s"
proof -
  define E where "E = num_experts s"
  note I = ec_invD [OF i, folded E_def]
  have t: "tables_ok (num_layers s * E) (cache_size s) (lru.truncate s)" using I(1) by (simp add: tables_ok_def lru.truncate_def)
  have be: "layer * E + E \<le> num_layers s * E"
    using l mult_le_mono1 [of "Suc layer" "num_layers s" E] by simp
  obtain t' ms vs out where e: "lru_ensure (layer * E) ids (lru.truncate s) = (t', out)"
    and r: "slot_result (layer * E) ids (num_layers s * E) (cache_size s) (lru.truncate s) t' ms vs out"
    using ensure [OF t I(2) be] I(4,5) ids by (force simp: lru.truncate_def E_def)
  note R = r [unfolded slot_result_def]
  define s' where "s' = s\<lparr>pending_src_layer := Some layer, slot_for_id := slot_for_id t', id_of_slot := id_of_slot t',
         usage := usage t', lru_step := lru_step t', evict_slots := evict_slots t',
         src_indices := src_indices t', num_indices := num_indices t'\<rparr>"
  have x: "ensure_experts lru_ensure layer ids s = (s', out)" using e by (simp add: ensure_experts_def s'_def E_def)
  have "tables_ok (num_layers s * E) (cache_size s) s'" using R by (simp add: tables_ok_def s'_def)
  moreover have "\<forall>r \<in> set (expert_recency s). -1 \<le> r \<and> r \<le> lru_step t'" using I(8) R by (fastforce simp: lru.truncate_def)
  ultimately have inv: "ec_inv s'"
    using I R unfolding ec_inv_def by (simp add: s'_def banks_ok_def lru.truncate_def E_def)
  have m: "set ms \<subseteq> {..<E}" using R ids by (auto simp: E_def)
  have "length ms = card (set ms)" using R by (simp add: distinct_card)
  also have "\<dots> \<le> card {..<E}" using m by (intro card_mono) auto
  finally have lm: "length ms \<le> E" by simp
  have st: "staged_ok layer ms vs s'" unfolding staged_ok_def using R l m lm by (simp add: s'_def E_def)
  have co: "coherent (set vs) s'"
    using c R unfolding coherent_def by (simp add: s'_def row_of_def lru.truncate_def)
  show ?thesis
    by (rule that [OF x inv st co]) (use R in \<open>simp_all add: s'_def E_def\<close>)
qed

end

text \<open>The CPU mirror with no cap on the fetches, on the tables alone.\<close>

definition reference_lru :: "nat \<Rightarrow> nat list \<Rightarrow> lru \<Rightarrow> lru \<times> int list" where
  "reference_lru base ids t =
     (let seen = seen_of ids;
          t1 = t\<lparr>lru_step := lru_step t + 1, usage := touch (lru_step t + 1) (slot_for_id t) (map ((+) base) seen) (usage t)\<rparr>;
          missing = filter (\<lambda>e. slot_for_id t1 ! (base + e) = -1) seen;
          t2 = (fold (fetch_one base) (enumerate 0 missing) t1)\<lparr>num_indices := int (length missing)\<rparr>
      in (t2, map (\<lambda>e. slot_for_id t2 ! (base + e)) ids))"

interpretation ref: slot_cache reference_lru
proof
  fix n m E base :: nat and t :: lru and ids :: "nat list"
  assume t: "tables_ok n m t" and E: "E \<le> m" and b: "base + E \<le> n" and ev: "length (evict_slots t) = E" "length (src_indices t) = E"
    and ids: "\<forall>e \<in> set ids. e < E"
  define seen where "seen = seen_of ids"
  define A where "A = (\<lambda>e. base + e) ` set ids"
  define t1 where "t1 = t\<lparr>lru_step := lru_step t + 1, usage := touch (lru_step t + 1) (slot_for_id t) (map ((+) base) seen) (usage t)\<rparr>"
  define ms where "ms = filter (\<lambda>e. slot_for_id t1 ! (base + e) = -1) seen"
  define t2 where "t2 = fold (fetch_one base) (enumerate 0 ms) t1"
  have A: "finite A" "A \<subseteq> {..<n}" "set (map ((+) base) seen) = A" using ids b by (auto simp: A_def seen_def seen_of)
  have cA: "card A \<le> m"
  proof -
    have "card A \<le> card (set ids)" unfolding A_def by (simp add: card_image_le)
    also have "\<dots> \<le> card {..<E}" using ids by (intro card_mono) auto
    finally show ?thesis using E by simp
  qed
  have k: "tables_ok n m t1" "hot_ok A m t1" by (rule touch_ok [OF t A(2,3)]; simp add: t1_def)+
  have ms: "distinct ms" "\<forall>e \<in> set ms. base + e \<in> A \<and> slot_for_id t1 ! (base + e) = -1" "set ms \<subseteq> set ids"
    by (auto simp: ms_def A_def seen_def seen_of)
  obtain vs where f: "fetched n m base A 0 ms t1 t2 vs"
    using fetch_loop_ok [OF k A(1,2) cA ms(1,2), of 0] unfolding t2_def by blast
  note g = fetchedD [OF f]
  obtain sf io us ev' src where t2: "t2 = t1\<lparr>slot_for_id := sf, id_of_slot := io, usage := us, evict_slots := ev', src_indices := src\<rparr>"
    using g(17) by blast
  have "length ms = card (set ms)" using ms(1) by (simp add: distinct_card)
  also have "\<dots> \<le> card {..<E}" using ms(3) ids by (intro card_mono) auto
  finally have lm: "length ms \<le> E" by simp
  let ?t' = "t2\<lparr>num_indices := int (length ms)\<rparr>"
  have r: "slot_for_id t2 ! (base + e) \<noteq> -1" if e: "e \<in> set ids" for e
  proof (cases "e \<in> set ms")
    case True
    then obtain j where "j < length ms" "e = ms ! j" by (metis in_set_conv_nth)
    then show ?thesis using g(8) [of j] by simp
  next
    case False
    then have "slot_for_id t1 ! (base + e) \<noteq> -1" using e by (simp add: ms_def seen_def seen_of)
    moreover have "base + e \<in> A" "base + e \<notin> (\<lambda>e. base + e) ` set ms" using e False by (auto simp: A_def)
    ultimately show ?thesis using g(11) by simp
  qed
  have v: "set vs \<subseteq> {..<m}" using g(5) by auto
  have "reference_lru base ids t = (?t', map (\<lambda>e. slot_for_id ?t' ! (base + e)) ids)"
    unfolding reference_lru_def Let_def by (simp only: seen_def t1_def ms_def t2_def)
  moreover have "slot_result base ids n m t ?t' ms vs (map (\<lambda>e. slot_for_id ?t' ! (base + e)) ids)"
    unfolding slot_result_def using g r ms v lm ev by (simp add: tables_ok_def t2 t1_def)
  ultimately show "\<exists>t' ms vs out. reference_lru base ids t = (t', out) \<and> slot_result base ids n m t t' ms vs out" by blast
qed

end
