(* ===== verification/Expert_Layers.thy ===== *)
theory Expert_Layers
  imports Expert_Steps
begin

text \<open>
  Whole-layer movements: \<open>materialize_layer\<close>, the invalidation of a prefill buffer and the two ways to fill
  it. A filled buffer holds exactly the layer's rows, whichever way it was filled.
\<close>

section \<open>Folds of stores\<close>

lemma fold_upd_lanes:
  assumes "n \<le> length u"
  shows "length (fold (\<lambda>c u. if P c then u[c := g c] else u) [0..<n] u) = length u"
    "x < length u \<Longrightarrow> fold (\<lambda>c u. if P c then u[c := g c] else u) [0..<n] u ! x = (if x < n \<and> P x then g x else u ! x)"
  using assms by (induction n) (auto simp: nth_list_update)

lemma fold_upd_shift:
  assumes "base + n \<le> length u"
  shows "length (fold (\<lambda>c u. u[base + c := g c]) [0..<n] u) = length u"
    "x < length u \<Longrightarrow> fold (\<lambda>c u. u[base + c := g c]) [0..<n] u ! x = (if base \<le> x \<and> x < base + n then g (x - base) else u ! x)"
  using assms by (induction n) (auto simp: nth_list_update)

lemma fold_upd_none:
  "length (fold (\<lambda>i u. if P i then u[f i := v] else u) xs u) = length u"
  "x < length u \<Longrightarrow> fold (\<lambda>i u. if P i then u[f i := v] else u) xs u ! x = (if \<exists>i \<in> set xs. P i \<and> f i = x then v else u ! x)"
proof -
  show "length (fold (\<lambda>i u. if P i then u[f i := v] else u) xs u) = length u" by (induction xs arbitrary: u) auto
  show "x < length u \<Longrightarrow> fold (\<lambda>i u. if P i then u[f i := v] else u) xs u ! x = (if \<exists>i \<in> set xs. P i \<and> f i = x then v else u ! x)"
    by (induction xs arbitrary: u) (auto simp: nth_list_update)
qed

section \<open>Tables with some slots given up\<close>

text \<open>
  The slots \<open>D\<close> lose their experts, and a set of other slots may then get new ones.
\<close>

lemma tables_drop:
  assumes t: "tables_ok n m t"
    and sf: "length (slot_for_id t') = n" "\<And>i. i < n \<Longrightarrow> slot_for_id t' ! i = (if \<exists>c \<in> D. c < m \<and> id_of_slot t ! c = int i then -1 else slot_for_id t ! i)"
    and io: "length (id_of_slot t') = m" "\<And>c. c < m \<Longrightarrow> id_of_slot t' ! c = (if c \<in> D then -1 else id_of_slot t ! c)"
    and us: "length (usage t') = m" "\<And>c. c < m \<Longrightarrow> 0 \<le> usage t' ! c \<and> usage t' ! c \<le> lru_step t'" and st: "0 \<le> lru_step t'"
  shows "tables_ok n m t'"
proof -
  note d = tables_okD [OF t]
  have 1: "slot_for_id t' ! i = -1 \<or> (\<exists>c < m. slot_for_id t' ! i = int c \<and> id_of_slot t' ! c = int i)" if i: "i < n" for i
  proof (rule slot_cases [OF t i])
    assume "slot_for_id t ! i = -1"
    then show ?thesis using sf(2) [OF i] by auto
  next
    fix c assume c: "c < m" "slot_for_id t ! i = int c" "id_of_slot t ! c = int i"
    show ?thesis
    proof (cases "c \<in> D")
      case True
      then show ?thesis using sf(2) [OF i] c by auto
    next
      case False
      have "\<not> (\<exists>c \<in> D. c < m \<and> id_of_slot t ! c = int i)"
      proof
        assume "\<exists>c \<in> D. c < m \<and> id_of_slot t ! c = int i"
        then obtain c' where "c' \<in> D" "c' < m" "slot_for_id t ! i = int c'" using slot_iff [OF t i] by blast
        then show False using c(2) False by simp
      qed
      then have "slot_for_id t' ! i = slot_for_id t ! i" unfolding sf(2) [OF i] by (rule if_not_P)
      moreover have "id_of_slot t' ! c = id_of_slot t ! c" using io(2) [OF c(1)] False by simp
      ultimately show ?thesis using c by auto
    qed
  qed
  have 2: "id_of_slot t' ! c = -1 \<or> (\<exists>i < n. id_of_slot t' ! c = int i \<and> slot_for_id t' ! i = int c)" if c: "c < m" for c
  proof (cases "c \<in> D \<or> id_of_slot t ! c = -1")
    case True
    then show ?thesis using io(2) [OF c] by auto
  next
    case False
    then obtain i where i: "i < n" "id_of_slot t ! c = int i" "slot_for_id t ! i = int c" using d(6) [OF c] by blast
    have "\<not> (\<exists>c \<in> D. c < m \<and> id_of_slot t ! c = int i)"
    proof
      assume "\<exists>c \<in> D. c < m \<and> id_of_slot t ! c = int i"
      then obtain c' where "c' \<in> D" "c' < m" "slot_for_id t ! i = int c'" using slot_iff [OF t i(1)] by blast
      then show False using i(3) False by simp
    qed
    then have "slot_for_id t' ! i = slot_for_id t ! i" unfolding sf(2) [OF i(1)] by (rule if_not_P)
    moreover have "id_of_slot t' ! c = id_of_slot t ! c" using io(2) [OF c] False by simp
    ultimately show ?thesis using i by auto
  qed
  show ?thesis unfolding tables_ok_def using sf(1) io(1) us st 1 2 by blast
qed

lemma tables_add:
  assumes t: "tables_ok n m t" and b: "base + E \<le> n" "E \<le> m"
    and none: "\<And>c. c < E \<Longrightarrow> id_of_slot t ! c = -1" "\<And>i. base \<le> i \<Longrightarrow> i < base + E \<Longrightarrow> slot_for_id t ! i = -1"
    and sf: "length (slot_for_id t') = n" "\<And>i. i < n \<Longrightarrow> slot_for_id t' ! i = (if base \<le> i \<and> i < base + E then int (i - base) else slot_for_id t ! i)"
    and io: "length (id_of_slot t') = m" "\<And>c. c < m \<Longrightarrow> id_of_slot t' ! c = (if c < E then int (base + c) else id_of_slot t ! c)"
    and us: "length (usage t') = m" "\<And>c. c < m \<Longrightarrow> 0 \<le> usage t' ! c \<and> usage t' ! c \<le> lru_step t'" and st: "0 \<le> lru_step t'"
  shows "tables_ok n m t'"
proof -
  note d = tables_okD [OF t]
  have 1: "slot_for_id t' ! i = -1 \<or> (\<exists>c < m. slot_for_id t' ! i = int c \<and> id_of_slot t' ! c = int i)" if i: "i < n" for i
  proof (cases "base \<le> i \<and> i < base + E")
    case True
    then have "i - base < m" "slot_for_id t' ! i = int (i - base)" using b(2) sf(2) [OF i] by auto
    moreover have "id_of_slot t' ! (i - base) = int i" using io(2) [OF \<open>i - base < m\<close>] True by auto
    ultimately show ?thesis by blast
  next
    case False
    then have e: "slot_for_id t' ! i = slot_for_id t ! i" unfolding sf(2) [OF i] by (rule if_not_P)
    show ?thesis
    proof (rule slot_cases [OF t i])
      fix c assume c: "c < m" "slot_for_id t ! i = int c" "id_of_slot t ! c = int i"
      then have "\<not> c < E" using none(1) [of c] by auto
      then show ?thesis using c e io(2) [OF c(1)] by auto
    qed (use e in simp)
  qed
  have 2: "id_of_slot t' ! c = -1 \<or> (\<exists>i < n. id_of_slot t' ! c = int i \<and> slot_for_id t' ! i = int c)" if c: "c < m" for c
  proof (cases "c < E")
    case True
    then have "base + c < n" "id_of_slot t' ! c = int (base + c)" using b(1) io(2) [OF c] by auto
    moreover have "slot_for_id t' ! (base + c) = int c" using sf(2) [OF \<open>base + c < n\<close>] True by simp
    ultimately show ?thesis by blast
  next
    case False
    then have e: "id_of_slot t' ! c = id_of_slot t ! c" using io(2) [OF c] by simp
    show ?thesis
    proof (cases "id_of_slot t ! c = -1")
      case no: False
      then obtain i where i: "i < n" "id_of_slot t ! c = int i" "slot_for_id t ! i = int c" using d(6) [OF c] by blast
      have "\<not> (base \<le> i \<and> i < base + E)" using none(2) [of i] i(3) by auto
      then have "slot_for_id t' ! i = slot_for_id t ! i" unfolding sf(2) [OF i(1)] by (rule if_not_P)
      then show ?thesis using e i by auto
    qed (use e in simp)
  qed
  show ?thesis unfolding tables_ok_def using sf(1) io(1) us st 1 2 by blast
qed

section \<open>Materialising a layer\<close>

lemma materialize_ok:
  fixes s :: "'r ecache"
  assumes i: "ec_inv s" and l: "layer < num_layers s" and c: "coherent {} s"
  defines "s' \<equiv> materialize_layer layer s"
  shows "ec_inv s'" "staged_ok layer [0..<num_experts s] [0..<num_experts s] s'" "coherent {..<num_experts s} s'"
    "\<And>c. c < num_experts s \<Longrightarrow> id_of_slot s' ! c = int (layer * num_experts s + c)"
proof -
  define E where "E = num_experts s"
  define base where "base = layer * E"
  define n where "n = num_layers s * E"
  define m where "m = cache_size s"
  note I = ec_invD [OF i, folded E_def, folded n_def m_def]
  note d = tables_okD [OF I(1)]
  have be: "base + E \<le> n" using l mult_le_mono1 [of "Suc layer" "num_layers s" E] by (simp add: base_def n_def)
  define same where "same c \<longleftrightarrow> int base \<le> id_of_slot s ! c \<and> id_of_slot s ! c < int (base + E)" for c
  define D where "D = {c. c < E \<or> same c}"
  define t1 where "t1 = s\<lparr>lru_step := lru_step s + 1,
    id_of_slot := map (\<lambda>c. if c \<in> D then -1 else id_of_slot s ! c) [0..<m],
    slot_for_id := map (\<lambda>i. if \<exists>c \<in> D. c < m \<and> id_of_slot s ! c = int i then -1 else slot_for_id s ! i) [0..<n],
    usage := map (\<lambda>c. if same c then 0 else usage s ! c) [0..<m]\<rparr>"
  have u1: "usage s ! c \<le> lru_step s + 1" if "c < m" for c using d(8) [OF that] by simp
  have t1: "tables_ok n m t1"
    by (rule tables_drop [OF I(1), where D = D]) (use d(4,7) u1 in \<open>auto simp: t1_def\<close>)
  have sm: "lanes m (\<lambda>c. int base \<le> id_of_slot s ! c \<and> id_of_slot s ! c < int (base + E)) ! c = same c" if "c < m" for c
    using that by (simp add: lanes_def same_def)
  let ?S = "lanes m (\<lambda>c. int base \<le> id_of_slot s ! c \<and> id_of_slot s ! c < int (base + E))"
  define io1 where "io1 = fold (\<lambda>c io. if ?S ! c then io[c := -1] else io) [0..<m] (id_of_slot s)"
  define us1 where "us1 = fold (\<lambda>c u. if ?S ! c then u[c := 0] else u) [0..<m] (usage s)"
  define sf1 where "sf1 = fold (\<lambda>c sf. if 0 \<le> id_of_slot s ! c \<and> \<not> ?S ! c then sf[nat (id_of_slot s ! c) := -1] else sf) [0..<E] (slot_for_id s)"
  have s': "s' = s\<lparr>pending_src_layer := Some layer, lru_step := lru_step s + 1,
        id_of_slot := fold (\<lambda>c io. io[c := int (base + c)]) [0..<E] io1,
        slot_for_id := fold (\<lambda>c sf. sf[base + c := int c]) [0..<E] sf1,
        usage := fold (\<lambda>c u. u[c := lru_step s + 1]) [0..<E] us1,
        evict_slots := fold (\<lambda>c ev. ev[c := int c]) [0..<E] (evict_slots s),
        src_indices := fold (\<lambda>c ev. ev[c := int c]) [0..<E] (src_indices s),
        num_indices := int E\<rparr>"
    unfolding s'_def materialize_layer_def Let_def io1_def us1_def sf1_def E_def m_def base_def by simp
  have io1: "length io1 = m" "\<And>c. c < m \<Longrightarrow> io1 ! c = (if same c then -1 else id_of_slot s ! c)"
    using fold_upd_lanes [where n = m and u = "id_of_slot s" and P = "\<lambda>c. ?S ! c" and g = "\<lambda>_. -1"] d(2) sm by (simp_all add: io1_def)
  have us1: "length us1 = m" "\<And>c. c < m \<Longrightarrow> us1 ! c = (if same c then 0 else usage s ! c)"
    using fold_upd_lanes [where n = m and u = "usage s" and P = "\<lambda>c. ?S ! c" and g = "\<lambda>_. 0"] d(3) sm by (simp_all add: us1_def)
  have sf1: "length sf1 = n" "\<And>i. i < n \<Longrightarrow> sf1 ! i = (if \<exists>c < E. id_of_slot s ! c = int i \<and> \<not> same c then -1 else slot_for_id s ! i)"
  proof -
    show "length sf1 = n" using d(1) by (simp add: sf1_def fold_upd_none)
    fix i assume x: "i < n"
    have "sf1 ! i = (if \<exists>c \<in> set [0..<E]. (0 \<le> id_of_slot s ! c \<and> \<not> ?S ! c) \<and> nat (id_of_slot s ! c) = i then -1 else slot_for_id s ! i)"
      unfolding sf1_def by (rule fold_upd_none(2)) (use x d(1) in simp)
    moreover have "(\<exists>c \<in> set [0..<E]. (0 \<le> id_of_slot s ! c \<and> \<not> ?S ! c) \<and> nat (id_of_slot s ! c) = i) \<longleftrightarrow>
      (\<exists>c < E. id_of_slot s ! c = int i \<and> \<not> same c)"
    proof -
      have "?S ! c = same c" if "c < E" for c using sm [of c] that I(2) by simp
      then have "((0 \<le> id_of_slot s ! c \<and> \<not> ?S ! c) \<and> nat (id_of_slot s ! c) = i) \<longleftrightarrow> (id_of_slot s ! c = int i \<and> \<not> same c)"
        if "c < E" for c using that by auto
      then show ?thesis by (intro iffI) (force simp: Bex_def)+
    qed
    ultimately show "sf1 ! i = (if \<exists>c < E. id_of_slot s ! c = int i \<and> \<not> same c then -1 else slot_for_id s ! i)" by simp
  qed
  have io: "length (id_of_slot s') = m" "\<And>c. c < m \<Longrightarrow> id_of_slot s' ! c = (if c < E then int (base + c) else if same c then -1 else id_of_slot s ! c)"
    using fold_upd_shift [where base = 0 and n = E and u = io1 and g = "\<lambda>c. int (base + c)"] io1 I(2) by (simp_all add: s')
  have us: "length (usage s') = m" "\<And>c. c < m \<Longrightarrow> usage s' ! c = (if c < E then lru_step s + 1 else if same c then 0 else usage s ! c)"
    using fold_upd_shift [where base = 0 and n = E and u = us1 and g = "\<lambda>c. lru_step s + 1"] us1 I(2) by (simp_all add: s')
  have sf: "length (slot_for_id s') = n" "\<And>i. i < n \<Longrightarrow> slot_for_id s' ! i = (if base \<le> i \<and> i < base + E then int (i - base) else sf1 ! i)"
    using fold_upd_shift [where base = base and n = E and u = sf1 and g = int] sf1(1) be by (simp_all add: s')
  have T: "tables_ok n m s'"
  proof (rule tables_add [OF t1 be I(2) _ _ sf(1) _ io(1) _ us(1)])
    show "id_of_slot t1 ! c = -1" if "c < E" for c using that I(2) by (simp add: t1_def D_def)
    show "slot_for_id t1 ! i = -1" if "base \<le> i" "i < base + E" for i
    proof -
      have x: "i < n" using that be by simp
      show ?thesis
      proof (rule slot_cases [OF I(1) x])
        fix c assume c: "c < m" "slot_for_id s ! i = int c" "id_of_slot s ! c = int i"
        then have "c \<in> D" using that by (simp add: D_def same_def)
        then show ?thesis using x c by (auto simp: t1_def)
      qed (use x in \<open>simp add: t1_def\<close>)
    qed
    show "slot_for_id s' ! i = (if base \<le> i \<and> i < base + E then int (i - base) else slot_for_id t1 ! i)" if x: "i < n" for i
    proof (cases "base \<le> i \<and> i < base + E")
      case False
      have "(\<exists>c < E. id_of_slot s ! c = int i \<and> \<not> same c) \<longleftrightarrow> (\<exists>c \<in> D. c < m \<and> id_of_slot s ! c = int i)"
        using False I(2) by (auto simp: D_def same_def)
      moreover have "slot_for_id t1 ! i = (if \<exists>c \<in> D. c < m \<and> id_of_slot s ! c = int i then -1 else slot_for_id s ! i)"
        using x by (simp add: t1_def cong: if_cong)
      ultimately have "sf1 ! i = slot_for_id t1 ! i" using sf1(2) [OF x] by presburger
      then show ?thesis unfolding sf(2) [OF x] by simp
    qed (use sf(2) [OF x] in simp)
    show "id_of_slot s' ! c = (if c < E then int (base + c) else id_of_slot t1 ! c)" if "c < m" for c
      using io(2) [OF that] that by (simp add: t1_def D_def)
    show "0 \<le> usage s' ! c \<and> usage s' ! c \<le> lru_step s'" if "c < m" for c
      using us(2) [OF that] d(4) d(7,8) [OF that] by (auto simp: s')
    show "0 \<le> lru_step s'" using d(4) by (simp add: s')
  qed
  have ev: "evict_slots s' = map int [0..<E]" "src_indices s' = map int [0..<E]"
    using fold_upd_shift [where base = 0 and n = E and u = "evict_slots s" and g = int] fold_upd_shift [where base = 0 and n = E and u = "src_indices s" and g = int] I(4,5)
    by (auto simp: s' intro!: nth_equalityI)
  have rec: "-1 \<le> r \<and> r \<le> lru_step s + 1" if "r \<in> set (expert_recency s)" for r using I(8) [OF that] by simp
  show "ec_inv s'"
    using T I(2,3,6,7,9-11) ev rec unfolding ec_inv_def
    by (simp add: s' E_def n_def m_def banks_ok_def)
  show "staged_ok layer [0..<num_experts s] [0..<num_experts s] s'"
    unfolding staged_ok_def using l ev io(2) I(2) by (auto simp: s' E_def [symmetric] m_def [symmetric] base_def)
  show "coherent {..<num_experts s} s'"
    unfolding coherent_def
  proof (intro allI impI)
    fix b c' k assume a: "b < length (bank_caches s')" "c' < cache_size s'" "c' \<notin> {..<num_experts s}" "id_of_slot s' ! c' = int k"
    have c': "c' < m" using a(2) by (simp add: s' m_def)
    have "id_of_slot s ! c' = int k" using io(2) [OF c'] a(3,4) by (simp add: E_def split: if_splits)
    then show "bank_caches s' ! b ! c' = row_of s' b k"
      using coherentD [OF c, of b c' k] a(1) c' by (simp add: s' row_of_def m_def)
  qed
  show "\<And>c. c < num_experts s \<Longrightarrow> id_of_slot s' ! c = int (layer * num_experts s + c)"
    using io(2) I(2) by (simp add: E_def base_def)
qed

end
