(* ===== verification/Expert_Prefill.thy ===== *)
theory Expert_Prefill
  imports Expert_Layers
begin

text \<open>
  The prefill double buffer: a prefetch gives up the slots of its buffer and leaves the layer's rows
  there, whether it copies the whole layer from the host or gathers the resident experts from the slots
  past the buffers and copies only the missing ones.
\<close>

section \<open>Coalesced runs\<close>

lemma run_starts_Cons:
  "run_starts (x # y # zs) =
     (if y = x + 1 then 0 # map Suc (tl (run_starts (y # zs))) else 0 # map Suc (run_starts (y # zs)))"
proof -
  let ?P = "\<lambda>xs i. (xs::nat list) ! Suc i \<noteq> xs ! i + 1"
  have "[0..<length (x # y # zs) - 1] = 0 # map Suc [0..<length (y # zs) - 1]"
    by (simp add: upt_conv_Cons map_Suc_upt del: upt_Suc)
  then have "filter (?P (x # y # zs)) [0..<length (x # y # zs) - 1] =
      (if y = x + 1 then [] else [0]) @ map Suc (filter (?P (y # zs)) [0..<length (y # zs) - 1])"
    by (simp add: filter_map comp_def)
  then show ?thesis by (simp add: run_starts_def)
qed

lemma run_starts_hd: "run_starts xs = 0 # tl (run_starts xs)"
  by (simp add: run_starts_def)

lemma map2_Suc: "map2 (-) (map Suc xs) (map Suc ys) = map2 (-) xs (ys :: nat list)"
  by (induction xs ys rule: list_induct2') auto

lemma miss_runs_Cons:
  "miss_runs (x # y # zs) =
     (if y = x + 1 then (case miss_runs (y # zs) of [] \<Rightarrow> [] | (st, n) # rs \<Rightarrow> (x, Suc n) # rs)
      else (x, 1) # miss_runs (y # zs))"
proof -
  define T where "T = tl (run_starts (y # zs))"
  define L where "L = length (y # zs)"
  have r: "run_starts (y # zs) = 0 # T" unfolding T_def by (rule run_starts_hd)
  have m: "miss_runs (y # zs) = zip (map ((!) (y # zs)) (0 # T)) (map2 (-) (T @ [L]) (0 # T))"
    by (simp add: miss_runs_def r L_def)
  have s: "map ((!) (x # y # zs)) (map Suc ts) = map ((!) (y # zs)) ts" for ts by simp
  show ?thesis
  proof (cases "y = x + 1")
    case True
    have q: "run_starts (x # y # zs) = 0 # map Suc T" unfolding run_starts_Cons if_P [OF True] r by simp
    have "miss_runs (x # y # zs) = zip (x # map ((!) (y # zs)) T) (map2 (-) (map Suc (T @ [L])) (0 # map Suc T))"
      unfolding miss_runs_def q by (simp add: L_def comp_def)
    also have "\<dots> = (case miss_runs (y # zs) of [] \<Rightarrow> [] | (st, n) # rs \<Rightarrow> (x, Suc n) # rs)"
    proof (cases T)
      case (Cons a ts)
      show ?thesis unfolding m Cons using map2_Suc [of "ts @ [L]" "a # ts"] by simp
    qed (simp add: m)
    finally show ?thesis using True by simp
  next
    case False
    have q: "run_starts (x # y # zs) = 0 # map Suc (0 # T)" unfolding run_starts_Cons if_not_P [OF False] r by simp
    have "miss_runs (x # y # zs) = zip (x # map ((!) (y # zs)) (0 # T)) (map2 (-) (map Suc (0 # T @ [L])) (0 # map Suc (0 # T)))"
      unfolding miss_runs_def q by (simp add: L_def comp_def)
    also have "\<dots> = (x, 1) # zip (map ((!) (y # zs)) (0 # T)) (map2 (-) (map Suc (T @ [L])) (map Suc (0 # T)))" by simp
    also have "\<dots> = (x, 1) # miss_runs (y # zs)" unfolding m map2_Suc ..
    finally show ?thesis using False by simp
  qed
qed

lemma miss_runs_expand:
  "miss \<noteq> [] \<Longrightarrow> concat (map (\<lambda>(st, n). [st..<st + n]) (miss_runs miss)) = miss \<and>
     (\<exists>n rs. miss_runs miss = (hd miss, Suc n) # rs) \<and> (\<forall>(st, n) \<in> set (miss_runs miss). 0 < n)"
proof (induction miss rule: induct_list012)
  case (2 x)
  have "miss_runs [x] = [(x, 1)]" by (simp add: miss_runs_def run_starts_def)
  then show ?case by simp
next
  case (3 x y zs)
  then obtain n rs where r: "miss_runs (y # zs) = (y, Suc n) # rs" and
    c: "concat (map (\<lambda>(st, n). [st..<st + n]) (miss_runs (y # zs))) = y # zs" and
    z: "\<forall>(st, n) \<in> set (miss_runs (y # zs)). 0 < n" by auto
  show ?case
  proof (cases "y = x + 1")
    case True
    then have e: "miss_runs (x # y # zs) = (x, Suc (Suc n)) # rs"
      unfolding miss_runs_Cons if_P [OF True] r by simp
    have u: "[x..<x + Suc (Suc n)] = x # [y..<y + Suc n]" using True by (simp add: upt_conv_Cons del: upt_Suc)
    have "concat (map (\<lambda>(st, n). [st..<st + n]) ((x, Suc (Suc n)) # rs)) =
        x # concat (map (\<lambda>(st, n). [st..<st + n]) ((y, Suc n) # rs))"
      by (simp only: list.map concat.simps prod.case u append_Cons)
    then show ?thesis using c z unfolding e r by (simp del: upt_Suc)
  next
    case False
    then have e: "miss_runs (x # y # zs) = (x, 1) # miss_runs (y # zs)" by (simp add: miss_runs_Cons)
    show ?thesis using c z unfolding e by simp
  qed
qed simp

lemma miss_runs_cover: "(\<exists>(st, n) \<in> set (miss_runs miss). st \<le> e \<and> e < st + n) \<longleftrightarrow> e \<in> set miss"
proof (cases "miss = []")
  case False
  then have "e \<in> set miss \<longleftrightarrow> e \<in> set (concat (map (\<lambda>(st, n). [st..<st + n]) (miss_runs miss)))"
    using miss_runs_expand by simp
  then show ?thesis by auto
qed (simp add: miss_runs_def)

section \<open>Slices\<close>

lemma put_slice_nth:
  assumes "a + length ys \<le> length xs"
  shows "length (put_slice a ys xs) = length xs"
    "c < length xs \<Longrightarrow> put_slice a ys xs ! c = (if a \<le> c \<and> c < a + length ys then ys ! (c - a) else xs ! c)"
  using assms by (auto simp: put_slice_def nth_append)

lemma fill_slice_nth:
  assumes "a + n \<le> length xs"
  shows "length (fill_slice a n v xs) = length xs"
    "c < length xs \<Longrightarrow> fill_slice a n v xs ! c = (if a \<le> c \<and> c < a + n then v else xs ! c)"
  using assms by (auto simp: fill_slice_def nth_append)

lemma batch_copy_nth:
  assumes "\<forall>(d, x, n) \<in> set es. d = o' + x \<and> x + n \<le> length src \<and> d + n \<le> length cache"
  shows "length (batch_copy src es cache) = length cache \<and>
    (\<forall>c < length cache. batch_copy src es cache ! c =
       (if \<exists>(d, x, n) \<in> set es. d \<le> c \<and> c < d + n then src ! (c - o') else cache ! c))"
  using assms
proof (induction es arbitrary: cache)
  case (Cons p es)
  obtain d x n where p: "p = (d, x, n)" by (cases p)
  define k where "k = put_slice d (take n (drop x src)) cache"
  have b: "d = o' + x" "x + n \<le> length src" "d + n \<le> length cache" using Cons.prems by (auto simp: p)
  have l: "length (take n (drop x src)) = n" using b(2) by simp
  have k: "length k = length cache" "\<And>c. c < length cache \<Longrightarrow> k ! c = (if d \<le> c \<and> c < d + n then src ! (c - o') else cache ! c)"
    using put_slice_nth [of d "take n (drop x src)" cache] b unfolding k_def l by auto
  have e: "batch_copy src (p # es) cache = batch_copy src es k" by (simp add: batch_copy_def p k_def)
  have "\<forall>(d, x, n) \<in> set es. d = o' + x \<and> x + n \<le> length src \<and> d + n \<le> length k" using Cons.prems k(1) by auto
  note h = Cons.IH [OF this]
  show ?case unfolding e using h k by (auto simp: p)
qed (simp add: batch_copy_def)

section \<open>Filling a buffer\<close>

definition buffer_holds :: "nat \<Rightarrow> nat \<Rightarrow> 'r ecache \<Rightarrow> bool" where
  "buffer_holds b layer s \<longleftrightarrow>
     (\<forall>j < length (bank_caches s). \<forall>e < num_experts s. bank_caches s ! j ! (b * num_experts s + e) = bank_sources s ! j ! layer ! e)"

definition in_buffer :: "nat \<Rightarrow> nat \<Rightarrow> nat \<Rightarrow> bool" where
  "in_buffer b E c \<longleftrightarrow> b * E \<le> c \<and> c < b * E + E"

lemma buffer_bound: "b < 2 \<Longrightarrow> 2 * E \<le> m \<Longrightarrow> b * E + E \<le> (m::nat)"
  by (cases "b = 0") (auto simp: less_2_cases_iff)

text \<open>What a prefetch leaves unchanged, and what it does to the tables.\<close>

definition refilled :: "nat \<Rightarrow> 'r ecache \<Rightarrow> 'r ecache \<Rightarrow> bool" where
  "refilled b s s' \<longleftrightarrow>
     num_layers s' = num_layers s \<and> num_experts s' = num_experts s \<and> cache_size s' = cache_size s \<and>
     prefill_overlap s' = prefill_overlap s \<and> bank_sources s' = bank_sources s \<and> hit_active s' = hit_active s \<and>
     slot_snapshot s' = slot_snapshot s \<and> buf_layer s' = buf_layer s \<and> buf_released s' = buf_released s \<and>
     length (bank_caches s') = length (bank_caches s) \<and> alphas s' = alphas s \<and>
     (\<forall>j < length (bank_caches s). \<forall>c < cache_size s. \<not> in_buffer b (num_experts s) c \<longrightarrow> bank_caches s' ! j ! c = bank_caches s ! j ! c) \<and>
     (\<forall>c < cache_size s. id_of_slot s' ! c = (if in_buffer b (num_experts s) c then -1 else id_of_slot s ! c)) \<and>
     (\<forall>i < num_layers s * num_experts s. slot_for_id s' ! i =
        (if \<exists>c < cache_size s. in_buffer b (num_experts s) c \<and> id_of_slot s ! c = int i then -1 else slot_for_id s ! i))"

lemma invalidate_tables:
  fixes s :: "'r ecache"
  assumes i: "ec_inv s" and b: "b < 2" "2 * num_experts s \<le> cache_size s"
  defines "t \<equiv> invalidate_prefill_buffer b s"
  shows "tables_ok (num_layers s * num_experts s) (cache_size s) t"
    "\<And>c. c < cache_size s \<Longrightarrow> id_of_slot t ! c = (if in_buffer b (num_experts s) c then -1 else id_of_slot s ! c)"
    "\<And>i. i < num_layers s * num_experts s \<Longrightarrow> slot_for_id t ! i =
       (if \<exists>c < cache_size s. in_buffer b (num_experts s) c \<and> id_of_slot s ! c = int i then -1 else slot_for_id s ! i)"
proof -
  define E where "E = num_experts s"
  define n where "n = num_layers s * E"
  define m where "m = cache_size s"
  note I = ec_invD [OF i, folded E_def, folded n_def m_def]
  note d = tables_okD [OF I(1)]
  have be: "b * E + E \<le> m" using buffer_bound b unfolding E_def m_def .
  let ?old = "take E (drop (b * E) (id_of_slot s))"
  have t: "t = s\<lparr>slot_for_id := fold (\<lambda>i sf. if 0 \<le> i then sf[nat i := -1] else sf) ?old (slot_for_id s),
      id_of_slot := fill_slice (b * E) E (-1) (id_of_slot s), usage := fill_slice (b * E) E 0 (usage s)\<rparr>"
    by (simp add: t_def invalidate_prefill_buffer_def Let_def E_def)
  have old: "x \<in> set ?old \<longleftrightarrow> (\<exists>c < m. in_buffer b E c \<and> id_of_slot s ! c = x)" for x
  proof
    assume "x \<in> set ?old"
    then obtain k where "k < length ?old" "?old ! k = x" by (metis in_set_conv_nth)
    then show "\<exists>c < m. in_buffer b E c \<and> id_of_slot s ! c = x"
      using be d(2) by (intro exI [of _ "b * E + k"]) (auto simp: in_buffer_def)
  next
    assume "\<exists>c < m. in_buffer b E c \<and> id_of_slot s ! c = x"
    then obtain c where c: "c < m" "in_buffer b E c" "id_of_slot s ! c = x" by blast
    then have "c - b * E < length ?old" "?old ! (c - b * E) = x" using be d(2) by (auto simp: in_buffer_def)
    then show "x \<in> set ?old" by (metis nth_mem)
  qed
  have sf: "length (slot_for_id t) = n" using d(1) by (simp add: t fold_upd_none(1) [where P = "\<lambda>i. 0 \<le> i" and f = nat])
  have sfi: "slot_for_id t ! i = (if \<exists>c < m. in_buffer b E c \<and> id_of_slot s ! c = int i then -1 else slot_for_id s ! i)" if x: "i < n" for i
  proof -
    have "slot_for_id t ! i = (if \<exists>x \<in> set ?old. 0 \<le> x \<and> nat x = i then -1 else slot_for_id s ! i)"
      unfolding t using fold_upd_none(2) [where x = i and u = "slot_for_id s" and P = "\<lambda>i. 0 \<le> i" and f = nat and v = "-1::int" and xs = ?old] x d(1) by simp
    moreover have "(\<exists>x \<in> set ?old. 0 \<le> x \<and> nat x = i) \<longleftrightarrow> (\<exists>c < m. in_buffer b E c \<and> id_of_slot s ! c = int i)"
      unfolding Bex_def old by force
    ultimately show ?thesis by presburger
  qed
  have io: "length (id_of_slot t) = m" "\<And>c. c < m \<Longrightarrow> id_of_slot t ! c = (if in_buffer b E c then -1 else id_of_slot s ! c)"
    using fill_slice_nth [where a = "b * E" and n = E and xs = "id_of_slot s" and v = "-1"] be d(2) by (simp_all add: t in_buffer_def)
  have us: "length (usage t) = m" "\<And>c. c < m \<Longrightarrow> usage t ! c = (if in_buffer b E c then 0 else usage s ! c)"
    using fill_slice_nth [where a = "b * E" and n = E and xs = "usage s" and v = 0] be d(3) by (simp_all add: t in_buffer_def)
  show "\<And>c. c < cache_size s \<Longrightarrow> id_of_slot t ! c = (if in_buffer b (num_experts s) c then -1 else id_of_slot s ! c)"
    using io(2) by (simp add: m_def E_def)
  show "\<And>i. i < num_layers s * num_experts s \<Longrightarrow> slot_for_id t ! i =
       (if \<exists>c < cache_size s. in_buffer b (num_experts s) c \<and> id_of_slot s ! c = int i then -1 else slot_for_id s ! i)"
    using sfi unfolding m_def E_def n_def .
  have "tables_ok n m t"
  proof (rule tables_drop [OF I(1) sf _ io(1) _ us(1), where D = "{c. in_buffer b E c}"])
    show "slot_for_id t ! i = (if \<exists>c \<in> {c. in_buffer b E c}. c < m \<and> id_of_slot s ! c = int i then -1 else slot_for_id s ! i)"
      if "i < n" for i
      unfolding sfi [OF that] by (rule if_cong) auto
    show "0 \<le> usage t ! c \<and> usage t ! c \<le> lru_step t" if "c < m" for c
      using us(2) [OF that] d(4) d(7,8) [OF that] by (simp add: t)
  qed (use io(2) d(4) in \<open>simp_all add: t\<close>)
  then show "tables_ok (num_layers s * num_experts s) (cache_size s) t" by (simp add: n_def m_def E_def)
qed

text \<open>Any copies into the invalidated buffer keep the invariant and coherence.\<close>

lemma refill_ok:
  fixes s :: "'r ecache" and h q :: int
  assumes i: "ec_inv s" and b: "b < 2" "2 * num_experts s \<le> cache_size s" and c: "coherent {} s"
    and l: "length cs = length (bank_caches s)" "\<And>j. j < length cs \<Longrightarrow> length (cs ! j) = cache_size s"
    and k: "\<And>j c. j < length cs \<Longrightarrow> c < cache_size s \<Longrightarrow> \<not> in_buffer b (num_experts s) c \<Longrightarrow> cs ! j ! c = bank_caches s ! j ! c"
  defines "s' \<equiv> (invalidate_prefill_buffer b s)\<lparr>bank_caches := cs, prefill_hit_rows := h, prefill_total_rows := q\<rparr>"
  shows "ec_inv s'" "coherent {} s'" "refilled b s s'"
proof -
  note t = invalidate_tables [OF i b]
  note I = ec_invD [OF i]
  obtain sf io us where e: "invalidate_prefill_buffer b s = s\<lparr>slot_for_id := sf, id_of_slot := io, usage := us\<rparr>"
    by (simp add: invalidate_prefill_buffer_def Let_def)
  note s' = s'_def [unfolded e]
  have T: "tables_ok (num_layers s * num_experts s) (cache_size s) s'" using t(1) by (simp add: e s' tables_ok_def)
  have bk: "banks_ok s'"
    using I(11) l by (auto simp: banks_ok_def s' in_set_conv_nth)
  show "ec_inv s'" using I T bk unfolding ec_inv_def by (simp add: s')
  have io: "id_of_slot s' ! c = (if in_buffer b (num_experts s) c then -1 else id_of_slot s ! c)" if "c < cache_size s" for c
    using t(2) [OF that] by (simp add: e s')
  show "refilled b s s'"
    unfolding refilled_def using t(2,3) l(1) k by (simp add: e s')
  show "coherent {} s'"
    unfolding coherent_def
  proof (intro allI impI)
    fix j d n assume a: "j < length (bank_caches s')" "d < cache_size s'" "id_of_slot s' ! d = int n"
    have d: "d < cache_size s" "j < length cs" using a by (simp_all add: s')
    have "\<not> in_buffer b (num_experts s) d" "id_of_slot s ! d = int n" using io [OF d(1)] a(3) by (auto split: if_splits)
    then show "bank_caches s' ! j ! d = row_of s' j n"
      using k [OF d(2,1)] coherentD [OF c, of j d n] d l(1) by (simp add: s' row_of_def)
  qed
qed

lemma full_copy_ok:
  fixes s :: "'r ecache"
  assumes i: "ec_inv s" and b: "b < 2" "2 * num_experts s \<le> cache_size s" and c: "coherent {} s" and ly: "layer < num_layers s"
  shows "ec_inv (full_copy layer b s)" "coherent {} (full_copy layer b s)" "refilled b s (full_copy layer b s)"
    "buffer_holds b layer (full_copy layer b s)"
proof -
  define E where "E = num_experts s"
  note B = banks_okD [OF ec_invD(11) [OF i]]
  define cs where "cs = map2 (\<lambda>per_layer cache. put_slice (b * E) (per_layer ! layer) cache) (bank_sources s) (bank_caches s)"
  have e: "full_copy layer b s = (invalidate_prefill_buffer b s)\<lparr>bank_caches := cs, prefill_hit_rows := prefill_hit_rows s,
      prefill_total_rows := prefill_total_rows s\<rparr>"
    by (simp add: full_copy_def Let_def cs_def invalidate_prefill_buffer_def E_def)
  have be: "b * E + E \<le> cache_size s" using buffer_bound b unfolding E_def .
  have p: "length (cs ! j) = cache_size s \<and> (\<forall>c < cache_size s. cs ! j ! c = (if in_buffer b E c then bank_sources s ! j ! layer ! (c - b * E) else bank_caches s ! j ! c))"
    if "j < length (bank_caches s)" for j
  proof -
    have j: "j < length (bank_sources s)" using that B(1) by simp
    have lr: "length (bank_sources s ! j ! layer) = E" using B(5) [OF j ly] by (simp add: E_def)
    have le: "b * E + length (bank_sources s ! j ! layer) \<le> length (bank_caches s ! j)" using B(3) [OF j] lr be by simp
    have "cs ! j = put_slice (b * E) (bank_sources s ! j ! layer) (bank_caches s ! j)" using that j by (simp add: cs_def)
    then show ?thesis using put_slice_nth [OF le] lr B(3) [OF j] by (simp add: in_buffer_def)
  qed
  have l: "length cs = length (bank_caches s)" using B(1) by (simp add: cs_def)
  note r = refill_ok [OF i b c l, where h = "prefill_hit_rows s" and q = "prefill_total_rows s", folded e]
  show "ec_inv (full_copy layer b s)" by (rule r(1)) (use p l in \<open>simp_all add: E_def\<close>)
  show "coherent {} (full_copy layer b s)" by (rule r(2)) (use p l in \<open>simp_all add: E_def\<close>)
  show "refilled b s (full_copy layer b s)" by (rule r(3)) (use p l in \<open>simp_all add: E_def\<close>)
  show "buffer_holds b layer (full_copy layer b s)"
    unfolding buffer_holds_def
  proof (intro allI impI)
    fix j e' assume a: "j < length (bank_caches (full_copy layer b s))" "e' < num_experts (full_copy layer b s)"
    then have "j < length (bank_caches s)" "e' < E" using l by (simp_all add: e invalidate_prefill_buffer_def Let_def E_def)
    moreover have "b * E + e' < cache_size s" "in_buffer b E (b * E + e')" using be calculation(2) by (simp_all add: in_buffer_def)
    ultimately show "bank_caches (full_copy layer b s) ! j ! (b * num_experts (full_copy layer b s) + e') =
        bank_sources (full_copy layer b s) ! j ! layer ! e'"
      using p [of j] by (simp add: e invalidate_prefill_buffer_def Let_def E_def)
  qed
qed

text \<open>The map at the begin of the prefill classifies the experts as the live one does.\<close>

definition snapshot_ok :: "'r ecache \<Rightarrow> bool" where
  "snapshot_ok s \<longleftrightarrow>
     (\<forall>i < num_layers s * num_experts s. int (2 * num_experts s) \<le> slot_snapshot s ! i \<longleftrightarrow> int (2 * num_experts s) \<le> slot_for_id s ! i)"

lemma prefetch_split_ok:
  fixes s :: "'r ecache"
  assumes i: "ec_inv s" and b: "b < 2" "2 * num_experts s \<le> cache_size s" and c: "coherent {} s" and ly: "layer < num_layers s"
  shows "ec_inv (prefetch_split layer b s)" "coherent {} (prefetch_split layer b s)" "refilled b s (prefetch_split layer b s)"
    "snapshot_ok s \<Longrightarrow> buffer_holds b layer (prefetch_split layer b s)"
proof -
  define E where "E = num_experts s"
  define n where "n = num_layers s * E"
  note I = ec_invD [OF i]
  note B = banks_okD [OF I(11)]
  define plan where "plan = hit_compact layer b s"
  define hit where "hit e = (int (2 * E) \<le> slot_snapshot s ! (layer * E + e))" for e
  define miss where "miss = filter (\<lambda>e. \<not> hit e) [0..<E]"
  define cs where "cs = map2 (\<lambda>(per_layer, bytes) cache. batch_copy (per_layer ! layer) (copy_entries b E miss bytes) cache)
      (zip (bank_sources s) (bank_bytes s)) (map2 (gather_hits plan) (bank_bytes s) (bank_caches s))"
  define h where "h = prefill_hit_rows s + int (length (filter id (lanes E hit)))"
  define q where "q = prefill_total_rows s + int E"
  have ms: "filter (\<lambda>e. \<not> lanes E hit ! e) [0..<E] = miss"
    unfolding miss_def by (rule filter_cong) (simp_all add: lanes_def)
  have e: "prefetch_split layer b s = (invalidate_prefill_buffer b s)\<lparr>bank_caches := cs, prefill_hit_rows := h, prefill_total_rows := q\<rparr>"
    unfolding prefetch_split_def Let_def E_def [symmetric] hit_def [symmetric] ms
    by (cases s) (simp add: cs_def h_def q_def plan_def invalidate_prefill_buffer_def Let_def E_def hit_def [abs_def])
  have be: "b * E + E \<le> cache_size s" using buffer_bound b unfolding E_def .
  have me: "set miss \<subseteq> {..<E}" by (auto simp: miss_def)
  have dp: "distinct (map fst plan)" by (auto simp: plan_def hit_compact_def Let_def distinct_map inj_on_def)
  have pl: "map_of plan (b * E + e') = (if int (2 * E) \<le> slot_for_id s ! (layer * E + e') then Some (nat (slot_for_id s ! (layer * E + e'))) else None)"
    if "e' < E" for e'
  proof (cases "int (2 * E) \<le> slot_for_id s ! (layer * E + e')")
    case True
    then have "(b * E + e', nat (slot_for_id s ! (layer * E + e'))) \<in> set plan"
      using that by (auto simp: plan_def hit_compact_def Let_def E_def)
    then show ?thesis using map_of_is_SomeI [OF dp] True by simp
  next
    case False
    then have "b * E + e' \<notin> fst ` set plan" by (auto simp: plan_def hit_compact_def Let_def E_def)
    then show ?thesis using False by (simp add: map_of_eq_None_iff)
  qed
  have po: "map_of plan d = None" if "\<not> in_buffer b E d" for d
    using that by (auto simp: map_of_eq_None_iff plan_def hit_compact_def Let_def E_def in_buffer_def)
  have p: "length (cs ! j) = cache_size s \<and> (\<forall>d < cache_size s. cs ! j ! d =
      (if in_buffer b E d then
         (if bank_bytes s ! j < small_bank_feat_bytes \<or> d - b * E \<in> set miss then bank_sources s ! j ! layer ! (d - b * E)
          else case map_of plan d of None \<Rightarrow> bank_caches s ! j ! d | Some x \<Rightarrow> bank_caches s ! j ! x)
       else bank_caches s ! j ! d))"
    if j0: "j < length (bank_caches s)" for j
  proof -
    have j: "j < length (bank_sources s)" "j < length (bank_bytes s)" using j0 B(1,2) by simp_all
    have lc: "length (bank_caches s ! j) = cache_size s" by (rule B(3) [OF j(1)])
    have lr: "length (bank_sources s ! j ! layer) = E" using B(5) [OF j(1) ly] by (simp add: E_def)
    define g where "g = gather_hits plan (bank_bytes s ! j) (bank_caches s ! j)"
    have lg: "length g = cache_size s" by (simp add: g_def gather_hits_def lc)
    define es where "es = copy_entries b E miss (bank_bytes s ! j)"
    have cj: "cs ! j = batch_copy (bank_sources s ! j ! layer) es g" using j0 j by (simp add: cs_def es_def g_def)
    have run: "st + k \<le> E" if sk: "(st, k) \<in> set (miss_runs miss)" for st k
    proof -
      have ne: "miss \<noteq> []" using sk by (auto simp: miss_runs_def)
      have "0 < k" using miss_runs_expand [OF ne] sk by blast
      then have "st \<le> st + (k - 1) \<and> st + (k - 1) < st + k" by simp
      then have "\<exists>(st', n) \<in> set (miss_runs miss). st' \<le> st + (k - 1) \<and> st + (k - 1) < st' + n" using sk by blast
      then have "st + (k - 1) \<in> set miss" unfolding miss_runs_cover .
      then show ?thesis using me \<open>0 < k\<close> by auto
    qed
    have en: "\<forall>(d, x, n) \<in> set es. d = b * E + x \<and> x + n \<le> length (bank_sources s ! j ! layer) \<and> d + n \<le> length g"
    proof (cases "bank_bytes s ! j < small_bank_feat_bytes")
      case True
      then show ?thesis using be lr lg by (simp add: es_def copy_entries_def)
    next
      case False
      have "\<forall>(st, k) \<in> set (miss_runs miss). st + k \<le> E" using run by blast
      then show ?thesis using False be lr lg by (fastforce simp: es_def copy_entries_def)
    qed
    note bc = batch_copy_nth [OF en]
    have cov: "(\<exists>(d', x, n) \<in> set es. d' \<le> d \<and> d < d' + n) \<longleftrightarrow>
        in_buffer b E d \<and> (bank_bytes s ! j < small_bank_feat_bytes \<or> d - b * E \<in> set miss)" for d
    proof (cases "bank_bytes s ! j < small_bank_feat_bytes")
      case True
      then show ?thesis by (auto simp: es_def copy_entries_def in_buffer_def)
    next
      case False
      have "(\<exists>(d', x, n) \<in> set es. d' \<le> d \<and> d < d' + n) \<longleftrightarrow> (\<exists>(st, n) \<in> set (miss_runs miss). b * E + st \<le> d \<and> d < b * E + st + n)"
        using False by (simp add: es_def copy_entries_def split_def)
      also have "\<dots> \<longleftrightarrow> b * E \<le> d \<and> (\<exists>(st, n) \<in> set (miss_runs miss). st \<le> d - b * E \<and> d - b * E < st + n)"
      proof -
        have "b * E + st \<le> d \<and> d < b * E + st + n \<longleftrightarrow> b * E \<le> d \<and> st \<le> d - b * E \<and> d - b * E < st + n" for st n by auto
        then show ?thesis by (auto simp: split_def)
      qed
      also have "\<dots> \<longleftrightarrow> b * E \<le> d \<and> d - b * E \<in> set miss" unfolding miss_runs_cover ..
      also have "\<dots> \<longleftrightarrow> in_buffer b E d \<and> d - b * E \<in> set miss" using me by (auto simp: in_buffer_def)
      finally show ?thesis using False by simp
    qed
    have gd: "g ! d = (if bank_bytes s ! j < small_bank_feat_bytes then bank_caches s ! j ! d else
        case map_of plan d of None \<Rightarrow> bank_caches s ! j ! d | Some x \<Rightarrow> bank_caches s ! j ! x)" if "d < cache_size s" for d
      using copy_rows_nth [OF dp, of d "bank_caches s ! j"] that lc by (simp add: g_def gather_hits_def)
    have bcd: "cs ! j ! d = (if in_buffer b E d \<and> (bank_bytes s ! j < small_bank_feat_bytes \<or> d - b * E \<in> set miss)
        then bank_sources s ! j ! layer ! (d - b * E) else g ! d)" if "d < cache_size s" for d
    proof -
      have "cs ! j ! d = (if \<exists>(d', x, n) \<in> set es. d' \<le> d \<and> d < d' + n then bank_sources s ! j ! layer ! (d - b * E) else g ! d)"
        unfolding cj by (rule conjunct2 [OF bc, THEN spec, THEN mp]) (use that lg in simp)
      then show ?thesis unfolding cov .
    qed
    moreover have "length (cs ! j) = cache_size s" unfolding cj using bc lg by simp
    ultimately show ?thesis using gd po by simp
  qed
  have l: "length cs = length (bank_caches s)" using B(1,2) by (simp add: cs_def)
  note r = refill_ok [OF i b c l, where h = h and q = q, folded e]
  show "ec_inv (prefetch_split layer b s)" by (rule r(1)) (use p l in \<open>simp_all add: E_def\<close>)
  show "coherent {} (prefetch_split layer b s)" by (rule r(2)) (use p l in \<open>simp_all add: E_def\<close>)
  show "refilled b s (prefetch_split layer b s)" by (rule r(3)) (use p l in \<open>simp_all add: E_def\<close>)
  show "buffer_holds b layer (prefetch_split layer b s)" if sn: "snapshot_ok s"
    unfolding buffer_holds_def
  proof (intro allI impI)
    fix j e' assume a: "j < length (bank_caches (prefetch_split layer b s))" "e' < num_experts (prefetch_split layer b s)"
    then have j: "j < length (bank_caches s)" and e': "e' < E" using l by (simp_all add: e invalidate_prefill_buffer_def Let_def E_def)
    have d: "b * E + e' < cache_size s" "in_buffer b E (b * E + e')" using be e' by (simp_all add: in_buffer_def)
    have fi: "layer * E + e' < num_layers s * num_experts s" using flat_id [OF ly e'] by (simp add: E_def)
    note pj = conjunct2 [OF p [OF j], THEN spec, THEN mp, OF d(1), unfolded if_P [OF d(2)] add_diff_cancel_left']
    have "cs ! j ! (b * E + e') = bank_sources s ! j ! layer ! e'"
    proof (cases "bank_bytes s ! j < small_bank_feat_bytes \<or> e' \<in> set miss")
      case True
      then show ?thesis unfolding pj by (rule if_P)
    next
      case False
      then have "hit e'" using e' by (simp add: miss_def)
      moreover have "hit e' = (int (2 * E) \<le> slot_for_id s ! (layer * E + e'))"
        unfolding hit_def E_def by (rule sn [unfolded snapshot_ok_def, THEN spec, THEN mp, OF fi [unfolded E_def]])
      ultimately have sl: "int (2 * E) \<le> slot_for_id s ! (layer * E + e')" by simp
      then have "slot_for_id s ! (layer * E + e') \<noteq> -1" by linarith
      then obtain k where k: "k < cache_size s" "slot_for_id s ! (layer * E + e') = int k" "id_of_slot s ! k = int (layer * E + e')"
        using tables_okD(5) [OF I(1) fi] by blast
      have "map_of plan (b * E + e') = Some k" using pl [OF e'] sl k(2) by simp
      then have "cs ! j ! (b * E + e') = bank_caches s ! j ! k" unfolding pj if_not_P [OF False] by simp
      also have "\<dots> = row_of s j (layer * E + e')" using coherentD [OF c j k(1) _ k(3)] by simp
      finally show ?thesis using e' by (simp add: row_of_flat E_def)
    qed
    then show "bank_caches (prefetch_split layer b s) ! j ! (b * num_experts (prefetch_split layer b s) + e') =
        bank_sources (prefetch_split layer b s) ! j ! layer ! e'"
      by (simp add: e invalidate_prefill_buffer_def Let_def E_def)
  qed
qed

end
