(* ===== verification/Expert_Forward.thy ===== *)
theory Expert_Forward
  imports Expert_Prefill
begin

text \<open>
  \<^verbatim>\<open>OffloadMoELayer\<close> of \<^verbatim>\<open>python/freetoken/layers/moe.py\<close> on top of the expert cache: the three decode
  paths (slot cache, hybrid, CPU executor) and the two prefill paths. The expert kernels are a
  parameter \<open>ex\<close>: the contribution of one route from its token, its weight, the row of every bank and the
  scales of the row. A decode or a prefill sums the contributions of a token's routes.
\<close>

section \<open>Expert kernels\<close>

text \<open>
  The routes of \<open>n\<close> tokens are the flat lists of the \<open>[n, top_k]\<close> tensors of weights and ids.
\<close>

definition scales_at :: "('r list \<times> 'r list) option \<Rightarrow> nat \<Rightarrow> ('r \<times> 'r) option" where
  "scales_at al i = map_option (\<lambda>(g, d). (g ! i, d ! i)) al"

definition expert_gemm ::
  "(nat \<Rightarrow> 'w \<Rightarrow> 'r list \<Rightarrow> ('r \<times> 'r) option \<Rightarrow> 'y::comm_monoid_add) \<Rightarrow> nat \<Rightarrow> 'r list list \<Rightarrow> ('r list \<times> 'r list) option \<Rightarrow>
   'w list \<Rightarrow> nat list \<Rightarrow> 'y list" where
  "expert_gemm ex k views al ws ids =
     map (\<lambda>t. \<Sum>r \<leftarrow> [t * k..<t * k + k]. ex t (ws ! r) (map (\<lambda>c. c ! (ids ! r)) views) (scales_at al (ids ! r)))
       [0..<length ids div k]"

text \<open>The CPU executor reads the host banks of the layer and skips the routes with a negative id.\<close>

definition cpu_moe ::
  "(nat \<Rightarrow> 'w \<Rightarrow> 'r list \<Rightarrow> ('r \<times> 'r) option \<Rightarrow> 'y::comm_monoid_add) \<Rightarrow> nat \<Rightarrow> nat \<Rightarrow> 'r ecache \<Rightarrow> 'w list \<Rightarrow> int list \<Rightarrow> 'y list" where
  "cpu_moe ex k layer s ws ids =
     map (\<lambda>t. \<Sum>r \<leftarrow> [t * k..<t * k + k].
            if ids ! r < 0 then 0 else ex t (ws ! r) (map (\<lambda>b. b ! layer ! nat (ids ! r)) (bank_sources s)) None)
       [0..<length ids div k]"

section \<open>Decode\<close>

text \<open>
  \<open>_decode_hybrid\<close>: the hits and the fetched misses on the GPU, the other misses on the CPU; a route
  of the CPU has weight 0 and slot 0 on the GPU. \<open>stats\<close> is \<open>collect_stats\<close>, \<open>executor\<close> tells whether the CPU
  executor is attached.
\<close>

definition decode_hybrid ::
  "bool \<Rightarrow> bool \<Rightarrow> bool \<Rightarrow> bool \<Rightarrow> int \<Rightarrow> rat \<Rightarrow>
   (nat \<Rightarrow> 'w::zero \<Rightarrow> 'r list \<Rightarrow> ('r \<times> 'r) option \<Rightarrow> 'y::comm_monoid_add) \<Rightarrow> nat \<Rightarrow> nat \<Rightarrow> 'w list \<Rightarrow> nat list \<Rightarrow>
   'r ecache \<Rightarrow> err + ('r ecache \<times> 'y list)" where
  "decode_hybrid executor by_recency stats safe max_fetch fraction ex k layer ws ids s =
     (if \<not> executor then Inl AssertionError
      else
        (let (s1, slots) = ensure_experts_hybrid by_recency layer ids max_fetch fraction s in
         and_then (if stats then record_decode_stats_hybrid (int layer) s1 else Inr s1) (\<lambda>s2.
         let cpu_ids = map2 (\<lambda>e c. if 0 \<le> c then -1 else int e) ids slots;
             cpu_routed = cpu_moe ex k layer s2 ws cpu_ids in
         and_then (copy_missing safe s2) (\<lambda>s3.
         let gpu_slots = map (\<lambda>c. nat (max c 0)) slots;
             gpu_w = map2 (\<lambda>w c. if 0 \<le> c then w else 0) ws slots in
         and_then (bank_views None s3) (\<lambda>views.
           Inr (s3, map2 (+) (expert_gemm ex k views (alphas_for_slots layer s3) gpu_w gpu_slots) cpu_routed))))))"

definition decode_routed ::
  "(nat \<Rightarrow> nat list \<Rightarrow> lru \<Rightarrow> lru \<times> int list) \<Rightarrow> bool \<Rightarrow> bool \<Rightarrow> bool \<Rightarrow> bool \<Rightarrow> int \<Rightarrow> rat \<Rightarrow>
   (nat \<Rightarrow> 'w::zero \<Rightarrow> 'r list \<Rightarrow> ('r \<times> 'r) option \<Rightarrow> 'y::comm_monoid_add) \<Rightarrow> nat \<Rightarrow> nat \<Rightarrow> 'w list \<Rightarrow> nat list \<Rightarrow>
   'r ecache \<Rightarrow> err + ('r ecache \<times> 'y list)" where
  "decode_routed lru_ensure executor by_recency stats safe max_fetch fraction ex k layer ws ids s =
     (if layer \<in> cpu_layer_ids s then
        (if executor then Inr (s, cpu_moe ex k layer s ws (map int ids)) else Inl AssertionError)
      else if decode_target s = ''hybrid'' then
        decode_hybrid executor by_recency stats safe max_fetch fraction ex k layer ws ids s
      else
        (let (s1, slots) = ensure_experts lru_ensure layer ids s in
         and_then (copy_missing safe s1) (\<lambda>s2.
         and_then (bank_views None s2) (\<lambda>views.
           Inr (s2, expert_gemm ex k views (alphas_for_slots layer s2) ws (map nat slots))))))"

section \<open>Prefill\<close>

definition wait_prefill_overlap :: "bool \<Rightarrow> nat \<Rightarrow> 'r ecache \<Rightarrow> err + ('r ecache \<times> 'r list list)" where
  "wait_prefill_overlap avail layer s =
     (let s1 = (if layer = 0 then begin_prefill avail s else s) in
      and_then (prefetch_prefill_layer (int layer) s1) (\<lambda>s2.
      and_then (prefetch_prefill_layer (int layer + 1) s2) (\<lambda>s3.
      wait_prefill_layer layer s3)))"

definition prefill_routed ::
  "bool \<Rightarrow> bool \<Rightarrow> (nat \<Rightarrow> 'w \<Rightarrow> 'r list \<Rightarrow> ('r \<times> 'r) option \<Rightarrow> 'y::comm_monoid_add) \<Rightarrow> nat \<Rightarrow> nat \<Rightarrow> 'w list \<Rightarrow> nat list \<Rightarrow>
   'r ecache \<Rightarrow> err + ('r ecache \<times> 'y list)" where
  "prefill_routed avail safe ex k layer ws ids s =
     (if prefill_overlap s then
        and_then (wait_prefill_overlap avail layer s) (\<lambda>(s1, views).
          Inr (release_prefill_layer layer s1, expert_gemm ex k views (alphas_for_layer layer s1) ws ids))
      else
        and_then (copy_missing safe (materialize_layer layer s)) (\<lambda>s2.
        and_then (bank_views (Some (num_experts s2)) s2) (\<lambda>views.
          Inr (s2, expert_gemm ex k views (alphas_for_layer layer s2) ws ids))))"

text \<open>The MoE layers of one prefill, in the order of the model; each has its own routes.\<close>

fun prefill_pass ::
  "bool \<Rightarrow> bool \<Rightarrow> (nat \<Rightarrow> 'w \<Rightarrow> 'r list \<Rightarrow> ('r \<times> 'r) option \<Rightarrow> 'y::comm_monoid_add) \<Rightarrow> nat \<Rightarrow> nat \<Rightarrow> ('w list \<times> nat list) list \<Rightarrow>
   'r ecache \<Rightarrow> err + ('r ecache \<times> 'y list list)" where
  "prefill_pass avail safe ex k layer [] s = Inr (s, [])"
| "prefill_pass avail safe ex k layer ((ws, ids) # rs) s =
     and_then (prefill_routed avail safe ex k layer ws ids s) (\<lambda>(s1, out).
     and_then (prefill_pass avail safe ex k (Suc layer) rs s1) (\<lambda>(s2, outs). Inr (s2, out # outs)))"

section \<open>Set-up\<close>

text \<open>
  From \<open>_init_offload_moe_cache\<close> of \<^verbatim>\<open>python/freetoken/engine/engine.py\<close>: the decode target, the cache with
  its banks and scales, and the layers that decode on the CPU. \<open>resolve_hybrid_fetch\<close> gives the cap and the
  fraction of the hybrid fetch; \<open>profile\<close> is the benched fraction, if there is one.
\<close>

definition decode_target_of :: "bool \<Rightarrow> nat set \<Rightarrow> string" where
  "decode_target_of hybrid cpu_layers =
     (if hybrid then ''hybrid'' else if cpu_layers \<noteq> {} then ''cpu'' else ''gpu'')"

definition resolve_hybrid_fetch :: "int \<Rightarrow> nat \<Rightarrow> rat option \<Rightarrow> int \<times> rat" where
  "resolve_hybrid_fetch max_fetch experts profile =
     (if 0 \<le> max_fetch then (max_fetch, 0)
      else case profile of None \<Rightarrow> (1, 0) | Some f \<Rightarrow> (int experts, f))"

definition setup_cache ::
  "bool \<Rightarrow> nat set \<Rightarrow> nat \<Rightarrow> nat \<Rightarrow> nat \<Rightarrow> string \<Rightarrow> bool \<Rightarrow> bool \<Rightarrow> string \<Rightarrow> int \<Rightarrow> 'r \<Rightarrow> (string \<times> 'r bank list) list \<Rightarrow>
   string list option \<Rightarrow> 'r list option \<Rightarrow> 'r list option \<Rightarrow> err + 'r ecache" where
  "setup_cache hybrid cpu_layers layers experts slots policy overlap hit_d2d fmt junk blank sources residency gate_up down =
     and_then (ec_init layers experts slots policy overlap hit_d2d fmt (decode_target_of hybrid cpu_layers) junk) (\<lambda>c.
     and_then (set_bank_sources blank sources residency c) (\<lambda>c.
     and_then (set_alphas gate_up down c) (\<lambda>c.
       Inr (c\<lparr>cpu_layer_ids := cpu_layers\<rparr>))))"

section \<open>The reference\<close>

text \<open>The layer's experts applied straight from the host banks, by expert id.\<close>

definition moe_reference ::
  "(nat \<Rightarrow> 'w \<Rightarrow> 'r list \<Rightarrow> ('r \<times> 'r) option \<Rightarrow> 'y::comm_monoid_add) \<Rightarrow> nat \<Rightarrow> nat \<Rightarrow> 'r ecache \<Rightarrow> 'w list \<Rightarrow> nat list \<Rightarrow> 'y list" where
  "moe_reference ex k layer s ws ids =
     expert_gemm ex k (map (\<lambda>b. b ! layer) (bank_sources s)) (alphas_for_layer layer s) ws ids"

definition alphas_ok :: "'r ecache \<Rightarrow> bool" where
  "alphas_ok s \<longleftrightarrow>
     (case alphas s of None \<Rightarrow> True
      | Some (g, d) \<Rightarrow> length g = num_layers s * num_experts s \<and> length d = num_layers s * num_experts s)"

lemma route_bound: "t < length ids div k \<Longrightarrow> r \<in> set [t * k..<t * k + k] \<Longrightarrow> r < length ids"
proof -
  assume t: "t < length ids div k" and r: "r \<in> set [t * k..<t * k + k]"
  have "t * k + k \<le> length ids div k * k" using mult_le_mono1 [of "Suc t" "length ids div k" k] t by simp
  also have "\<dots> \<le> length ids" by (rule div_times_less_eq_dividend)
  finally show ?thesis using r by simp
qed

text \<open>A route reads the same row and scales from the slot cache as from the host banks.\<close>

lemma slot_row:
  assumes i: "ec_inv s" and c: "coherent {} s" and ly: "layer < num_layers s" and e: "e < num_experts s"
    and sl: "slot_for_id s ! (layer * num_experts s + e) = int d" and a: "alphas_ok s"
  shows "map (\<lambda>c. c ! d) (bank_caches s) = map (\<lambda>b. b ! layer ! e) (bank_sources s)"
    "scales_at (alphas_for_slots layer s) d = scales_at (alphas_for_layer layer s) e" "d < cache_size s"
proof -
  note I = ec_invD [OF i]
  have f: "layer * num_experts s + e < num_layers s * num_experts s" by (rule flat_id [OF ly e])
  have d: "d < cache_size s" "id_of_slot s ! d = int (layer * num_experts s + e)"
    using tables_okD(5) [OF I(1) f] sl by auto
  show "d < cache_size s" by (rule d(1))
  show "map (\<lambda>c. c ! d) (bank_caches s) = map (\<lambda>b. b ! layer ! e) (bank_sources s)"
  proof (rule nth_equalityI)
    show "length (map (\<lambda>c. c ! d) (bank_caches s)) = length (map (\<lambda>b. b ! layer ! e) (bank_sources s))"
      using banks_okD(1) [OF I(11)] by simp
    fix j assume j: "j < length (map (\<lambda>c. c ! d) (bank_caches s))"
    then have "bank_caches s ! j ! d = row_of s j (layer * num_experts s + e)" using coherentD [OF c _ d(1) _ d(2)] by simp
    then show "map (\<lambda>c. c ! d) (bank_caches s) ! j = map (\<lambda>b. b ! layer ! e) (bank_sources s) ! j"
      using j e banks_okD(1) [OF I(11)] by (simp add: row_of_flat)
  qed
  have li: "length (id_of_slot s) = cache_size s" using tables_okD(2) [OF I(1)] .
  show "scales_at (alphas_for_slots layer s) d = scales_at (alphas_for_layer layer s) e"
  proof (cases "alphas s")
    case (Some p)
    obtain g h where p: "p = (g, h)" by (cases p)
    have m: "nat (max (id_of_slot s ! d) 0) mod num_experts s = e"
      unfolding d(2) using e by (simp add: max_def del: of_nat_add of_nat_mult)
    have "length g = num_layers s * num_experts s" "length h = num_layers s * num_experts s" using a by (simp_all add: alphas_ok_def Some p)
    then have "drop (layer * num_experts s) g ! e = g ! (layer * num_experts s + e)"
      "drop (layer * num_experts s) h ! e = h ! (layer * num_experts s + e)"
      using add_lessD1 [OF f] by (metis nat_less_le nth_drop)+
    then show ?thesis using d(1) e li m by (simp add: scales_at_def alphas_for_slots_def alphas_for_layer_def Let_def Some p)
  qed (simp add: scales_at_def alphas_for_slots_def alphas_for_layer_def)
qed

lemma gemm_cong:
  assumes "length ids' = length ids"
    and "\<And>t r. r < length ids \<Longrightarrow> ex t (ws' ! r) (map (\<lambda>c. c ! (ids' ! r)) views') (scales_at al' (ids' ! r)) =
         ex t (ws ! r) (map (\<lambda>c. c ! (ids ! r)) views) (scales_at al (ids ! r))"
  shows "expert_gemm ex k views' al' ws' ids' = expert_gemm ex k views al ws ids"
  unfolding expert_gemm_def assms(1)
proof (rule map_cong [OF refl])
  fix t assume "t \<in> set [0..<length ids div k]"
  then have b: "r < length ids" if "r \<in> set [t * k..<t * k + k]" for r using route_bound that by simp
  show "(\<Sum>r \<leftarrow> [t * k..<t * k + k]. ex t (ws' ! r) (map (\<lambda>c. c ! (ids' ! r)) views') (scales_at al' (ids' ! r))) =
      (\<Sum>r \<leftarrow> [t * k..<t * k + k]. ex t (ws ! r) (map (\<lambda>c. c ! (ids ! r)) views) (scales_at al (ids ! r)))"
    by (rule arg_cong [of _ _ sum_list], rule map_cong [OF refl]) (rule assms(2) [OF b])
qed

end
