(* ===== verification/Expert_Serve.thy ===== *)
theory Expert_Serve
  imports Expert_Forward
begin

text \<open>
  Serving with the expert cache: from a state with coherent slots every decode and every prefill
  returns what the experts compute straight from the host banks, and leaves such a state.
\<close>

section \<open>The invariant of serving\<close>

definition serve_inv :: "'r ecache \<Rightarrow> bool" where
  "serve_inv s \<longleftrightarrow>
     ec_inv s \<and> coherent {} s \<and> alphas_ok s \<and> bank_caches s \<noteq> [] \<and>
     (alphas s \<noteq> None \<longrightarrow> decode_target s \<noteq> ''hybrid'' \<and> cpu_layer_ids s = {})"

lemma serve_invD:
  assumes "serve_inv s"
  shows "ec_inv s" "coherent {} s" "alphas_ok s" "bank_caches s \<noteq> []"
    "decode_target s = ''hybrid'' \<Longrightarrow> alphas s = None" "cpu_layer_ids s \<noteq> {} \<Longrightarrow> alphas s = None"
  using assms unfolding serve_inv_def by blast+

text \<open>The configuration, which no step of serving changes.\<close>

definition same_config :: "'r ecache \<Rightarrow> 'r ecache \<Rightarrow> bool" where
  "same_config s s' \<longleftrightarrow>
     num_layers s' = num_layers s \<and> num_experts s' = num_experts s \<and> bank_sources s' = bank_sources s \<and>
     alphas s' = alphas s \<and> decode_target s' = decode_target s \<and> cpu_layer_ids s' = cpu_layer_ids s"

lemma reference_config: "same_config s s' \<Longrightarrow> moe_reference ex k layer s' ws ids = moe_reference ex k layer s ws ids"
  by (cases "alphas s") (auto simp: same_config_def moe_reference_def alphas_for_layer_def)

lemma alphas_config: "same_config s s' \<Longrightarrow> alphas_ok s' = alphas_ok s"
  by (cases "alphas s") (auto simp: same_config_def alphas_ok_def)

lemma same_config_trans: "same_config a b \<Longrightarrow> same_config b c \<Longrightarrow> same_config a c"
  by (simp add: same_config_def)

lemma serve_inv_config:
  assumes "serve_inv s" and "same_config s s'" and "ec_inv s'" and "coherent {} s'" and "bank_caches s' \<noteq> []"
  shows "serve_inv s'"
  using assms alphas_config [OF assms(2)] unfolding serve_inv_def same_config_def by simp

section \<open>Decode\<close>

text \<open>The host rows of a layer, by expert.\<close>

lemma reference_token:
  "moe_reference ex k layer s ws ids =
     map (\<lambda>t. \<Sum>r \<leftarrow> [t * k..<t * k + k].
            ex t (ws ! r) (map (\<lambda>b. b ! layer ! (ids ! r)) (bank_sources s)) (scales_at (alphas_for_layer layer s) (ids ! r)))
       [0..<length ids div k]"
  by (simp add: moe_reference_def expert_gemm_def comp_def)

lemma cpu_all:
  assumes "alphas s = None"
  shows "cpu_moe ex k layer s ws (map int ids) = moe_reference ex k layer s ws ids"
proof -
  have "alphas_for_layer layer s = None" using assms by (simp add: alphas_for_layer_def)
  then show ?thesis
    unfolding reference_token cpu_moe_def
    by (auto intro!: map_cong arg_cong [of _ _ sum_list] simp: scales_at_def dest!: route_bound [rotated])
qed

lemma slots_gemm:
  assumes v: "ec_inv s" "coherent {} s" "alphas_ok s" and ly: "layer < num_layers s" and ids: "\<forall>e \<in> set ids. e < num_experts s"
    and sl: "\<forall>e \<in> set ids. slot_for_id s ! (layer * num_experts s + e) \<noteq> -1"
  shows "expert_gemm ex k (bank_caches s) (alphas_for_slots layer s) ws (map nat (map (\<lambda>e. slot_for_id s ! (layer * num_experts s + e)) ids)) =
    moe_reference ex k layer s ws ids"
  unfolding moe_reference_def
proof (rule gemm_cong)
  fix t r assume r: "r < length ids"
  have e: "ids ! r < num_experts s" using ids r by simp
  have f: "layer * num_experts s + ids ! r < num_layers s * num_experts s" by (rule flat_id [OF ly e])
  have "slot_for_id s ! (layer * num_experts s + ids ! r) \<noteq> -1" using sl r by simp
  then obtain d where d: "slot_for_id s ! (layer * num_experts s + ids ! r) = int d"
    using tables_okD(5) [OF ec_invD(1) [OF v(1)] f] by blast
  show "ex t (ws ! r) (map (\<lambda>c. c ! (map nat (map (\<lambda>e. slot_for_id s ! (layer * num_experts s + e)) ids) ! r)) (bank_caches s))
      (scales_at (alphas_for_slots layer s) (map nat (map (\<lambda>e. slot_for_id s ! (layer * num_experts s + e)) ids) ! r)) =
    ex t (ws ! r) (map (\<lambda>c. c ! (ids ! r)) (map (\<lambda>b. b ! layer) (bank_sources s))) (scales_at (alphas_for_layer layer s) (ids ! r))"
    using slot_row(1,2) [OF v(1,2) ly e d v(3)] r d by (simp add: comp_def)
qed simp

lemma decode_gpu:
  assumes lru: "slot_cache lru_ensure" and v: "serve_inv s" and ly: "layer < num_layers s" and ids: "\<forall>e \<in> set ids. e < num_experts s"
    and m: "layer \<notin> cpu_layer_ids s" "decode_target s \<noteq> ''hybrid''"
  shows "\<exists>s'. decode_routed lru_ensure executor by_recency stats safe mf fr ex k layer ws ids s = Inr (s', moe_reference ex k layer s ws ids) \<and>
    serve_inv s' \<and> same_config s s'"
proof -
  note V = serve_invD [OF v]
  obtain s1 ms vs out where e: "ensure_experts lru_ensure layer ids s = (s1, out)" "ec_inv s1" "staged_ok layer ms vs s1"
    "coherent (set vs) s1" "out = map (\<lambda>e. slot_for_id s1 ! (layer * num_experts s + e)) ids"
    "\<forall>e \<in> set ids. slot_for_id s1 ! (layer * num_experts s + e) \<noteq> -1"
    and g: "num_layers s1 = num_layers s" "num_experts s1 = num_experts s" "cache_size s1 = cache_size s"
    "bank_sources s1 = bank_sources s" "bank_caches s1 = bank_caches s" "alphas s1 = alphas s" "prefill_overlap s1 = prefill_overlap s"
    by (rule slot_cache.ensure_experts_ok [OF lru V(1) ly ids V(2)])
  have dt: "decode_target s1 = decode_target s" "cpu_layer_ids s1 = cpu_layer_ids s"
    using e(1) by (auto simp: ensure_experts_def split: prod.splits)
  obtain s2 where c: "copy_missing safe s1 = Inr s2" "ec_inv s2" "coherent {} s2" "s2 = s1\<lparr>bank_caches := bank_caches s2\<rparr>"
    "length (bank_caches s2) = length (bank_caches s1)"
    by (rule copy_missing_ok [OF e(2,3) _ e(4), of safe]) (use V(4) g(5) in auto)
  have eq: "num_layers s2 = num_layers s" "num_experts s2 = num_experts s" "bank_sources s2 = bank_sources s" "alphas s2 = alphas s"
    "slot_for_id s2 = slot_for_id s1" "decode_target s2 = decode_target s" "cpu_layer_ids s2 = cpu_layer_ids s"
    by (subst c(4), simp add: g dt)+
  have sc: "same_config s s2" by (simp add: same_config_def eq)
  have b: "bank_caches s2 \<noteq> []" using c(5) V(4) g(5) by auto
  have v2: "serve_inv s2" by (rule serve_inv_config [OF v sc c(2,3) b])
  have "expert_gemm ex k (bank_caches s2) (alphas_for_slots layer s2) ws (map nat out) = moe_reference ex k layer s2 ws ids"
    using slots_gemm [OF c(2,3) serve_invD(3) [OF v2], of layer ids ex k ws] ly ids e(5,6) by (simp add: eq)
  then have "decode_routed lru_ensure executor by_recency stats safe mf fr ex k layer ws ids s = Inr (s2, moe_reference ex k layer s ws ids)"
    using m b reference_config [OF sc] by (simp add: decode_routed_def e(1) c(1) bank_views_def)
  then show ?thesis using v2 sc by blast
qed

lemma hybrid_sum:
  fixes ex :: "nat \<Rightarrow> 'w::zero \<Rightarrow> 'r list \<Rightarrow> ('r \<times> 'r) option \<Rightarrow> 'y::comm_monoid_add"
  assumes z: "\<forall>t rows al. ex t 0 rows al = 0" and l: "length slots = length ids" "length ws = length ids"
    and row: "\<And>r. r < length ids \<Longrightarrow> 0 \<le> slots ! r \<Longrightarrow>
        map (\<lambda>c. c ! nat (slots ! r)) views = map (\<lambda>b. b ! layer ! (ids ! r)) (bank_sources s)"
    and al: "alphas s = None"
  shows "map2 (+) (expert_gemm ex k views None (map2 (\<lambda>w c. if 0 \<le> c then w else 0) ws slots) (map (\<lambda>c. nat (max c 0)) slots))
      (cpu_moe ex k layer s ws (map2 (\<lambda>e c. if 0 \<le> c then -1 else int e) ids slots)) = moe_reference ex k layer s ws ids"
proof -
  let ?gw = "map2 (\<lambda>w c. if 0 \<le> c then w else 0) ws slots"
  let ?gs = "map (\<lambda>c. nat (max c 0)) slots"
  let ?ci = "map2 (\<lambda>e c. if 0 \<le> c then -1 else int e) ids slots"
  have la: "alphas_for_layer layer s = None" using al by (simp add: alphas_for_layer_def)
  have one: "ex t (map2 (\<lambda>w c. if 0 \<le> c then w else 0) ws slots ! r) (map (\<lambda>c. c ! (map (\<lambda>c. nat (max c 0)) slots ! r)) views) None +
      (if map2 (\<lambda>e c. if 0 \<le> c then -1 else int e) ids slots ! r < 0 then 0
       else ex t (ws ! r) (map (\<lambda>b. b ! layer ! nat (map2 (\<lambda>e c. if 0 \<le> c then -1 else int e) ids slots ! r)) (bank_sources s)) None) =
      ex t (ws ! r) (map (\<lambda>b. b ! layer ! (ids ! r)) (bank_sources s)) None" if r: "r < length ids" for t r
  proof (cases "0 \<le> slots ! r")
    case True
    then show ?thesis using r l row [OF r True] by (simp add: max_def)
  next
    case False
    then show ?thesis using r l z by simp
  qed
  show ?thesis
  proof (rule nth_equalityI)
    fix t assume "t < length (map2 (+) (expert_gemm ex k views None ?gw ?gs) (cpu_moe ex k layer s ws ?ci))"
    then have t: "t < length ids div k" using l by (simp add: expert_gemm_def cpu_moe_def)
    let ?G = "\<lambda>r. ex t (?gw ! r) (map (\<lambda>c. c ! (?gs ! r)) views) None"
    let ?C = "\<lambda>r. if ?ci ! r < 0 then 0 else ex t (ws ! r) (map (\<lambda>b. b ! layer ! nat (?ci ! r)) (bank_sources s)) None"
    let ?R = "\<lambda>r. ex t (ws ! r) (map (\<lambda>b. b ! layer ! (ids ! r)) (bank_sources s)) None"
    have "map2 (+) (expert_gemm ex k views None ?gw ?gs) (cpu_moe ex k layer s ws ?ci) ! t =
        (\<Sum>r \<leftarrow> [t * k..<t * k + k]. ?G r) + (\<Sum>r \<leftarrow> [t * k..<t * k + k]. ?C r)"
      using t l by (simp add: expert_gemm_def cpu_moe_def scales_at_def cong: if_cong)
    also have "\<dots> = (\<Sum>r \<leftarrow> [t * k..<t * k + k]. ?G r + ?C r)" by (rule sum_list_addf [symmetric])
    also have "\<dots> = (\<Sum>r \<leftarrow> [t * k..<t * k + k]. ?R r)"
      by (rule arg_cong [of _ _ sum_list], rule map_cong [OF refl]) (rule one [OF route_bound [OF t]])
    also have "\<dots> = moe_reference ex k layer s ws ids ! t" using t by (simp add: reference_token la scales_at_def)
    finally show "map2 (+) (expert_gemm ex k views None ?gw ?gs) (cpu_moe ex k layer s ws ?ci) ! t = moe_reference ex k layer s ws ids ! t" .
  qed (use l in \<open>simp add: expert_gemm_def cpu_moe_def reference_token\<close>)
qed

lemma decode_hybrid_ok:
  fixes ex :: "nat \<Rightarrow> 'w::zero \<Rightarrow> 'r list \<Rightarrow> ('r \<times> 'r) option \<Rightarrow> 'y::comm_monoid_add"
  assumes v: "serve_inv s" and ly: "layer < num_layers s" and ids: "\<forall>e \<in> set ids. e < num_experts s"
    and z: "\<forall>t rows al. ex t 0 rows al = 0" and lw: "length ws = length ids" and mf: "0 \<le> mf" and ht: "decode_target s = ''hybrid''"
  shows "\<exists>s'. decode_hybrid True by_recency stats safe mf fr ex k layer ws ids s = Inr (s', moe_reference ex k layer s ws ids) \<and>
    serve_inv s' \<and> same_config s s'"
proof -
  note V = serve_invD [OF v]
  define s0 where "s0 = s\<lparr>pending_src_layer := Some layer\<rparr>"
  have i0: "ec_inv s0" using V(1) by (simp add: s0_def ec_inv_def tables_ok_def banks_ok_def)
  have c0: "coherent {} s0" using V(2) by (simp add: s0_def coherent_def row_of_def)
  have ly0: "layer < num_layers s0" "\<forall>e \<in> set ids. e < num_experts s0" using ly ids by (simp_all add: s0_def)
  obtain s1 ms vs out where e: "ensure_hybrid_cpu by_recency layer ids mf (frac_q16 fr) s0 = (s1, out)"
    and r: "hybrid_result layer ids s0 s1 ms vs out"
    and nm: "num_missing_full s1 = int (card {e \<in> set ids. slot_for_id s0 ! (layer * num_experts s0 + e) = -1})"
    and nf: "num_indices s1 = hybrid_cap mf (frac_q16 fr) (num_missing_full s1)"
    by (rule ensure_hybrid_cpu_ok [OF i0 ly0, of by_recency mf "frac_q16 fr"])
  note R = hybrid_resultD [OF r]
  have n0: "0 \<le> num_indices s1" unfolding nf by (rule hybrid_cap_nonneg [OF mf]) (simp add: nm)
  have p0: "pending_src_layer s0 = Some layer" by (simp add: s0_def)
  note st = hybrid_staged [OF r ly0 p0 c0 n0]
  obtain tt ls where s2': "(if stats then record_decode_stats_hybrid (int layer) s1 else Inr s1) = Inr (s1\<lparr>totals := tt, layer_stats := ls\<rparr>)"
  proof (cases stats)
    case True
    have "layer < num_layers s1" using R(3) ly0 by simp
    then show ?thesis by (intro that) (simp add: True record_decode_stats_hybrid_def Let_def)
  next
    case False
    show ?thesis by (rule that [where tt = "totals s1" and ls = "layer_stats s1"]) (simp add: False)
  qed
  let ?s2 = "s1\<lparr>totals := tt, layer_stats := ls\<rparr>"
  have i2: "ec_inv ?s2" using R(1) by (simp add: ec_inv_def tables_ok_def banks_ok_def)
  have st2: "staged_ok layer ms vs ?s2" using st(1) by (simp add: staged_ok_def)
  have c2: "coherent (set vs) ?s2" using st(2) by (simp add: coherent_def row_of_def)
  obtain s3 where c: "copy_missing safe ?s2 = Inr s3" "ec_inv s3" "coherent {} s3" "s3 = ?s2\<lparr>bank_caches := bank_caches s3\<rparr>"
    "length (bank_caches s3) = length (bank_caches ?s2)"
    by (rule copy_missing_ok [OF i2 st2 _ c2, of safe]) (use V(4) R(6) in \<open>auto simp: s0_def\<close>)
  have eq: "num_layers s3 = num_layers s" "num_experts s3 = num_experts s" "bank_sources s3 = bank_sources s" "alphas s3 = alphas s"
    "slot_for_id s3 = slot_for_id s1" "decode_target s3 = decode_target s" "cpu_layer_ids s3 = cpu_layer_ids s" "cache_size s3 = cache_size s"
    by (subst c(4), simp add: R(2,3,4,5,7,9,10) s0_def)+
  have sc: "same_config s s3" by (simp add: same_config_def eq)
  have b: "bank_caches s3 \<noteq> []" using c(5) V(4) R(6) by (auto simp: s0_def)
  have v3: "serve_inv s3" by (rule serve_inv_config [OF v sc c(2,3) b])
  have an: "alphas s3 = None" "alphas ?s2 = None" using V(5) [OF ht] by (simp_all add: eq R(7) s0_def)
  have out: "out = map (\<lambda>e. slot_for_id s3 ! (layer * num_experts s3 + e)) ids" using R(25) by (simp add: eq s0_def)
  have row: "map (\<lambda>c. c ! nat (out ! r)) (bank_caches s3) = map (\<lambda>b. b ! layer ! (ids ! r)) (bank_sources s)"
    if r: "r < length ids" "0 \<le> out ! r" for r
  proof -
    have e: "ids ! r < num_experts s3" using ids r(1) by (simp add: eq)
    have "slot_for_id s3 ! (layer * num_experts s3 + ids ! r) = int (nat (out ! r))" using r by (simp add: out)
    from slot_row(1) [OF c(2,3) _ e this serve_invD(3) [OF v3]] ly show ?thesis by (simp add: eq)
  qed
  have cm: "cpu_moe ex k layer ?s2 ws cids = cpu_moe ex k layer s ws cids" for cids
  proof -
    have bs: "bank_sources ?s2 = bank_sources s" by (simp add: R(5) s0_def)
    show ?thesis unfolding cpu_moe_def bs ..
  qed
  have "map2 (+) (expert_gemm ex k (bank_caches s3) None (map2 (\<lambda>w c. if 0 \<le> c then w else 0) ws out) (map (\<lambda>c. nat (max c 0)) out))
      (cpu_moe ex k layer s ws (map2 (\<lambda>e c. if 0 \<le> c then -1 else int e) ids out)) = moe_reference ex k layer s ws ids"
    by (rule hybrid_sum [where ex = ex and slots = out, OF z _ lw row]) (use V(5) [OF ht] in \<open>simp_all add: out\<close>)
  moreover have "alphas_for_slots layer s3 = None" by (simp add: alphas_for_slots_def an)
  ultimately have "decode_hybrid True by_recency stats safe mf fr ex k layer ws ids s = Inr (s3, moe_reference ex k layer s ws ids)"
    unfolding decode_hybrid_def ensure_experts_hybrid_def s0_def [symmetric] e
    by (simp only: if_False not_True_eq_False Let_def prod.case s2' and_then_simps cm c(1)) (simp add: bank_views_def b cong: if_cong)
  then show ?thesis using v3 sc by blast
qed

text \<open>The three decode paths.\<close>

lemma decode_ok:
  fixes ex :: "nat \<Rightarrow> 'w::zero \<Rightarrow> 'r list \<Rightarrow> ('r \<times> 'r) option \<Rightarrow> 'y::comm_monoid_add"
  assumes lru: "slot_cache lru_ensure" and v: "serve_inv s" and ly: "layer < num_layers s" and ids: "\<forall>e \<in> set ids. e < num_experts s"
    and z: "\<forall>t rows al. ex t 0 rows al = 0" and lw: "length ws = length ids" and mf: "0 \<le> mf"
  shows "\<exists>s'. decode_routed lru_ensure True by_recency stats safe mf fr ex k layer ws ids s = Inr (s', moe_reference ex k layer s ws ids) \<and>
    serve_inv s' \<and> same_config s s'"
proof (cases "layer \<in> cpu_layer_ids s")
  case True
  then have "alphas s = None" using serve_invD(6) [OF v] by blast
  then show ?thesis using True v by (simp add: decode_routed_def cpu_all same_config_def)
next
  case False
  show ?thesis
  proof (cases "decode_target s = ''hybrid''")
    case True
    show ?thesis
      using decode_hybrid_ok [where ex = ex, OF v ly ids z lw mf True, of by_recency stats safe fr k] False True by (simp add: decode_routed_def)
  next
    case nh: False
    show ?thesis by (rule decode_gpu [OF lru v ly ids False nh])
  qed
qed

section \<open>Prefill\<close>

lemma views_gemm:
  assumes "\<And>j e. j < length (bank_sources s) \<Longrightarrow> e < num_experts s \<Longrightarrow> views ! j ! e = bank_sources s ! j ! layer ! e"
    and "length views = length (bank_sources s)" and "\<forall>e \<in> set ids. e < num_experts s"
  shows "expert_gemm ex k views (alphas_for_layer layer s) ws ids = moe_reference ex k layer s ws ids"
  unfolding moe_reference_def
proof (rule gemm_cong)
  fix t r assume r: "r < length ids"
  have "map (\<lambda>c. c ! (ids ! r)) views = map (\<lambda>c. c ! (ids ! r)) (map (\<lambda>b. b ! layer) (bank_sources s))"
    by (rule nth_equalityI) (use assms r in simp_all)
  then show "ex t (ws ! r) (map (\<lambda>c. c ! (ids ! r)) views) (scales_at (alphas_for_layer layer s) (ids ! r)) =
    ex t (ws ! r) (map (\<lambda>c. c ! (ids ! r)) (map (\<lambda>b. b ! layer) (bank_sources s))) (scales_at (alphas_for_layer layer s) (ids ! r))"
    by (rule arg_cong)
qed simp

lemma prefill_materialize:
  assumes v: "serve_inv s" and ly: "layer < num_layers s" and ids: "\<forall>e \<in> set ids. e < num_experts s" and o: "\<not> prefill_overlap s"
  shows "\<exists>s'. prefill_routed avail safe ex k layer ws ids s = Inr (s', moe_reference ex k layer s ws ids) \<and>
    serve_inv s' \<and> same_config s s' \<and> prefill_overlap s' = prefill_overlap s"
proof -
  note V = serve_invD [OF v]
  define s1 where "s1 = materialize_layer layer s"
  note m = materialize_ok [OF V(1) ly V(2), folded s1_def]
  have f1: "num_layers s1 = num_layers s" "num_experts s1 = num_experts s" "cache_size s1 = cache_size s" "bank_sources s1 = bank_sources s"
    "bank_caches s1 = bank_caches s" "alphas s1 = alphas s" "decode_target s1 = decode_target s" "cpu_layer_ids s1 = cpu_layer_ids s"
    "prefill_overlap s1 = prefill_overlap s"
    by (simp_all add: s1_def materialize_layer_def Let_def)
  have c1: "coherent (set [0..<num_experts s]) s1" using m(3) by (simp add: atLeast_upt [symmetric] lessThan_atLeast0)
  obtain s2 where c: "copy_missing safe s1 = Inr s2" "ec_inv s2" "coherent {} s2" "s2 = s1\<lparr>bank_caches := bank_caches s2\<rparr>"
    "length (bank_caches s2) = length (bank_caches s1)"
    by (rule copy_missing_ok [OF m(1,2) _ c1, of safe]) (use V(4) f1 in auto)
  have eq: "num_layers s2 = num_layers s" "num_experts s2 = num_experts s" "bank_sources s2 = bank_sources s" "alphas s2 = alphas s"
    "id_of_slot s2 = id_of_slot s1" "decode_target s2 = decode_target s" "cpu_layer_ids s2 = cpu_layer_ids s" "cache_size s2 = cache_size s"
    "prefill_overlap s2 = prefill_overlap s"
    by (subst c(4), simp add: f1)+
  have sc: "same_config s s2" by (simp add: same_config_def eq)
  have b: "bank_caches s2 \<noteq> []" using c(5) V(4) f1 by auto
  have v2: "serve_inv s2" by (rule serve_inv_config [OF v sc c(2,3) b])
  note B = banks_okD [OF ec_invD(11) [OF c(2)]]
  have row: "map (take (num_experts s2)) (bank_caches s2) ! j ! e = bank_sources s2 ! j ! layer ! e"
    if "j < length (bank_sources s2)" "e < num_experts s2" for j e
  proof -
    have j: "j < length (bank_caches s2)" using that(1) B(1) by simp
    have d: "e < cache_size s2" using that(2) ec_invD(2) [OF c(2)] by simp
    have "id_of_slot s2 ! e = int (layer * num_experts s2 + e)" using m(4) [of e] that(2) eq by simp
    then have "bank_caches s2 ! j ! e = row_of s2 j (layer * num_experts s2 + e)" using coherentD [OF c(3) j d] by simp
    then show ?thesis using j that(2) by (simp add: row_of_flat)
  qed
  have "expert_gemm ex k (map (take (num_experts s2)) (bank_caches s2)) (alphas_for_layer layer s2) ws ids = moe_reference ex k layer s2 ws ids"
    by (rule views_gemm [OF row]) (use ids B(1) in \<open>simp_all add: eq\<close>)
  then have "prefill_routed avail safe ex k layer ws ids s = Inr (s2, moe_reference ex k layer s ws ids)"
    using o reference_config [OF sc] c(1) b by (simp add: prefill_routed_def s1_def bank_views_def)
  then show ?thesis using v2 sc eq(9) by blast
qed

text \<open>What a prefetch that really copies does.\<close>

definition prefetched :: "nat \<Rightarrow> 'r ecache \<Rightarrow> 'r ecache \<Rightarrow> bool" where
  "prefetched l s s' \<longleftrightarrow>
     same_config s s' \<and> cache_size s' = cache_size s \<and> prefill_overlap s' = prefill_overlap s \<and> hit_active s' = hit_active s \<and>
     slot_snapshot s' = slot_snapshot s \<and> buf_layer s' = (buf_layer s)[l mod 2 := Some l] \<and>
     buf_released s' = (buf_released s)[l mod 2 := False] \<and> length (bank_caches s') = length (bank_caches s) \<and>
     (\<forall>j < length (bank_caches s). \<forall>c < cache_size s. \<not> in_buffer (l mod 2) (num_experts s) c \<longrightarrow> bank_caches s' ! j ! c = bank_caches s ! j ! c) \<and>
     (\<forall>i < num_layers s * num_experts s. slot_for_id s' ! i =
        (if \<exists>c < cache_size s. in_buffer (l mod 2) (num_experts s) c \<and> id_of_slot s ! c = int i then -1 else slot_for_id s ! i))"

lemma prefetch_ok:
  fixes s :: "'r ecache"
  assumes i: "ec_inv s" and c: "coherent {} s" and b: "bank_caches s \<noteq> []" and o: "prefill_overlap s" and l: "l < num_layers s"
    and f: "buf_layer s ! (l mod 2) \<noteq> Some l" "buf_layer s ! (l mod 2) = None \<or> buf_released s ! (l mod 2)"
    and sn: "hit_active s \<Longrightarrow> snapshot_ok s"
  obtains s' where "prefetch_prefill_layer (int l) s = Inr s'" "ec_inv s'" "coherent {} s'" "prefetched l s s'" "buffer_holds (l mod 2) l s'"
    "hit_active s' \<longrightarrow> snapshot_ok s'"
proof -
  have m: "l mod 2 < 2" by simp
  note E2 = ec_invD(3) [OF i o]
  define x where "x = (if hit_active s then prefetch_split l (l mod 2) s else full_copy l (l mod 2) s)"
  have x: "ec_inv x" "coherent {} x" "refilled (l mod 2) s x" "buffer_holds (l mod 2) l x"
    using full_copy_ok [OF i m E2 c l] prefetch_split_ok [OF i m E2 c l] sn by (auto simp: x_def)
  have fr: "decode_target x = decode_target s" "cpu_layer_ids x = cpu_layer_ids s"
    by (simp_all add: x_def full_copy_def prefetch_split_def invalidate_prefill_buffer_def Let_def)
  define s' where "s' = x\<lparr>buf_layer := (buf_layer x)[l mod 2 := Some l], buf_released := (buf_released x)[l mod 2 := False]\<rparr>"
  note R = x(3) [unfolded refilled_def]
  have r: "prefetch_prefill_layer (int l) s = Inr s'"
    using o l b f by (auto simp: prefetch_prefill_layer_def Let_def s'_def x_def)
  have i': "ec_inv s'" using x(1) by (simp add: ec_inv_def s'_def banks_ok_def tables_ok_def)
  have c': "coherent {} s'" using x(2) by (simp add: coherent_def s'_def row_of_def)
  have h': "buffer_holds (l mod 2) l s'" using x(4) by (simp add: buffer_holds_def s'_def)
  have p: "prefetched l s s'"
    using R fr by (simp add: prefetched_def same_config_def s'_def)
  have "snapshot_ok s'" if "hit_active s'"
  proof -
    have s: "snapshot_ok s" using that sn R by (simp add: s'_def)
    show ?thesis
      unfolding snapshot_ok_def
    proof (intro allI impI)
      fix q assume "q < num_layers s' * num_experts s'"
      then have q: "q < num_layers s * num_experts s" using R by (simp add: s'_def)
      have sf: "slot_for_id s' ! q = (if \<exists>c < cache_size s. in_buffer (l mod 2) (num_experts s) c \<and> id_of_slot s ! c = int q then -1 else slot_for_id s ! q)"
        using R q by (simp add: s'_def)
      have "(int (2 * num_experts s) \<le> slot_for_id s' ! q) = (int (2 * num_experts s) \<le> slot_for_id s ! q)"
      proof (cases "\<exists>c < cache_size s. in_buffer (l mod 2) (num_experts s) c \<and> id_of_slot s ! c = int q")
        case True
        then obtain c where k: "c < cache_size s" "in_buffer (l mod 2) (num_experts s) c" "id_of_slot s ! c = int q" by blast
        then have "slot_for_id s ! q = int c" using slot_iff [OF ec_invD(1) [OF i] q k(1)] by simp
        moreover have "c < 2 * num_experts s"
          using k(2) buffer_bound [OF m, of "num_experts s" "2 * num_experts s"] unfolding in_buffer_def by linarith
        moreover have "slot_for_id s' ! q = -1" unfolding sf by (rule if_P [OF True])
        ultimately show ?thesis by simp
      next
        case False
        then have "slot_for_id s' ! q = slot_for_id s ! q" unfolding sf by (rule if_not_P)
        then show ?thesis by simp
      qed
      moreover have "slot_snapshot s' = slot_snapshot s" "num_experts s' = num_experts s" using R by (simp_all add: s'_def)
      ultimately show "(int (2 * num_experts s') \<le> slot_snapshot s' ! q) = (int (2 * num_experts s') \<le> slot_for_id s' ! q)"
        using s q by (simp add: snapshot_ok_def)
    qed
  qed
  then show ?thesis using that [OF r i' c' p h'] by blast
qed

text \<open>The other buffer keeps its layer.\<close>

lemma prefetched_other:
  assumes i: "ec_inv s" and p: "prefetched l s s'" and h: "buffer_holds b layer s" and o: "prefill_overlap s" and n: "b < 2" "b \<noteq> l mod 2"
  shows "buffer_holds b layer s'"
  unfolding buffer_holds_def
proof (intro allI impI)
  fix j e assume a: "j < length (bank_caches s')" "e < num_experts s'"
  note P = p [unfolded prefetched_def same_config_def]
  have e: "e < num_experts s" "j < length (bank_caches s)" using a P by simp_all
  have d: "b * num_experts s + e < cache_size s" using buffer_bound [OF n(1) ec_invD(3) [OF i o]] e(1) by simp
  have "\<not> in_buffer (l mod 2) (num_experts s) (b * num_experts s + e)"
  proof -
    have "b = 0 \<and> l mod 2 = 1 \<or> b = 1 \<and> l mod 2 = 0" using n by linarith
    then show ?thesis using e(1) by (auto simp: in_buffer_def)
  qed
  then have "bank_caches s' ! j ! (b * num_experts s + e) = bank_caches s ! j ! (b * num_experts s + e)" using P e(2) d by blast
  then show "bank_caches s' ! j ! (b * num_experts s' + e) = bank_sources s' ! j ! layer ! e"
    using h e P by (simp add: buffer_holds_def)
qed

text \<open>
  Between the layers of a prefill with overlap: the next layer is in its buffer, and the other buffer
  is free or released.
\<close>

definition pass_inv :: "nat \<Rightarrow> 'r ecache \<Rightarrow> bool" where
  "pass_inv l s \<longleftrightarrow>
     serve_inv s \<and>
     (prefill_overlap s \<and> 0 < l \<longrightarrow>
        (hit_active s \<longrightarrow> snapshot_ok s) \<and>
        (l < num_layers s \<longrightarrow> buf_layer s ! (l mod 2) = Some l \<and> buffer_holds (l mod 2) l s) \<and>
        buf_layer s ! (Suc l mod 2) = Some (l - 1) \<and> buf_released s ! (Suc l mod 2))"

lemma mod2_neq: "Suc l mod 2 \<noteq> l mod 2" "l mod 2 \<noteq> Suc l mod 2" "Suc l mod 2 < 2" "l mod 2 < 2"
  by presburger+

lemma begin_ok:
  fixes avail :: bool
  assumes v: "serve_inv s" and o: "prefill_overlap s"
  defines "s' \<equiv> begin_prefill avail s"
  shows "serve_inv s'" "same_config s s'" "prefill_overlap s'" "buf_layer s' = [None, None]" "hit_active s' \<Longrightarrow> snapshot_ok s'"
proof -
  show "same_config s s'" "prefill_overlap s'" "buf_layer s' = [None, None]"
    using o by (simp_all add: s'_def begin_prefill_def Let_def same_config_def)
  show "serve_inv s'"
    using v by (auto simp: s'_def begin_prefill_def Let_def serve_inv_def ec_inv_def tables_ok_def banks_ok_def coherent_def row_of_def alphas_ok_def split: option.splits)
  show "hit_active s' \<Longrightarrow> snapshot_ok s'"
    using o by (auto simp: s'_def begin_prefill_def Let_def snapshot_ok_def split: if_splits)
qed

lemma prefill_overlap_ok:
  fixes s :: "'r ecache"
  assumes p: "pass_inv l s" and l: "l < num_layers s" and ids: "\<forall>e \<in> set ids. e < num_experts s" and o: "prefill_overlap s"
  shows "\<exists>s'. prefill_routed avail safe ex k l ws ids s = Inr (s', moe_reference ex k l s ws ids) \<and>
    pass_inv (Suc l) s' \<and> same_config s s' \<and> prefill_overlap s' = prefill_overlap s"
proof -
  have v: "serve_inv s" using p by (simp add: pass_inv_def)
  define s1 where "s1 = (if l = 0 then begin_prefill avail s else s)"
  have a: "serve_inv s1" "same_config s s1" "prefill_overlap s1" "hit_active s1 \<Longrightarrow> snapshot_ok s1"
    using begin_ok [OF v o, of avail] p v o by (auto simp: s1_def same_config_def pass_inv_def)
  note A = serve_invD [OF a(1)]
  have l1: "l < num_layers s1" using l a(2) by (simp add: same_config_def)
  \<comment> \<open>the layer is in its buffer\<close>
  have "\<exists>s2. prefetch_prefill_layer (int l) s1 = Inr s2 \<and> ec_inv s2 \<and> coherent {} s2 \<and> buffer_holds (l mod 2) l s2 \<and>
    buf_layer s2 ! (l mod 2) = Some l \<and> (hit_active s2 \<longrightarrow> snapshot_ok s2) \<and> same_config s1 s2 \<and> prefill_overlap s2 \<and>
    bank_caches s2 \<noteq> [] \<and> buf_layer s2 ! (Suc l mod 2) \<noteq> Some (Suc l) \<and>
    (buf_layer s2 ! (Suc l mod 2) = None \<or> buf_released s2 ! (Suc l mod 2))"
  proof (cases "l = 0")
    case True
    have e: "buf_layer s1 = [None, None]" using begin_ok(4) [OF v o] True by (simp add: s1_def)
    obtain s2 where s2: "prefetch_prefill_layer (int l) s1 = Inr s2" "ec_inv s2" "coherent {} s2" "prefetched l s1 s2"
      "buffer_holds (l mod 2) l s2" "hit_active s2 \<longrightarrow> snapshot_ok s2"
      by (rule prefetch_ok [OF A(1,2,4) a(3) l1 _ _ a(4)]) (use e True in simp_all)
    note P = s2(4) [unfolded prefetched_def]
    have "bank_caches s2 \<noteq> []" using P A(4) by auto
    moreover have "buf_layer s2 = [Some 0, None]" using P e True by simp
    ultimately show ?thesis using s2 P a(3) True by simp
  next
    case False
    then have s1: "s1 = s" by (simp add: s1_def)
    have b: "buf_layer s ! (l mod 2) = Some l" "buffer_holds (l mod 2) l s" "buf_layer s ! (Suc l mod 2) = Some (l - 1)" "buf_released s ! (Suc l mod 2)"
      using p o l False by (simp_all add: pass_inv_def)
    have "prefetch_prefill_layer (int l) s = Inr s" using o l A(4) b(1) by (simp add: prefetch_prefill_layer_def Let_def s1)
    then show ?thesis using A(1,2,4) a(3,4) b False by (simp add: s1 same_config_def)
  qed
  then obtain s2 where s2: "prefetch_prefill_layer (int l) s1 = Inr s2" "ec_inv s2" "coherent {} s2" "buffer_holds (l mod 2) l s2"
    "buf_layer s2 ! (l mod 2) = Some l" "hit_active s2 \<Longrightarrow> snapshot_ok s2" "same_config s1 s2" "prefill_overlap s2"
    "bank_caches s2 \<noteq> []" "buf_layer s2 ! (Suc l mod 2) \<noteq> Some (Suc l)"
    "buf_layer s2 ! (Suc l mod 2) = None \<or> buf_released s2 ! (Suc l mod 2)" by blast
  have l2: "l < num_layers s2" using l1 s2(7) by (simp add: same_config_def)
  \<comment> \<open>the next one is prefetched into the other\<close>
  have "\<exists>s3. prefetch_prefill_layer (int l + 1) s2 = Inr s3 \<and> ec_inv s3 \<and> coherent {} s3 \<and> buffer_holds (l mod 2) l s3 \<and>
    buf_layer s3 ! (l mod 2) = Some l \<and> (hit_active s3 \<longrightarrow> snapshot_ok s3) \<and> same_config s2 s3 \<and> prefill_overlap s3 \<and> bank_caches s3 \<noteq> [] \<and>
    (Suc l < num_layers s3 \<longrightarrow> buf_layer s3 ! (Suc l mod 2) = Some (Suc l) \<and> buffer_holds (Suc l mod 2) (Suc l) s3)"
  proof (cases "Suc l < num_layers s2")
    case True
    have n: "int l + 1 = int (Suc l)" by simp
    obtain s3 where s3: "prefetch_prefill_layer (int (Suc l)) s2 = Inr s3" "ec_inv s3" "coherent {} s3" "prefetched (Suc l) s2 s3"
      "buffer_holds (Suc l mod 2) (Suc l) s3" "hit_active s3 \<longrightarrow> snapshot_ok s3"
      by (rule prefetch_ok [OF s2(2,3,9,8) True s2(10,11,6)]) blast
    note P = s3(4) [unfolded prefetched_def]
    have "buffer_holds (l mod 2) l s3" by (rule prefetched_other [OF s2(2) s3(4) s2(4,8) mod2_neq(4,2)])
    moreover have "bank_caches s3 \<noteq> []" using P s2(9) by auto
    moreover have "length (buf_layer s2) = 2" by (rule ec_invD(9) [OF s2(2)])
    ultimately show ?thesis using s3 P s2(5,8) mod2_neq [of l] unfolding n by (simp add: nth_list_update)
  next
    case False
    then have "prefetch_prefill_layer (int l + 1) s2 = Inr s2" by (simp add: prefetch_prefill_layer_def)
    then show ?thesis using s2 False by (auto simp: same_config_def)
  qed
  then obtain s3 where s3: "prefetch_prefill_layer (int l + 1) s2 = Inr s3" "ec_inv s3" "coherent {} s3" "buffer_holds (l mod 2) l s3"
    "buf_layer s3 ! (l mod 2) = Some l" "hit_active s3 \<Longrightarrow> snapshot_ok s3" "same_config s2 s3" "prefill_overlap s3" "bank_caches s3 \<noteq> []"
    "Suc l < num_layers s3 \<Longrightarrow> buf_layer s3 ! (Suc l mod 2) = Some (Suc l) \<and> buffer_holds (Suc l mod 2) (Suc l) s3" by blast
  have l3: "l < num_layers s3" using l2 s3(7) by (simp add: same_config_def)
  \<comment> \<open>wait and release\<close>
  have w: "prefetch_prefill_layer (int l) s3 = Inr s3" using s3(5,8,9) l3 by (simp add: prefetch_prefill_layer_def Let_def)
  define views where "views = map (\<lambda>c. take (num_experts s3) (drop (l mod 2 * num_experts s3) c)) (bank_caches s3)"
  have wt: "wait_prefill_overlap avail l s = Inr (s3, views)"
    unfolding wait_prefill_overlap_def Let_def s1_def [symmetric] s2(1) and_then_simps s3(1)
    using s3(5,8,9) by (simp add: wait_prefill_layer_def w views_def Let_def)
  note B = banks_okD [OF ec_invD(11) [OF s3(2)]]
  have row: "views ! j ! e = bank_sources s3 ! j ! l ! e" if "j < length (bank_sources s3)" "e < num_experts s3" for j e
  proof -
    have j: "j < length (bank_caches s3)" using that(1) B(1) by simp
    have "l mod 2 * num_experts s3 + num_experts s3 \<le> cache_size s3"
      by (rule buffer_bound [OF mod2_neq(4) ec_invD(3) [OF s3(2,8)]])
    then show ?thesis using s3(4) j that(2) B(3) [OF that(1)] by (simp add: views_def buffer_holds_def)
  qed
  have sc: "same_config s s3" by (rule same_config_trans [OF a(2) same_config_trans [OF s2(7) s3(7)]])
  have g: "expert_gemm ex k views (alphas_for_layer l s3) ws ids = moe_reference ex k l s ws ids"
    unfolding reference_config [OF sc, symmetric]
    by (rule views_gemm [OF row]) (use ids sc B(1) in \<open>simp_all add: views_def same_config_def\<close>)
  define s4 where "s4 = release_prefill_layer l s3"
  have s4: "s4 = s3\<lparr>buf_released := (buf_released s3)[l mod 2 := True]\<rparr>" using s3(5,8) by (simp add: s4_def release_prefill_layer_def Let_def)
  have v3: "serve_inv s3" by (rule serve_inv_config [OF v sc s3(2,3,9)])
  have v4: "serve_inv s4"
    using v3 by (auto simp: s4 serve_inv_def ec_inv_def tables_ok_def banks_ok_def coherent_def row_of_def alphas_ok_def split: option.splits)
  have "pass_inv (Suc l) s4"
    using v4 s3(5,6,10) mod2_neq [of l] ec_invD(10) [OF s3(2)]
    by (auto simp: pass_inv_def s4 snapshot_ok_def buffer_holds_def)
  moreover have "same_config s s4" "prefill_overlap s4 = prefill_overlap s" using sc s3(8) o by (simp_all add: same_config_def s4)
  moreover have "prefill_routed avail safe ex k l ws ids s = Inr (s4, moe_reference ex k l s ws ids)"
    using o by (simp add: prefill_routed_def wt g s4_def)
  ultimately show ?thesis by blast
qed

lemma prefill_step:
  assumes p: "pass_inv l s" and l: "l < num_layers s" and ids: "\<forall>e \<in> set ids. e < num_experts s"
  shows "\<exists>s'. prefill_routed avail safe ex k l ws ids s = Inr (s', moe_reference ex k l s ws ids) \<and>
    pass_inv (Suc l) s' \<and> same_config s s' \<and> prefill_overlap s' = prefill_overlap s"
proof (cases "prefill_overlap s")
  case True
  then show ?thesis by (rule prefill_overlap_ok [OF p l ids])
next
  case False
  have "serve_inv s" using p by (simp add: pass_inv_def)
  from prefill_materialize [OF this l ids False, of avail safe ex k ws] show ?thesis
    using False by (auto simp: pass_inv_def)
qed

text \<open>The outputs of a whole prefill.\<close>

definition pass_reference ::
  "(nat \<Rightarrow> 'w \<Rightarrow> 'r list \<Rightarrow> ('r \<times> 'r) option \<Rightarrow> 'y::comm_monoid_add) \<Rightarrow> nat \<Rightarrow> 'r ecache \<Rightarrow> nat \<Rightarrow> ('w list \<times> nat list) list \<Rightarrow> 'y list list" where
  "pass_reference ex k s l rs = map (\<lambda>(l', ws, ids). moe_reference ex k l' s ws ids) (zip [l..<l + length rs] rs)"

lemma prefill_pass_ok:
  assumes "pass_inv l s" and "l + length rs \<le> num_layers s" and "\<forall>(ws, ids) \<in> set rs. \<forall>e \<in> set ids. e < num_experts s"
  shows "\<exists>s'. prefill_pass avail safe ex k l rs s = Inr (s', pass_reference ex k s l rs) \<and> serve_inv s' \<and> same_config s s'"
  using assms
proof (induction rs arbitrary: l s)
  case Nil
  then show ?case by (simp add: pass_reference_def pass_inv_def same_config_def)
next
  case (Cons q rs)
  obtain ws ids where q: "q = (ws, ids)" by (cases q)
  have l: "l < num_layers s" and ids: "\<forall>e \<in> set ids. e < num_experts s" using Cons.prems(2,3) by (auto simp: q)
  obtain s1 where s1: "prefill_routed avail safe ex k l ws ids s = Inr (s1, moe_reference ex k l s ws ids)" "pass_inv (Suc l) s1" "same_config s s1"
    using prefill_step [OF Cons.prems(1) l ids] by blast
  have "Suc l + length rs \<le> num_layers s1" "\<forall>(ws, ids) \<in> set rs. \<forall>e \<in> set ids. e < num_experts s1"
    using Cons.prems(2,3) s1(3) by (auto simp: same_config_def)
  from Cons.IH [OF s1(2) this] obtain s2 where s2: "prefill_pass avail safe ex k (Suc l) rs s1 = Inr (s2, pass_reference ex k s1 (Suc l) rs)"
    "serve_inv s2" "same_config s1 s2" by blast
  have "pass_reference ex k s1 (Suc l) rs = pass_reference ex k s (Suc l) rs"
    by (simp add: pass_reference_def reference_config [OF s1(3)])
  moreover have "[l..<l + length (q # rs)] = l # [Suc l..<Suc l + length rs]" by (simp add: upt_conv_Cons del: upt_Suc)
  then have "pass_reference ex k s l (q # rs) = moe_reference ex k l s ws ids # pass_reference ex k s (Suc l) rs"
    by (simp only: pass_reference_def zip_Cons_Cons list.map prod.case q)
  ultimately have "prefill_pass avail safe ex k l (q # rs) s = Inr (s2, pass_reference ex k s l (q # rs))"
    using s1(1) s2(1) by (simp add: q)
  then show ?case using s2(2) same_config_trans [OF s1(3) s2(3)] by blast
qed

end
