(* ===== verification/Expert_Setup.thy ===== *)
theory Expert_Setup
  imports Expert_Serve
begin

text \<open>
  The set-up of the expert cache establishes the invariant of serving; a reset, a rebuild and the
  statistics keep it.
\<close>

lemma tables_cold: "tables_ok n m t" if "slot_for_id t = replicate n (-1)" "id_of_slot t = replicate m (-1)" "usage t = replicate m 0" "lru_step t = 0"
  using that by (simp add: tables_ok_def)

lemma cold_coherent: "id_of_slot s = replicate (cache_size s) (-1) \<Longrightarrow> coherent {} s"
  by (simp add: coherent_def)

lemma reset_ok:
  assumes v: "serve_inv s"
  shows "serve_inv (ec_reset s)" "same_config s (ec_reset s)" "cache_size (ec_reset s) = cache_size s"
proof -
  note V = serve_invD [OF v] and I = ec_invD [OF serve_invD(1) [OF v]]
  show c: "same_config s (ec_reset s)" "cache_size (ec_reset s) = cache_size s"
    by (simp_all add: same_config_def ec_reset_def reset_tables_def)
  have "tables_ok (num_layers s * num_experts s) (cache_size s) (ec_reset s)"
    by (rule tables_cold) (simp_all add: ec_reset_def reset_tables_def)
  then have "ec_inv (ec_reset s)"
    using I unfolding ec_inv_def by (auto simp: ec_reset_def reset_tables_def banks_ok_def)
  moreover have "coherent {} (ec_reset s)" by (rule cold_coherent) (simp add: ec_reset_def reset_tables_def)
  moreover have "bank_caches (ec_reset s) \<noteq> []" using V(4) by (simp add: ec_reset_def reset_tables_def)
  ultimately show "serve_inv (ec_reset s)" by (rule serve_inv_config [OF v c(1)])
qed

lemma rebuild_ok:
  assumes v: "serve_inv s" and r: "ec_rebuild blank slots s = Inr s'"
  shows "serve_inv s'" "same_config s s'" "cache_size s' = slots"
proof -
  note V = serve_invD [OF v] and I = ec_invD [OF serve_invD(1) [OF v]]
  note B = banks_okD [OF I(11)]
  have e: "num_experts s \<le> slots"
    using r by (auto simp: ec_rebuild_def ec_validate_rebuild_def split: if_splits)
  obtain ov where s': "s' = (reset_tables s slots)\<lparr>
                  buf_layer := [None, None], buf_released := [True, True], cache_size := slots,
                  bank_caches := map (\<lambda>_. replicate slots blank) (bank_sources s),
                  num_missing_full := 0, expert_recency := replicate (num_layers s * num_experts s) (-1),
                  prefill_hit_rows := 0, prefill_total_rows := 0, totals := no_stats,
                  layer_stats := replicate (num_layers s) no_stats, prefill_overlap := ov\<rparr>"
    and ov: "ov \<longrightarrow> 2 * num_experts s \<le> slots"
  proof -
    let ?ov = "prefill_overlap s \<and> 2 * num_experts s \<le> slots"
    have "s' = (reset_tables s slots)\<lparr>
                  buf_layer := [None, None], buf_released := [True, True], cache_size := slots,
                  bank_caches := map (\<lambda>_. replicate slots blank) (bank_sources s),
                  num_missing_full := 0, expert_recency := replicate (num_layers s * num_experts s) (-1),
                  prefill_hit_rows := 0, prefill_total_rows := 0, totals := no_stats,
                  layer_stats := replicate (num_layers s) no_stats, prefill_overlap := ?ov\<rparr>"
      using r by (cases s) (auto simp: ec_rebuild_def reset_tables_def init_prefill_buffers_def Let_def and_then_eq_Inr split: if_splits)
    then show ?thesis by (rule that) simp
  qed
  show c: "same_config s s'" "cache_size s' = slots" by (simp_all add: same_config_def s' reset_tables_def)
  have "tables_ok (num_layers s * num_experts s) slots s'" by (rule tables_cold) (simp_all add: s' reset_tables_def)
  moreover have "banks_ok s'" using I(11) B(2) by (auto simp: banks_ok_def s' reset_tables_def)
  ultimately have "ec_inv s'"
    using I(4,5) e ov unfolding ec_inv_def by (auto simp: s' reset_tables_def)
  moreover have "coherent {} s'" by (rule cold_coherent) (simp add: s' reset_tables_def)
  moreover have "bank_caches s' \<noteq> []" using V(4) B(1) by (auto simp: s' reset_tables_def)
  ultimately show "serve_inv s'" by (rule serve_inv_config [OF v c(1)])
qed

lemma reset_stats_ok:
  assumes v: "serve_inv s"
  shows "serve_inv (reset_stats s)" "same_config s (reset_stats s)"
proof -
  show c: "same_config s (reset_stats s)" by (simp add: same_config_def reset_stats_def)
  show "serve_inv (reset_stats s)"
    by (rule serve_inv_config [OF v c])
      (use serve_invD [OF v] in \<open>auto simp: reset_stats_def ec_inv_def tables_ok_def banks_ok_def coherent_def row_of_def\<close>)
qed

section \<open>Set-up\<close>

lemma check_bank_rows:
  assumes "check_bank layers experts bs = Inr ()"
  shows "length (map bk_rows bs) = layers" "\<forall>r \<in> set (map bk_rows bs). length r = experts"
  using assms by (auto simp: check_bank_def split: if_splits list.splits)

lemma schemas_nonempty: "map_of bank_schemas fmt = Some sc \<Longrightarrow> sc \<noteq> []"
  by (auto simp: bank_schemas_def split: if_splits)

lemma setup_ok:
  assumes r: "setup_cache hybrid cpu_layers layers experts slots policy overlap hit fmt junk blank sources residency gu dn = Inr s"
    and native: "hybrid \<or> cpu_layers \<noteq> {} \<longrightarrow> gu = None \<and> dn = None"
  shows "serve_inv s" "num_layers s = layers" "num_experts s = experts" "cache_size s = slots"
    "decode_target s = decode_target_of hybrid cpu_layers" "cpu_layer_ids s = cpu_layers"
proof -
  obtain c1 c2 c3 where c: "ec_init layers experts slots policy overlap hit fmt (decode_target_of hybrid cpu_layers) junk = Inr c1"
    "set_bank_sources blank sources residency c1 = Inr c2" "set_alphas gu dn c2 = Inr c3" "s = c3\<lparr>cpu_layer_ids := cpu_layers\<rparr>"
    using r by (auto simp: setup_cache_def and_then_eq_Inr)
  have sz: "experts \<le> slots" "overlap \<Longrightarrow> 2 * experts \<le> slots"
    using c(1) by (auto simp: ec_init_def ec_validate_rebuild_def split: if_splits)
  have c1: "c1 = \<lparr>slot_for_id = replicate (layers * experts) (-1), id_of_slot = replicate slots (-1),
                usage = replicate slots 0, lru_step = 0, evict_slots = replicate experts junk,
                src_indices = replicate experts junk, num_indices = 0,
                num_layers = layers, num_experts = experts, cache_size = slots, quant_format = fmt,
                decode_target = decode_target_of hybrid cpu_layers, prefill_overlap = overlap, prefill_hit_d2d = hit,
                active_mask = replicate experts 0, num_missing_full = 0,
                expert_recency = replicate (layers * experts) (-1),
                bank_sources = [], bank_caches = [], bank_bytes = [], alphas = None, pending_src_layer = None,
                buf_layer = [None, None], buf_released = [True, True], slot_snapshot = [],
                hit_active = False, prefill_hit_rows = 0, prefill_total_rows = 0,
                totals = no_stats, layer_stats = replicate layers no_stats, cpu_layer_ids = {}\<rparr>"
    using c(1) by (auto simp: ec_init_def and_then_eq_Inr split: if_splits)
  obtain sc banks where b: "map_of bank_schemas fmt = Some sc"
    "map_err (\<lambda>n. and_then (check_bank layers experts (the (map_of sources n))) (\<lambda>_. Inr (the (map_of sources n)))) sc = Inr banks"
    and c2: "c2 = c1\<lparr>bank_sources := map (map bk_rows) banks, bank_caches := map (\<lambda>_. replicate slots blank) banks,
                      bank_bytes := map (\<lambda>bs. bk_bytes (hd bs)) banks\<rparr>"
    using c(2) by (auto simp: set_bank_sources_def c1 Let_def and_then_eq_Inr init_prefill_buffers_def split: option.splits if_splits)
  have bk: "length banks = length sc \<and> (\<forall>bs \<in> set banks. check_bank layers experts bs = Inr ())"
  proof -
    note z = map_err_zip [OF b(2)]
    have "check_bank layers experts bs = Inr ()" if bsm: "bs \<in> set banks" for bs
    proof -
      obtain j where j: "j < length banks" "bs = banks ! j" using bsm by (metis in_set_conv_nth)
      then have zz: "(sc ! j, banks ! j) \<in> set (zip sc banks)" using z by (auto simp: set_zip)
      then have "and_then (check_bank layers experts (the (map_of sources (sc ! j)))) (\<lambda>_. Inr (the (map_of sources (sc ! j)))) = Inr (banks ! j)"
        using bspec [OF conjunct2 [OF z] zz] by simp
      then show ?thesis using j by (auto simp: and_then_eq_Inr)
    qed
    then show ?thesis using z by simp
  qed
  have rows: "length b = layers" "l \<in> set b \<Longrightarrow> length l = experts" if "b \<in> set (map (map bk_rows) banks)" for b l
    using that bk check_bank_rows [of layers experts] by fastforce+
  obtain al where c3: "c3 = c2\<lparr>alphas := al\<rparr>" and gd: "al \<noteq> None \<longrightarrow> gu \<noteq> None"
    and al: "case al of None \<Rightarrow> True | Some (g, d) \<Rightarrow> length g = layers * experts \<and> length d = layers * experts"
  proof (cases gu)
    case None
    then have e: "c3 = c2" using c(3) by (auto simp: set_alphas_def split: option.splits)
    have a: "alphas c2 = None" by (simp add: c2 c1)
    have "c2 = c2\<lparr>alphas := alphas c2\<rparr>" by simp
    then have "c3 = c2\<lparr>alphas := None\<rparr>" unfolding e a .
    then show ?thesis by (rule that) simp_all
  next
    case (Some g)
    then obtain d where d: "dn = Some d" using c(3) by (auto simp: set_alphas_def split: option.splits)
    have n: "num_layers c2 = layers" "num_experts c2 = experts" by (simp_all add: c2 c1)
    have l: "length g = layers * experts \<and> length d = layers * experts"
      using c(3) by (cases "length g = layers * experts \<and> length d = layers * experts") (simp_all add: set_alphas_def Some d n)
    then have "c3 = c2\<lparr>alphas := Some (g, d)\<rparr>" using c(3) by (simp add: set_alphas_def Some d n)
    then show ?thesis by (rule that) (simp_all add: Some l)
  qed
  have s: "s = c2\<lparr>alphas := al, cpu_layer_ids := cpu_layers\<rparr>" using c(4) c3 by simp
  have ao: "alphas_ok s" using al by (simp add: alphas_ok_def s c2 c1 split: option.splits prod.splits)
  show n: "num_layers s = layers" "num_experts s = experts" "cache_size s = slots" by (simp_all add: s c2 c1)
  show dt: "decode_target s = decode_target_of hybrid cpu_layers" "cpu_layer_ids s = cpu_layers" by (simp_all add: s c2 c1)
  have "tables_ok (layers * experts) slots s" by (rule tables_cold) (simp_all add: s c2 c1)
  moreover have "banks_ok s"
    using rows by (auto simp: banks_ok_def s c2 c1)
  ultimately have "ec_inv s"
    unfolding ec_inv_def n using sz by (simp add: s c2 c1)
  moreover have "coherent {} s" by (rule cold_coherent) (simp add: s c2 c1)
  moreover have "bank_caches s \<noteq> []" using bk schemas_nonempty [OF b(1)] by (auto simp: s c2 c1)
  moreover have "alphas s \<noteq> None \<longrightarrow> decode_target s \<noteq> ''hybrid'' \<and> cpu_layer_ids s = {}"
  proof
    assume "alphas s \<noteq> None"
    then have "\<not> (hybrid \<or> cpu_layers \<noteq> {})" using native gd by (auto simp: s)
    then show "decode_target s \<noteq> ''hybrid'' \<and> cpu_layer_ids s = {}" using dt by (simp add: decode_target_of_def)
  qed
  ultimately show "serve_inv s" using ao unfolding serve_inv_def by blast
qed

end
