(* ===== verification/Expert_Kernel.thy ===== *)
theory Expert_Kernel
  imports Expert_Coherence
begin

text \<open>
  The GPU kernel of the capped fetch and its CPU mirror make the same decisions: the masked minimum over
  the usages picks the mirror's victim, and the score or the rank of a lane picks the mirror's next miss.
\<close>

section \<open>Lanes\<close>

lemma pick_sum:
  assumes "i < n"
  shows "(\<Sum>c \<leftarrow> [0..<n]. if c = i then f c else 0) = (f i :: 'b::comm_monoid_add)"
proof -
  have "(\<Sum>c \<leftarrow> [0..<n]. if c = i then f c else 0) = (\<Sum>c \<in> {0..<n}. if c = i then f c else 0)"
    by (simp add: sum_list_distinct_conv_sum_set)
  then show ?thesis using assms by simp
qed

lemma lanes_nth [simp]: "i < n \<Longrightarrow> lanes n f ! i = f i" "length (lanes n f) = n"
  by (simp_all add: lanes_def)

lemma count_filter: "(\<Sum>c \<leftarrow> xs. if P c then 1 else (0::int)) = int (length (filter P xs))"
  by (induction xs) auto

lemma fold_if: "fold (\<lambda>e u. if P e then g e u else u) xs u = fold g (filter P xs) u"
  by (induction xs arbitrary: u) auto

text \<open>The lane of a given rank is the list's element at that position.\<close>

lemma rank_filter:
  assumes o: "j < E" "P j"
  shows "int (length (filter P [0..<Suc j])) - 1 = int i \<longleftrightarrow> i < length (filter P [0..<E]) \<and> filter P [0..<E] ! i = j"
proof -
  define r where "r = length (filter P [0..<j])"
  have "[0..<E] = [0..<j] @ j # [Suc j..<E]" using o(1) upt_add_eq_append [of 0 j "E - j"] upt_conv_Cons [of j E] by simp
  then have f: "filter P [0..<E] = filter P [0..<j] @ j # filter P [Suc j..<E]" using o(2) by simp
  have r: "r < length (filter P [0..<E])" "filter P [0..<E] ! r = j" by (simp_all add: f r_def nth_append)
  have "int (length (filter P [0..<Suc j])) - 1 = int r" using o(2) by (simp add: r_def)
  moreover have "distinct (filter P [0..<E])" by simp
  ultimately show ?thesis using r by (metis nth_eq_iff_index_eq of_nat_eq_iff)
qed

section \<open>The loop\<close>

text \<open>
  Before the \<open>k\<close>-th round the masked usages hide the slots of requested ids, the reverse table read
  before the loop is right on the others, and the scores are those of the misses still to fetch.
\<close>

definition lane_inv ::
  "bool \<Rightarrow> nat set \<Rightarrow> nat \<Rightarrow> nat \<Rightarrow> nat \<Rightarrow> int list \<Rightarrow> int list \<Rightarrow> nat list \<Rightarrow> nat \<Rightarrow> 'a evict_regs \<Rightarrow> bool" where
  "lane_inv rec A base E m oid recency ms k r \<longleftrightarrow>
     length (er_u r) = m \<and>
     (\<forall>c < m. er_u r ! c = (if id_of_slot (er_mem r) ! c \<in> int ` A then big else usage (er_mem r) ! c)) \<and>
     (\<forall>c < m. id_of_slot (er_mem r) ! c \<notin> int ` A \<longrightarrow> oid ! c = id_of_slot (er_mem r) ! c) \<and>
     (rec \<longrightarrow> length (er_score r) = E \<and>
        (\<forall>e < E. er_score r ! e = (if e \<in> set (drop k ms) then recency ! (base + e) * int E + (int E - 1 - int e) else none)))"

lemma score_order:
  assumes "e < E" and "e' < E" and "(- r, e) < (- r', e' :: nat)"
  shows "(r' :: int) * int E + (int E - 1 - int e') < r * int E + (int E - 1 - int e)"
proof (cases "r' < r")
  case True
  have "r' * int E + (int E - 1 - int e') < (r' + 1) * int E" using assms(2) by (simp add: algebra_simps)
  also have "\<dots> \<le> r * int E" using True by (intro mult_right_mono) simp_all
  finally show ?thesis using assms(1) by simp
next
  case False
  then have "r' = r" "e < e'" using assms(3) by auto
  then show ?thesis by simp
qed

text \<open>The next miss: by the largest score, or by the rank.\<close>

lemma next_miss:
  fixes E base :: nat and recency :: "int list"
  defines "key \<equiv> \<lambda>e. (- (recency ! (base + e)), e)"
  assumes k: "k < length ms" and d: "distinct ms" and b: "\<forall>e \<in> set ms. e < E" "int E < 2 ^ 60" "\<forall>e < E. -1 \<le> recency ! (base + e)"
    and so: "sorted (map key ms)" and l: "length score = E"
    and sc: "\<forall>e < E. score ! e = (if e \<in> set (drop k ms) then recency ! (base + e) * int E + (int E - 1 - int e) else none)"
  shows "argmax_lane score = ms ! k"
proof -
  define v where "v = ms ! k"
  define f where "f e = recency ! (base + e) * int E + (int E - 1 - int e)" for e
  have dk: "drop k ms = v # drop (Suc k) ms" using k by (simp add: v_def Cons_nth_drop_Suc)
  have v: "v < E" using b(1) k by (simp add: v_def)
  have sv: "score ! v = f v" using sc v dk by (simp add: f_def)
  have gt: "score ! c < score ! v" if c: "c < E" "c \<noteq> v" for c
  proof (cases "c \<in> set (drop k ms)")
    case True
    then have "c \<in> set (drop (Suc k) ms)" using c(2) dk by simp
    then obtain i where "i < length (drop (Suc k) ms)" "c = drop (Suc k) ms ! i" by (metis in_set_conv_nth)
    then obtain j where j: "j < length ms" "k < j" "c = ms ! j" by (intro that [of "Suc k + i"]) simp_all
    have "key v \<le> key c" using so j k by (simp add: v_def sorted_iff_nth_mono)
    then have "key v < key c" using c(2) by (auto simp: key_def)
    from score_order [OF v c(1) this [unfolded key_def]] show ?thesis using True sc c(1) sv by (simp add: f_def)
  next
    case False
    have "- int E = -1 * int E" by simp
    also have "\<dots> \<le> recency ! (base + v) * int E" using b(3) v by (intro mult_right_mono) simp_all
    also have "\<dots> \<le> f v" using v by (simp add: f_def)
    finally have "none < f v" using b(2) by (simp add: none_def)
    then show ?thesis using False sc c(1) sv by simp
  qed
  show ?thesis
    unfolding argmax_lane_def l v_def [symmetric]
  proof (rule arg_min_upt_unique [OF v])
    show "- (score ! v) \<le> - (score ! c)" if "c < E" for c using gt [OF that] by (cases "c = v") auto
    show "- (score ! v) < - (score ! c)" if "c < v" for c using gt [of c] that v by auto
  qed
qed

lemma next_rank:
  assumes mi: "\<forall>e < E. missing ! e = P e" and rk: "\<forall>e < E. rank ! e = (\<Sum>j \<leftarrow> [0..<Suc e]. if missing ! j then 1 else 0) - 1"
    and k: "k < length (filter P [0..<E])"
  shows "(\<Sum>j \<leftarrow> [0..<E]. if rank ! j = int k \<and> missing ! j then j else 0) = filter P [0..<E] ! k"
proof -
  define v where "v = filter P [0..<E] ! k"
  have v: "v < E" "P v" using nth_mem [OF k] by (auto simp: v_def)
  have iff: "(rank ! j = int k \<and> missing ! j) = (j = v)" if j: "j < E" for j
  proof (cases "P j")
    case True
    have "filter ((!) missing) [0..<Suc j] = filter P [0..<Suc j]" by (rule filter_cong) (use j mi in auto)
    then have "rank ! j = int (length (filter P [0..<Suc j])) - 1" using rk j by (simp only: count_filter)
    then show ?thesis using rank_filter [where P = P, OF j True, of k] True mi j k by (auto simp: v_def)
  next
    case False
    then show ?thesis using mi j v by auto
  qed
  have "map (\<lambda>j. if rank ! j = int k \<and> missing ! j then j else 0) [0..<E] = map (\<lambda>j. if j = v then j else 0) [0..<E]"
    by (rule map_cong) (use iff in auto)
  then show ?thesis using pick_sum [OF v(1), of "\<lambda>j. j"] by (simp only: v_def)
qed

text \<open>One round of the kernel is one round of the mirror.\<close>

lemma kernel_round:
  fixes r :: "'a evict_regs"
  defines "t \<equiv> er_mem r"
  assumes t: "tables_ok n m t" and h: "hot_ok A m t" and A: "finite A" "A \<subseteq> {..<n}" "card A \<le> m"
    and L: "lane_inv rec A base E m oid recency ms k r" and st: "lru_step t < big" and lo: "length oid = m"
    and k: "k < length ms" "base + ms ! k \<in> A" "slot_for_id t ! (base + ms ! k) = -1" and d: "distinct ms" "\<forall>e \<in> set ms. e < E"
    and pick: "rec \<Longrightarrow> argmax_lane (er_score r) = ms ! k"
      "\<not> rec \<Longrightarrow> (\<Sum>j \<leftarrow> [0..<E]. if rank ! j = int k \<and> missing ! j then j else 0) = ms ! k"
  defines "r' \<equiv> kernel_fetch rec base E oid missing rank k r"
  shows "er_mem r' = fetch_one base (k, ms ! k) t" "lane_inv rec A base E m oid recency ms (Suc k) r'"
proof -
  note D = tables_okD [OF t]
  define v where "v = victim_of t"
  define e where "e = ms ! k"
  note w = victim [OF t h A k(2,3), folded v_def]
  have u: "length (er_u r) = m" "\<And>c. c < m \<Longrightarrow> er_u r ! c = (if id_of_slot t ! c \<in> int ` A then big else usage t ! c)"
    and oi: "\<And>c. c < m \<Longrightarrow> id_of_slot t ! c \<notin> int ` A \<Longrightarrow> oid ! c = id_of_slot t ! c"
    and sc: "rec \<Longrightarrow> length (er_score r) = E" "\<And>x. rec \<Longrightarrow> x < E \<Longrightarrow> er_score r ! x =
      (if x \<in> set (drop k ms) then recency ! (base + x) * int E + (int E - 1 - int x) else none)"
    using L unfolding lane_inv_def t_def by simp_all
  have uv: "er_u r ! v = usage t ! v" using u(2) [OF w(1)] w(3) by simp
  have vb: "usage t ! v < big" using w(2) st by simp
  have am: "argmin_lane (er_u r) = v"
    unfolding argmin_lane_def u(1)
  proof (rule arg_min_upt_unique [OF w(1)])
    show "er_u r ! v \<le> er_u r ! c" if "c < m" for c using u(2) [OF that] w(4) [OF that] vb uv by simp
    show "er_u r ! v < er_u r ! c" if "c < v" for c
    proof -
      have "c < m" using that w(1) by simp
      then show ?thesis using u(2) [of c] w(5) [OF that] vb uv by simp
    qed
  qed
  have od: "(\<Sum>c \<leftarrow> [0..<length oid]. if c = v then oid ! c else 0) = id_of_slot t ! v"
    using pick_sum [of v m "(!) oid"] w(1) oi [OF w(1) w(3)] by (simp add: lo)
  have pe: "(if rec then argmax_lane (er_score r) else \<Sum>j \<leftarrow> [0..<E]. if rank ! j = int k \<and> missing ! j then j else 0) = e"
    using pick by (simp add: e_def)
  have r': "r' = \<lparr>er_u = (er_u r)[v := big], er_score = (if rec then (er_score r)[e := none] else er_score r),
      er_mem = fetch_one base (k, e) t\<rparr>"
    unfolding r'_def kernel_fetch_def Let_def am od pe t_def [symmetric]
    by (simp add: fetch_one_def Let_def flip: v_def [unfolded victim_of_def])
  then show "er_mem r' = fetch_one base (k, ms ! k) t" by (simp add: e_def)
  note o = fetch_one_ok(8,9) [OF t h A k(2,3), where k = k, folded v_def e_def]
  have ia: "int (base + e) \<in> int ` A" using k(2) by (simp only: e_def image_eqI)
  have io: "id_of_slot (er_mem r') ! c = (if c = v then int (base + e) else id_of_slot t ! c)" if "c < m" for c
    using that D(2) by (simp add: r' o nth_list_update)
  have us: "usage (er_mem r') ! c = (if c = v then lru_step t else usage t ! c)" if "c < m" for c
    using that D(3) by (simp add: r' o nth_list_update)
  have dk: "drop k ms = e # drop (Suc k) ms" using k(1) by (simp add: e_def Cons_nth_drop_Suc)
  have ne: "e \<notin> set (drop (Suc k) ms)" using d(1) dk by (metis distinct.simps(2) distinct_drop)
  show "lane_inv rec A base E m oid recency ms (Suc k) r'"
    unfolding lane_inv_def
  proof (intro conjI allI impI)
    show "length (er_u r') = m" by (simp add: r' u(1))
    show "er_u r' ! c = (if id_of_slot (er_mem r') ! c \<in> int ` A then big else usage (er_mem r') ! c)" if c: "c < m" for c
      using u(2) [OF c] io [OF c] us [OF c] ia c u(1) by (cases "c = v") (simp_all add: r')
    show "oid ! c = id_of_slot (er_mem r') ! c" if c: "c < m" "id_of_slot (er_mem r') ! c \<notin> int ` A" for c
      using io [OF c(1)] oi [OF c(1)] ia c(2) by (cases "c = v") simp_all
    show "length (er_score r') = E" if rec using sc(1) [OF that] that by (simp add: r')
    show "er_score r' ! x = (if x \<in> set (drop (Suc k) ms) then recency ! (base + x) * int E + (int E - 1 - int x) else none)"
      if "rec" "x < E" for x
      using sc(1) [OF that(1)] sc(2) [OF that] ne that by (cases "x = e") (simp_all add: r' dk)
  qed
qed

lemma kernel_loop:
  fixes r :: "'a evict_regs"
  assumes "tables_ok n m (er_mem r)" and "hot_ok A m (er_mem r)" and A: "finite A" "A \<subseteq> {..<n}" "card A \<le> m"
    and "lane_inv rec A base E m oid recency ms k r" and "lru_step (er_mem r) < big" and lo: "length oid = m"
    and "\<forall>j. k \<le> j \<and> j < length ms \<longrightarrow> slot_for_id (er_mem r) ! (base + ms ! j) = -1"
    and ms: "\<forall>e \<in> set ms. base + e \<in> A" "distinct ms" "\<forall>e \<in> set ms. e < E"
    and pick: "\<And>k score. rec \<Longrightarrow> k < length ms \<Longrightarrow> length score = E \<Longrightarrow>
        \<forall>e < E. score ! e = (if e \<in> set (drop k ms) then recency ! (base + e) * int E + (int E - 1 - int e) else none) \<Longrightarrow>
        argmax_lane score = ms ! k"
      "\<And>k. \<not> rec \<Longrightarrow> k < length ms \<Longrightarrow> (\<Sum>j \<leftarrow> [0..<E]. if rank ! j = int k \<and> missing ! j then j else 0) = ms ! k"
    and "k + x \<le> length ms"
  shows "er_mem (fold (kernel_fetch rec base E oid missing rank) [k..<k + x] r) =
    fold (fetch_one base) (enumerate k (take x (drop k ms))) (er_mem r)"
  using assms(1,2,6,7,9,15)
proof (induction x arbitrary: k r)
  case (Suc x)
  define r1 where "r1 = kernel_fetch rec base E oid missing rank k r"
  have k: "k < length ms" using Suc.prems(6) by simp
  have a: "base + ms ! k \<in> A" "slot_for_id (er_mem r) ! (base + ms ! k) = -1" using ms(1) k Suc.prems(5) by auto
  have p: "argmax_lane (er_score r) = ms ! k" if "rec"
    by (rule pick(1) [OF that k]) (use Suc.prems(3) that in \<open>simp_all add: lane_inv_def\<close>)
  have R: "er_mem r1 = fetch_one base (k, ms ! k) (er_mem r)" "lane_inv rec A base E m oid recency ms (Suc k) r1"
    using kernel_round [OF Suc.prems(1,2) A Suc.prems(3,4) lo k a ms(2,3) p pick(2) [OF _ k]] by (simp_all add: r1_def)
  note f = fetch_one_ok(1,2) [OF Suc.prems(1,2) A a, where k = k, folded R(1)]
    fetch_one_ok(10) [OF Suc.prems(1,2) A a, where k = k, folded R(1)] fetch_one_ok(14) [OF Suc.prems(1,2) A a, where k = k, folded R(1)]
  have "slot_for_id (er_mem r1) ! (base + ms ! j) = -1" if "Suc k \<le> j" "j < length ms" for j
  proof -
    have "ms ! j \<noteq> ms ! k" using that ms(2) k by (simp add: nth_eq_iff_index_eq)
    then show ?thesis using f(3) [of "base + ms ! j"] ms(1) that Suc.prems(5) by simp
  qed
  then have e: "er_mem (fold (kernel_fetch rec base E oid missing rank) [Suc k..<Suc k + x] r1) =
    fold (fetch_one base) (enumerate (Suc k) (take x (drop (Suc k) ms))) (er_mem r1)"
    using Suc.prems(4,6) f(4) by (intro Suc.IH [OF f(1,2) R(2)]) auto
  have "[k..<k + Suc x] = k # [Suc k..<Suc k + x]" by (simp add: upt_conv_Cons del: upt_Suc)
  moreover have "take (Suc x) (drop k ms) = ms ! k # take x (drop (Suc k) ms)" using k by (simp add: Cons_nth_drop_Suc [symmetric])
  ultimately show ?case using e by (simp add: R(1) r1_def [symmetric] del: upt_Suc)
qed simp

section \<open>The whole step\<close>

lemma touch_lanes:
  assumes t: "tables_ok n m s" and A: "\<forall>e \<in> set ids. e < E" "\<forall>e < E. base + e < n"
  shows "fold (\<lambda>e u. if lanes E (\<lambda>e. e \<in> set ids) ! e \<and> 0 \<le> lanes E (\<lambda>e. slot_for_id s ! (base + e)) ! e
      then u[nat (lanes E (\<lambda>e. slot_for_id s ! (base + e)) ! e) := step] else u) [0..<E] (usage s) =
    touch step (slot_for_id s) (map ((+) base) (seen_of ids)) (usage s)" (is "fold ?f _ _ = _")
proof -
  note D = tables_okD [OF t]
  let ?g = "\<lambda>e u. if slot_for_id s ! (base + e) \<noteq> -1 then u[nat (slot_for_id s ! (base + e)) := step] else u"
  let ?es = "filter (\<lambda>e. e \<in> set ids) [0..<E]"
  have pos: "0 \<le> slot_for_id s ! (base + e) \<longleftrightarrow> slot_for_id s ! (base + e) \<noteq> -1" if "e < E" for e
    using D(5) [of "base + e"] A(2) that by auto
  have "fold ?f [0..<E] (usage s) = fold (\<lambda>e u. if e \<in> set ids then ?g e u else u) [0..<E] (usage s)"
    by (rule fold_cong [OF refl refl]) (use pos in auto)
  also have "\<dots> = fold ?g ?es (usage s)" by (rule fold_if)
  also have "\<dots> = touch step (slot_for_id s) (map ((+) base) ?es) (usage s)" by (simp add: touch_def fold_map comp_def)
  also have "\<dots> = touch step (slot_for_id s) (map ((+) base) (seen_of ids)) (usage s)"
  proof -
    have b: "\<forall>i \<in> set (map ((+) base) xs). slot_for_id s ! i = -1 \<or> (\<exists>c < length (usage s). slot_for_id s ! i = int c)"
      if "set xs = set ids" for xs
    proof
      fix i assume "i \<in> set (map ((+) base) xs)"
      then have "i < n" using that A by auto
      then show "slot_for_id s ! i = -1 \<or> (\<exists>c < length (usage s). slot_for_id s ! i = int c)" using D(3,5) by metis
    qed
    have e: "set ?es = set ids" using A(1) by auto
    show ?thesis
      by (rule nth_equalityI)
        (use A(1) touch_nth [OF b [OF e], of step] touch_nth [OF b [OF seen_of(2)], of step] in \<open>auto simp: seen_of e\<close>)
  qed
  finally show ?thesis .
qed

lemma fold_active:
  assumes "\<forall>e \<in> set ids. e < E"
  shows "fold (\<lambda>e r. if lanes E (\<lambda>e. e \<in> set ids) ! e then r[base + e := step] else r) [0..<E] r =
    fold (\<lambda>e r. r[base + e := step]) (seen_of ids) r"
proof -
  have "fold (\<lambda>e r. if lanes E (\<lambda>e. e \<in> set ids) ! e then r[base + e := step] else r) [0..<E] r =
      fold (\<lambda>e r. if e \<in> set ids then r[base + e := step] else r) [0..<E] r"
    by (rule fold_cong [OF refl refl]) simp
  also have "\<dots> = fold (\<lambda>e r. r[base + e := step]) (filter (\<lambda>e. e \<in> set ids) [0..<E]) r" by (rule fold_if)
  also have "\<dots> = fold (\<lambda>e r. r[base + e := step]) (seen_of ids) r"
  proof (rule nth_equalityI)
    have e: "set (filter (\<lambda>e. e \<in> set ids) [0..<E]) = set ids" using assms by auto
    show "fold (\<lambda>e r. r[base + e := step]) (filter (\<lambda>e. e \<in> set ids) [0..<E]) r ! i =
        fold (\<lambda>e r. r[base + e := step]) (seen_of ids) r ! i"
      if "i < length (fold (\<lambda>e r. r[base + e := step]) (filter (\<lambda>e. e \<in> set ids) [0..<E]) r)" for i
      using that by (simp only: fold_upd_const e seen_of)
  qed (simp only: fold_upd_const)
  finally show ?thesis .
qed

lemma active_lanes:
  assumes "\<forall>e \<in> set ids. e < E"
  shows "lanes E (\<lambda>e. if lanes E (\<lambda>e. e \<in> set ids) ! e then 1 else 0) = fold (\<lambda>e m. m[e := 1]) (seen_of ids) (replicate E (0::int))"
  by (rule nth_equalityI)
    (use fold_upd_const [where f = id and v = "1::int" and es = "seen_of ids" and r = "replicate E 0"] in \<open>simp_all add: seen_of\<close>)

lemma misses_sorted:
  assumes "\<forall>e \<in> set ids. e < E"
  shows "hybrid_missing False base (seen_of ids) s = filter (\<lambda>e. e \<in> set ids \<and> slot_for_id s ! (base + e) = -1) [0..<E]"
    (is "_ = ?f")
proof -
  let ?m = "filter (\<lambda>e. slot_for_id s ! (base + e) = -1) (seen_of ids)"
  have "set ?f = set ?m" using assms by (auto simp: seen_of)
  moreover have "sorted ?f" "distinct ?f" "distinct ?m" by (simp_all add: sorted_wrt_filter seen_of)
  ultimately show ?thesis
    unfolding hybrid_missing_def Let_def
    by (simp add: sorted_distinct_set_unique)
qed

lemma miss_count:
  assumes "\<forall>e \<in> set ids. e < E"
  shows "(\<Sum>e \<leftarrow> [0..<E]. if lanes E (\<lambda>e. lanes E (\<lambda>e. e \<in> set ids) ! e \<and> lanes E (\<lambda>e. slot_for_id s ! (base + e)) ! e = -1) ! e
      then 1 else 0) = int (length (hybrid_missing rec base (seen_of ids) s))" (is "?l = _")
proof -
  let ?P = "\<lambda>e. e \<in> set ids \<and> slot_for_id s ! (base + e) = -1"
  have "?l = int (length (filter ?P [0..<E]))"
  proof -
    have "filter ((!) (lanes E (\<lambda>e. lanes E (\<lambda>e. e \<in> set ids) ! e \<and> lanes E (\<lambda>e. slot_for_id s ! (base + e)) ! e = -1))) [0..<E] =
        filter ?P [0..<E]"
      by (rule filter_cong [OF refl]) simp
    then show ?thesis by (simp only: count_filter)
  qed
  moreover have "length (filter ?P [0..<E]) = length (hybrid_missing rec base (seen_of ids) s)"
  proof -
    have "set (filter ?P [0..<E]) = set (hybrid_missing rec base (seen_of ids) s)"
      using assms by (auto simp: hybrid_missing seen_of)
    moreover have "distinct (filter ?P [0..<E])" by simp
    ultimately show ?thesis using distinct_card hybrid_missing(1) [OF seen_of(1), of rec base ids s] by metis
  qed
  ultimately show ?thesis by simp
qed

lemma kernel_mirror:
  fixes s :: "'r ecache"
  assumes i: "ec_inv s" and l: "layer < num_layers s" and ids: "\<forall>e \<in> set ids. e < num_experts s"
    and st: "lru_step s + 1 < big" and E60: "int (num_experts s) < 2 ^ 60"
  shows "ensure_hybrid_gpu rec layer ids mf q s = ensure_hybrid_cpu rec layer ids mf q s"
proof -
  define E where "E = num_experts s"
  define base where "base = layer * E"
  define n where "n = num_layers s * E"
  define m where "m = cache_size s"
  define A where "A = (\<lambda>e. base + e) ` set ids"
  note I = ec_invD [OF i, folded E_def, folded n_def m_def]
  note D = tables_okD [OF I(1)]
  have ids': "\<forall>e \<in> set ids. e < E" using ids by (simp add: E_def)
  have bn: "\<forall>e < E. base + e < n" using flat_id [OF l] by (simp add: base_def n_def E_def)
  define step where "step = lru_step s + 1"
  define u1 where "u1 = touch step (slot_for_id s) (map ((+) base) (seen_of ids)) (usage s)"
  define am where "am = fold (\<lambda>e m. m[e := 1]) (seen_of ids) (replicate E (0::int))"
  define s1 where "s1 = s\<lparr>lru_step := step, active_mask := am, usage := u1\<rparr>"
  define ms where "ms = hybrid_missing rec base (seen_of ids) s1"
  define num where "num = hybrid_cap mf q (int (length ms))"
  define s2 where "s2 = s1\<lparr>num_missing_full := int (length ms), num_indices := num\<rparr>"
  define active where "active = lanes E (\<lambda>e. e \<in> set ids)"
  define slot where "slot = lanes E (\<lambda>e. slot_for_id s ! (base + e))"
  define missing where "missing = lanes E (\<lambda>e. active ! e \<and> slot ! e = -1)"
  define score where "score = lanes E (\<lambda>e. if missing ! e then expert_recency s ! (base + e) * int E + (int E - 1 - int e) else none)"
  define rank where "rank = lanes E (\<lambda>e. (\<Sum>o' \<leftarrow> [0..<Suc e]. if missing ! o' then 1 else 0) - (1::int))"
  define u where "u = lanes m (\<lambda>c. if lanes m (\<lambda>c. \<exists>e \<in> set ids. id_of_slot s2 ! c = int (base + e)) ! c then big else usage s2 ! c)"
  define r0 where "r0 = \<lparr>er_u = u, er_score = score, er_mem = s2\<rparr>"
  define s3 where "s3 = fold (fetch_one base) (enumerate 0 (take (nat num) ms)) s2"
  have A: "finite A" "A \<subseteq> {..<n}" "set (map ((+) base) (seen_of ids)) = A"
    using ids' bn by (auto simp: A_def seen_of)
  have cA: "card A \<le> m"
  proof -
    have "card A \<le> card (set ids)" unfolding A_def by (simp add: card_image_le)
    also have "\<dots> \<le> card {..<E}" using ids' by (intro card_mono) auto
    finally show ?thesis using I(2) by simp
  qed
  have sel: "slot_for_id s2 = slot_for_id s" "id_of_slot s2 = id_of_slot s" "usage s2 = u1" "lru_step s2 = step"
    "expert_recency s2 = expert_recency s"
    by (simp_all add: s2_def s1_def)
  have t: "tables_ok n m s2" "hot_ok A m s2"
    by (rule touch_ok [OF I(1) A(2,3)]; simp add: sel step_def u1_def)+
  have dm: "distinct ms" "set ms = {e \<in> set ids. slot_for_id s ! (base + e) = -1}"
    using hybrid_missing [where seen = "seen_of ids" and rec = rec and base = base and s = s1] by (simp_all add: ms_def seen_of s1_def)
  have mi: "\<forall>e < E. missing ! e = (e \<in> set ids \<and> slot_for_id s ! (base + e) = -1)" by (simp add: missing_def active_def slot_def)
  have mm: "(\<Sum>e \<leftarrow> [0..<E]. if missing ! e then 1 else 0) = int (length ms)"
  proof -
    have "hybrid_missing rec base (seen_of ids) s1 = hybrid_missing rec base (seen_of ids) s"
      by (cases rec) (simp_all add: hybrid_missing_def s1_def)
    then show ?thesis using miss_count [OF ids', of s base rec] by (simp only: missing_def active_def slot_def ms_def)
  qed
  have nm: "min (int (length ms)) (if 0 < q then if max (int (length ms) * q div q16 * (q16 - q)) ((int (length ms) - int (length ms) * q div q16) * q)
        \<le> max ((int (length ms) * q div q16 + 1) * (q16 - q)) ((int (length ms) - int (length ms) * q div q16 - 1) * q)
        then int (length ms) * q div q16 else int (length ms) * q div q16 + 1 else mf) = num"
    by (simp add: num_def hybrid_cap_def balanced_fetch_def fetch_cost_def Let_def diff_diff_eq)
  have ug: "fold (\<lambda>e u. if active ! e \<and> 0 \<le> slot ! e then u[nat (slot ! e) := step] else u) [0..<E] (usage s) = u1"
    unfolding active_def slot_def u1_def by (rule touch_lanes [OF I(1) ids' bn])
  have ag: "lanes E (\<lambda>e. if active ! e then 1 else 0) = am" unfolding active_def am_def by (rule active_lanes [OF ids'])
  have rg: "fold (\<lambda>e r. if active ! e then r[base + e := step] else r) [0..<E] r = fold (\<lambda>e r. r[base + e := step]) (seen_of ids) r" for r
    unfolding active_def by (rule fold_active [OF ids'])
  have s2e: "s\<lparr>lru_step := step, active_mask := am, num_missing_full := int (length ms), num_indices := num, usage := u1\<rparr> = s2"
    by (simp add: s2_def s1_def)
  have loop: "er_mem (fold (kernel_fetch rec base E (id_of_slot s2) missing rank) [0..<nat num] r0) = s3" if "0 < num"
  proof -
    have "0 + nat num \<le> length ms" by (simp add: num_def hybrid_cap_def)
    have li: "lane_inv rec A base E m (id_of_slot s2) (expert_recency s) ms 0 r0"
    proof -
      have "(\<exists>e \<in> set ids. x = int (base + e)) \<longleftrightarrow> x \<in> int ` A" for x by (auto simp: A_def simp del: of_nat_add)
      then show ?thesis using dm(2) mi by (auto simp: lane_inv_def r0_def u_def score_def)
    qed
    have pr: "argmax_lane sc = ms ! k"
      if "rec" "k < length ms" "length sc = E" "\<forall>e < E. sc ! e = (if e \<in> set (drop k ms)
          then expert_recency s ! (base + e) * int E + (int E - 1 - int e) else none)" for k sc
    proof (rule next_miss [OF that(2) dm(1) _ _ _ _ that(3,4)])
      show "\<forall>e \<in> set ms. e < E" using dm(2) ids' by auto
      show "int E < 2 ^ 60" using E60 by (simp add: E_def)
      show "\<forall>e < E. -1 \<le> expert_recency s ! (base + e)" using I(7,8) bn by (metis nth_mem)
      have "ms = sort_key (\<lambda>e. (- (expert_recency s ! (base + e)), e)) (filter (\<lambda>e. slot_for_id s ! (base + e) = -1) (seen_of ids))"
        using that(1) by (simp add: ms_def hybrid_missing_def s1_def)
      then show "sorted (map (\<lambda>e. (- (expert_recency s ! (base + e)), e)) ms)" by simp
    qed
    have pk: "(\<Sum>j \<leftarrow> [0..<E]. if rank ! j = int k \<and> missing ! j then j else 0) = ms ! k" if "\<not> rec" "k < length ms" for k
    proof -
      have me: "ms = filter (\<lambda>e. e \<in> set ids \<and> slot_for_id s ! (base + e) = -1) [0..<E]"
        using misses_sorted [OF ids', of base s1] that(1) by (simp add: ms_def s1_def)
      have "\<forall>e < E. rank ! e = (\<Sum>j \<leftarrow> [0..<Suc e]. if missing ! j then 1 else 0) - 1" by (simp add: rank_def del: upt_Suc)
      from next_rank [OF mi this, of k] that(2) me show ?thesis by simp
    qed
    have "er_mem (fold (kernel_fetch rec base E (id_of_slot s2) missing rank) [0..<0 + nat num] r0) =
      fold (fetch_one base) (enumerate 0 (take (nat num) (drop 0 ms))) (er_mem r0)"
      by (rule kernel_loop [where n = n and m = m and A = A and recency = "expert_recency s"])
        (use t A cA li st D pr pk dm ids' \<open>0 + nat num \<le> length ms\<close> in \<open>auto simp: r0_def sel step_def A_def dest: nth_mem\<close>)
    then show ?thesis by (simp add: s3_def r0_def)
  qed
  have s3: "(if 0 < num then er_mem (fold (kernel_fetch rec base E (id_of_slot s2) missing rank) [0..<nat num] r0) else s2) = s3"
    using loop by (auto simp: s3_def)
  have "ensure_hybrid_gpu rec layer ids mf q s =
    (if rec then s3\<lparr>expert_recency := fold (\<lambda>e r. r[base + e := step]) (seen_of ids) (expert_recency s3)\<rparr> else s3,
     map (\<lambda>e. slot_for_id s3 ! (base + e)) ids)"
    unfolding ensure_hybrid_gpu_def Let_def
    by (simp only: E_def [symmetric] m_def [symmetric] base_def [symmetric] step_def [symmetric] active_def [symmetric] slot_def [symmetric]
        missing_def [symmetric] mm nm ug ag s2e score_def [symmetric] rank_def [symmetric] u_def [symmetric] r0_def [symmetric] s3 rg)
  moreover have "ensure_hybrid_cpu rec layer ids mf q s =
    (if rec then s3\<lparr>expert_recency := fold (\<lambda>e r. r[base + e := step]) (seen_of ids) (expert_recency s3)\<rparr> else s3,
     map (\<lambda>e. slot_for_id (if rec then s3\<lparr>expert_recency := fold (\<lambda>e r. r[base + e := step]) (seen_of ids) (expert_recency s3)\<rparr> else s3)
        ! (base + e)) ids)"
    unfolding ensure_hybrid_cpu_def Let_def
    by (simp only: E_def [symmetric] base_def [symmetric] step_def [symmetric] u1_def [symmetric] am_def [symmetric] s1_def [symmetric]
        ms_def [symmetric] num_def [symmetric] s2_def [symmetric] s3_def [symmetric])
  moreover have "slot_for_id (if rec then s3\<lparr>expert_recency := r\<rparr> else s3) = slot_for_id s3" for r by simp
  ultimately show ?thesis by simp
qed

end
