(* ===== verification/Expert_Properties.thy ===== *)
theory Expert_Properties
  imports Expert_Setup Expert_Kernel
begin

text \<open>
  What the expert offload cache promises to the forward pass, in every state that serving reaches from a
  set-up cache: decode and prefill compute what the experts compute straight from the host banks, the GPU
  kernel decides as its CPU mirror, the capped fetch is an LRU cache. A concrete cache serves the witnesses.
\<close>

section \<open>Reachable states\<close>

text \<open>
  The states of the cache between the forwards of the model: a decode of one MoE layer, a prefill of
  the layers from the first on, a reset, a rebuild at run time and a reset of the statistics.
\<close>

inductive serving ::
  "(nat \<Rightarrow> nat list \<Rightarrow> lru \<Rightarrow> lru \<times> int list) \<Rightarrow>
   (nat \<Rightarrow> 'w::zero \<Rightarrow> 'r list \<Rightarrow> ('r \<times> 'r) option \<Rightarrow> 'y::comm_monoid_add) \<Rightarrow> nat \<Rightarrow> 'r ecache \<Rightarrow> 'r ecache \<Rightarrow> bool"
  for lru_ensure ex k s0 where
  start: "serving lru_ensure ex k s0 s0"
| decode: "serving lru_ensure ex k s0 s'"
    if "serving lru_ensure ex k s0 s" "layer < num_layers s" "\<forall>e \<in> set ids. e < num_experts s" "length ws = length ids" "0 \<le> mf"
      "decode_routed lru_ensure True by_recency stats safe mf fraction ex k layer ws ids s = Inr (s', out)"
| prefill: "serving lru_ensure ex k s0 s'"
    if "serving lru_ensure ex k s0 s" "length rs \<le> num_layers s" "\<forall>(ws, ids) \<in> set rs. \<forall>e \<in> set ids. e < num_experts s"
      "prefill_pass avail safe ex k 0 rs s = Inr (s', outs)"
| reset: "serving lru_ensure ex k s0 (ec_reset s)" if "serving lru_ensure ex k s0 s"
| rebuild: "serving lru_ensure ex k s0 s'" if "serving lru_ensure ex k s0 s" "ec_rebuild blank slots s = Inr s'"
| reset_stats: "serving lru_ensure ex k s0 (reset_stats s)" if "serving lru_ensure ex k s0 s"

lemma pass_start: "serve_inv s \<Longrightarrow> pass_inv 0 s"
  by (simp add: pass_inv_def)

lemma serving_inv:
  fixes ex :: "nat \<Rightarrow> 'w::zero \<Rightarrow> 'r list \<Rightarrow> ('r \<times> 'r) option \<Rightarrow> 'y::comm_monoid_add"
  assumes lru: "slot_cache lru_ensure" and z: "\<forall>t rows al. ex t 0 rows al = 0" and v: "serve_inv s0"
    and s: "serving lru_ensure ex k s0 s"
  shows "serve_inv s" "same_config s0 s"
proof -
  have "serve_inv s \<and> same_config s0 s"
    using s
  proof (induction rule: serving.induct)
    case start
    then show ?case using v by (simp add: same_config_def)
  next
    case (decode s layer ids ws mf by_recency stats safe fraction s' out)
    from decode_ok [where ex = ex, OF lru conjunct1 [OF decode.IH] decode.hyps(2,3) z decode.hyps(4,5), of by_recency stats safe fraction k]
    show ?case using decode.hyps(6) decode.IH same_config_trans [of s0 s s'] by auto
  next
    case (prefill s rs avail safe s' outs)
    have "0 + length rs \<le> num_layers s" using prefill.hyps(2) by simp
    from prefill_pass_ok [OF pass_start [OF conjunct1 [OF prefill.IH]] this prefill.hyps(3), of avail safe ex k]
    show ?case using prefill.hyps(4) prefill.IH same_config_trans [of s0 s s'] by auto
  next
    case (reset s)
    then show ?case using reset_ok [of s] same_config_trans [of s0 s] by blast
  next
    case (rebuild s blank slots s')
    then show ?case using rebuild_ok [of s blank slots s'] same_config_trans [of s0 s s'] by blast
  next
    case (reset_stats s)
    then show ?case using reset_stats_ok [of s] same_config_trans [of s0 s] by blast
  qed
  then show "serve_inv s" "same_config s0 s" by auto
qed

lemma serving_config:
  "same_config s0 s \<Longrightarrow> num_layers s = num_layers s0" "same_config s0 s \<Longrightarrow> num_experts s = num_experts s0"
  by (simp_all add: same_config_def)

section \<open>A concrete cache\<close>

text \<open>
  Two MoE layers of three experts over four slots, in the hybrid and in the plain mode, and expert kernels that scale
  the sum of a row's values by the weight of the route.
\<close>

definition demo_ex :: "nat \<Rightarrow> int \<Rightarrow> int list \<Rightarrow> (int \<times> int) option \<Rightarrow> int" where
  "demo_ex t w rows al = w * sum_list rows"

definition demo_bank :: "int list \<Rightarrow> int bank" where
  "demo_bank rows = \<lparr>bk_rows = rows, bk_shape = [3, 1], bk_dtype = ''bf16'', bk_bytes = 2, bk_contiguous = True\<rparr>"

definition demo_setup :: "bool \<Rightarrow> nat \<Rightarrow> bool \<Rightarrow> err + int ecache" where
  "demo_setup hybrid slots overlap =
     setup_cache hybrid {} 2 3 slots ''lru'' overlap False ''bf16'' 0 0
       [(''gate_up'', [demo_bank [1, 2, 3], demo_bank [4, 5, 6]]), (''down'', [demo_bank [10, 20, 30], demo_bank [40, 50, 60]])]
       None None None"

definition demo_cache :: "bool \<Rightarrow> nat \<Rightarrow> bool \<Rightarrow> int ecache" where
  "demo_cache hybrid slots overlap =
     \<lparr>slot_for_id = replicate 6 (-1), id_of_slot = replicate slots (-1), usage = replicate slots 0, lru_step = 0,
      evict_slots = replicate 3 0, src_indices = replicate 3 0, num_indices = 0,
      num_layers = 2, num_experts = 3, cache_size = slots, quant_format = ''bf16'',
      decode_target = (if hybrid then ''hybrid'' else ''gpu''), prefill_overlap = overlap, prefill_hit_d2d = False,
      active_mask = replicate 3 0, num_missing_full = 0, expert_recency = replicate 6 (-1),
      bank_sources = [[[1, 2, 3], [4, 5, 6]], [[10, 20, 30], [40, 50, 60]]],
      bank_caches = [replicate slots 0, replicate slots 0], bank_bytes = [2, 2], alphas = None, pending_src_layer = None,
      buf_layer = [None, None], buf_released = [True, True], slot_snapshot = [], hit_active = False,
      prefill_hit_rows = 0, prefill_total_rows = 0, totals = no_stats, layer_stats = replicate 2 no_stats, cpu_layer_ids = {}\<rparr>"

lemma demo_setup: "demo_setup True 4 False = Inr (demo_cache True 4 False)" "demo_setup False 6 True = Inr (demo_cache False 6 True)"
  by (simp_all add: demo_setup_def demo_cache_def setup_cache_def ec_init_def ec_validate_rebuild_def bank_schemas_def decode_target_of_def
      set_bank_sources_def check_bank_def check_def demo_bank_def set_alphas_def and_then_def init_prefill_buffers_def numeral_2_eq_2
      marlin_max_cache_size_def)

section \<open>Decode and prefill\<close>

text \<open>C2: In every state that serving reaches from a set-up cache, a decode of a MoE layer succeeds and
  returns what the layer's experts compute straight from the host banks, in every mode of the cache.\<close>

theorem decode_exact:
  fixes ex :: "nat \<Rightarrow> 'w::zero \<Rightarrow> 'r list \<Rightarrow> ('r \<times> 'r) option \<Rightarrow> 'y::comm_monoid_add"
  assumes "slot_cache lru_ensure" and "\<forall>t rows al. ex t 0 rows al = 0"
    and "setup_cache hybrid cpu_layers layers experts slots policy overlap hit fmt junk blank sources residency gu dn = Inr s0"
    and "hybrid \<or> cpu_layers \<noteq> {} \<longrightarrow> gu = None \<and> dn = None"
    and "serving lru_ensure ex k s0 s"
    and "layer < layers" and "\<forall>e \<in> set ids. e < experts" and "length ws = length ids" and "0 \<le> mf"
  shows "\<exists>s'. decode_routed lru_ensure True by_recency stats safe mf fraction ex k layer ws ids s =
    Inr (s', moe_reference ex k layer s0 ws ids)"
proof -
  note S = setup_ok [OF assms(3,4)]
  note V = serving_inv [OF assms(1,2) S(1) assms(5)]
  have "layer < num_layers s" "\<forall>e \<in> set ids. e < num_experts s"
    using assms(6,7) serving_config [OF V(2)] S(2,3) by simp_all
  from decode_ok [where ex = ex, OF assms(1) V(1) this assms(2,8,9), of by_recency stats safe fraction k]
  show ?thesis unfolding reference_config [OF V(2)] by blast
qed

theorem decode_exact_witness:
  "\<exists>s1 s2. decode_routed reference_lru True True True False 1 0 demo_ex 2 0 [1, 2, 3, 4] [0, 1, 2, 0] (demo_cache True 4 False) =
      Inr (s1, [55, 143]) \<and>
    decode_routed reference_lru True True True False 1 0 demo_ex 2 1 [1, 2] [2, 1] (ec_reset s1) = Inr (s2, [176])"
proof -
  let ?s0 = "demo_cache True 4 False"
  note st = demo_setup(1) [unfolded demo_setup_def]
  have lru: "slot_cache reference_lru" by (rule ref.slot_cache_axioms)
  have z: "\<forall>t rows al. demo_ex t 0 rows al = 0" by (simp add: demo_ex_def)
  have r0: "moe_reference demo_ex 2 0 ?s0 [1, 2, 3, 4] [0, 1, 2, 0] = [55, 143]"
    and r1: "moe_reference demo_ex 2 1 ?s0 [1, 2] [2, 1] = [176]"
    by (simp_all add: moe_reference_def expert_gemm_def demo_cache_def demo_ex_def alphas_for_layer_def scales_at_def upt_rec)
  obtain s1 where s1: "decode_routed reference_lru True True True False 1 0 demo_ex 2 0 [1, 2, 3, 4] [0, 1, 2, 0] ?s0 = Inr (s1, [55, 143])"
    using decode_exact [where ex = demo_ex, OF lru z st _ serving.start, of 0 "[0, 1, 2, 0]" "[1, 2, 3, 4]" 1 True True False 0 2] r0 by auto
  have "serving reference_lru demo_ex 2 ?s0 s1"
    by (rule serving.decode [OF serving.start _ _ _ _ s1]) (simp_all add: demo_cache_def)
  from decode_exact [where ex = demo_ex, OF lru z st _ serving.reset [OF this], of 1 "[2, 1]" "[1, 2]" 1 True True False 0] r1 s1
  show ?thesis by auto
qed

text \<open>C7: In every such state a prefill succeeds and every MoE layer returns what its experts compute straight
  from the host banks, with the two overlap buffers or without them.\<close>

theorem prefill_exact:
  fixes ex :: "nat \<Rightarrow> 'w::zero \<Rightarrow> 'r list \<Rightarrow> ('r \<times> 'r) option \<Rightarrow> 'y::comm_monoid_add"
  assumes "slot_cache lru_ensure" and "\<forall>t rows al. ex t 0 rows al = 0"
    and "setup_cache hybrid cpu_layers layers experts slots policy overlap hit fmt junk blank sources residency gu dn = Inr s0"
    and "hybrid \<or> cpu_layers \<noteq> {} \<longrightarrow> gu = None \<and> dn = None"
    and "serving lru_ensure ex k s0 s"
    and "length rs \<le> layers" and "\<forall>(ws, ids) \<in> set rs. \<forall>e \<in> set ids. e < experts"
  shows "\<exists>s'. prefill_pass avail safe ex k 0 rs s =
    Inr (s', map2 (\<lambda>layer (ws, ids). moe_reference ex k layer s0 ws ids) [0..<length rs] rs)"
proof -
  note S = setup_ok [OF assms(3,4)]
  note V = serving_inv [OF assms(1,2) S(1) assms(5)]
  have "0 + length rs \<le> num_layers s" "\<forall>(ws, ids) \<in> set rs. \<forall>e \<in> set ids. e < num_experts s"
    using assms(6,7) serving_config [OF V(2)] S(2,3) by simp_all
  from prefill_pass_ok [OF pass_start [OF V(1)] this, of avail safe ex k]
  moreover have "(\<lambda>layer. \<lambda>(ws, ids). moe_reference ex k layer s ws ids) = (\<lambda>layer. \<lambda>(ws, ids). moe_reference ex k layer s0 ws ids)"
    by (simp add: fun_eq_iff reference_config [OF V(2)])
  ultimately show ?thesis unfolding pass_reference_def by (auto simp only: add_0)
qed

theorem prefill_exact_witness:
  "\<exists>s1. prefill_pass True True demo_ex 1 0 [([1, 2], [0, 2]), ([3], [1])] (demo_cache False 6 True) = Inr (s1, [[11, 66], [165]])"
proof -
  let ?s0 = "demo_cache False 6 True"
  have z: "\<forall>t rows al. demo_ex t 0 rows al = 0" by (simp add: demo_ex_def)
  have "map2 (\<lambda>layer (ws, ids). moe_reference demo_ex 1 layer ?s0 ws ids) [0..<length [([1, 2], [0, 2]), ([3], [1])]]
      [([1, 2], [0, 2]), ([3], [1])] = [[11, 66], [165]]"
    by (simp add: moe_reference_def expert_gemm_def demo_cache_def demo_ex_def alphas_for_layer_def scales_at_def upt_rec)
  then show ?thesis
    using prefill_exact [where ex = demo_ex, OF ref.slot_cache_axioms z demo_setup(2) [unfolded demo_setup_def] _ serving.start,
        of "[([1, 2], [0, 2]), ([3], [1])]" True True 1]
    by auto
qed

section \<open>The capped fetch\<close>

lemma frac_q16_bounds: "0 \<le> frac_q16 r" "frac_q16 r \<le> q16"
  by (simp_all add: frac_q16_def q16_def)

text \<open>Up to \<open>m * q / 2^16\<close> the CPU is the slower side, beyond it the copies.\<close>

lemma balanced_split:
  assumes q: "0 \<le> q" "q \<le> q16" and m: "0 \<le> m"
  shows "0 \<le> balanced_fetch q m" "balanced_fetch q m \<le> m" "fetch_cost q m (balanced_fetch q m) \<le> fetch_cost q m f"
proof -
  define lo where "lo = m * q div q16"
  have Q: "0 < q16" by (simp add: q16_def)
  have "m * q = lo * q16 + m * q mod q16" by (simp add: lo_def)
  moreover have "0 \<le> m * q mod q16" "m * q mod q16 < q16" using Q by simp_all
  ultimately have lm: "lo * q16 \<le> m * q" and lt: "m * q < (lo + 1) * q16" by (simp_all add: algebra_simps)
  have side: "f * (q16 - q) \<le> (m - f) * q \<longleftrightarrow> f \<le> lo" for f
  proof -
    have "f * (q16 - q) \<le> (m - f) * q \<longleftrightarrow> f * q16 \<le> m * q" by (simp add: algebra_simps)
    also have "\<dots> \<longleftrightarrow> f \<le> lo"
    proof
      assume "f * q16 \<le> m * q"
      also note lt
      finally show "f \<le> lo" using Q by simp
    next
      assume "f \<le> lo"
      then have "f * q16 \<le> lo * q16" using Q by simp
      then show "f * q16 \<le> m * q" using lm by simp
    qed
    finally show ?thesis .
  qed
  have below: "fetch_cost q m f = (m - f) * q" if "f \<le> lo" for f using side [of f] that by (simp add: fetch_cost_def)
  have above: "fetch_cost q m f = f * (q16 - q)" if "lo < f" for f using side [of f] that by (simp add: fetch_cost_def)
  have b: "balanced_fetch q m = (if fetch_cost q m lo \<le> fetch_cost q m (lo + 1) then lo else lo + 1)"
    by (simp add: balanced_fetch_def lo_def Let_def)
  have lo: "0 \<le> lo" using q m Q by (simp add: lo_def pos_imp_zdiv_nonneg_iff)
  have "lo \<le> m"
  proof (rule ccontr)
    assume "\<not> lo \<le> m"
    then have "m * q16 < lo * q16" using Q by simp
    also note lm
    also have "m * q \<le> m * q16" using q m by (intro mult_left_mono)
    finally show False by simp
  qed
  moreover have "fetch_cost q m lo \<le> fetch_cost q m (lo + 1)" if "lo = m"
    using below [of lo] above [of "lo + 1"] that m q by simp
  ultimately show "balanced_fetch q m \<le> m" using b by fastforce
  show "0 \<le> balanced_fetch q m" using b lo by simp
  show "fetch_cost q m (balanced_fetch q m) \<le> fetch_cost q m f"
  proof (cases "f \<le> lo")
    case True
    then have "fetch_cost q m lo \<le> fetch_cost q m f" using below q by (simp add: mult_right_mono)
    then show ?thesis using b by simp
  next
    case False
    then have "fetch_cost q m (lo + 1) \<le> fetch_cost q m f" using above q by (simp add: mult_right_mono)
    then show ?thesis using b by simp
  qed
qed

text \<open>C14: In every such state the GPU kernel of the capped fetch leaves the same tables and writes the same slots as its CPU
  mirror, whichever rule orders the misses and whichever cap applies, while the step counter is below the kernel's largest value.\<close>

theorem kernel_is_mirror:
  fixes ex :: "nat \<Rightarrow> 'w::zero \<Rightarrow> 'r list \<Rightarrow> ('r \<times> 'r) option \<Rightarrow> 'y::comm_monoid_add"
  assumes "slot_cache lru_ensure" and "\<forall>t rows al. ex t 0 rows al = 0"
    and "setup_cache hybrid cpu_layers layers experts slots policy overlap hit fmt junk blank sources residency gu dn = Inr s0"
    and "hybrid \<or> cpu_layers \<noteq> {} \<longrightarrow> gu = None \<and> dn = None"
    and "serving lru_ensure ex k s0 s"
    and "layer < layers" and "\<forall>e \<in> set ids. e < experts" and "lru_step s + 1 < big" and "int experts < 2 ^ 60"
  shows "ensure_hybrid_gpu by_recency layer ids max_fetch q s = ensure_hybrid_cpu by_recency layer ids max_fetch q s"
proof -
  note S = setup_ok [OF assms(3,4)]
  note V = serving_inv [OF assms(1,2) S(1) assms(5)]
  show ?thesis
    by (rule kernel_mirror [OF serve_invD(1) [OF V(1)]]) (use assms(6-9) serving_config [OF V(2)] S(2,3) in simp_all)
qed

theorem kernel_is_mirror_witness:
  "ensure_hybrid_gpu True 1 [2, 0, 1] 2 40000 (demo_cache True 4 False) = ensure_hybrid_cpu True 1 [2, 0, 1] 2 40000 (demo_cache True 4 False)"
proof -
  have z: "\<forall>t rows al. demo_ex t 0 rows al = 0" by (simp add: demo_ex_def)
  show ?thesis
    by (rule kernel_is_mirror [where ex = demo_ex and k = 1, OF ref.slot_cache_axioms z demo_setup(1) [unfolded demo_setup_def] _ serving.start])
      (simp_all add: demo_cache_def big_def)
qed

text \<open>C31: The bandwidth-matched split of the misses fetches between none and all of them, and no other number of
  fetches has a smaller cost: the slower of the copies and the CPU's share.\<close>

theorem balanced_fetch_best:
  assumes "0 \<le> m"
  shows "0 \<le> balanced_fetch (frac_q16 r) m \<and> balanced_fetch (frac_q16 r) m \<le> m \<and>
    fetch_cost (frac_q16 r) m (balanced_fetch (frac_q16 r) m) \<le> fetch_cost (frac_q16 r) m f"
  using balanced_split [OF frac_q16_bounds assms] by blast

theorem balanced_fetch_best_witness:
  "balanced_fetch (frac_q16 (3 / 4)) 10 = 8 \<and> fetch_cost (frac_q16 (3 / 4)) 10 8 \<le> fetch_cost (frac_q16 (3 / 4)) 10 7"
proof -
  have "frac_q16 (3 / 4) = 49152" by (simp add: frac_q16_def py_round_def q16_def Let_def)
  then show ?thesis using balanced_fetch_best [of 10 "3 / 4" 7] by (simp add: balanced_fetch_def fetch_cost_def q16_def Let_def)
qed

lemma hybrid_slots:
  fixes s :: "'r ecache" and flat :: "nat \<Rightarrow> nat"
  assumes i: "ec_inv s" and l: "layer < num_layers s" and ids: "\<forall>e \<in> set ids. e < num_experts s"
    and e: "ensure_experts_hybrid by_recency layer ids max_fetch fraction s = (s', out)"
  defines "flat \<equiv> \<lambda>e. layer * num_experts s + e"
  defines "taken \<equiv> {c. c < cache_size s \<and> id_of_slot s' ! c \<noteq> id_of_slot s ! c}"
  shows "card taken = nat (hybrid_cap max_fetch (frac_q16 fraction) (int (card {e \<in> set ids. slot_for_id s ! flat e = -1})))"
    and "out = map (\<lambda>e. slot_for_id s' ! flat e) ids"
    and "x \<in> set ids \<Longrightarrow> slot_for_id s ! flat x \<noteq> -1 \<Longrightarrow> slot_for_id s' ! flat x = slot_for_id s ! flat x"
    and "x \<in> set ids \<Longrightarrow> slot_for_id s' ! flat x = -1 \<or> (\<exists>c < cache_size s. slot_for_id s' ! flat x = int c \<and> id_of_slot s' ! c = int (flat x))"
    and "v \<in> taken \<Longrightarrow> c < cache_size s \<Longrightarrow> c \<notin> taken \<Longrightarrow> id_of_slot s ! c \<notin> (\<lambda>e. int (flat e)) ` set ids \<Longrightarrow> usage s ! v \<le> usage s ! c"
proof -
  define t where "t = s\<lparr>pending_src_layer := Some layer\<rparr>"
  have it: "ec_inv t" using i unfolding ec_inv_def by (simp add: t_def tables_ok_def banks_ok_def)
  have lt: "layer < num_layers t" "\<forall>e \<in> set ids. e < num_experts t" using l ids by (simp_all add: t_def)
  have e': "ensure_hybrid_cpu by_recency layer ids max_fetch (frac_q16 fraction) t = (s', out)"
    using e by (simp add: ensure_experts_hybrid_def t_def)
  obtain u ms vs o' where ou: "ensure_hybrid_cpu by_recency layer ids max_fetch (frac_q16 fraction) t = (u, o')"
    and h: "hybrid_result layer ids t u ms vs o'"
      "num_missing_full u = int (card {e \<in> set ids. slot_for_id t ! (layer * num_experts t + e) = -1})"
      "num_indices u = hybrid_cap max_fetch (frac_q16 fraction) (num_missing_full u)"
    by (rule ensure_hybrid_cpu_ok [OF it lt, of by_recency max_fetch "frac_q16 fraction"])
  have "u = s'" "o' = out" using ou e' by simp_all
  note r = h(1) [unfolded this] and nm = h(2) [unfolded this(1)] and ni = h(3) [unfolded this(1)]
  note R = hybrid_resultD [OF r]
  have sel: "num_layers t = num_layers s" "num_experts t = num_experts s" "cache_size t = cache_size s" "slot_for_id t = slot_for_id s"
    "id_of_slot t = id_of_slot s" "usage t = usage s"
    by (simp_all add: t_def)
  have T: "tables_ok (num_layers s * num_experts s) (cache_size s) s" by (rule ec_invD(1) [OF i])
  have T': "tables_ok (num_layers s * num_experts s) (cache_size s) s'" using ec_invD(1) [OF R(1)] by (simp add: R(2,3,4) sel)
  have tk: "taken = set vs"
  proof (rule set_eqI, rule iffI)
    fix c assume "c \<in> taken"
    then show "c \<in> set vs" using R(23) [of c] by (auto simp: taken_def sel)
  next
    fix c assume c: "c \<in> set vs"
    then obtain j where j: "j < length ms" "c = vs ! j" using R(15) by (metis in_set_conv_nth)
    have "ms ! j \<in> set ids" using R(14) j(1) nth_mem by fastforce
    then have "id_of_slot s ! c \<noteq> int (flat (ms ! j))" using R(18) [OF c] by (simp add: sel flat_def)
    moreover have "id_of_slot s' ! c = int (flat (ms ! j))" using R(24) [OF j(1)] by (simp add: sel flat_def j(2))
    ultimately show "c \<in> taken" using c R(17) by (auto simp: taken_def sel)
  qed
  have "card taken = length ms" unfolding tk using R(15,16) by (simp add: distinct_card)
  then show "card taken = nat (hybrid_cap max_fetch (frac_q16 fraction) (int (card {e \<in> set ids. slot_for_id s ! flat e = -1})))"
    using R(20) ni nm by (simp add: sel flat_def)
  show "out = map (\<lambda>e. slot_for_id s' ! flat e) ids" using R(25) by (simp add: sel flat_def)
  have f: "flat x < num_layers s * num_experts s" if "x \<in> set ids" for x using flat_id [OF l] ids that by (simp add: flat_def)
  show "slot_for_id s' ! flat x = -1 \<or> (\<exists>c < cache_size s. slot_for_id s' ! flat x = int c \<and> id_of_slot s' ! c = int (flat x))"
    if "x \<in> set ids" for x by (rule tables_okD(5) [OF T' f [OF that]])
  show "slot_for_id s' ! flat x = slot_for_id s ! flat x" if x: "x \<in> set ids" "slot_for_id s ! flat x \<noteq> -1" for x
  proof -
    obtain c where c: "c < cache_size s" "slot_for_id s ! flat x = int c" "id_of_slot s ! c = int (flat x)"
      using tables_okD(5) [OF T f [OF x(1)]] x(2) by blast
    have "c \<notin> set vs" using R(18) [of c x] x(1) c(3) by (auto simp: sel flat_def)
    then have "id_of_slot s' ! c = int (flat x)" using R(23) [of c] c by (simp add: sel)
    then show ?thesis using slot_iff [OF T' f [OF x(1)] c(1)] c(2) by simp
  qed
  show "usage s ! v \<le> usage s ! c"
    if "v \<in> taken" "c < cache_size s" "c \<notin> taken" "id_of_slot s ! c \<notin> (\<lambda>e. int (flat e)) ` set ids" for v c
    by (rule R(19) [unfolded sel]) (use that in \<open>auto simp: tk flat_def\<close>)
qed

text \<open>C15: The capped fetch is an LRU cache: in every such state it takes as many slots as its cap allows of the misses, each
  requested expert has afterwards the slot it had or a slot that holds it, or is left to the CPU, and a taken slot
  was not used after any slot left alone that no requested expert occupied.\<close>

theorem hybrid_fetch_lru:
  fixes ex :: "nat \<Rightarrow> 'w::zero \<Rightarrow> 'r list \<Rightarrow> ('r \<times> 'r) option \<Rightarrow> 'y::comm_monoid_add"
  assumes "slot_cache lru_ensure" and "\<forall>t rows al. ex t 0 rows al = 0"
    and "setup_cache hybrid cpu_layers layers experts slots policy overlap hit fmt junk blank sources residency gu dn = Inr s0"
    and "hybrid \<or> cpu_layers \<noteq> {} \<longrightarrow> gu = None \<and> dn = None"
    and "serving lru_ensure ex k s0 s"
    and "layer < layers" and "\<forall>e \<in> set ids. e < experts"
    and "ensure_experts_hybrid by_recency layer ids max_fetch fraction s = (s', out)"
    and "taken = {c. c < cache_size s \<and> id_of_slot s' ! c \<noteq> id_of_slot s ! c}"
  shows "card taken = nat (hybrid_cap max_fetch (frac_q16 fraction) (int (card {e \<in> set ids. slot_for_id s ! (layer * experts + e) = -1}))) \<and>
    out = map (\<lambda>e. slot_for_id s' ! (layer * experts + e)) ids \<and>
    (\<forall>e \<in> set ids. slot_for_id s ! (layer * experts + e) \<noteq> -1 \<longrightarrow>
       slot_for_id s' ! (layer * experts + e) = slot_for_id s ! (layer * experts + e)) \<and>
    (\<forall>e \<in> set ids. slot_for_id s' ! (layer * experts + e) = -1 \<or>
       (\<exists>c < cache_size s. slot_for_id s' ! (layer * experts + e) = int c \<and> id_of_slot s' ! c = int (layer * experts + e))) \<and>
    (\<forall>v \<in> taken. \<forall>c < cache_size s. c \<notin> taken \<longrightarrow> id_of_slot s ! c \<notin> (\<lambda>e. int (layer * experts + e)) ` set ids \<longrightarrow>
       usage s ! v \<le> usage s ! c)"
proof -
  note S = setup_ok [OF assms(3,4)]
  note V = serving_inv [OF assms(1,2) S(1) assms(5)]
  have ne: "num_experts s = experts" "layer < num_layers s" "\<forall>e \<in> set ids. e < num_experts s"
    using assms(6,7) serving_config [OF V(2)] S(2,3) by simp_all
  note H = hybrid_slots [OF serve_invD(1) [OF V(1)] ne(2,3) assms(8), unfolded ne(1), folded assms(9)]
  show ?thesis using H by blast
qed

theorem hybrid_fetch_lru_witness:
  "\<exists>s1. ensure_experts_hybrid True 0 [2, 0, 2] 1 0 (demo_cache True 4 False) = (s1, [-1, 0, -1]) \<and>
     card {c. c < 4 \<and> id_of_slot s1 ! c \<noteq> id_of_slot (demo_cache True 4 False) ! c} = 1"
proof -
  have z: "\<forall>t rows al. demo_ex t 0 rows al = 0" by (simp add: demo_ex_def)
  obtain s1 out where e: "ensure_experts_hybrid True 0 [2, 0, 2] 1 0 (demo_cache True 4 False) = (s1, out)" by fastforce
  have o: "snd (ensure_experts_hybrid True 0 [2, 0, 2] 1 0 (demo_cache True 4 False)) = [-1, 0, -1]" by code_simp
  have m: "{e \<in> set [2, 0, 2]. slot_for_id (demo_cache True 4 False) ! (0 * 3 + e) = -1} = {0, 2}" by (auto simp: demo_cache_def)
  have sz: "cache_size (demo_cache True 4 False) = 4" by (simp add: demo_cache_def)
  have c: "nat (hybrid_cap 1 (frac_q16 0) (int (card {0, 2 :: nat}))) = 1"
    by (simp add: hybrid_cap_def frac_q16_def py_round_def Let_def)
  note h = hybrid_fetch_lru [where ex = demo_ex and k = 1, OF ref.slot_cache_axioms z demo_setup(1) [unfolded demo_setup_def] _ serving.start
      _ _ e refl]
  have "card {c. c < 4 \<and> id_of_slot s1 ! c \<noteq> id_of_slot (demo_cache True 4 False) ! c} = 1"
    using h unfolding m c sz by simp
  then show ?thesis using e o by simp
qed

end
