(* ===== verification/Expert_Trace.thy ===== *)
theory Expert_Trace
  imports Expert_Properties Kv_Sizing
begin

text \<open>
  What surrounds the expert cache: its automatic size (\<open>_resolve_auto_moe_cache_size\<close> of \<^verbatim>\<open>engine/engine.py\<close>), the
  benched fetch fraction and backend (\<^verbatim>\<open>moe/bench_profile.py\<close>), its statistics, and the traced decode with
  the checks of \<^verbatim>\<open>moe/decode_trace.py\<close>. Ratios are exact rationals where Python divides floats.
\<close>

section \<open>Sizing and the bench profile\<close>

definition require_offload_cache_size :: "nat \<Rightarrow> nat \<Rightarrow> err + unit" where
  "require_offload_cache_size slots experts = (if slots < experts then Inl ValueError else Inr ())"

text \<open>The first argument is the pool's \<open>kv_cost\<close>; the others are the configuration and the measured bytes.\<close>

definition resolve_auto_moe_cache_size ::
  "int \<times> int \<times> int \<times> int \<Rightarrow> int \<Rightarrow> nat \<Rightarrow> nat \<Rightarrow> int \<Rightarrow> int \<Rightarrow> rat \<Rightarrow> int \<Rightarrow> bool \<Rightarrow> int \<Rightarrow> string \<Rightarrow> err + (int \<times> int \<times> bool)" where
  "resolve_auto_moe_cache_size cost state_bytes layers experts baseline weights memory_ratio per_expert overlap reserve_tokens fmt =
     (case cost of (per_page, fixed, page_tokens, min_reserve) \<Rightarrow>
        resolve_moe_cache_auto baseline weights memory_ratio per_page (fixed + state_bytes) per_expert
          (int experts) (int (layers * experts)) overlap (max reserve_tokens min_reserve) page_tokens (fmt = ''nvfp4_marlin''))"

text \<open>An entry of the profile of \<open>ft bench bw\<close>; a key that is absent is None.\<close>

record bench_entry =
  cpu_moe_overlap_gbs :: "rat option"
  pcie_gather_overlap_gbs :: "rat option"
  cpu_moe_gbs :: "rat option"
  pcie_gather_gbs :: "rat option"
  recommended :: "string option"

record bench_profile =
  bp_gpu :: "string option"
  bp_dtypes :: "string \<rightharpoonup> string"
  bp_dtype_kernels :: "string \<rightharpoonup> bench_entry"
  bp_workloads :: "(string \<rightharpoonup> bench_entry) list"

definition bench_format :: "string \<Rightarrow> string" where
  "bench_format q = (if q = ''mxfp4'' then ''mxfp4_triton'' else q)"

text \<open>\<open>_usable_profile\<close> on a loaded profile; an empty name is as good as none.\<close>

definition usable_profile :: "string option \<Rightarrow> bench_profile option \<Rightarrow> bench_profile option" where
  "usable_profile gpu prof =
     (case prof of None \<Rightarrow> None
      | Some p \<Rightarrow>
          (case (gpu, bp_gpu p) of
             (Some g, Some g') \<Rightarrow> if g \<noteq> [] \<and> g' \<noteq> [] \<and> g' \<noteq> g then None else Some p
           | _ \<Rightarrow> Some p))"

definition truthy :: "rat option \<Rightarrow> bool" where
  "truthy x \<longleftrightarrow> x \<noteq> None \<and> x \<noteq> Some 0"

definition entry_fraction :: "bench_entry \<Rightarrow> rat option" where
  "entry_fraction e =
     (if truthy (cpu_moe_overlap_gbs e) \<and> truthy (pcie_gather_overlap_gbs e)
      then (let cpu = the (cpu_moe_overlap_gbs e); pcie = the (pcie_gather_overlap_gbs e) in Some (min 1 (pcie / (pcie + cpu))))
      else if truthy (cpu_moe_gbs e) \<and> truthy (pcie_gather_gbs e)
      then Some (min 1 (the (pcie_gather_gbs e) / the (cpu_moe_gbs e)))
      else None)"

fun first_fraction :: "bench_entry option list \<Rightarrow> rat option" where
  "first_fraction [] = None"
| "first_fraction (e # es) =
     (case e of None \<Rightarrow> first_fraction es
      | Some b \<Rightarrow> (case entry_fraction b of None \<Rightarrow> first_fraction es | Some f \<Rightarrow> Some f))"

definition load_hybrid_fetch_fraction :: "string \<Rightarrow> string option \<Rightarrow> bench_profile option \<Rightarrow> rat option" where
  "load_hybrid_fetch_fraction quant gpu prof =
     (let fmt = bench_format quant in
      case usable_profile gpu prof of None \<Rightarrow> None
      | Some p \<Rightarrow> first_fraction (bp_dtype_kernels p fmt # map (\<lambda>w. w fmt) (bp_workloads p)))"

definition vote :: "string \<Rightarrow> (string \<rightharpoonup> bench_entry) list \<Rightarrow> string option" where
  "vote fmt workloads =
     (let picks = concat (map (\<lambda>w. case w fmt of None \<Rightarrow> [] | Some e \<Rightarrow>
                     (case recommended e of None \<Rightarrow> [] | Some r \<Rightarrow> if r = [] then [] else [r])) workloads)
      in if picks = [] then None
         else if \<forall>p \<in> set picks. p = ''hybrid'' then Some ''hybrid'' else Some ''offload'')"

definition load_backend_recommendation :: "string \<Rightarrow> string option \<Rightarrow> bench_profile option \<Rightarrow> string option" where
  "load_backend_recommendation quant gpu prof =
     (let fmt = bench_format quant in
      case usable_profile gpu prof of None \<Rightarrow> None
      | Some p \<Rightarrow>
          (if bp_dtypes p fmt \<in> {Some ''hybrid'', Some ''offload''} then bp_dtypes p fmt
           else vote fmt (bp_workloads p)))"

section \<open>Statistics\<close>

text \<open>\<open>set_cpu_executor\<close>: whether the executor is attached afterwards.\<close>

definition set_cpu_executor :: "'r ecache \<Rightarrow> err + bool" where
  "set_cpu_executor s = (if decode_target s \<in> {''cpu'', ''hybrid''} then Inr True else Inl AssertionError)"

record miss_stats =
  ms_calls :: int
  ms_active_per_layer :: rat
  ms_missing_per_layer :: rat
  ms_miss_rate :: rat
  ms_fetched_per_layer :: rat
  ms_cpu_per_layer :: rat
  ms_fetch_rate :: rat
  ms_prefill_hit_rows :: int
  ms_prefill_rows :: int

definition ratio :: "int \<Rightarrow> int \<Rightarrow> rat" where
  "ratio a b = (if b = 0 then 0 else of_int a / of_int b)"

text \<open>
  \<open>lru_stats\<close> holds the counters of the external slot cache, one (active, missing, calls) per layer; they count
  for the modes other than the hybrid one.
\<close>

definition decode_miss_stats :: "(int \<times> int \<times> int) list \<Rightarrow> 'r ecache \<Rightarrow> miss_stats" where
  "decode_miss_stats lru_stats s =
     (let (active, missing, calls) =
            (if decode_target s = ''hybrid'' then (hs_active (totals s), hs_missing (totals s), hs_calls (totals s))
             else (sum_list (map fst lru_stats), sum_list (map (fst \<circ> snd) lru_stats), sum_list (map (snd \<circ> snd) lru_stats)));
          fetched = hs_fetched (totals s) in
      \<lparr>ms_calls = calls, ms_active_per_layer = ratio active calls, ms_missing_per_layer = ratio missing calls,
       ms_miss_rate = ratio missing active, ms_fetched_per_layer = ratio fetched calls,
       ms_cpu_per_layer = ratio (missing - fetched) calls, ms_fetch_rate = ratio fetched missing,
       ms_prefill_hit_rows = prefill_hit_rows s, ms_prefill_rows = prefill_total_rows s\<rparr>)"

text \<open>Per layer: the steps, and the active, missing, miss rate and fetched experts per step.\<close>

definition decode_miss_stats_per_layer :: "(int \<times> int \<times> int) list \<Rightarrow> 'r ecache \<Rightarrow> (int \<times> rat \<times> rat \<times> rat \<times> rat) list" where
  "decode_miss_stats_per_layer lru_stats s =
     map (\<lambda>l. let h = layer_stats s ! l;
                 (a, m, n) = (if decode_target s = ''hybrid'' then (hs_active h, hs_missing h, hs_calls h) else lru_stats ! l);
                 f = hs_fetched h in
              (n, ratio a n, ratio m n, ratio m a, ratio f n)) [0..<num_layers s]"

section \<open>The host mapping\<close>

text \<open>
  \<open>_inspect_host_mapping\<close>: may the GPU read the host banks of a layer directly? The extension that pins memory
  may fail to load, be absent, lack the address translation, or have it; the translation may raise. A bank that
  cannot be read from the cache is None, one that is no CPU tensor has \<open>hb_cpu\<close> false, and a pointer that cannot
  be read is None.
\<close>

datatype pinned_extension = ExtRaises | ExtMissing | ExtNoTranslation | ExtTranslates "nat \<Rightarrow> nat option"

record host_bank =
  hb_ptr :: "nat option"
  hb_cpu :: bool

record host_mapping =
  hm_safe :: bool
  hm_loaded :: bool
  hm_residency :: string
  hm_banks :: nat
  hm_mapped :: nat
  hm_host_ptr :: "nat option"
  hm_device_ptr :: "nat option"
  hm_failed :: string
  hm_reason :: string

record host_env =
  he_windows :: bool
  he_hip :: bool
  he_force_safe :: bool
  he_residency :: "string option"
  he_banks :: "(string \<times> host_bank option) list"
  he_ext :: pinned_extension

fun known_sources :: "(string \<times> host_bank option) list \<Rightarrow> (string \<times> host_bank) list \<times> string option" where
  "known_sources [] = ([], None)"
| "known_sources ((n, None) # bs) = ([], Some n)"
| "known_sources ((n, Some b) # bs) = (case known_sources bs of (ss, missing) \<Rightarrow> ((n, b) # ss, missing))"

fun map_banks ::
  "(nat \<Rightarrow> nat option) \<Rightarrow> (bool \<Rightarrow> nat \<Rightarrow> nat option \<Rightarrow> string \<Rightarrow> string \<Rightarrow> host_mapping) \<Rightarrow> (string \<times> host_bank) list \<Rightarrow>
   nat \<Rightarrow> nat option \<Rightarrow> host_mapping" where
  "map_banks f st [] k dev = st True k dev ''none'' ''ok''"
| "map_banks f st ((n, b) # bs) k dev =
     (if \<not> hb_cpu b then st False k dev n ''host_bank_source_not_cpu''
      else (case Option.bind (hb_ptr b) f of
              None \<Rightarrow> st False k dev n ''host_device_mapping_failed''
            | Some q \<Rightarrow>
                if q = 0 then st False k dev n ''host_device_pointer_zero''
                else map_banks f st bs (Suc k) (if dev = None then Some q else dev)))"

definition inspect_host_mapping :: "host_env \<Rightarrow> host_mapping" where
  "inspect_host_mapping h =
     (let banks = he_banks h; (sources, missing) = known_sources banks;
          failed0 = (case missing of None \<Rightarrow> ''none'' | Some n \<Rightarrow> n);
          reason0 = (case missing of None \<Rightarrow> ''ok'' | Some n \<Rightarrow> ''host_bank_source_unavailable'');
          (host, failed, reason) =
            (case sources of [] \<Rightarrow> (None, failed0, reason0)
             | (n, b) # ss \<Rightarrow>
                 (case hb_ptr b of None \<Rightarrow> (None, n, ''host_pointer_unavailable'') | Some p \<Rightarrow> (Some p, failed0, reason0)));
          status = (\<lambda>loaded safe mapped dev f r.
            \<lparr>hm_safe = safe, hm_loaded = loaded, hm_residency = (case he_residency h of None \<Rightarrow> ''unknown'' | Some x \<Rightarrow> x),
             hm_banks = length banks, hm_mapped = mapped, hm_host_ptr = host, hm_device_ptr = dev, hm_failed = f, hm_reason = r\<rparr>);
          blame = (if failed \<noteq> ''none'' then failed else if sources \<noteq> [] then fst (hd sources) else ''none'') in
      case he_ext h of
        ExtRaises \<Rightarrow> status False False 0 None blame ''pinned_extension_load_failed''
      | ExtMissing \<Rightarrow> status False False 0 None blame ''pinned_extension_missing''
      | ExtNoTranslation \<Rightarrow> status True False 0 None blame ''host_device_ptr_unavailable''
      | ExtTranslates f \<Rightarrow>
          (if reason \<noteq> ''ok'' \<or> length sources \<noteq> length banks \<or> sources = []
           then status True False 0 None failed (if reason \<noteq> ''ok'' then reason else ''host_bank_source_unavailable'')
           else map_banks f (status True) sources 0 None))"

text \<open>
  \<open>should_use_safe_offload_copy\<close>; \<open>known\<close> is the result the cache has kept from an earlier inspection, and
  \<open>he_force_safe\<close> the setting of the environment.
\<close>

definition should_use_safe_offload_copy :: "host_env \<Rightarrow> bool option \<Rightarrow> bool" where
  "should_use_safe_offload_copy h known =
     (if \<not> he_windows h \<or> \<not> he_hip h then False
      else if he_force_safe h then True
      else \<not> (case known of None \<Rightarrow> hm_safe (inspect_host_mapping h) | Some safe \<Rightarrow> safe))"

definition preflight_windows_rocm_host_mapping :: "bool \<Rightarrow> host_env \<Rightarrow> bool \<Rightarrow> err + bool" where
  "preflight_windows_rocm_host_mapping active h allow =
     (if \<not> active \<or> \<not> he_windows h \<or> \<not> he_hip h then Inr False
      else if \<not> hm_safe (inspect_host_mapping h) \<and> \<not> allow then Inl RuntimeError else Inr True)"

lemma map_banks_safe:
  assumes "\<And>safe k dev f r. hm_safe (st safe k dev f r) = safe"
  shows "hm_safe (map_banks f st bs k dev) \<longleftrightarrow>
    (\<forall>(n, b) \<in> set bs. hb_cpu b \<and> (\<exists>p q. hb_ptr b = Some p \<and> f p = Some q \<and> q \<noteq> 0))"
proof (induction bs arbitrary: k dev)
  case (Cons nb bs)
  then show ?case by (cases nb; cases "hb_ptr (snd nb)") (auto simp: assms split: option.splits)
qed (simp add: assms)

lemma known_sources_all:
  "known_sources bs = (ss, None) \<Longrightarrow> map (\<lambda>(n, b). (n, Some b)) ss = bs"
  "known_sources bs = (ss, Some m) \<Longrightarrow> \<exists>n. (n, None) \<in> set bs"
  by (induction bs arbitrary: ss rule: known_sources.induct) (auto split: prod.splits)

text \<open>The GPU may read the banks directly exactly when there are banks and each has a mapped address.\<close>

lemma inspect_safe:
  "hm_safe (inspect_host_mapping h) \<longleftrightarrow>
    (\<exists>f. he_ext h = ExtTranslates f \<and> he_banks h \<noteq> [] \<and>
      (\<forall>(n, ob) \<in> set (he_banks h). \<exists>b p q. ob = Some b \<and> hb_cpu b \<and> hb_ptr b = Some p \<and> f p = Some q \<and> q \<noteq> 0))"
proof -
  let ?r = "\<lambda>h. \<forall>(n, ob) \<in> set (he_banks h). \<exists>b. ob = Some b"
  obtain ss missing where k: "known_sources (he_banks h) = (ss, missing)" by fastforce
  define reason0 where "reason0 = (case missing of None \<Rightarrow> ''ok'' | Some n \<Rightarrow> ''host_bank_source_unavailable'')"
  define failed0 where "failed0 = (case missing of None \<Rightarrow> ''none'' | Some n \<Rightarrow> n)"
  obtain host failed reason where r: "(case ss of [] \<Rightarrow> (None, failed0, reason0)
      | (n, b) # _ \<Rightarrow> (case hb_ptr b of None \<Rightarrow> (None, n, ''host_pointer_unavailable'') | Some p \<Rightarrow> (Some p, failed0, reason0)))
      = (host, failed, reason)" by (metis prod_cases3)
  note run = inspect_host_mapping_def [of h, unfolded k Let_def prod.case, folded reason0_def failed0_def, unfolded r prod.case]
  show ?thesis
  proof (cases "he_ext h")
    case (ExtTranslates f)
    show ?thesis
    proof (cases missing)
      case None
      have all: "he_banks h = map (\<lambda>(n, b). (n, Some b)) ss" using known_sources_all(1) k None by simp
      have ok: "reason = ''ok'' \<longleftrightarrow> ss = [] \<or> hb_ptr (snd (hd ss)) \<noteq> None"
        using r None by (cases ss; cases "hb_ptr (snd (hd ss))") (auto simp: reason0_def split: prod.splits)
      have "hm_safe (inspect_host_mapping h) \<longleftrightarrow> reason = ''ok'' \<and> ss \<noteq> [] \<and>
          (\<forall>(n, b) \<in> set ss. hb_cpu b \<and> (\<exists>p q. hb_ptr b = Some p \<and> f p = Some q \<and> q \<noteq> 0))"
        unfolding run ExtTranslates pinned_extension.case all by (simp add: map_banks_safe)
      moreover have "hb_ptr (snd (hd ss)) \<noteq> None"
        if "ss \<noteq> []" "\<forall>(n, b) \<in> set ss. hb_cpu b \<and> (\<exists>p q. hb_ptr b = Some p \<and> f p = Some q \<and> q \<noteq> 0)"
        using that by (cases ss) auto
      ultimately have "hm_safe (inspect_host_mapping h) \<longleftrightarrow> ss \<noteq> [] \<and>
          (\<forall>(n, b) \<in> set ss. hb_cpu b \<and> (\<exists>p q. hb_ptr b = Some p \<and> f p = Some q \<and> q \<noteq> 0))"
        using ok by blast
      then show ?thesis unfolding ExtTranslates all by force
    next
      case (Some m)
      obtain n where "(n, None) \<in> set (he_banks h)" using known_sources_all(2) k Some by blast
      moreover have "reason \<noteq> ''ok''"
        using r Some by (cases ss) (auto simp: reason0_def split: option.splits prod.splits)
      then have "\<not> hm_safe (inspect_host_mapping h)" unfolding run ExtTranslates by simp
      ultimately show ?thesis by fastforce
    qed
  qed (simp_all add: run)
qed

text \<open>The choice of the copy keeps the preflight from refusing, as long as the kept result is up to date.\<close>

lemma preflight_passes:
  assumes "known = None \<or> known = Some (hm_safe (inspect_host_mapping h))"
  shows "\<exists>b. preflight_windows_rocm_host_mapping active h (should_use_safe_offload_copy h known) = Inr b"
  using assms by (auto simp: preflight_windows_rocm_host_mapping_def should_use_safe_offload_copy_def)

section \<open>The traced decode\<close>

text \<open>A tensor of indices: what the checks look at.\<close>

record index_tensor =
  ix_int32 :: bool
  ix_contiguous :: bool
  ix_shape :: "nat list"
  ix_vals :: "int list"

definition snapshot_cpu :: "index_tensor \<Rightarrow> index_tensor" where
  "snapshot_cpu t = t\<lparr>ix_contiguous := True\<rparr>"

definition cache_hit_miss_counts :: "index_tensor \<Rightarrow> int list \<Rightarrow> nat \<Rightarrow> err + (nat \<times> nat \<times> nat)" where
  "cache_hit_miss_counts raw slots experts =
     (let vals = ix_vals raw in
      if \<not> ix_int32 raw then Inl TypeError
      else if vals = [] then Inl ValueError
      else if Min (set vals) < 0 \<or> int experts \<le> Max (set vals) then Inl ValueError
      else
        (let unique = remdups vals; hits = length (filter (\<lambda>e. 0 \<le> slots ! nat e) unique) in
         Inr (length unique, hits, length unique - hits)))"

definition validate_slot_ids :: "index_tensor \<Rightarrow> nat \<Rightarrow> err + (int \<times> int)" where
  "validate_slot_ids t n =
     (let slots = ix_vals t in
      if \<not> ix_int32 t then Inl TypeError
      else if \<not> ix_contiguous t then Inl ValueError
      else if slots = [] then Inl ValueError
      else if Min (set slots) < 0 \<or> int n \<le> Max (set slots) then Inl ValueError
      else Inr (Min (set slots), Max (set slots)))"

definition validate_remapped_slots :: "index_tensor \<Rightarrow> index_tensor \<Rightarrow> int list \<Rightarrow> nat \<Rightarrow> nat \<Rightarrow> nat \<Rightarrow> err + (int \<times> int \<times> nat)" where
  "validate_remapped_slots raw slots owners layer experts n =
     (if \<not> ix_int32 raw then Inl TypeError
      else if \<not> ix_int32 slots then Inl TypeError
      else if \<not> ix_contiguous slots then Inl ValueError
      else if ix_shape raw \<noteq> ix_shape slots then Inl ValueError
      else and_then (validate_slot_ids (snapshot_cpu slots) n) (\<lambda>(lo, hi).
        if \<exists>(e, c) \<in> set (zip (ix_vals raw) (ix_vals slots)). owners ! nat c \<noteq> int (layer * experts) + e then Inl ValueError
        else Inr (lo, hi, length (remdups (ix_vals slots)))))"

text \<open>
  \<open>_decode_routed_traced\<close>; the records it prints are left out, its checks are not. \<open>ensure_experts\<close> overwrites the
  values of \<open>topk_ids\<close> in place, so the tensor keeps its type, layout and shape. \<open>safe\<close> is the copy the cache selected.
\<close>

definition decode_routed_traced ::
  "(nat \<Rightarrow> nat list \<Rightarrow> lru \<Rightarrow> lru \<times> int list) \<Rightarrow> host_env \<Rightarrow> bool \<Rightarrow>
   (nat \<Rightarrow> 'w::zero \<Rightarrow> 'r list \<Rightarrow> ('r \<times> 'r) option \<Rightarrow> 'y::comm_monoid_add) \<Rightarrow> nat \<Rightarrow> nat \<Rightarrow> 'w list \<Rightarrow> index_tensor \<Rightarrow>
   'r ecache \<Rightarrow> err + ('r ecache \<times> 'y list)" where
  "decode_routed_traced lru_ensure host safe ex k layer ws topk_ids s =
     (let raw = snapshot_cpu topk_ids in
      and_then (cache_hit_miss_counts raw (take (num_experts s) (drop (layer * num_experts s) (slot_for_id s))) (num_experts s)) (\<lambda>_.
      let (s1, slots) = ensure_experts lru_ensure layer (map nat (ix_vals topk_ids)) s in
      and_then (validate_remapped_slots raw (topk_ids\<lparr>ix_vals := slots\<rparr>) (id_of_slot s1) layer (num_experts s1) (cache_size s1)) (\<lambda>_.
      and_then (preflight_windows_rocm_host_mapping True host safe) (\<lambda>_.
      and_then (copy_missing safe s1) (\<lambda>s2.
      and_then (bank_views None s2) (\<lambda>views.
      and_then (check (\<forall>v \<in> set views. length v = cache_size s2) ValueError) (\<lambda>_.
      let alphas = alphas_for_slots layer s2 in
      and_then (case alphas of None \<Rightarrow> Inr ()
                | Some (g, d) \<Rightarrow> check (length g = cache_size s2 \<and> length d = cache_size s2) ValueError) (\<lambda>_.
        Inr (s2, expert_gemm ex k views alphas ws (map nat slots))))))))))"

text \<open>The tensor the router hands over.\<close>

definition routed :: "index_tensor \<Rightarrow> nat list \<Rightarrow> bool" where
  "routed t ids \<longleftrightarrow> ix_int32 t \<and> ix_contiguous t \<and> ix_vals t = map int ids"

lemma counts_valid:
  assumes "routed t ids" and "ids \<noteq> []" and "\<forall>e \<in> set ids. e < experts"
  shows "\<exists>r. cache_hit_miss_counts (snapshot_cpu t) slots experts = Inr r"
  using assms by (auto simp: cache_hit_miss_counts_def snapshot_cpu_def routed_def Let_def not_less not_le)

lemma remapped_valid:
  assumes r: "routed raw ids" and t: "ec_inv s'" and l: "layer < num_layers s'" and ids: "\<forall>e \<in> set ids. e < num_experts s'" "ids \<noteq> []"
    and out: "out = map (\<lambda>e. slot_for_id s' ! (layer * num_experts s' + e)) ids"
      "\<forall>e \<in> set ids. slot_for_id s' ! (layer * num_experts s' + e) \<noteq> -1"
  shows "\<exists>x. validate_remapped_slots (snapshot_cpu raw) (raw\<lparr>ix_vals := out\<rparr>) (id_of_slot s') layer (num_experts s') (cache_size s') = Inr x"
proof -
  note T = tables_okD(5) [OF ec_invD(1) [OF t]]
  have c: "\<exists>c < cache_size s'. slot_for_id s' ! (layer * num_experts s' + e) = int c \<and> id_of_slot s' ! c = int (layer * num_experts s' + e)"
    if "e \<in> set ids" for e
    using T [OF flat_id [OF l]] ids(1) out(2) that by blast
  have "0 \<le> x \<and> x < int (cache_size s')" if "x \<in> set out" for x using that c unfolding out(1) by fastforce
  then have "validate_slot_ids (snapshot_cpu (raw\<lparr>ix_vals := out\<rparr>)) (cache_size s') = Inr (Min (set out), Max (set out))"
    using ids(2) r by (simp add: validate_slot_ids_def snapshot_cpu_def routed_def out(1) not_less not_le Let_def)
  moreover have "\<not> (\<exists>(e, x) \<in> set (zip (map int ids) out). id_of_slot s' ! nat x \<noteq> int (layer * num_experts s') + e)"
  proof -
    have "id_of_slot s' ! nat x = int (layer * num_experts s') + e" if z: "(e, x) \<in> set (zip (map int ids) out)" for e x
    proof -
      obtain d where "d \<in> set ids" "e = int d" "x = slot_for_id s' ! (layer * num_experts s' + d)"
        using z unfolding out(1) by (auto simp: zip_map_map zip_same_conv_map)
      then show ?thesis using c by fastforce
    qed
    then show ?thesis by blast
  qed
  ultimately show ?thesis using r
    by (simp add: validate_remapped_slots_def snapshot_cpu_def routed_def and_then_def del: of_nat_add of_nat_mult)
qed

lemma traced_decode:
  fixes ex :: "nat \<Rightarrow> 'w::zero \<Rightarrow> 'r list \<Rightarrow> ('r \<times> 'r) option \<Rightarrow> 'y::comm_monoid_add"
  assumes lru: "slot_cache lru_ensure" and v: "serve_inv s" and ly: "layer < num_layers s" and ids: "\<forall>e \<in> set ids. e < num_experts s"
    and n: "ids \<noteq> []" and m: "layer \<notin> cpu_layer_ids s" "decode_target s \<noteq> ''hybrid''"
    and rt: "routed t ids" and pf: "preflight_windows_rocm_host_mapping True host safe = Inr pb"
  shows "decode_routed_traced lru_ensure host safe ex k layer ws t s =
    decode_routed lru_ensure executor by_recency stats safe mf fr ex k layer ws ids s"
proof -
  note V = serve_invD [OF v]
  obtain s1 ms vs out where e: "ensure_experts lru_ensure layer ids s = (s1, out)" "ec_inv s1" "staged_ok layer ms vs s1" "coherent (set vs) s1"
    and o: "out = map (\<lambda>e. slot_for_id s1 ! (layer * num_experts s + e)) ids"
      "\<forall>e \<in> set ids. slot_for_id s1 ! (layer * num_experts s + e) \<noteq> -1"
    and c: "num_layers s1 = num_layers s" "num_experts s1 = num_experts s" "bank_caches s1 = bank_caches s" "alphas s1 = alphas s"
    using slot_cache.ensure_experts_ok [OF lru V(1) ly ids V(2)] by metis
  have nv: "map nat (ix_vals t) = ids" using rt by (simp add: routed_def comp_def)
  obtain r0 where r0: "cache_hit_miss_counts (snapshot_cpu t) (take (num_experts s) (drop (layer * num_experts s) (slot_for_id s)))
      (num_experts s) = Inr r0"
    using counts_valid [OF rt n ids] by blast
  obtain r1 where r1: "validate_remapped_slots (snapshot_cpu t) (t\<lparr>ix_vals := out\<rparr>) (id_of_slot s1) layer (num_experts s1)
      (cache_size s1) = Inr r1"
    using remapped_valid [OF rt e(2) _ _ n, of layer out] ly ids o c by auto
  have b: "bank_caches s1 \<noteq> []" using c V(4) by simp
  obtain s2 where s2: "copy_missing safe s1 = Inr s2" "ec_inv s2" "s2 = s1\<lparr>bank_caches := bank_caches s2\<rparr>"
    "length (bank_caches s2) = length (bank_caches s1)"
    using copy_missing_ok [OF e(2,3) b e(4)] by metis
  have ne: "bank_caches s2 \<noteq> []" using s2(4) b by auto
  have vw: "\<forall>x \<in> set (bank_caches s2). length x = cache_size s2" using ec_invD(11) [OF s2(2)] by (simp add: banks_ok_def)
  have li: "length (id_of_slot s2) = cache_size s2" using tables_okD(2) [OF ec_invD(1) [OF s2(2)]] .
  have al: "(case alphas_for_slots layer s2 of None \<Rightarrow> Inr () | Some (g, d) \<Rightarrow> check (length g = cache_size s2 \<and> length d = cache_size s2) ValueError) = Inr ()"
    using li by (cases "alphas s2") (auto simp: alphas_for_slots_def Let_def check_def)
  have ck: "check (\<forall>x \<in> set (bank_caches s2). length x = cache_size s2) ValueError = Inr ()" using vw by (simp add: check_def)
  show ?thesis
    using m unfolding decode_routed_traced_def decode_routed_def nv e(1) Let_def prod.case
    by (simp add: r0 r1 pf s2(1) bank_views_def ne ck al and_then_def)
qed

text \<open>C30: take any state that serving reaches from a set-up cache, a layer whose experts decode on the GPU, and
  routed ids as the router hands them over (a contiguous int32 tensor, not empty). The copy is the one the cache
  selects for the host it runs on, where a kept inspection result, if any, is still the current one. Then the traced
  decode passes all its checks (types, layout, ranges, slot owners, the host-mapping preflight, the sizes of views
  and scales), returns what the plain decode of the same ids returns, and leaves the same cache.\<close>

theorem trace_transparent:
  fixes ex :: "nat \<Rightarrow> 'w::zero \<Rightarrow> 'r list \<Rightarrow> ('r \<times> 'r) option \<Rightarrow> 'y::comm_monoid_add"
  assumes "slot_cache lru_ensure" and "\<forall>t rows al. ex t 0 rows al = 0"
    and "setup_cache False cpu_layers layers experts slots policy overlap hit fmt junk blank sources residency gu dn = Inr s0"
    and "cpu_layers \<noteq> {} \<longrightarrow> gu = None \<and> dn = None" and "serving lru_ensure ex k s0 s"
    and "layer < layers" and "layer \<notin> cpu_layers" and "\<forall>e \<in> set ids. e < experts" and "ids \<noteq> []" and "length ws = length ids"
    and "routed t ids" and "known = None \<or> known = Some (hm_safe (inspect_host_mapping host))"
    and "safe = should_use_safe_offload_copy host known"
  shows "\<exists>s'. decode_routed_traced lru_ensure host safe ex k layer ws t s = Inr (s', moe_reference ex k layer s0 ws ids) \<and>
    decode_routed lru_ensure True by_recency stats safe 0 fraction ex k layer ws ids s = Inr (s', moe_reference ex k layer s0 ws ids)"
proof -
  note S = setup_ok [OF assms(3)]
  have i: "serve_inv s0" "num_layers s0 = layers" "num_experts s0 = experts" by (rule S; use assms(4) in simp)+
  note V = serving_inv [OF assms(1,2) i(1) assms(5)]
  have b: "layer < num_layers s" "\<forall>e \<in> set ids. e < num_experts s" using assms(6,8) serving_config [OF V(2)] i(2,3) by simp_all
  have "decode_target s0 = decode_target_of False cpu_layers" "cpu_layer_ids s0 = cpu_layers" using S(5,6) assms(4) by simp_all
  then have m: "layer \<notin> cpu_layer_ids s" "decode_target s \<noteq> ''hybrid''"
    using V(2) assms(7) by (simp_all add: same_config_def decode_target_of_def)
  obtain pb where pf: "preflight_windows_rocm_host_mapping True host safe = Inr pb"
    using preflight_passes [OF assms(12), of True] unfolding assms(13) by blast
  show ?thesis
    using decode_ok [where ex = ex, OF assms(1) V(1) b assms(2,10) order_refl, of by_recency stats safe fraction k]
    unfolding traced_decode [where ex = ex, OF assms(1) V(1) b assms(9) m assms(11) pf, of k ws True by_recency stats 0 fraction]
      reference_config [OF V(2)]
    by blast
qed

text \<open>A Windows host with one mapped bank and one that the extension does not know: the safe copy is selected.\<close>

definition demo_host :: host_env where
  "demo_host = \<lparr>he_windows = True, he_hip = True, he_force_safe = False, he_residency = None,
     he_banks = [(''gate_up'', Some \<lparr>hb_ptr = Some 64, hb_cpu = True\<rparr>), (''down'', Some \<lparr>hb_ptr = Some 96, hb_cpu = True\<rparr>)],
     he_ext = ExtTranslates (\<lambda>p. if p = 64 then Some 4096 else None)\<rparr>"

definition demo_ids :: index_tensor where
  "demo_ids = \<lparr>ix_int32 = True, ix_contiguous = True, ix_shape = [2, 2], ix_vals = [0, 1, 2, 0]\<rparr>"

lemma demo_host_eval:
  "hm_mapped (inspect_host_mapping demo_host) = 1" "hm_failed (inspect_host_mapping demo_host) = ''down''"
  "should_use_safe_offload_copy demo_host None"
  by (simp_all add: demo_host_def inspect_host_mapping_def should_use_safe_offload_copy_def)

theorem trace_transparent_witness:
  "\<exists>s1. decode_routed_traced reference_lru demo_host True demo_ex 2 0 [1, 2, 3, 4] demo_ids (demo_cache False 6 True) = Inr (s1, [55, 143])"
proof -
  have z: "\<forall>t rows al. demo_ex t 0 rows al = 0" by (simp add: demo_ex_def)
  have r0: "moe_reference demo_ex 2 0 (demo_cache False 6 True) [1, 2, 3, 4] [0, 1, 2, 0] = [55, 143]"
    by (simp add: moe_reference_def expert_gemm_def demo_cache_def demo_ex_def alphas_for_layer_def scales_at_def upt_rec)
  have rt: "routed demo_ids [0, 1, 2, 0]" by (simp add: routed_def demo_ids_def)
  show ?thesis
    using trace_transparent [where ex = demo_ex and layer = 0 and ws = "[1, 2, 3, 4]" and safe = True and k = 2 and known = None
          and host = demo_host and by_recency = True and stats = True and fraction = 0,
        OF ref.slot_cache_axioms z demo_setup(2) [unfolded demo_setup_def] _ serving.start _ _ _ _ _ rt] demo_host_eval(3) r0 by auto
qed

section \<open>The automatic size\<close>

text \<open>C29: a size that the automatic sizing returns, for a quantization the banks know, is one that the expert cache
  accepts. It is large enough for a layer, the construction of a cache with that size and the planned overlap
  succeeds, and so does a rebuild to that size of any cache for the same experts and quantization whose banks are
  set; the rebuilt cache has that many slots and keeps the prefill overlap when it was on and the plan has it.\<close>

theorem auto_size_accepted:
  fixes s :: "'r ecache"
  assumes "resolve_auto_moe_cache_size cost state_bytes layers experts baseline weights memory_ratio per_expert overlap reserve_tokens fmt =
      Inr (moe, pages, ov)"
    and "map_of bank_schemas fmt \<noteq> None"
    and "num_experts s = experts" and "quant_format s = fmt" and "bank_sources s \<noteq> []"
  shows "require_offload_cache_size (nat moe) experts = Inr () \<and>
    (\<exists>c :: 'r ecache. ec_init layers experts (nat moe) ''lru'' ov hit fmt (decode_target_of hybrid cpu_layers) junk = Inr c) \<and>
    (\<exists>s'. ec_rebuild blank (nat moe) s = Inr s' \<and> cache_size s' = nat moe \<and> (ov \<and> prefill_overlap s \<longrightarrow> prefill_overlap s'))"
proof -
  obtain per_page fixed page_tokens min_reserve where cost: "cost = (per_page, fixed, page_tokens, min_reserve)" by (cases cost)
  note P = plan_cache_budget_ok [OF assms(1) [unfolded resolve_auto_moe_cache_size_def cost prod.case resolve_moe_cache_auto_def Let_def]]
  have e: "experts \<le> nat moe" using P(4) by simp
  have m: "fmt = ''nvfp4_marlin'' \<Longrightarrow> nat moe \<le> marlin_max_cache_size" using P(5) by (simp add: marlin_max_cache_size_def nat_le_iff)
  have o: "ov \<Longrightarrow> 2 * experts \<le> nat moe" using P(8) by (simp add: le_nat_iff)
  have v: "ec_validate_rebuild experts fmt (nat moe) = Inr ()" using e m by (auto simp: ec_validate_rebuild_def)
  have t: "decode_target_of hybrid cpu_layers \<in> {''gpu'', ''cpu'', ''hybrid''}" by (simp add: decode_target_of_def)
  have o': "(ov \<and> nat moe < 2 * experts) = False" using o by auto
  have "\<exists>c :: 'r ecache. ec_init layers experts (nat moe) ''lru'' ov hit fmt (decode_target_of hybrid cpu_layers) junk = Inr c"
    unfolding ec_init_def v and_then_def o' using t assms(2) by simp
  moreover have "\<exists>s'. ec_rebuild blank (nat moe) s = Inr s' \<and> cache_size s' = nat moe \<and> (ov \<and> prefill_overlap s \<longrightarrow> prefill_overlap s')"
    using assms(3-5) v o by (auto simp: ec_rebuild_def Let_def init_prefill_buffers_def reset_tables_def)
  ultimately show ?thesis using e by (simp add: require_offload_cache_size_def)
qed

theorem auto_size_accepted_witness:
  "resolve_auto_moe_cache_size (10, 100, 16, 64) 50 2 3 2000 300 (9 / 10) 20 True 32 ''bf16'' = Inr (6, 123, True) \<and>
   (\<exists>s'. ec_rebuild 0 6 (demo_cache False 9 True) = Inr s' \<and> cache_size s' = 6 \<and> prefill_overlap s')"
proof -
  have r: "resolve_auto_moe_cache_size (10, 100, 16, 64) 50 2 3 2000 300 (9 / 10) 20 True 32 ''bf16'' = Inr (6, 123, True)"
  proof -
    have n: "net_cache_budget_bytes (9 / 10) 2000 300 150 = 1350" by (simp add: net_cache_budget_bytes_def py_int_def)
    have p: "plan_cache_budget 1350 20 10 3 6 True 4 6 = Inr (6, 123, True)" by code_simp
    have d: "div_ceil 64 16 = 4" by code_simp
    show ?thesis by (simp add: resolve_auto_moe_cache_size_def resolve_moe_cache_auto_def n p d)
  qed
  have b: "map_of bank_schemas ''bf16'' \<noteq> None" by (simp add: bank_schemas_def)
  have d: "num_experts (demo_cache False 9 True) = 3" "quant_format (demo_cache False 9 True) = ''bf16''"
    "bank_sources (demo_cache False 9 True) \<noteq> []" "prefill_overlap (demo_cache False 9 True)"
    by (simp_all add: demo_cache_def)
  from auto_size_accepted [OF r b d(1-3)] show ?thesis using r d(4) by auto
qed

end
