(* ===== verification/Spec2Isabelle.thy ===== *)
theory Spec2Isabelle
  imports Prefix_Contract Hybrid_Cache Swa_Cache State_Pool Swa_Pool Dsv4_Pool Bounded_Rings
    Message_Codec Reasoning_Stream Allocators Page_Properties Prefill_Pass Scheduler_Drain Pool_Properties Detok_Stream Hybrid_Properties Swa_Properties
    Expert_Trace
begin

text \<open>
  A model of the serving core of FreeToken (\<^verbatim>\<open>src/python/freetoken\<close>), an inference server for language
  models: how a request gets its memory, how batches are formed and their results returned, how the
  experts of a mixture-of-experts model are kept in a GPU cache, and how tokens become the text
  a client reads. The definitions follow the Python source function by function; the theorems are
  about those definitions.

  \<^bold>\<open>The program and its parts.\<close> A request enters the scheduler as a message (\<^verbatim>\<open>message/utils.py\<close>).
  The scheduler (\<^verbatim>\<open>scheduler/scheduler.py\<close>) keeps it waiting until the prefill manager
  (\<^verbatim>\<open>scheduler/prefill.py\<close>) admits it: it gets a row of the page table (\<^verbatim>\<open>scheduler/table.py\<close>), the longest
  cached prefix of its prompt from a prefix cache (\<^verbatim>\<open>kvcache/*_cache.py\<close>) and pages for the rest from the
  page manager (\<^verbatim>\<open>scheduler/cache.py\<close>), which evicts cached prefixes when no page is free. The
  batch runs on the engine; one step later its sampled tokens are drained, sent to the detokenizer
  (\<^verbatim>\<open>tokenizer/detokenize.py\<close>) and, in the API server, split into reasoning and answer
  (\<^verbatim>\<open>server/reasoning_parser.py\<close>). The sizes of all pools are solved for before a buffer exists
  (\<^verbatim>\<open>engine/cache_budget.py\<close>, \<^verbatim>\<open>kvcache/base.py\<close>, \<^verbatim>\<open>kvcache/dsv4_cost_model.py\<close>). While a batch runs, each
  offloaded MoE layer (\<^verbatim>\<open>layers/moe.py\<close>) makes its routed experts resident in the expert cache
  (\<^verbatim>\<open>moe/offload_cache.py\<close>, \<^verbatim>\<open>moe/offload_kernels.py\<close>) or streams whole layers through it.

  \<^bold>\<open>Conventions.\<close> A Python class is a record of its attributes, a method a function from the record to
  its new value; a call that may raise returns \<open>err + 'a\<close>, with every raise, assertion and
  failing index of the source as an \<open>Inl\<close>. Objects that Python shares by reference (tree nodes,
  requests) live in explicit stores and are named by numbers. Dictionaries whose order the code uses
  are association lists, tensors and arrays are lists, Python integers are \<open>int\<close> or \<open>nat\<close>, floats of the
  sizing code are exact rationals (\<open>Python_Numbers\<close>). \<open>Prelude\<close> holds the errors, the sequencing \<open>and_then\<close>, the
  integer helpers of \<^verbatim>\<open>utils/misc.py\<close> and the shared lemma collections.

  \<^bold>\<open>Prefix caches.\<close> \<open>Radix_Tree\<close> is \<open>RadixTreeNode\<close> in a store of nodes and the walks the caches share;
  \<open>Radix_Cache\<close>, \<open>Hybrid_Cache\<close> and \<open>Swa_Cache\<close> are the three caches of \<^verbatim>\<open>kvcache/radix_cache.py\<close>,
  \<^verbatim>\<open>hybrid_radix_cache.py\<close> and \<^verbatim>\<open>swa_radix_cache.py\<close>. \<open>Radix_Invariant\<close>, \<open>Radix_Path\<close>, \<open>Radix_Update\<close>, \<open>Radix_Walk\<close>
  and \<open>Radix_Grow\<close> show that the store is a tree, what a split, a new leaf and a removal do to its paths and its
  content, and that the walk stops at the longest cached aligned prefix; \<open>Radix_Lock\<close> that the reference count of
  a node is the number of locks below it and that the counters of protected and evictable tokens are exact.
  \<open>Radix_Contract\<close> and \<open>Prefix_Contract\<close> state per operation what a caller may rely on. The locale \<open>prefix_cache\<close> is
  that contract; it is interpreted for the radix and the naive cache. \<open>Dual_Tree\<close>, \<open>Hybrid_Contract\<close>, \<open>Hybrid_Evict\<close>
  and \<open>Hybrid_Properties\<close> are the same for the cache whose nodes also own state snapshots: over every sequence of
  calls no operation raises, slots and snapshots are conserved, a match is the deepest prefix with a snapshot, an
  eviction takes nothing a held handle needs. \<open>Swa_Flags\<close>, \<open>Swa_Contract\<close>, \<open>Swa_Match\<close>, \<open>Swa_Lock\<close>, \<open>Swa_Evict\<close>,
  \<open>Swa_Insert\<close> and \<open>Swa_Properties\<close> do it for the sliding-window cache, where a node keeps its slots and may have lost its
  window copies: which tokens of a path are live, the boundary stamp of a lock, a match as the longest prefix
  whose trailing window is live, what an insertion revives and returns, both evictions.

  \<^bold>\<open>Pools and sizes.\<close> \<open>State_Pool\<close> (\<^verbatim>\<open>kvcache/linear_state_pool.py\<close>, \<^verbatim>\<open>scheduler/table.py\<close>), \<open>Swa_Pool\<close>
  (\<^verbatim>\<open>kvcache/hybrid_swa_pool.py\<close>) and \<open>Dsv4_Pool\<close> (\<^verbatim>\<open>kvcache/dsv4_paged_pool.py\<close>) are the slot allocators; \<open>Allocators\<close>
  states what they share as the locale \<open>slot_allocator\<close> and derives, for every sequence of calls, that no slot is held
  twice or lost. \<open>Kv_Sizing\<close> and \<open>Dsv4_Sizing\<close> are the byte models and searches; \<open>Pool_Properties\<close> shows that the planned
  numbers fit and are maximal, that the DeepSeek-V4 byte model is the size of the buffers, and the properties of the
  window pool and the rings.

  \<^bold>\<open>Scheduling.\<close> \<open>Cache_Manager\<close> is \<open>CacheManager\<close> with all four pool families; \<open>Page_Conservation\<close>, \<open>Page_Contract\<close>
  and \<open>Page_Safety\<close> show for the plain families that every slot of the pool is free, held by the tree or private
  to one running request, in every state that admission, allocation, chunk commit, finish and the lazy-free region
  reach, and that a reservation makes later decode allocations succeed; \<open>Page_Properties\<close> states these.
  The step relation of \<open>Page_Safety\<close> also continues a chunked prompt, so that a request may be
  prefilled in any number of pieces. \<open>Prefill\<close> is admission and batch formation, \<open>Prefill_Pass\<close> what one pass admits and where
  the next piece of a chunked prompt starts. \<open>Scheduler\<close> is the message
  handling, the overlap loop, the drain, aborts and the rebuild protocol; \<open>Scheduler_Drain\<close> shows what is sent and when.

  \<^bold>\<open>Expert offload.\<close> \<open>Expert_Cache\<close> has the state of \<open>OffloadMoeCache\<close>, its construction, rebuild and residency steps: the call of
  the external \<open>lru_ensure\<close>, the CPU mirror of the capped fetch and the GPU kernel itself, lane by lane.
  \<open>Expert_Movement\<close> has the copies, the materialisation of a layer and the prefill double buffer with its split into gathered
  and copied rows, \<open>Expert_Forward\<close> the decode and prefill paths of \<open>OffloadMoELayer\<close> and the set-up by the engine.
  \<open>Expert_Invariant\<close> (the two maps are inverse, a fetch takes least recently used slots), \<open>Expert_Coherence\<close> (an assigned slot holds its
  expert's row in every bank), \<open>Expert_Steps\<close>, \<open>Expert_Layers\<close>, \<open>Expert_Prefill\<close>, \<open>Expert_Serve\<close> and \<open>Expert_Setup\<close> carry the proof that in every
  reachable state decode and prefill compute what the experts compute straight from the host banks.
  \<open>slot_cache\<close> is the contract of the external slot cache as a locale, interpreted on the uncapped CPU mirror. \<open>Expert_Kernel\<close> shows
  that kernel and mirror are equal, \<open>Expert_Properties\<close> states the properties, \<open>Expert_Trace\<close> adds the traced decode with
  its tensor checks and the inspection of the host mapping behind the safe copy mode, the
  statistics, the automatic size and the bench profile.

  \<^bold>\<open>Text.\<close> \<open>Detokenize\<close> and \<open>Detok_Stream\<close> are the incremental detokenizer and what a client reads of a reply;
  \<open>Reasoning_Parser\<close> and \<open>Reasoning_Stream\<close> the reasoning parsers, one-shot and streaming; \<open>Message_Codec\<close> the wire format with
  its round trip; \<open>Bounded_Rings\<close> the request and the log ring.

  \<^bold>\<open>Parameters.\<close> What is not in the repository is an argument with named laws: the tokenizer's decoder
  (\<open>decoder_ok\<close>), \<open>lru_ensure\<close> of flashlib (\<open>slot_cache\<close>), the expert kernels (the contribution of a route, which is zero for
  weight zero), sampling, the engine's side of a rebuild, clocks, the contents of fresh memory. A property
  with such a hypothesis has a witness with a concrete function.

  \<^bold>\<open>Loops and fuel.\<close> Loops that follow a list or a number are structural. The walks of the trees have the number
  of nodes ever created as fuel; the invariant (paths do not repeat nodes) shows that this is enough, so that no
  operation returns \<open>Diverges\<close> in a reachable state. The doubling and the bisection of the DeepSeek-V4 search have the bytes
  available as fuel, and the theorem about the search states that it returns. The marker scan of the Harmony parser has
  the length of the text as fuel, with a theorem that it ends. The kernel products of the capped fetch are 32-bit in
  the source and unbounded here; they stay below \<open>2 ^ 31\<close> for fewer than \<open>2 ^ 15\<close> experts.

  \<^bold>\<open>Not modelled.\<close> Tensor programs and what surrounds them: attention and MoE kernels, models, weight loading, CUDA graphs,
  streams and events (copies happen in program order), sampling. Attention metadata, padding and position tensors of a batch. The
  HTTP API, the tool-call parsers (regular expressions, json and pydantic models), chat templates, the daemon, the command line and
  the terminal interface, ZMQ transport and the distributed runtime: input and output, or formats of third parties. The Muse Glimmer
  reasoning parser, and the routing histogram of the expert cache. Of the host mapping the registry of the mapped banks is an
  argument; creating and releasing a mapping are calls of the driver. The window and hybrid paths
  of the page manager are modelled, and their trees and pools have invariants of their own over arbitrary call sequences, but the
  properties of the page manager as a whole are proved over the radix and the naive cache, without
  a window pool, for requests without images; the source itself notes that an exhausted window pool
  is not handled (\<^verbatim>\<open>scheduler/cache.py\<close>).
\<close>

end
